(* ===== verification/Agro_Prelude.thy ===== *)
theory Agro_Prelude
  imports Main "HOL-Library.Word"
begin

text \<open>
  Shared ground of the development: the machine types of the firmware, the C string
  helpers its parsers use, and the generic lemmas on lists, bytes and 16-bit
  big-endian encoding that several components rest on.
\<close>

unbundle bit_operations_syntax

section \<open>Machine types\<close>

text \<open>\<open>uint8_t\<close>, \<open>uint16_t\<close> and \<open>uint32_t\<close> (also \<open>TickType_t\<close>) of the Cortex-M4 build.\<close>

type_synonym u8 = "8 word"
type_synonym u16 = "16 word"
type_synonym u32 = "32 word"

text \<open>The value an \<open>int32_t\<close> (or \<open>int\<close>) holds after the target's two's complement wrap.\<close>

definition wrap32 :: "int \<Rightarrow> int" where
  "wrap32 x = (x + 2 ^ 31) mod 2 ^ 32 - 2 ^ 31"

definition wrap8 :: "int \<Rightarrow> int" where
  "wrap8 x = (x + 2 ^ 7) mod 2 ^ 8 - 2 ^ 7"

named_theorems agro_defs \<open>unfolding of small accessor definitions\<close>
named_theorems inv_intros \<open>preservation of component invariants\<close>

lemma wrap32_id: "- (2 ^ 31) \<le> x \<Longrightarrow> x < 2 ^ 31 \<Longrightarrow> wrap32 x = x"
  by (simp add: wrap32_def)

lemma wrap32_range: "- (2 ^ 31) \<le> wrap32 x \<and> wrap32 x < 2 ^ 31"
  by (simp add: wrap32_def)

lemma wrap8_id: "- 128 \<le> x \<Longrightarrow> x < 128 \<Longrightarrow> wrap8 x = x"
  by (simp add: wrap8_def)

section \<open>Bytes and text\<close>

text \<open>A C string literal as the bytes it occupies (without the closing NUL).\<close>

definition ascii :: "string \<Rightarrow> u8 list" where
  "ascii s = map of_char s"

lemma length_ascii [simp]: "length (ascii s) = length s"
  by (simp add: ascii_def)

lemma ascii_append [simp]: "ascii (s @ t) = ascii s @ ascii t"
  by (simp add: ascii_def)

text \<open>The text a \<open>char\<close> buffer holds: its bytes before the first NUL.\<close>

definition cstr :: "u8 list \<Rightarrow> u8 list" where
  "cstr bs = takeWhile (\<lambda>b. b \<noteq> 0) bs"

lemma cstr_length: "length (cstr bs) \<le> length bs"
  by (simp add: cstr_def length_takeWhile_le)

lemma cstr_no_nul: "0 \<notin> set bs \<Longrightarrow> cstr bs = bs"
  by (induction bs) (auto simp: cstr_def)

lemma cstr_nul_free [simp]: "0 \<notin> set (cstr bs)"
  by (auto simp: cstr_def dest: set_takeWhileD)

lemma cstr_idem [simp]: "cstr (cstr bs) = cstr bs"
  by (rule cstr_no_nul) simp

text \<open>\<open>strstr\<close>: the offset of the first occurrence of the needle.\<close>

fun find_sub :: "u8 list \<Rightarrow> u8 list \<Rightarrow> nat option" where
  "find_sub n [] = (if n = [] then Some 0 else None)"
| "find_sub n (x # xs) =
     (if take (length n) (x # xs) = n then Some 0
      else map_option Suc (find_sub n xs))"

lemma find_sub_Some:
  "find_sub n h = Some i \<Longrightarrow> take (length n) (drop i h) = n \<and> i + length n \<le> length h"
proof (induction h arbitrary: i)
  case Nil
  then show ?case by (auto split: if_splits)
next
  case (Cons x xs)
  show ?case
  proof (cases "take (length n) (x # xs) = n")
    case True
    then have "length n \<le> length (x # xs)" by (metis length_take min.cobounded1)
    with Cons.prems True show ?thesis by simp
  next
    case False
    with Cons.prems obtain j where "find_sub n xs = Some j" "i = Suc j" by auto
    with Cons.IH show ?thesis by fastforce
  qed
qed

lemma find_sub_first:
  "find_sub n h = Some i \<Longrightarrow> j < i \<Longrightarrow> take (length n) (drop j h) \<noteq> n"
proof (induction h arbitrary: i j)
  case Nil
  then show ?case by (auto split: if_splits)
next
  case (Cons x xs)
  then show ?case by (cases j) (auto split: if_splits)
qed

lemma find_sub_None:
  "find_sub n h = None \<Longrightarrow> i \<le> length h \<Longrightarrow> take (length n) (drop i h) \<noteq> n"
proof (induction h arbitrary: i)
  case Nil
  then show ?case by (auto split: if_splits)
next
  case (Cons x xs)
  then show ?case by (cases i) (auto split: if_splits)
qed

lemma find_sub_here: "take (length n) h = n \<Longrightarrow> find_sub n h = Some 0"
  by (cases h) auto

text \<open>Decimal digits of a number, as \<open>%d\<close> and \<open>%u\<close> print them.\<close>

fun dec_digits :: "nat \<Rightarrow> u8 list" where
  "dec_digits n = (if n < 10 then [48 + of_nat n]
                   else dec_digits (n div 10) @ [48 + of_nat (n mod 10)])"

declare dec_digits.simps [simp del]

definition is_digit :: "u8 \<Rightarrow> bool" where
  "is_digit c \<longleftrightarrow> 48 \<le> c \<and> c \<le> 57"

lemma is_digit_of_nat: "d < 10 \<Longrightarrow> is_digit (48 + of_nat d)"
proof -
  assume "d < 10"
  then have "d \<in> {0, 1, 2, 3, 4, 5, 6, 7, 8, 9}" by auto
  then show ?thesis by (auto simp: is_digit_def)
qed

lemma dec_digits_digits: "\<forall>c \<in> set (dec_digits n). is_digit c"
proof (induction n rule: dec_digits.induct)
  case (1 n)
  then show ?case
    by (cases "n < 10") (auto simp: dec_digits.simps [of n] intro: is_digit_of_nat)
qed

lemma dec_digits_Nil [simp]: "dec_digits n \<noteq> []"
  by (subst dec_digits.simps) simp

text \<open>Reading a decimal number back, digit by digit, over the integers.\<close>

definition dec_value :: "u8 list \<Rightarrow> int" where
  "dec_value ds = foldl (\<lambda>v c. v * 10 + (uint c - 48)) 0 ds"

lemma uint_digit: "d < 10 \<Longrightarrow> uint (48 + of_nat d :: u8) = 48 + int d"
proof -
  assume "d < 10"
  then have "d \<in> {0, 1, 2, 3, 4, 5, 6, 7, 8, 9}" by auto
  then show ?thesis by auto
qed

lemma dec_value_digits: "dec_value (dec_digits n) = int n"
proof (induction n rule: dec_digits.induct)
  case (1 n)
  show ?case
  proof (cases "n < 10")
    case True
    then show ?thesis
      by (simp add: dec_digits.simps [of n] dec_value_def uint_digit)
  next
    case False
    with 1 have "dec_value (dec_digits (n div 10)) = int (n div 10)" by simp
    moreover have "int (n div 10) * 10 + int (n mod 10) = int n"
      by (metis div_mult_mod_eq of_nat_add of_nat_mult of_nat_numeral)
    ultimately show ?thesis
      using False by (simp add: dec_digits.simps [of n] dec_value_def uint_digit)
  qed
qed

lemma dec_digits_length: "n < 10 ^ k \<Longrightarrow> 1 \<le> k \<Longrightarrow> length (dec_digits n) \<le> k"
proof (induction n arbitrary: k rule: dec_digits.induct)
  case (1 n)
  show ?case
  proof (cases "n < 10")
    case True
    then show ?thesis using 1 by (simp add: dec_digits.simps [of n])
  next
    case False
    then obtain j where k: "k = Suc j" "1 \<le> j" using 1(2,3) by (cases k; cases "k - 1") auto
    have "n div 10 < 10 ^ j" using 1(2) k by (simp add: less_mult_imp_div_less mult.commute)
    with 1(1) [OF False this k(2)] k False show ?thesis by (simp add: dec_digits.simps [of n])
  qed
qed

lemma digit_uint: "is_digit c \<Longrightarrow> 48 \<le> uint c \<and> uint c \<le> 57"
  by (simp add: is_digit_def word_le_def)

lemma dec_foldl_mono:
  "\<forall>c \<in> set ds. is_digit c \<Longrightarrow> 0 \<le> acc \<Longrightarrow> acc \<le> foldl (\<lambda>v c. v * 10 + (uint c - 48)) acc ds"
proof (induction ds arbitrary: acc)
  case (Cons d ds)
  then have "acc \<le> acc * 10 + (uint d - 48)" using digit_uint [of d] by simp
  also have "\<dots> \<le> foldl (\<lambda>v c. v * 10 + (uint c - 48)) (acc * 10 + (uint d - 48)) ds"
    using Cons digit_uint [of d] by (intro Cons.IH) auto
  finally show ?case by simp
qed simp

section \<open>Big-endian 16-bit values\<close>

definition hi8 :: "u16 \<Rightarrow> u8" where "hi8 v = ucast (drop_bit 8 v)"
definition lo8 :: "u16 \<Rightarrow> u8" where "lo8 v = ucast v"
definition be16 :: "u8 \<Rightarrow> u8 \<Rightarrow> u16" where "be16 h l = push_bit 8 (ucast h) OR ucast l"

lemma be16_hi_lo [simp]: "be16 (hi8 v) (lo8 v) = v"
  unfolding be16_def hi8_def lo8_def
  by (rule bit_word_eqI)
    (auto simp: bit_or_iff bit_push_bit_iff bit_ucast_iff bit_drop_bit_eq)

lemma hi8_be16 [simp]: "hi8 (be16 h l) = h"
proof (rule bit_word_eqI)
  fix n
  assume "n < LENGTH(8)"
  then show "bit (hi8 (be16 h l)) n = bit h n"
    using bit_imp_le_length [of l "8 + n"]
    by (auto simp: be16_def hi8_def bit_or_iff bit_push_bit_iff bit_ucast_iff bit_drop_bit_eq)
qed

lemma lo8_be16 [simp]: "lo8 (be16 h l) = l"
  unfolding be16_def lo8_def
  by (rule bit_word_eqI) (auto simp: bit_or_iff bit_push_bit_iff bit_ucast_iff)

section \<open>Masks as remainders\<close>

lemma unat_and_mask7: "unat (x AND 0x7F :: u32) = unat x mod 128"
proof -
  have "(0x7F::u32) = mask 7" by (simp add: mask_eq_exp_minus_1)
  then have "x AND 0x7F = take_bit 7 x" by (simp only: take_bit_eq_mask)
  then have "unat (x AND 0x7F) = take_bit 7 (unat x)" by (simp only: unsigned_take_bit_eq)
  then show ?thesis by (simp only: take_bit_eq_mod) simp
qed

lemma unat_and_mask7_u8: "unat (b AND 0x7F :: u8) = unat b mod 128"
proof -
  have "(0x7F::u8) = mask 7" by (simp add: mask_eq_exp_minus_1)
  then have "b AND 0x7F = take_bit 7 b" by (simp only: take_bit_eq_mask)
  then have "unat (b AND 0x7F) = take_bit 7 (unat b)" by (simp only: unsigned_take_bit_eq)
  then show ?thesis by (simp only: take_bit_eq_mod) simp
qed

lemma u8_top_bit: "(b AND 0x80 :: u8) = 0 \<longleftrightarrow> unat b < 128"
proof -
  have "(b AND 2 ^ 7 = 0) = (\<not> bit b 7)" by (rule and_exp_eq_0_iff_not_bit)
  moreover have "bit b 7 \<longleftrightarrow> bit (unat b) 7" by (simp add: bit_unsigned_iff)
  moreover have "bit (unat b) 7 \<longleftrightarrow> odd (unat b div 128)" by (simp add: bit_iff_odd)
  moreover have "unat b < 2 ^ LENGTH(8)" by (rule unsigned_less)
  then have "unat b div 128 < 2" by simp
  then have "odd (unat b div 128) \<longleftrightarrow> \<not> unat b < 128" by (auto simp: less_2_cases_iff div_eq_0_iff)
  ultimately show ?thesis by simp
qed

lemma u8_or_128: "n < 128 \<Longrightarrow> (of_nat n :: u8) OR 128 = of_nat n + 128"
proof -
  assume "n < 128"
  then have "\<not> bit (of_nat n :: u8) 7"
    unfolding bit_of_nat_iff by (simp add: bit_iff_odd)
  then have "(of_nat n :: u8) AND 2 ^ 7 = 0"
    unfolding and_exp_eq_0_iff_not_bit .
  then show ?thesis using disjunctive_add_eq_or [of "of_nat n :: u8" "2 ^ 7"] by simp
qed

lemma unat_of_nat_u8: "n < 256 \<Longrightarrow> unat (of_nat n :: u8) = n"
  by (simp add: unat_of_nat)

lemma unat_of_nat_u16: "n < 65536 \<Longrightarrow> unat (of_nat n :: u16) = n"
  by (simp add: unat_of_nat)

lemma unat_u32_less: "unat (w :: u32) < 2 ^ 32"
proof -
  have "unat w < 2 ^ LENGTH(32)" by (rule unsigned_less)
  then show ?thesis by simp
qed

lemma unat_of_nat_u32: "n < 4294967296 \<Longrightarrow> unat (of_nat n :: u32) = n"
  by (simp add: unat_of_nat)

section \<open>Lists\<close>

lemma nth_update_list: "i < length xs \<Longrightarrow> (xs[i := v]) ! j = (if i = j then v else xs ! j)"
  by (simp add: nth_list_update)

lemma map_upt_cong: "(\<And>i. i < n \<Longrightarrow> f i = g i) \<Longrightarrow> map f [0..<n] = map g [0..<n]"
  by simp

lemma mod_add_inj:
  assumes "i < n" "j < n" "(a + i) mod n = (a + j) mod (n::nat)"
  shows "i = j"
proof -
  have "(int a + int i) mod int n = (int a + int j) mod int n"
    using assms(3) by (metis of_nat_add of_nat_mod)
  then have "int i mod int n = int j mod int n"
    by (metis add_diff_cancel_left' mod_diff_right_eq mod_diff_left_eq)
  then show ?thesis using assms(1,2) by simp
qed

end
