(* ===== verification/Malloc.thy ===== *)
theory Malloc
  imports Agro_Prelude
begin

text \<open>
  The block allocator behind the graphics and file buffers (\<open>Middlewares/MALLOC/malloc.c\<close>):
  three pools of 32-byte blocks, each with a table that holds, for every block of an
  allocation, the number of blocks the allocation has. Pointers are 32-bit addresses and the
  memory they point to is the store \<open>ram\<close>. A write outside the table is the result \<open>None\<close>.
\<close>

section \<open>State\<close>

datatype sram = SRAMIN | SRAMCCM | SRAMEX

fun memblksize :: "sram \<Rightarrow> u32" where
  "memblksize SRAMIN = 32" | "memblksize SRAMCCM = 32" | "memblksize SRAMEX = 32"

fun memsize :: "sram \<Rightarrow> u32" where
  "memsize SRAMIN = 20 * 1024" | "memsize SRAMCCM = 60 * 1024" | "memsize SRAMEX = 50 * 1024"

fun memtblsize :: "sram \<Rightarrow> nat" where
  "memtblsize SRAMIN = 640" | "memtblsize SRAMCCM = 1920" | "memtblsize SRAMEX = 1600"

record mallco_dev =
  membase :: "sram \<Rightarrow> u32"
  memmap :: "sram \<Rightarrow> u16 list"
  memrdy :: "sram \<Rightarrow> u8"
  ram :: "u32 \<Rightarrow> u8"

abbreviation NO_MEM :: u32 where "NO_MEM \<equiv> 0xFFFFFFFF"

section \<open>Operations\<close>

fun my_mem_copy :: "u32 \<Rightarrow> u32 \<Rightarrow> nat \<Rightarrow> (u32 \<Rightarrow> u8) \<Rightarrow> (u32 \<Rightarrow> u8)" where
  "my_mem_copy des src 0 m = m"
| "my_mem_copy des src (Suc n) m = my_mem_copy (des + 1) (src + 1) n (m(des := m src))"

fun my_mem_set :: "u32 \<Rightarrow> u8 \<Rightarrow> nat \<Rightarrow> (u32 \<Rightarrow> u8) \<Rightarrow> (u32 \<Rightarrow> u8)" where
  "my_mem_set s c 0 m = m"
| "my_mem_set s c (Suc n) m = my_mem_set (s + 1) c n (m(s := c))"

definition my_mem_init :: "sram \<Rightarrow> mallco_dev \<Rightarrow> mallco_dev" where
  "my_mem_init memx d =
     d\<lparr>memmap := (memmap d)(memx := replicate (memtblsize memx) 0),
       memrdy := (memrdy d)(memx := 1)\<rparr>"

definition my_mem_perused :: "sram \<Rightarrow> mallco_dev \<Rightarrow> u16" where
  "my_mem_perused memx d =
     (let used = (of_nat (length (filter (\<lambda>e. e \<noteq> 0) (memmap d memx))) :: u32)
      in ucast ((used * 1000) div of_nat (memtblsize memx)))"

text \<open>The scan from the top of the table; the last argument is one more than \<open>offset\<close>.\<close>

fun mem_scan :: "u16 list \<Rightarrow> u32 \<Rightarrow> u32 \<Rightarrow> nat \<Rightarrow> nat option" where
  "mem_scan m nmemb cmemb 0 = None"
| "mem_scan m nmemb cmemb (Suc offset) =
     (let cmemb' = (if m ! offset = 0 then cmemb + 1 else 0)
      in if cmemb' = nmemb then Some offset else mem_scan m nmemb cmemb' offset)"

text \<open>The marking loop \<open>memmap[offset + i] = v\<close> for \<open>i < n\<close>.\<close>

fun mem_mark :: "nat \<Rightarrow> nat \<Rightarrow> u16 \<Rightarrow> u16 list \<Rightarrow> u16 list" where
  "mem_mark offset 0 v m = m"
| "mem_mark offset (Suc n) v m = mem_mark (Suc offset) n v (m[offset := v])"

definition mem_blocks :: "sram \<Rightarrow> u32 \<Rightarrow> u32" where
  "mem_blocks memx bytes =
     bytes div memblksize memx + (if bytes mod memblksize memx \<noteq> 0 then 1 else 0)"

definition my_mem_malloc :: "sram \<Rightarrow> u32 \<Rightarrow> mallco_dev \<Rightarrow> u32 \<times> mallco_dev" where
  "my_mem_malloc memx bytes d0 =
     (let d = (if memrdy d0 memx = 0 then my_mem_init memx d0 else d0) in
      if bytes = 0 then (NO_MEM, d)
      else let nmemb = mem_blocks memx bytes in
        case mem_scan (memmap d memx) nmemb 0 (memtblsize memx) of
          Some offset \<Rightarrow>
            (of_nat offset * memblksize memx,
             d\<lparr>memmap := (memmap d)(memx := mem_mark offset (unat nmemb) (ucast nmemb) (memmap d memx))\<rparr>)
        | None \<Rightarrow> (NO_MEM, d))"

definition my_mem_free :: "sram \<Rightarrow> u32 \<Rightarrow> mallco_dev \<Rightarrow> (u8 \<times> mallco_dev) option" where
  "my_mem_free memx offset d =
     (if memrdy d memx = 0 then Some (1, my_mem_init memx d)
      else if offset < memsize memx then
        (let index = unat (offset div memblksize memx);
             nmemb = unat (memmap d memx ! index)
         in if index + nmemb \<le> memtblsize memx
            then Some (0, d\<lparr>memmap := (memmap d)(memx := mem_mark index nmemb 0 (memmap d memx))\<rparr>)
            else None)
      else Some (2, d))"

definition myfree :: "sram \<Rightarrow> u32 \<Rightarrow> mallco_dev \<Rightarrow> mallco_dev option" where
  "myfree memx ptr d =
     (if ptr = 0 then Some d
      else map_option snd (my_mem_free memx (ptr - membase d memx) d))"

definition mymalloc :: "sram \<Rightarrow> u32 \<Rightarrow> mallco_dev \<Rightarrow> u32 \<times> mallco_dev" where
  "mymalloc memx bytes d =
     (let (offset, d') = my_mem_malloc memx bytes d
      in if offset = NO_MEM then (0, d') else (membase d' memx + offset, d'))"

definition myrealloc :: "sram \<Rightarrow> u32 \<Rightarrow> u32 \<Rightarrow> mallco_dev \<Rightarrow> (u32 \<times> mallco_dev) option" where
  "myrealloc memx ptr bytes d =
     (let (offset, d1) = my_mem_malloc memx bytes d
      in if offset = NO_MEM then Some (0, d1)
         else let new = membase d1 memx + offset;
                  d2 = d1\<lparr>ram := my_mem_copy new ptr (unat bytes) (ram d1)\<rparr>
              in map_option (\<lambda>d3. (new, d3)) (myfree memx ptr d2))"

section \<open>Lemmas: the table\<close>

lemma length_mem_mark [simp]: "length (mem_mark off n v m) = length m"
  by (induction n arbitrary: off m) auto

lemma nth_mem_mark:
  "i < length m \<Longrightarrow>
   mem_mark off n v m ! i = (if off \<le> i \<and> i < off + n then v else m ! i)"
  by (induction n arbitrary: off m) (auto simp: nth_list_update)

definition free_run :: "u16 list \<Rightarrow> nat \<Rightarrow> nat \<Rightarrow> bool" where
  "free_run m i n \<longleftrightarrow> i + n \<le> length m \<and> (\<forall>j. i \<le> j \<and> j < i + n \<longrightarrow> m ! j = 0)"

text \<open>
  The scan keeps \<open>c\<close>, the length of the free run that starts at block \<open>k\<close>; it stops at the
  first block, from the top, that completes a run of the wanted length.
\<close>

lemma mem_scan_spec:
  assumes "k + c \<le> length m" "length m < 2 ^ 31" "free_run m k c" "c < unat nmemb"
    and "\<And>i. k \<le> i \<Longrightarrow> \<not> free_run m i (unat nmemb)"
    and "k + c = length m \<or> m ! (k + c) \<noteq> 0"
  shows "case mem_scan m nmemb (of_nat c) k of
      Some off \<Rightarrow> free_run m off (unat nmemb) \<and> (\<forall>i > off. \<not> free_run m i (unat nmemb))
    | None \<Rightarrow> (\<forall>i. \<not> free_run m i (unat nmemb))"
  using assms
proof (induction k arbitrary: c)
  case 0
  then show ?case by simp
next
  case (Suc k)
  define c' where "c' = (if m ! k = 0 then Suc c else 0)"
  have cw: "(if m ! k = 0 then of_nat c + 1 else 0 :: u32) = of_nat c'"
    by (simp add: c'_def add.commute)
  have small: "c' < 2 ^ 32" using Suc.prems(1,2) by (simp add: c'_def)
  then have eq: "of_nat c' = nmemb \<longleftrightarrow> c' = unat nmemb"
    by (auto simp: unat_of_nat_u32)
  have run: "free_run m k c'"
    using Suc.prems(1,3) by (auto simp: c'_def free_run_def not_less_eq_eq le_Suc_eq Suc_le_eq) (metis Suc_leI le_neq_implies_less)+
  have le: "c' \<le> unat nmemb" using Suc.prems(4) by (simp add: c'_def)
  show ?case
  proof (cases "c' = unat nmemb")
    case True
    then show ?thesis using run Suc.prems(5) eq
      by (simp add: Let_def cw Suc_le_eq)
  next
    case False
    have none: "\<not> free_run m i (unat nmemb)" if "k \<le> i" for i
    proof (cases "i = k")
      case True
      show ?thesis
      proof
        assume f: "free_run m i (unat nmemb)"
        have lt: "k + c' < k + unat nmemb" using le False by simp
        then have "k + c' < length m" "m ! (k + c') = 0"
          using f True by (auto simp: free_run_def)
        moreover have "k + c' = length m \<or> m ! (k + c') \<noteq> 0"
          using Suc.prems(6) by (auto simp: c'_def)
        ultimately show False by simp
      qed
    next
      case False
      then show ?thesis using Suc.prems(5) that by simp
    qed
    have "k + c' \<le> length m" using Suc.prems(1) by (simp add: c'_def)
    moreover have "k + c' = length m \<or> m ! (k + c') \<noteq> 0"
      using Suc.prems(6) by (auto simp: c'_def)
    ultimately have "case mem_scan m nmemb (of_nat c') k of
        Some off \<Rightarrow> free_run m off (unat nmemb) \<and> (\<forall>i > off. \<not> free_run m i (unat nmemb))
      | None \<Rightarrow> (\<forall>i. \<not> free_run m i (unat nmemb))"
      using Suc.IH [of c'] Suc.prems(2) run le False none by simp
    then show ?thesis using False eq by (simp add: Let_def cw)
  qed
qed

text \<open>
  What the table means, with the live allocations as a ghost set \<open>L\<close> of (first block,
  number of blocks): they lie inside the table, do not overlap, carry their own length, and
  every other entry is free.
\<close>

definition table_ok :: "sram \<Rightarrow> (nat \<times> nat) set \<Rightarrow> u16 list \<Rightarrow> bool" where
  "table_ok memx L m \<longleftrightarrow> length m = memtblsize memx \<and>
     (\<forall>i n. (i, n) \<in> L \<longrightarrow> 0 < n \<and> i + n \<le> length m \<and> (\<forall>j. i \<le> j \<and> j < i + n \<longrightarrow> m ! j = of_nat n)) \<and>
     (\<forall>i n i' n'. (i, n) \<in> L \<and> (i', n') \<in> L \<and> (i, n) \<noteq> (i', n') \<longrightarrow> i + n \<le> i' \<or> i' + n' \<le> i) \<and>
     (\<forall>j < length m. (\<forall>i n. (i, n) \<in> L \<longrightarrow> j < i \<or> i + n \<le> j) \<longrightarrow> m ! j = 0)"

lemma tbl_small: "memtblsize memx \<le> 1920" "unat (memsize memx) = 32 * memtblsize memx"
  "memblksize memx = 32"
  by (cases memx; simp)+

lemma table_ok_nz:
  assumes "table_ok memx L m" "(i, n) \<in> L"
  shows "unat (m ! i) = n" "i \<le> j \<Longrightarrow> j < i + n \<Longrightarrow> m ! j \<noteq> 0" "i + n \<le> length m" "0 < n"
proof -
  have b: "0 < n" "i + n \<le> length m" "\<And>j. i \<le> j \<Longrightarrow> j < i + n \<Longrightarrow> m ! j = of_nat n" "length m \<le> 1920"
    using assms tbl_small(1) [of memx] unfolding table_ok_def by (blast, blast, blast, simp)
  then have u: "unat (of_nat n :: u16) = n" by (simp add: unat_of_nat_u16)
  then show "unat (m ! i) = n" using b by simp
  have "(of_nat n :: u16) \<noteq> 0" using u b(1) by (metis unat_0 less_irrefl)
  then show "i \<le> j \<Longrightarrow> j < i + n \<Longrightarrow> m ! j \<noteq> 0" using b(3) by simp
  show "i + n \<le> length m" "0 < n" using b by auto
qed

lemma free_run_disjoint:
  assumes "table_ok memx L m" "free_run m off n" "(i, k) \<in> L" "0 < n"
  shows "i + k \<le> off \<or> off + n \<le> i"
proof (rule ccontr)
  assume "\<not> ?thesis"
  then obtain j where j: "i \<le> j" "j < i + k" "off \<le> j" "j < off + n"
    using assms(4) table_ok_nz(4) [OF assms(1,3)]
    by (metis le_add1 le_add_same_cancel1 not_le_imp_less less_add_same_cancel1 nle_le)
  then have "m ! j = 0" using assms(2) by (simp add: free_run_def)
  with table_ok_nz(2) [OF assms(1,3)] j show False by blast
qed

lemma table_ok_alloc:
  assumes ok: "table_ok memx L m" and run: "free_run m off n" "0 < n"
  shows "table_ok memx (insert (off, n) L) (mem_mark off n (of_nat n) m)"
proof -
  note dis = free_run_disjoint [OF ok run(1) _ run(2)]
  have old: "\<And>i k. (i, k) \<in> L \<Longrightarrow> 0 < k \<and> i + k \<le> length m \<and> (\<forall>j. i \<le> j \<and> j < i + k \<longrightarrow> m ! j = of_nat k)"
    and sep: "\<And>i k i' k'. (i, k) \<in> L \<Longrightarrow> (i', k') \<in> L \<Longrightarrow> (i, k) \<noteq> (i', k') \<Longrightarrow> i + k \<le> i' \<or> i' + k' \<le> i"
    and zero: "\<And>j. j < length m \<Longrightarrow> (\<forall>i k. (i, k) \<in> L \<longrightarrow> j < i \<or> i + k \<le> j) \<Longrightarrow> m ! j = 0"
    and len: "length m = memtblsize memx"
    using ok unfolding table_ok_def by blast+
  have in_run: "off + n \<le> length m" using run by (simp add: free_run_def)
  show ?thesis
    unfolding table_ok_def length_mem_mark
  proof (intro conjI allI impI)
    show "length m = memtblsize memx" by (rule len)
  next
    fix i k assume m: "(i, k) \<in> insert (off, n) L"
    then show "0 < k" "i + k \<le> length m" using old run(2) in_run by auto
    fix j assume j: "i \<le> j \<and> j < i + k"
    have jl: "j < length m" using j \<open>i + k \<le> length m\<close> by simp
    show "mem_mark off n (of_nat n) m ! j = of_nat k"
    proof (cases "(i, k) = (off, n)")
      case True
      then show ?thesis using j jl by (simp add: nth_mem_mark)
    next
      case False
      then have "(i, k) \<in> L" using m by blast
      then have "m ! j = of_nat k" "\<not> (off \<le> j \<and> j < off + n)"
        using old j dis [of i k] by auto
      then show ?thesis using jl by (auto simp: nth_mem_mark)
    qed
  next
    fix i k i' k'
    assume "(i, k) \<in> insert (off, n) L \<and> (i', k') \<in> insert (off, n) L \<and> (i, k) \<noteq> (i', k')"
    then show "i + k \<le> i' \<or> i' + k' \<le> i" using sep dis by blast
  next
    fix j assume j: "j < length m" "\<forall>i k. (i, k) \<in> insert (off, n) L \<longrightarrow> j < i \<or> i + k \<le> j"
    then have "m ! j = 0" "\<not> (off \<le> j \<and> j < off + n)"
      using zero by (blast, metis insertI1 not_le)
    then show "mem_mark off n (of_nat n) m ! j = 0" using j(1) by (auto simp: nth_mem_mark)
  qed
qed

lemma table_ok_free:
  assumes ok: "table_ok memx L m" and mem: "(off, n) \<in> L"
  shows "table_ok memx (L - {(off, n)}) (mem_mark off n 0 m)"
proof -
  have old: "\<And>i k. (i, k) \<in> L \<Longrightarrow> 0 < k \<and> i + k \<le> length m \<and> (\<forall>j. i \<le> j \<and> j < i + k \<longrightarrow> m ! j = of_nat k)"
    and sep: "\<And>i k i' k'. (i, k) \<in> L \<Longrightarrow> (i', k') \<in> L \<Longrightarrow> (i, k) \<noteq> (i', k') \<Longrightarrow> i + k \<le> i' \<or> i' + k' \<le> i"
    and zero: "\<And>j. j < length m \<Longrightarrow> (\<forall>i k. (i, k) \<in> L \<longrightarrow> j < i \<or> i + k \<le> j) \<Longrightarrow> m ! j = 0"
    and len: "length m = memtblsize memx"
    using ok unfolding table_ok_def by blast+
  show ?thesis
    unfolding table_ok_def length_mem_mark
  proof (intro conjI allI impI)
    show "length m = memtblsize memx" by (rule len)
  next
    fix i k assume m: "(i, k) \<in> L - {(off, n)}"
    then show "0 < k" "i + k \<le> length m" using old by auto
    fix j assume j: "i \<le> j \<and> j < i + k"
    have "\<not> (off \<le> j \<and> j < off + n)" using sep [of i k off n] mem m j by auto
    then show "mem_mark off n 0 m ! j = of_nat k"
      using old [of i k] m j by (auto simp: nth_mem_mark)
  next
    fix i k i' k'
    assume "(i, k) \<in> L - {(off, n)} \<and> (i', k') \<in> L - {(off, n)} \<and> (i, k) \<noteq> (i', k')"
    then show "i + k \<le> i' \<or> i' + k' \<le> i" using sep by blast
  next
    fix j assume j: "j < length m" "\<forall>i k. (i, k) \<in> L - {(off, n)} \<longrightarrow> j < i \<or> i + k \<le> j"
    show "mem_mark off n 0 m ! j = 0"
    proof (cases "off \<le> j \<and> j < off + n")
      case True
      then show ?thesis using j(1) by (simp add: nth_mem_mark)
    next
      case False
      then have "\<forall>i k. (i, k) \<in> L \<longrightarrow> j < i \<or> i + k \<le> j" using j(2) by force
      then show ?thesis using zero j(1) False by (simp add: nth_mem_mark)
    qed
  qed
qed

lemma mark_unmark:
  assumes "free_run m off n"
  shows "mem_mark off n 0 (mem_mark off n v m) = m"
  using assms by (intro nth_equalityI) (auto simp: nth_mem_mark free_run_def)

section \<open>Lemmas: the operations on a ready pool\<close>

definition dev_ok :: "sram \<Rightarrow> (nat \<times> nat) set \<Rightarrow> mallco_dev \<Rightarrow> bool" where
  "dev_ok memx L d \<longleftrightarrow> memrdy d memx \<noteq> 0 \<and> table_ok memx L (memmap d memx) \<and>
     membase d memx \<noteq> 0 \<and> unat (membase d memx) + unat (memsize memx) < 2 ^ 32"

lemma dev_ok_init:
  assumes "membase d memx \<noteq> 0" "unat (membase d memx) + unat (memsize memx) < 2 ^ 32"
  shows "dev_ok memx {} (my_mem_init memx d)"
  using assms by (simp add: dev_ok_def my_mem_init_def table_ok_def)

text \<open>The number of blocks is the size divided by 32, rounded up.\<close>

lemma div32_up:
  fixes x :: nat
  shows "x mod 32 = 0 \<Longrightarrow> (x + 31) div 32 = x div 32"
    "x mod 32 \<noteq> 0 \<Longrightarrow> (x + 31) div 32 = x div 32 + 1"
proof -
  define q r where "q = x div 32" "r = x mod 32"
  have x: "x = 32 * q + r" "r < 32" by (simp_all add: q_r_def)
  show "x mod 32 = 0 \<Longrightarrow> (x + 31) div 32 = x div 32"
    using x(1) unfolding q_r_def(2) [symmetric] q_r_def(1) [symmetric] by simp
  assume "x mod 32 \<noteq> 0"
  then have "x + 31 = 32 * (q + 1) + (r - 1)" "r - 1 < 32"
    using x unfolding q_r_def(2) [symmetric] by auto
  then show "(x + 31) div 32 = x div 32 + 1" unfolding q_r_def(1) [symmetric] by simp
qed

lemma unat_mem_blocks: "unat (mem_blocks memx bytes) = (unat bytes + 31) div 32"
proof -
  have um: "unat (bytes mod 32) = unat bytes mod 32" "unat (bytes div 32) = unat bytes div 32"
    by (simp_all only: unat_mod unat_div) simp_all
  then have z: "bytes mod 32 \<noteq> 0 \<longleftrightarrow> unat bytes mod 32 \<noteq> 0"
    by (metis unat_0_iff)
  have lt: "unat bytes < 2 ^ 32" using unsigned_less [of bytes] by simp
  then have "unat bytes div 32 + 1 < 2 ^ 32" by (simp add: less_mult_imp_div_less)
  then have u1: "unat (bytes div 32 + 1) = unat bytes div 32 + 1"
    using um(2) by (subst unat_word_ariths) simp
  show ?thesis
  proof (cases "unat bytes mod 32 = 0")
    case True
    then have "mem_blocks memx bytes = bytes div 32" "(unat bytes + 31) div 32 = unat bytes div 32"
      using z div32_up by (simp_all add: mem_blocks_def tbl_small(3))
    then show ?thesis using um(2) by simp
  next
    case False
    then have "mem_blocks memx bytes = bytes div 32 + 1" "(unat bytes + 31) div 32 = unat bytes div 32 + 1"
      using z div32_up by (simp_all add: mem_blocks_def tbl_small(3))
    then show ?thesis using u1 by simp
  qed
qed

definition blocks_for :: "u32 \<Rightarrow> nat" where
  "blocks_for bytes = (unat bytes + 31) div 32"

lemma blocks_for_pos: "bytes \<noteq> 0 \<Longrightarrow> 0 < blocks_for bytes"
  by (simp add: blocks_for_def div_greater_zero_iff) (metis unat_0_iff gr0I Suc_leI numeral_le_iff add_leD2 add.commute add_mono one_le_numeral)

lemma blocks_for_fits: "unat bytes \<le> 32 * blocks_for bytes"
proof -
  have "unat bytes + 31 < 32 * ((unat bytes + 31) div 32) + 32"
    using div_mult_mod_eq [of "unat bytes + 31" 32] mod_less_divisor [of 32 "unat bytes + 31"] by linarith
  then show ?thesis by (simp add: blocks_for_def)
qed

definition grab :: "sram \<Rightarrow> nat \<Rightarrow> nat \<Rightarrow> mallco_dev \<Rightarrow> mallco_dev" where
  "grab memx off n d =
     d\<lparr>memmap := (memmap d)(memx := mem_mark off n (of_nat n) (memmap d memx))\<rparr>"

lemma grab_simps [simp]:
  "membase (grab memx off n d) = membase d" "memrdy (grab memx off n d) = memrdy d"
  "ram (grab memx off n d) = ram d"
  "memmap (grab memx off n d) memx = mem_mark off n (of_nat n) (memmap d memx)"
  by (simp_all add: grab_def)

lemma my_mem_malloc_ready:
  assumes "dev_ok memx L d" "bytes \<noteq> 0"
  shows "(\<exists>off. free_run (memmap d memx) off (blocks_for bytes) \<and>
            (\<forall>i > off. \<not> free_run (memmap d memx) i (blocks_for bytes)) \<and>
            my_mem_malloc memx bytes d = (of_nat (32 * off), grab memx off (blocks_for bytes) d)) \<or>
         (\<forall>i. \<not> free_run (memmap d memx) i (blocks_for bytes)) \<and>
            my_mem_malloc memx bytes d = (NO_MEM, d)"
proof -
  let ?m = "memmap d memx" and ?n = "mem_blocks memx bytes"
  have n: "unat ?n = blocks_for bytes" by (simp add: unat_mem_blocks blocks_for_def)
  have u: "(ucast ?n :: u16) = of_nat (blocks_for bytes)"
    by (metis n of_nat_unat)
  have len: "length ?m = memtblsize memx" and rdy: "memrdy d memx \<noteq> 0"
    using assms(1) by (simp_all add: dev_ok_def table_ok_def)
  have "case mem_scan ?m ?n (of_nat 0) (memtblsize memx) of
      Some off \<Rightarrow> free_run ?m off (unat ?n) \<and> (\<forall>i > off. \<not> free_run ?m i (unat ?n))
    | None \<Rightarrow> (\<forall>i. \<not> free_run ?m i (unat ?n))"
    using blocks_for_pos [OF assms(2)] tbl_small(1) [of memx]
    by (intro mem_scan_spec) (auto simp: len n free_run_def)
  then show ?thesis
    using rdy assms(2)
    by (cases "mem_scan ?m ?n 0 (memtblsize memx)")
      (auto simp: my_mem_malloc_def Let_def n u grab_def tbl_small(3) mult.commute)
qed

text \<open>Addresses of blocks.\<close>

definition blk_ptr :: "sram \<Rightarrow> mallco_dev \<Rightarrow> nat \<Rightarrow> u32" where
  "blk_ptr memx d i = membase d memx + of_nat (32 * i)"

lemma unat_blk_ptr:
  assumes "dev_ok memx L d" "i \<le> memtblsize memx"
  shows "unat (blk_ptr memx d i) = unat (membase d memx) + 32 * i"
proof -
  have "unat (membase d memx) + 32 * i < 2 ^ 32"
    using assms tbl_small(2) [of memx] by (auto simp: dev_ok_def)
  moreover from this have "unat (of_nat (32 * i) :: u32) = 32 * i" by (intro unat_of_nat_u32) simp
  ultimately show ?thesis unfolding blk_ptr_def by (subst unat_add_lem [THEN iffD1]) simp_all
qed

lemma blk_ptr_nz:
  assumes "dev_ok memx L d" "i \<le> memtblsize memx"
  shows "blk_ptr memx d i \<noteq> 0"
proof -
  have "unat (membase d memx) > 0" using assms(1) by (simp add: dev_ok_def unat_gt_0)
  then show ?thesis using unat_blk_ptr [OF assms] by (metis add_gr_0 unat_0 less_irrefl)
qed

lemma blk_off:
  assumes "i < memtblsize memx"
  shows "blk_ptr memx d i - membase d memx = of_nat (32 * i)"
    "(of_nat (32 * i) :: u32) < memsize memx" "unat ((of_nat (32 * i) :: u32) div 32) = i"
    "(of_nat (32 * i) :: u32) \<noteq> NO_MEM"
proof -
  have "32 * i < 2 ^ 31" using assms tbl_small(1) [of memx] by simp
  then have u: "unat (of_nat (32 * i) :: u32) = 32 * i" by (intro unat_of_nat_u32) simp
  show "blk_ptr memx d i - membase d memx = of_nat (32 * i)" by (simp add: blk_ptr_def)
  show "(of_nat (32 * i) :: u32) < memsize memx"
    unfolding word_less_nat_alt u using assms tbl_small(2) [of memx] by simp
  show "unat ((of_nat (32 * i) :: u32) div 32) = i" unfolding unat_div u by simp
  show "(of_nat (32 * i) :: u32) \<noteq> NO_MEM"
  proof
    assume "(of_nat (32 * i) :: u32) = NO_MEM"
    then have "32 * i = unat NO_MEM" using u by simp
    then show False using \<open>32 * i < 2 ^ 31\<close> by simp
  qed
qed

lemma dev_ok_grab:
  assumes "dev_ok memx L d" "free_run (memmap d memx) off n" "0 < n"
  shows "dev_ok memx (insert (off, n) L) (grab memx off n d)"
  using assms table_ok_alloc [of memx L "memmap d memx" off n] by (simp add: dev_ok_def)

lemma free_run_bound:
  assumes "dev_ok memx L d" "free_run (memmap d memx) off n"
  shows "off + n \<le> memtblsize memx"
  using assms by (simp add: dev_ok_def table_ok_def free_run_def)

lemma mymalloc_ready:
  assumes "dev_ok memx L d" "bytes \<noteq> 0"
  shows "(\<exists>off. free_run (memmap d memx) off (blocks_for bytes) \<and>
            (\<forall>i > off. \<not> free_run (memmap d memx) i (blocks_for bytes)) \<and>
            mymalloc memx bytes d = (blk_ptr memx d off, grab memx off (blocks_for bytes) d)) \<or>
         (\<forall>i. \<not> free_run (memmap d memx) i (blocks_for bytes)) \<and> mymalloc memx bytes d = (0, d)"
proof -
  have ne: "(of_nat (32 * off) :: u32) \<noteq> NO_MEM"
    if "free_run (memmap d memx) off (blocks_for bytes)" for off
    using free_run_bound [OF assms(1) that] blocks_for_pos [OF assms(2)]
    by (intro blk_off(4) [of off memx]) simp
  from my_mem_malloc_ready [OF assms] show ?thesis
  proof (elim disjE exE conjE)
    fix off assume r: "free_run (memmap d memx) off (blocks_for bytes)"
      "\<forall>i>off. \<not> free_run (memmap d memx) i (blocks_for bytes)"
      "my_mem_malloc memx bytes d = (of_nat (32 * off), grab memx off (blocks_for bytes) d)"
    have "mymalloc memx bytes d = (blk_ptr memx d off, grab memx off (blocks_for bytes) d)"
      using ne [OF r(1)] unfolding mymalloc_def r(3) by (simp add: blk_ptr_def)
    with r show ?thesis by blast
  next
    assume "my_mem_malloc memx bytes d = (NO_MEM, d)"
      "\<forall>i. \<not> free_run (memmap d memx) i (blocks_for bytes)"
    then show ?thesis by (simp add: mymalloc_def)
  qed
qed

definition release :: "sram \<Rightarrow> nat \<Rightarrow> nat \<Rightarrow> mallco_dev \<Rightarrow> mallco_dev" where
  "release memx off n d = d\<lparr>memmap := (memmap d)(memx := mem_mark off n 0 (memmap d memx))\<rparr>"

lemma myfree_live:
  assumes "dev_ok memx L d" "(i, n) \<in> L"
  shows "myfree memx (blk_ptr memx d i) d = Some (release memx i n d)"
    "dev_ok memx (L - {(i, n)}) (release memx i n d)"
proof -
  have t: "table_ok memx L (memmap d memx)" "memrdy d memx \<noteq> 0"
    using assms(1) by (simp_all add: dev_ok_def)
  note nz = table_ok_nz [OF t(1) assms(2)]
  have len: "length (memmap d memx) = memtblsize memx" using t by (simp add: table_ok_def)
  have il: "i < memtblsize memx" using nz(3,4) len by simp
  have p: "blk_ptr memx d i \<noteq> 0" by (rule blk_ptr_nz [OF assms(1)]) (use il in simp)
  show "myfree memx (blk_ptr memx d i) d = Some (release memx i n d)"
    unfolding myfree_def my_mem_free_def if_not_P [OF p] if_not_P [OF t(2)] blk_off(1) [OF il]
      tbl_small(3) blk_off(3) [OF il] Let_def nz(1)
    using blk_off(2) [OF il] nz(3) len by (simp add: release_def)
  show "dev_ok memx (L - {(i, n)}) (release memx i n d)"
    using assms(1) table_ok_free [OF t(1) assms(2)] by (simp add: dev_ok_def release_def)
qed


section \<open>Lemmas: copying\<close>

lemma copy_outside:
  "(\<forall>j < n. a \<noteq> des + of_nat j) \<Longrightarrow> my_mem_copy des src n m a = m a"
proof (induction n arbitrary: des src m)
  case (Suc n)
  have "\<forall>j < n. a \<noteq> des + 1 + of_nat j"
    using Suc.prems by (metis Suc_less_eq add.assoc of_nat_Suc)
  moreover have "a \<noteq> des" using Suc.prems [rule_format, of 0] by simp
  ultimately show ?case by (simp add: Suc.IH)
qed simp

lemma of_nat_ne_32: "j < n \<Longrightarrow> n < 2 ^ 32 \<Longrightarrow> (a :: u32) + of_nat j \<noteq> a + of_nat n"
proof
  assume "j < n" "n < 2 ^ 32" "a + of_nat j = a + of_nat n"
  then have "unat (of_nat j :: u32) = unat (of_nat n :: u32)" by simp
  moreover have "unat (of_nat j :: u32) = j" "unat (of_nat n :: u32) = n"
    using \<open>j < n\<close> \<open>n < 2 ^ 32\<close> by (intro unat_of_nat_u32; simp)+
  ultimately show False using \<open>j < n\<close> by simp
qed

lemma copy_byte:
  "k < n \<Longrightarrow> n < 2 ^ 32 \<Longrightarrow> (\<forall>l < k. des + of_nat l \<noteq> src + of_nat k) \<Longrightarrow>
   my_mem_copy des src n m (des + of_nat k) = m (src + of_nat k)"
proof (induction n arbitrary: des src m k)
  case (Suc n)
  show ?case
  proof (cases k)
    case 0
    have "\<forall>j < n. des \<noteq> des + 1 + of_nat j"
    proof (intro allI impI)
      fix j assume "j < n"
      then have "des + of_nat 0 \<noteq> des + of_nat (Suc j)"
        using Suc.prems(2) by (intro of_nat_ne_32) simp_all
      then show "des \<noteq> des + 1 + of_nat j" by (simp add: add.assoc)
    qed
    then show ?thesis using 0 by (simp add: copy_outside)
  next
    case (Suc k')
    have ne: "des \<noteq> src + of_nat k" using Suc Suc.prems(3) [rule_format, of 0] by simp
    have "\<forall>l < k'. des + 1 + of_nat l \<noteq> src + 1 + of_nat k'"
    proof (intro allI impI)
      fix l assume "l < k'"
      then have "des + of_nat (Suc l) \<noteq> src + of_nat k" using Suc Suc.prems(3) by blast
      then show "des + 1 + of_nat l \<noteq> src + 1 + of_nat k'" using Suc by (simp add: add.assoc)
    qed
    then have "my_mem_copy (des + 1) (src + 1) n (m(des := m src)) (des + 1 + of_nat k')
        = (m(des := m src)) (src + 1 + of_nat k')"
      using Suc.IH [of k' "des + 1" "src + 1"] Suc.prems Suc by simp
    moreover have "des + 1 + of_nat k' = des + of_nat k" "src + 1 + of_nat k' = src + of_nat k"
      using Suc by (simp_all add: add.assoc)
    ultimately show ?thesis using ne by simp
  qed
qed simp

text \<open>Bytes of different blocks have different addresses.\<close>

lemma byte_addr:
  assumes "dev_ok memx L d" "32 * i + k \<le> 32 * memtblsize memx"
  shows "unat (blk_ptr memx d i + of_nat k) = unat (membase d memx) + (32 * i + k)"
proof -
  have i: "i \<le> memtblsize memx" using assms(2) by simp
  have lt: "unat (membase d memx) + (32 * i + k) < 2 ^ 32"
    using assms tbl_small(2) [of memx] by (auto simp: dev_ok_def)
  then have "unat (of_nat k :: u32) = k" by (intro unat_of_nat_u32) simp
  then show ?thesis
    using lt unat_blk_ptr [OF assms(1) i] by (subst unat_add_lem [THEN iffD1]) simp_all
qed

section \<open>Sequences of calls\<close>

text \<open>
  A client that allocates and frees: \<open>Alloc b\<close> keeps a non-null result with its size,
  \<open>Free k\<close> gives the k-th kept pointer back. \<open>None\<close> is a write outside the table.
\<close>

datatype heap_call = Alloc u32 | Free nat

fun heap_step :: "sram \<Rightarrow> heap_call \<Rightarrow> (u32 \<times> u32) list \<times> mallco_dev \<Rightarrow> ((u32 \<times> u32) list \<times> mallco_dev) option" where
  "heap_step memx (Alloc b) (ps, d) =
     (let (p, d') = mymalloc memx b d in Some (if p = 0 then ps else (p, b) # ps, d'))"
| "heap_step memx (Free k) (ps, d) =
     (if k < length ps
      then map_option (\<lambda>d'. (take k ps @ drop (Suc k) ps, d')) (myfree memx (fst (ps ! k)) d)
      else Some (ps, d))"

fun heap_run :: "sram \<Rightarrow> heap_call list \<Rightarrow> (u32 \<times> u32) list \<times> mallco_dev \<Rightarrow> ((u32 \<times> u32) list \<times> mallco_dev) option" where
  "heap_run memx [] s = Some s"
| "heap_run memx (c # cs) s =
     (case heap_step memx c s of None \<Rightarrow> None | Some s' \<Rightarrow> heap_run memx cs s')"

text \<open>
  The client's pointers are exactly the live blocks of the table; \<open>bl\<close> lists, beside each
  pointer, the index of its first block.
\<close>

definition live_set :: "(nat \<times> u32) list \<Rightarrow> (nat \<times> nat) set" where
  "live_set bl = (\<lambda>(i, b). (i, blocks_for b)) ` set bl"

definition client_ok :: "sram \<Rightarrow> (nat \<times> u32) list \<Rightarrow> (u32 \<times> u32) list \<times> mallco_dev \<Rightarrow> bool" where
  "client_ok memx bl s \<longleftrightarrow> (case s of (ps, d) \<Rightarrow>
     ps = map (\<lambda>(i, b). (blk_ptr memx d i, b)) bl \<and>
     distinct (map fst bl) \<and> (\<forall>x \<in> set bl. snd x \<noteq> 0) \<and> dev_ok memx (live_set bl) d)"

lemma blk_ptr_base: "membase d' = membase d \<Longrightarrow> blk_ptr memx d' i = blk_ptr memx d i"
  by (simp add: blk_ptr_def)

lemma my_mem_malloc_zero: "dev_ok memx L d \<Longrightarrow> mymalloc memx 0 d = (0, d)"
  by (simp add: dev_ok_def mymalloc_def my_mem_malloc_def)

lemma client_alloc:
  assumes "client_ok memx bl (ps, d)"
  shows "\<exists>bl' s'. heap_step memx (Alloc b) (ps, d) = Some s' \<and> client_ok memx bl' s'"
proof (cases "b = 0")
  case True
  then show ?thesis using assms my_mem_malloc_zero [of memx "live_set bl" d]
    by (auto simp: client_ok_def)
next
  case False
  have ok: "dev_ok memx (live_set bl) d" using assms by (simp add: client_ok_def)
  from mymalloc_ready [OF ok False] show ?thesis
  proof (elim disjE exE conjE)
    fix off assume r: "free_run (memmap d memx) off (blocks_for b)"
      "mymalloc memx b d = (blk_ptr memx d off, grab memx off (blocks_for b) d)"
    note n0 = blocks_for_pos [OF False]
    have bd: "off + blocks_for b \<le> memtblsize memx" by (rule free_run_bound [OF ok r(1)])
    have p: "blk_ptr memx d off \<noteq> 0" by (rule blk_ptr_nz [OF ok]) (use bd in simp)
    have new: "off \<notin> fst ` set bl"
    proof
      assume "off \<in> fst ` set bl"
      then obtain b' where "(off, b') \<in> set bl" by auto
      then have m: "(off, blocks_for b') \<in> live_set bl" by (force simp: live_set_def)
      have t: "table_ok memx (live_set bl) (memmap d memx)" using ok by (simp add: dev_ok_def)
      show False using free_run_disjoint [OF t r(1) m n0] table_ok_nz(4) [OF t m] n0 by simp
    qed
    have "client_ok memx ((off, b) # bl) ((blk_ptr memx d off, b) # ps, grab memx off (blocks_for b) d)"
      using assms new False dev_ok_grab [OF ok r(1) n0]
        blk_ptr_base [of "grab memx off (blocks_for b) d" d memx]
      by (auto simp: client_ok_def live_set_def)
    then show ?thesis using r(2) p by auto
  next
    assume "mymalloc memx b d = (0, d)"
    then show ?thesis using assms by auto
  qed
qed

lemma client_free:
  assumes "client_ok memx bl (ps, d)"
  shows "\<exists>bl' s'. heap_step memx (Free k) (ps, d) = Some s' \<and> client_ok memx bl' s'"
proof (cases "k < length ps")
  case True
  have c: "ps = map (\<lambda>(i, b). (blk_ptr memx d i, b)) bl" "distinct (map fst bl)"
    "\<forall>x \<in> set bl. snd x \<noteq> 0" "dev_ok memx (live_set bl) d"
    using assms by (simp_all add: client_ok_def)
  have k: "k < length bl" using True c(1) by simp
  obtain i b where ib: "bl ! k = (i, b)" by fastforce
  have m: "(i, blocks_for b) \<in> live_set bl" using ib k by (force simp: live_set_def in_set_conv_nth)
  define bl' where "bl' = take k bl @ drop (Suc k) bl"
  have split: "bl = take k bl @ (i, b) # drop (Suc k) bl" using ib k by (metis id_take_nth_drop)
  have ds: "distinct (map fst (take k bl @ (i, b) # drop (Suc k) bl))" using c(2) split by simp
  have sb: "set bl = insert (i, b) (set bl')" using split unfolding bl'_def
    by (metis Un_insert_right list.simps(15) set_append)
  have ni: "i \<notin> fst ` set bl'" using ds by (auto simp: bl'_def)
  have L: "live_set bl' = live_set bl - {(i, blocks_for b)}"
    using ni unfolding live_set_def sb by force
  have f: "fst (ps ! k) = blk_ptr memx d i" using ib k c(1) by simp
  have ps': "take k ps @ drop (Suc k) ps = map (\<lambda>(i, b). (blk_ptr memx d i, b)) bl'"
    unfolding c(1) bl'_def by (simp add: take_map drop_map)
  note fr = myfree_live [OF c(4) m]
  have "client_ok memx bl' (take k ps @ drop (Suc k) ps, release memx i (blocks_for b) d)"
    unfolding client_ok_def ps'
    using fr(2) L c(3) sb ds blk_ptr_base [of "release memx i (blocks_for b) d" d memx]
    by (auto simp: bl'_def release_def)
  then show ?thesis using True fr(1) f by auto
next
  case False
  then show ?thesis using assms by auto
qed

lemma client_run:
  "client_ok memx bl s \<Longrightarrow> \<exists>bl' s'. heap_run memx cs s = Some s' \<and> client_ok memx bl' s'"
proof (induction cs arbitrary: bl s)
  case (Cons c cs)
  obtain ps d where s: "s = (ps, d)" by (cases s)
  have "\<exists>bl' s'. heap_step memx c s = Some s' \<and> client_ok memx bl' s'"
    using client_alloc client_free Cons.prems s by (cases c) blast+
  with Cons.IH show ?case by fastforce
qed auto

lemma client_separate:
  assumes "client_ok memx bl (ps, d)" "k < l" "l < length ps"
  shows "unat (fst (ps ! k)) + unat (snd (ps ! k)) \<le> unat (fst (ps ! l)) \<or>
    unat (fst (ps ! l)) + unat (snd (ps ! l)) \<le> unat (fst (ps ! k))"
proof -
  have c: "ps = map (\<lambda>(i, b). (blk_ptr memx d i, b)) bl" "distinct (map fst bl)"
    "dev_ok memx (live_set bl) d" using assms by (simp_all add: client_ok_def)
  have kl: "k < length bl" "l < length bl" using assms c(1) by simp_all
  obtain i b j b' where e: "bl ! k = (i, b)" "bl ! l = (j, b')" by fastforce
  have ij: "i \<noteq> j" using c(2) kl e assms(2)
    by (metis distinct_conv_nth fst_conv length_map less_irrefl nth_map)
  have m: "(i, blocks_for b) \<in> live_set bl" "(j, blocks_for b') \<in> live_set bl"
    using e kl by (force simp: live_set_def in_set_conv_nth)+
  have t: "table_ok memx (live_set bl) (memmap d memx)" using c(3) by (simp add: dev_ok_def)
  have "i + blocks_for b \<le> j \<or> j + blocks_for b' \<le> i"
    using t m ij unfolding table_ok_def by blast
  moreover have "i \<le> memtblsize memx" "j \<le> memtblsize memx"
    using table_ok_nz(3) [OF t m(1)] table_ok_nz(3) [OF t m(2)] t by (simp_all add: table_ok_def)
  ultimately show ?thesis
    using unat_blk_ptr [OF c(3)] blocks_for_fits [of b] blocks_for_fits [of b'] e kl c(1) by auto
qed

lemma client_inside:
  assumes "client_ok memx bl (ps, d)" "k < length ps"
  shows "unat (membase d memx) \<le> unat (fst (ps ! k))"
    "unat (fst (ps ! k)) + unat (snd (ps ! k)) \<le> unat (membase d memx) + unat (memsize memx)"
proof -
  have c: "ps = map (\<lambda>(i, b). (blk_ptr memx d i, b)) bl" "dev_ok memx (live_set bl) d"
    using assms by (simp_all add: client_ok_def)
  obtain i b where e: "bl ! k = (i, b)" by fastforce
  have m: "(i, blocks_for b) \<in> live_set bl"
    using e assms(2) c(1) by (force simp: live_set_def in_set_conv_nth)
  have t: "table_ok memx (live_set bl) (memmap d memx)" using c(2) by (simp add: dev_ok_def)
  have i: "i + blocks_for b \<le> memtblsize memx"
    using table_ok_nz(3) [OF t m] t by (simp add: table_ok_def)
  have p: "ps ! k = (blk_ptr memx d i, b)" using e assms(2) c(1) by simp
  have u: "unat (blk_ptr memx d i) = unat (membase d memx) + 32 * i"
    using i by (intro unat_blk_ptr [OF c(2)]) simp
  show "unat (membase d memx) \<le> unat (fst (ps ! k))" using u p by simp
  show "unat (fst (ps ! k)) + unat (snd (ps ! k)) \<le> unat (membase d memx) + unat (memsize memx)"
    using u p i blocks_for_fits [of b] by (simp add: tbl_small(2))
qed

section \<open>Properties\<close>

text \<open>An allocation of a ready pool either fails, and then no run of free blocks is long
  enough and nothing changed, or returns the topmost run: inside the pool, long enough for the
  bytes asked for, disjoint from every live allocation, and accounted for in the table.\<close>

theorem mymalloc_spec:
  assumes "dev_ok memx L d" and "bytes \<noteq> 0"
  shows "let (p, d') = mymalloc memx bytes d; n = blocks_for bytes in
    if p = 0 then d' = d \<and> (\<forall>i. \<not> free_run (memmap d memx) i n)
    else \<exists>i. unat p = unat (membase d memx) + 32 * i \<and> unat bytes \<le> 32 * n \<and>
      i + n \<le> memtblsize memx \<and> dev_ok memx (insert (i, n) L) d' \<and>
      (\<forall>(j, k) \<in> L. j + k \<le> i \<or> i + n \<le> j) \<and>
      (\<forall>i' > i. \<not> free_run (memmap d memx) i' n)"
proof -
  have t: "table_ok memx L (memmap d memx)" using assms(1) by (simp add: dev_ok_def)
  note n0 = blocks_for_pos [OF assms(2)]
  from mymalloc_ready [OF assms] show ?thesis
  proof (elim disjE exE conjE)
    fix off assume r: "free_run (memmap d memx) off (blocks_for bytes)"
      "\<forall>i > off. \<not> free_run (memmap d memx) i (blocks_for bytes)"
      "mymalloc memx bytes d = (blk_ptr memx d off, grab memx off (blocks_for bytes) d)"
    have bd: "off + blocks_for bytes \<le> memtblsize memx" by (rule free_run_bound [OF assms(1) r(1)])
    then have p: "blk_ptr memx d off \<noteq> 0"
      "unat (blk_ptr memx d off) = unat (membase d memx) + 32 * off"
      using blk_ptr_nz [OF assms(1), of off] unat_blk_ptr [OF assms(1), of off] by simp_all
    have "\<forall>(j, k) \<in> L. j + k \<le> off \<or> off + blocks_for bytes \<le> j"
      using free_run_disjoint [OF t r(1) _ n0] by blast
    then show ?thesis using p bd r dev_ok_grab [OF assms(1) r(1) n0] blocks_for_fits [of bytes]
      by (auto simp: Let_def)
  next
    assume "mymalloc memx bytes d = (0, d)" "\<forall>i. \<not> free_run (memmap d memx) i (blocks_for bytes)"
    then show ?thesis by simp
  qed
qed

definition mem_boot :: mallco_dev where
  "mem_boot = \<lparr>membase = (\<lambda>_. 0x20000000), memmap = (\<lambda>_. []), memrdy = (\<lambda>_. 0), ram = (\<lambda>_. 0)\<rparr>"

lemma mem_boot_ok: "dev_ok memx {} (my_mem_init memx mem_boot)"
  by (rule dev_ok_init) (cases memx; simp add: mem_boot_def)+

text \<open>Freeing what was just allocated restores the allocator's state exactly.\<close>

theorem myfree_mymalloc:
  assumes "dev_ok memx L d" and "bytes \<noteq> 0" and "mymalloc memx bytes d = (p, d')" and "p \<noteq> 0"
  shows "myfree memx p d' = Some d"
proof -
  obtain off where r: "free_run (memmap d memx) off (blocks_for bytes)"
      "p = blk_ptr memx d off" "d' = grab memx off (blocks_for bytes) d"
    using mymalloc_ready [OF assms(1,2)] assms(3,4) by auto
  have ok: "dev_ok memx (insert (off, blocks_for bytes) L) d'"
    unfolding r(3) by (rule dev_ok_grab [OF assms(1) r(1) blocks_for_pos [OF assms(2)]])
  have "p = blk_ptr memx d' off" using r by (simp add: blk_ptr_def)
  then have "myfree memx p d' = Some (release memx off (blocks_for bytes) d')"
    using myfree_live(1) [OF ok insertI1] by simp
  moreover have "release memx off (blocks_for bytes) d' = d"
    using mark_unmark [OF r(1)] by (simp add: release_def r(3) grab_def)
  ultimately show ?thesis by simp
qed

lemma boot_scan: "my_mem_malloc SRAMIN 32 (my_mem_init SRAMIN mem_boot)
    = (of_nat (32 * 639), grab SRAMIN 639 1 (my_mem_init SRAMIN mem_boot))"
proof -
  have "mem_scan (replicate 640 0) 1 0 640 = Some 639"
    using mem_scan.simps(2) [of "replicate 640 0" 1 0 639] by (simp add: Let_def)
  then show ?thesis
    by (simp add: my_mem_malloc_def my_mem_init_def mem_blocks_def Let_def grab_def)
qed

lemma boot_mymalloc: "mymalloc SRAMIN 32 (my_mem_init SRAMIN mem_boot)
    = (0x20004FE0, grab SRAMIN 639 1 (my_mem_init SRAMIN mem_boot))"
  by (simp add: mymalloc_def boot_scan) (simp add: my_mem_init_def mem_boot_def)

lemma mymalloc_spec_witness:
  "let (p, d') = mymalloc SRAMIN 32 (my_mem_init SRAMIN mem_boot) in
   p \<noteq> 0 \<and> (\<exists>i. unat p = 0x20000000 + 32 * i \<and> i + 1 \<le> 640 \<and> dev_ok SRAMIN {(i, 1)} d')"
  using mymalloc_spec [OF mem_boot_ok, of 32 SRAMIN]
  unfolding boot_mymalloc
  by (simp add: blocks_for_def) (auto simp: my_mem_init_def mem_boot_def)

lemma myfree_mymalloc_witness:
  "let (p, d') = mymalloc SRAMIN 32 (my_mem_init SRAMIN mem_boot)
   in p = 0x20004FE0 \<and> myfree SRAMIN p d' = Some (my_mem_init SRAMIN mem_boot)"
  using myfree_mymalloc [OF mem_boot_ok _ boot_mymalloc] by (simp add: boot_mymalloc)

text \<open>C38: for any sequence of allocations and frees of kept pointers on a fresh pool, no
  write leaves the table, and at the end the regions of all kept pointers lie inside the pool
  and are pairwise disjoint.\<close>

theorem heap_calls_safe:
  assumes "membase d memx \<noteq> 0" and "unat (membase d memx) + unat (memsize memx) < 2 ^ 32"
  shows "\<exists>ps d'. heap_run memx cs ([], my_mem_init memx d) = Some (ps, d') \<and>
    (\<forall>k < length ps. unat (membase d' memx) \<le> unat (fst (ps ! k)) \<and>
       unat (fst (ps ! k)) + unat (snd (ps ! k)) \<le> unat (membase d' memx) + unat (memsize memx)) \<and>
    (\<forall>k l. k < l \<and> l < length ps \<longrightarrow>
       unat (fst (ps ! k)) + unat (snd (ps ! k)) \<le> unat (fst (ps ! l)) \<or>
       unat (fst (ps ! l)) + unat (snd (ps ! l)) \<le> unat (fst (ps ! k)))"
proof -
  have "client_ok memx [] ([], my_mem_init memx d)"
    using dev_ok_init [OF assms] by (simp add: client_ok_def live_set_def)
  from client_run [OF this] obtain bl ps d' where
    r: "heap_run memx cs ([], my_mem_init memx d) = Some (ps, d')" "client_ok memx bl (ps, d')"
    by (metis surj_pair)
  then show ?thesis using client_inside [OF r(2)] client_separate [OF r(2)] by blast
qed

lemma heap_calls_safe_witness:
  "\<exists>ps d'. heap_run SRAMEX [Alloc 33, Alloc 1, Free 1, Alloc 64] ([], my_mem_init SRAMEX mem_boot) = Some (ps, d')"
  using heap_calls_safe [of mem_boot SRAMEX "[Alloc 33, Alloc 1, Free 1, Alloc 64]"]
  by (simp add: mem_boot_def) blast

text \<open>The usage figure is exactly the share of blocks in use, in tenths of a percent,
  and never above 1000.\<close>

theorem my_mem_perused_spec:
  assumes "length (memmap d memx) = memtblsize memx"
  shows "unat (my_mem_perused memx d) =
      1000 * card {j. j < memtblsize memx \<and> memmap d memx ! j \<noteq> 0} div memtblsize memx
    \<and> unat (my_mem_perused memx d) \<le> 1000"
proof -
  define used where "used = length (filter (\<lambda>e. e \<noteq> 0) (memmap d memx))"
  have le: "used \<le> memtblsize memx" unfolding used_def assms [symmetric] by (rule length_filter_le)
  have card: "used = card {j. j < memtblsize memx \<and> memmap d memx ! j \<noteq> 0}"
    unfolding used_def length_filter_conv_card assms ..
  have lt: "used * 1000 < 2 ^ 32" using le tbl_small(1) [of memx] by simp
  have q: "used * 1000 div memtblsize memx \<le> 1000"
    using le div_le_mono [of "used * 1000" "1000 * memtblsize memx" "memtblsize memx"]
    by (cases "memtblsize memx = 0") simp_all
  have "(of_nat used :: u32) * 1000 = of_nat (used * 1000)" by simp
  moreover have "unat (of_nat (used * 1000) :: u32) = used * 1000"
    by (rule unat_of_nat_u32) (use lt in simp)
  moreover have "unat (of_nat (memtblsize memx) :: u32) = memtblsize memx"
    by (rule unat_of_nat_u32) (use tbl_small(1) [of memx] in simp)
  ultimately have d: "unat ((of_nat used * 1000 :: u32) div of_nat (memtblsize memx))
      = used * 1000 div memtblsize memx"
    by (simp only: unat_div)
  have "unat (my_mem_perused memx d) = used * 1000 div memtblsize memx"
    unfolding my_mem_perused_def Let_def used_def [symmetric]
    using q by (simp add: unsigned_ucast_eq d take_bit_eq_mod)
  then show ?thesis using q card by (simp add: mult.commute)
qed

lemma my_mem_perused_spec_witness:
  "unat (my_mem_perused SRAMCCM (my_mem_init SRAMCCM mem_boot)) = 0"
proof -
  have e: "{j. j < 1920 \<and> replicate 1920 (0 :: u16) ! j \<noteq> 0} = {}" by auto
  show ?thesis using my_mem_perused_spec [of "my_mem_init SRAMCCM mem_boot" SRAMCCM]
    by (simp add: my_mem_init_def e)
qed

lemma myrealloc_live:
  assumes ok: "dev_ok memx L d" and nz: "bytes \<noteq> 0" and live: "(i, n) \<in> L"
  shows "(\<exists>off. free_run (memmap d memx) off (blocks_for bytes) \<and>
       myrealloc memx (blk_ptr memx d i) bytes d = Some (blk_ptr memx d off,
         release memx i n ((grab memx off (blocks_for bytes) d)
           \<lparr>ram := my_mem_copy (blk_ptr memx d off) (blk_ptr memx d i) (unat bytes) (ram d)\<rparr>))) \<or>
     (\<forall>i. \<not> free_run (memmap d memx) i (blocks_for bytes)) \<and>
       myrealloc memx (blk_ptr memx d i) bytes d = Some (0, d)"
  using my_mem_malloc_ready [OF ok nz]
proof (elim disjE exE conjE)
  fix off assume r: "free_run (memmap d memx) off (blocks_for bytes)"
    "my_mem_malloc memx bytes d = (of_nat (32 * off), grab memx off (blocks_for bytes) d)"
  note n0 = blocks_for_pos [OF nz]
  have bd: "off < memtblsize memx" using free_run_bound [OF ok r(1)] n0 by simp
  let ?d2 = "(grab memx off (blocks_for bytes) d)
     \<lparr>ram := my_mem_copy (blk_ptr memx d off) (blk_ptr memx d i) (unat bytes) (ram d)\<rparr>"
  have ok2: "dev_ok memx (insert (off, blocks_for bytes) L) ?d2"
    using dev_ok_grab [OF ok r(1) n0] by (simp add: dev_ok_def)
  have "blk_ptr memx ?d2 i = blk_ptr memx d i" by (rule blk_ptr_base) simp
  then have "myfree memx (blk_ptr memx d i) ?d2 = Some (release memx i n ?d2)"
    using myfree_live(1) [OF ok2 insertI2 [OF live]] by simp
  then have "myrealloc memx (blk_ptr memx d i) bytes d = Some (blk_ptr memx d off, release memx i n ?d2)"
    using blk_off(4) [OF bd] unfolding myrealloc_def r(2) by (simp add: blk_ptr_def Let_def)
  then show ?thesis using r(1) by blast
next
  assume "\<forall>i. \<not> free_run (memmap d memx) i (blocks_for bytes)"
    "my_mem_malloc memx bytes d = (NO_MEM, d)"
  then show ?thesis by (simp add: myrealloc_def)
qed

text \<open>Bytes below \<open>m\<close> of the old block are not overwritten when they lie outside the new run.\<close>

lemma realloc_byte:
  fixes bytes :: u32
  assumes ok: "dev_ok memx L d" and run: "free_run (memmap d memx) off n'" "unat bytes \<le> 32 * n'"
    and dis: "i + m \<le> off \<or> off + n' \<le> i" and m: "i + m \<le> memtblsize memx"
    and k: "k < unat bytes" "k < 32 * m"
  shows "my_mem_copy (blk_ptr memx d off) (blk_ptr memx d i) (unat bytes) mem (blk_ptr memx d off + of_nat k)
    = mem (blk_ptr memx d i + of_nat k)"
proof (rule copy_byte)
  show "k < unat bytes" by (rule k(1))
  show "unat bytes < 2 ^ 32" by (rule unat_u32_less)
  have bd: "off + n' \<le> memtblsize memx" by (rule free_run_bound [OF ok run(1)])
  show "\<forall>l < k. blk_ptr memx d off + of_nat l \<noteq> blk_ptr memx d i + of_nat k"
  proof (intro allI impI notI)
    fix l assume l: "l < k" and e: "blk_ptr memx d off + of_nat l = blk_ptr memx d i + (of_nat k :: u32)"
    have "unat (blk_ptr memx d off + of_nat l) = unat (membase d memx) + (32 * off + l)"
      using bd l k(1) run(2) by (intro byte_addr [OF ok]) simp
    moreover have "unat (blk_ptr memx d i + of_nat k) = unat (membase d memx) + (32 * i + k)"
      using m k(2) by (intro byte_addr [OF ok]) simp
    ultimately have "32 * off + l = 32 * i + k" using e by simp
    then show False using dis l k run(2) by auto
  qed
qed

text \<open>Reallocating a live block keeps its content (up to the smaller of the two sizes),
  frees the old block and accounts for the new one; when there is no room it returns null and
  changes nothing, the old block included.\<close>

theorem myrealloc_keeps:
  assumes ok: "dev_ok memx L d" and nz: "bytes \<noteq> 0" and live: "(i, n) \<in> L"
  shows "\<exists>p d'. myrealloc memx (blk_ptr memx d i) bytes d = Some (p, d') \<and>
    (if p = 0 then d' = d
     else (\<forall>k < min (unat bytes) (32 * n). ram d' (p + of_nat k) = ram d (blk_ptr memx d i + of_nat k)) \<and>
       (\<exists>i'. p = blk_ptr memx d i' \<and> dev_ok memx (insert (i', blocks_for bytes) (L - {(i, n)})) d'))"
  using myrealloc_live [OF assms]
proof (elim disjE exE conjE)
  fix off assume r: "free_run (memmap d memx) off (blocks_for bytes)"
    "myrealloc memx (blk_ptr memx d i) bytes d = Some (blk_ptr memx d off,
         release memx i n ((grab memx off (blocks_for bytes) d)
           \<lparr>ram := my_mem_copy (blk_ptr memx d off) (blk_ptr memx d i) (unat bytes) (ram d)\<rparr>))"
  note n0 = blocks_for_pos [OF nz]
  have t: "table_ok memx L (memmap d memx)" using ok by (simp add: dev_ok_def)
  let ?d2 = "(grab memx off (blocks_for bytes) d)
     \<lparr>ram := my_mem_copy (blk_ptr memx d off) (blk_ptr memx d i) (unat bytes) (ram d)\<rparr>"
  have ok2: "dev_ok memx (insert (off, blocks_for bytes) L) ?d2"
    using dev_ok_grab [OF ok r(1) n0] by (simp add: dev_ok_def)
  have dis: "i + n \<le> off \<or> off + blocks_for bytes \<le> i"
    by (rule free_run_disjoint [OF t r(1) live n0])
  have ne: "(off, blocks_for bytes) \<noteq> (i, n)" using dis n0 table_ok_nz(4) [OF t live] by auto
  have L: "insert (off, blocks_for bytes) L - {(i, n)} = insert (off, blocks_for bytes) (L - {(i, n)})"
    using ne by blast
  have ok3: "dev_ok memx (insert (off, blocks_for bytes) (L - {(i, n)})) (release memx i n ?d2)"
    using myfree_live(2) [OF ok2 insertI2 [OF live]] unfolding L .
  have inn: "i + n \<le> memtblsize memx" using table_ok_nz(3) [OF t live] t by (simp add: table_ok_def)
  have "off \<le> memtblsize memx" using free_run_bound [OF ok r(1)] by simp
  then have pnz: "blk_ptr memx d off \<noteq> 0" by (rule blk_ptr_nz [OF ok])
  have "\<forall>k < min (unat bytes) (32 * n). ram (release memx i n ?d2) (blk_ptr memx d off + of_nat k)
      = ram d (blk_ptr memx d i + of_nat k)"
    using realloc_byte [OF ok r(1) blocks_for_fits dis inn] by (simp add: release_def)
  then show ?thesis using r(2) pnz ok3 by auto
next
  assume "myrealloc memx (blk_ptr memx d i) bytes d = Some (0, d)"
  then show ?thesis by simp
qed

lemma one_live: "dev_ok SRAMIN {(639, 1)} (grab SRAMIN 639 1 (my_mem_init SRAMIN mem_boot))"
proof -
  have "free_run (memmap (my_mem_init SRAMIN mem_boot) SRAMIN) 639 1"
    by (auto simp: free_run_def my_mem_init_def)
  from dev_ok_grab [OF mem_boot_ok this] show ?thesis by simp
qed

lemma myrealloc_keeps_witness:
  "\<exists>p d'. myrealloc SRAMIN (blk_ptr SRAMIN mem_boot 639) 40 (grab SRAMIN 639 1 (my_mem_init SRAMIN mem_boot))
     = Some (p, d')"
proof -
  have "blk_ptr SRAMIN (grab SRAMIN 639 1 (my_mem_init SRAMIN mem_boot)) 639 = blk_ptr SRAMIN mem_boot 639"
    by (rule blk_ptr_base) (simp add: my_mem_init_def)
  then show ?thesis using myrealloc_keeps [OF one_live, of 40 639 1] by auto
qed

text \<open>A growing reallocation copies the requested number of bytes, not the old block's:
  when another live block follows the old one, its bytes end up in the new block.\<close>

theorem myrealloc_overreads:
  assumes ok: "dev_ok memx L d" and live: "(i, n) \<in> L" and adj: "(i + n, n') \<in> L"
    and grow: "32 * n < unat bytes" and k: "k < 32 * n'" "32 * n + k < unat bytes"
    and res: "myrealloc memx (blk_ptr memx d i) bytes d = Some (p, d')" "p \<noteq> 0"
  shows "ram d' (p + of_nat (32 * n + k)) = ram d (blk_ptr memx d (i + n) + of_nat k)"
proof -
  have nz: "bytes \<noteq> 0" using grow by auto
  note n0 = blocks_for_pos [OF nz]
  have t: "table_ok memx L (memmap d memx)" using ok by (simp add: dev_ok_def)
  obtain off where r: "free_run (memmap d memx) off (blocks_for bytes)" "p = blk_ptr memx d off"
    "d' = release memx i n ((grab memx off (blocks_for bytes) d)
           \<lparr>ram := my_mem_copy (blk_ptr memx d off) (blk_ptr memx d i) (unat bytes) (ram d)\<rparr>)"
    using myrealloc_live [OF ok nz live] res by auto
  have dis: "i + (n + n') \<le> off \<or> off + blocks_for bytes \<le> i"
    using free_run_disjoint [OF t r(1) live n0] free_run_disjoint [OF t r(1) adj n0] n0 by linarith
  have inn: "i + (n + n') \<le> memtblsize memx" using table_ok_nz(3) [OF t adj] t by (simp add: table_ok_def)
  have "ram d' (p + of_nat (32 * n + k)) = ram d (blk_ptr memx d i + of_nat (32 * n + k))"
    using realloc_byte [OF ok r(1) blocks_for_fits dis inn k(2)] k(1) by (simp add: r(2,3) release_def)
  moreover have "blk_ptr memx d i + of_nat (32 * n + k) = blk_ptr memx d (i + n) + of_nat k"
    by (simp add: blk_ptr_def algebra_simps)
  ultimately show ?thesis by (simp only:)
qed


definition two_blocks :: mallco_dev where
  "two_blocks = grab SRAMIN 638 1 (grab SRAMIN 639 1 (my_mem_init SRAMIN mem_boot))"

lemma two_live: "dev_ok SRAMIN {(638, 1), (639, 1)} two_blocks"
proof -
  have "free_run (memmap (grab SRAMIN 639 1 (my_mem_init SRAMIN mem_boot)) SRAMIN) 638 1"
    by (auto simp: free_run_def nth_mem_mark) (simp_all add: my_mem_init_def)
  from dev_ok_grab [OF one_live this] show ?thesis unfolding two_blocks_def by simp
qed

lemma two_blocks_room: "free_run (memmap two_blocks SRAMIN) 0 2"
  by (auto simp: two_blocks_def free_run_def nth_mem_mark) (simp_all add: my_mem_init_def nth_mem_mark)

lemma myrealloc_overreads_witness:
  "\<exists>p d'. myrealloc SRAMIN (blk_ptr SRAMIN two_blocks 638) 40 two_blocks = Some (p, d') \<and>
     p \<noteq> 0 \<and> ram d' (p + of_nat 32) = ram two_blocks (blk_ptr SRAMIN two_blocks 639 + of_nat 0)"
proof -
  have b: "blocks_for 40 = 2" by (simp add: blocks_for_def)
  from myrealloc_live [OF two_live, of 40 638 1] two_blocks_room obtain off d' where
    r: "free_run (memmap two_blocks SRAMIN) off 2"
    "myrealloc SRAMIN (blk_ptr SRAMIN two_blocks 638) 40 two_blocks = Some (blk_ptr SRAMIN two_blocks off, d')"
    by (auto simp: b)
  have "off \<le> memtblsize SRAMIN" using free_run_bound [OF two_live r(1)] by simp
  then have p: "blk_ptr SRAMIN two_blocks off \<noteq> 0" by (rule blk_ptr_nz [OF two_live])
  show ?thesis
    using myrealloc_overreads [OF two_live, of 638 1 1 40 0, OF _ _ _ _ _ r(2) p] r(2) p by auto
qed

end
