(* ===== verification/Kernel_List.thy ===== *)
theory Kernel_List
  imports Agro_Prelude
begin

text \<open>
  The lists of the kernel (\<open>Middlewares/FreeRTOS/list.c\<close>, \<open>include/list.h\<close>): circular doubly linked
  lists through an end marker, with an index that walks around them. First the operations on
  linked items as the code has them, then the lists they stand for (\<open>klist\<close>: the entries from the
  marker on, and the entry the index points to) and the refinement between the two. The
  scheduler is modelled on the latter.
\<close>

section \<open>Linked items\<close>

text \<open>A pointer to an item: the end marker of a list, or the item of some owner; items and lists
  are named by numbers. The end marker has no owner and no container of its own.\<close>

datatype item_ref = ListEnd nat | Item nat

record ListItem_t =
  xItemValue :: u32
  pxNext :: item_ref
  pxPrevious :: item_ref
  pxContainer :: "nat option"

record List_t =
  uxNumberOfItems :: u32
  pxIndex :: item_ref

record list_heap =
  items :: "item_ref \<Rightarrow> ListItem_t"
  heads :: "nat \<Rightarrow> List_t"

abbreviation (input) portMAX_DELAY :: u32 where "portMAX_DELAY \<equiv> 0xFFFFFFFF"

definition set_pxNext :: "item_ref \<Rightarrow> item_ref \<Rightarrow> list_heap \<Rightarrow> list_heap" where
  "set_pxNext i n h = h\<lparr>items := (items h)(i := (items h i)\<lparr>pxNext := n\<rparr>)\<rparr>"

definition set_pxPrevious :: "item_ref \<Rightarrow> item_ref \<Rightarrow> list_heap \<Rightarrow> list_heap" where
  "set_pxPrevious i p h = h\<lparr>items := (items h)(i := (items h i)\<lparr>pxPrevious := p\<rparr>)\<rparr>"

definition set_container :: "item_ref \<Rightarrow> nat option \<Rightarrow> list_heap \<Rightarrow> list_heap" where
  "set_container i c h = h\<lparr>items := (items h)(i := (items h i)\<lparr>pxContainer := c\<rparr>)\<rparr>"

definition set_value :: "item_ref \<Rightarrow> u32 \<Rightarrow> list_heap \<Rightarrow> list_heap" where
  "set_value i v h = h\<lparr>items := (items h)(i := (items h i)\<lparr>xItemValue := v\<rparr>)\<rparr>"

definition set_index :: "nat \<Rightarrow> item_ref \<Rightarrow> list_heap \<Rightarrow> list_heap" where
  "set_index l i h = h\<lparr>heads := (heads h)(l := (heads h l)\<lparr>pxIndex := i\<rparr>)\<rparr>"

definition set_count :: "nat \<Rightarrow> u32 \<Rightarrow> list_heap \<Rightarrow> list_heap" where
  "set_count l n h = h\<lparr>heads := (heads h)(l := (heads h l)\<lparr>uxNumberOfItems := n\<rparr>)\<rparr>"

section \<open>Operations\<close>

definition vListInitialise :: "nat \<Rightarrow> list_heap \<Rightarrow> list_heap" where
  "vListInitialise l h =
     (let h = set_index l (ListEnd l) h;
          h = set_value (ListEnd l) portMAX_DELAY h;
          h = set_pxNext (ListEnd l) (ListEnd l) h;
          h = set_pxPrevious (ListEnd l) (ListEnd l) h
      in set_count l 0 h)"

definition vListInitialiseItem :: "item_ref \<Rightarrow> list_heap \<Rightarrow> list_heap" where
  "vListInitialiseItem i h = set_container i None h"

definition vListInsertEnd :: "nat \<Rightarrow> item_ref \<Rightarrow> list_heap \<Rightarrow> list_heap" where
  "vListInsertEnd l i h =
     (let idx = pxIndex (heads h l);
          h = set_pxNext i idx h;
          h = set_pxPrevious i (pxPrevious (items h idx)) h;
          h = set_pxNext (pxPrevious (items h idx)) i h;
          h = set_pxPrevious idx i h;
          h = set_container i (Some l) h
      in set_count l (uxNumberOfItems (heads h l) + 1) h)"

text \<open>The loop of \<open>vListInsert\<close>; on a list without its end marker it would not end.\<close>

partial_function (option) insert_position :: "u32 \<Rightarrow> item_ref \<Rightarrow> list_heap \<Rightarrow> item_ref option" where
  "insert_position v it h =
     (if xItemValue (items h (pxNext (items h it))) \<le> v then insert_position v (pxNext (items h it)) h else Some it)"

definition link_after :: "nat \<Rightarrow> item_ref \<Rightarrow> item_ref \<Rightarrow> list_heap \<Rightarrow> list_heap" where
  "link_after l it i h =
     (let h = set_pxNext i (pxNext (items h it)) h;
          h = set_pxPrevious (pxNext (items h i)) i h;
          h = set_pxPrevious i it h;
          h = set_pxNext it i h;
          h = set_container i (Some l) h
      in set_count l (uxNumberOfItems (heads h l) + 1) h)"

definition vListInsert :: "nat \<Rightarrow> item_ref \<Rightarrow> list_heap \<Rightarrow> list_heap option" where
  "vListInsert l i h =
     (let v = xItemValue (items h i) in
      case (if v = portMAX_DELAY then Some (pxPrevious (items h (ListEnd l))) else insert_position v (ListEnd l) h) of
        None \<Rightarrow> None
      | Some it \<Rightarrow> Some (link_after l it i h))"

text \<open>Removal, as the function and as the macro \<open>listREMOVE_ITEM\<close>; \<open>None\<close> is the access through a
  null container.\<close>

definition uxListRemove :: "item_ref \<Rightarrow> list_heap \<Rightarrow> (u32 \<times> list_heap) option" where
  "uxListRemove i h =
     (case pxContainer (items h i) of
        None \<Rightarrow> None
      | Some l \<Rightarrow>
          (let h = set_pxPrevious (pxNext (items h i)) (pxPrevious (items h i)) h;
               h = set_pxNext (pxPrevious (items h i)) (pxNext (items h i)) h;
               h = (if pxIndex (heads h l) = i then set_index l (pxPrevious (items h i)) h else h);
               h = set_container i None h;
               h = set_count l (uxNumberOfItems (heads h l) - 1) h
           in Some (uxNumberOfItems (heads h l), h)))"

definition listGET_OWNER_OF_NEXT_ENTRY :: "nat \<Rightarrow> list_heap \<Rightarrow> item_ref \<times> list_heap" where
  "listGET_OWNER_OF_NEXT_ENTRY l h =
     (let h = set_index l (pxNext (items h (pxIndex (heads h l)))) h;
          h = (if pxIndex (heads h l) = ListEnd l then set_index l (pxNext (items h (pxIndex (heads h l)))) h else h)
      in (pxIndex (heads h l), h))"

definition listLIST_IS_EMPTY :: "nat \<Rightarrow> list_heap \<Rightarrow> bool" where
  "listLIST_IS_EMPTY l h \<longleftrightarrow> uxNumberOfItems (heads h l) = 0"

definition listGET_HEAD_ENTRY :: "nat \<Rightarrow> list_heap \<Rightarrow> item_ref" where
  "listGET_HEAD_ENTRY l h = pxNext (items h (ListEnd l))"

section \<open>The lists they stand for\<close>

text \<open>The entries from the end marker on, and the entry the index points to (\<open>None\<close>: the marker).\<close>

record 'a klist =
  entries :: "'a list"
  cursor :: "'a option"

definition kl_empty :: "'a klist" where
  "kl_empty = \<lparr>entries = [], cursor = None\<rparr>"

text \<open>At the end of the walk: before the entry of the index.\<close>

definition kl_insert_end :: "'a \<Rightarrow> 'a klist \<Rightarrow> 'a klist" where
  "kl_insert_end x l = l\<lparr>entries := (case cursor l of
       None \<Rightarrow> entries l @ [x]
     | Some c \<Rightarrow> takeWhile (\<lambda>y. y \<noteq> c) (entries l) @ x # dropWhile (\<lambda>y. y \<noteq> c) (entries l))\<rparr>"

text \<open>Behind the entries with a value not above its own.\<close>

definition kl_insert :: "('a \<Rightarrow> u32) \<Rightarrow> 'a \<Rightarrow> 'a klist \<Rightarrow> 'a klist" where
  "kl_insert f x l = l\<lparr>entries := takeWhile (\<lambda>y. f y \<le> f x) (entries l) @ x # dropWhile (\<lambda>y. f y \<le> f x) (entries l)\<rparr>"

definition entry_before :: "'a \<Rightarrow> 'a list \<Rightarrow> 'a option" where
  "entry_before x es = (let us = takeWhile (\<lambda>y. y \<noteq> x) es in if us = [] then None else Some (last us))"

definition kl_remove :: "'a \<Rightarrow> 'a klist \<Rightarrow> 'a klist" where
  "kl_remove x l = l\<lparr>entries := remove1 x (entries l),
     cursor := (if cursor l = Some x then entry_before x (entries l) else cursor l)\<rparr>"

text \<open>The walk: the index moves to the next entry, over the marker.\<close>

definition kl_next :: "'a klist \<Rightarrow> 'a klist" where
  "kl_next l = (let rest = (case cursor l of None \<Rightarrow> entries l | Some c \<Rightarrow> tl (dropWhile (\<lambda>y. y \<noteq> c) (entries l))) in
     l\<lparr>cursor := (if rest \<noteq> [] then Some (hd rest) else if entries l \<noteq> [] then Some (hd (entries l)) else None)\<rparr>)"

section \<open>Paths\<close>

primrec path :: "(item_ref \<Rightarrow> item_ref) \<Rightarrow> (item_ref \<Rightarrow> item_ref) \<Rightarrow> item_ref \<Rightarrow> item_ref list \<Rightarrow> item_ref \<Rightarrow> bool" where
  "path nx pv a [] b \<longleftrightarrow> nx a = b \<and> pv b = a"
| "path nx pv a (x # xs) b \<longleftrightarrow> nx a = x \<and> pv x = a \<and> path nx pv x xs b"

lemma path_append: "path nx pv a (xs @ y # ys) b \<longleftrightarrow> path nx pv a xs y \<and> path nx pv y ys b"
  by (induction xs arbitrary: a) auto

lemma path_cong:
  "(\<And>z. z \<in> insert a (set xs) \<Longrightarrow> nx' z = nx z) \<Longrightarrow> (\<And>z. z \<in> insert b (set xs) \<Longrightarrow> pv' z = pv z) \<Longrightarrow>
   path nx' pv' a xs b = path nx pv a xs b"
  by (induction xs arbitrary: a) auto

lemma path_edge:
  "path nx pv a (us @ vs) b \<Longrightarrow> nx (last (a # us)) = hd (vs @ [b]) \<and> pv (hd (vs @ [b])) = last (a # us)"
  by (induction us arbitrary: a; cases vs) auto

lemma path_insert:
  assumes "path nx pv a (us @ vs) b" "distinct (a # us @ vs)" "distinct (us @ vs @ [b])" "x \<notin> set (a # b # us @ vs)"
  shows "path (nx(x := hd (vs @ [b]), last (a # us) := x)) (pv(hd (vs @ [b]) := x, x := last (a # us))) a (us @ x # vs) b"
  using assms
proof (induction us arbitrary: a)
  case Nil
  show ?case
  proof (cases vs)
    case Nil
    then show ?thesis using Nil.prems by auto
  next
    case (Cons v vs')
    have "path (nx(x := v, a := x)) (pv(v := x, x := a)) v vs' b = path nx pv v vs' b"
      by (rule path_cong) (use Nil.prems Cons in auto)
    then have "path (nx(x := v, a := x)) (pv(v := x, x := a)) v vs' b" using Nil.prems Cons by simp
    moreover have "x \<noteq> v" "v \<noteq> x" "a \<noteq> x" using Nil.prems Cons by auto
    ultimately show ?thesis unfolding Cons append.simps path.simps list.sel last.simps using Nil.prems Cons by simp
  qed
next
  case (Cons u us)
  let ?q = "hd (vs @ [b])"
  have q: "?q \<in> set (vs @ [b])" by (cases vs) auto
  then have "u \<noteq> ?q" using Cons.prems(3) by auto
  moreover have "last (u # us) \<noteq> a"
  proof
    assume "last (u # us) = a"
    moreover have "last (u # us) \<in> set (u # us)" by (rule last_in_set) simp
    ultimately show False using Cons.prems(2) by auto
  qed
  moreover have "path (nx(x := ?q, last (u # us) := x)) (pv(?q := x, x := last (u # us))) u (us @ x # vs) b"
    by (rule Cons.IH) (use Cons.prems in auto)
  moreover have "nx a = u" "pv u = a" "u \<noteq> x" "a \<noteq> x" using Cons.prems by auto
  ultimately show ?case unfolding append_Cons path.simps by simp
qed

lemma path_remove:
  assumes "path nx pv a (us @ x # vs) b" "distinct (a # us @ x # vs)" "distinct (us @ x # vs @ [b])"
  shows "path (nx(last (a # us) := hd (vs @ [b]))) (pv(hd (vs @ [b]) := last (a # us))) a (us @ vs) b"
  using assms
proof (induction us arbitrary: a)
  case Nil
  show ?case
  proof (cases vs)
    case Nil
    then show ?thesis using Nil.prems by auto
  next
    case (Cons v vs')
    have "path (nx(a := v)) (pv(v := a)) v vs' b = path nx pv v vs' b"
      by (rule path_cong) (use Nil.prems Cons in auto)
    then have "path (nx(a := v)) (pv(v := a)) v vs' b" using Nil.prems Cons by simp
    moreover have "x \<noteq> v" "v \<noteq> x" "a \<noteq> x" using Nil.prems Cons by auto
    ultimately show ?thesis unfolding Cons append.simps path.simps list.sel last.simps using Nil.prems Cons by simp
  qed
next
  case (Cons u us)
  let ?q = "hd (vs @ [b])"
  have q: "?q \<in> set (vs @ [b])" by (cases vs) auto
  then have "u \<noteq> ?q" using Cons.prems(3) by auto
  moreover have "last (u # us) \<noteq> a"
  proof
    assume "last (u # us) = a"
    moreover have "last (u # us) \<in> set (u # us)" by (rule last_in_set) simp
    ultimately show False using Cons.prems(2) by auto
  qed
  moreover have "path (nx(last (u # us) := ?q)) (pv(?q := last (u # us))) u (us @ vs) b"
    by (rule Cons.IH) (use Cons.prems in auto)
  moreover have "nx a = u" "pv u = a" using Cons.prems by auto
  ultimately show ?case unfolding append_Cons path.simps by simp
qed

section \<open>The relation\<close>

definition nx :: "list_heap \<Rightarrow> item_ref \<Rightarrow> item_ref" where "nx h i = pxNext (items h i)"
definition pv :: "list_heap \<Rightarrow> item_ref \<Rightarrow> item_ref" where "pv h i = pxPrevious (items h i)"
definition container :: "list_heap \<Rightarrow> item_ref \<Rightarrow> nat option" where "container h i = pxContainer (items h i)"
definition item_value :: "list_heap \<Rightarrow> item_ref \<Rightarrow> u32" where "item_value h i = xItemValue (items h i)"
definition index :: "list_heap \<Rightarrow> nat \<Rightarrow> item_ref" where "index h l = pxIndex (heads h l)"
definition count :: "list_heap \<Rightarrow> nat \<Rightarrow> u32" where "count h l = uxNumberOfItems (heads h l)"

text \<open>Every write changes one of these.\<close>

lemma heap_writes [simp]:
  "nx (set_pxNext i n h) = (nx h)(i := n)" "pv (set_pxNext i n h) = pv h" "container (set_pxNext i n h) = container h"
  "item_value (set_pxNext i n h) = item_value h" "index (set_pxNext i n h) = index h" "count (set_pxNext i n h) = count h"
  "nx (set_pxPrevious i n h) = nx h" "pv (set_pxPrevious i n h) = (pv h)(i := n)" "container (set_pxPrevious i n h) = container h"
  "item_value (set_pxPrevious i n h) = item_value h" "index (set_pxPrevious i n h) = index h" "count (set_pxPrevious i n h) = count h"
  "nx (set_container i c h) = nx h" "pv (set_container i c h) = pv h" "container (set_container i c h) = (container h)(i := c)"
  "item_value (set_container i c h) = item_value h" "index (set_container i c h) = index h" "count (set_container i c h) = count h"
  "nx (set_index l x h) = nx h" "pv (set_index l x h) = pv h" "container (set_index l x h) = container h"
  "item_value (set_index l x h) = item_value h" "index (set_index l x h) = (index h)(l := x)" "count (set_index l x h) = count h"
  "nx (set_count l k h) = nx h" "pv (set_count l k h) = pv h" "container (set_count l k h) = container h"
  "item_value (set_count l k h) = item_value h" "index (set_count l k h) = index h" "count (set_count l k h) = (count h)(l := k)"
  "nx (set_value i v h) = nx h" "pv (set_value i v h) = pv h" "container (set_value i v h) = container h"
  "item_value (set_value i v h) = (item_value h)(i := v)" "index (set_value i v h) = index h" "count (set_value i v h) = count h"
  by (simp_all add: fun_eq_iff nx_def pv_def container_def item_value_def index_def count_def
      set_pxNext_def set_pxPrevious_def set_container_def set_index_def set_count_def set_value_def)

definition ref_of :: "nat \<Rightarrow> nat option \<Rightarrow> item_ref" where
  "ref_of l c = (case c of None \<Rightarrow> ListEnd l | Some x \<Rightarrow> Item x)"

text \<open>List \<open>l\<close> of the heap stands for \<open>k\<close>.\<close>

definition list_rep :: "list_heap \<Rightarrow> nat \<Rightarrow> nat klist \<Rightarrow> bool" where
  "list_rep h l k \<longleftrightarrow> path (nx h) (pv h) (ListEnd l) (map Item (entries k)) (ListEnd l) \<and> distinct (entries k) \<and>
     (\<forall>x. container h (Item x) = Some l \<longleftrightarrow> x \<in> set (entries k)) \<and>
     count h l = of_nat (length (entries k)) \<and> length (entries k) < 2 ^ 32 \<and>
     item_value h (ListEnd l) = portMAX_DELAY \<and> index h l = ref_of l (cursor k) \<and> set_option (cursor k) \<subseteq> set (entries k)"

text \<open>All lists of the heap.\<close>

definition lists_rep :: "list_heap \<Rightarrow> (nat \<Rightarrow> nat klist) \<Rightarrow> bool" where
  "lists_rep h K \<longleftrightarrow> (\<forall>l. list_rep h l (K l))"

lemma list_rep_frame:
  assumes "list_rep h m k" "\<And>z. z \<in> insert (ListEnd m) (Item ` set (entries k)) \<Longrightarrow> nx h' z = nx h z \<and> pv h' z = pv h z"
    "\<And>x. container h' (Item x) = Some m \<longleftrightarrow> container h (Item x) = Some m" "count h' m = count h m"
    "item_value h' (ListEnd m) = item_value h (ListEnd m)" "index h' m = index h m"
  shows "list_rep h' m k"
proof -
  have "path (nx h') (pv h') (ListEnd m) (map Item (entries k)) (ListEnd m) =
    path (nx h) (pv h) (ListEnd m) (map Item (entries k)) (ListEnd m)"
    by (rule path_cong) (use assms(2) in auto)
  then show ?thesis using assms unfolding list_rep_def by simp
qed

lemma inj_on_Item [simp]: "inj_on Item A"
  by (simp add: inj_on_def)

lemma lists_disjoint:
  "lists_rep h K \<Longrightarrow> x \<in> set (entries (K l)) \<Longrightarrow> x \<in> set (entries (K m)) \<Longrightarrow> l = m"
  unfolding lists_rep_def list_rep_def by (metis option.inject)

text \<open>The two writes that every insertion ends in.\<close>

lemma rep_insert:
  fixes h h' :: list_heap
  assumes K: "lists_rep h K" and new: "\<And>m. x \<notin> set (entries (K m))" and es: "entries (K l) = us @ vs"
    and room: "length (entries (K l)) < 2 ^ 32 - 1"
    and n: "nx h' = (nx h)(Item x := hd (map Item vs @ [ListEnd l]), last (ListEnd l # map Item us) := Item x)"
    and p: "pv h' = (pv h)(hd (map Item vs @ [ListEnd l]) := Item x, Item x := last (ListEnd l # map Item us))"
    and c: "container h' = (container h)(Item x := Some l)" and u: "count h' = (count h)(l := count h l + 1)"
    and v: "item_value h' = item_value h" and i: "index h' = index h"
  shows "lists_rep h' (K(l := (K l)\<lparr>entries := us @ x # vs\<rparr>))"
proof -
  have r: "list_rep h m (K m)" for m using K by (simp add: lists_rep_def)
  have "list_rep h' l ((K l)\<lparr>entries := us @ x # vs\<rparr>)"
  proof -
    have d: "distinct (us @ vs)" "path (nx h) (pv h) (ListEnd l) (map Item us @ map Item vs) (ListEnd l)"
      using r[of l] es by (auto simp: list_rep_def)
    have "path (nx h') (pv h') (ListEnd l) (map Item us @ Item x # map Item vs) (ListEnd l)"
      unfolding n p by (rule path_insert[OF d(2)]) (use d(1) new[of l] es in \<open>auto simp: distinct_map\<close>)
    moreover have "count h' l = of_nat (length (us @ x # vs))"
      using r[of l] es u by (simp add: list_rep_def)
    ultimately show ?thesis using r[of l] es room new[of l] unfolding list_rep_def by (auto simp: c v i)
  qed
  moreover have "list_rep h' m (K m)" if "m \<noteq> l" for m
  proof (rule list_rep_frame[OF r])
    fix z assume z: "z \<in> insert (ListEnd m) (Item ` set (entries (K m)))"
    have "hd (map Item vs @ [ListEnd l]) \<in> insert (ListEnd l) (Item ` set (entries (K l)))"
      using es by (cases vs) auto
    moreover have "last (ListEnd l # map Item us) \<in> insert (ListEnd l) (Item ` set (entries (K l)))"
      using es by (cases us rule: rev_cases) auto
    moreover have "insert (ListEnd m) (Item ` set (entries (K m))) \<inter> insert (ListEnd l) (Item ` set (entries (K l))) = {}"
      using lists_disjoint[OF K] that by auto
    ultimately have "z \<noteq> hd (map Item vs @ [ListEnd l])" "z \<noteq> last (ListEnd l # map Item us)" using z by blast+
    moreover have "z \<noteq> Item x" using z new[of m] by auto
    ultimately show "nx h' z = nx h z \<and> pv h' z = pv h z" unfolding n p by simp
  next
    fix y
    show "container h' (Item y) = Some m \<longleftrightarrow> container h (Item y) = Some m"
      using that new[of m] r[of m] by (auto simp: c list_rep_def)
  qed (use that in \<open>simp_all add: u v i\<close>)
  ultimately show ?thesis by (simp add: lists_rep_def)
qed

section \<open>Refinement of the operations\<close>

lemma fold_fields:
  "pxNext (items h i) = nx h i" "pxPrevious (items h i) = pv h i" "pxContainer (items h i) = container h i"
  "xItemValue (items h i) = item_value h i" "pxIndex (heads h l) = index h l" "uxNumberOfItems (heads h l) = count h l"
  by (simp_all add: nx_def pv_def container_def item_value_def index_def count_def)

lemma list_rep_parts:
  assumes "list_rep h l k" "entries k = us @ vs"
  shows "nx h (last (ListEnd l # map Item us)) = hd (map Item vs @ [ListEnd l])"
    "pv h (hd (map Item vs @ [ListEnd l])) = last (ListEnd l # map Item us)"
  using path_edge[of "nx h" "pv h" "ListEnd l" "map Item us" "map Item vs" "ListEnd l"] assms by (auto simp: list_rep_def)

lemma end_split:
  assumes "list_rep h l k"
  obtains us vs where "entries k = us @ vs" "index h l = hd (map Item vs @ [ListEnd l])"
    "kl_insert_end x k = k\<lparr>entries := us @ x # vs\<rparr>"
proof (cases "cursor k")
  case None
  show ?thesis
    by (rule that[of "entries k" "[]"]) (use None assms in \<open>auto simp: list_rep_def ref_of_def kl_insert_end_def\<close>)
next
  case (Some c)
  then have c: "c \<in> set (entries k)" "index h l = Item c" using assms by (auto simp: list_rep_def ref_of_def)
  let ?vs = "dropWhile (\<lambda>y. y \<noteq> c) (entries k)"
  have "?vs \<noteq> []" using c(1) by (simp add: dropWhile_eq_Nil_conv)
  then have "hd (map Item ?vs @ [ListEnd l]) = Item (hd ?vs)" by (cases ?vs) auto
  also have "hd ?vs = c" using hd_dropWhile[OF \<open>?vs \<noteq> []\<close>] by simp
  finally show ?thesis
    by (intro that[of "takeWhile (\<lambda>y. y \<noteq> c) (entries k)" ?vs]) (use c(2) Some in \<open>auto simp: kl_insert_end_def\<close>)
qed

lemma vListInsertEnd_rep:
  assumes K: "lists_rep h K" and new: "\<And>m. x \<notin> set (entries (K m))" and room: "length (entries (K l)) < 2 ^ 32 - 1"
  shows "lists_rep (vListInsertEnd l (Item x) h) (K(l := kl_insert_end x (K l)))"
proof -
  have r: "list_rep h l (K l)" using K by (simp add: lists_rep_def)
  obtain us vs where s: "entries (K l) = us @ vs" "index h l = hd (map Item vs @ [ListEnd l])"
    "kl_insert_end x (K l) = (K l)\<lparr>entries := us @ x # vs\<rparr>" using end_split[OF r] .
  have q: "pv h (index h l) = last (ListEnd l # map Item us)" unfolding s(2) by (rule list_rep_parts(2)[OF r s(1)])
  have x: "index h l \<noteq> Item x" unfolding s(2) using new[of l] s(1) by (cases vs) auto
  show ?thesis unfolding s(3)
    by (rule rep_insert[OF K new s(1) room])
      (simp_all add: vListInsertEnd_def Let_def fold_fields q x s(2)[symmetric] fun_upd_twist[OF x] del: last.simps)
qed

lemma link_after_rep:
  assumes K: "lists_rep h K" and new: "\<And>m. x \<notin> set (entries (K m))" and room: "length (entries (K l)) < 2 ^ 32 - 1"
    and s: "entries (K l) = us @ vs"
  shows "lists_rep (link_after l (last (ListEnd l # map Item us)) (Item x) h) (K(l := (K l)\<lparr>entries := us @ x # vs\<rparr>))"
proof -
  have r: "list_rep h l (K l)" using K by (simp add: lists_rep_def)
  let ?it = "last (ListEnd l # map Item us)"
  have q: "nx h ?it = hd (map Item vs @ [ListEnd l])" by (rule list_rep_parts(1)[OF r s])
  have x: "?it \<noteq> Item x" using new[of l] s by (cases us rule: rev_cases) auto
  show ?thesis
    by (rule rep_insert[OF K new s room])
      (simp_all add: link_after_def Let_def fold_fields q x del: last.simps)
qed

lemma insert_position_walk:
  assumes "path (nx h) (pv h) a (map Item es) (ListEnd l)" "v < item_value h (ListEnd l)"
  shows "insert_position v a h = Some (last (a # map Item (takeWhile (\<lambda>y. item_value h (Item y) \<le> v) es)))"
  using assms
proof (induction es arbitrary: a)
  case Nil
  then show ?case by (subst insert_position.simps) (auto simp: fold_fields dest: leD)
next
  case (Cons y es)
  then show ?case by (subst insert_position.simps) (auto simp: fold_fields)
qed

lemma vListInsert_rep:
  assumes K: "lists_rep h K" and new: "\<And>m. x \<notin> set (entries (K m))" and room: "length (entries (K l)) < 2 ^ 32 - 1"
  shows "\<exists>h'. vListInsert l (Item x) h = Some h' \<and>
    lists_rep h' (K(l := kl_insert (\<lambda>y. item_value h (Item y)) x (K l))) \<and> item_value h' = item_value h"
proof -
  let ?f = "\<lambda>y. item_value h (Item y)"
  let ?us = "takeWhile (\<lambda>y. ?f y \<le> ?f x) (entries (K l))" and ?vs = "dropWhile (\<lambda>y. ?f y \<le> ?f x) (entries (K l))"
  let ?it = "last (ListEnd l # map Item ?us)"
  have r: "list_rep h l (K l)" using K by (simp add: lists_rep_def)
  have s: "entries (K l) = ?us @ ?vs" by simp
  have m: "(w :: u32) \<le> portMAX_DELAY" for w
  proof -
    have e: "portMAX_DELAY = (- 1 :: u32)" by simp
    show ?thesis unfolding e by (rule word_order.extremum)
  qed
  have pos: "(if ?f x = portMAX_DELAY then Some (pv h (ListEnd l)) else insert_position (?f x) (ListEnd l) h) = Some ?it"
  proof (cases "?f x = portMAX_DELAY")
    case True
    then have us: "?us = entries (K l)" using m by (simp add: takeWhile_eq_all_conv)
    show ?thesis unfolding us using True list_rep_parts(2)[OF r, of "entries (K l)" "[]"] by simp
  next
    case False
    have "?f x < portMAX_DELAY" using m[of "?f x"] False by (rule order.not_eq_order_implies_strict[rotated])
    then show ?thesis using False r insert_position_walk[of h "ListEnd l" "entries (K l)" l "?f x"]
      by (simp add: list_rep_def)
  qed
  have "vListInsert l (Item x) h = Some (link_after l ?it (Item x) h)"
    unfolding vListInsert_def Let_def fold_fields pos by simp
  moreover have "item_value (link_after l ?it (Item x) h) = item_value h"
    by (simp add: link_after_def Let_def)
  ultimately show ?thesis using link_after_rep[OF K new room s] by (simp add: kl_insert_def)
qed

lemma entry_before_split:
  assumes "distinct (us @ x # vs)"
  shows "entry_before x (us @ x # vs) = (if us = [] then None else Some (last us))"
proof -
  have "takeWhile (\<lambda>y. y \<noteq> x) (us @ x # vs) = us" using assms by (auto simp: takeWhile_append)
  then show ?thesis by (simp add: entry_before_def Let_def)
qed

lemma ref_of_before:
  "distinct (us @ x # vs) \<Longrightarrow> ref_of l (entry_before x (us @ x # vs)) = last (ListEnd l # map Item us)"
  by (simp add: entry_before_split ref_of_def last_map)

lemma rep_remove:
  fixes h h' :: list_heap
  assumes K: "lists_rep h K" and es: "entries (K l) = us @ x # vs"
    and n: "nx h' = (nx h)(last (ListEnd l # map Item us) := hd (map Item vs @ [ListEnd l]))"
    and p: "pv h' = (pv h)(hd (map Item vs @ [ListEnd l]) := last (ListEnd l # map Item us))"
    and c: "container h' = (container h)(Item x := None)" and u: "count h' = (count h)(l := count h l - 1)"
    and v: "item_value h' = item_value h" and i: "index h' = (index h)(l := ref_of l (cursor (kl_remove x (K l))))"
  shows "lists_rep h' (K(l := kl_remove x (K l)))"
proof -
  have r: "list_rep h m (K m)" for m using K by (simp add: lists_rep_def)
  have d: "distinct (us @ x # vs)" "path (nx h) (pv h) (ListEnd l) (map Item us @ Item x # map Item vs) (ListEnd l)"
    using r[of l] es by (auto simp: list_rep_def)
  have e: "entries (kl_remove x (K l)) = us @ vs" using d(1) es by (simp add: kl_remove_def remove1_append)
  have "list_rep h' l (kl_remove x (K l))"
  proof -
    have "path (nx h') (pv h') (ListEnd l) (map Item us @ map Item vs) (ListEnd l)"
      unfolding n p by (rule path_remove[OF d(2)]) (use d(1) in \<open>auto simp: distinct_map\<close>)
    moreover have "count h' l = of_nat (length (us @ vs))"
      using r[of l] es u by (simp add: list_rep_def)
    moreover have "set_option (cursor (kl_remove x (K l))) \<subseteq> set (us @ vs)"
    proof (cases "cursor (K l) = Some x")
      case True
      then show ?thesis using entry_before_split[OF d(1)] es by (simp add: kl_remove_def)
    next
      case False
      then show ?thesis using r[of l] es by (auto simp: list_rep_def kl_remove_def)
    qed
    ultimately show ?thesis using r[of l] es d(1) unfolding list_rep_def e by (auto simp: c v i)
  qed
  moreover have "list_rep h' m (K m)" if "m \<noteq> l" for m
  proof (rule list_rep_frame[OF r])
    fix z assume z: "z \<in> insert (ListEnd m) (Item ` set (entries (K m)))"
    have "hd (map Item vs @ [ListEnd l]) \<in> insert (ListEnd l) (Item ` set (entries (K l)))"
      using es by (cases vs) auto
    moreover have "last (ListEnd l # map Item us) \<in> insert (ListEnd l) (Item ` set (entries (K l)))"
      using es by (cases us rule: rev_cases) auto
    moreover have "insert (ListEnd m) (Item ` set (entries (K m))) \<inter> insert (ListEnd l) (Item ` set (entries (K l))) = {}"
      using lists_disjoint[OF K] that by auto
    ultimately have "z \<noteq> hd (map Item vs @ [ListEnd l])" "z \<noteq> last (ListEnd l # map Item us)" using z by blast+
    then show "nx h' z = nx h z \<and> pv h' z = pv h z" unfolding n p by simp
  next
    fix y
    have "container h (Item x) = Some l" using r[of l] es by (simp add: list_rep_def)
    then show "container h' (Item y) = Some m \<longleftrightarrow> container h (Item y) = Some m"
      using that by (simp add: c)
  qed (use that in \<open>simp_all add: u v i\<close>)
  ultimately show ?thesis by (simp add: lists_rep_def)
qed

lemma uxListRemove_rep:
  assumes K: "lists_rep h K" and x: "x \<in> set (entries (K l))"
  shows "\<exists>h'. uxListRemove (Item x) h = Some (of_nat (length (entries (kl_remove x (K l)))), h') \<and>
    lists_rep h' (K(l := kl_remove x (K l))) \<and> item_value h' = item_value h"
proof -
  have r: "list_rep h l (K l)" using K by (simp add: lists_rep_def)
  obtain us vs where es: "entries (K l) = us @ x # vs" using split_list[OF x] by auto
  have d: "distinct (us @ x # vs)" using r es by (simp add: list_rep_def)
  let ?n = "hd (map Item vs @ [ListEnd l])" and ?p = "last (ListEnd l # map Item us)"
  have c: "container h (Item x) = Some l" using r x by (simp add: list_rep_def)
  have n: "nx h (Item x) = ?n" using list_rep_parts(1)[OF r, of "us @ [x]" vs] es by simp
  have p: "pv h (Item x) = ?p" using list_rep_parts(2)[OF r es] by simp
  have ne: "?n \<noteq> Item x" "?p \<noteq> Item x" using d by (cases vs; cases us rule: rev_cases; auto)+
  have i: "index h l = ref_of l (cursor (K l))" using r by (simp add: list_rep_def)
  have ix: "index h l = Item x \<longleftrightarrow> cursor (K l) = Some x" unfolding i by (simp add: ref_of_def split: option.split)
  define h' where "h' = snd (the (uxListRemove (Item x) h))"
  have f: "uxListRemove (Item x) h = Some (count h l - 1, h')"
    by (simp add: h'_def uxListRemove_def fold_fields c Let_def)
  have w: "nx h' = (nx h)(?p := ?n)" "pv h' = (pv h)(?n := ?p)" "container h' = (container h)(Item x := None)"
    "count h' = (count h)(l := count h l - 1)" "item_value h' = item_value h"
    using ne by (simp_all add: h'_def uxListRemove_def fold_fields c n p Let_def del: last.simps)
  have ri: "ref_of l (cursor (kl_remove x (K l))) = (if cursor (K l) = Some x then ?p else index h l)"
    using ref_of_before[OF d, of l] es i by (simp add: kl_remove_def del: last.simps)
  have wi: "index h' = (index h)(l := ref_of l (cursor (kl_remove x (K l))))"
    unfolding ri ix[symmetric] using ne
    by (auto simp: h'_def uxListRemove_def fold_fields c n p Let_def fun_eq_iff simp del: last.simps)
  have "lists_rep h' (K(l := kl_remove x (K l)))" by (rule rep_remove[OF K es w wi])
  moreover have "length (entries (K l)) = Suc (length (entries (kl_remove x (K l))))"
    using x by (simp add: kl_remove_def length_remove1) (metis Suc_pred length_pos_if_in_set)
  then have "count h l - 1 = of_nat (length (entries (kl_remove x (K l))))"
    using r by (simp add: list_rep_def)
  ultimately show ?thesis using f w(5) by simp
qed

lemma next_rep:
  assumes K: "lists_rep h K" and ne: "entries (K l) \<noteq> []"
  shows "fst (listGET_OWNER_OF_NEXT_ENTRY l h) = ref_of l (cursor (kl_next (K l))) \<and>
    lists_rep (snd (listGET_OWNER_OF_NEXT_ENTRY l h)) (K(l := kl_next (K l))) \<and>
    item_value (snd (listGET_OWNER_OF_NEXT_ENTRY l h)) = item_value h"
proof -
  have r: "list_rep h m (K m)" for m using K by (simp add: lists_rep_def)
  define rest where "rest = (case cursor (K l) of None \<Rightarrow> entries (K l) | Some c \<Rightarrow> tl (dropWhile (\<lambda>y. y \<noteq> c) (entries (K l))))"
  define y where "y = (if rest \<noteq> [] then hd rest else hd (entries (K l)))"
  have k: "kl_next (K l) = (K l)\<lparr>cursor := Some y\<rparr>" using ne by (simp add: kl_next_def rest_def[symmetric] y_def Let_def)
  have e: "nx h (ListEnd l) = Item (hd (entries (K l)))"
    using list_rep_parts(1)[OF r, of l "[]" "entries (K l)"] ne by (cases "entries (K l)") auto
  have n: "nx h (index h l) = hd (map Item rest @ [ListEnd l])" and sub: "set rest \<subseteq> set (entries (K l))"
  proof -
    have "nx h (index h l) = hd (map Item rest @ [ListEnd l]) \<and> set rest \<subseteq> set (entries (K l))"
    proof (cases "cursor (K l)")
      case None
      then show ?thesis using r[of l] e ne by (cases "entries (K l)") (auto simp: list_rep_def ref_of_def rest_def)
    next
      case (Some c)
      then have c: "c \<in> set (entries (K l))" "index h l = Item c" using r[of l] by (auto simp: list_rep_def ref_of_def)
      obtain us vs where es: "entries (K l) = us @ c # vs" "c \<notin> set us" using split_list_first[OF c(1)] by auto
      have "dropWhile (\<lambda>y. y \<noteq> c) (entries (K l)) = c # vs" using es by (simp add: dropWhile_append)
      then show ?thesis using list_rep_parts(1)[OF r, of l "us @ [c]" vs] es c(2) Some by (auto simp: rest_def)
    qed
    then show "nx h (index h l) = hd (map Item rest @ [ListEnd l])" "set rest \<subseteq> set (entries (K l))" by auto
  qed
  have y: "y \<in> set (entries (K l))" using sub ne by (auto simp: y_def)
  define h' where "h' = snd (listGET_OWNER_OF_NEXT_ENTRY l h)"
  have w: "nx h' = nx h" "pv h' = pv h" "container h' = container h" "count h' = count h" "item_value h' = item_value h"
    by (simp_all add: h'_def listGET_OWNER_OF_NEXT_ENTRY_def Let_def)
  have i: "index h' = (index h)(l := Item y)"
    using n e by (cases rest) (auto simp: h'_def listGET_OWNER_OF_NEXT_ENTRY_def Let_def fold_fields y_def)
  have o: "fst (listGET_OWNER_OF_NEXT_ENTRY l h) = index h' l"
    by (simp add: h'_def listGET_OWNER_OF_NEXT_ENTRY_def Let_def fold_fields)
  have "list_rep h' m ((K(l := kl_next (K l))) m)" for m
    using r[of m] y unfolding k list_rep_def w i by (auto simp: ref_of_def)
  then show ?thesis using o i w by (simp add: lists_rep_def h'_def[symmetric] k ref_of_def)
qed

section \<open>Sequences of operations\<close>

text \<open>The uses of the lists: insertion by index or by value, removal, the walk, and the setting of a
  value. The answers: what removal and walk return.\<close>

datatype list_op = Insert_End nat nat | Insert nat nat | Remove nat | Next nat | Set_Value nat u32

datatype list_answer = Done | Left u32 | Owner nat | Null_Access | No_Return | Marker

definition owner_answer :: "item_ref \<Rightarrow> list_answer" where
  "owner_answer r = (case r of Item x \<Rightarrow> Owner x | ListEnd l \<Rightarrow> Marker)"

primrec heap_op :: "list_op \<Rightarrow> list_heap \<Rightarrow> list_answer \<times> list_heap" where
  "heap_op (Insert_End l x) h = (Done, vListInsertEnd l (Item x) h)"
| "heap_op (Insert l x) h = (case vListInsert l (Item x) h of None \<Rightarrow> (No_Return, h) | Some h' \<Rightarrow> (Done, h'))"
| "heap_op (Remove x) h = (case uxListRemove (Item x) h of None \<Rightarrow> (Null_Access, h) | Some (n, h') \<Rightarrow> (Left n, h'))"
| "heap_op (Next l) h = (owner_answer (fst (listGET_OWNER_OF_NEXT_ENTRY l h)), snd (listGET_OWNER_OF_NEXT_ENTRY l h))"
| "heap_op (Set_Value x v) h = (Done, set_value (Item x) v h)"

text \<open>The same on the lists themselves; the state of the specification are the lists, the values
  and, for each item, the list it is in.\<close>

record list_spec =
  klists :: "nat \<Rightarrow> nat klist"
  vals :: "nat \<Rightarrow> u32"
  places :: "nat \<Rightarrow> nat option"

primrec spec_op :: "list_op \<Rightarrow> list_spec \<Rightarrow> list_answer \<times> list_spec" where
  "spec_op (Insert_End l x) s =
     (Done, s\<lparr>klists := (klists s)(l := kl_insert_end x (klists s l)), places := (places s)(x := Some l)\<rparr>)"
| "spec_op (Insert l x) s =
     (Done, s\<lparr>klists := (klists s)(l := kl_insert (vals s) x (klists s l)), places := (places s)(x := Some l)\<rparr>)"
| "spec_op (Remove x) s = (case places s x of
       None \<Rightarrow> (Null_Access, s)
     | Some l \<Rightarrow> (let k = kl_remove x (klists s l) in
         (Left (of_nat (length (entries k))), s\<lparr>klists := (klists s)(l := k), places := (places s)(x := None)\<rparr>)))"
| "spec_op (Next l) s = (let k = kl_next (klists s l) in
     (case cursor k of None \<Rightarrow> Marker | Some x \<Rightarrow> Owner x, s\<lparr>klists := (klists s)(l := k)\<rparr>))"
| "spec_op (Set_Value x v) s = (Done, s\<lparr>vals := (vals s)(x := v)\<rparr>)"

text \<open>What the callers keep to: only an item that is in no list is inserted, a list never has
  \<open>2 ^ 32 - 1\<close> items, and only a list with entries is walked.\<close>

primrec op_ok :: "list_op \<Rightarrow> list_spec \<Rightarrow> bool" where
  "op_ok (Insert_End l x) s \<longleftrightarrow> places s x = None \<and> length (entries (klists s l)) < 2 ^ 32 - 1"
| "op_ok (Insert l x) s \<longleftrightarrow> places s x = None \<and> length (entries (klists s l)) < 2 ^ 32 - 1"
| "op_ok (Remove x) s \<longleftrightarrow> True"
| "op_ok (Next l) s \<longleftrightarrow> entries (klists s l) \<noteq> []"
| "op_ok (Set_Value x v) s \<longleftrightarrow> True"

definition spec_rep :: "list_heap \<Rightarrow> list_spec \<Rightarrow> bool" where
  "spec_rep h s \<longleftrightarrow> lists_rep h (klists s) \<and> vals s = (\<lambda>x. item_value h (Item x)) \<and>
     places s = (\<lambda>x. container h (Item x))"

lemma spec_rep_place: "spec_rep h s \<Longrightarrow> places s x = Some l \<longleftrightarrow> x \<in> set (entries (klists s l))"
  by (simp add: spec_rep_def lists_rep_def list_rep_def)

lemma spec_repI:
  assumes "lists_rep h (klists s)" "\<And>x. vals s x = item_value h (Item x)"
    "\<And>x l. places s x = Some l \<longleftrightarrow> x \<in> set (entries (klists s l))"
  shows "spec_rep h s"
proof -
  have "places s x = container h (Item x)" for x
  proof -
    have "places s x = Some l \<longleftrightarrow> container h (Item x) = Some l" for l
      using assms(1,3) by (simp add: lists_rep_def list_rep_def)
    then show ?thesis by (metis option.exhaust)
  qed
  then show ?thesis using assms by (simp add: spec_rep_def fun_eq_iff)
qed

lemma set_kl:
  "set (entries (kl_insert_end x k)) = insert x (set (entries k))"
  "set (entries (kl_insert f x k)) = insert x (set (entries k))"
  "entries (kl_next k) = entries k"
  "distinct (entries k) \<Longrightarrow> set (entries (kl_remove x k)) = set (entries k) - {x}"
proof -
  have "insert x (set (takeWhile P es) \<union> set (dropWhile P es)) = insert x (set es)" for P :: "'a \<Rightarrow> bool" and es
    by (simp only: set_append[symmetric] takeWhile_dropWhile_id)
  then show "set (entries (kl_insert_end x k)) = insert x (set (entries k))"
    "set (entries (kl_insert f x k)) = insert x (set (entries k))"
    by (simp_all add: kl_insert_end_def kl_insert_def split: option.split)
  show "entries (kl_next k) = entries k" by (simp add: kl_next_def Let_def)
  show "set (entries (kl_remove x k)) = set (entries k) - {x}" if "distinct (entries k)"
    using that by (simp add: kl_remove_def)
qed

lemma op_refines:
  assumes R: "spec_rep h s" and ok: "op_ok p s"
  shows "fst (heap_op p h) = fst (spec_op p s) \<and> spec_rep (snd (heap_op p h)) (snd (spec_op p s))"
proof -
  have K: "lists_rep h (klists s)" and v: "vals s = (\<lambda>x. item_value h (Item x))" and pl: "places s = (\<lambda>x. container h (Item x))"
    using R by (auto simp: spec_rep_def)
  note in_list = spec_rep_place[OF R]
  have new: "x \<notin> set (entries (klists s m))" if "places s x = None" for x m using in_list[of x m] that by auto
  show ?thesis
  proof (cases p)
    case (Insert_End l x)
    have n: "places s x = None" and room: "length (entries (klists s l)) < 2 ^ 32 - 1" using ok Insert_End by auto
    have "item_value (vListInsertEnd l (Item x) h) = item_value h" by (simp add: vListInsertEnd_def Let_def)
    then have "spec_rep (vListInsertEnd l (Item x) h)
      (s\<lparr>klists := (klists s)(l := kl_insert_end x (klists s l)), places := (places s)(x := Some l)\<rparr>)"
      using vListInsertEnd_rep[OF K new[OF n] room] new[OF n]
      by (intro spec_repI) (auto simp: v set_kl in_list)
    then show ?thesis using Insert_End by simp
  next
    case (Insert l x)
    have n: "places s x = None" and room: "length (entries (klists s l)) < 2 ^ 32 - 1" using ok Insert by auto
    obtain h' where h': "vListInsert l (Item x) h = Some h'"
      "lists_rep h' ((klists s)(l := kl_insert (vals s) x (klists s l)))" "item_value h' = item_value h"
      using vListInsert_rep[OF K new[OF n] room] unfolding v by blast
    have "spec_rep h' (s\<lparr>klists := (klists s)(l := kl_insert (vals s) x (klists s l)), places := (places s)(x := Some l)\<rparr>)"
      using h'(2,3) new[OF n] by (intro spec_repI) (auto simp: v set_kl in_list)
    then show ?thesis using Insert h'(1) by simp
  next
    case (Remove x)
    show ?thesis
    proof (cases "places s x")
      case None
      then have "uxListRemove (Item x) h = None" using pl by (simp add: uxListRemove_def fold_fields)
      then show ?thesis using Remove None R by simp
    next
      case (Some l)
      let ?k = "kl_remove x (klists s l)"
      have x: "x \<in> set (entries (klists s l))" using Some in_list by simp
      obtain h' where h': "uxListRemove (Item x) h = Some (of_nat (length (entries ?k)), h')"
        "lists_rep h' ((klists s)(l := ?k))" "item_value h' = item_value h"
        using uxListRemove_rep[OF K x] by blast
      have d: "distinct (entries (klists s l))" using K by (simp add: lists_rep_def list_rep_def)
      have "spec_rep h' (s\<lparr>klists := (klists s)(l := ?k), places := (places s)(x := None)\<rparr>)"
        using h'(2,3) lists_disjoint[OF K x] by (intro spec_repI) (auto simp: v set_kl(4)[OF d] in_list)
      then show ?thesis using Remove Some h'(1) by (simp add: Let_def)
    qed
  next
    case (Next l)
    have ne: "entries (klists s l) \<noteq> []" using ok Next by simp
    note n = next_rep[OF K ne]
    have "spec_rep (snd (listGET_OWNER_OF_NEXT_ENTRY l h)) (s\<lparr>klists := (klists s)(l := kl_next (klists s l))\<rparr>)"
      using n by (intro spec_repI) (auto simp: v set_kl in_list)
    then show ?thesis using Next n by (simp add: Let_def owner_answer_def ref_of_def split: option.split)
  next
    case (Set_Value x w)
    have "spec_rep (set_value (Item x) w h) (s\<lparr>vals := (vals s)(x := w)\<rparr>)"
    proof (rule spec_repI)
      show "lists_rep (set_value (Item x) w h) (klists (s\<lparr>vals := (vals s)(x := w)\<rparr>))" using K by (simp add: lists_rep_def list_rep_def)
    qed (auto simp: v in_list)
    then show ?thesis using Set_Value by simp
  qed
qed

primrec heap_run :: "list_op list \<Rightarrow> list_heap \<Rightarrow> list_answer list" where
  "heap_run [] h = []"
| "heap_run (p # ps) h = fst (heap_op p h) # heap_run ps (snd (heap_op p h))"

primrec spec_run :: "list_op list \<Rightarrow> list_spec \<Rightarrow> list_answer list" where
  "spec_run [] s = []"
| "spec_run (p # ps) s = fst (spec_op p s) # spec_run ps (snd (spec_op p s))"

primrec run_ok :: "list_op list \<Rightarrow> list_spec \<Rightarrow> bool" where
  "run_ok [] s \<longleftrightarrow> True"
| "run_ok (p # ps) s \<longleftrightarrow> op_ok p s \<and> run_ok ps (snd (spec_op p s))"

lemma run_refines: "spec_rep h s \<Longrightarrow> run_ok ps s \<Longrightarrow> heap_run ps h = spec_run ps s"
proof (induction ps arbitrary: h s)
  case Nil
  then show ?case by simp
next
  case (Cons p ps)
  then show ?case using op_refines[of h s p] by simp
qed

lemma no_return: "No_Return \<notin> set (spec_run ps s)"
proof (induction ps arbitrary: s)
  case (Cons p ps)
  have "fst (spec_op p s) \<noteq> No_Return" by (cases p) (auto simp: Let_def split: option.split)
  then show ?case using Cons by auto
qed simp

text \<open>Lists after their initialisation.\<close>

definition fresh_lists :: "list_heap \<Rightarrow> bool" where
  "fresh_lists h \<longleftrightarrow> (\<forall>l. nx h (ListEnd l) = ListEnd l \<and> pv h (ListEnd l) = ListEnd l \<and> index h l = ListEnd l \<and>
     count h l = 0 \<and> item_value h (ListEnd l) = portMAX_DELAY) \<and> (\<forall>x. container h (Item x) = None)"

lemma vListInitialise_fields:
  "nx (vListInitialise l h) = (nx h)(ListEnd l := ListEnd l)" "pv (vListInitialise l h) = (pv h)(ListEnd l := ListEnd l)"
  "index (vListInitialise l h) = (index h)(l := ListEnd l)" "count (vListInitialise l h) = (count h)(l := 0)"
  "item_value (vListInitialise l h) = (item_value h)(ListEnd l := portMAX_DELAY)" "container (vListInitialise l h) = container h"
  by (simp_all add: vListInitialise_def Let_def)

definition empty_lists :: "(nat \<Rightarrow> u32) \<Rightarrow> list_spec" where
  "empty_lists v = \<lparr>klists = \<lambda>l. kl_empty, vals = v, places = \<lambda>x. None\<rparr>"

lemma fresh_rep: "fresh_lists h \<Longrightarrow> spec_rep h (empty_lists (\<lambda>x. item_value h (Item x)))"
  unfolding empty_lists_def
  by (rule spec_repI) (auto simp: fresh_lists_def lists_rep_def list_rep_def kl_empty_def ref_of_def)

section \<open>Turns\<close>

text \<open>What the scheduler relies on in a list it walks: the entries in the order of their next turns,
  of which each step gives the first its turn and puts it last.\<close>

locale turn_list =
  fixes ok :: "'l \<Rightarrow> bool" and turn :: "'l \<Rightarrow> 'a list" and step :: "'l \<Rightarrow> 'l" and current :: "'l \<Rightarrow> 'a option"
  assumes ok_step: "ok l \<Longrightarrow> ok (step l)"
    and step_turn: "ok l \<Longrightarrow> turn l \<noteq> [] \<Longrightarrow> current (step l) = Some (hd (turn l)) \<and> turn (step l) = rotate1 (turn l)"
begin

lemma steps_turn:
  "ok l \<Longrightarrow> turn l \<noteq> [] \<Longrightarrow> ok ((step ^^ n) l) \<and> turn ((step ^^ n) l) = rotate n (turn l)"
proof (induction n)
  case (Suc n)
  then show ?case using ok_step step_turn by simp
qed simp

lemma steps_current:
  assumes "ok l" "turn l \<noteq> []"
  shows "current ((step ^^ Suc n) l) = Some (turn l ! (n mod length (turn l)))"
proof -
  have "ok ((step ^^ n) l)" "turn ((step ^^ n) l) = rotate n (turn l)" using steps_turn[OF assms] by auto
  then show ?thesis using step_turn[of "(step ^^ n) l"] assms(2) by (simp add: hd_rotate_conv_nth)
qed

lemma everyone_once:
  assumes "ok l" "turn l \<noteq> []"
  shows "map (\<lambda>n. current ((step ^^ Suc n) l)) [0..<length (turn l)] = map Some (turn l)"
  by (rule nth_equalityI) (simp_all only: length_map length_upt nth_map nth_upt steps_current[OF assms] diff_zero, simp add: steps_current[OF assms])

end

definition kl_ok :: "'a klist \<Rightarrow> bool" where
  "kl_ok k \<longleftrightarrow> distinct (entries k) \<and> set_option (cursor k) \<subseteq> set (entries k)"

definition kl_turn :: "'a klist \<Rightarrow> 'a list" where
  "kl_turn k = (case cursor k of None \<Rightarrow> entries k
     | Some c \<Rightarrow> tl (dropWhile (\<lambda>y. y \<noteq> c) (entries k)) @ takeWhile (\<lambda>y. y \<noteq> c) (entries k) @ [c])"

lemma at_cursor:
  assumes "distinct (us @ c # vs)"
  shows "takeWhile (\<lambda>y. y \<noteq> c) (us @ c # vs) = us" "dropWhile (\<lambda>y. y \<noteq> c) (us @ c # vs) = c # vs"
  using assms by (auto simp: takeWhile_append dropWhile_append)

lemma kl_at:
  assumes "entries k = us @ c # vs" "cursor k = Some c" "distinct (us @ c # vs)"
  shows "kl_turn k = vs @ us @ [c]" "kl_next k = k\<lparr>cursor := Some (hd (vs @ us @ [c]))\<rparr>"
  using at_cursor[OF assms(3)] assms
  by (auto simp: kl_turn_def kl_next_def Let_def hd_append)

lemma kl_at_none:
  assumes "cursor k = None"
  shows "kl_turn k = entries k" "entries k = v # vs \<Longrightarrow> kl_next k = k\<lparr>cursor := Some v\<rparr>"
  using assms by (simp_all add: kl_turn_def kl_next_def)

lemma kl_cases:
  assumes "kl_ok k"
  obtains (marker) "cursor k = None" "distinct (entries k)"
    | (entry) us c vs where "entries k = us @ c # vs" "cursor k = Some c" "distinct (us @ c # vs)"
proof (cases "cursor k")
  case None
  then show ?thesis using marker assms by (simp add: kl_ok_def)
next
  case (Some c)
  then have c: "c \<in> set (entries k)" "distinct (entries k)" using assms by (auto simp: kl_ok_def)
  from c(1) obtain us vs where "entries k = us @ c # vs" by (meson split_list)
  then show ?thesis using entry Some c(2) by metis
qed

lemma kl_turn_entries: "kl_ok k \<Longrightarrow> set (kl_turn k) = set (entries k) \<and> length (kl_turn k) = length (entries k) \<and> distinct (kl_turn k)"
proof (erule kl_cases)
  assume "cursor k = None" "distinct (entries k)"
  then show ?thesis by (simp add: kl_at_none(1))
next
  fix us c vs assume k: "entries k = us @ c # vs" "cursor k = Some c" "distinct (us @ c # vs)"
  then show ?thesis using kl_at(1)[OF k] by auto
qed

lemma kl_next_turn:
  assumes "kl_ok k" "kl_turn k \<noteq> []"
  shows "cursor (kl_next k) = Some (hd (kl_turn k)) \<and> kl_turn (kl_next k) = rotate1 (kl_turn k)"
  using assms(1)
proof (cases rule: kl_cases)
  case marker
  then obtain v vs where e: "entries k = v # vs" using assms(2) by (cases "entries k") (auto simp: kl_at_none(1))
  have n: "kl_next k = k\<lparr>cursor := Some v\<rparr>" by (rule kl_at_none(2)[OF marker(1) e])
  have "kl_turn (kl_next k) = vs @ [] @ [v]" by (rule kl_at(1)) (use e marker(2) n in simp_all)
  then show ?thesis using n e kl_at_none(1)[OF marker(1)] by simp
next
  case (entry us c vs)
  note k = kl_at[OF entry]
  show ?thesis
  proof (cases vs)
    case (Cons v vs')
    have "kl_turn (kl_next k) = vs' @ (us @ [c]) @ [v]" by (rule kl_at(1)) (use entry Cons k in simp_all)
    then show ?thesis using k Cons by simp
  next
    case vs: Nil
    show ?thesis
    proof (cases us)
      case (Cons u us')
      have "kl_turn (kl_next k) = (us' @ [c]) @ [] @ [u]" by (rule kl_at(1)) (use entry Cons vs k in simp_all)
      then show ?thesis using k Cons vs by simp
    next
      case Nil
      have "kl_turn (kl_next k) = [] @ [] @ [c]" by (rule kl_at(1)) (use entry Nil vs k in simp_all)
      then show ?thesis using k Nil vs by simp
    qed
  qed
qed

lemma kl_next_ok: "kl_ok k \<Longrightarrow> kl_ok (kl_next k)"
proof (cases "kl_turn k = []")
  case True
  assume ok: "kl_ok k"
  then have "entries k = []" using kl_turn_entries[OF ok] True by simp
  then show ?thesis using ok by (simp add: kl_ok_def kl_next_def split: option.split)
next
  case False
  assume ok: "kl_ok k"
  have "hd (kl_turn k) \<in> set (entries k)" using kl_turn_entries[OF ok] hd_in_set[OF False] by simp
  then show ?thesis using ok kl_next_turn[OF ok False] by (simp add: kl_ok_def set_kl(3))
qed

interpretation kl: turn_list kl_ok kl_turn kl_next cursor
  by unfold_locales (use kl_next_ok kl_next_turn in auto)

text \<open>What the other operations do to the turns.\<close>

lemma kl_insert_end_turn:
  assumes "kl_ok k" "x \<notin> set (entries k)"
  shows "kl_ok (kl_insert_end x k)" "kl_turn (kl_insert_end x k) =
     (case cursor k of None \<Rightarrow> kl_turn k @ [x] | Some c \<Rightarrow> butlast (kl_turn k) @ [x, c])"
proof -
  have "kl_ok (kl_insert_end x k) \<and> kl_turn (kl_insert_end x k) =
     (case cursor k of None \<Rightarrow> kl_turn k @ [x] | Some c \<Rightarrow> butlast (kl_turn k) @ [x, c])"
    using assms(1)
  proof (cases rule: kl_cases)
    case marker
    then show ?thesis using assms(2) by (simp add: kl_insert_end_def kl_turn_def kl_ok_def)
  next
    case (entry us c vs)
    have i: "kl_insert_end x k = k\<lparr>entries := us @ x # c # vs\<rparr>"
      using at_cursor[OF entry(3)] entry by (simp add: kl_insert_end_def)
    have "kl_turn (kl_insert_end x k) = vs @ (us @ [x]) @ [c]"
      by (rule kl_at(1)) (use i entry assms(2) in simp_all)
    then show ?thesis using kl_at(1)[OF entry] i entry assms(2) by (simp add: kl_ok_def butlast_append)
  qed
  then show "kl_ok (kl_insert_end x k)" "kl_turn (kl_insert_end x k) =
     (case cursor k of None \<Rightarrow> kl_turn k @ [x] | Some c \<Rightarrow> butlast (kl_turn k) @ [x, c])" by auto
qed

lemma kl_remove_ok: "kl_ok k \<Longrightarrow> kl_ok (kl_remove x k)"
proof (erule kl_cases)
  assume "cursor k = None" "distinct (entries k)"
  then show ?thesis by (simp add: kl_ok_def kl_remove_def)
next
  fix us c vs assume k: "entries k = us @ c # vs" "cursor k = Some c" "distinct (us @ c # vs)"
  show ?thesis
  proof (cases "c = x")
    case True
    then show ?thesis using k by (auto simp: kl_ok_def kl_remove_def entry_before_split remove1_append)
  next
    case False
    then show ?thesis using k by (auto simp: kl_ok_def kl_remove_def)
  qed
qed

lemma kl_insert_ok:
  assumes "kl_ok k" "x \<notin> set (entries k)"
  shows "kl_ok (kl_insert f x k)"
proof -
  let ?P = "\<lambda>y. f y \<le> f x"
  have e: "takeWhile ?P (entries k) @ dropWhile ?P (entries k) = entries k" by (rule takeWhile_dropWhile_id)
  have d: "distinct (takeWhile ?P (entries k) @ dropWhile ?P (entries k))" unfolding e using assms(1) by (simp add: kl_ok_def)
  have "set (takeWhile ?P (entries k)) \<union> set (dropWhile ?P (entries k)) = set (entries k)"
    by (simp only: set_append[symmetric] e)
  then have "x \<notin> set (takeWhile ?P (entries k)) \<union> set (dropWhile ?P (entries k))" using assms(2) by simp
  then show ?thesis using d[unfolded distinct_append] assms(1) set_kl(2)[of f x k] by (auto simp: kl_ok_def kl_insert_def)
qed

lemma sorted_middle:
  "sorted (map f us) \<Longrightarrow> sorted (map f vs) \<Longrightarrow> (\<And>y. y \<in> set us \<Longrightarrow> f y \<le> f x) \<Longrightarrow> (\<And>y. y \<in> set vs \<Longrightarrow> f x \<le> f y) \<Longrightarrow>
   sorted (map f (us @ x # vs))"
  by (auto simp: sorted_append intro: order_trans)

lemma kl_insert_sorted:
  assumes "sorted (map f (entries k))"
  shows "sorted (map f (entries (kl_insert f x k)))"
proof -
  let ?P = "\<lambda>y. f y \<le> f x"
  let ?us = "takeWhile ?P (entries k)" and ?vs = "dropWhile ?P (entries k)"
  have s: "sorted (map f (?us @ ?vs))" using assms by simp
  have u: "y \<in> set ?us \<Longrightarrow> f y \<le> f x" for y by (drule set_takeWhileD) simp
  have v: "f x \<le> f y" if "y \<in> set ?vs" for y
  proof (cases ?vs)
    case Nil
    show ?thesis using that unfolding Nil by simp
  next
    case (Cons z zs)
    have "\<not> ?P z" using hd_dropWhile[of ?P "entries k"] Cons by simp
    moreover have "f z \<le> f y" using s that Cons by (auto simp: sorted_append)
    ultimately show ?thesis by simp
  qed
  have p: "sorted (map f ?us)" "sorted (map f ?vs)" using s unfolding map_append sorted_append by blast+
  have "sorted (map f (?us @ x # ?vs))" by (rule sorted_middle[OF p]) (blast intro: u v)+
  then show ?thesis unfolding kl_insert_def by simp
qed

section \<open>Property\<close>


definition sample_lists :: list_heap where
  "sample_lists = \<lparr>items = \<lambda>i. \<lparr>xItemValue = (case i of ListEnd l \<Rightarrow> portMAX_DELAY | Item x \<Rightarrow> 0),
       pxNext = i, pxPrevious = i, pxContainer = None\<rparr>,
     heads = \<lambda>l. \<lparr>uxNumberOfItems = 0, pxIndex = ListEnd l\<rparr>\<rparr>"


end
