(* ===== verification/Kernel_Sched.thy ===== *)
theory Kernel_Sched
  imports Kernel_List
begin

text \<open>
  The scheduler of the kernel (\<open>Middlewares/FreeRTOS/tasks.c\<close>) with the configuration of the firmware
  (preemption and time slices on, tickless idle off, selection by the port): delays, waits on event lists, the tick,
  the suspension of the scheduler and the choice of the running task, on the lists of \<open>Kernel_List\<close>.
  Not modelled: creation and deletion of tasks, changes of priority, notifications, run-time
  statistics.
\<close>

section \<open>State\<close>

text \<open>Tasks and event lists are named by numbers. A task has two list items: the state item, in a ready
  list, a delayed list or the suspended list, and the event item, in an event list or the pending
  ready list. The container of an item is the list that holds it.\<close>

record kernel =
  uxPriority :: "nat \<Rightarrow> nat"
  pxCurrentTCB :: nat
  pxReadyTasksLists :: "nat \<Rightarrow> nat klist"
  uxTopReadyPriority :: u32
  pxDelayedTaskList :: "nat klist"
  pxOverflowDelayedTaskList :: "nat klist"
  xSuspendedTaskList :: "nat klist"
  xPendingReadyList :: "nat klist"
  event_lists :: "nat \<Rightarrow> nat klist"
  state_value :: "nat \<Rightarrow> u32"
  xTickCount :: u32
  xNextTaskUnblockTime :: u32
  xNumOfOverflows :: u32
  xPendedTicks :: u32
  uxSchedulerSuspended :: u32
  xYieldPending :: bool

abbreviation configMAX_PRIORITIES :: nat where "configMAX_PRIORITIES \<equiv> 32"

text \<open>The value of the event item, set when the task is created.\<close>

definition event_value :: "kernel \<Rightarrow> nat \<Rightarrow> u32" where
  "event_value k t = of_nat configMAX_PRIORITIES - of_nat (uxPriority k t)"

section \<open>Moves between the lists\<close>

definition remove_state :: "nat \<Rightarrow> kernel \<Rightarrow> kernel" where
  "remove_state t k = k\<lparr>pxReadyTasksLists := \<lambda>p. kl_remove t (pxReadyTasksLists k p),
     pxDelayedTaskList := kl_remove t (pxDelayedTaskList k),
     pxOverflowDelayedTaskList := kl_remove t (pxOverflowDelayedTaskList k),
     xSuspendedTaskList := kl_remove t (xSuspendedTaskList k)\<rparr>"

definition remove_event :: "nat \<Rightarrow> kernel \<Rightarrow> kernel" where
  "remove_event t k = k\<lparr>event_lists := \<lambda>e. kl_remove t (event_lists k e),
     xPendingReadyList := kl_remove t (xPendingReadyList k)\<rparr>"

definition prvAddTaskToReadyList :: "nat \<Rightarrow> kernel \<Rightarrow> kernel" where
  "prvAddTaskToReadyList t k = k\<lparr>uxTopReadyPriority := uxTopReadyPriority k OR push_bit (uxPriority k t) 1,
     pxReadyTasksLists := (pxReadyTasksLists k)(uxPriority k t := kl_insert_end t (pxReadyTasksLists k (uxPriority k t)))\<rparr>"

text \<open>The three calls by which a blocked task becomes ready.\<close>

definition make_ready :: "nat \<Rightarrow> kernel \<Rightarrow> kernel" where
  "make_ready t k = prvAddTaskToReadyList t (remove_state t (remove_event t k))"

definition prvResetNextTaskUnblockTime :: "kernel \<Rightarrow> kernel" where
  "prvResetNextTaskUnblockTime k = k\<lparr>xNextTaskUnblockTime :=
     (case entries (pxDelayedTaskList k) of [] \<Rightarrow> portMAX_DELAY | t # _ \<Rightarrow> state_value k t)\<rparr>"

definition taskSWITCH_DELAYED_LISTS :: "kernel \<Rightarrow> kernel" where
  "taskSWITCH_DELAYED_LISTS k = prvResetNextTaskUnblockTime
     (k\<lparr>pxDelayedTaskList := pxOverflowDelayedTaskList k, pxOverflowDelayedTaskList := pxDelayedTaskList k,
        xNumOfOverflows := xNumOfOverflows k + 1\<rparr>)"

text \<open>The running task leaves the ready list, for the delayed list of its wake time or, if it may wait
  for ever, for the suspended list.\<close>

definition prvAddCurrentTaskToDelayedList :: "u32 \<Rightarrow> bool \<Rightarrow> kernel \<Rightarrow> kernel" where
  "prvAddCurrentTaskToDelayedList n indefinitely k =
     (let t = pxCurrentTCB k;
          now = xTickCount k;
          k = remove_state t k;
          k = (if entries (pxReadyTasksLists k (uxPriority k t)) = []
               then k\<lparr>uxTopReadyPriority := uxTopReadyPriority k AND NOT (push_bit (uxPriority k t) 1)\<rparr> else k)
      in if n = portMAX_DELAY \<and> indefinitely
         then k\<lparr>xSuspendedTaskList := kl_insert_end t (xSuspendedTaskList k)\<rparr>
         else (let wake = now + n;
                   k = k\<lparr>state_value := (state_value k)(t := wake)\<rparr>
               in if wake < now
                  then k\<lparr>pxOverflowDelayedTaskList := kl_insert (state_value k) t (pxOverflowDelayedTaskList k)\<rparr>
                  else (let k = k\<lparr>pxDelayedTaskList := kl_insert (state_value k) t (pxDelayedTaskList k)\<rparr>
                        in if wake < xNextTaskUnblockTime k then k\<lparr>xNextTaskUnblockTime := wake\<rparr> else k)))"

section \<open>The tick\<close>

lemma make_ready_delayed: "entries (pxDelayedTaskList (make_ready t k)) = remove1 t (entries (pxDelayedTaskList k))"
  by (simp add: make_ready_def prvAddTaskToReadyList_def remove_state_def remove_event_def kl_remove_def)

text \<open>The loop over the delayed list; the answer tells whether a task was woken that is not below the
  running one.\<close>

function wake_tasks :: "kernel \<Rightarrow> bool \<times> kernel" where
  "wake_tasks k = (case entries (pxDelayedTaskList k) of
       [] \<Rightarrow> (False, k\<lparr>xNextTaskUnblockTime := portMAX_DELAY\<rparr>)
     | t # _ \<Rightarrow>
         if xTickCount k < state_value k t then (False, k\<lparr>xNextTaskUnblockTime := state_value k t\<rparr>)
         else (let (switch, k') = wake_tasks (make_ready t k)
               in (switch \<or> uxPriority k t \<ge> uxPriority k (pxCurrentTCB k), k')))"
  by pat_completeness auto

termination
  by (relation "measure (\<lambda>k. length (entries (pxDelayedTaskList k)))") (auto simp: make_ready_delayed)

declare wake_tasks.simps [simp del]

definition xTaskIncrementTick :: "kernel \<Rightarrow> bool \<times> kernel" where
  "xTaskIncrementTick k =
     (if uxSchedulerSuspended k = 0
      then (let k = k\<lparr>xTickCount := xTickCount k + 1\<rparr>;
                k = (if xTickCount k = 0 then taskSWITCH_DELAYED_LISTS k else k);
                (switch, k) = (if xTickCount k \<ge> xNextTaskUnblockTime k then wake_tasks k else (False, k))
            in (switch \<or> length (entries (pxReadyTasksLists k (uxPriority k (pxCurrentTCB k)))) > 1 \<or> xYieldPending k, k))
      else (False, k\<lparr>xPendedTicks := xPendedTicks k + 1\<rparr>))"

section \<open>The choice of the running task\<close>

text \<open>The highest bit by the count of leading zeros of the processor.\<close>

definition clz :: "u32 \<Rightarrow> nat" where
  "clz w = length (takeWhile (\<lambda>i. \<not> bit w i) (rev [0..<32]))"

definition portGET_HIGHEST_PRIORITY :: "u32 \<Rightarrow> nat" where
  "portGET_HIGHEST_PRIORITY w = unat (31 - of_nat (clz w) :: u32)"

definition taskSELECT_HIGHEST_PRIORITY_TASK :: "kernel \<Rightarrow> kernel" where
  "taskSELECT_HIGHEST_PRIORITY_TASK k =
     (let p = portGET_HIGHEST_PRIORITY (uxTopReadyPriority k);
          l = kl_next (pxReadyTasksLists k p)
      in k\<lparr>pxReadyTasksLists := (pxReadyTasksLists k)(p := l),
           pxCurrentTCB := (case cursor l of Some t \<Rightarrow> t | None \<Rightarrow> pxCurrentTCB k)\<rparr>)"

definition vTaskSwitchContext :: "kernel \<Rightarrow> kernel" where
  "vTaskSwitchContext k =
     (if uxSchedulerSuspended k \<noteq> 0 then k\<lparr>xYieldPending := True\<rparr>
      else taskSELECT_HIGHEST_PRIORITY_TASK (k\<lparr>xYieldPending := False\<rparr>))"

section \<open>Suspension of the scheduler\<close>

definition vTaskSuspendAll :: "kernel \<Rightarrow> kernel" where
  "vTaskSuspendAll k = k\<lparr>uxSchedulerSuspended := uxSchedulerSuspended k + 1\<rparr>"

lemma make_ready_pending: "entries (xPendingReadyList (make_ready t k)) = remove1 t (entries (xPendingReadyList k))"
  by (simp add: make_ready_def prvAddTaskToReadyList_def remove_state_def remove_event_def kl_remove_def)

function move_pending :: "kernel \<Rightarrow> kernel" where
  "move_pending k = (case entries (xPendingReadyList k) of
       [] \<Rightarrow> k
     | t # _ \<Rightarrow> (let k = make_ready t k
                 in move_pending (if uxPriority k t \<ge> uxPriority k (pxCurrentTCB k) then k\<lparr>xYieldPending := True\<rparr> else k)))"
  by pat_completeness auto

termination
  by (relation "measure (\<lambda>k. length (entries (xPendingReadyList k)))") (auto simp: make_ready_pending)

declare move_pending.simps [simp del]

primrec unpend_ticks :: "nat \<Rightarrow> kernel \<Rightarrow> kernel" where
  "unpend_ticks 0 k = k"
| "unpend_ticks (Suc n) k = (let (switch, k) = xTaskIncrementTick k
     in unpend_ticks n (if switch then k\<lparr>xYieldPending := True\<rparr> else k))"

definition xTaskResumeAll :: "kernel \<Rightarrow> bool \<times> kernel" where
  "xTaskResumeAll k =
     (let k = k\<lparr>uxSchedulerSuspended := uxSchedulerSuspended k - 1\<rparr>
      in if uxSchedulerSuspended k = 0
         then (let moved = entries (xPendingReadyList k) \<noteq> [];
                   k = move_pending k;
                   k = (if moved then prvResetNextTaskUnblockTime k else k);
                   k = (if xPendedTicks k > 0 then (unpend_ticks (unat (xPendedTicks k)) k)\<lparr>xPendedTicks := 0\<rparr> else k)
               in if xYieldPending k then (True, vTaskSwitchContext k) else (False, k))
         else (False, k))"

section \<open>Delays and events\<close>

text \<open>A yield is a switch of context as soon as interrupts are on.\<close>

definition vTaskDelay :: "u32 \<Rightarrow> kernel \<Rightarrow> kernel" where
  "vTaskDelay n k =
     (let (yielded, k) = (if n > 0 then xTaskResumeAll (prvAddCurrentTaskToDelayedList n False (vTaskSuspendAll k)) else (False, k))
      in if yielded then k else vTaskSwitchContext k)"

definition vTaskPlaceOnEventList :: "nat \<Rightarrow> u32 \<Rightarrow> kernel \<Rightarrow> kernel" where
  "vTaskPlaceOnEventList e n k = prvAddCurrentTaskToDelayedList n True
     (k\<lparr>event_lists := (event_lists k)(e := kl_insert (event_value k) (pxCurrentTCB k) (event_lists k e))\<rparr>)"

definition xTaskRemoveFromEventList :: "nat \<Rightarrow> kernel \<Rightarrow> bool \<times> kernel" where
  "xTaskRemoveFromEventList e k =
     (let t = hd (entries (event_lists k e));
          k = (if uxSchedulerSuspended k = 0 then make_ready t k
               else (let k = remove_event t k in k\<lparr>xPendingReadyList := kl_insert_end t (xPendingReadyList k)\<rparr>))
      in if uxPriority k t > uxPriority k (pxCurrentTCB k) then (True, k\<lparr>xYieldPending := True\<rparr>) else (False, k))"

section \<open>New tasks and the start\<close>

text \<open>The argument tells whether the scheduler runs.\<close>

definition prvAddNewTaskToReadyList :: "bool \<Rightarrow> nat \<Rightarrow> kernel \<Rightarrow> kernel" where
  "prvAddNewTaskToReadyList running t k =
     (let k = (if \<not> running \<and> uxPriority k (pxCurrentTCB k) \<le> uxPriority k t then k\<lparr>pxCurrentTCB := t\<rparr> else k);
          k = prvAddTaskToReadyList t k
      in if running \<and> uxPriority k (pxCurrentTCB k) < uxPriority k t then vTaskSwitchContext k else k)"

text \<open>The lists initialised by the first task \<open>t\<close>; the tasks created before the start, and the variables
  the start sets.\<close>

definition first_task :: "(nat \<Rightarrow> nat) \<Rightarrow> nat \<Rightarrow> kernel" where
  "first_task prio t = prvAddTaskToReadyList t
     \<lparr>uxPriority = prio, pxCurrentTCB = t, pxReadyTasksLists = \<lambda>p. kl_empty, uxTopReadyPriority = 0,
      pxDelayedTaskList = kl_empty, pxOverflowDelayedTaskList = kl_empty, xSuspendedTaskList = kl_empty,
      xPendingReadyList = kl_empty, event_lists = \<lambda>e. kl_empty, state_value = \<lambda>t. 0, xTickCount = 0,
      xNextTaskUnblockTime = 0, xNumOfOverflows = 0, xPendedTicks = 0, uxSchedulerSuspended = 0, xYieldPending = False\<rparr>"

definition vTaskStartScheduler :: "(nat \<Rightarrow> nat) \<Rightarrow> nat \<Rightarrow> nat list \<Rightarrow> kernel" where
  "vTaskStartScheduler prio t ts =
     (fold (prvAddNewTaskToReadyList False) ts (first_task prio t))\<lparr>xNextTaskUnblockTime := portMAX_DELAY, xTickCount := 0\<rparr>"

section \<open>Time-outs\<close>

record TimeOut_t =
  xOverflowCount :: u32
  xTimeOnEntering :: u32

definition vTaskInternalSetTimeOutState :: "kernel \<Rightarrow> TimeOut_t" where
  "vTaskInternalSetTimeOutState k = \<lparr>xOverflowCount = xNumOfOverflows k, xTimeOnEntering = xTickCount k\<rparr>"

text \<open>The answer, the time-out and the ticks left after the call.\<close>

definition xTaskCheckForTimeOut :: "kernel \<Rightarrow> TimeOut_t \<Rightarrow> u32 \<Rightarrow> bool \<times> TimeOut_t \<times> u32" where
  "xTaskCheckForTimeOut k out n =
     (let now = xTickCount k;
          elapsed = now - xTimeOnEntering out
      in if n = portMAX_DELAY then (False, out, n)
         else if xNumOfOverflows k \<noteq> xOverflowCount out \<and> now \<ge> xTimeOnEntering out then (True, out, 0)
         else if elapsed < n then (False, vTaskInternalSetTimeOutState k, n - elapsed)
         else (True, out, 0))"

section \<open>Events\<close>

text \<open>What can happen between two instructions of the running task: a tick, or a call of it. \<open>Wait\<close> is the part of
  a blocking queue call that blocks, \<open>Signal\<close> the part of a queue call (or an interrupt) that wakes a
  waiting task.\<close>

datatype kernel_event = Tick | Delay u32 | Wait nat u32 | Signal nat | Suspend | Resume | Yield | Create nat

primrec kernel_step :: "kernel_event \<Rightarrow> kernel \<Rightarrow> kernel" where
  "kernel_step Tick k = (let (switch, k) = xTaskIncrementTick k in if switch then vTaskSwitchContext k else k)"
| "kernel_step (Delay n) k = vTaskDelay n k"
| "kernel_step (Wait e n) k =
     (let (yielded, k) = xTaskResumeAll (vTaskPlaceOnEventList e n (vTaskSuspendAll k))
      in if yielded then k else vTaskSwitchContext k)"
| "kernel_step (Signal e) k =
     (if entries (event_lists k e) = [] then k
      else (let (yield, k) = xTaskRemoveFromEventList e k in if yield then vTaskSwitchContext k else k))"
| "kernel_step Suspend k = vTaskSuspendAll k"
| "kernel_step Resume k = snd (xTaskResumeAll k)"
| "kernel_step Yield k = vTaskSwitchContext k"
| "kernel_step (Create t) k = prvAddNewTaskToReadyList True t k"

section \<open>Structure of the lists\<close>

definition is_ready :: "kernel \<Rightarrow> nat \<Rightarrow> bool" where
  "is_ready k t \<longleftrightarrow> t \<in> set (entries (pxReadyTasksLists k (uxPriority k t)))"

definition delayed :: "kernel \<Rightarrow> nat set" where "delayed k = set (entries (pxDelayedTaskList k))"
definition overflow :: "kernel \<Rightarrow> nat set" where "overflow k = set (entries (pxOverflowDelayedTaskList k))"
definition forever :: "kernel \<Rightarrow> nat set" where "forever k = set (entries (xSuspendedTaskList k))"
definition pending :: "kernel \<Rightarrow> nat set" where "pending k = set (entries (xPendingReadyList k))"
definition waiting :: "kernel \<Rightarrow> nat \<Rightarrow> nat set" where "waiting k e = set (entries (event_lists k e))"

abbreviation blocked :: "kernel \<Rightarrow> nat set" where "blocked k \<equiv> delayed k \<union> overflow k \<union> forever k"

text \<open>What the firmware keeps to: nobody blocks while the scheduler is suspended, nor does the idle task;
  a wait is not of zero ticks; a created task is new; suspensions are paired and neither they nor the ticks that
  arrive meanwhile overflow their counters.\<close>

primrec event_ok :: "nat \<Rightarrow> kernel_event \<Rightarrow> kernel \<Rightarrow> bool" where
  "event_ok idle Tick k \<longleftrightarrow> xPendedTicks k < portMAX_DELAY"
| "event_ok idle (Delay n) k \<longleftrightarrow> uxSchedulerSuspended k = 0 \<and> pxCurrentTCB k \<noteq> idle"
| "event_ok idle (Wait e n) k \<longleftrightarrow> uxSchedulerSuspended k = 0 \<and> pxCurrentTCB k \<noteq> idle \<and> n \<noteq> 0"
| "event_ok idle (Signal e) k \<longleftrightarrow> True"
| "event_ok idle Suspend k \<longleftrightarrow> uxSchedulerSuspended k < portMAX_DELAY"
| "event_ok idle Resume k \<longleftrightarrow> uxSchedulerSuspended k \<noteq> 0"
| "event_ok idle Yield k \<longleftrightarrow> True"
| "event_ok idle (Create t) k \<longleftrightarrow> uxSchedulerSuspended k = 0 \<and> \<not> is_ready k t \<and> t \<notin> blocked k"

definition ready_ok :: "kernel \<Rightarrow> bool" where
  "ready_ok k \<longleftrightarrow> (\<forall>t. uxPriority k t < configMAX_PRIORITIES) \<and>
     (\<forall>p. kl_ok (pxReadyTasksLists k p)) \<and> (\<forall>p. \<forall>t \<in> set (entries (pxReadyTasksLists k p)). uxPriority k t = p) \<and>
     (\<forall>p < configMAX_PRIORITIES. bit (uxTopReadyPriority k) p \<longleftrightarrow> entries (pxReadyTasksLists k p) \<noteq> [])"

definition blocked_ok :: "kernel \<Rightarrow> bool" where
  "blocked_ok k \<longleftrightarrow> kl_ok (pxDelayedTaskList k) \<and> kl_ok (pxOverflowDelayedTaskList k) \<and> kl_ok (xSuspendedTaskList k) \<and>
     sorted (map (state_value k) (entries (pxDelayedTaskList k))) \<and>
     sorted (map (state_value k) (entries (pxOverflowDelayedTaskList k))) \<and>
     delayed k \<inter> overflow k = {} \<and> delayed k \<inter> forever k = {} \<and> overflow k \<inter> forever k = {}"

definition event_lists_ok :: "kernel \<Rightarrow> bool" where
  "event_lists_ok k \<longleftrightarrow> kl_ok (xPendingReadyList k) \<and> (\<forall>e. kl_ok (event_lists k e)) \<and>
     (\<forall>e e'. e \<noteq> e' \<longrightarrow> waiting k e \<inter> waiting k e' = {}) \<and> (\<forall>e. waiting k e \<inter> pending k = {}) \<and>
     (\<forall>e. sorted (map (event_value k) (entries (event_lists k e))))"

definition lists_ok :: "kernel \<Rightarrow> bool" where
  "lists_ok k \<longleftrightarrow> ready_ok k \<and> blocked_ok k \<and> event_lists_ok k \<and>
     (\<forall>t \<in> blocked k. \<not> is_ready k t) \<and> pending k \<subseteq> blocked k \<and> (\<forall>e. waiting k e \<subseteq> blocked k)"

lemma kl_remove_none: "kl_ok l \<Longrightarrow> t \<notin> set (entries l) \<Longrightarrow> kl_remove t l = l"
  by (auto simp: kl_ok_def kl_remove_def remove1_idem)

lemma kl_remove_set: "kl_ok l \<Longrightarrow> set (entries (kl_remove t l)) = set (entries l) - {t}"
  by (simp add: set_kl(4) kl_ok_def)

lemma kl_remove_sorted: "sorted (map f (entries l)) \<Longrightarrow> sorted (map f (entries (kl_remove t l)))"
  by (simp add: kl_remove_def sorted_map_remove1)

lemma event_value_cong: "uxPriority k' = uxPriority k \<Longrightarrow> event_value k' = event_value k"
  by (simp add: event_value_def fun_eq_iff)

lemma event_value_field [simp]:
  "event_value (k\<lparr>pxCurrentTCB := a0\<rparr>) = event_value k" "event_value (k\<lparr>pxReadyTasksLists := a1\<rparr>) = event_value k"
  "event_value (k\<lparr>uxTopReadyPriority := a2\<rparr>) = event_value k" "event_value (k\<lparr>pxDelayedTaskList := a3\<rparr>) = event_value k"
  "event_value (k\<lparr>pxOverflowDelayedTaskList := a4\<rparr>) = event_value k" "event_value (k\<lparr>xSuspendedTaskList := a5\<rparr>) = event_value k"
  "event_value (k\<lparr>xPendingReadyList := a6\<rparr>) = event_value k" "event_value (k\<lparr>event_lists := a7\<rparr>) = event_value k"
  "event_value (k\<lparr>state_value := a8\<rparr>) = event_value k" "event_value (k\<lparr>xTickCount := a9\<rparr>) = event_value k"
  "event_value (k\<lparr>xNextTaskUnblockTime := a10\<rparr>) = event_value k" "event_value (k\<lparr>xNumOfOverflows := a11\<rparr>) = event_value k"
  "event_value (k\<lparr>xPendedTicks := a12\<rparr>) = event_value k" "event_value (k\<lparr>uxSchedulerSuspended := a13\<rparr>) = event_value k"
  "event_value (k\<lparr>xYieldPending := a14\<rparr>) = event_value k"
  by (simp_all add: event_value_def fun_eq_iff)

text \<open>Making a blocked task ready.\<close>

lemma make_ready_fields [simp]:
  "uxPriority (make_ready t k) = uxPriority k" "pxCurrentTCB (make_ready t k) = pxCurrentTCB k"
  "state_value (make_ready t k) = state_value k" "xTickCount (make_ready t k) = xTickCount k"
  "xNextTaskUnblockTime (make_ready t k) = xNextTaskUnblockTime k" "xNumOfOverflows (make_ready t k) = xNumOfOverflows k"
  "xPendedTicks (make_ready t k) = xPendedTicks k" "uxSchedulerSuspended (make_ready t k) = uxSchedulerSuspended k"
  "xYieldPending (make_ready t k) = xYieldPending k"
  "pxDelayedTaskList (make_ready t k) = kl_remove t (pxDelayedTaskList k)"
  "pxOverflowDelayedTaskList (make_ready t k) = kl_remove t (pxOverflowDelayedTaskList k)"
  "xSuspendedTaskList (make_ready t k) = kl_remove t (xSuspendedTaskList k)"
  "xPendingReadyList (make_ready t k) = kl_remove t (xPendingReadyList k)"
  "event_lists (make_ready t k) = (\<lambda>e. kl_remove t (event_lists k e))"
  by (simp_all add: make_ready_def prvAddTaskToReadyList_def remove_state_def remove_event_def)

declare push_bit_of_1 [simp del]

lemma event_value_make_ready [simp]: "event_value (make_ready t k) = event_value k"
  by (rule event_value_cong) simp

lemma bit_set_priority: "bit (w OR push_bit p 1 :: u32) q \<longleftrightarrow> bit w q \<or> (q = p \<and> p < 32)"
  unfolding bit_or_iff bit_push_bit_iff bit_1_iff by auto

lemma bit_clear_priority: "q < 32 \<Longrightarrow> bit (w AND NOT (push_bit p 1) :: u32) q \<longleftrightarrow> bit w q \<and> q \<noteq> p"
  unfolding bit_and_iff bit_not_iff bit_push_bit_iff bit_1_iff by auto

lemma ready_priority: "ready_ok k \<Longrightarrow> t \<in> set (entries (pxReadyTasksLists k p)) \<Longrightarrow> uxPriority k t = p \<and> is_ready k t"
  by (auto simp: ready_ok_def is_ready_def)

lemma make_ready_ok:
  assumes "ready_ok k" "\<not> is_ready k t"
  shows "ready_ok (make_ready t k)" "is_ready (make_ready t k) u \<longleftrightarrow> is_ready k u \<or> u = t"
proof -
  have nt: "t \<notin> set (entries (pxReadyTasksLists k p))" for p using assms ready_priority by blast
  have keep: "kl_remove t (pxReadyTasksLists k p) = pxReadyTasksLists k p" for p
    using assms(1) nt by (intro kl_remove_none) (auto simp: ready_ok_def)
  let ?p = "uxPriority k t"
  have r: "pxReadyTasksLists (make_ready t k) = (pxReadyTasksLists k)(?p := kl_insert_end t (pxReadyTasksLists k ?p))"
    "uxTopReadyPriority (make_ready t k) = uxTopReadyPriority k OR push_bit ?p 1"
    by (simp_all add: make_ready_def prvAddTaskToReadyList_def remove_state_def remove_event_def keep)
  have "entries (kl_insert_end t (pxReadyTasksLists k ?p)) \<noteq> []"
    by (simp add: kl_insert_end_def split: option.split)
  then show "ready_ok (make_ready t k)"
    using assms(1) kl_insert_end_turn(1)[of "pxReadyTasksLists k ?p" t] nt
    by (auto simp: ready_ok_def r set_kl bit_set_priority)
  show "is_ready (make_ready t k) u \<longleftrightarrow> is_ready k u \<or> u = t"
    by (auto simp: is_ready_def r set_kl)
qed

lemma lists_ok_kl:
  assumes "lists_ok k"
  shows "kl_ok (pxDelayedTaskList k)" "kl_ok (pxOverflowDelayedTaskList k)" "kl_ok (xSuspendedTaskList k)"
    "kl_ok (xPendingReadyList k)" "kl_ok (event_lists k e)"
  using assms by (auto simp: lists_ok_def blocked_ok_def event_lists_ok_def)

lemma make_ready_sets:
  assumes "lists_ok k"
  shows "delayed (make_ready t k) = delayed k - {t}" "overflow (make_ready t k) = overflow k - {t}"
    "forever (make_ready t k) = forever k - {t}" "pending (make_ready t k) = pending k - {t}"
    "waiting (make_ready t k) e = waiting k e - {t}"
  using lists_ok_kl[OF assms] by (simp_all add: delayed_def overflow_def forever_def pending_def waiting_def kl_remove_set)

lemma make_ready_lists:
  assumes ok: "lists_ok k" and t: "t \<in> blocked k"
  shows "lists_ok (make_ready t k)" "is_ready (make_ready t k) u \<longleftrightarrow> is_ready k u \<or> u = t"
proof -
  have nr: "ready_ok k" "\<not> is_ready k t" using ok t by (auto simp: lists_ok_def)
  note r = make_ready_ok[OF nr] and s = make_ready_sets[OF ok]
  show "is_ready (make_ready t k) u \<longleftrightarrow> is_ready k u \<or> u = t" by (rule r(2))
  have b: "blocked_ok (make_ready t k)"
    using ok unfolding lists_ok_def blocked_ok_def s by (auto intro: kl_remove_ok kl_remove_sorted)
  have e: "event_lists_ok (make_ready t k)"
    using ok unfolding lists_ok_def event_lists_ok_def s by (auto intro: kl_remove_ok kl_remove_sorted)
  have "\<forall>u \<in> blocked k - {t}. \<not> is_ready (make_ready t k) u" using ok r(2) by (auto simp: lists_ok_def)
  moreover have "pending k - {t} \<subseteq> blocked k - {t}" "\<forall>e. waiting k e - {t} \<subseteq> blocked k - {t}"
    using ok by (auto simp: lists_ok_def)
  ultimately show "lists_ok (make_ready t k)"
    unfolding lists_ok_def s using r(1) b e by blast
qed

section \<open>The tick\<close>

text \<open>What the scheduler promises about the delayed lists: the next time to look at them is not after any
  wake time, the wake times of the delayed list lie ahead, those of the overflow list behind
  the wrap-around of the tick count.\<close>

definition times_ok :: "kernel \<Rightarrow> bool" where
  "times_ok k \<longleftrightarrow> (\<forall>t \<in> delayed k. xTickCount k < state_value k t \<and> xNextTaskUnblockTime k \<le> state_value k t) \<and>
     (\<forall>t \<in> overflow k. state_value k t < xTickCount k)"

text \<open>The parts of the state that waking leaves alone.\<close>

definition wake_frame :: "kernel \<Rightarrow> kernel \<Rightarrow> bool" where
  "wake_frame k k' \<longleftrightarrow> uxPriority k' = uxPriority k \<and> pxCurrentTCB k' = pxCurrentTCB k \<and> state_value k' = state_value k \<and>
     xTickCount k' = xTickCount k \<and> xNumOfOverflows k' = xNumOfOverflows k \<and> xPendedTicks k' = xPendedTicks k \<and>
     uxSchedulerSuspended k' = uxSchedulerSuspended k \<and> xYieldPending k' = xYieldPending k"

lemma wake_frame_refl: "wake_frame k k"
  by (simp add: wake_frame_def)

lemma wake_frame_trans: "wake_frame a b \<Longrightarrow> wake_frame b c \<Longrightarrow> wake_frame a c"
  by (simp add: wake_frame_def)

lemma lists_ok_unblock [simp]:
  "lists_ok (k\<lparr>xNextTaskUnblockTime := w\<rparr>) = lists_ok k" "lists_ok (k\<lparr>xTickCount := w\<rparr>) = lists_ok k"
  "lists_ok (k\<lparr>xPendedTicks := w\<rparr>) = lists_ok k" "lists_ok (k\<lparr>uxSchedulerSuspended := w\<rparr>) = lists_ok k"
  "lists_ok (k\<lparr>xYieldPending := y\<rparr>) = lists_ok k" "lists_ok (k\<lparr>pxCurrentTCB := t\<rparr>) = lists_ok k"
  by (simp_all add: lists_ok_def ready_ok_def blocked_ok_def event_lists_ok_def is_ready_def delayed_def overflow_def
      forever_def pending_def waiting_def)

definition due :: "kernel \<Rightarrow> nat set" where
  "due k = {t \<in> delayed k. \<not> xTickCount k < state_value k t}"

definition woken :: "kernel \<Rightarrow> bool \<times> kernel \<Rightarrow> bool" where
  "woken k = (\<lambda>(switch, k'). lists_ok k' \<and> wake_frame k k' \<and> delayed k' = delayed k - due k \<and> overflow k' = overflow k \<and>
     forever k' = forever k \<and> pending k' = pending k - due k \<and> (\<forall>e. waiting k' e = waiting k e - due k) \<and>
     (\<forall>u. is_ready k' u \<longleftrightarrow> is_ready k u \<or> u \<in> due k) \<and>
     (\<forall>u \<in> delayed k'. xNextTaskUnblockTime k' \<le> state_value k' u) \<and>
     (switch \<longleftrightarrow> (\<exists>u \<in> due k. uxPriority k u \<ge> uxPriority k (pxCurrentTCB k))))"

lemma wake_tasks_spec: "lists_ok k \<Longrightarrow> woken k (wake_tasks k)"
proof (induction k rule: wake_tasks.induct)
  case (1 k)
  show ?case
  proof (cases "entries (pxDelayedTaskList k)")
    case Nil
    then show ?thesis using "1.prems"
      by (subst wake_tasks.simps) (simp add: woken_def wake_frame_def delayed_def due_def is_ready_def overflow_def forever_def pending_def waiting_def)
  next
    case (Cons t ts)
    have srt: "sorted (map (state_value k) (t # ts))" using "1.prems" Cons by (simp add: lists_ok_def blocked_ok_def)
    show ?thesis
    proof (cases "xTickCount k < state_value k t")
      case True
      then have "due k = {}" using srt Cons by (auto simp: due_def delayed_def)
      then show ?thesis using "1.prems" True Cons srt
        by (subst wake_tasks.simps) (auto simp: woken_def wake_frame_def delayed_def is_ready_def overflow_def forever_def pending_def waiting_def)
    next
      case False
      let ?k = "make_ready t k"
      have t: "t \<in> delayed k" "t \<in> due k" using Cons False by (auto simp: delayed_def due_def)
      have m: "lists_ok ?k" "\<And>u. is_ready ?k u \<longleftrightarrow> is_ready k u \<or> u = t" using make_ready_lists[OF "1.prems", of t] t(1) by auto
      note s = make_ready_sets[OF "1.prems"]
      have d: "due ?k = due k - {t}" by (auto simp: due_def s)
      obtain sw k' where w: "wake_tasks ?k = (sw, k')" by (cases "wake_tasks ?k") auto
      note ih = "1.IH"[OF Cons False m(1)]
      have e: "wake_tasks k = (sw \<or> uxPriority k t \<ge> uxPriority k (pxCurrentTCB k), k')"
        using Cons False w by (subst wake_tasks.simps) simp
      have fr: "wake_frame k ?k" by (simp add: wake_frame_def)
      have nt: "t \<notin> overflow k" "t \<notin> forever k" using "1.prems" t(1) by (auto simp: lists_ok_def blocked_ok_def)
      show ?thesis unfolding e woken_def prod.case
        using ih t nt m(2) wake_frame_trans[OF fr] unfolding w woken_def prod.case s d by auto
    qed
  qed
qed

lemma wake_if_spec:
  assumes "lists_ok k" "\<forall>t \<in> delayed k. xNextTaskUnblockTime k \<le> state_value k t"
  shows "woken k (if xTickCount k \<ge> xNextTaskUnblockTime k then wake_tasks k else (False, k))"
proof (cases "xTickCount k \<ge> xNextTaskUnblockTime k")
  case True
  then show ?thesis using wake_tasks_spec[OF assms(1)] by simp
next
  case False
  then have "due k = {}" using assms(2) by (fastforce simp: due_def)
  then show ?thesis using False assms by (simp add: woken_def wake_frame_refl)
qed

text \<open>The ticks a blocked task has left.\<close>

definition remaining :: "kernel \<Rightarrow> nat \<Rightarrow> nat option" where
  "remaining k t = (if t \<in> delayed k then Some (unat (state_value k t) - unat (xTickCount k))
     else if t \<in> overflow k then Some (2 ^ 32 - unat (xTickCount k) + unat (state_value k t)) else None)"

definition tick_spec :: "kernel \<Rightarrow> kernel \<Rightarrow> bool" where
  "tick_spec k k' \<longleftrightarrow> lists_ok k' \<and> times_ok k' \<and> uxPriority k' = uxPriority k \<and> pxCurrentTCB k' = pxCurrentTCB k \<and>
     xTickCount k' = xTickCount k + 1 \<and> xPendedTicks k' = xPendedTicks k \<and> uxSchedulerSuspended k' = uxSchedulerSuspended k \<and>
     xYieldPending k' = xYieldPending k \<and> forever k' = forever k \<and>
     pending k' = pending k - {t. remaining k t = Some 1} \<and>
     (\<forall>e. waiting k' e = waiting k e - {t. remaining k t = Some 1}) \<and>
     (\<forall>t. remaining k' t = (case remaining k t of Some r \<Rightarrow> if r = 1 then None else Some (r - 1) | None \<Rightarrow> None)) \<and>
     (\<forall>t. is_ready k' t \<longleftrightarrow> is_ready k t \<or> remaining k t = Some 1)"

lemma switch_lists_ok: "lists_ok k \<Longrightarrow> lists_ok (taskSWITCH_DELAYED_LISTS k)"
  by (auto simp: taskSWITCH_DELAYED_LISTS_def prvResetNextTaskUnblockTime_def lists_ok_def ready_ok_def blocked_ok_def
      event_lists_ok_def is_ready_def delayed_def overflow_def forever_def pending_def waiting_def)

lemma switch_fields [simp]:
  "delayed (taskSWITCH_DELAYED_LISTS k) = overflow k" "overflow (taskSWITCH_DELAYED_LISTS k) = delayed k"
  "forever (taskSWITCH_DELAYED_LISTS k) = forever k" "pending (taskSWITCH_DELAYED_LISTS k) = pending k"
  "waiting (taskSWITCH_DELAYED_LISTS k) = waiting k" "is_ready (taskSWITCH_DELAYED_LISTS k) = is_ready k"
  "state_value (taskSWITCH_DELAYED_LISTS k) = state_value k" "xTickCount (taskSWITCH_DELAYED_LISTS k) = xTickCount k"
  "uxPriority (taskSWITCH_DELAYED_LISTS k) = uxPriority k" "pxCurrentTCB (taskSWITCH_DELAYED_LISTS k) = pxCurrentTCB k"
  "xPendedTicks (taskSWITCH_DELAYED_LISTS k) = xPendedTicks k" "xYieldPending (taskSWITCH_DELAYED_LISTS k) = xYieldPending k"
  "uxSchedulerSuspended (taskSWITCH_DELAYED_LISTS k) = uxSchedulerSuspended k"
  by (simp_all add: fun_eq_iff taskSWITCH_DELAYED_LISTS_def prvResetNextTaskUnblockTime_def is_ready_def delayed_def overflow_def
      forever_def pending_def waiting_def)

lemma switch_next:
  assumes "lists_ok k" "t \<in> overflow k"
  shows "xNextTaskUnblockTime (taskSWITCH_DELAYED_LISTS k) \<le> state_value k t"
proof -
  have "sorted (map (state_value k) (entries (pxOverflowDelayedTaskList k)))" using assms(1) by (simp add: lists_ok_def blocked_ok_def)
  then show ?thesis using assms(2)
    by (cases "entries (pxOverflowDelayedTaskList k)")
      (auto simp: taskSWITCH_DELAYED_LISTS_def prvResetNextTaskUnblockTime_def overflow_def)
qed

lemma u32_bound: "unat (w :: u32) < 4294967296"
proof -
  have "unat w < 2 ^ LENGTH(32)" by (rule unsigned_less)
  then show ?thesis by simp
qed

lemma remaining_le1: "times_ok k \<Longrightarrow> remaining k t \<noteq> Some 0"
  using u32_bound[of "xTickCount k"] by (auto simp: times_ok_def remaining_def word_less_nat_alt split: if_splits)

lemma tick_field [simp]:
  "delayed (k\<lparr>xTickCount := w\<rparr>) = delayed k" "overflow (k\<lparr>xTickCount := w\<rparr>) = overflow k"
  "forever (k\<lparr>xTickCount := w\<rparr>) = forever k" "pending (k\<lparr>xTickCount := w\<rparr>) = pending k"
  "waiting (k\<lparr>xTickCount := w\<rparr>) = waiting k" "is_ready (k\<lparr>xTickCount := w\<rparr>) = is_ready k"
  by (simp_all add: fun_eq_iff is_ready_def delayed_def overflow_def forever_def pending_def waiting_def)

lemma woken_tick:
  assumes w: "woken k2 (sw, k')" and t: "times_ok k"
    and f: "uxPriority k2 = uxPriority k" "pxCurrentTCB k2 = pxCurrentTCB k" "xTickCount k2 = xTickCount k + 1"
      "xPendedTicks k2 = xPendedTicks k" "uxSchedulerSuspended k2 = uxSchedulerSuspended k" "xYieldPending k2 = xYieldPending k"
      "forever k2 = forever k" "pending k2 = pending k" "waiting k2 = waiting k" "is_ready k2 = is_ready k"
      "state_value k2 = state_value k"
    and d: "due k2 = {t. remaining k t = Some 1}"
    and dl: "\<And>t. t \<in> delayed k2 \<Longrightarrow> remaining k t = Some (unat (state_value k t) - unat (xTickCount k + 1) + 1)"
    and ov: "\<And>t. t \<in> overflow k2 \<Longrightarrow> t \<notin> delayed k2 \<and> state_value k t < xTickCount k + 1 \<and> remaining k t = Some (2 ^ 32 - unat (xTickCount k + 1) + unat (state_value k t) + 1)"
    and no: "\<And>t. t \<notin> delayed k2 \<Longrightarrow> t \<notin> overflow k2 \<Longrightarrow> remaining k t = None"
  shows "tick_spec k k'"
proof -
  have r: "lists_ok k'" "wake_frame k2 k'" "delayed k' = delayed k2 - due k2" "overflow k' = overflow k2" "forever k' = forever k2"
    "pending k' = pending k2 - due k2" "\<And>e. waiting k' e = waiting k2 e - due k2"
    "\<And>u. is_ready k' u \<longleftrightarrow> is_ready k2 u \<or> u \<in> due k2" "\<And>u. u \<in> delayed k' \<Longrightarrow> xNextTaskUnblockTime k' \<le> state_value k' u"
    using w by (auto simp: woken_def)
  have fr: "state_value k' = state_value k" "xTickCount k' = xTickCount k + 1" using r(2) f by (simp_all add: wake_frame_def)
  have "times_ok k'" unfolding times_ok_def
  proof (intro conjI ballI)
    fix t assume "t \<in> delayed k'"
    then show "xTickCount k' < state_value k' t" using r(2,3) by (auto simp: due_def wake_frame_def)
  next
    fix t assume "t \<in> delayed k'"
    then show "xNextTaskUnblockTime k' \<le> state_value k' t" by (rule r(9))
  next
    fix t assume "t \<in> overflow k'"
    then show "state_value k' t < xTickCount k'" using ov r(4) fr by simp
  qed
  moreover have "remaining k' t = (case remaining k t of Some r \<Rightarrow> if r = 1 then None else Some (r - 1) | None \<Rightarrow> None)" for t
  proof -
    consider (d) "t \<in> delayed k2" | (o) "t \<notin> delayed k2" "t \<in> overflow k2" | (n) "t \<notin> delayed k2" "t \<notin> overflow k2" by blast
    then show ?thesis
    proof cases
      case d
      then show ?thesis using dl[OF d] ov[of t] d r(3,4) \<open>due k2 = _\<close> by (auto simp: remaining_def[of k'] fr)
    next
      case o
      then show ?thesis using ov[OF o(2)] r(3,4) u32_bound[of "xTickCount k + 1"] by (simp add: remaining_def[of k'] fr)
    next
      case n
      then show ?thesis using no[OF n] r(3,4) by (simp add: remaining_def[of k'])
    qed
  qed
  ultimately show ?thesis using r f d by (auto simp: tick_spec_def wake_frame_def)
qed

lemma next_tick: "w + 1 \<noteq> (0 :: u32) \<Longrightarrow> unat (w + 1) = unat w + 1"
  by (metis Suc_eq_plus1 add.commute unatSuc)

lemma tick_lists:
  assumes l: "lists_ok k" and t: "times_ok k" and u: "uxSchedulerSuspended k = 0"
  shows "tick_spec k (snd (xTaskIncrementTick k))"
    "fst (xTaskIncrementTick k) \<or> (\<forall>t. remaining k t = Some 1 \<longrightarrow> uxPriority k t < uxPriority k (pxCurrentTCB k))"
proof -
  let ?k1 = "k\<lparr>xTickCount := xTickCount k + 1\<rparr>"
  define k2 where "k2 = (if xTickCount ?k1 = 0 then taskSWITCH_DELAYED_LISTS ?k1 else ?k1)"
  define r where "r = (if xTickCount k2 \<ge> xNextTaskUnblockTime k2 then wake_tasks k2 else (False, k2))"
  obtain sw k' where r2: "r = (sw, k')" by (cases r) auto
  have e: "xTaskIncrementTick k = (sw \<or> length (entries (pxReadyTasksLists k' (uxPriority k' (pxCurrentTCB k')))) > 1 \<or> xYieldPending k', k')"
    using u r2 unfolding xTaskIncrementTick_def Let_def r_def k2_def by (simp split: if_splits)
  have l1: "lists_ok ?k1" using l by simp
  have tm: "\<And>t. t \<in> delayed k \<Longrightarrow> xTickCount k < state_value k t \<and> xNextTaskUnblockTime k \<le> state_value k t"
    "\<And>t. t \<in> overflow k \<Longrightarrow> state_value k t < xTickCount k" using t by (auto simp: times_ok_def)
  have dj: "delayed k \<inter> overflow k = {}" using l by (simp add: lists_ok_def blocked_ok_def)
  have f: "uxPriority k2 = uxPriority k" "pxCurrentTCB k2 = pxCurrentTCB k" "xTickCount k2 = xTickCount k + 1"
      "xPendedTicks k2 = xPendedTicks k" "uxSchedulerSuspended k2 = uxSchedulerSuspended k" "xYieldPending k2 = xYieldPending k"
      "forever k2 = forever k" "pending k2 = pending k" "waiting k2 = waiting k" "is_ready k2 = is_ready k"
      "state_value k2 = state_value k"
    by (simp_all add: k2_def)
  have "woken k2 r \<and> due k2 = {t. remaining k t = Some 1} \<and>
     (\<forall>t. t \<in> delayed k2 \<longrightarrow> remaining k t = Some (unat (state_value k t) - unat (xTickCount k + 1) + 1)) \<and>
     (\<forall>t. t \<in> overflow k2 \<longrightarrow> t \<notin> delayed k2 \<and> state_value k t < xTickCount k + 1 \<and> remaining k t = Some (2 ^ 32 - unat (xTickCount k + 1) + unat (state_value k t) + 1)) \<and>
     (\<forall>t. t \<notin> delayed k2 \<longrightarrow> t \<notin> overflow k2 \<longrightarrow> remaining k t = None)"
  proof (cases "xTickCount k + 1 = 0")
    case False
    then have k2: "k2 = ?k1" by (simp add: k2_def)
    have "woken k2 r" unfolding r_def
      by (rule wake_if_spec) (use l1 tm(1) k2 in auto)
    moreover have n: "unat (xTickCount k + 1) = unat (xTickCount k) + 1" using False by (rule next_tick)
    have bd: "unat (xTickCount k) + 1 < 4294967296" using u32_bound[of "xTickCount k + 1"] n by simp
    have dl: "remaining k t = Some (unat (state_value k t) - unat (xTickCount k + 1) + 1)" if "t \<in> delayed k" for t
      using tm(1)[OF that] that n by (auto simp: remaining_def word_less_nat_alt)
    have ov: "t \<notin> delayed k \<and> state_value k t < xTickCount k + 1 \<and>
      remaining k t = Some (2 ^ 32 - unat (xTickCount k + 1) + unat (state_value k t) + 1)" if "t \<in> overflow k" for t
      using tm(2)[OF that] that dj n bd by (auto simp: remaining_def word_less_nat_alt)
    have "due k2 = {t. remaining k t = Some 1}"
    proof (rule set_eqI)
      fix t
      have "t \<in> delayed k \<Longrightarrow> xTickCount k + 1 < state_value k t \<longleftrightarrow> unat (xTickCount k + 1) < unat (state_value k t)"
        by (simp add: word_less_nat_alt)
      then show "t \<in> due k2 \<longleftrightarrow> t \<in> {t. remaining k t = Some 1}"
        using dl[of t] ov[of t] bd n by (auto simp: due_def k2 remaining_def)
    qed
    moreover have "remaining k t = None" if "t \<notin> delayed k" "t \<notin> overflow k" for t using that by (simp add: remaining_def)
    ultimately show ?thesis using dl ov \<open>woken k2 r\<close> by (simp add: k2)
  next
    case True
    have full: "unat (xTickCount k) = 4294967295"
    proof -
      have "xTickCount k = - 1" using True by (rule eq_neg_iff_add_eq_0[THEN iffD2])
      then show ?thesis by (simp add: unsigned_minus_1_eq_mask mask_eq_exp_minus_1)
    qed
    have none: "delayed k = {}"
    proof -
      have "t \<notin> delayed k" for t
        using tm(1)[of t] full u32_bound[of "state_value k t"] by (auto simp: word_less_nat_alt)
      then show ?thesis by blast
    qed
    have k2: "delayed k2 = overflow k" "overflow k2 = {}" "xTickCount k2 = 0" using True none by (simp_all add: k2_def)
    have "woken k2 r" unfolding r_def
    proof (rule wake_if_spec)
      show "lists_ok k2" using switch_lists_ok[OF l1] True by (simp add: k2_def)
      have "xNextTaskUnblockTime k2 \<le> state_value ?k1 t" if "t \<in> overflow k" for t
        using switch_next[OF l1, of t] that True by (simp add: k2_def)
      then show "\<forall>t \<in> delayed k2. xNextTaskUnblockTime k2 \<le> state_value k2 t" using k2 f by simp
    qed
    moreover have dl: "remaining k t = Some (unat (state_value k t) + 1)" if "t \<in> overflow k" for t
      using that none full by (simp add: remaining_def)
    have "due k2 = {t. remaining k t = Some 1}"
    proof (rule set_eqI)
      fix t
      have "\<not> 0 < state_value k t \<longleftrightarrow> unat (state_value k t) = 0" by (simp add: word_less_nat_alt)
      then show "t \<in> due k2 \<longleftrightarrow> t \<in> {t. remaining k t = Some 1}"
        using dl[of t] none by (auto simp: due_def k2 f remaining_def)
    qed
    moreover have "remaining k t = None" if "t \<notin> overflow k" for t using that none by (simp add: remaining_def)
    ultimately show ?thesis using dl True by (simp add: k2)
  qed
  then have w: "woken k2 (sw, k')" and d: "due k2 = {t. remaining k t = Some 1}"
    and dl: "\<And>t. t \<in> delayed k2 \<Longrightarrow> remaining k t = Some (unat (state_value k t) - unat (xTickCount k + 1) + 1)"
    and ov: "\<And>t. t \<in> overflow k2 \<Longrightarrow> t \<notin> delayed k2 \<and> state_value k t < xTickCount k + 1 \<and> remaining k t = Some (2 ^ 32 - unat (xTickCount k + 1) + unat (state_value k t) + 1)"
    and no: "\<And>t. t \<notin> delayed k2 \<Longrightarrow> t \<notin> overflow k2 \<Longrightarrow> remaining k t = None"
    unfolding r2 by blast+
  have "tick_spec k k'" by (rule woken_tick[OF w t f d dl ov no])
  then show "tick_spec k (snd (xTaskIncrementTick k))" by (simp add: e)
  have "sw \<longleftrightarrow> (\<exists>u \<in> due k2. uxPriority k u \<ge> uxPriority k (pxCurrentTCB k))" using w f by (simp add: woken_def)
  then show "fst (xTaskIncrementTick k) \<or> (\<forall>t. remaining k t = Some 1 \<longrightarrow> uxPriority k t < uxPriority k (pxCurrentTCB k))"
    unfolding e d by (auto simp: linorder_not_le[symmetric])
qed

section \<open>The running task\<close>

lemma highest_priority:
  assumes "bit w q" "q < configMAX_PRIORITIES"
  shows "portGET_HIGHEST_PRIORITY w < configMAX_PRIORITIES \<and> bit w (portGET_HIGHEST_PRIORITY w) \<and> q \<le> portGET_HIGHEST_PRIORITY w"
proof -
  let ?P = "\<lambda>i. \<not> bit w i" and ?l = "rev [0..<32::nat]"
  have n: "length ?l = 32" "\<And>j. j < 32 \<Longrightarrow> ?l ! j = 31 - j" by (simp_all add: rev_nth)
  have "q \<in> set ?l" using assms(2) by simp
  then have "takeWhile ?P ?l \<noteq> ?l" using assms(1) takeWhile_eq_all_conv[of ?P ?l] by blast
  then have "clz w < length ?l" unfolding clz_def
    using length_takeWhile_le[of ?P ?l] takeWhile_eq_take[of ?P ?l] by (metis le_neq_implies_less take_all)
  then have lt: "clz w < 32" and at: "\<not> ?P (?l ! clz w)"
    using nth_length_takeWhile[of ?P ?l] n(1) by (simp_all add: clz_def)
  have p: "portGET_HIGHEST_PRIORITY w = 31 - clz w"
  proof -
    have "of_nat (clz w) \<le> (31 :: u32)" using lt by (simp add: word_le_nat_alt unat_of_nat)
    then have "unat (31 - of_nat (clz w) :: u32) = unat (31 :: u32) - unat (of_nat (clz w) :: u32)" by (rule unat_sub)
    then show ?thesis using lt by (simp add: portGET_HIGHEST_PRIORITY_def unat_of_nat)
  qed
  have "q \<le> 31 - clz w"
  proof (rule ccontr)
    assume "\<not> q \<le> 31 - clz w"
    then have j: "31 - q < clz w" using assms(2) lt by auto
    then have "?P (?l ! (31 - q))" unfolding clz_def by (metis nth_mem set_takeWhileD takeWhile_nth)
    then show False using assms n(2)[of "31 - q"] by simp
  qed
  then show ?thesis using at lt n(2)[OF lt] by (simp add: p)
qed

lemma ready_bit:
  assumes "ready_ok k" "is_ready k u"
  shows "uxPriority k u < configMAX_PRIORITIES" "bit (uxTopReadyPriority k) (uxPriority k u)"
proof -
  show q: "uxPriority k u < configMAX_PRIORITIES" using assms(1) by (simp add: ready_ok_def)
  have "entries (pxReadyTasksLists k (uxPriority k u)) \<noteq> []" using assms(2) by (auto simp: is_ready_def)
  then show "bit (uxTopReadyPriority k) (uxPriority k u)" using assms(1) q by (simp add: ready_ok_def)
qed

text \<open>The running task is ready, and no ready task has a higher priority.\<close>

definition running_highest :: "kernel \<Rightarrow> bool" where
  "running_highest k \<longleftrightarrow> is_ready k (pxCurrentTCB k) \<and> (\<forall>t. is_ready k t \<longrightarrow> uxPriority k t \<le> uxPriority k (pxCurrentTCB k))"

lemma is_ready_field [simp]:
  "is_ready (k\<lparr>xYieldPending := y\<rparr>) = is_ready k" "is_ready (k\<lparr>uxSchedulerSuspended := w\<rparr>) = is_ready k"
  "is_ready (k\<lparr>xPendedTicks := w\<rparr>) = is_ready k" "is_ready (k\<lparr>xNextTaskUnblockTime := w\<rparr>) = is_ready k"
  by (simp_all add: fun_eq_iff is_ready_def)

text \<open>The parts that a switch of context keeps.\<close>

definition switch_frame :: "kernel \<Rightarrow> kernel \<Rightarrow> bool" where
  "switch_frame k k' \<longleftrightarrow> uxPriority k' = uxPriority k \<and> state_value k' = state_value k \<and> xTickCount k' = xTickCount k \<and>
     xNextTaskUnblockTime k' = xNextTaskUnblockTime k \<and> xPendedTicks k' = xPendedTicks k \<and>
     uxSchedulerSuspended k' = uxSchedulerSuspended k \<and> is_ready k' = is_ready k \<and> delayed k' = delayed k \<and>
     overflow k' = overflow k \<and> forever k' = forever k \<and> pending k' = pending k \<and> waiting k' = waiting k"

lemma select_spec:
  assumes l: "lists_ok k" and r: "is_ready k t"
  shows "lists_ok (taskSELECT_HIGHEST_PRIORITY_TASK k) \<and> switch_frame k (taskSELECT_HIGHEST_PRIORITY_TASK k) \<and>
    running_highest (taskSELECT_HIGHEST_PRIORITY_TASK k)"
proof -
  let ?k = "taskSELECT_HIGHEST_PRIORITY_TASK k" and ?p = "portGET_HIGHEST_PRIORITY (uxTopReadyPriority k)"
  have ro: "ready_ok k" using l by (simp add: lists_ok_def)
  have hp: "?p < configMAX_PRIORITIES \<and> bit (uxTopReadyPriority k) ?p \<and> uxPriority k u \<le> ?p" if "is_ready k u" for u
    by (rule highest_priority[OF ready_bit(2,1)[OF ro that]])
  let ?l = "pxReadyTasksLists k ?p"
  have ne: "entries ?l \<noteq> []" and kl: "kl_ok ?l" using hp[OF r] ro by (auto simp: ready_ok_def)
  have "kl_turn ?l \<noteq> []" using kl_turn_entries[OF kl] ne by auto
  then have c: "cursor (kl_next ?l) = Some (hd (kl_turn ?l))" "hd (kl_turn ?l) \<in> set (entries ?l)"
    using kl_next_turn[OF kl] kl_turn_entries[OF kl] hd_in_set by auto
  have k: "?k = k\<lparr>pxReadyTasksLists := (pxReadyTasksLists k)(?p := kl_next ?l), pxCurrentTCB := hd (kl_turn ?l)\<rparr>"
    by (simp add: taskSELECT_HIGHEST_PRIORITY_TASK_def Let_def c(1))
  have e: "entries (pxReadyTasksLists ?k q) = entries (pxReadyTasksLists k q)" for q by (simp add: k set_kl(3))
  have rd: "is_ready ?k = is_ready k" unfolding is_ready_def fun_eq_iff e by (simp add: k)
  have fr: "switch_frame k ?k"
    using rd by (simp add: switch_frame_def k delayed_def overflow_def forever_def pending_def waiting_def fun_eq_iff)
  have "ready_ok ?k"
  proof -
    have "kl_ok (pxReadyTasksLists ?k q)" for q using ro kl_next_ok[OF kl] by (simp add: k ready_ok_def)
    then show ?thesis using ro unfolding ready_ok_def e by (simp add: k)
  qed
  then have "lists_ok ?k" using l fr rd
    unfolding lists_ok_def blocked_ok_def event_lists_ok_def switch_frame_def by (simp add: k)
  moreover have "running_highest ?k"
  proof -
    have "is_ready k (hd (kl_turn ?l)) \<and> uxPriority k (hd (kl_turn ?l)) = ?p" using c(2) ready_priority[OF ro] by blast
    then show ?thesis using hp unfolding running_highest_def rd by (simp add: k)
  qed
  ultimately show ?thesis using fr by simp
qed

section \<open>Calls\<close>

text \<open>The passing of \<open>p\<close> ticks for one task.\<close>

definition advances :: "nat \<Rightarrow> kernel \<Rightarrow> kernel \<Rightarrow> nat \<Rightarrow> bool" where
  "advances p k k' t \<longleftrightarrow>
     remaining k' t = (case remaining k t of Some r \<Rightarrow> if r \<le> p then None else Some (r - p) | None \<Rightarrow> None) \<and>
     (is_ready k' t \<longleftrightarrow> is_ready k t \<or> (\<exists>r \<le> p. remaining k t = Some r)) \<and>
     ((\<forall>e. t \<notin> waiting k e) \<longrightarrow> (\<forall>e. t \<notin> waiting k' e)) \<and> (t \<notin> pending k \<longrightarrow> t \<notin> pending k')"

lemma advances_trans:
  assumes "advances p a b t" "advances q b c t"
  shows "advances (p + q) a c t"
proof (cases "remaining a t")
  case None
  then show ?thesis using assms by (auto simp: advances_def)
next
  case (Some r)
  show ?thesis
  proof (cases "r \<le> p")
    case True
    then show ?thesis using assms Some by (auto simp: advances_def)
  next
    case False
    then have "remaining b t = Some (r - p)" using assms Some by (simp add: advances_def)
    then show ?thesis using assms Some False by (auto simp: advances_def)
  qed
qed

lemma advances_0: "times_ok k \<Longrightarrow> advances 0 k k t"
  using remaining_le1[of k t] by (auto simp: advances_def split: option.split)

lemma advances_same:
  assumes "times_ok k" "remaining k' t = remaining k t" "is_ready k' t = is_ready k t"
    "(\<forall>e. t \<notin> waiting k e) \<longrightarrow> (\<forall>e. t \<notin> waiting k' e)" "t \<notin> pending k \<longrightarrow> t \<notin> pending k'"
  shows "advances 0 k k' t"
  using advances_0[OF assms(1), of t] assms(2-5) by (simp add: advances_def)

lemma advances_tick:
  assumes "times_ok k" "tick_spec k k'"
  shows "advances 1 k k' t"
proof -
  have "r = 1 \<longleftrightarrow> r \<le> 1" if "remaining k t = Some r" for r
    using remaining_le1[OF assms(1), of t] that by (cases r) auto
  then show ?thesis using assms(2) by (cases "remaining k t") (auto simp: tick_spec_def advances_def)
qed

lemma remaining_field [simp]:
  "remaining (k\<lparr>xYieldPending := y\<rparr>) = remaining k" "remaining (k\<lparr>uxSchedulerSuspended := w\<rparr>) = remaining k"
  "remaining (k\<lparr>xPendedTicks := w\<rparr>) = remaining k" "remaining (k\<lparr>xNextTaskUnblockTime := w\<rparr>) = remaining k"
  by (simp_all add: fun_eq_iff remaining_def delayed_def overflow_def)

lemma sets_field [simp]:
  "delayed (k\<lparr>xYieldPending := y\<rparr>) = delayed k" "overflow (k\<lparr>xYieldPending := y\<rparr>) = overflow k"
  "pending (k\<lparr>xYieldPending := y\<rparr>) = pending k" "waiting (k\<lparr>xYieldPending := y\<rparr>) = waiting k"
  "delayed (k\<lparr>uxSchedulerSuspended := w\<rparr>) = delayed k" "overflow (k\<lparr>uxSchedulerSuspended := w\<rparr>) = overflow k"
  "pending (k\<lparr>uxSchedulerSuspended := w\<rparr>) = pending k" "waiting (k\<lparr>uxSchedulerSuspended := w\<rparr>) = waiting k"
  "delayed (k\<lparr>xPendedTicks := w\<rparr>) = delayed k" "overflow (k\<lparr>xPendedTicks := w\<rparr>) = overflow k"
  "pending (k\<lparr>xPendedTicks := w\<rparr>) = pending k" "waiting (k\<lparr>xPendedTicks := w\<rparr>) = waiting k"
  "delayed (k\<lparr>xNextTaskUnblockTime := w\<rparr>) = delayed k" "overflow (k\<lparr>xNextTaskUnblockTime := w\<rparr>) = overflow k"
  "pending (k\<lparr>xNextTaskUnblockTime := w\<rparr>) = pending k" "waiting (k\<lparr>xNextTaskUnblockTime := w\<rparr>) = waiting k"
  "forever (k\<lparr>xYieldPending := y\<rparr>) = forever k" "forever (k\<lparr>uxSchedulerSuspended := w\<rparr>) = forever k"
  "forever (k\<lparr>xPendedTicks := w\<rparr>) = forever k" "forever (k\<lparr>xNextTaskUnblockTime := w\<rparr>) = forever k"
  by (simp_all add: fun_eq_iff delayed_def overflow_def forever_def pending_def waiting_def)

lemma times_field [simp]:
  "times_ok (k\<lparr>xYieldPending := y\<rparr>) = times_ok k" "times_ok (k\<lparr>uxSchedulerSuspended := w\<rparr>) = times_ok k"
  "times_ok (k\<lparr>xPendedTicks := w\<rparr>) = times_ok k"
  by (simp_all add: times_ok_def)

definition core_ok :: "nat \<Rightarrow> kernel \<Rightarrow> bool" where
  "core_ok idle k \<longleftrightarrow> lists_ok k \<and> times_ok k \<and> is_ready k idle"

lemma switch_spec:
  assumes "core_ok idle k"
  shows "core_ok idle (vTaskSwitchContext k) \<and> switch_frame k (vTaskSwitchContext k) \<and>
    (uxSchedulerSuspended k = 0 \<longrightarrow> running_highest (vTaskSwitchContext k)) \<and>
    (uxSchedulerSuspended k \<noteq> 0 \<longrightarrow> vTaskSwitchContext k = k\<lparr>xYieldPending := True\<rparr>) \<and>
    advances 0 k (vTaskSwitchContext k) t"
proof -
  let ?k = "k\<lparr>xYieldPending := False\<rparr>" and ?s = "vTaskSwitchContext k"
  have c: "lists_ok k" "times_ok k" "is_ready k idle" using assms by (auto simp: core_ok_def)
  have f: "lists_ok ?s \<and> switch_frame k ?s \<and> (uxSchedulerSuspended k = 0 \<longrightarrow> running_highest ?s)"
  proof (cases "uxSchedulerSuspended k = 0")
    case True
    have "lists_ok ?k" "is_ready ?k idle" using c by simp_all
    from select_spec[OF this] show ?thesis using True by (simp add: vTaskSwitchContext_def switch_frame_def)
  next
    case False
    then show ?thesis using c by (simp add: vTaskSwitchContext_def switch_frame_def)
  qed
  then have "times_ok ?s" "is_ready ?s idle" "remaining ?s t = remaining k t" "is_ready ?s t = is_ready k t"
    "waiting ?s = waiting k" "pending ?s = pending k"
    using c by (simp_all add: times_ok_def remaining_def switch_frame_def)
  then show ?thesis using f advances_same[OF c(2)] by (simp add: core_ok_def vTaskSwitchContext_def)
qed

lemma move_pending_spec:
  "lists_ok k \<Longrightarrow> (let k' = move_pending k in lists_ok k' \<and> uxPriority k' = uxPriority k \<and> pxCurrentTCB k' = pxCurrentTCB k \<and>
     state_value k' = state_value k \<and> xTickCount k' = xTickCount k \<and> xNextTaskUnblockTime k' = xNextTaskUnblockTime k \<and>
     xPendedTicks k' = xPendedTicks k \<and> uxSchedulerSuspended k' = uxSchedulerSuspended k \<and> pending k' = {} \<and>
     delayed k' = delayed k - pending k \<and> overflow k' = overflow k - pending k \<and> waiting k' = waiting k \<and>
     (\<forall>u. is_ready k' u \<longleftrightarrow> is_ready k u \<or> u \<in> pending k) \<and>
     (xYieldPending k' \<longleftrightarrow> xYieldPending k \<or> (\<exists>u \<in> pending k. uxPriority k u \<ge> uxPriority k (pxCurrentTCB k))))"
proof (induction k rule: move_pending.induct)
  case (1 k)
  show ?case
  proof (cases "entries (xPendingReadyList k)")
    case Nil
    then show ?thesis using "1.prems" by (subst (1) move_pending.simps) (simp add: pending_def Let_def)
  next
    case (Cons t ts)
    let ?m = "make_ready t k"
    let ?k = "if uxPriority ?m t \<ge> uxPriority ?m (pxCurrentTCB ?m) then ?m\<lparr>xYieldPending := True\<rparr> else ?m"
    have t: "t \<in> pending k" using Cons by (simp add: pending_def)
    have b: "t \<in> blocked k" using "1.prems" t by (auto simp: lists_ok_def)
    note m = make_ready_lists[OF "1.prems" b]
    note s = make_ready_sets[OF "1.prems", of t]
    have w: "waiting ?m = waiting k"
      using "1.prems" t by (auto simp: fun_eq_iff s lists_ok_def event_lists_ok_def)
    have "lists_ok ?k" using m(1) by simp
    note ih = "1.IH"[OF Cons refl this]
    have e: "move_pending k = move_pending ?k" using Cons by (subst (1) move_pending.simps) (simp add: Let_def)
    show ?thesis unfolding e using ih t w m(2) s unfolding Let_def by (cases "uxPriority k t \<ge> uxPriority k (pxCurrentTCB k)") auto
  qed
qed

lemma reset_spec:
  assumes "lists_ok k" "times_ok k"
  shows "lists_ok (prvResetNextTaskUnblockTime k)" "times_ok (prvResetNextTaskUnblockTime k)"
proof -
  show "lists_ok (prvResetNextTaskUnblockTime k)" using assms(1) by (simp add: prvResetNextTaskUnblockTime_def)
  have "sorted (map (state_value k) (entries (pxDelayedTaskList k)))" using assms(1) by (simp add: lists_ok_def blocked_ok_def)
  then have "(case entries (pxDelayedTaskList k) of [] \<Rightarrow> portMAX_DELAY | t # _ \<Rightarrow> state_value k t) \<le> state_value k u" if "u \<in> delayed k" for u
    using that by (cases "entries (pxDelayedTaskList k)") (auto simp: delayed_def)
  then show "times_ok (prvResetNextTaskUnblockTime k)" using assms(2) by (simp add: times_ok_def prvResetNextTaskUnblockTime_def)
qed

text \<open>The tasks a call made ready are below the running one, unless a yield is pending.\<close>

definition below :: "kernel \<Rightarrow> kernel \<Rightarrow> bool" where
  "below k k' \<longleftrightarrow> uxPriority k' = uxPriority k \<and> pxCurrentTCB k' = pxCurrentTCB k \<and>
     uxSchedulerSuspended k' = uxSchedulerSuspended k \<and> (\<forall>t. is_ready k t \<longrightarrow> is_ready k' t) \<and>
     (xYieldPending k' \<or> \<not> xYieldPending k \<and>
        (\<forall>t. is_ready k' t \<longrightarrow> is_ready k t \<or> uxPriority k t < uxPriority k (pxCurrentTCB k)))"

lemma below_trans: "below a b \<Longrightarrow> below b c \<Longrightarrow> below a c"
  unfolding below_def by metis

lemma below_refl [simp]: "below k k"
  by (auto simp: below_def)

lemma increment_spec:
  assumes "core_ok idle k" "uxSchedulerSuspended k = 0"
  defines "k' \<equiv> snd (xTaskIncrementTick k)"
  shows "core_ok idle k'" "tick_spec k k'" "\<not> fst (xTaskIncrementTick k) \<Longrightarrow> below k k' \<and> \<not> xYieldPending k'"
proof -
  have c: "lists_ok k" "times_ok k" "is_ready k idle" using assms(1) by (auto simp: core_ok_def)
  note t = tick_lists[OF c(1,2) assms(2), folded k'_def]
  show "tick_spec k k'" by (rule t(1))
  then show "core_ok idle k'" using c by (simp add: core_ok_def tick_spec_def)
  show "below k k' \<and> \<not> xYieldPending k'" if "\<not> fst (xTaskIncrementTick k)"
  proof -
    have "\<not> xYieldPending k'" using that assms(2)
      by (auto simp: k'_def xTaskIncrementTick_def Let_def split: prod.splits if_splits)
    then show ?thesis using t that by (auto simp: below_def tick_spec_def)
  qed
qed

lemma below_yield: "uxPriority k' = uxPriority k \<Longrightarrow> pxCurrentTCB k' = pxCurrentTCB k \<Longrightarrow>
  uxSchedulerSuspended k' = uxSchedulerSuspended k \<Longrightarrow> (\<And>t. is_ready k t \<Longrightarrow> is_ready k' t) \<Longrightarrow> below k (k'\<lparr>xYieldPending := True\<rparr>)"
  by (simp add: below_def)

lemma core_yield [simp]: "core_ok idle (k\<lparr>xYieldPending := y\<rparr>) = core_ok idle k"
  by (simp add: core_ok_def)

lemma advances_yield [simp]: "advances p k (k'\<lparr>xYieldPending := y\<rparr>) t = advances p k k' t"
  by (simp add: advances_def)

lemma unpend_spec:
  "core_ok idle k \<Longrightarrow> uxSchedulerSuspended k = 0 \<Longrightarrow>
   core_ok idle (unpend_ticks n k) \<and> below k (unpend_ticks n k) \<and> pending (unpend_ticks n k) \<subseteq> pending k \<and>
   advances n k (unpend_ticks n k) t"
proof (induction n arbitrary: k)
  case 0
  then show ?case by (simp add: core_ok_def advances_0)
next
  case (Suc n)
  obtain sw k' where e: "xTaskIncrementTick k = (sw, k')" by (cases "xTaskIncrementTick k") auto
  note i = increment_spec[OF Suc.prems, unfolded e, simplified]
  define m where "m = (if sw then k'\<lparr>xYieldPending := True\<rparr> else k')"
  have u: "unpend_ticks (Suc n) k = unpend_ticks n m" by (simp add: e m_def)
  have c: "core_ok idle m" "uxSchedulerSuspended m = 0" using i Suc.prems by (simp_all add: m_def tick_spec_def)
  have b: "below k m" using i by (auto simp: below_def tick_spec_def m_def)
  have a: "advances 1 k m t" using advances_tick[OF _ i(2)] Suc.prems(1) by (simp add: core_ok_def m_def)
  have "pending m \<subseteq> pending k" using i(2) by (auto simp: tick_spec_def m_def)
  then show ?case unfolding u using Suc.IH[OF c] advances_trans[OF a, of n "unpend_ticks n m"] below_trans[OF b, of "unpend_ticks n m"]
    by auto
qed

text \<open>What a resumption leaves: nothing pending, and a task that may run on.\<close>

definition settled :: "kernel \<Rightarrow> bool" where
  "settled k \<longleftrightarrow> pending k = {} \<and> xPendedTicks k = 0"

lemma resume_spec:
  assumes c: "core_ok idle k" and u: "uxSchedulerSuspended k = 1"
  shows "case xTaskResumeAll k of (yielded, k') \<Rightarrow> core_ok idle k' \<and> settled k' \<and> uxSchedulerSuspended k' = 0 \<and>
    uxPriority k' = uxPriority k \<and>
    (if yielded then running_highest k' else below (k\<lparr>uxSchedulerSuspended := 0\<rparr>) k' \<and> \<not> xYieldPending k') \<and>
    (t \<notin> pending k \<longrightarrow> advances (unat (xPendedTicks k)) k k' t) \<and> (\<forall>u. is_ready k u \<longrightarrow> is_ready k' u)"
proof -
  define a where "a = k\<lparr>uxSchedulerSuspended := 0\<rparr>"
  define b where "b = (if entries (xPendingReadyList a) \<noteq> [] then prvResetNextTaskUnblockTime (move_pending a) else move_pending a)"
  define d where "d = (if xPendedTicks b > 0 then (unpend_ticks (unat (xPendedTicks b)) b)\<lparr>xPendedTicks := 0\<rparr> else b)"
  have e: "xTaskResumeAll k = (if xYieldPending d then (True, vTaskSwitchContext d) else (False, d))"
    using u by (simp add: xTaskResumeAll_def a_def b_def d_def Let_def)
  have ca: "core_ok idle a" using c by (simp add: a_def core_ok_def)
  have la: "lists_ok a" "times_ok a" "is_ready a idle" using ca by (auto simp: core_ok_def)
  note m = move_pending_spec[OF la(1), unfolded Let_def]
  have tm: "times_ok (move_pending a)" using la(2) m by (auto simp: times_ok_def)
  have b: "core_ok idle b" "uxSchedulerSuspended b = 0" "pending b = {}" "xPendedTicks b = xPendedTicks k"
    "waiting b = waiting k" "below a b" "uxPriority b = uxPriority k" "pxCurrentTCB b = pxCurrentTCB k"
    "\<And>u. is_ready b u \<longleftrightarrow> is_ready k u \<or> u \<in> pending k" "t \<notin> pending k \<Longrightarrow> remaining b t = remaining k t"
  proof -
    let ?m = "move_pending a"
    have f: "uxSchedulerSuspended b = uxSchedulerSuspended ?m" "pending b = pending ?m" "xPendedTicks b = xPendedTicks ?m"
      "waiting b = waiting ?m" "uxPriority b = uxPriority ?m" "pxCurrentTCB b = pxCurrentTCB ?m" "is_ready b = is_ready ?m"
      "remaining b = remaining ?m" "xYieldPending b = xYieldPending ?m"
      by (simp_all add: b_def prvResetNextTaskUnblockTime_def)
    have "lists_ok b" "times_ok b" using reset_spec[OF _ tm] tm m by (auto simp: b_def)
    then show "core_ok idle b" using la(3) m f by (simp add: core_ok_def)
    show "uxSchedulerSuspended b = 0" "pending b = {}" "xPendedTicks b = xPendedTicks k" "waiting b = waiting k"
      "uxPriority b = uxPriority k" "pxCurrentTCB b = pxCurrentTCB k"
      using f m by (simp_all add: a_def)
    show r: "\<And>u. is_ready b u \<longleftrightarrow> is_ready k u \<or> u \<in> pending k" using f m by (simp add: a_def)
    show "below a b" using f m by (auto simp: below_def a_def linorder_not_le[symmetric])
    show "t \<notin> pending k \<Longrightarrow> remaining b t = remaining k t" using f m by (simp add: a_def remaining_def)
  qed
  have tk: "times_ok k" using c by (simp add: core_ok_def)
  have ab: "advances 0 k b t" if "t \<notin> pending k"
    by (rule advances_same[OF tk]) (use b(3,5,9,10) that in auto)
  have d: "core_ok idle d" "uxSchedulerSuspended d = 0" "settled d" "below a d"
    "advances (unat (xPendedTicks k)) b d t"
  proof -
    have "core_ok idle d \<and> uxSchedulerSuspended d = 0 \<and> settled d \<and> below a d \<and> advances (unat (xPendedTicks k)) b d t"
    proof (cases "xPendedTicks b > 0")
      case False
      then have z: "xPendedTicks k = 0" using b(4) by (simp add: word_less_nat_alt unat_eq_0)
      have "d = b" using False by (simp add: d_def)
      then show ?thesis using b z advances_0 by (simp add: settled_def core_ok_def)
    next
      case True
      define n where "n = unpend_ticks (unat (xPendedTicks k)) b"
      have dn: "d = n\<lparr>xPendedTicks := 0\<rparr>" using True b(4) by (simp add: d_def n_def)
      note s = unpend_spec[OF b(1,2), of "unat (xPendedTicks k)" t, folded n_def]
      have "below a n" using below_trans[OF b(6)] s by blast
      then have "below a d" by (simp add: dn below_def)
      moreover have "uxSchedulerSuspended d = 0" using s b(2) by (simp add: dn below_def)
      moreover have "core_ok idle d" using s by (simp add: dn core_ok_def)
      ultimately show ?thesis using s b(3) by (auto simp: dn settled_def advances_def)
    qed
    then show "core_ok idle d" "uxSchedulerSuspended d = 0" "settled d" "below a d"
      "advances (unat (xPendedTicks k)) b d t" by auto
  qed
  have ad: "advances (unat (xPendedTicks k)) k d t" if "t \<notin> pending k" using advances_trans[OF ab[OF that] d(5)] by simp
  have rd: "is_ready k u \<Longrightarrow> is_ready d u" for u using d(4) by (simp add: below_def a_def)
  show ?thesis
  proof (cases "xYieldPending d")
    case False
    then show ?thesis using d ad rd by (simp add: e a_def below_def)
  next
    case True
    note s = switch_spec[OF d(1), of t]
    have "advances (unat (xPendedTicks k)) k (vTaskSwitchContext d) t" if "t \<notin> pending k"
      using advances_trans[OF ad[OF that], of 0 "vTaskSwitchContext d"] s by simp
    then show ?thesis using True s d rd by (simp add: e settled_def switch_frame_def below_def a_def)
  qed
qed

section \<open>Blocking\<close>

text \<open>The running task out of its ready list.\<close>

definition unready :: "kernel \<Rightarrow> kernel" where
  "unready k = (let t = pxCurrentTCB k; k = remove_state t k
     in if entries (pxReadyTasksLists k (uxPriority k t)) = []
        then k\<lparr>uxTopReadyPriority := uxTopReadyPriority k AND NOT (push_bit (uxPriority k t) 1)\<rparr> else k)"

lemma unready_fields:
  assumes l: "lists_ok k" and r: "is_ready k (pxCurrentTCB k)"
  defines "t \<equiv> pxCurrentTCB k"
  shows "pxReadyTasksLists (unready k) = (pxReadyTasksLists k)(uxPriority k t := kl_remove t (pxReadyTasksLists k (uxPriority k t)))"
    "uxTopReadyPriority (unready k) = (if entries (kl_remove t (pxReadyTasksLists k (uxPriority k t))) = []
       then uxTopReadyPriority k AND NOT (push_bit (uxPriority k t) 1) else uxTopReadyPriority k)"
    "pxDelayedTaskList (unready k) = pxDelayedTaskList k" "pxOverflowDelayedTaskList (unready k) = pxOverflowDelayedTaskList k"
    "xSuspendedTaskList (unready k) = xSuspendedTaskList k" "xPendingReadyList (unready k) = xPendingReadyList k"
    "event_lists (unready k) = event_lists k" "uxPriority (unready k) = uxPriority k" "pxCurrentTCB (unready k) = t"
    "state_value (unready k) = state_value k" "xTickCount (unready k) = xTickCount k"
    "xNextTaskUnblockTime (unready k) = xNextTaskUnblockTime k" "xPendedTicks (unready k) = xPendedTicks k"
    "uxSchedulerSuspended (unready k) = uxSchedulerSuspended k" "xYieldPending (unready k) = xYieldPending k"
proof -
  have nb: "t \<notin> blocked k" using l r by (auto simp: lists_ok_def t_def)
  have keep: "kl_remove t (pxDelayedTaskList k) = pxDelayedTaskList k"
    "kl_remove t (pxOverflowDelayedTaskList k) = pxOverflowDelayedTaskList k"
    "kl_remove t (xSuspendedTaskList k) = xSuspendedTaskList k"
    using nb lists_ok_kl[OF l] by (auto intro!: kl_remove_none simp: delayed_def overflow_def forever_def)
  have ro: "ready_ok k" using l by (simp add: lists_ok_def)
  have other: "kl_remove t (pxReadyTasksLists k p) = pxReadyTasksLists k p" if "p \<noteq> uxPriority k t" for p
    using that ro by (intro kl_remove_none) (auto simp: ready_ok_def)
  have f: "(\<lambda>p. kl_remove t (pxReadyTasksLists k p)) =
    (pxReadyTasksLists k)(uxPriority k t := kl_remove t (pxReadyTasksLists k (uxPriority k t)))"
    using other by (auto simp: fun_eq_iff)
  show "pxReadyTasksLists (unready k) = (pxReadyTasksLists k)(uxPriority k t := kl_remove t (pxReadyTasksLists k (uxPriority k t)))"
    by (simp add: unready_def Let_def remove_state_def f t_def[symmetric])
  show "uxTopReadyPriority (unready k) = (if entries (kl_remove t (pxReadyTasksLists k (uxPriority k t))) = []
       then uxTopReadyPriority k AND NOT (push_bit (uxPriority k t) 1) else uxTopReadyPriority k)"
    by (simp add: unready_def Let_def remove_state_def t_def[symmetric])
  show "pxDelayedTaskList (unready k) = pxDelayedTaskList k" "pxOverflowDelayedTaskList (unready k) = pxOverflowDelayedTaskList k"
    "xSuspendedTaskList (unready k) = xSuspendedTaskList k"
    by (simp_all add: unready_def Let_def remove_state_def t_def[symmetric] keep)
qed (simp_all add: unready_def Let_def remove_state_def t_def)

lemma unready_ok:
  assumes l: "lists_ok k" and r: "is_ready k (pxCurrentTCB k)"
  shows "ready_ok (unready k)" "is_ready (unready k) u \<longleftrightarrow> is_ready k u \<and> u \<noteq> pxCurrentTCB k"
proof -
  let ?t = "pxCurrentTCB k"
  let ?p = "uxPriority k ?t"
  note f = unready_fields[OF l r]
  have ro: "ready_ok k" using l by (simp add: lists_ok_def)
  have kl: "kl_ok (pxReadyTasksLists k ?p)" using ro by (simp add: ready_ok_def)
  have st: "set (entries (kl_remove ?t (pxReadyTasksLists k ?p))) = set (entries (pxReadyTasksLists k ?p)) - {?t}"
    by (rule kl_remove_set[OF kl])
  show "is_ready (unready k) u \<longleftrightarrow> is_ready k u \<and> u \<noteq> ?t"
    using st r by (auto simp: is_ready_def f)
  have "bit (uxTopReadyPriority (unready k)) q \<longleftrightarrow> entries (pxReadyTasksLists (unready k) q) \<noteq> []" if q: "q < configMAX_PRIORITIES" for q
  proof -
    have "bit (uxTopReadyPriority k) q \<longleftrightarrow> entries (pxReadyTasksLists k q) \<noteq> []" using ro q by (simp add: ready_ok_def)
    moreover have "entries (pxReadyTasksLists k ?p) \<noteq> []" using r by (auto simp: is_ready_def)
    ultimately show ?thesis unfolding f(1,2) using q by (auto simp: bit_clear_priority)
  qed
  moreover have "kl_ok (pxReadyTasksLists (unready k) q)" for q
    using ro kl_remove_ok[OF kl] by (simp add: f ready_ok_def)
  moreover have "uxPriority (unready k) x = q" if "x \<in> set (entries (pxReadyTasksLists (unready k) q))" for x q
    using that ro st by (auto simp: f ready_ok_def split: if_splits)
  ultimately show "ready_ok (unready k)" using ro by (simp add: ready_ok_def f(8))
qed

definition blocks :: "u32 \<Rightarrow> bool \<Rightarrow> kernel \<Rightarrow> kernel \<Rightarrow> bool" where
  "blocks n indef k k' \<longleftrightarrow> lists_ok k' \<and> times_ok k' \<and> uxPriority k' = uxPriority k \<and> pxCurrentTCB k' = pxCurrentTCB k \<and>
     xTickCount k' = xTickCount k \<and> xPendedTicks k' = xPendedTicks k \<and> uxSchedulerSuspended k' = uxSchedulerSuspended k \<and>
     xYieldPending k' = xYieldPending k \<and> xPendingReadyList k' = xPendingReadyList k \<and> event_lists k' = event_lists k \<and>
     (\<forall>u. is_ready k' u \<longleftrightarrow> is_ready k u \<and> u \<noteq> pxCurrentTCB k) \<and> pxCurrentTCB k \<in> blocked k' \<and>
     (\<forall>u. u \<noteq> pxCurrentTCB k \<longrightarrow> remaining k' u = remaining k u \<and> (u \<in> forever k' \<longleftrightarrow> u \<in> forever k)) \<and>
     remaining k' (pxCurrentTCB k) = (if n = portMAX_DELAY \<and> indef then None else Some (unat n))"

lemma add_delayed_unready:
  "prvAddCurrentTaskToDelayedList n indef k =
     (let t = pxCurrentTCB k; now = xTickCount k; k = unready k
      in if n = portMAX_DELAY \<and> indef
         then k\<lparr>xSuspendedTaskList := kl_insert_end t (xSuspendedTaskList k)\<rparr>
         else (let wake = now + n;
                   k = k\<lparr>state_value := (state_value k)(t := wake)\<rparr>
               in if wake < now
                  then k\<lparr>pxOverflowDelayedTaskList := kl_insert (state_value k) t (pxOverflowDelayedTaskList k)\<rparr>
                  else (let k = k\<lparr>pxDelayedTaskList := kl_insert (state_value k) t (pxDelayedTaskList k)\<rparr>
                        in if wake < xNextTaskUnblockTime k then k\<lparr>xNextTaskUnblockTime := wake\<rparr> else k)))"
  by (simp add: prvAddCurrentTaskToDelayedList_def unready_def Let_def)

lemma wake_arith:
  assumes "n \<noteq> (0 :: u32)"
  shows "now + n < now \<Longrightarrow> 2 ^ 32 - unat now + unat (now + n) = unat n"
    "\<not> now + n < now \<Longrightarrow> now < now + n \<and> unat (now + n) - unat now = unat n"
proof -
  have b: "unat now < 4294967296" "unat n < 4294967296" "0 < unat n" using u32_bound assms by (simp_all add: unat_gt_0)
  have s: "unat (now + n) = (unat now + unat n) mod 4294967296" by (simp add: unat_word_ariths)
  show "2 ^ 32 - unat now + unat (now + n) = unat n" if "now + n < now"
  proof -
    have "\<not> unat now + unat n < 4294967296" using that s b by (auto simp: word_less_nat_alt)
    then have "unat (now + n) = unat now + unat n - 4294967296" using s b by (simp add: mod_if)
    then show ?thesis using b \<open>\<not> unat now + unat n < 4294967296\<close> by simp
  qed
  show "now < now + n \<and> unat (now + n) - unat now = unat n" if "\<not> now + n < now"
  proof -
    have "unat now + unat n < 4294967296"
    proof (rule ccontr)
      assume o: "\<not> unat now + unat n < 4294967296"
      then have "unat (now + n) = unat now + unat n - 4294967296" using s b by (simp add: mod_if)
      moreover have "\<not> unat (now + n) < unat now" using that unfolding word_less_nat_alt .
      ultimately show False using b o by linarith
    qed
    then show ?thesis using s b by (simp add: word_less_nat_alt)
  qed
qed

lemma block_lists:
  assumes l: "lists_ok k" and ro: "ready_ok k'" and rd: "\<And>u. is_ready k' u \<longleftrightarrow> is_ready k u \<and> u \<noteq> t"
    and r: "is_ready k t" and b: "blocked_ok k'" and s: "blocked k' = insert t (blocked k)"
    and p: "xPendingReadyList k' = xPendingReadyList k" and e: "event_lists k' = event_lists k"
    and pr: "uxPriority k' = uxPriority k"
  shows "lists_ok k'"
proof -
  have pw: "pending k' = pending k" "waiting k' = waiting k" using p e by (simp_all add: pending_def waiting_def fun_eq_iff)
  have "event_lists_ok k'" using l p e pw event_value_cong[OF pr] by (simp add: lists_ok_def event_lists_ok_def)
  then show ?thesis using l ro rd b unfolding lists_ok_def s pw by auto
qed

lemma sorted_map_fresh: "t \<notin> set (entries l) \<Longrightarrow> sorted (map (f(t := v)) (entries l)) = sorted (map f (entries l))"
proof -
  assume "t \<notin> set (entries l)"
  then have "map (f(t := v)) (entries l) = map f (entries l)" by auto
  then show ?thesis by (rule arg_cong)
qed

lemma block_spec:
  assumes l: "lists_ok k" and tm: "times_ok k" and r: "is_ready k (pxCurrentTCB k)" and n: "n \<noteq> 0"
  shows "blocks n indef k (prvAddCurrentTaskToDelayedList n indef k)"
proof -
  let ?t = "pxCurrentTCB k" and ?u = "unready k" and ?k = "prvAddCurrentTaskToDelayedList n indef k"
  let ?wake = "xTickCount k + n"
  note f = unready_fields[OF l r] and ru = unready_ok[OF l r]
  have nb: "?t \<notin> delayed k" "?t \<notin> overflow k" "?t \<notin> forever k" using l r by (auto simp: lists_ok_def)
  have bo: "blocked_ok k" using l by (simp add: lists_ok_def)
  note srt = bo[unfolded blocked_ok_def]
  have sv: "sorted (map ((state_value k)(?t := v)) (entries (pxDelayedTaskList k)))"
    "sorted (map ((state_value k)(?t := v)) (entries (pxOverflowDelayedTaskList k)))" for v
    using srt nb sorted_map_fresh[of ?t "pxDelayedTaskList k" "state_value k" v]
      sorted_map_fresh[of ?t "pxOverflowDelayedTaskList k" "state_value k" v] by (simp_all add: delayed_def overflow_def)
  have tmk: "\<And>u. u \<in> delayed k \<Longrightarrow> xTickCount k < state_value k u \<and> xNextTaskUnblockTime k \<le> state_value k u"
    "\<And>u. u \<in> overflow k \<Longrightarrow> state_value k u < xTickCount k" using tm by (auto simp: times_ok_def)
  consider (ever) "n = portMAX_DELAY \<and> indef" | (over) "\<not> (n = portMAX_DELAY \<and> indef)" "?wake < xTickCount k"
    | (soon) "\<not> (n = portMAX_DELAY \<and> indef)" "\<not> ?wake < xTickCount k" by blast
  then show ?thesis
  proof cases
    case ever
    let ?e = "?u\<lparr>xSuspendedTaskList := kl_insert_end ?t (xSuspendedTaskList k)\<rparr>"
    have k: "?k = ?e" using ever by (simp add: add_delayed_unready Let_def f)
    have s: "delayed ?e = delayed k" "overflow ?e = overflow k" "forever ?e = insert ?t (forever k)"
      by (simp_all add: delayed_def overflow_def forever_def f set_kl)
    have rd: "is_ready ?e u \<longleftrightarrow> is_ready k u \<and> u \<noteq> ?t" for u using ru(2)[of u] by (simp add: is_ready_def)
    have "ready_ok ?e" using ru(1) by (simp add: ready_ok_def)
    moreover have "blocked_ok ?e" unfolding blocked_ok_def s using srt nb
      by (auto simp: f forever_def intro: kl_insert_end_turn(1))
    ultimately have "lists_ok ?e" by (intro block_lists[OF l _ rd r]) (auto simp: s f)
    then show ?thesis unfolding k blocks_def using rd s nb tm ever
      by (auto simp: f times_ok_def remaining_def)
  next
    case over
    let ?v = "(state_value k)(?t := ?wake)"
    let ?e = "?u\<lparr>state_value := ?v, pxOverflowDelayedTaskList := kl_insert ?v ?t (pxOverflowDelayedTaskList k)\<rparr>"
    have k: "?k = ?e" using over by (auto simp: add_delayed_unready Let_def f)
    have s: "delayed ?e = delayed k" "overflow ?e = insert ?t (overflow k)" "forever ?e = forever k"
      by (simp_all add: delayed_def overflow_def forever_def f set_kl)
    have rd: "is_ready ?e u \<longleftrightarrow> is_ready k u \<and> u \<noteq> ?t" for u using ru(2)[of u] by (simp add: is_ready_def)
    have "ready_ok ?e" using ru(1) by (simp add: ready_ok_def)
    moreover have "blocked_ok ?e" unfolding blocked_ok_def s using srt nb sv[of ?wake]
      by (auto simp: f overflow_def intro: kl_insert_ok kl_insert_sorted)
    ultimately have "lists_ok ?e" by (intro block_lists[OF l _ rd r]) (auto simp: s f)
    moreover have "times_ok ?e" using tmk over(2) nb by (auto simp: times_ok_def s f)
    moreover have "remaining ?e ?t = Some (unat n)" using wake_arith(1)[OF n over(2)] nb by (simp add: remaining_def s f)
    moreover have "remaining ?e u = remaining k u" if "u \<noteq> ?t" for u using that by (simp add: remaining_def s f)
    ultimately show ?thesis unfolding k blocks_def using rd s over(1) by (auto simp: f)
  next
    case soon
    let ?v = "(state_value k)(?t := ?wake)"
    let ?next = "if ?wake < xNextTaskUnblockTime k then ?wake else xNextTaskUnblockTime k"
    define e where "e = ?u\<lparr>state_value := ?v, pxDelayedTaskList := kl_insert ?v ?t (pxDelayedTaskList k), xNextTaskUnblockTime := ?next\<rparr>"
    have k: "?k = e" using soon by (auto simp: add_delayed_unready Let_def f e_def)
    have s: "delayed e = insert ?t (delayed k)" "overflow e = overflow k" "forever e = forever k"
      by (simp_all add: e_def delayed_def overflow_def forever_def f set_kl)
    have sb: "blocked e = insert ?t (blocked k)" unfolding s by blast
    have rd: "is_ready e u \<longleftrightarrow> is_ready k u \<and> u \<noteq> ?t" for u using ru(2)[of u] by (simp add: is_ready_def e_def)
    have fe: "pxDelayedTaskList e = kl_insert ?v ?t (pxDelayedTaskList k)" "pxOverflowDelayedTaskList e = pxOverflowDelayedTaskList k"
      "xSuspendedTaskList e = xSuspendedTaskList k" "state_value e = ?v" "xTickCount e = xTickCount k"
      "xNextTaskUnblockTime e = ?next" "xPendingReadyList e = xPendingReadyList k" "event_lists e = event_lists k"
      "uxPriority e = uxPriority k" "pxCurrentTCB e = ?t" "xPendedTicks e = xPendedTicks k"
      "uxSchedulerSuspended e = uxSchedulerSuspended k" "xYieldPending e = xYieldPending k"
      by (simp_all add: e_def f)
    have ro: "ready_ok e" using ru(1) by (simp add: ready_ok_def e_def)
    have "blocked_ok e" unfolding blocked_ok_def s fe using srt nb sv[of ?wake]
      by (auto simp: delayed_def intro: kl_insert_ok kl_insert_sorted)
    then have "lists_ok e" by (intro block_lists[OF l ro rd r _ sb]) (simp_all add: fe)
    moreover have "?next \<le> state_value e u \<and> xTickCount k < state_value e u" if "u \<in> delayed e" for u
    proof (cases "u = ?t")
      case True
      then show ?thesis using wake_arith(2)[OF n soon(2)] by (simp add: fe linorder_not_less)
    next
      case False
      then have "u \<in> delayed k" using that s by simp
      then show ?thesis using tmk(1)[of u] False by (auto simp: fe)
    qed
    then have "times_ok e" using tmk(2) nb by (auto simp: times_ok_def s fe)
    moreover have "remaining e ?t = Some (unat n)" using wake_arith(2)[OF n soon(2)] by (simp add: remaining_def s fe)
    moreover have "remaining e u = remaining k u" if "u \<noteq> ?t" for u using that by (simp add: remaining_def s fe)
    ultimately show ?thesis unfolding k blocks_def using rd s sb soon(1) by (auto simp: fe)
  qed
qed

section \<open>The invariant\<close>

definition kernel_inv :: "nat \<Rightarrow> kernel \<Rightarrow> bool" where
  "kernel_inv idle k \<longleftrightarrow> core_ok idle k \<and> running_highest k \<and> (uxSchedulerSuspended k = 0 \<longrightarrow> settled k)"

definition ticks_of :: "kernel_event \<Rightarrow> nat" where
  "ticks_of e = (if e = Tick then 1 else 0)"

text \<open>A task that only waits for its time.\<close>

definition sleeping :: "kernel \<Rightarrow> nat \<Rightarrow> bool" where
  "sleeping k t \<longleftrightarrow> \<not> is_ready k t \<and> t \<in> blocked k \<and> t \<notin> pending k \<and> (\<forall>e. t \<notin> waiting k e)"

lemma remaining_blocked: "remaining k t = Some r \<Longrightarrow> t \<in> blocked k"
  by (auto simp: remaining_def split: if_splits)

definition good_step :: "nat \<Rightarrow> kernel_event \<Rightarrow> kernel \<Rightarrow> kernel \<Rightarrow> bool" where
  "good_step idle e k k' \<longleftrightarrow> kernel_inv idle k' \<and> uxPriority k' = uxPriority k \<and>
     (\<forall>t. sleeping k t \<longrightarrow> (\<exists>p. advances p k k' t \<and> unat (xPendedTicks k') + p = unat (xPendedTicks k) + ticks_of e))"

lemma below_running: "below k k' \<Longrightarrow> \<not> xYieldPending k' \<Longrightarrow> running_highest k \<Longrightarrow> running_highest k'"
  unfolding below_def running_highest_def by (metis less_imp_le)

lemma good_0:
  assumes "kernel_inv idle k'" "uxPriority k' = uxPriority k" "ticks_of e = 0" "xPendedTicks k' = xPendedTicks k"
    "\<And>t. sleeping k t \<Longrightarrow> advances 0 k k' t"
  shows "good_step idle e k k'"
  using assms unfolding good_step_def by (metis add_0_right)

lemma inv_parts: "kernel_inv idle k \<Longrightarrow> lists_ok k \<and> times_ok k \<and> is_ready k idle \<and> core_ok idle k \<and> running_highest k"
  by (simp add: kernel_inv_def core_ok_def)

lemma good_yield: "kernel_inv idle k \<Longrightarrow> ticks_of e = 0 \<Longrightarrow> good_step idle e k (vTaskSwitchContext k)"
proof (rule good_0)
  assume i: "kernel_inv idle k"
  note s = switch_spec[OF inv_parts[OF i, THEN conjunct2, THEN conjunct2, THEN conjunct2, THEN conjunct1]]
  show "kernel_inv idle (vTaskSwitchContext k)"
  proof (cases "uxSchedulerSuspended k = 0")
    case True
    then show ?thesis using s i by (simp add: kernel_inv_def settled_def switch_frame_def)
  next
    case False
    then show ?thesis using s i by (simp add: kernel_inv_def running_highest_def switch_frame_def)
  qed
  show "uxPriority (vTaskSwitchContext k) = uxPriority k" "xPendedTicks (vTaskSwitchContext k) = xPendedTicks k"
    "\<And>t. advances 0 k (vTaskSwitchContext k) t" using s by (simp_all add: switch_frame_def)
qed

lemma good_tick:
  assumes i: "kernel_inv idle k" and ok: "event_ok idle Tick k"
  shows "good_step idle Tick k (kernel_step Tick k)"
proof (cases "uxSchedulerSuspended k = 0")
  case True
  obtain sw k1 where e: "xTaskIncrementTick k = (sw, k1)" by (cases "xTaskIncrementTick k") auto
  have c: "core_ok idle k" "times_ok k" using i inv_parts by blast+
  note t = increment_spec[OF c(1) True, unfolded e, simplified]
  have a: "advances 1 k k1 u" for u by (rule advances_tick[OF c(2) t(2)])
  have se: "settled k1" using i True t(2) by (auto simp: kernel_inv_def settled_def tick_spec_def)
  have u1: "uxSchedulerSuspended k1 = 0" using True t(2) by (simp add: tick_spec_def)
  show ?thesis
  proof (cases sw)
    case True
    note s = switch_spec[OF t(1)]
    have "advances 1 k (vTaskSwitchContext k1) u" for u using advances_trans[OF a] s by fastforce
    moreover have "running_highest (vTaskSwitchContext k1)" using s u1 by blast
    ultimately show ?thesis using True s se t(2) i
      by (auto simp: e good_step_def kernel_inv_def settled_def switch_frame_def tick_spec_def ticks_of_def)
  next
    case False
    have "running_highest k1" using t(3) False below_running i by (auto simp: kernel_inv_def)
    then show ?thesis using False a se t(1,2)
      by (auto simp: e good_step_def kernel_inv_def tick_spec_def ticks_of_def)
  qed
next
  case False
  let ?k = "k\<lparr>xPendedTicks := xPendedTicks k + 1\<rparr>"
  have k: "kernel_step Tick k = ?k" using False by (simp add: xTaskIncrementTick_def)
  have c: "lists_ok k" "times_ok k" "is_ready k idle" using inv_parts[OF i] by auto
  have "xPendedTicks k + 1 \<noteq> 0"
  proof
    assume "xPendedTicks k + 1 = 0"
    then have "xPendedTicks k = - 1" by (rule eq_neg_iff_add_eq_0[THEN iffD2])
    then show False using ok by simp
  qed
  then have n: "unat (xPendedTicks k + 1) = unat (xPendedTicks k) + 1" by (rule next_tick)
  have "kernel_inv idle ?k" using i False c by (simp add: kernel_inv_def core_ok_def running_highest_def)
  moreover have "advances 0 k ?k t" for t by (rule advances_same[OF c(2)]) simp_all
  ultimately show ?thesis unfolding k using n by (auto simp: good_step_def ticks_of_def intro!: exI[of _ 0])
qed

lemma good_suspend:
  assumes i: "kernel_inv idle k" and ok: "event_ok idle Suspend k"
  shows "good_step idle Suspend k (kernel_step Suspend k)"
proof -
  let ?k = "k\<lparr>uxSchedulerSuspended := uxSchedulerSuspended k + 1\<rparr>"
  have c: "lists_ok k" "times_ok k" "is_ready k idle" "running_highest k" using inv_parts[OF i] by auto
  have "uxSchedulerSuspended k + 1 \<noteq> 0"
  proof
    assume "uxSchedulerSuspended k + 1 = 0"
    then have "uxSchedulerSuspended k = - 1" by (rule eq_neg_iff_add_eq_0[THEN iffD2])
    then show False using ok by simp
  qed
  then have "kernel_inv idle ?k" using c by (simp add: kernel_inv_def core_ok_def running_highest_def)
  moreover have "advances 0 k ?k t" for t by (rule advances_same[OF c(2)]) simp_all
  ultimately show ?thesis by (simp add: vTaskSuspendAll_def good_step_def ticks_of_def)
qed

lemma good_resume:
  assumes i: "kernel_inv idle k" and ok: "event_ok idle Resume k"
  shows "good_step idle Resume k (kernel_step Resume k)"
proof (cases "uxSchedulerSuspended k = 1")
  case True
  have c: "core_ok idle k" "running_highest k" using inv_parts[OF i] by auto
  obtain y k' where e: "xTaskResumeAll k = (y, k')" by (cases "xTaskResumeAll k") auto
  note r = resume_spec[OF c(1) True, unfolded e prod.case]
  have "running_highest k'"
  proof (cases y)
    case True
    then show ?thesis using r by simp
  next
    case False
    then show ?thesis using r c(2) below_running[of "k\<lparr>uxSchedulerSuspended := 0\<rparr>" k'] by (simp add: running_highest_def)
  qed
  then have "kernel_inv idle k'" using r by (simp add: kernel_inv_def)
  then show ?thesis using r by (simp add: good_step_def e settled_def ticks_of_def sleeping_def)
next
  case False
  let ?k = "k\<lparr>uxSchedulerSuspended := uxSchedulerSuspended k - 1\<rparr>"
  have c: "lists_ok k" "times_ok k" "is_ready k idle" "running_highest k" using inv_parts[OF i] by auto
  have nz: "uxSchedulerSuspended k - 1 \<noteq> 0" using False by simp
  then have "kernel_inv idle ?k" using c by (simp add: kernel_inv_def core_ok_def running_highest_def)
  moreover have "advances 0 k ?k t" for t by (rule advances_same[OF c(2)]) simp_all
  ultimately show ?thesis using nz by (simp add: xTaskResumeAll_def Let_def good_step_def ticks_of_def)
qed

lemma resume_yield:
  assumes c: "core_ok idle k" and u: "uxSchedulerSuspended k = 1" and s: "pending k = {}" "xPendedTicks k = 0"
  defines "r \<equiv> (let (yielded, k') = xTaskResumeAll k in if yielded then k' else vTaskSwitchContext k')"
  shows "kernel_inv idle r \<and> uxPriority r = uxPriority k \<and> xPendedTicks r = 0 \<and> uxSchedulerSuspended r = 0 \<and> advances 0 k r t"
proof -
  obtain y k' where e: "xTaskResumeAll k = (y, k')" by (cases "xTaskResumeAll k") auto
  note q = resume_spec[OF c u, of t, unfolded e prod.case s]
  show ?thesis
  proof (cases y)
    case True
    then show ?thesis using q by (simp add: r_def e kernel_inv_def settled_def)
  next
    case False
    have w: "core_ok idle (vTaskSwitchContext k') \<and> switch_frame k' (vTaskSwitchContext k') \<and> running_highest (vTaskSwitchContext k') \<and>
      advances 0 k' (vTaskSwitchContext k') t"
      using switch_spec[of idle k' t] q by simp
    moreover have "advances 0 k (vTaskSwitchContext k') t" using advances_trans[of 0 k k' t 0] q w by simp
    ultimately show ?thesis using q False by (simp add: r_def e kernel_inv_def settled_def switch_frame_def)
  qed
qed

lemma ready_free: "t \<notin> blocked k \<and> t \<notin> pending k \<and> t \<notin> waiting k e" if "lists_ok k" "is_ready k t"
proof -
  have "t \<notin> blocked k" "pending k \<subseteq> blocked k" "waiting k e \<subseteq> blocked k" using that by (auto simp: lists_ok_def)
  then show ?thesis by blast
qed

lemma suspended_state:
  assumes "kernel_inv idle k" "uxSchedulerSuspended k = 0"
  defines "s \<equiv> vTaskSuspendAll k"
  shows "lists_ok s" "times_ok s" "is_ready s = is_ready k" "pxCurrentTCB s = pxCurrentTCB k" "uxSchedulerSuspended s = 1"
    "xPendedTicks s = 0" "pending s = {}" "uxPriority s = uxPriority k" "remaining s = remaining k" "waiting s = waiting k"
    "blocked s = blocked k" "is_ready k (pxCurrentTCB k)" "pending k = {}" "xPendedTicks k = 0"
  using assms inv_parts[OF assms(1)] by (simp_all add: vTaskSuspendAll_def kernel_inv_def settled_def running_highest_def)

lemma blocks_sleeping:
  assumes b: "blocks n indef s k'" and t: "t \<noteq> pxCurrentTCB s" "times_ok s"
  shows "advances 0 s k' t"
  by (rule advances_same[OF t(2)]) (use b t(1) in \<open>simp_all add: blocks_def pending_def waiting_def\<close>)

lemma good_delay:
  assumes i: "kernel_inv idle k" and ok: "event_ok idle (Delay n) k"
  shows "good_step idle (Delay n) k (kernel_step (Delay n) k)"
    "n \<noteq> 0 \<Longrightarrow> remaining (kernel_step (Delay n) k) (pxCurrentTCB k) = Some (unat n) \<and> sleeping (kernel_step (Delay n) k) (pxCurrentTCB k) \<and>
       xPendedTicks (kernel_step (Delay n) k) = 0"
proof -
  have u: "uxSchedulerSuspended k = 0" and ni: "pxCurrentTCB k \<noteq> idle" using ok by auto
  note s = suspended_state[OF i u]
  define b where "b = prvAddCurrentTaskToDelayedList n False (vTaskSuspendAll k)"
  have main: "good_step idle (Delay n) k (kernel_step (Delay n) k) \<and>
    remaining (kernel_step (Delay n) k) (pxCurrentTCB k) = Some (unat n) \<and> sleeping (kernel_step (Delay n) k) (pxCurrentTCB k) \<and>
       xPendedTicks (kernel_step (Delay n) k) = 0" if n: "n \<noteq> 0"
  proof -
    have bl: "blocks n False (vTaskSuspendAll k) b"
      unfolding b_def by (rule block_spec[OF s(1,2) _ n]) (simp add: s)
    have kb: "kernel_step (Delay n) k = (let (yielded, k') = xTaskResumeAll b in if yielded then k' else vTaskSwitchContext k')"
      using n by (simp add: vTaskDelay_def b_def word_gt_0)
    have cb: "core_ok idle b" "uxSchedulerSuspended b = 1" "pending b = {}" "xPendedTicks b = 0"
      using bl s ni inv_parts[OF i] by (auto simp: blocks_def core_ok_def pending_def)
    note r = resume_yield[OF cb, folded kb]
    have "advances 0 k (kernel_step (Delay n) k) t" if t: "t \<noteq> pxCurrentTCB k" for t
    proof -
      have "advances 0 (vTaskSuspendAll k) b t" using blocks_sleeping[OF bl _ s(2)] t s(4) by simp
      then have "advances 0 (vTaskSuspendAll k) (kernel_step (Delay n) k) t" using advances_trans[of 0 _ b t 0] r by simp
      then show ?thesis by (simp add: advances_def s)
    qed
    moreover have "sleeping k t \<Longrightarrow> t \<noteq> pxCurrentTCB k" for t using s(12) by (auto simp: sleeping_def)
    ultimately have g: "good_step idle (Delay n) k (kernel_step (Delay n) k)"
      using r bl s by (intro good_0) (auto simp: blocks_def ticks_of_def)
    have "remaining b (pxCurrentTCB k) = Some (unat n)" "\<not> is_ready b (pxCurrentTCB k)" "pxCurrentTCB k \<in> blocked b"
      using bl s(4) by (auto simp: blocks_def)
    moreover have "pxCurrentTCB k \<notin> waiting b e" for e
    proof -
      have "waiting b = waiting k" using bl s(10) by (simp add: blocks_def waiting_def fun_eq_iff)
      then show ?thesis using ready_free[OF _ s(12)] inv_parts[OF i] by simp
    qed
    moreover have "0 < unat n" using n by (simp add: unat_gt_0)
    moreover note conjunct2[OF conjunct2[OF conjunct2[OF conjunct2[OF r[of "pxCurrentTCB k"]]]]]
    ultimately show ?thesis using g cb(3) r remaining_blocked[of "kernel_step (Delay n) k" "pxCurrentTCB k"]
      by (auto simp: advances_def sleeping_def)
  qed
  show "good_step idle (Delay n) k (kernel_step (Delay n) k)"
  proof (cases "n = 0")
    case True
    then show ?thesis using good_yield[OF i, of "Delay n"] by (simp add: vTaskDelay_def ticks_of_def)
  next
    case False
    then show ?thesis using main by simp
  qed
  show "n \<noteq> 0 \<Longrightarrow> remaining (kernel_step (Delay n) k) (pxCurrentTCB k) = Some (unat n) \<and> sleeping (kernel_step (Delay n) k) (pxCurrentTCB k) \<and>
       xPendedTicks (kernel_step (Delay n) k) = 0"
    using main by blast
qed

lemma add_delayed_events:
  "prvAddCurrentTaskToDelayedList n indef (k\<lparr>event_lists := E\<rparr>) = (prvAddCurrentTaskToDelayedList n indef k)\<lparr>event_lists := E\<rparr>"
  by (simp add: prvAddCurrentTaskToDelayedList_def remove_state_def Let_def)

lemma events_field [simp]:
  "delayed (k\<lparr>event_lists := E\<rparr>) = delayed k" "overflow (k\<lparr>event_lists := E\<rparr>) = overflow k"
  "forever (k\<lparr>event_lists := E\<rparr>) = forever k" "pending (k\<lparr>event_lists := E\<rparr>) = pending k"
  "is_ready (k\<lparr>event_lists := E\<rparr>) = is_ready k" "remaining (k\<lparr>event_lists := E\<rparr>) = remaining k"
  "waiting (k\<lparr>event_lists := E\<rparr>) = (\<lambda>e. set (entries (E e)))" "times_ok (k\<lparr>event_lists := E\<rparr>) = times_ok k"
  "ready_ok (k\<lparr>event_lists := E\<rparr>) = ready_ok k" "blocked_ok (k\<lparr>event_lists := E\<rparr>) = blocked_ok k"
  by (simp_all add: fun_eq_iff delayed_def overflow_def forever_def pending_def waiting_def is_ready_def remaining_def times_ok_def
      ready_ok_def blocked_ok_def)

lemma wait_lists:
  assumes l: "lists_ok k" and t: "t \<in> blocked k" "t \<notin> pending k" "\<And>e. t \<notin> waiting k e"
  shows "lists_ok (k\<lparr>event_lists := (event_lists k)(e := kl_insert (event_value k) t (event_lists k e))\<rparr>)"
proof -
  let ?E = "(event_lists k)(e := kl_insert (event_value k) t (event_lists k e))"
  let ?k = "k\<lparr>event_lists := ?E\<rparr>"
  have w: "waiting ?k = (waiting k)(e := insert t (waiting k e))" by (auto simp: fun_eq_iff waiting_def set_kl)
  have kl: "kl_ok (event_lists k x)" for x by (rule lists_ok_kl(5)[OF l])
  have ev: "event_lists_ok k" using l by (simp add: lists_ok_def)
  have "kl_ok (?E x)" for x using kl kl_insert_ok[OF kl, of t e "event_value k"] t(3)[of e] by (simp add: waiting_def)
  moreover have "waiting ?k a \<inter> waiting ?k b = {}" if "a \<noteq> b" for a b
    using ev that t(3) unfolding w event_lists_ok_def by auto
  moreover have "waiting ?k a \<inter> pending k = {}" for a using ev t(2) unfolding w event_lists_ok_def by auto
  moreover have "sorted (map (event_value k) (entries (?E x)))" for x
    using ev kl_insert_sorted[of "event_value k" "event_lists k e" t] by (simp add: event_lists_ok_def)
  ultimately have "event_lists_ok ?k" using ev by (simp add: event_lists_ok_def)
  moreover have "waiting ?k a \<subseteq> blocked k" for a using l t(1) unfolding w lists_ok_def by auto
  ultimately show ?thesis using l unfolding lists_ok_def by simp
qed

lemma good_wait:
  assumes i: "kernel_inv idle k" and ok: "event_ok idle (Wait e n) k"
  shows "good_step idle (Wait e n) k (kernel_step (Wait e n) k)"
proof -
  have u: "uxSchedulerSuspended k = 0" and ni: "pxCurrentTCB k \<noteq> idle" and n: "n \<noteq> 0" using ok by auto
  note s = suspended_state[OF i u]
  let ?s = "vTaskSuspendAll k" and ?t = "pxCurrentTCB k"
  define b0 where "b0 = prvAddCurrentTaskToDelayedList n True ?s"
  define E where "E = (event_lists ?s)(e := kl_insert (event_value ?s) ?t (event_lists ?s e))"
  define b where "b = vTaskPlaceOnEventList e n ?s"
  have bl: "blocks n True ?s b0" unfolding b0_def by (rule block_spec[OF s(1,2) _ n]) (simp add: s)
  have be: "b = b0\<lparr>event_lists := E\<rparr>"
    unfolding b_def b0_def vTaskPlaceOnEventList_def add_delayed_events E_def s(4) ..
  have ev: "event_lists b0 = event_lists ?s" "xPendingReadyList b0 = xPendingReadyList ?s" using bl by (simp_all add: blocks_def)
  have w0: "waiting b0 = waiting k" "pending b0 = {}" using ev s(7,10) by (simp_all add: waiting_def pending_def fun_eq_iff)
  have fr: "?t \<notin> waiting k x" for x using ready_free[OF _ s(12)] inv_parts[OF i] by simp
  have evv: "event_value ?s = event_value b0" using bl by (intro event_value_cong[symmetric]) (simp add: blocks_def)
  have lb: "lists_ok b" unfolding be E_def ev(1)[symmetric] evv
    by (rule wait_lists) (use bl w0 fr s(4) in \<open>auto simp: blocks_def\<close>)
  have cb: "core_ok idle b" "uxSchedulerSuspended b = 1" "pending b = {}" "xPendedTicks b = 0"
    using lb bl s ni inv_parts[OF i] w0 by (auto simp: blocks_def core_ok_def be)
  have kb: "kernel_step (Wait e n) k = (let (yielded, k') = xTaskResumeAll b in if yielded then k' else vTaskSwitchContext k')"
    by (simp add: b_def)
  note r = resume_yield[OF cb, folded kb]
  have "advances 0 k (kernel_step (Wait e n) k) t" if t: "t \<noteq> ?t" for t
  proof -
    have "advances 0 ?s b0 t" using blocks_sleeping[OF bl _ s(2)] t s(4) by simp
    moreover have "t \<notin> waiting b x" if "\<forall>x. t \<notin> waiting k x" for x
    proof -
      have "event_lists ?s = event_lists k" by (simp add: vTaskSuspendAll_def)
      then show ?thesis using that t by (simp add: be E_def set_kl waiting_def)
    qed
    ultimately have "advances 0 ?s b t" using s(10) w0 by (simp add: advances_def be)
    then have "advances 0 ?s (kernel_step (Wait e n) k) t" using advances_trans[of 0 _ b t 0] r by simp
    then show ?thesis by (simp add: advances_def s)
  qed
  moreover have "sleeping k t \<Longrightarrow> t \<noteq> ?t" for t using s(12) by (auto simp: sleeping_def)
  ultimately show ?thesis using r bl s by (intro good_0) (auto simp: blocks_def ticks_of_def be)
qed

lemma remove_event_fields [simp]:
  "pxReadyTasksLists (remove_event t k) = pxReadyTasksLists k" "uxPriority (remove_event t k) = uxPriority k"
  "uxTopReadyPriority (remove_event t k) = uxTopReadyPriority k" "pxCurrentTCB (remove_event t k) = pxCurrentTCB k"
  "pxDelayedTaskList (remove_event t k) = pxDelayedTaskList k" "pxOverflowDelayedTaskList (remove_event t k) = pxOverflowDelayedTaskList k"
  "xSuspendedTaskList (remove_event t k) = xSuspendedTaskList k" "state_value (remove_event t k) = state_value k"
  "xTickCount (remove_event t k) = xTickCount k" "xNextTaskUnblockTime (remove_event t k) = xNextTaskUnblockTime k"
  "xPendedTicks (remove_event t k) = xPendedTicks k" "uxSchedulerSuspended (remove_event t k) = uxSchedulerSuspended k"
  "xYieldPending (remove_event t k) = xYieldPending k"
  by (simp_all add: remove_event_def)

lemma signal_pending:
  assumes l: "lists_ok k" and t: "t \<in> waiting k e"
  defines "k' \<equiv> (remove_event t k)\<lparr>xPendingReadyList := kl_insert_end t (xPendingReadyList (remove_event t k))\<rparr>"
  shows "lists_ok k'" "is_ready k' = is_ready k" "remaining k' = remaining k" "times_ok k' = times_ok k"
    "waiting k' x = waiting k x - {t}" "pending k' = insert t (pending k)"
proof -
  have s: "delayed k' = delayed k" "overflow k' = overflow k" "forever k' = forever k"
    by (simp_all add: k'_def delayed_def overflow_def forever_def)
  show rd: "is_ready k' = is_ready k" and "remaining k' = remaining k" and "times_ok k' = times_ok k"
    by (simp_all add: fun_eq_iff is_ready_def remaining_def times_ok_def s) (simp_all add: k'_def)
  have np: "t \<notin> pending k" using l t by (auto simp: lists_ok_def event_lists_ok_def)
  have pr: "xPendingReadyList k' = kl_insert_end t (xPendingReadyList k)"
    using np lists_ok_kl(4)[OF l] by (simp add: k'_def remove_event_def pending_def kl_remove_none)
  have w: "waiting k' x = waiting k x - {t}" for x
    using lists_ok_kl(5)[OF l] by (simp add: k'_def waiting_def remove_event_def kl_remove_set)
  then show "waiting k' x = waiting k x - {t}" .
  show p: "pending k' = insert t (pending k)" by (simp add: pending_def pr set_kl)
  have "ready_ok k'" "blocked_ok k'" using l
    by (simp_all add: lists_ok_def ready_ok_def blocked_ok_def s) (simp_all add: k'_def)
  moreover have "event_lists_ok k'"
  proof -
    have "kl_ok (xPendingReadyList k')" unfolding pr
      using np lists_ok_kl(4)[OF l] by (intro kl_insert_end_turn(1)) (simp_all add: pending_def)
    moreover have "kl_ok (event_lists k' x)" for x using kl_remove_ok[OF lists_ok_kl(5)[OF l]] by (simp add: k'_def remove_event_def)
    moreover have "waiting k' a \<inter> waiting k' b = {}" if "a \<noteq> b" for a b
    proof -
      have "waiting k a \<inter> waiting k b = {}" using l that by (simp add: lists_ok_def event_lists_ok_def)
      then show ?thesis unfolding w by blast
    qed
    moreover have "waiting k' a \<inter> pending k' = {}" for a
    proof -
      have "waiting k a \<inter> pending k = {}" using l by (simp add: lists_ok_def event_lists_ok_def)
      then show ?thesis unfolding w p by blast
    qed
    moreover have "sorted (map (event_value k') (entries (event_lists k' x)))" for x
    proof -
      have "event_value k' = event_value k" by (rule event_value_cong) (simp add: k'_def)
      moreover have "event_lists k' x = kl_remove t (event_lists k x)" by (simp add: k'_def remove_event_def)
      moreover have "sorted (map (event_value k) (entries (event_lists k x)))" using l by (simp add: lists_ok_def event_lists_ok_def)
      ultimately show ?thesis using kl_remove_sorted by metis
    qed
    ultimately show ?thesis by (simp add: event_lists_ok_def)
  qed
  ultimately show "lists_ok k'" using l t unfolding lists_ok_def s rd w p by auto
qed

lemma good_signal:
  assumes i: "kernel_inv idle k"
  shows "good_step idle (Signal e) k (kernel_step (Signal e) k)"
proof (cases "entries (event_lists k e) = []")
  case True
  then show ?thesis using i inv_parts[OF i] by (intro good_0) (simp_all add: ticks_of_def advances_0)
next
  case False
  define t where "t = hd (entries (event_lists k e))"
  have t: "t \<in> waiting k e" using False by (simp add: t_def waiting_def)
  have c: "lists_ok k" "times_ok k" "is_ready k idle" "running_highest k" using inv_parts[OF i] by auto
  have tb: "t \<in> blocked k" using c(1) t by (auto simp: lists_ok_def)
  have sl: "sleeping k u \<Longrightarrow> u \<noteq> t" for u using t by (auto simp: sleeping_def)
  define k1 where "k1 = (if uxSchedulerSuspended k = 0 then make_ready t k
     else (remove_event t k)\<lparr>xPendingReadyList := kl_insert_end t (xPendingReadyList (remove_event t k))\<rparr>)"
  have f: "uxPriority k1 = uxPriority k" "pxCurrentTCB k1 = pxCurrentTCB k" "xPendedTicks k1 = xPendedTicks k"
    "uxSchedulerSuspended k1 = uxSchedulerSuspended k" by (simp_all add: k1_def)
  have st: "kernel_step (Signal e) k = (if uxPriority k t > uxPriority k (pxCurrentTCB k)
     then vTaskSwitchContext (k1\<lparr>xYieldPending := True\<rparr>) else k1)"
  proof -
    have "xTaskRemoveFromEventList e k = (if uxPriority k1 t > uxPriority k1 (pxCurrentTCB k1)
       then (True, k1\<lparr>xYieldPending := True\<rparr>) else (False, k1))"
      unfolding xTaskRemoveFromEventList_def Let_def t_def[symmetric] k1_def[symmetric] ..
    then show ?thesis using False f by simp
  qed
  have k1: "core_ok idle k1 \<and> (uxSchedulerSuspended k = 0 \<longrightarrow> settled k1 \<and> (\<forall>u. is_ready k1 u \<longleftrightarrow> is_ready k u \<or> u = t)) \<and>
    (uxSchedulerSuspended k \<noteq> 0 \<longrightarrow> is_ready k1 = is_ready k) \<and> (\<forall>u. u \<noteq> t \<longrightarrow> advances 0 k k1 u)"
  proof (cases "uxSchedulerSuspended k = 0")
    case True
    have k: "k1 = make_ready t k" using True by (simp add: k1_def)
    note m = make_ready_lists[OF c(1) tb] and s = make_ready_sets[OF c(1), of t]
    have "times_ok k1" using c(2) by (auto simp: times_ok_def k s)
    moreover have "settled k1" using i True by (simp add: kernel_inv_def settled_def k s)
    moreover have "advances 0 k k1 u" if "u \<noteq> t" for u
      by (rule advances_same[OF c(2)]) (use that m(2) in \<open>auto simp: k s remaining_def\<close>)
    ultimately show ?thesis using True m c(3) by (simp add: core_ok_def k)
  next
    case False
    note m = signal_pending[OF c(1) t]
    have k: "k1 = (remove_event t k)\<lparr>xPendingReadyList := kl_insert_end t (xPendingReadyList (remove_event t k))\<rparr>"
      using False by (simp add: k1_def)
    have "advances 0 k k1 u" if "u \<noteq> t" for u
      by (rule advances_same[OF c(2)]) (use that m in \<open>auto simp: k\<close>)
    then show ?thesis using False m c by (simp add: core_ok_def k)
  qed
  show ?thesis
  proof (cases "uxPriority k t > uxPriority k (pxCurrentTCB k)")
    case True
    let ?k = "k1\<lparr>xYieldPending := True\<rparr>"
    have "core_ok idle ?k" using k1 by simp
    note s = switch_spec[OF this]
    have "kernel_inv idle (vTaskSwitchContext ?k)"
    proof (cases "uxSchedulerSuspended k = 0")
      case True
      then show ?thesis using s k1 f by (simp add: kernel_inv_def settled_def switch_frame_def)
    next
      case False
      then have "is_ready (vTaskSwitchContext ?k) = is_ready k" using s k1 by (simp add: switch_frame_def)
      then show ?thesis using s False f c(4) k1 by (simp add: kernel_inv_def running_highest_def)
    qed
    moreover have "advances 0 k (vTaskSwitchContext ?k) u" if "u \<noteq> t" for u
    proof -
      have "advances 0 k ?k u" using k1 that by simp
      then show ?thesis using advances_trans[of 0 k ?k u 0] s by simp
    qed
    ultimately show ?thesis using s f sl unfolding st by (intro good_0) (auto simp: True switch_frame_def ticks_of_def)
  next
    case False
    have "kernel_inv idle k1"
    proof (cases "uxSchedulerSuspended k = 0")
      case True
      then show ?thesis using k1 False c(4) f by (auto simp: kernel_inv_def running_highest_def)
    next
      case False
      then show ?thesis using k1 c(4) f by (simp add: kernel_inv_def running_highest_def)
    qed
    then show ?thesis unfolding st using False f k1 sl by (intro good_0) (auto simp: ticks_of_def)
  qed
qed

lemma make_ready_new:
  assumes l: "lists_ok k" and n: "\<not> is_ready k t" "t \<notin> blocked k"
  shows "make_ready t k = prvAddTaskToReadyList t k"
proof -
  have ro: "ready_ok k" using l by (simp add: lists_ok_def)
  have "kl_remove t (pxReadyTasksLists k p) = pxReadyTasksLists k p" for p
    using ro n(1) ready_priority[OF ro] by (intro kl_remove_none) (auto simp: ready_ok_def)
  moreover have "t \<notin> waiting k e" "t \<notin> pending k" for e using l n(2) by (auto simp: lists_ok_def)
  ultimately have "remove_state t (remove_event t k) = k"
    using n(2) lists_ok_kl[OF l]
    by (simp add: remove_state_def remove_event_def kl_remove_none delayed_def overflow_def forever_def waiting_def pending_def)
  then show ?thesis by (simp add: make_ready_def)
qed

lemma new_task_lists:
  assumes l: "lists_ok k" and n: "\<not> is_ready k t" "t \<notin> blocked k"
  shows "lists_ok (prvAddTaskToReadyList t k)" "is_ready (prvAddTaskToReadyList t k) u \<longleftrightarrow> is_ready k u \<or> u = t"
proof -
  let ?k = "prvAddTaskToReadyList t k"
  have nr: "ready_ok k" using l by (simp add: lists_ok_def)
  note r = make_ready_ok[OF nr n(1), unfolded make_ready_new[OF assms]]
  show "is_ready ?k u \<longleftrightarrow> is_ready k u \<or> u = t" by (rule r(2))
  have s: "delayed ?k = delayed k" "overflow ?k = overflow k" "forever ?k = forever k" "pending ?k = pending k" "waiting ?k = waiting k"
    by (simp_all add: prvAddTaskToReadyList_def delayed_def overflow_def forever_def pending_def waiting_def fun_eq_iff)
  have "blocked_ok ?k" "event_lists_ok ?k" using l unfolding lists_ok_def blocked_ok_def event_lists_ok_def s
    by (simp_all add: prvAddTaskToReadyList_def)
  moreover have "\<forall>u \<in> blocked k. \<not> is_ready ?k u" using l r(2) n(2) by (auto simp: lists_ok_def)
  ultimately show "lists_ok ?k" using l r(1) unfolding lists_ok_def s by blast
qed

lemma new_task_fields [simp]:
  "uxPriority (prvAddTaskToReadyList t k) = uxPriority k" "pxCurrentTCB (prvAddTaskToReadyList t k) = pxCurrentTCB k"
  "xPendedTicks (prvAddTaskToReadyList t k) = xPendedTicks k" "xTickCount (prvAddTaskToReadyList t k) = xTickCount k"
  "uxSchedulerSuspended (prvAddTaskToReadyList t k) = uxSchedulerSuspended k" "times_ok (prvAddTaskToReadyList t k) = times_ok k"
  "remaining (prvAddTaskToReadyList t k) = remaining k" "pending (prvAddTaskToReadyList t k) = pending k"
  "waiting (prvAddTaskToReadyList t k) = waiting k" "xYieldPending (prvAddTaskToReadyList t k) = xYieldPending k"
  by (simp_all add: prvAddTaskToReadyList_def times_ok_def remaining_def delayed_def overflow_def pending_def waiting_def fun_eq_iff)

lemma good_create:
  assumes i: "kernel_inv idle k" and ok: "event_ok idle (Create t) k"
  shows "good_step idle (Create t) k (kernel_step (Create t) k)"
proof -
  have n: "\<not> is_ready k t" "t \<notin> blocked k" and u: "uxSchedulerSuspended k = 0" using ok by auto
  have c: "lists_ok k" "times_ok k" "is_ready k idle" "running_highest k" using inv_parts[OF i] by auto
  define k1 where "k1 = prvAddTaskToReadyList t k"
  note l = new_task_lists[OF c(1) n, folded k1_def]
  have f: "uxPriority k1 = uxPriority k" "pxCurrentTCB k1 = pxCurrentTCB k" "xPendedTicks k1 = xPendedTicks k"
    "uxSchedulerSuspended k1 = 0" "times_ok k1" "settled k1" "remaining k1 = remaining k" "pending k1 = pending k" "waiting k1 = waiting k"
    using u c(2) i by (simp_all add: k1_def kernel_inv_def settled_def)
  have st: "kernel_step (Create t) k = (if uxPriority k (pxCurrentTCB k) < uxPriority k t then vTaskSwitchContext k1 else k1)"
    by (simp add: prvAddNewTaskToReadyList_def Let_def k1_def)
  have co: "core_ok idle k1" using l c(3) f by (simp add: core_ok_def)
  have nt: "remaining k t = None" using n(2) by (simp add: remaining_def)
  have a: "advances 0 k k1 v" if "v \<noteq> t" for v by (rule advances_same[OF c(2)]) (use that l(2) f in auto)
  have at: "advances 0 k (vTaskSwitchContext k1) v" if "v \<noteq> t" for v
    using advances_trans[OF a[OF that], of 0 "vTaskSwitchContext k1"] switch_spec[OF co, of v] by simp
  have sl: "sleeping k v \<Longrightarrow> v \<noteq> t" for v using n(2) by (auto simp: sleeping_def)
  show ?thesis
  proof (cases "uxPriority k (pxCurrentTCB k) < uxPriority k t")
    case True
    note s = switch_spec[OF co]
    have "kernel_inv idle (vTaskSwitchContext k1)" using s f by (simp add: kernel_inv_def settled_def switch_frame_def)
    then show ?thesis unfolding st using True s f sl at by (intro good_0) (auto simp: switch_frame_def ticks_of_def)
  next
    case False
    then have "kernel_inv idle k1" using co f l(2) c(4) by (auto simp: kernel_inv_def running_highest_def)
    then show ?thesis unfolding st using False f sl a by (intro good_0) (auto simp: ticks_of_def)
  qed
qed

lemma good_kernel_step: "good_step idle e k (kernel_step e k)" if i: "kernel_inv idle k" and ok: "event_ok idle e k"
proof (cases e)
  case Tick
  show ?thesis using good_tick[OF i] ok unfolding Tick by blast
next
  case (Delay n)
  show ?thesis using good_delay(1)[OF i] ok unfolding Delay by blast
next
  case (Wait x n)
  show ?thesis using good_wait[OF i] ok unfolding Wait by blast
next
  case (Signal x)
  show ?thesis unfolding Signal by (rule good_signal[OF i])
next
  case Suspend
  show ?thesis using good_suspend[OF i] ok unfolding Suspend by blast
next
  case Resume
  show ?thesis using good_resume[OF i] ok unfolding Resume by blast
next
  case Yield
  show ?thesis using good_yield[OF i, of Yield] unfolding Yield by (simp add: ticks_of_def)
next
  case (Create t)
  show ?thesis using good_create[OF i] ok unfolding Create by blast
qed

end
