(* ===== verification/Kernel_Run.thy ===== *)
theory Kernel_Run
  imports Kernel_Sched
begin

text \<open>
  The scheduler of \<open>Kernel_Sched\<close> from its start on: every reachable state keeps the invariant, a
  delayed task wakes with the tick it asked for, tasks of equal priority take turns, and the
  time-outs of blocking calls are right across an overflow of the tick count.
\<close>

section \<open>Runs\<close>

definition booted :: "(nat \<Rightarrow> nat) \<Rightarrow> nat set \<Rightarrow> kernel \<Rightarrow> bool" where
  "booted prio T k \<longleftrightarrow> lists_ok k \<and> blocked k = {} \<and> settled k \<and> uxSchedulerSuspended k = 0 \<and> uxPriority k = prio \<and>
     running_highest k \<and> (\<forall>u. is_ready k u \<longleftrightarrow> u \<in> T)"

lemma blocked_new [simp]: "blocked (prvAddTaskToReadyList t k) = blocked k"
  by (simp add: prvAddTaskToReadyList_def delayed_def overflow_def forever_def)

lemma booted_first:
  assumes "\<forall>t. prio t < configMAX_PRIORITIES"
  shows "booted prio {t} (first_task prio t)"
proof -
  define z where "z = \<lparr>uxPriority = prio, pxCurrentTCB = t, pxReadyTasksLists = \<lambda>p. kl_empty, uxTopReadyPriority = 0,
      pxDelayedTaskList = kl_empty, pxOverflowDelayedTaskList = kl_empty, xSuspendedTaskList = kl_empty,
      xPendingReadyList = kl_empty, event_lists = \<lambda>e. kl_empty, state_value = \<lambda>t. 0, xTickCount = 0,
      xNextTaskUnblockTime = 0, xNumOfOverflows = 0, xPendedTicks = 0, uxSchedulerSuspended = 0, xYieldPending = False\<rparr>"
  have k: "first_task prio t = prvAddTaskToReadyList t z" by (simp add: first_task_def z_def)
  have s: "delayed z = {}" "overflow z = {}" "forever z = {}" "pending z = {}" "\<And>e. waiting z e = {}" "\<And>u. \<not> is_ready z u"
    by (simp_all add: z_def delayed_def overflow_def forever_def pending_def waiting_def is_ready_def kl_empty_def)
  have "lists_ok z" using assms unfolding lists_ok_def ready_ok_def blocked_ok_def event_lists_ok_def s
    by (auto simp: z_def kl_empty_def kl_ok_def s(6)[unfolded z_def kl_empty_def])
  note n = new_task_lists[OF this s(6), of t]
  show ?thesis unfolding k booted_def running_highest_def settled_def using n s by (simp add: z_def)
qed

lemma booted_new:
  assumes b: "booted prio T k" and t: "t \<notin> T"
  shows "booted prio (insert t T) (prvAddNewTaskToReadyList False t k)"
proof -
  define k1 where "k1 = (if uxPriority k (pxCurrentTCB k) \<le> uxPriority k t then k\<lparr>pxCurrentTCB := t\<rparr> else k)"
  have r: "is_ready k1 = is_ready k" by (simp add: k1_def is_ready_def fun_eq_iff)
  have f: "delayed k1 = delayed k" "overflow k1 = overflow k" "forever k1 = forever k" "pending k1 = pending k" "waiting k1 = waiting k"
    "uxPriority k1 = prio" "xPendedTicks k1 = xPendedTicks k" "uxSchedulerSuspended k1 = uxSchedulerSuspended k"
    "pxCurrentTCB k1 = (if prio (pxCurrentTCB k) \<le> prio t then t else pxCurrentTCB k)"
    using b by (simp_all add: k1_def booted_def delayed_def overflow_def forever_def pending_def waiting_def fun_eq_iff)
  have "lists_ok k1" using b by (simp add: k1_def booted_def)
  then have n: "lists_ok (prvAddTaskToReadyList t k1)" "\<And>u. is_ready (prvAddTaskToReadyList t k1) u \<longleftrightarrow> is_ready k u \<or> u = t"
    using new_task_lists[of k1 t] b t f r by (auto simp: booted_def)
  have e: "prvAddNewTaskToReadyList False t k = prvAddTaskToReadyList t k1"
    by (simp add: prvAddNewTaskToReadyList_def k1_def Let_def)
  have "running_highest (prvAddTaskToReadyList t k1)"
    using b n(2) f by (auto simp: running_highest_def booted_def)
  then show ?thesis unfolding e using b n f by (auto simp: booted_def settled_def)
qed

lemma boot_inv:
  assumes "\<forall>t. prio t < configMAX_PRIORITIES" "distinct (t # ts)" "idle \<in> set (t # ts)"
  shows "kernel_inv idle (vTaskStartScheduler prio t ts)"
proof -
  have "booted prio (T \<union> set ts) (fold (prvAddNewTaskToReadyList False) ts k)" if "booted prio T k" "distinct ts" "T \<inter> set ts = {}" for T k
    using that
  proof (induction ts arbitrary: T k)
    case (Cons u us)
    have "booted prio (insert u T \<union> set us) (fold (prvAddNewTaskToReadyList False) us (prvAddNewTaskToReadyList False u k))"
      using Cons.prems by (intro Cons.IH booted_new) auto
    then show ?case by simp
  qed simp
  then have b: "booted prio (set (t # ts)) (fold (prvAddNewTaskToReadyList False) ts (first_task prio t))"
    using booted_first[OF assms(1), of t] assms(2) by fastforce
  moreover define f where "f = fold (prvAddNewTaskToReadyList False) ts (first_task prio t)"
  ultimately have "booted prio (set (t # ts)) f" "is_ready f idle" using assms(3) unfolding booted_def by blast+
  then have "lists_ok f" "is_ready f idle" "delayed f = {}" "overflow f = {}" "settled f" "running_highest f"
    by (auto simp: booted_def)
  then show ?thesis using \<open>is_ready f idle\<close>
    by (simp add: f_def[symmetric] vTaskStartScheduler_def kernel_inv_def core_ok_def booted_def times_ok_def running_highest_def settled_def)
qed

definition kernel_run :: "kernel_event list \<Rightarrow> kernel \<Rightarrow> kernel" where
  "kernel_run es k = fold kernel_step es k"

primrec run_ok_events :: "nat \<Rightarrow> kernel_event list \<Rightarrow> kernel \<Rightarrow> bool" where
  "run_ok_events idle [] k \<longleftrightarrow> True"
| "run_ok_events idle (e # es) k \<longleftrightarrow> event_ok idle e k \<and> run_ok_events idle es (kernel_step e k)"

lemma kernel_run_simps [simp]:
  "kernel_run [] k = k" "kernel_run (e # es) k = kernel_run es (kernel_step e k)"
  "kernel_run (es @ fs) k = kernel_run fs (kernel_run es k)"
  by (simp_all add: kernel_run_def)

lemma run_ok_append: "run_ok_events idle (es @ fs) k \<longleftrightarrow> run_ok_events idle es k \<and> run_ok_events idle fs (kernel_run es k)"
  by (induction es arbitrary: k) auto

lemma run_inv: "kernel_inv idle k \<Longrightarrow> run_ok_events idle es k \<Longrightarrow> kernel_inv idle (kernel_run es k)"
proof (induction es arbitrary: k)
  case (Cons e es)
  then show ?case using good_kernel_step[of idle k e] by (simp add: good_step_def)
qed simp

definition ticks :: "kernel_event list \<Rightarrow> nat" where
  "ticks es = length (filter (\<lambda>e. e = Tick) es)"

text \<open>The task is not ready before any of the events nor after them.\<close>

primrec asleep :: "nat \<Rightarrow> kernel_event list \<Rightarrow> kernel \<Rightarrow> bool" where
  "asleep t [] k \<longleftrightarrow> \<not> is_ready k t"
| "asleep t (e # es) k \<longleftrightarrow> \<not> is_ready k t \<and> asleep t es (kernel_step e k)"

lemma asleep_end: "asleep t es k \<Longrightarrow> \<not> is_ready (kernel_run es k) t"
  by (induction es arbitrary: k) auto

lemma sleep_step:
  assumes i: "kernel_inv idle k" and ok: "event_ok idle e k" and s: "sleeping k t" and r: "remaining k t = Some r"
  shows "\<exists>p. unat (xPendedTicks (kernel_step e k)) + p = unat (xPendedTicks k) + ticks_of e \<and>
    (if r \<le> p then is_ready (kernel_step e k) t
     else sleeping (kernel_step e k) t \<and> remaining (kernel_step e k) t = Some (r - p))"
proof -
  obtain p where a: "advances p k (kernel_step e k) t"
    and p: "unat (xPendedTicks (kernel_step e k)) + p = unat (xPendedTicks k) + ticks_of e"
    using good_kernel_step[OF i ok] s by (auto simp: good_step_def)
  have "if r \<le> p then is_ready (kernel_step e k) t
     else sleeping (kernel_step e k) t \<and> remaining (kernel_step e k) t = Some (r - p)"
  proof (cases "r \<le> p")
    case True
    then show ?thesis using a r by (auto simp: advances_def)
  next
    case False
    then have q: "remaining (kernel_step e k) t = Some (r - p)" using a r by (simp add: advances_def)
    show ?thesis using False a r s remaining_blocked[OF q] q by (auto simp: advances_def sleeping_def)
  qed
  then show ?thesis using p by blast
qed

lemma sleep_run:
  "kernel_inv idle k \<Longrightarrow> run_ok_events idle es k \<Longrightarrow> sleeping k t \<Longrightarrow> remaining k t = Some r \<Longrightarrow> asleep t es k \<Longrightarrow>
   \<exists>r'. sleeping (kernel_run es k) t \<and> remaining (kernel_run es k) t = Some r' \<and>
     r' + ticks es + unat (xPendedTicks k) = r + unat (xPendedTicks (kernel_run es k))"
proof (induction es arbitrary: k r)
  case Nil
  then show ?case by (simp add: ticks_def)
next
  case (Cons e es)
  let ?k = "kernel_step e k"
  obtain p where p: "unat (xPendedTicks ?k) + p = unat (xPendedTicks k) + ticks_of e"
    and q: "if r \<le> p then is_ready ?k t else sleeping ?k t \<and> remaining ?k t = Some (r - p)"
    using sleep_step[of idle k e t r] Cons.prems by auto
  have "\<not> is_ready ?k t" using Cons.prems(5) by (cases es) auto
  then have n: "\<not> r \<le> p" "sleeping ?k t" "remaining ?k t = Some (r - p)" using q by (auto split: if_splits)
  have ik: "kernel_inv idle ?k" using good_kernel_step[of idle k e] Cons.prems by (simp add: good_step_def)
  obtain r' where r': "sleeping (kernel_run es ?k) t" "remaining (kernel_run es ?k) t = Some r'"
    "r' + ticks es + unat (xPendedTicks ?k) = r - p + unat (xPendedTicks (kernel_run es ?k))"
    using Cons.IH[OF ik _ n(2,3)] Cons.prems by auto
  have "ticks (e # es) = ticks_of e + ticks es" by (simp add: ticks_def ticks_of_def)
  then have "r' + ticks (e # es) + unat (xPendedTicks k) = r + unat (xPendedTicks (kernel_run (e # es) k))"
    using r'(3) p n(1) by simp
  then show ?case using r' by auto
qed

lemma delay_exact_fact:
  assumes i: "kernel_inv idle k" and d: "event_ok idle (Delay n) k" and n: "n \<noteq> 0"
    and ok: "run_ok_events idle (es @ [e]) (kernel_step (Delay n) k)"
    and sl: "asleep (pxCurrentTCB k) es (kernel_step (Delay n) k)"
    and u: "uxSchedulerSuspended (kernel_run (es @ [e]) (kernel_step (Delay n) k)) = 0"
  shows "is_ready (kernel_run (es @ [e]) (kernel_step (Delay n) k)) (pxCurrentTCB k) \<longleftrightarrow> unat n \<le> ticks (es @ [e])"
proof -
  let ?t = "pxCurrentTCB k" and ?k0 = "kernel_step (Delay n) k"
  let ?k1 = "kernel_run es ?k0"
  have s0: "remaining ?k0 ?t = Some (unat n)" "sleeping ?k0 ?t" using good_delay(2)[OF i d n] by auto
  have z: "unat (xPendedTicks ?k0) = 0" using good_delay(2)[OF i d n] by simp
  have i0: "kernel_inv idle ?k0" using good_delay(1)[OF i d] by (simp add: good_step_def)
  have o: "run_ok_events idle es ?k0" "event_ok idle e ?k1" using ok by (auto simp: run_ok_append)
  obtain r' where r': "sleeping ?k1 ?t" "remaining ?k1 ?t = Some r'" "r' + ticks es = unat n + unat (xPendedTicks ?k1)"
    using sleep_run[OF i0 o(1) s0(2,1) sl] z by auto
  have i1: "kernel_inv idle ?k1" by (rule run_inv[OF i0 o(1)])
  obtain p where p: "unat (xPendedTicks (kernel_step e ?k1)) + p = unat (xPendedTicks ?k1) + ticks_of e"
    and q: "if r' \<le> p then is_ready (kernel_step e ?k1) ?t else sleeping (kernel_step e ?k1) ?t"
    using sleep_step[OF i1 o(2) r'(1,2)] by (metis (full_types))
  have "kernel_inv idle (kernel_step e ?k1)" using good_kernel_step[OF i1 o(2)] by (simp add: good_step_def)
  then have "unat (xPendedTicks (kernel_step e ?k1)) = 0" using u by (simp add: kernel_inv_def settled_def)
  then have "r' \<le> p \<longleftrightarrow> unat n \<le> ticks es + ticks_of e" using p r'(3) by linarith
  moreover have "ticks (es @ [e]) = ticks es + ticks_of e" by (simp add: ticks_def ticks_of_def)
  ultimately show ?thesis using q by (auto simp: sleeping_def split: if_splits)
qed

section \<open>Turns of equal tasks\<close>

lemma select_list:
  assumes l: "lists_ok k" and h: "running_highest k"
  defines "p \<equiv> uxPriority k (pxCurrentTCB k)"
  shows "taskSELECT_HIGHEST_PRIORITY_TASK k = k\<lparr>pxReadyTasksLists := (pxReadyTasksLists k)(p := kl_next (pxReadyTasksLists k p)),
     pxCurrentTCB := (case cursor (kl_next (pxReadyTasksLists k p)) of Some t \<Rightarrow> t | None \<Rightarrow> pxCurrentTCB k)\<rparr>"
proof -
  have ro: "ready_ok k" using l by (simp add: lists_ok_def)
  have r: "is_ready k (pxCurrentTCB k)" using h by (simp add: running_highest_def)
  let ?q = "portGET_HIGHEST_PRIORITY (uxTopReadyPriority k)"
  note pb = ready_bit[OF ro r, folded p_def]
  have q: "?q < configMAX_PRIORITIES" "bit (uxTopReadyPriority k) ?q" "p \<le> ?q" using highest_priority[OF pb(2,1)] by auto
  then have "entries (pxReadyTasksLists k ?q) \<noteq> []" using ro by (simp add: ready_ok_def)
  then have "hd (entries (pxReadyTasksLists k ?q)) \<in> set (entries (pxReadyTasksLists k ?q))" by (rule hd_in_set)
  then have "?q \<le> p" using ready_priority[OF ro] h by (fastforce simp: running_highest_def p_def)
  then have "?q = p" using q(3) by simp
  then show ?thesis by (simp add: taskSELECT_HIGHEST_PRIORITY_TASK_def Let_def)
qed

lemma yields:
  assumes i: "kernel_inv idle k" and u: "uxSchedulerSuspended k = 0"
  defines "p \<equiv> uxPriority k (pxCurrentTCB k)"
  shows "kernel_inv idle ((vTaskSwitchContext ^^ n) k) \<and> uxSchedulerSuspended ((vTaskSwitchContext ^^ n) k) = 0 \<and>
    uxPriority ((vTaskSwitchContext ^^ n) k) = uxPriority k \<and>
    uxPriority k (pxCurrentTCB ((vTaskSwitchContext ^^ n) k)) = p \<and>
    pxReadyTasksLists ((vTaskSwitchContext ^^ n) k) p = (kl_next ^^ n) (pxReadyTasksLists k p) \<and>
    (0 < n \<longrightarrow> Some (pxCurrentTCB ((vTaskSwitchContext ^^ n) k)) = cursor ((kl_next ^^ n) (pxReadyTasksLists k p)))"
proof (induction n)
  case 0
  then show ?case using i u by (simp add: p_def)
next
  case (Suc n)
  define m where "m = (vTaskSwitchContext ^^ n) k"
  have ih: "kernel_inv idle m" "uxSchedulerSuspended m = 0" "uxPriority m = uxPriority k" "uxPriority k (pxCurrentTCB m) = p"
    "pxReadyTasksLists m p = (kl_next ^^ n) (pxReadyTasksLists k p)"
    using Suc by (simp_all add: m_def)
  let ?m = "m\<lparr>xYieldPending := False\<rparr>" and ?l = "pxReadyTasksLists m p"
  have c: "core_ok idle m" "lists_ok ?m" "running_highest ?m"
    using inv_parts[OF ih(1)] by (simp_all add: running_highest_def)
  have ro: "ready_ok m" "is_ready m (pxCurrentTCB m)" using inv_parts[OF ih(1)] by (auto simp: lists_ok_def running_highest_def)
  have kl: "kl_ok ?l" "kl_turn ?l \<noteq> []"
    using ro ih(3,4) kl_turn_entries[of ?l] by (auto simp: ready_ok_def is_ready_def)
  have cu: "cursor (kl_next ?l) = Some (hd (kl_turn ?l))" "hd (kl_turn ?l) \<in> set (entries ?l)"
    using kl_next_turn[OF kl] kl_turn_entries[OF kl(1)] hd_in_set[OF kl(2)] by auto
  have sl: "vTaskSwitchContext m = ?m\<lparr>pxReadyTasksLists := (pxReadyTasksLists m)(p := kl_next ?l), pxCurrentTCB := hd (kl_turn ?l)\<rparr>"
    using select_list[OF c(2,3)] ih(2,3,4) cu(1) by (simp add: vTaskSwitchContext_def)
  have "uxPriority k (hd (kl_turn ?l)) = p" using ready_priority[OF ro(1) cu(2)] ih(3) by simp
  moreover have "kernel_inv idle (vTaskSwitchContext m)"
    using good_yield[OF ih(1), of Yield] by (simp add: good_step_def ticks_of_def)
  ultimately show ?case using ih sl cu(1) by (simp add: m_def[symmetric])
qed

section \<open>The clock\<close>

text \<open>The tick count with the overflows counted.\<close>

definition clock :: "kernel \<Rightarrow> nat" where
  "clock k = unat (xNumOfOverflows k) * 2 ^ 32 + unat (xTickCount k)"

lemma wake_frame_clock: "wake_frame k k' \<Longrightarrow> clock k' = clock k"
  by (simp add: wake_frame_def clock_def)

lemma tick_clock:
  assumes l: "lists_ok k" and u: "uxSchedulerSuspended k = 0"
  shows "clock (snd (xTaskIncrementTick k)) = (clock k + 1) mod 2 ^ 64"
proof -
  let ?k1 = "k\<lparr>xTickCount := xTickCount k + 1\<rparr>"
  define k2 where "k2 = (if xTickCount ?k1 = 0 then taskSWITCH_DELAYED_LISTS ?k1 else ?k1)"
  define r where "r = (if xTickCount k2 \<ge> xNextTaskUnblockTime k2 then wake_tasks k2 else (False, k2))"
  have e: "snd (xTaskIncrementTick k) = snd r"
    using u unfolding xTaskIncrementTick_def Let_def r_def k2_def by (simp split: prod.split)
  have "lists_ok k2" using l by (simp add: k2_def switch_lists_ok)
  then have "wake_frame k2 (snd r)"
    using wake_tasks_spec[of k2] by (auto simp: r_def woken_def wake_frame_refl split: prod.splits)
  then have c: "clock (snd r) = clock k2" by (rule wake_frame_clock)
  show ?thesis
  proof (cases "xTickCount k + 1 = 0")
    case False
    have b: "unat (xNumOfOverflows k) < 4294967296" "unat (xTickCount k + 1) < 4294967296" by (rule u32_bound)+
    have n: "unat (xTickCount k + 1) = unat (xTickCount k) + 1" using False by (rule next_tick)
    have "clock k2 = clock k + 1" using False n by (simp add: k2_def clock_def)
    moreover have "clock k + 1 < 2 ^ 64" using b n by (simp add: clock_def)
    ultimately show ?thesis using e c by simp
  next
    case True
    have t: "unat (xTickCount k) = 4294967295"
    proof -
      have "xTickCount k = - 1" using True by (rule eq_neg_iff_add_eq_0[THEN iffD2])
      then show ?thesis by (simp add: unsigned_minus_1_eq_mask mask_eq_exp_minus_1)
    qed
    have "clock k2 = unat (xNumOfOverflows k + 1) * 4294967296"
      using True by (simp add: k2_def clock_def taskSWITCH_DELAYED_LISTS_def prvResetNextTaskUnblockTime_def)
    also have "\<dots> = (clock k + 1) mod 2 ^ 64"
    proof (cases "xNumOfOverflows k + 1 = 0")
      case True
      have "xNumOfOverflows k = - 1" using True by (rule eq_neg_iff_add_eq_0[THEN iffD2])
      then have "unat (xNumOfOverflows k) = 4294967295" by (simp add: unsigned_minus_1_eq_mask mask_eq_exp_minus_1)
      then show ?thesis using True t by (simp add: clock_def)
    next
      case False
      then have o: "unat (xNumOfOverflows k + 1) = unat (xNumOfOverflows k) + 1" by (rule next_tick)
      then show ?thesis using t u32_bound[of "xNumOfOverflows k + 1"] by (simp add: clock_def)
    qed
    finally show ?thesis using e c by simp
  qed
qed

lemma clock_fields:
  "unat (xTickCount k) = clock k mod 4294967296" "unat (xNumOfOverflows k) = clock k div 4294967296"
  using u32_bound[of "xTickCount k"] by (simp_all add: clock_def)

lemma timeout_fact:
  assumes d: "clock k' = (clock k + d) mod 2 ^ 64" and s: "unat (xTickCount k) + d < 2 ^ 33" and n: "n \<noteq> portMAX_DELAY"
  shows "xTaskCheckForTimeOut k' (vTaskInternalSetTimeOutState k) n =
    (if unat n \<le> d then (True, vTaskInternalSetTimeOutState k, 0) else (False, vTaskInternalSetTimeOutState k', n - of_nat d))"
proof -
  let ?t = "unat (xTickCount k)" and ?o = "unat (xNumOfOverflows k)"
  have b: "?t < 4294967296" "?o < 4294967296" "unat n < 4294967296" by (rule u32_bound)+
  have cl: "clock k = ?o * 4294967296 + ?t" by (simp add: clock_def)
  let ?s = "?t + d"
  have c': "clock k' = (?o * 4294967296 + ?s) mod 18446744073709551616" using d by (simp add: cl add.assoc)
  have t': "unat (xTickCount k') = ?s mod 4294967296"
    unfolding clock_fields(1)[of k'] c' by (simp add: mod_mod_cancel)
  have el: "unat (xTickCount k' - xTickCount k) = d" if "d < 4294967296"
  proof -
    have "xTickCount k' = xTickCount k + of_nat d"
    proof (rule word_unat_eq_iff[THEN iffD2])
      show "unat (xTickCount k') = unat (xTickCount k + of_nat d)"
        unfolding t' by (simp add: unat_word_ariths unat_of_nat mod_add_right_eq)
    qed
    then show ?thesis using that by (simp add: unat_of_nat)
  qed
  show ?thesis
  proof (cases "?s < 4294967296")
    case True
    have "?o * 4294967296 + ?s < 18446744073709551616" using b True by simp
    then have "unat (xNumOfOverflows k') = ?o" unfolding clock_fields(2)[of k'] c' using True by simp
    then have o: "xNumOfOverflows k' = xNumOfOverflows k" by (simp add: word_unat_eq_iff)
    have dl: "unat (xTickCount k' - xTickCount k) = d" using el True by simp
    have "xTickCount k' - xTickCount k = of_nat d" using arg_cong[OF dl, of "of_nat :: nat \<Rightarrow> u32"] by simp
    then show ?thesis using n o dl
      by (auto simp: xTaskCheckForTimeOut_def vTaskInternalSetTimeOutState_def Let_def word_less_nat_alt)
  next
    case False
    have t1: "unat (xTickCount k') = ?s - 4294967296" unfolding t' using False s by (simp add: mod_if)
    have "unat (xNumOfOverflows k') \<noteq> ?o"
    proof (cases "?o + 1 = 4294967296")
      case True
      have "?o * 4294967296 + ?s = 18446744073709551616 + (?s - 4294967296)" using True False by simp
      then have "clock k' = ?s - 4294967296" unfolding c' using s by (simp add: mod_if)
      then have "unat (xNumOfOverflows k') = 0" unfolding clock_fields(2)[of k'] using s by simp
      then show ?thesis using True by simp
    next
      case o: False
      have "?o * 4294967296 + ?s = (?o + 1) * 4294967296 + (?s - 4294967296)" using False by simp
      moreover have "(?o + 1) * 4294967296 + (?s - 4294967296) < 18446744073709551616" using o b s by simp
      ultimately have "clock k' = (?o + 1) * 4294967296 + (?s - 4294967296)" unfolding c' by simp
      then have "unat (xNumOfOverflows k') = ?o + 1" unfolding clock_fields(2)[of k'] using s by simp
      then show ?thesis by simp
    qed
    then have o: "xNumOfOverflows k' \<noteq> xNumOfOverflows k" by auto
    show ?thesis
    proof (cases "xTickCount k' \<ge> xTickCount k")
      case True
      then have "?t \<le> ?s - 4294967296" using t1 by (simp add: word_le_nat_alt)
      then have "unat n \<le> d" using False b by linarith
      then show ?thesis using True o n by (simp add: xTaskCheckForTimeOut_def vTaskInternalSetTimeOutState_def Let_def)
    next
      case less: False
      then have "?s - 4294967296 < ?t" using t1 by (simp add: word_le_nat_alt)
      then have "d < 4294967296" using False by linarith
      then have dl: "unat (xTickCount k' - xTickCount k) = d" by (rule el)
      have "xTickCount k' - xTickCount k = of_nat d" using arg_cong[OF dl, of "of_nat :: nat \<Rightarrow> u32"] by simp
      then show ?thesis using n o dl less
        by (auto simp: xTaskCheckForTimeOut_def vTaskInternalSetTimeOutState_def Let_def word_less_nat_alt)
    qed
  qed
qed

lemma first_waiter:
  assumes "lists_ok k" "entries (event_lists k e) = t # ts" "u \<in> waiting k e"
  shows "uxPriority k u \<le> uxPriority k t"
proof -
  have "sorted (map (event_value k) (t # ts))" using assms(1,2) by (metis event_lists_ok_def lists_ok_def)
  then have le: "event_value k t \<le> event_value k u" using assms(2,3) by (auto simp: waiting_def)
  have p: "uxPriority k x < 32" for x using assms(1) by (simp add: lists_ok_def ready_ok_def)
  have v: "unat (event_value k x) = 32 - uxPriority k x" for x
  proof -
    have "of_nat (uxPriority k x) \<le> (32 :: u32)" using p[of x] by (simp add: word_le_nat_alt unat_of_nat)
    then have "unat ((32 :: u32) - of_nat (uxPriority k x)) = unat (32 :: u32) - unat (of_nat (uxPriority k x) :: u32)" by (rule unat_sub)
    then show ?thesis using p[of x] by (simp add: event_value_def unat_of_nat)
  qed
  then show ?thesis using le p[of t] p[of u] unfolding word_le_nat_alt v by linarith
qed

lemma signal_fact:
  assumes i: "kernel_inv idle k" and u: "uxSchedulerSuspended k = 0" and e: "entries (event_lists k e) = t # ts"
  shows "is_ready (kernel_step (Signal e) k) t \<and> (\<forall>x. x \<notin> {t} \<longrightarrow> is_ready (kernel_step (Signal e) k) x = is_ready k x) \<and>
    pxCurrentTCB (kernel_step (Signal e) k) = (if uxPriority k t > uxPriority k (pxCurrentTCB k) then t else pxCurrentTCB k)"
proof -
  have c: "lists_ok k" "times_ok k" "is_ready k idle" "running_highest k" using inv_parts[OF i] by auto
  have t: "t \<in> waiting k e" using e by (simp add: waiting_def)
  have tb: "t \<in> blocked k" using c(1) t by (auto simp: lists_ok_def)
  note m = make_ready_lists[OF c(1) tb]
  have st: "kernel_step (Signal e) k = (if uxPriority k t > uxPriority k (pxCurrentTCB k)
     then vTaskSwitchContext ((make_ready t k)\<lparr>xYieldPending := True\<rparr>) else make_ready t k)"
    using e u by (simp add: xTaskRemoveFromEventList_def Let_def)
  show ?thesis
  proof (cases "uxPriority k t > uxPriority k (pxCurrentTCB k)")
    case True
    let ?k = "(make_ready t k)\<lparr>xYieldPending := True\<rparr>"
    have "times_ok (make_ready t k)" using c(2) make_ready_sets[OF c(1), of t] by (auto simp: times_ok_def)
    then have "core_ok idle ?k" using m c(3) by (simp add: core_ok_def)
    note s = switch_spec[OF this]
    have rd: "is_ready (vTaskSwitchContext ?k) x \<longleftrightarrow> is_ready k x \<or> x = t" for x using s m(2) by (simp add: switch_frame_def)
    have "running_highest (vTaskSwitchContext ?k)" "uxPriority (vTaskSwitchContext ?k) = uxPriority k"
      using s u by (simp_all add: switch_frame_def)
    then have "pxCurrentTCB (vTaskSwitchContext ?k) = t"
      using True c(4) rd unfolding running_highest_def by (metis leD le_less_trans)
    then show ?thesis unfolding st using True rd by simp
  next
    case False
    then show ?thesis unfolding st using m(2) by auto
  qed
qed

text \<open>The states of the kernel from the start of the scheduler on.\<close>

inductive kernel_reachable :: "nat \<Rightarrow> kernel \<Rightarrow> bool" for idle :: nat where
  start: "\<forall>t. prio t < configMAX_PRIORITIES \<Longrightarrow> distinct (t # ts) \<Longrightarrow> idle \<in> set (t # ts) \<Longrightarrow>
    kernel_reachable idle (vTaskStartScheduler prio t ts)"
| event: "kernel_reachable idle k \<Longrightarrow> event_ok idle e k \<Longrightarrow> kernel_reachable idle (kernel_step e k)"

lemma reachable_inv: "kernel_reachable idle k \<Longrightarrow> kernel_inv idle k"
proof (induction rule: kernel_reachable.induct)
  case (start prio t ts)
  then show ?case by (rule boot_inv)
next
  case (event k e)
  then show ?case using good_kernel_step by (simp add: good_step_def)
qed

lemma reachable_run: "kernel_reachable idle k \<Longrightarrow> run_ok_events idle es k \<Longrightarrow> kernel_reachable idle (kernel_run es k)"
proof (induction es arbitrary: k)
  case (Cons e es)
  then show ?case using kernel_reachable.event by simp
qed simp

text \<open>The priorities of the firmware: start, idle and timer task, then the tasks of \<open>task_start.c\<close>.\<close>

definition firmware_priority :: "nat \<Rightarrow> nat" where
  "firmware_priority t = (if t < 11 then [1, 0, 31, 2, 3, 4, 6, 7, 5, 5, 8] ! t else 0)"

definition firmware_start :: kernel where
  "firmware_start = vTaskStartScheduler firmware_priority 0 [1, 2]"

definition firmware_events :: "kernel_event list" where
  "firmware_events = [Wait 9 0xFFFFFFFF, Create 3, Delay 10, Create 4, Suspend, Tick, Signal 9, Tick, Resume, Wait 9 50, Tick]"

lemma firmware_reachable: "kernel_reachable 1 firmware_start"
proof -
  have "firmware_priority t < configMAX_PRIORITIES" for t
  proof -
    have "t < 11 \<Longrightarrow> [1, 0, 31, 2, 3, 4, 6, 7, 5, 5, 8] ! t < (32 :: nat)"
      by (simp add: nth_Cons' numeral_eq_Suc)
    then show ?thesis by (simp add: firmware_priority_def)
  qed
  then show ?thesis unfolding firmware_start_def by (intro kernel_reachable.start) simp_all
qed

section \<open>Properties\<close>

text \<open>C27: From the start of the scheduler with any tasks, one of them the idle task, and after any
  sequence of ticks, delays, waits, signals, suspensions of the scheduler, yields and creations of tasks,
  the running task is ready and no ready task has a higher priority; a blocked
  task is in no ready list, and nothing is left over from a suspension of the scheduler.\<close>

theorem kernel_runs_highest:
  assumes "kernel_reachable idle k"
  shows "is_ready k (pxCurrentTCB k) \<and> (\<forall>u. is_ready k u \<longrightarrow> uxPriority k u \<le> uxPriority k (pxCurrentTCB k)) \<and>
    (\<forall>u. u \<in> blocked k \<longrightarrow> \<not> is_ready k u) \<and>
    (uxSchedulerSuspended k = 0 \<longrightarrow> pending k = {} \<and> xPendedTicks k = 0)"
  using reachable_inv[OF assms] by (auto simp: kernel_inv_def running_highest_def settled_def core_ok_def lists_ok_def)

lemma kernel_runs_highest_witness:
  "is_ready (kernel_run firmware_events firmware_start) 4 \<and> pxCurrentTCB (kernel_run firmware_events firmware_start) = 4"
proof -
  have "run_ok_events 1 firmware_events firmware_start" by code_simp
  from kernel_runs_highest[OF reachable_run[OF firmware_reachable this]]
  have "is_ready (kernel_run firmware_events firmware_start) (pxCurrentTCB (kernel_run firmware_events firmware_start))" by blast
  moreover have "pxCurrentTCB (kernel_run firmware_events firmware_start) = 4" by code_simp
  ultimately show ?thesis by simp
qed

text \<open>C28: A task that delays itself for \<open>n\<close> ticks is ready again exactly with the \<open>n\<close>th tick, whatever the
  other tasks do meanwhile and also when the tick count overflows: as long as it has not been
  ready since, it is ready after a further event that leaves the scheduler running if and only if \<open>n\<close> ticks have
  come by then. Ticks that come while the scheduler is suspended count when it is resumed.\<close>

theorem delay_exact:
  assumes "kernel_reachable idle k" "event_ok idle (Delay n) k" "n \<noteq> 0"
    "run_ok_events idle (es @ [e]) (kernel_step (Delay n) k)"
    "asleep (pxCurrentTCB k) es (kernel_step (Delay n) k)"
    "uxSchedulerSuspended (kernel_run (es @ [e]) (kernel_step (Delay n) k)) = 0"
  shows "is_ready (kernel_run (es @ [e]) (kernel_step (Delay n) k)) (pxCurrentTCB k) \<longleftrightarrow> unat n \<le> ticks (es @ [e])"
  using reachable_inv[OF assms(1)] assms(2-6) by (rule delay_exact_fact)

lemma delay_exact_witness:
  "is_ready (kernel_run ([Tick, Suspend, Tick, Tick, Resume, Delay 2, Tick] @ [Tick]) (kernel_step (Delay 5) firmware_start)) 2"
proof -
  have c: "pxCurrentTCB firmware_start = 2" by code_simp
  have "event_ok 1 (Delay 5) firmware_start" by code_simp
  moreover have "run_ok_events 1 ([Tick, Suspend, Tick, Tick, Resume, Delay 2, Tick] @ [Tick]) (kernel_step (Delay 5) firmware_start)"
    by code_simp
  moreover have "asleep 2 [Tick, Suspend, Tick, Tick, Resume, Delay 2, Tick] (kernel_step (Delay 5) firmware_start)"
    by code_simp
  moreover have "uxSchedulerSuspended (kernel_run ([Tick, Suspend, Tick, Tick, Resume, Delay 2, Tick] @ [Tick]) (kernel_step (Delay 5) firmware_start)) = 0"
    by code_simp
  moreover have "ticks ([Tick, Suspend, Tick, Tick, Resume, Delay 2, Tick] @ [Tick]) = 5" by code_simp
  ultimately show ?thesis
    using delay_exact[OF firmware_reachable, of 5 "[Tick, Suspend, Tick, Tick, Resume, Delay 2, Tick]" Tick, unfolded c] by simp
qed

text \<open>C30: While nothing else happens, as many switches of context as there are ready tasks of the highest
  priority give each of them the processor exactly once.\<close>

theorem time_slices:
  assumes "kernel_reachable idle k" "uxSchedulerSuspended k = 0"
    "n = length (entries (pxReadyTasksLists k (uxPriority k (pxCurrentTCB k))))"
  shows "distinct (map (\<lambda>i. pxCurrentTCB ((vTaskSwitchContext ^^ Suc i) k)) [0..<n]) \<and>
    set (map (\<lambda>i. pxCurrentTCB ((vTaskSwitchContext ^^ Suc i) k)) [0..<n]) =
      {u. is_ready k u \<and> uxPriority k u = uxPriority k (pxCurrentTCB k)}"
proof -
  let ?p = "uxPriority k (pxCurrentTCB k)"
  let ?l = "pxReadyTasksLists k ?p"
  note i = reachable_inv[OF assms(1)]
  have ro: "ready_ok k" "is_ready k (pxCurrentTCB k)" using inv_parts[OF i] by (auto simp: lists_ok_def running_highest_def)
  have kl: "kl_ok ?l" using ro(1) by (simp add: ready_ok_def)
  note tn = kl_turn_entries[OF kl]
  have ne: "kl_turn ?l \<noteq> []" using tn ro(2) by (auto simp: is_ready_def)
  have "map Some (map (\<lambda>i. pxCurrentTCB ((vTaskSwitchContext ^^ Suc i) k)) [0..<n]) = map Some (kl_turn ?l)"
    using kl.everyone_once[OF kl ne] yields[OF i assms(2), of "Suc _"] tn assms(3) by (simp add: comp_def del: funpow.simps)
  then have "map (\<lambda>i. pxCurrentTCB ((vTaskSwitchContext ^^ Suc i) k)) [0..<n] = kl_turn ?l"
    by (rule map_injective) (simp add: inj_def)
  moreover have "set (entries ?l) = {u. is_ready k u \<and> uxPriority k u = ?p}"
    using ready_priority[OF ro(1)] by (auto simp: is_ready_def)
  ultimately show ?thesis using tn by simp
qed

lemma time_slices_witness:
  "set (map (\<lambda>i. pxCurrentTCB ((vTaskSwitchContext ^^ Suc i) (kernel_run [Wait 9 0xFFFFFFFF, Create 8, Create 9] firmware_start))) [0..<2]) = {8, 9}"
proof -
  let ?es = "[Wait 9 0xFFFFFFFF, Create 8, Create 9]"
  let ?k = "kernel_run ?es firmware_start"
  have ok: "run_ok_events 1 ?es firmware_start" by code_simp
  have c: "pxCurrentTCB ?k = 8" "uxPriority ?k 8 = 5" "uxSchedulerSuspended ?k = 0" "entries (pxReadyTasksLists ?k 5) = [9, 8]"
    by code_simp+
  have i: "kernel_inv 1 ?k" by (rule reachable_inv[OF reachable_run[OF firmware_reachable ok]])
  have "{u. is_ready ?k u \<and> uxPriority ?k u = 5} = {8, 9}"
    using inv_parts[OF i] ready_priority[of ?k _ 5] c(4) by (fastforce simp: lists_ok_def is_ready_def)
  then show ?thesis using time_slices[OF reachable_run[OF firmware_reachable ok], of 2] c by simp
qed

text \<open>C31: A signal wakes, of the tasks that wait on the event list, one of the highest priority, and no
  other task; if it is above the running task it runs at once, and otherwise the running task
  goes on.\<close>

theorem signal_wakes_highest:
  assumes "kernel_reachable idle k" "uxSchedulerSuspended k = 0" "entries (event_lists k e) = t # ts"
  shows "(\<forall>u \<in> waiting k e. uxPriority k u \<le> uxPriority k t) \<and> is_ready (kernel_step (Signal e) k) t \<and>
    (\<forall>u. u \<notin> {t} \<longrightarrow> is_ready (kernel_step (Signal e) k) u = is_ready k u) \<and>
    pxCurrentTCB (kernel_step (Signal e) k) = (if uxPriority k t > uxPriority k (pxCurrentTCB k) then t else pxCurrentTCB k)"
  using first_waiter[of k e t ts] inv_parts[OF reachable_inv[OF assms(1)]] signal_fact[OF reachable_inv[OF assms(1)] assms(2,3)]
    assms(3) by blast

lemma signal_wakes_highest_witness:
  "pxCurrentTCB (kernel_step (Signal 9) (kernel_run [Wait 9 0xFFFFFFFF, Create 3, Wait 9 50] firmware_start)) = 2"
proof -
  let ?es = "[Wait 9 0xFFFFFFFF, Create 3, Wait 9 50]"
  let ?k = "kernel_run ?es firmware_start"
  have ok: "run_ok_events 1 ?es firmware_start" by code_simp
  have c: "uxSchedulerSuspended ?k = 0" "entries (event_lists ?k 9) = 2 # [3]" "pxCurrentTCB ?k = 0" "uxPriority ?k 2 = 31" "uxPriority ?k 0 = 1"
    by code_simp+
  show ?thesis using signal_wakes_highest[OF reachable_run[OF firmware_reachable ok] c(1,2)] c(3-5) by simp
qed

text \<open>C32: The time-out of a blocking call: with \<open>d\<close> ticks on the clock since the call was entered, asking
  again answers that \<open>n\<close> ticks are over exactly if \<open>n\<close> is at most \<open>d\<close>, and otherwise gives the ticks left
  and starts anew, across one overflow of the tick count, provided the count has not come round
  to its old value a second time.\<close>

theorem timeout_exact:
  assumes "clock k' = (clock k + d) mod 2 ^ 64" "unat (xTickCount k) + d < 2 ^ 33" "n \<noteq> portMAX_DELAY"
  shows "xTaskCheckForTimeOut k' (vTaskInternalSetTimeOutState k) n =
    (if unat n \<le> d then (True, vTaskInternalSetTimeOutState k, 0) else (False, vTaskInternalSetTimeOutState k', n - of_nat d))"
  using assms by (rule timeout_fact)

lemma timeout_exact_witness:
  "xTaskCheckForTimeOut (firmware_start\<lparr>xTickCount := 3, xNumOfOverflows := 1\<rparr>)
     (vTaskInternalSetTimeOutState (firmware_start\<lparr>xTickCount := 0xFFFFFFFE\<rparr>)) 7 =
   (False, vTaskInternalSetTimeOutState (firmware_start\<lparr>xTickCount := 3, xNumOfOverflows := 1\<rparr>), 2)"
proof -
  have o: "xNumOfOverflows firmware_start = 0" by code_simp
  show ?thesis
    using timeout_exact[of "firmware_start\<lparr>xTickCount := 3, xNumOfOverflows := 1\<rparr>" "firmware_start\<lparr>xTickCount := 0xFFFFFFFE\<rparr>" 5 7]
    by (simp add: clock_def o)
qed

end
