(* ===== verification/Kernel_Until.thy ===== *)
theory Kernel_Until
  imports Kernel_Run
begin

text \<open>
  Periodic tasks: \<open>xTaskDelayUntil\<close> of \<open>tasks.c\<close>, which delays to an absolute tick, and the two tasks of the
  firmware that only wait for the clock, \<open>task_watchdog.c\<close> and \<open>task_led.c\<close>.
\<close>

section \<open>Delay to a tick\<close>

definition should_delay :: "u32 \<Rightarrow> u32 \<Rightarrow> u32 \<Rightarrow> bool" where
  "should_delay prev wake now =
     (if now < prev then wake < prev \<and> wake > now else wake < prev \<or> wake > now)"

text \<open>The answer, the new wake time and the kernel after the call.\<close>

definition xTaskDelayUntil :: "u32 \<Rightarrow> u32 \<Rightarrow> kernel \<Rightarrow> bool \<times> u32 \<times> kernel" where
  "xTaskDelayUntil prev inc k =
     (let k = vTaskSuspendAll k;
          wake = prev + inc;
          should = should_delay prev wake (xTickCount k);
          k = (if should then prvAddCurrentTaskToDelayedList (wake - xTickCount k) False k else k);
          (yielded, k) = xTaskResumeAll k
      in (should, wake, if yielded then k else vTaskSwitchContext k))"

section \<open>The watchdog and the LED task\<close>

text \<open>A turn of the watchdog task feeds the watchdog (recorded with its tick) and waits for the next period.\<close>

definition watchdog_turn :: "u32 list \<times> u32 \<times> kernel \<Rightarrow> u32 list \<times> u32 \<times> kernel" where
  "watchdog_turn = (\<lambda>(feeds, last_wake, k).
     let (should, last_wake', k') = xTaskDelayUntil last_wake 10000 k
     in (feeds @ [xTickCount k], last_wake', k'))"

definition led_turn :: "bool \<times> kernel \<Rightarrow> bool \<times> kernel" where
  "led_turn = (\<lambda>(led, k). (\<not> led, vTaskDelay 1000 k))"

section \<open>What the call does\<close>

lemma suspended_tick [simp]: "xTickCount (vTaskSuspendAll k) = xTickCount k"
  by (simp add: vTaskSuspendAll_def)

lemma resume_suspended:
  assumes "settled k" "uxSchedulerSuspended k = 0"
  shows "(let (yielded, k) = xTaskResumeAll (vTaskSuspendAll k) in if yielded then k else vTaskSwitchContext k)
    = vTaskSwitchContext k"
proof -
  have "entries (xPendingReadyList k) = []" "xPendedTicks k = 0" using assms by (simp_all add: settled_def pending_def)
  moreover have e: "k\<lparr>uxSchedulerSuspended := 0\<rparr> = k" using assms(2) by (cases k) simp
  ultimately show ?thesis
    using assms(2) by (simp add: vTaskSuspendAll_def xTaskResumeAll_def Let_def move_pending.simps e)
qed

lemma delay_until_steps:
  assumes "settled k" "uxSchedulerSuspended k = 0"
  shows "xTaskDelayUntil prev inc k =
    (if should_delay prev (prev + inc) (xTickCount k)
     then (True, prev + inc, kernel_step (Delay (prev + inc - xTickCount k)) k)
     else (False, prev + inc, kernel_step Yield k))"
proof (cases "should_delay prev (prev + inc) (xTickCount k)")
  case True
  then have "prev + inc - xTickCount k \<noteq> 0" by (auto simp: should_delay_def split: if_splits)
  then have "prev + inc - xTickCount k > 0" by (simp add: word_gt_0)
  then show ?thesis using True by (simp add: xTaskDelayUntil_def vTaskDelay_def Let_def split: prod.split)
next
  case False
  then show ?thesis using resume_suspended [OF assms] by (auto simp: xTaskDelayUntil_def Let_def split: prod.splits)
qed

text \<open>With the wake time \<open>p\<close> and the time \<open>t\<close> counted without overflow, the test is the right one.\<close>

lemma should_delay_exact:
  assumes "p \<le> t" "t < p + 2 ^ 32" "n < 2 ^ 32" "0 < n"
  shows "should_delay (of_nat p) (of_nat p + of_nat n) (of_nat t) \<longleftrightarrow> t < p + n"
proof -
  define e where "e = p div 2 ^ 32"
  define q where "q = p mod 2 ^ 32"
  have p: "p = e * 2 ^ 32 + q" and q: "q < 2 ^ 32" by (simp_all add: e_def q_def)
  define s where "s = t - e * 2 ^ 32"
  have t: "t = e * 2 ^ 32 + s" using assms(1) p by (simp add: s_def)
  have s: "q \<le> s" "s < q + 2 ^ 32" using assms(1,2) p t by simp_all
  have up: "unat (of_nat p :: u32) = q" by (simp add: q_def unat_of_nat)
  have ut: "unat (of_nat t :: u32) = (if s < 2 ^ 32 then s else s - 2 ^ 32)"
  proof -
    have "unat (of_nat t :: u32) = t mod 2 ^ 32" by (simp add: unat_of_nat)
    also have "\<dots> = s mod 2 ^ 32" by (simp add: t)
    finally show ?thesis using s q by (simp add: mod_if)
  qed
  have uw: "unat (of_nat p + of_nat n :: u32) = (if q + n < 2 ^ 32 then q + n else q + n - 2 ^ 32)"
    using q assms(3) unfolding unat_word_ariths up by (simp add: unat_of_nat mod_if)
  have "t < p + n \<longleftrightarrow> s < q + n" by (simp add: p t)
  then show ?thesis using s q assms(3,4)
    unfolding should_delay_def word_less_nat_alt up ut uw by (auto split: if_splits)
qed

text \<open>The wake time of the watchdog task after any number of turns.\<close>

lemma delay_until_wake: "fst (snd (xTaskDelayUntil prev inc k)) = prev + inc"
  by (simp add: xTaskDelayUntil_def Let_def split: prod.split)

lemma watchdog_once:
  "fst (snd (watchdog_turn w)) = fst (snd w) + 10000 \<and> length (fst (watchdog_turn w)) = Suc (length (fst w))"
  using delay_until_wake [of "fst (snd w)" 10000 "snd (snd w)"]
  by (cases w) (auto simp: watchdog_turn_def split: prod.split)

lemma watchdog_period:
  "fst (snd ((watchdog_turn ^^ m) w)) = fst (snd w) + of_nat m * 10000 \<and> length (fst ((watchdog_turn ^^ m) w)) = length (fst w) + m"
proof (induction m)
  case (Suc m)
  then show ?case using watchdog_once [of "(watchdog_turn ^^ m) w"] by (simp add: algebra_simps)
qed simp

section \<open>Properties\<close>

lemma ticks_left:
  assumes "t < p + n" "p + n - t < 2 ^ 32"
  shows "unat (of_nat p + of_nat n - of_nat t :: u32) = p + n - t"
proof -
  have "of_nat p + of_nat n - of_nat t = (of_nat (p + n - t) :: u32)" using assms(1) by (simp add: of_nat_diff)
  then show ?thesis using assms(2) by (simp add: unat_of_nat)
qed

text \<open>C29: Periodic tasks do not drift. Let \<open>p\<close> be the last wake time and \<open>t\<close> the time, both counted without
  overflow. A task that asks to be woken \<open>n\<close> ticks after \<open>p\<close> is not delayed if that time is over, and
  otherwise is ready again exactly with tick \<open>p + n\<close>, however late it made the call and also when the
  tick count overflows; in both cases its next period is counted from \<open>p + n\<close>.\<close>

theorem delay_until_exact:
  assumes "kernel_reachable idle k" "event_ok idle (Delay 1) k"
    "xTickCount k = of_nat t" "p \<le> t" "t < p + 2 ^ 32" "0 < n" "n < 2 ^ 32"
    "xTaskDelayUntil (of_nat p) (of_nat n) k = (should, wake, k')"
  shows "wake = of_nat (p + n) \<and> (should \<longleftrightarrow> t < p + n) \<and> (\<not> should \<longrightarrow> k' = kernel_step Yield k) \<and>
    (should \<longrightarrow> (\<forall>es e. run_ok_events idle (es @ [e]) k' \<and> asleep (pxCurrentTCB k) es k' \<and>
       uxSchedulerSuspended (kernel_run (es @ [e]) k') = 0 \<longrightarrow>
       (is_ready (kernel_run (es @ [e]) k') (pxCurrentTCB k) \<longleftrightarrow> p + n \<le> t + ticks (es @ [e]))))"
proof -
  have i: "kernel_inv idle k" by (rule reachable_inv [OF assms(1)])
  have "uxSchedulerSuspended k = 0" using assms(2) by simp
  moreover from this have "settled k" using i by (simp add: kernel_inv_def)
  ultimately have d: "xTaskDelayUntil (of_nat p) (of_nat n) k =
      (if t < p + n then (True, of_nat p + of_nat n, kernel_step (Delay (of_nat p + of_nat n - of_nat t)) k)
       else (False, of_nat p + of_nat n, kernel_step Yield k))"
    using delay_until_steps [of k "of_nat p" "of_nat n"] should_delay_exact [OF assms(4,5,7,6)] assms(3) by simp
  show ?thesis
  proof (cases "t < p + n")
    case True
    define m where "m = (of_nat p + of_nat n - of_nat t :: u32)"
    have m: "unat m = p + n - t" using ticks_left [of t p n] True assms(4,7) by (simp add: m_def)
    have m0: "m \<noteq> 0" using m True by auto
    have k': "should" "wake = of_nat p + of_nat n" "k' = kernel_step (Delay m) k"
      using d assms(8) True by (simp_all add: m_def)
    have ok: "event_ok idle (Delay m) k" using assms(2) by simp
    have "is_ready (kernel_run (es @ [e]) k') (pxCurrentTCB k) \<longleftrightarrow> p + n \<le> t + ticks (es @ [e])"
      if "run_ok_events idle (es @ [e]) k'" "asleep (pxCurrentTCB k) es k'" "uxSchedulerSuspended (kernel_run (es @ [e]) k') = 0"
      for es e
      using delay_exact_fact [OF i ok m0] that m True unfolding k' by auto
    then show ?thesis using k'(1,2) True by simp
  next
    case False
    then show ?thesis using d assms(8) by simp
  qed
qed

lemma delay_until_exact_witness:
  "is_ready (kernel_run ([Tick, Suspend, Tick, Resume] @ [Tick]) (snd (snd (xTaskDelayUntil 1 5 (kernel_run [Tick, Tick, Tick] firmware_start))))) 2"
proof -
  define k where "k = kernel_run [Tick, Tick, Tick] firmware_start"
  define es where "es = [Tick, Suspend, Tick, Resume]"
  obtain should wake k' where d: "xTaskDelayUntil (of_nat 1) (of_nat 5) k = (should, wake, k')" by (metis prod_cases3)
  then have k': "k' = snd (snd (xTaskDelayUntil 1 5 k))" by simp
  have "run_ok_events 1 [Tick, Tick, Tick] firmware_start" by code_simp
  then have r: "kernel_reachable 1 k" unfolding k_def by (rule reachable_run [OF firmware_reachable])
  have c: "pxCurrentTCB k = 2" "xTickCount k = of_nat 3" "event_ok 1 (Delay 1) k" unfolding k_def by code_simp+
  have s: "run_ok_events 1 (es @ [Tick]) k'" "asleep 2 es k'" "uxSchedulerSuspended (kernel_run (es @ [Tick]) k') = 0"
    "ticks (es @ [Tick]) = 3" unfolding k' k_def es_def by code_simp+
  have p: "(1::nat) \<le> 3" "(3::nat) < 1 + 2 ^ 32" "0 < (5::nat)" "(5::nat) < 2 ^ 32" by simp_all
  note until = delay_until_exact [OF r c(3,2) p d, unfolded c(1)]
  have "should \<longleftrightarrow> (3::nat) < 1 + 5" using until by blast
  then have "should" by simp
  then have "is_ready (kernel_run (es @ [Tick]) k') 2 \<longleftrightarrow> 1 + 5 \<le> 3 + ticks (es @ [Tick])"
    using until s(1-3) by blast
  then have "is_ready (kernel_run (es @ [Tick]) k') 2" using s(4) by simp
  then show ?thesis by (simp only: k' k_def es_def)
qed

end
