(* ===== verification/Lcd_Tables.thy ===== *)
theory Lcd_Tables
  imports Agro_Prelude
begin

text \<open>
  The set-up sequences of the seven display controllers the driver knows, \<open>Drivers/BSP/LCD/lcd_ex.c\<close>, as
  the accesses to the display bus they make. A command writes its number to the register port and its
  parameters to the data port.
\<close>

text \<open>One access to the bus: a write to \<open>LCD_REG\<close> or \<open>LCD_RAM\<close>, a read of \<open>LCD_RAM\<close>, or a wait in
  microseconds.\<close>

datatype bus = Reg u16 | Ram u16 | Rd | Wait nat

definition cmd :: "u16 \<Rightarrow> u16 list \<Rightarrow> bus list" where
  "cmd regno params = Reg regno # map Ram params"

definition delay_us :: "nat \<Rightarrow> bus list" where
  "delay_us n = [Wait n]"

definition delay_ms :: "nat \<Rightarrow> bus list" where
  "delay_ms n = [Wait (1000 * n)]"

definition lcd_ex_st7789_reginit :: "bus list" where
  "lcd_ex_st7789_reginit = concat [
    cmd 0x11 [], delay_ms 120, cmd 0x36 [0x00], cmd 0x3A [0x05], cmd 0xB2 [0x0C, 0x0C, 0x00, 0x33, 0x33],
    cmd 0xB7 [0x35], cmd 0xBB [0x32], cmd 0xC0 [0x0C], cmd 0xC2 [0x01], cmd 0xC3 [0x10], cmd 0xC4 [0x20],
    cmd 0xC6 [0x0F], cmd 0xD0 [0xA4, 0xA1],
    cmd 0xE0 [0xD0, 0x00, 0x02, 0x07, 0x0A, 0x28, 0x32, 0x44, 0x42, 0x06, 0x0E, 0x12, 0x14, 0x17],
    cmd 0xE1 [0xD0, 0x00, 0x02, 0x07, 0x0A, 0x28, 0x31, 0x54, 0x47, 0x0E, 0x1C, 0x17, 0x1B, 0x1E],
    cmd 0x2A [0x00, 0x00, 0x00, 0xEF], cmd 0x2B [0x00, 0x00, 0x01, 0x3F], cmd 0x29 []]"

definition lcd_ex_ili9341_reginit :: "bus list" where
  "lcd_ex_ili9341_reginit = concat [
    cmd 0xCF [0x00, 0xC1, 0x30], cmd 0xED [0x64, 0x03, 0x12, 0x81], cmd 0xE8 [0x85, 0x10, 0x7A],
    cmd 0xCB [0x39, 0x2C, 0x00, 0x34, 0x02], cmd 0xF7 [0x20], cmd 0xEA [0x00, 0x00], cmd 0xC0 [0x1B],
    cmd 0xC1 [0x01], cmd 0xC5 [0x30, 0x30], cmd 0xC7 [0xB7], cmd 0x36 [0x48], cmd 0x3A [0x55],
    cmd 0xB1 [0x00, 0x1A], cmd 0xB6 [0x0A, 0xA2], cmd 0xF2 [0x00], cmd 0x26 [0x01],
    cmd 0xE0 [0x0F, 0x2A, 0x28, 0x08, 0x0E, 0x08, 0x54, 0xA9, 0x43, 0x0A, 0x0F, 0x00, 0x00, 0x00, 0x00],
    cmd 0xE1 [0x00, 0x15, 0x17, 0x07, 0x11, 0x06, 0x2B, 0x56, 0x3C, 0x05, 0x10, 0x0F, 0x3F, 0x3F, 0x0F],
    cmd 0x2B [0x00, 0x00, 0x01, 0x3F], cmd 0x2A [0x00, 0x00, 0x00, 0xEF], cmd 0x11 [], delay_ms 120,
    cmd 0x29 []]"

definition lcd_ex_nt35310_1 :: "bus list" where
  "lcd_ex_nt35310_1 = concat [
    cmd 0xED [0x01, 0xFE], cmd 0xEE [0xDE, 0x21], cmd 0xF1 [0x01], cmd 0xDF [0x10], cmd 0xC4 [0x8F],
    cmd 0xC6 [0x00, 0xE2, 0xE2, 0xE2], cmd 0xBF [0xAA],
    cmd 0xB0 [0x0D, 0x00, 0x0D, 0x00, 0x11, 0x00, 0x19, 0x00, 0x21, 0x00, 0x2D, 0x00, 0x3D, 0x00, 0x5D, 0x00, 0x5D, 0x00],
    cmd 0xB1 [0x80, 0x00, 0x8B, 0x00, 0x96, 0x00], cmd 0xB2 [0x00, 0x00, 0x02, 0x00, 0x03, 0x00],
    cmd 0xB3 [0x00, 0x00, 0x00, 0x00, 0x00, 0x00, 0x00, 0x00, 0x00, 0x00, 0x00, 0x00, 0x00, 0x00, 0x00, 0x00, 0x00, 0x00, 0x00, 0x00, 0x00, 0x00, 0x00, 0x00],
    cmd 0xB4 [0x8B, 0x00, 0x96, 0x00, 0xA1, 0x00], cmd 0xB5 [0x02, 0x00, 0x03, 0x00, 0x04, 0x00],
    cmd 0xB6 [0x00, 0x00],
    cmd 0xB7 [0x00, 0x00, 0x3F, 0x00, 0x5E, 0x00, 0x64, 0x00, 0x8C, 0x00, 0xAC, 0x00, 0xDC, 0x00, 0x70, 0x00, 0x90, 0x00, 0xEB, 0x00, 0xDC, 0x00],
    cmd 0xB8 [0x00, 0x00, 0x00, 0x00, 0x00, 0x00, 0x00, 0x00]]"

definition lcd_ex_nt35310_2 :: "bus list" where
  "lcd_ex_nt35310_2 = concat [
    cmd 0xBA [0x24, 0x00, 0x00, 0x00], cmd 0xC1 [0x20, 0x00, 0x54, 0x00, 0xFF, 0x00],
    cmd 0xC2 [0x0A, 0x00, 0x04, 0x00],
    cmd 0xC3 [0x3C, 0x00, 0x3A, 0x00, 0x39, 0x00, 0x37, 0x00, 0x3C, 0x00, 0x36, 0x00, 0x32, 0x00, 0x2F, 0x00, 0x2C, 0x00, 0x29, 0x00, 0x26, 0x00, 0x24, 0x00, 0x24, 0x00, 0x23, 0x00, 0x3C, 0x00, 0x36, 0x00, 0x32, 0x00, 0x2F, 0x00, 0x2C, 0x00, 0x29, 0x00, 0x26, 0x00, 0x24, 0x00, 0x24, 0x00, 0x23, 0x00],
    cmd 0xC4 [0x62, 0x00, 0x05, 0x00, 0x84, 0x00, 0xF0, 0x00, 0x18, 0x00, 0xA4, 0x00, 0x18, 0x00, 0x50, 0x00, 0x0C, 0x00, 0x17, 0x00, 0x95, 0x00, 0xF3, 0x00, 0xE6, 0x00],
    cmd 0xC5 [0x32, 0x00, 0x44, 0x00, 0x65, 0x00, 0x76, 0x00, 0x88, 0x00],
    cmd 0xC6 [0x20, 0x00, 0x17, 0x00, 0x01, 0x00], cmd 0xC7 [0x00, 0x00, 0x00, 0x00],
    cmd 0xC8 [0x00, 0x00, 0x00, 0x00],
    cmd 0xC9 [0x00, 0x00, 0x00, 0x00, 0x00, 0x00, 0x00, 0x00, 0x00, 0x00, 0x00, 0x00, 0x00, 0x00, 0x00, 0x00]]"

definition lcd_ex_nt35310_3 :: "bus list" where
  "lcd_ex_nt35310_3 = concat [
   
    cmd 0xE0 [0x16, 0x00, 0x1C, 0x00, 0x21, 0x00, 0x36, 0x00, 0x46, 0x00, 0x52, 0x00, 0x64, 0x00, 0x7A, 0x00, 0x8B, 0x00, 0x99, 0x00, 0xA8, 0x00, 0xB9, 0x00, 0xC4, 0x00, 0xCA, 0x00, 0xD2, 0x00, 0xD9, 0x00, 0xE0, 0x00, 0xF3, 0x00],
    cmd 0xE1 [0x16, 0x00, 0x1C, 0x00, 0x22, 0x00, 0x36, 0x00, 0x45, 0x00, 0x52, 0x00, 0x64, 0x00, 0x7A, 0x00, 0x8B, 0x00, 0x99, 0x00, 0xA8, 0x00, 0xB9, 0x00, 0xC4, 0x00, 0xCA, 0x00, 0xD2, 0x00, 0xD8, 0x00, 0xE0, 0x00, 0xF3, 0x00],
    cmd 0xE2 [0x05, 0x00, 0x0B, 0x00, 0x1B, 0x00, 0x34, 0x00, 0x44, 0x00, 0x4F, 0x00, 0x61, 0x00, 0x79, 0x00, 0x88, 0x00, 0x97, 0x00, 0xA6, 0x00, 0xB7, 0x00, 0xC2, 0x00, 0xC7, 0x00, 0xD1, 0x00, 0xD6, 0x00, 0xDD, 0x00, 0xF3, 0x00],
    cmd 0xE3 [0x05, 0x00, 0x0A, 0x00, 0x1C, 0x00, 0x33, 0x00, 0x44, 0x00, 0x50, 0x00, 0x62, 0x00, 0x78, 0x00, 0x88, 0x00, 0x97, 0x00, 0xA6, 0x00, 0xB7, 0x00, 0xC2, 0x00, 0xC7, 0x00, 0xD1, 0x00, 0xD5, 0x00, 0xDD, 0x00, 0xF3, 0x00]]"

definition lcd_ex_nt35310_4 :: "bus list" where
  "lcd_ex_nt35310_4 = concat [
   
    cmd 0xE4 [0x01, 0x00, 0x01, 0x00, 0x02, 0x00, 0x2A, 0x00, 0x3C, 0x00, 0x4B, 0x00, 0x5D, 0x00, 0x74, 0x00, 0x84, 0x00, 0x93, 0x00, 0xA2, 0x00, 0xB3, 0x00, 0xBE, 0x00, 0xC4, 0x00, 0xCD, 0x00, 0xD3, 0x00, 0xDD, 0x00, 0xF3, 0x00],
    cmd 0xE5 [0x00, 0x00, 0x00, 0x00, 0x02, 0x00, 0x29, 0x00, 0x3C, 0x00, 0x4B, 0x00, 0x5D, 0x00, 0x74, 0x00, 0x84, 0x00, 0x93, 0x00, 0xA2, 0x00, 0xB3, 0x00, 0xBE, 0x00, 0xC4, 0x00, 0xCD, 0x00, 0xD3, 0x00, 0xDC, 0x00, 0xF3, 0x00],
    cmd 0xE6 [0x11, 0x00, 0x34, 0x00, 0x56, 0x00, 0x76, 0x00, 0x77, 0x00, 0x66, 0x00, 0x88, 0x00, 0x99, 0x00, 0xBB, 0x00, 0x99, 0x00, 0x66, 0x00, 0x55, 0x00, 0x55, 0x00, 0x45, 0x00, 0x43, 0x00, 0x44, 0x00],
    cmd 0xE7 [0x32, 0x00, 0x55, 0x00, 0x76, 0x00, 0x66, 0x00, 0x67, 0x00, 0x67, 0x00, 0x87, 0x00, 0x99, 0x00, 0xBB, 0x00, 0x99, 0x00, 0x77, 0x00, 0x44, 0x00, 0x56, 0x00, 0x23, 0x00, 0x33, 0x00, 0x45, 0x00]]"

definition lcd_ex_nt35310_5 :: "bus list" where
  "lcd_ex_nt35310_5 = concat [
   
    cmd 0xE8 [0x00, 0x00, 0x99, 0x00, 0x87, 0x00, 0x88, 0x00, 0x77, 0x00, 0x66, 0x00, 0x88, 0x00, 0xAA, 0x00, 0xBB, 0x00, 0x99, 0x00, 0x66, 0x00, 0x55, 0x00, 0x55, 0x00, 0x44, 0x00, 0x44, 0x00, 0x55, 0x00],
    cmd 0xE9 [0xAA, 0x00, 0x00, 0x00], cmd 0x00 [0xAA],
    cmd 0xCF [0x00, 0x00, 0x00, 0x00, 0x00, 0x00, 0x00, 0x00, 0x00, 0x00, 0x00, 0x00, 0x00, 0x00, 0x00, 0x00, 0x00],
    cmd 0xF0 [0x00, 0x50, 0x00, 0x00, 0x00], cmd 0xF3 [0x00], cmd 0xF9 [0x06, 0x10, 0x29, 0x00],
    cmd 0x3A [0x55], cmd 0x11 [], delay_ms 100, cmd 0x29 [], cmd 0x35 [0x00], cmd 0x51 [0xFF],
    cmd 0x53 [0x2C], cmd 0x55 [0x82], cmd 0x2C []]"

definition lcd_ex_nt35310_reginit :: "bus list" where
  "lcd_ex_nt35310_reginit = lcd_ex_nt35310_1 @ lcd_ex_nt35310_2 @ lcd_ex_nt35310_3 @ lcd_ex_nt35310_4 @ lcd_ex_nt35310_5"

definition lcd_ex_st7796_reginit :: "bus list" where
  "lcd_ex_st7796_reginit = concat [
    cmd 0x11 [], delay_ms 120, cmd 0x36 [0x48], cmd 0x3A [0x55], cmd 0xF0 [0xC3], cmd 0xF0 [0x96],
    cmd 0xB4 [0x01], cmd 0xB6 [0x0A, 0xA2], cmd 0xB7 [0xC6], cmd 0xB9 [0x02, 0xE0], cmd 0xC0 [0x80, 0x16],
    cmd 0xC1 [0x19], cmd 0xC2 [0xA7], cmd 0xC5 [0x16],
    cmd 0xE8 [0x40, 0x8A, 0x00, 0x00, 0x29, 0x19, 0xA5, 0x33],
    cmd 0xE0 [0xF0, 0x07, 0x0D, 0x04, 0x05, 0x14, 0x36, 0x54, 0x4C, 0x38, 0x13, 0x14, 0x2E, 0x34],
    cmd 0xE1 [0xF0, 0x10, 0x14, 0x0E, 0x0C, 0x08, 0x35, 0x44, 0x4C, 0x26, 0x10, 0x12, 0x2C, 0x32],
    cmd 0xF0 [0x3C], cmd 0xF0 [0x69], delay_ms 120, cmd 0x21 [], cmd 0x29 []]"

definition lcd_ex_nt35510_1 :: "bus list" where
  "lcd_ex_nt35510_1 = concat [
    cmd 0xF000 [0x55], cmd 0xF001 [0xAA], cmd 0xF002 [0x52], cmd 0xF003 [0x08], cmd 0xF004 [0x01],
    cmd 0xB000 [0x0D], cmd 0xB001 [0x0D], cmd 0xB002 [0x0D], cmd 0xB600 [0x34], cmd 0xB601 [0x34],
    cmd 0xB602 [0x34], cmd 0xB100 [0x0D], cmd 0xB101 [0x0D], cmd 0xB102 [0x0D], cmd 0xB700 [0x34],
    cmd 0xB701 [0x34], cmd 0xB702 [0x34], cmd 0xB200 [0x00], cmd 0xB201 [0x00], cmd 0xB202 [0x00],
    cmd 0xB800 [0x24], cmd 0xB801 [0x24], cmd 0xB802 [0x24], cmd 0xBF00 [0x01], cmd 0xB300 [0x0F],
    cmd 0xB301 [0x0F], cmd 0xB302 [0x0F], cmd 0xB900 [0x34], cmd 0xB901 [0x34], cmd 0xB902 [0x34],
    cmd 0xB500 [0x08], cmd 0xB501 [0x08], cmd 0xB502 [0x08], cmd 0xC200 [0x03], cmd 0xBA00 [0x24],
    cmd 0xBA01 [0x24], cmd 0xBA02 [0x24], cmd 0xBC00 [0x00], cmd 0xBC01 [0x78], cmd 0xBC02 [0x00],
    cmd 0xBD00 [0x00], cmd 0xBD01 [0x78], cmd 0xBD02 [0x00], cmd 0xBE00 [0x00], cmd 0xBE01 [0x64],
    cmd 0xD100 [0x00], cmd 0xD101 [0x33], cmd 0xD102 [0x00], cmd 0xD103 [0x34], cmd 0xD104 [0x00],
    cmd 0xD105 [0x3A], cmd 0xD106 [0x00], cmd 0xD107 [0x4A], cmd 0xD108 [0x00], cmd 0xD109 [0x5C],
    cmd 0xD10A [0x00], cmd 0xD10B [0x81], cmd 0xD10C [0x00], cmd 0xD10D [0xA6], cmd 0xD10E [0x00],
    cmd 0xD10F [0xE5], cmd 0xD110 [0x01], cmd 0xD111 [0x13], cmd 0xD112 [0x01], cmd 0xD113 [0x54],
    cmd 0xD114 [0x01], cmd 0xD115 [0x82], cmd 0xD116 [0x01], cmd 0xD117 [0xCA], cmd 0xD118 [0x02],
    cmd 0xD119 [0x00], cmd 0xD11A [0x02], cmd 0xD11B [0x01], cmd 0xD11C [0x02], cmd 0xD11D [0x34],
    cmd 0xD11E [0x02], cmd 0xD11F [0x67], cmd 0xD120 [0x02], cmd 0xD121 [0x84], cmd 0xD122 [0x02],
    cmd 0xD123 [0xA4], cmd 0xD124 [0x02], cmd 0xD125 [0xB7], cmd 0xD126 [0x02], cmd 0xD127 [0xCF],
    cmd 0xD128 [0x02], cmd 0xD129 [0xDE], cmd 0xD12A [0x02], cmd 0xD12B [0xF2], cmd 0xD12C [0x02],
    cmd 0xD12D [0xFE], cmd 0xD12E [0x03], cmd 0xD12F [0x10], cmd 0xD130 [0x03], cmd 0xD131 [0x33],
    cmd 0xD132 [0x03], cmd 0xD133 [0x6D], cmd 0xD200 [0x00], cmd 0xD201 [0x33], cmd 0xD202 [0x00],
    cmd 0xD203 [0x34], cmd 0xD204 [0x00], cmd 0xD205 [0x3A], cmd 0xD206 [0x00], cmd 0xD207 [0x4A],
    cmd 0xD208 [0x00], cmd 0xD209 [0x5C], cmd 0xD20A [0x00], cmd 0xD20B [0x81], cmd 0xD20C [0x00],
    cmd 0xD20D [0xA6], cmd 0xD20E [0x00], cmd 0xD20F [0xE5], cmd 0xD210 [0x01], cmd 0xD211 [0x13],
    cmd 0xD212 [0x01], cmd 0xD213 [0x54], cmd 0xD214 [0x01], cmd 0xD215 [0x82], cmd 0xD216 [0x01]]"

definition lcd_ex_nt35510_2 :: "bus list" where
  "lcd_ex_nt35510_2 = concat [
    cmd 0xD217 [0xCA], cmd 0xD218 [0x02], cmd 0xD219 [0x00], cmd 0xD21A [0x02], cmd 0xD21B [0x01],
    cmd 0xD21C [0x02], cmd 0xD21D [0x34], cmd 0xD21E [0x02], cmd 0xD21F [0x67], cmd 0xD220 [0x02],
    cmd 0xD221 [0x84], cmd 0xD222 [0x02], cmd 0xD223 [0xA4], cmd 0xD224 [0x02], cmd 0xD225 [0xB7],
    cmd 0xD226 [0x02], cmd 0xD227 [0xCF], cmd 0xD228 [0x02], cmd 0xD229 [0xDE], cmd 0xD22A [0x02],
    cmd 0xD22B [0xF2], cmd 0xD22C [0x02], cmd 0xD22D [0xFE], cmd 0xD22E [0x03], cmd 0xD22F [0x10],
    cmd 0xD230 [0x03], cmd 0xD231 [0x33], cmd 0xD232 [0x03], cmd 0xD233 [0x6D], cmd 0xD300 [0x00],
    cmd 0xD301 [0x33], cmd 0xD302 [0x00], cmd 0xD303 [0x34], cmd 0xD304 [0x00], cmd 0xD305 [0x3A],
    cmd 0xD306 [0x00], cmd 0xD307 [0x4A], cmd 0xD308 [0x00], cmd 0xD309 [0x5C], cmd 0xD30A [0x00],
    cmd 0xD30B [0x81], cmd 0xD30C [0x00], cmd 0xD30D [0xA6], cmd 0xD30E [0x00], cmd 0xD30F [0xE5],
    cmd 0xD310 [0x01], cmd 0xD311 [0x13], cmd 0xD312 [0x01], cmd 0xD313 [0x54], cmd 0xD314 [0x01],
    cmd 0xD315 [0x82], cmd 0xD316 [0x01], cmd 0xD317 [0xCA], cmd 0xD318 [0x02], cmd 0xD319 [0x00],
    cmd 0xD31A [0x02], cmd 0xD31B [0x01], cmd 0xD31C [0x02], cmd 0xD31D [0x34], cmd 0xD31E [0x02],
    cmd 0xD31F [0x67], cmd 0xD320 [0x02], cmd 0xD321 [0x84], cmd 0xD322 [0x02], cmd 0xD323 [0xA4],
    cmd 0xD324 [0x02], cmd 0xD325 [0xB7], cmd 0xD326 [0x02], cmd 0xD327 [0xCF], cmd 0xD328 [0x02],
    cmd 0xD329 [0xDE], cmd 0xD32A [0x02], cmd 0xD32B [0xF2], cmd 0xD32C [0x02], cmd 0xD32D [0xFE],
    cmd 0xD32E [0x03], cmd 0xD32F [0x10], cmd 0xD330 [0x03], cmd 0xD331 [0x33], cmd 0xD332 [0x03],
    cmd 0xD333 [0x6D], cmd 0xD400 [0x00], cmd 0xD401 [0x33], cmd 0xD402 [0x00], cmd 0xD403 [0x34],
    cmd 0xD404 [0x00], cmd 0xD405 [0x3A], cmd 0xD406 [0x00], cmd 0xD407 [0x4A], cmd 0xD408 [0x00],
    cmd 0xD409 [0x5C], cmd 0xD40A [0x00], cmd 0xD40B [0x81], cmd 0xD40C [0x00], cmd 0xD40D [0xA6],
    cmd 0xD40E [0x00], cmd 0xD40F [0xE5], cmd 0xD410 [0x01], cmd 0xD411 [0x13], cmd 0xD412 [0x01],
    cmd 0xD413 [0x54], cmd 0xD414 [0x01], cmd 0xD415 [0x82], cmd 0xD416 [0x01], cmd 0xD417 [0xCA],
    cmd 0xD418 [0x02], cmd 0xD419 [0x00], cmd 0xD41A [0x02], cmd 0xD41B [0x01], cmd 0xD41C [0x02],
    cmd 0xD41D [0x34], cmd 0xD41E [0x02], cmd 0xD41F [0x67], cmd 0xD420 [0x02], cmd 0xD421 [0x84],
    cmd 0xD422 [0x02], cmd 0xD423 [0xA4], cmd 0xD424 [0x02], cmd 0xD425 [0xB7], cmd 0xD426 [0x02],
    cmd 0xD427 [0xCF], cmd 0xD428 [0x02], cmd 0xD429 [0xDE], cmd 0xD42A [0x02], cmd 0xD42B [0xF2],
    cmd 0xD42C [0x02], cmd 0xD42D [0xFE], cmd 0xD42E [0x03], cmd 0xD42F [0x10], cmd 0xD430 [0x03],
    cmd 0xD431 [0x33], cmd 0xD432 [0x03], cmd 0xD433 [0x6D]]"

definition lcd_ex_nt35510_3 :: "bus list" where
  "lcd_ex_nt35510_3 = concat [
    cmd 0xD500 [0x00], cmd 0xD501 [0x33], cmd 0xD502 [0x00], cmd 0xD503 [0x34], cmd 0xD504 [0x00],
    cmd 0xD505 [0x3A], cmd 0xD506 [0x00], cmd 0xD507 [0x4A], cmd 0xD508 [0x00], cmd 0xD509 [0x5C],
    cmd 0xD50A [0x00], cmd 0xD50B [0x81], cmd 0xD50C [0x00], cmd 0xD50D [0xA6], cmd 0xD50E [0x00],
    cmd 0xD50F [0xE5], cmd 0xD510 [0x01], cmd 0xD511 [0x13], cmd 0xD512 [0x01], cmd 0xD513 [0x54],
    cmd 0xD514 [0x01], cmd 0xD515 [0x82], cmd 0xD516 [0x01], cmd 0xD517 [0xCA], cmd 0xD518 [0x02],
    cmd 0xD519 [0x00], cmd 0xD51A [0x02], cmd 0xD51B [0x01], cmd 0xD51C [0x02], cmd 0xD51D [0x34],
    cmd 0xD51E [0x02], cmd 0xD51F [0x67], cmd 0xD520 [0x02], cmd 0xD521 [0x84], cmd 0xD522 [0x02],
    cmd 0xD523 [0xA4], cmd 0xD524 [0x02], cmd 0xD525 [0xB7], cmd 0xD526 [0x02], cmd 0xD527 [0xCF],
    cmd 0xD528 [0x02], cmd 0xD529 [0xDE], cmd 0xD52A [0x02], cmd 0xD52B [0xF2], cmd 0xD52C [0x02],
    cmd 0xD52D [0xFE], cmd 0xD52E [0x03], cmd 0xD52F [0x10], cmd 0xD530 [0x03], cmd 0xD531 [0x33],
    cmd 0xD532 [0x03], cmd 0xD533 [0x6D], cmd 0xD600 [0x00], cmd 0xD601 [0x33], cmd 0xD602 [0x00],
    cmd 0xD603 [0x34], cmd 0xD604 [0x00], cmd 0xD605 [0x3A], cmd 0xD606 [0x00], cmd 0xD607 [0x4A],
    cmd 0xD608 [0x00], cmd 0xD609 [0x5C], cmd 0xD60A [0x00], cmd 0xD60B [0x81], cmd 0xD60C [0x00],
    cmd 0xD60D [0xA6], cmd 0xD60E [0x00], cmd 0xD60F [0xE5], cmd 0xD610 [0x01], cmd 0xD611 [0x13],
    cmd 0xD612 [0x01], cmd 0xD613 [0x54], cmd 0xD614 [0x01], cmd 0xD615 [0x82], cmd 0xD616 [0x01],
    cmd 0xD617 [0xCA], cmd 0xD618 [0x02], cmd 0xD619 [0x00], cmd 0xD61A [0x02], cmd 0xD61B [0x01],
    cmd 0xD61C [0x02], cmd 0xD61D [0x34], cmd 0xD61E [0x02], cmd 0xD61F [0x67], cmd 0xD620 [0x02],
    cmd 0xD621 [0x84], cmd 0xD622 [0x02], cmd 0xD623 [0xA4], cmd 0xD624 [0x02], cmd 0xD625 [0xB7],
    cmd 0xD626 [0x02], cmd 0xD627 [0xCF], cmd 0xD628 [0x02], cmd 0xD629 [0xDE], cmd 0xD62A [0x02],
    cmd 0xD62B [0xF2], cmd 0xD62C [0x02], cmd 0xD62D [0xFE], cmd 0xD62E [0x03], cmd 0xD62F [0x10],
    cmd 0xD630 [0x03], cmd 0xD631 [0x33], cmd 0xD632 [0x03], cmd 0xD633 [0x6D], cmd 0xF000 [0x55],
    cmd 0xF001 [0xAA], cmd 0xF002 [0x52], cmd 0xF003 [0x08], cmd 0xF004 [0x00], cmd 0xB100 [0xCC],
    cmd 0xB101 [0x00], cmd 0xB600 [0x05], cmd 0xB700 [0x70], cmd 0xB701 [0x70], cmd 0xB800 [0x01],
    cmd 0xB801 [0x03], cmd 0xB802 [0x03], cmd 0xB803 [0x03], cmd 0xBC00 [0x02], cmd 0xBC01 [0x00],
    cmd 0xBC02 [0x00], cmd 0xC900 [0xD0], cmd 0xC901 [0x02], cmd 0xC902 [0x50], cmd 0xC903 [0x50],
    cmd 0xC904 [0x50]]"

definition lcd_ex_nt35510_4 :: "bus list" where
  "lcd_ex_nt35510_4 = concat [
    cmd 0x3500 [0x00], cmd 0x3A00 [0x55], cmd 0x1100 [], delay_us 120, cmd 0x2900 []]"

definition lcd_ex_nt35510_reginit :: "bus list" where
  "lcd_ex_nt35510_reginit = lcd_ex_nt35510_1 @ lcd_ex_nt35510_2 @ lcd_ex_nt35510_3 @ lcd_ex_nt35510_4"

definition lcd_ex_ili9806_reginit :: "bus list" where
  "lcd_ex_ili9806_reginit = concat [
    cmd 0xFF [0xFF, 0x98, 0x06],
    cmd 0xBC [0x01, 0x0F, 0x61, 0xFF, 0x01, 0x01, 0x0B, 0x10, 0x37, 0x63, 0xFF, 0xFF, 0x01, 0x01, 0x00, 0x00, 0xFF, 0x52, 0x01, 0x00, 0x40],
    cmd 0xBD [0x01, 0x23, 0x45, 0x67, 0x01, 0x23, 0x45, 0x67],
    cmd 0xBE [0x00, 0x01, 0xAB, 0x60, 0x22, 0x22, 0x22, 0x22, 0x22], cmd 0xC7 [0x36], cmd 0xED [0x7F, 0x0F],
    cmd 0xC0 [0x0F, 0x0B, 0x0A], cmd 0xFC [0x08], cmd 0xDF [0x00, 0x00, 0x00, 0x00, 0x00, 0x20],
    cmd 0xF3 [0x74], cmd 0xB4 [0x00, 0x00, 0x00], cmd 0xF7 [0x82], cmd 0xB1 [0x00, 0x13, 0x13],
    cmd 0xF2 [0x80, 0x04, 0x40, 0x28], cmd 0xC1 [0x17, 0x88, 0x88, 0x20],
    cmd 0xE0 [0x00, 0x0A, 0x12, 0x10, 0x0E, 0x20, 0xCC, 0x07, 0x06, 0x0B, 0x0E, 0x0F, 0x0D, 0x15, 0x10, 0x00],
    cmd 0xE1 [0x00, 0x0B, 0x13, 0x0D, 0x0E, 0x1B, 0x71, 0x06, 0x06, 0x0A, 0x0F, 0x0E, 0x0F, 0x15, 0x0C, 0x00],
    cmd 0x2A [0x00, 0x00, 0x01, 0xDF], cmd 0x2B [0x00, 0x00, 0x03, 0x1F], cmd 0x3A [0x55], cmd 0x36 [0x00],
    cmd 0x11 [], delay_ms 120, cmd 0x29 [], delay_ms 20, cmd 0x2C []]"

definition lcd_ex_ssd1963_reginit :: "bus list" where
  "lcd_ex_ssd1963_reginit = concat [
    cmd 0xE2 [0x1D, 0x02, 0x04], delay_us 100, cmd 0xE0 [0x01], delay_ms 10, cmd 0xE0 [0x03], delay_ms 12,
    cmd 0x01 [], delay_ms 10, cmd 0xE6 [0x2F, 0xFF, 0xFF],
    cmd 0xB0 [0x20, 0x00, 0x03, 0x31F, 0x01, 0x1DF, 0x00],
    cmd 0xB4 [0x04, 0x41F, 0x00, 0x2E, 0x00, 0x00, 0x00, 0x00],
    cmd 0xB6 [0x02, 0x20C, 0x00, 0x17, 0x15, 0x00, 0x00], cmd 0xF0 [0x03], cmd 0x29 [], cmd 0xD0 [0x00],
    cmd 0xBE [0x05, 0xFE, 0x01, 0x00, 0x00, 0x00], cmd 0xB8 [0x03, 0x01], cmd 0xBA [0x01]]"

end
