(* ===== verification/Lcd.thy ===== *)
theory Lcd
  imports Lcd_Tables
begin

text \<open>
  The display driver \<open>Drivers/BSP/LCD/lcd.c\<close> and the flush callback of the graphics library,
  \<open>lv_port_disp_template.c\<close>. A function of the driver is the list of bus accesses it makes, with the
  driver's variables \<open>lcddev\<close> as argument and, where it changes them, as result. What the panel answers to
  a read is an argument, as a function of all accesses before. The meaning of the accesses is given by
  a frame memory that follows the command set the driver uses.
\<close>

section \<open>The variables of the driver\<close>

record lcddev_t =
  width :: u16
  height :: u16
  panel_id :: u16
  dir :: u8
  wramcmd :: u16
  setxcmd :: u16
  setycmd :: u16

definition lcddev_zero :: lcddev_t where
  "lcddev_zero = \<lparr>width = 0, height = 0, panel_id = 0, dir = 0, wramcmd = 0, setxcmd = 0, setycmd = 0\<rparr>"

text \<open>The high and the low byte, as the driver sends coordinates.\<close>

definition hi :: "u16 \<Rightarrow> u16" where
  "hi v = drop_bit 8 v"

definition lo :: "u16 \<Rightarrow> u16" where
  "lo v = v AND 0xFF"

section \<open>Cursor, window and direction\<close>

definition lcd_write_reg :: "u16 \<Rightarrow> u16 \<Rightarrow> bus list" where
  "lcd_write_reg regno data = [Reg regno, Ram data]"

definition lcd_write_ram_prepare :: "lcddev_t \<Rightarrow> bus list" where
  "lcd_write_ram_prepare d = [Reg (wramcmd d)]"

definition lcd_display_on :: "lcddev_t \<Rightarrow> bus list" where
  "lcd_display_on d = [Reg (if panel_id d = 0x5510 then 0x2900 else 0x29)]"

definition lcd_display_off :: "lcddev_t \<Rightarrow> bus list" where
  "lcd_display_off d = [Reg (if panel_id d = 0x5510 then 0x2800 else 0x28)]"

definition lcd_set_cursor :: "lcddev_t \<Rightarrow> u16 \<Rightarrow> u16 \<Rightarrow> bus list" where
  "lcd_set_cursor d x y =
     (if panel_id d = 0x1963
      then (if dir d = 0
            then (let x = width d - 1 - x in cmd (setxcmd d) [0, 0, hi x, lo x])
            else cmd (setxcmd d) [hi x, lo x, hi (width d - 1), lo (width d - 1)])
           @ cmd (setycmd d) [hi y, lo y, hi (height d - 1), lo (height d - 1)]
      else if panel_id d = 0x5510
      then lcd_write_reg (setxcmd d) (hi x) @ lcd_write_reg (setxcmd d + 1) (lo x)
           @ lcd_write_reg (setycmd d) (hi y) @ lcd_write_reg (setycmd d + 1) (lo y)
      else cmd (setxcmd d) [hi x, lo x] @ cmd (setycmd d) [hi y, lo y])"

text \<open>The window from column \<open>a\<close> to \<open>b\<close> and row \<open>s\<close> to \<open>e\<close>, as parameter registers of their own or as parameters in
  sequence.\<close>

definition window_regs :: "lcddev_t \<Rightarrow> u16 \<Rightarrow> u16 \<Rightarrow> u16 \<Rightarrow> u16 \<Rightarrow> bus list" where
  "window_regs d a b s e =
     lcd_write_reg (setxcmd d) (hi a) @ lcd_write_reg (setxcmd d + 1) (lo a)
     @ lcd_write_reg (setxcmd d + 2) (hi b) @ lcd_write_reg (setxcmd d + 3) (lo b)
     @ lcd_write_reg (setycmd d) (hi s) @ lcd_write_reg (setycmd d + 1) (lo s)
     @ lcd_write_reg (setycmd d + 2) (hi e) @ lcd_write_reg (setycmd d + 3) (lo e)"

definition window_params :: "lcddev_t \<Rightarrow> u16 \<Rightarrow> u16 \<Rightarrow> u16 \<Rightarrow> u16 \<Rightarrow> bus list" where
  "window_params d a b s e =
     cmd (setxcmd d) [hi a, lo a, hi b, lo b] @ cmd (setycmd d) [hi s, lo s, hi e, lo e]"

definition lcd_set_window :: "lcddev_t \<Rightarrow> u16 \<Rightarrow> u16 \<Rightarrow> u16 \<Rightarrow> u16 \<Rightarrow> bus list" where
  "lcd_set_window d sx sy w h =
     (let twidth = sx + w - 1; theight = sy + h - 1
      in if panel_id d = 0x1963 \<and> dir d \<noteq> 1
         then (let sx = width d - w - sx; h = sy + h - 1 in window_params d sx (sx + w - 1) sy h)
         else if panel_id d = 0x5510 then window_regs d sx twidth sy theight
         else window_params d sx twidth sy theight)"

text \<open>The switch that turns a scan direction by a quarter.\<close>

definition turn_dir :: "u8 \<Rightarrow> u8" where
  "turn_dir s = (if s = 0 then 6 else if s = 1 then 7 else if s = 2 then 4 else if s = 3 then 5
     else if s = 4 then 1 else if s = 5 then 0 else if s = 6 then 3 else if s = 7 then 2 else s)"

definition scan_bits :: "u8 \<Rightarrow> u16" where
  "scan_bits s = (if s = 1 then 0x80 else if s = 2 then 0x40 else if s = 3 then 0xC0
     else if s = 4 then 0x20 else if s = 5 then 0x60 else if s = 6 then 0xA0 else if s = 7 then 0xE0 else 0)"

definition lcd_scan_dir :: "u8 \<Rightarrow> lcddev_t \<Rightarrow> lcddev_t \<times> bus list" where
  "lcd_scan_dir s d =
     (let s = (if dir d = 1 \<and> panel_id d \<noteq> 0x1963 \<or> dir d = 0 \<and> panel_id d = 0x1963 then turn_dir s else s);
          dirreg = (if panel_id d = 0x5510 then 0x3600 else 0x36);
          regval = scan_bits s OR (if panel_id d = 0x9341 \<or> panel_id d = 0x7789 \<or> panel_id d = 0x7796 then 0x08 else 0);
          swap = d\<lparr>width := height d, height := width d\<rparr>;
          d' = (if panel_id d = 0x1963 then d
                else if regval AND 0x20 \<noteq> 0 then (if width d < height d then swap else d)
                else (if width d > height d then swap else d))
      in (d', lcd_write_reg dirreg regval
              @ (if panel_id d' = 0x5510 then window_regs d' 0 (width d' - 1) 0 (height d' - 1)
                 else window_params d' 0 (width d' - 1) 0 (height d' - 1))))"

text \<open>The variables \<open>lcd_display_dir\<close> sets before it sets the scan direction.\<close>

definition dir_vars :: "u8 \<Rightarrow> lcddev_t \<Rightarrow> lcddev_t" where
  "dir_vars v d =
     (let d = d\<lparr>dir := v\<rparr>
      in if v = 0
         then (let d = d\<lparr>width := 240, height := 320\<rparr>;
                   d = (if panel_id d = 0x5510
                        then d\<lparr>wramcmd := 0x2C00, setxcmd := 0x2A00, setycmd := 0x2B00, width := 480, height := 800\<rparr>
                        else if panel_id d = 0x1963
                        then d\<lparr>wramcmd := 0x2C, setxcmd := 0x2B, setycmd := 0x2A, width := 480, height := 800\<rparr>
                        else d\<lparr>wramcmd := 0x2C, setxcmd := 0x2A, setycmd := 0x2B\<rparr>);
                   d = (if panel_id d = 0x5310 \<or> panel_id d = 0x7796 then d\<lparr>width := 320, height := 480\<rparr> else d)
               in if panel_id d = 0x9806 then d\<lparr>width := 480, height := 800\<rparr> else d)
         else (let d = d\<lparr>width := 320, height := 240\<rparr>;
                   d = (if panel_id d = 0x5510
                        then d\<lparr>wramcmd := 0x2C00, setxcmd := 0x2A00, setycmd := 0x2B00, width := 800, height := 480\<rparr>
                        else if panel_id d = 0x1963 \<or> panel_id d = 0x9806
                        then d\<lparr>wramcmd := 0x2C, setxcmd := 0x2A, setycmd := 0x2B, width := 800, height := 480\<rparr>
                        else d\<lparr>wramcmd := 0x2C, setxcmd := 0x2A, setycmd := 0x2B\<rparr>)
               in if panel_id d = 0x5310 \<or> panel_id d = 0x7796 then d\<lparr>width := 480, height := 320\<rparr> else d))"

definition lcd_display_dir :: "u8 \<Rightarrow> lcddev_t \<Rightarrow> lcddev_t \<times> bus list" where
  "lcd_display_dir v d = lcd_scan_dir 0 (dir_vars v d)"

section \<open>Points and areas\<close>

definition lcd_draw_point :: "lcddev_t \<Rightarrow> u16 \<Rightarrow> u16 \<Rightarrow> u32 \<Rightarrow> bus list" where
  "lcd_draw_point d x y color = lcd_set_cursor d x y @ lcd_write_ram_prepare d @ [Ram (ucast color)]"

definition lcd_clear :: "lcddev_t \<Rightarrow> u16 \<Rightarrow> bus list" where
  "lcd_clear d color = lcd_set_cursor d 0 0 @ lcd_write_ram_prepare d
     @ replicate (unat (ucast (width d) * ucast (height d) :: u32)) (Ram color)"

text \<open>The loop over the rows has a 16-bit counter: up to row 65535 it would not end.\<close>

partial_function (option) fill_rows :: "lcddev_t \<Rightarrow> u16 \<Rightarrow> u16 \<Rightarrow> u16 \<Rightarrow> u32 \<Rightarrow> u16 \<Rightarrow> bus list option" where
  "fill_rows d sx xlen ey color i =
     (if i \<le> ey
      then Option.bind (fill_rows d sx xlen ey color (i + 1))
             (\<lambda>rest. Some (lcd_set_cursor d sx i @ lcd_write_ram_prepare d
                            @ replicate (unat xlen) (Ram (ucast color)) @ rest))
      else Some [])"

definition lcd_fill :: "lcddev_t \<Rightarrow> u16 \<Rightarrow> u16 \<Rightarrow> u16 \<Rightarrow> u16 \<Rightarrow> u32 \<Rightarrow> bus list option" where
  "lcd_fill d sx sy ex ey color = fill_rows d sx (ex - sx + 1) ey color sy"

definition lcd_color_fill :: "lcddev_t \<Rightarrow> u16 \<Rightarrow> u16 \<Rightarrow> u16 \<Rightarrow> u16 \<Rightarrow> u16 list \<Rightarrow> bus list" where
  "lcd_color_fill d sx sy ex ey color =
     (let w = ex - sx + 1; h = ey - sy + 1
      in concat (map (\<lambda>i. lcd_set_cursor d sx (sy + of_nat i) @ lcd_write_ram_prepare d
                          @ map (\<lambda>j. Ram (color ! (i * unat w + j))) [0..<unat w]) [0..<unat h]))"

definition lcd_draw_hline :: "lcddev_t \<Rightarrow> u16 \<Rightarrow> u16 \<Rightarrow> u16 \<Rightarrow> u16 \<Rightarrow> bus list option" where
  "lcd_draw_hline d x y len color =
     (if len = 0 \<or> x > width d \<or> y > height d then Some []
      else lcd_fill d x y (x + len - 1) y (ucast color))"

section \<open>Reading and set-up\<close>

text \<open>The accesses so far, and what the panel answers to a read after them.\<close>

type_synonym answers = "bus list \<Rightarrow> u16"

definition lcd_rd_data :: "answers \<Rightarrow> bus list \<Rightarrow> u16 \<times> bus list" where
  "lcd_rd_data ans log = (ans log, log @ [Rd])"

definition lcd_read_point :: "answers \<Rightarrow> lcddev_t \<Rightarrow> u16 \<Rightarrow> u16 \<Rightarrow> bus list \<Rightarrow> u32 \<times> bus list" where
  "lcd_read_point ans d x y log =
     (if x \<ge> width d \<or> y \<ge> height d then (0, log)
      else (let log = log @ lcd_set_cursor d x y @ [Reg (if panel_id d = 0x5510 then 0x2E00 else 0x2E)];
                (r, log) = lcd_rd_data ans log
            in if panel_id d = 0x1963 then (ucast r, log)
               else (let (r, log) = lcd_rd_data ans log
                     in if panel_id d = 0x7796 then (ucast r, log)
                        else (let (b, log) = lcd_rd_data ans log; g = push_bit 8 (r AND 0xFF)
                              in (ucast (push_bit 11 (drop_bit 11 r) OR push_bit 5 (drop_bit 10 g) OR drop_bit 11 b), log)))))"

text \<open>The last two of \<open>n + 2\<close> answers to a command, as one number.\<close>

primrec skip_reads :: "answers \<Rightarrow> nat \<Rightarrow> bus list \<Rightarrow> bus list" where
  "skip_reads ans 0 log = log"
| "skip_reads ans (Suc n) log = skip_reads ans n (snd (lcd_rd_data ans log))"

definition read_id :: "answers \<Rightarrow> u16 \<Rightarrow> nat \<Rightarrow> bus list \<Rightarrow> u16 \<times> bus list" where
  "read_id ans regno n log =
     (let log = skip_reads ans n (log @ [Reg regno]);
          (a, log) = lcd_rd_data ans log;
          (b, log) = lcd_rd_data ans log
      in (push_bit 8 a OR b, log))"

definition unlock_5510 :: "bus list" where
  "unlock_5510 = lcd_write_reg 0xF000 0x55 @ lcd_write_reg 0xF001 0xAA @ lcd_write_reg 0xF002 0x52
     @ lcd_write_reg 0xF003 0x08 @ lcd_write_reg 0xF004 0x01"

text \<open>The search for the controller.\<close>

definition identify :: "answers \<Rightarrow> bus list \<Rightarrow> u16 \<times> bus list" where
  "identify ans log =
     (let (i, log) = read_id ans 0xD3 2 log
      in if i = 0x9341 then (i, log)
         else (let (i, log) = read_id ans 0x04 2 log; i = (if i = 0x8552 then 0x7789 else i)
          in if i = 0x7789 then (i, log)
         else (let (i, log) = read_id ans 0xD4 2 log
          in if i = 0x5310 then (i, log)
         else (let (i, log) = read_id ans 0xD3 2 log
          in if i = 0x7796 then (i, log)
         else (let (a, log) = lcd_rd_data ans (log @ unlock_5510 @ [Reg 0xC500]);
                   (b, log) = lcd_rd_data ans (log @ [Reg 0xC501]);
                   i = push_bit 8 a OR b;
                   log = log @ delay_ms 5
          in if i = 0x5510 then (i, log)
         else (let (i, log) = read_id ans 0xD3 2 log
          in if i = 0x9806 then (i, log)
         else (let (i, log) = read_id ans 0xA1 1 log
          in (if i = 0x5761 then 0x1963 else i, log))))))))"

text \<open>\<open>pwm * 2.55\<close> in double precision, cut to an integer: the constant is \<open>2871044762448691 / 2 ^ 50\<close>, and the
  product is rounded to 53 bits.\<close>

fun excess_bits :: "nat \<Rightarrow> nat" where
  "excess_bits p = (if p < 2 ^ 53 then 0 else Suc (excess_bits (p div 2)))"

declare excess_bits.simps [simp del]

definition round53 :: "nat \<Rightarrow> nat" where
  "round53 p = (let e = excess_bits p; q = p div 2 ^ e; r = p mod 2 ^ e
     in (if 2 * r > 2 ^ e \<or> 2 * r = 2 ^ e \<and> e > 0 \<and> odd q then q + 1 else q) * 2 ^ e)"

definition lcd_ssd_backlight_set :: "u8 \<Rightarrow> bus list" where
  "lcd_ssd_backlight_set pwm =
     cmd 0xBE [0x05, of_nat (round53 (unat pwm * 2871044762448691) div 2 ^ 50), 0x01, 0xFF, 0x00, 0x00]"

definition panel_reginit :: "u16 \<Rightarrow> bus list" where
  "panel_reginit i =
     (if i = 0x7789 then lcd_ex_st7789_reginit
      else if i = 0x9341 then lcd_ex_ili9341_reginit
      else if i = 0x5310 then lcd_ex_nt35310_reginit
      else if i = 0x7796 then lcd_ex_st7796_reginit
      else if i = 0x5510 then lcd_ex_nt35510_reginit
      else if i = 0x9806 then lcd_ex_ili9806_reginit
      else if i = 0x1963 then lcd_ex_ssd1963_reginit @ lcd_ssd_backlight_set 100
      else [])"

definition lcd_init :: "answers \<Rightarrow> lcddev_t \<times> bus list" where
  "lcd_init ans =
     (let (i, log) = identify ans (delay_ms 50);
          (d, dlog) = lcd_display_dir 0 (lcddev_zero\<lparr>panel_id := i\<rparr>)
      in (d, log @ panel_reginit i @ dlog @ lcd_clear d 0xFFFF))"

section \<open>The graphics library's display\<close>

definition lcd_draw_fast_rgb_color :: "lcddev_t \<Rightarrow> u16 \<Rightarrow> u16 \<Rightarrow> u16 \<Rightarrow> u16 \<Rightarrow> u16 list \<Rightarrow> bus list" where
  "lcd_draw_fast_rgb_color d sx sy ex ey color =
     (let w = ex - sx + 1; h = ey - sy + 1; draw_size = ucast w * ucast h :: u32
      in lcd_set_window d sx sy w h @ lcd_write_ram_prepare d
         @ map (\<lambda>i. Ram (color ! i)) [0..<unat draw_size])"

text \<open>An area of \<open>lv_area_t\<close> has signed 16-bit corners; passed on they are the same 16 bits.\<close>

record lv_area =
  area_x1 :: u16
  area_y1 :: u16
  area_x2 :: u16
  area_y2 :: u16

definition disp_init :: "answers \<Rightarrow> lcddev_t \<times> bus list" where
  "disp_init ans = (let (d, log) = lcd_init ans; (d, log') = lcd_display_dir 1 d in (d, log @ log'))"

definition disp_flush :: "lcddev_t \<Rightarrow> lv_area \<Rightarrow> u16 list \<Rightarrow> bus list" where
  "disp_flush d area color_p = lcd_draw_fast_rgb_color d (area_x1 area) (area_y1 area) (area_x2 area) (area_y2 area) color_p"


section \<open>The frame memory\<close>

text \<open>What the accesses mean by the command set: a command number selects a command, the data written next
  are its parameters, and \<open>0x2A\<close>, \<open>0x2B\<close> set the columns and rows of the window. After \<open>0x2C\<close> the data are
  pixels, from the corner of the window on, row by row. With \<open>wide\<close> numbers (NT35510) the low byte of the
  number is the number of the parameter.\<close>

record frame =
  op :: u16
  idx :: nat
  param :: "u16 \<times> nat \<Rightarrow> u16"
  pos :: "nat \<times> nat"
  pixels :: "nat \<times> nat \<Rightarrow> u16"

definition coord :: "frame \<Rightarrow> u16 \<Rightarrow> nat \<Rightarrow> nat" where
  "coord f c n = unat (param f (c, n)) * 256 + unat (param f (c, Suc n))"

definition advance :: "frame \<Rightarrow> nat \<times> nat" where
  "advance f = (let (x, y) = pos f
     in if x < coord f 0x2A 2 then (Suc x, y)
        else (coord f 0x2A 0, if y < coord f 0x2B 2 then Suc y else coord f 0x2B 0))"

fun bus_step :: "bool \<Rightarrow> bus \<Rightarrow> frame \<Rightarrow> frame" where
  "bus_step wide (Reg r) f =
     (let c = (if wide then hi r else r)
      in f\<lparr>op := c, idx := (if wide then unat (lo r) else 0),
           pos := (if c = 0x2C then (coord f 0x2A 0, coord f 0x2B 0) else pos f)\<rparr>)"
| "bus_step wide (Ram v) f =
     (if op f = 0x2C then f\<lparr>pixels := (pixels f)(pos f := v), pos := advance f\<rparr>
      else f\<lparr>param := (param f)((op f, idx f) := v), idx := (if wide then idx f else Suc (idx f))\<rparr>)"
| "bus_step wide Rd f = f"
| "bus_step wide (Wait n) f = f"

definition run_bus :: "bool \<Rightarrow> bus list \<Rightarrow> frame \<Rightarrow> frame" where
  "run_bus wide = fold (bus_step wide)"

lemma run_bus_simps [simp]:
  "run_bus wide [] f = f"
  "run_bus wide (b # bs) f = run_bus wide bs (bus_step wide b f)"
  "run_bus wide (bs @ cs) f = run_bus wide cs (run_bus wide bs f)"
  by (simp_all add: run_bus_def)

text \<open>An area filled with colours, row by row.\<close>

definition paint :: "lv_area \<Rightarrow> u16 list \<Rightarrow> (nat \<times> nat \<Rightarrow> u16) \<Rightarrow> nat \<times> nat \<Rightarrow> u16" where
  "paint a color px = (\<lambda>(x, y).
     if unat (area_x1 a) \<le> x \<and> x \<le> unat (area_x2 a) \<and> unat (area_y1 a) \<le> y \<and> y \<le> unat (area_y2 a)
     then color ! ((y - unat (area_y1 a)) * (unat (area_x2 a) - unat (area_x1 a) + 1) + (x - unat (area_x1 a)))
     else px (x, y))"

definition on_screen :: "lcddev_t \<Rightarrow> lv_area \<times> u16 list \<Rightarrow> bool" where
  "on_screen d = (\<lambda>(a, color). area_x1 a \<le> area_x2 a \<and> area_x2 a < width d \<and> area_y1 a \<le> area_y2 a \<and> area_y2 a < height d \<and>
     (unat (area_x2 a) - unat (area_x1 a) + 1) * (unat (area_y2 a) - unat (area_y1 a) + 1) \<le> length color)"

definition wide_panel :: "lcddev_t \<Rightarrow> bool" where
  "wide_panel d \<longleftrightarrow> panel_id d = 0x5510"

text \<open>The variables as \<open>disp_init\<close> leaves them.\<close>

definition landscape :: "lcddev_t \<Rightarrow> bool" where
  "landscape d \<longleftrightarrow> dir d = 1 \<and>
     (if wide_panel d then wramcmd d = 0x2C00 \<and> setxcmd d = 0x2A00 \<and> setycmd d = 0x2B00
      else wramcmd d = 0x2C \<and> setxcmd d = 0x2A \<and> setycmd d = 0x2B) \<and>
     (width d, height d) =
       (if panel_id d \<in> {0x5510, 0x9806, 0x1963} then (800, 480)
        else if panel_id d \<in> {0x5310, 0x7796} then (480, 320) else (320, 240))"

lemma scan_dir_landscape:
  assumes "dir d = 1" "height d \<le> width d"
  shows "fst (lcd_scan_dir 0 d) = d"
proof (cases "panel_id d = 0x1963")
  case True
  then show ?thesis by (simp add: lcd_scan_dir_def Let_def)
next
  case False
  have bits: "scan_bits (turn_dir 0) = 0xA0" by (simp add: turn_dir_def scan_bits_def)
  show ?thesis using assms False by (auto simp: lcd_scan_dir_def bits Let_def)
qed

lemma dir_vars_landscape: "landscape (dir_vars 1 d)"
proof -
  consider "panel_id d = 0x5510" | "panel_id d = 0x1963" | "panel_id d = 0x9806" | "panel_id d = 0x5310"
    | "panel_id d = 0x7796" | "panel_id d \<notin> {0x5510, 0x1963, 0x9806, 0x5310, 0x7796}" by auto
  then show ?thesis
    by cases (simp_all add: dir_vars_def landscape_def wide_panel_def)
qed

lemma landscape_scan: "landscape d \<Longrightarrow> fst (lcd_scan_dir 0 d) = d"
  by (rule scan_dir_landscape) (auto simp: landscape_def split: if_splits)

lemma display_dir_landscape: "landscape (fst (lcd_display_dir 1 d))"
  by (simp add: lcd_display_dir_def landscape_scan dir_vars_landscape)

lemma disp_init_landscape: "landscape (fst (disp_init ans))"
  using display_dir_landscape [of "fst (lcd_init ans)"] by (auto simp: disp_init_def split: prod.split)

lemma hi_lo: "unat (hi v) * 256 + unat (lo v) = unat v"
proof -
  have "unat (hi v) = unat v div 256"
    by (simp add: hi_def unat_drop_bit_eq) (simp add: drop_bit_eq_div)
  moreover have "unat (lo v) = unat v mod 256"
  proof -
    have "(0xFF::u16) = mask 8" by (simp add: mask_eq_exp_minus_1)
    then have "lo v = take_bit 8 v" by (simp only: lo_def take_bit_eq_mask)
    then show ?thesis by (simp add: unsigned_take_bit_eq) (simp add: take_bit_eq_mod)
  qed
  ultimately show ?thesis by simp
qed

lemma command_numbers [simp]:
  "hi 0x2A00 = 0x2A" "hi 0x2A01 = 0x2A" "hi 0x2A02 = 0x2A" "hi 0x2A03 = 0x2A"
  "hi 0x2B00 = 0x2B" "hi 0x2B01 = 0x2B" "hi 0x2B02 = 0x2B" "hi 0x2B03 = 0x2B" "hi 0x2C00 = 0x2C"
  by (simp_all add: hi_def)

lemma parameter_numbers [simp]:
  "unat (lo 0x2A00) = 0" "unat (lo 0x2A01) = Suc 0" "unat (lo 0x2A02) = Suc (Suc 0)"
  "unat (lo 0x2A03) = Suc (Suc (Suc 0))"
  "unat (lo 0x2B00) = 0" "unat (lo 0x2B01) = Suc 0" "unat (lo 0x2B02) = Suc (Suc 0)"
  "unat (lo 0x2B03) = Suc (Suc (Suc 0))"
  by (simp_all add: lo_def)

lemma coord_start: "coord f c 0 = unat (param f (c, 0)) * 256 + unat (param f (c, Suc 0))"
  by (simp add: coord_def)

lemma coord_end: "coord f c 2 = unat (param f (c, Suc (Suc 0))) * 256 + unat (param f (c, Suc (Suc (Suc 0))))"
  by (simp add: coord_def numeral_2_eq_2)

text \<open>The frame memory has the window, and no pixel has changed.\<close>

definition has_window :: "u16 \<Rightarrow> u16 \<Rightarrow> u16 \<Rightarrow> u16 \<Rightarrow> frame \<Rightarrow> bool" where
  "has_window a b s e f \<longleftrightarrow> coord f 0x2A 0 = unat a \<and> coord f 0x2A 2 = unat b \<and>
     coord f 0x2B 0 = unat s \<and> coord f 0x2B 2 = unat e"

lemma window_regs_effect:
  assumes "setxcmd d = 0x2A00" "setycmd d = 0x2B00"
  shows "has_window a b s e (run_bus True (window_regs d a b s e) f)
         \<and> pixels (run_bus True (window_regs d a b s e) f) = pixels f"
  by (simp add: window_regs_def lcd_write_reg_def assms has_window_def coord_start coord_end hi_lo Let_def)

lemma window_params_effect:
  assumes "setxcmd d = 0x2A" "setycmd d = 0x2B"
  shows "has_window a b s e (run_bus False (window_params d a b s e) f)
         \<and> pixels (run_bus False (window_params d a b s e) f) = pixels f"
  by (simp add: window_params_def cmd_def assms has_window_def coord_start coord_end hi_lo Let_def)

lemma set_window_effect:
  assumes "landscape d"
  shows "has_window sx (sx + w - 1) sy (sy + h - 1) (run_bus (wide_panel d) (lcd_set_window d sx sy w h) f)
         \<and> pixels (run_bus (wide_panel d) (lcd_set_window d sx sy w h) f) = pixels f"
  using assms window_regs_effect [of d sx "sx + w - 1" sy "sy + h - 1" f]
    window_params_effect [of d sx "sx + w - 1" sy "sy + h - 1" f]
  by (cases "panel_id d = 0x5510") (simp_all add: lcd_set_window_def landscape_def wide_panel_def Let_def)

text \<open>Pixels of a window from \<open>(xa, ys)\<close> to \<open>(xb, ye)\<close> in the order they are written.\<close>

definition in_window :: "nat \<Rightarrow> nat \<Rightarrow> nat \<Rightarrow> nat \<Rightarrow> nat \<times> nat \<Rightarrow> bool" where
  "in_window xa xb ys ye = (\<lambda>(x, y). xa \<le> x \<and> x \<le> xb \<and> ys \<le> y \<and> y \<le> ye)"

definition pixel_no :: "nat \<Rightarrow> nat \<Rightarrow> nat \<Rightarrow> nat \<times> nat \<Rightarrow> nat" where
  "pixel_no w xa ys = (\<lambda>(x, y). (y - ys) * w + (x - xa))"

lemma pixel_no_eq:
  assumes "w = Suc (xb - xa)" "in_window xa xb ys ye (x, y)"
  shows "pixel_no w xa ys (x, y) = n \<longleftrightarrow> x = xa + n mod w \<and> y = ys + n div w"
proof -
  define i j where "i = x - xa" and "j = y - ys"
  have x: "x = xa + i" and y: "y = ys + j" and "i < w" using assms by (auto simp: in_window_def i_def j_def)
  then have "(j * w + i) mod w = i" "(j * w + i) div w = j" by simp_all
  moreover have "n = n div w * w + n mod w" by simp
  moreover have "pixel_no w xa ys (x, y) = j * w + i" by (simp add: pixel_no_def x y)
  ultimately show ?thesis unfolding x y by (metis add_left_cancel)
qed

definition at_pixel :: "nat \<Rightarrow> nat \<Rightarrow> nat \<Rightarrow> nat \<Rightarrow> nat \<Rightarrow> frame \<Rightarrow> bool" where
  "at_pixel xa xb ys ye n f \<longleftrightarrow> coord f 0x2A 0 = xa \<and> coord f 0x2A 2 = xb \<and> coord f 0x2B 0 = ys \<and> coord f 0x2B 2 = ye
     \<and> op f = 0x2C
     \<and> (n < Suc (xb - xa) * Suc (ye - ys) \<longrightarrow> pos f = (xa + n mod Suc (xb - xa), ys + n div Suc (xb - xa)))"

lemma coord_update [simp]:
  "coord (f\<lparr>pixels := px, pos := q\<rparr>) c n = coord f c n"
  by (simp add: coord_def)

lemma at_pixel_step:
  assumes at: "at_pixel xa xb ys ye n f" and n: "n < Suc (xb - xa) * Suc (ye - ys)" and "xa \<le> xb" "ys \<le> ye"
  shows "at_pixel xa xb ys ye (Suc n) (bus_step wide (Ram v) f)"
proof -
  define w where "w = Suc (xb - xa)"
  have pos: "pos f = (xa + n mod w, ys + n div w)" using at n by (simp add: at_pixel_def w_def)
  have next_pos: "advance f = (xa + Suc n mod w, ys + Suc n div w)" if more: "Suc n < w * Suc (ye - ys)"
  proof (cases "Suc (n mod w) = w")
    case True
    then have "Suc n mod w = 0" "Suc n div w = Suc (n div w)" by (simp_all add: mod_Suc div_Suc)
    moreover have "Suc n div w < Suc (ye - ys)" using more by (simp add: less_mult_imp_div_less mult.commute)
    moreover have "xa + n mod w = xb" using True \<open>xa \<le> xb\<close> by (simp add: w_def)
    ultimately show ?thesis using at pos \<open>ys \<le> ye\<close> by (simp add: advance_def at_pixel_def)
  next
    case False
    then have "Suc n mod w = Suc (n mod w)" "Suc n div w = n div w" by (simp_all add: mod_Suc div_Suc)
    moreover have "n mod w < w" by (simp add: w_def)
    with False have "n mod w < xb - xa" unfolding w_def by linarith
    then have "xa + n mod w < xb" by simp
    ultimately show ?thesis using at pos by (simp add: advance_def at_pixel_def)
  qed
  show ?thesis using at next_pos by (simp add: at_pixel_def w_def)
qed

lemma write_pixels:
  assumes "at_pixel xa xb ys ye 0 f" "xa \<le> xb" "ys \<le> ye" "n \<le> Suc (xb - xa) * Suc (ye - ys)"
  shows "at_pixel xa xb ys ye n (run_bus wide (map (\<lambda>i. Ram (c ! i)) [0..<n]) f)
    \<and> pixels (run_bus wide (map (\<lambda>i. Ram (c ! i)) [0..<n]) f)
      = (\<lambda>p. if in_window xa xb ys ye p \<and> pixel_no (Suc (xb - xa)) xa ys p < n
             then c ! pixel_no (Suc (xb - xa)) xa ys p else pixels f p)"
  using assms(4)
proof (induction n)
  case 0
  then show ?case using assms(1) by simp
next
  case (Suc n)
  define w g where "w = Suc (xb - xa)" and "g = run_bus wide (map (\<lambda>i. Ram (c ! i)) [0..<n]) f"
  have n: "n < Suc (xb - xa) * Suc (ye - ys)" using Suc.prems by simp
  have at: "at_pixel xa xb ys ye n g" using Suc by (simp add: g_def)
  have run: "run_bus wide (map (\<lambda>i. Ram (c ! i)) [0..<Suc n]) f = bus_step wide (Ram (c ! n)) g"
    by (simp add: g_def)
  have px: "pixels g = (\<lambda>p. if in_window xa xb ys ye p \<and> pixel_no w xa ys p < n
      then c ! pixel_no w xa ys p else pixels f p)" using Suc unfolding g_def w_def by simp
  have pos: "pos g = (xa + n mod w, ys + n div w)" using at n by (simp add: at_pixel_def w_def)
  have "n div w < Suc (ye - ys)" using n by (simp add: w_def less_mult_imp_div_less mult.commute)
  then have "n div w \<le> ye - ys" by simp
  moreover have "n mod w \<le> xb - xa" unfolding w_def by (simp add: less_Suc_eq_le [symmetric])
  ultimately have inw: "in_window xa xb ys ye (pos g)" using assms(2,3) unfolding pos in_window_def prod.case by linarith
  have no: "in_window xa xb ys ye p \<Longrightarrow> pixel_no w xa ys p = n \<longleftrightarrow> p = pos g" for p
    using pixel_no_eq [of w xb xa ys ye "fst p" "snd p" n] by (cases p) (simp add: pos w_def)
  have "(pixels g)(pos g := c ! n) = (\<lambda>p. if in_window xa xb ys ye p \<and> pixel_no w xa ys p < Suc n
      then c ! pixel_no w xa ys p else pixels f p)"
  proof
    fix p
    have "pixel_no w xa ys (pos g) = n" using no [OF inw] by simp
    then show "((pixels g)(pos g := c ! n)) p = (if in_window xa xb ys ye p \<and> pixel_no w xa ys p < Suc n
        then c ! pixel_no w xa ys p else pixels f p)"
      using no [of p] inw by (cases "p = pos g") (auto simp: px less_Suc_eq)
  qed
  moreover have "op g = 0x2C" using at by (simp add: at_pixel_def)
  ultimately have "pixels (bus_step wide (Ram (c ! n)) g) = (\<lambda>p. if in_window xa xb ys ye p \<and> pixel_no w xa ys p < Suc n
      then c ! pixel_no w xa ys p else pixels f p)" by simp
  then show ?case using at_pixel_step [OF at n assms(2,3), of wide "c ! n"] unfolding run w_def by blast
qed

lemma window_size: "p \<le> q \<Longrightarrow> unat (q - p + 1 :: u16) = (unat q - unat p + 1) mod 65536"
  by (simp add: unat_word_ariths unat_sub)

lemma flush_paints:
  assumes d: "landscape d" and on: "on_screen d (a, c)"
  shows "pixels (run_bus (wide_panel d) (disp_flush d a c) f) = paint a c (pixels f)"
proof -
  define w h where "w = area_x2 a - area_x1 a + 1" and "h = area_y2 a - area_y1 a + 1"
  have o: "area_x1 a \<le> area_x2 a" "area_y1 a \<le> area_y2 a" "area_x2 a < width d" "area_y2 a < height d" using on by (simp_all add: on_screen_def)
  have "width d \<le> 800" "height d \<le> 480" using d by (auto simp: landscape_def split: if_splits)
  with o have "area_x2 a < 800" "area_y2 a < 480" by auto
  then have small: "unat (area_x2 a) < 800" "unat (area_y2 a) < 480" by (simp_all add: word_less_nat_alt)
  have le: "unat (area_x1 a) \<le> unat (area_x2 a)" "unat (area_y1 a) \<le> unat (area_y2 a)" using o by (simp_all add: word_le_nat_alt)
  have w: "unat w = Suc (unat (area_x2 a) - unat (area_x1 a))" and h: "unat h = Suc (unat (area_y2 a) - unat (area_y1 a))"
    using window_size [OF o(1)] window_size [OF o(2)] small by (simp_all add: w_def h_def)
  have "unat w \<le> 800" "unat h \<le> 480" using small by (simp_all add: w h)
  then have "unat w * unat h \<le> 800 * 480" by (rule mult_le_mono)
  then have "unat w * unat h < 2 ^ 32" by simp
  moreover have "unat (ucast w :: u32) = unat w" "unat (ucast h :: u32) = unat h" 
    using \<open>unat w \<le> 800\<close> \<open>unat h \<le> 480\<close> by (simp_all add: unsigned_ucast_eq take_bit_nat_eq_self)
  ultimately have size: "unat (ucast w * ucast h :: u32) = unat w * unat h" by (simp add: unat_word_ariths)
  define g where "g = run_bus (wide_panel d) (lcd_write_ram_prepare d) (run_bus (wide_panel d) (lcd_set_window d (area_x1 a) (area_y1 a) w h) f)"
  have win: "has_window (area_x1 a) (area_x2 a) (area_y1 a) (area_y2 a) (run_bus (wide_panel d) (lcd_set_window d (area_x1 a) (area_y1 a) w h) f)"
    and px: "pixels (run_bus (wide_panel d) (lcd_set_window d (area_x1 a) (area_y1 a) w h) f) = pixels f"
    using set_window_effect [OF d, of "area_x1 a" w "area_y1 a" h f] by (simp_all add: w_def h_def)
  have "at_pixel (unat (area_x1 a)) (unat (area_x2 a)) (unat (area_y1 a)) (unat (area_y2 a)) 0 g \<and> pixels g = pixels f"
    using win px d unfolding g_def lcd_write_ram_prepare_def landscape_def at_pixel_def has_window_def
    by (simp add: Let_def coord_def split: if_splits)
  then have at: "at_pixel (unat (area_x1 a)) (unat (area_x2 a)) (unat (area_y1 a)) (unat (area_y2 a)) 0 g" and "pixels g = pixels f" by simp_all
  have run: "run_bus (wide_panel d) (disp_flush d a c) f
      = run_bus (wide_panel d) (map (\<lambda>i. Ram (c ! i)) [0..<unat w * unat h]) g"
    by (simp add: disp_flush_def lcd_draw_fast_rgb_color_def Let_def g_def size flip: w_def h_def)
  have all: "pixel_no (unat w) (unat (area_x1 a)) (unat (area_y1 a)) p < unat w * unat h"
    if "in_window (unat (area_x1 a)) (unat (area_x2 a)) (unat (area_y1 a)) (unat (area_y2 a)) p" for p
  proof -
    obtain x y where p: "p = (x, y)" by fastforce
    have "x - unat (area_x1 a) < unat w" "y - unat (area_y1 a) < unat h" using that by (auto simp: p in_window_def w h)
    then have "(y - unat (area_y1 a)) * unat w + (x - unat (area_x1 a)) < Suc (y - unat (area_y1 a)) * unat w" by simp
    also have "\<dots> \<le> unat h * unat w" using \<open>y - unat (area_y1 a) < unat h\<close> by (intro mult_le_mono) simp_all
    finally show ?thesis by (simp add: p pixel_no_def mult.commute)
  qed
  show ?thesis
    using write_pixels [OF at le, of "unat w * unat h" "wide_panel d" c] all \<open>pixels g = pixels f\<close>
    by (auto simp: run fun_eq_iff paint_def in_window_def pixel_no_def w h)
qed

section \<open>Waking the panel\<close>

text \<open>The waits after the last command that leaves sleep (\<open>0x11\<close>, \<open>0x1100\<close>) or, on the controller without that
  mode, resets it (\<open>0x01\<close>), up to the first command that switches the picture on.\<close>

fun wake_wait :: "nat option \<Rightarrow> bus list \<Rightarrow> nat option" where
  "wake_wait n [] = None"
| "wake_wait n (Reg r # bs) =
     (if r = 0x11 \<or> r = 0x1100 \<or> r = 0x01 then wake_wait (Some 0) bs
      else if r = 0x29 \<or> r = 0x2900 then n else wake_wait n bs)"
| "wake_wait n (Wait t # bs) = wake_wait (map_option (\<lambda>m. m + t) n) bs"
| "wake_wait n (b # bs) = wake_wait n bs"

text \<open>Accesses before the panel is woken.\<close>

fun panel_asleep :: "bus \<Rightarrow> bool" where
  "panel_asleep (Reg r) \<longleftrightarrow> r \<notin> {0x11, 0x1100, 0x01, 0x29, 0x2900}"
| "panel_asleep b \<longleftrightarrow> True"

lemma wake_wait_asleep [simp]: "list_all panel_asleep bs \<Longrightarrow> wake_wait None (bs @ cs) = wake_wait None cs"
proof (induction bs)
  case (Cons b bs)
  then show ?case by (cases b) auto
qed simp

lemma wake_wait_Some: "wake_wait n bs = Some t \<Longrightarrow> wake_wait n (bs @ cs) = Some t"
  by (induction n bs rule: wake_wait.induct) (auto split: if_splits)

lemmas table_simps = panel_reginit_def cmd_def delay_ms_def delay_us_def lcd_ssd_backlight_set_def

lemma nt35310_asleep [simp]:
  "list_all panel_asleep lcd_ex_nt35310_1" "list_all panel_asleep lcd_ex_nt35310_2"
  "list_all panel_asleep lcd_ex_nt35310_3" "list_all panel_asleep lcd_ex_nt35310_4"
  by (simp_all add: lcd_ex_nt35310_1_def lcd_ex_nt35310_2_def lcd_ex_nt35310_3_def lcd_ex_nt35310_4_def cmd_def)

lemma nt35510_asleep [simp]:
  "list_all panel_asleep lcd_ex_nt35510_1" "list_all panel_asleep lcd_ex_nt35510_2" "list_all panel_asleep lcd_ex_nt35510_3"
  by (simp_all add: lcd_ex_nt35510_1_def lcd_ex_nt35510_2_def lcd_ex_nt35510_3_def cmd_def)

lemma wake_waits:
  "wake_wait None (panel_reginit 0x7789) = Some 120000"
  "wake_wait None (panel_reginit 0x9341) = Some 120000"
  "wake_wait None (panel_reginit 0x5310) = Some 100000"
  "wake_wait None (panel_reginit 0x7796) = Some 240000"
  "wake_wait None (panel_reginit 0x5510) = Some 120"
  "wake_wait None (panel_reginit 0x9806) = Some 120000"
  "wake_wait None (panel_reginit 0x1963) = Some 10000"
  by (simp add: table_simps lcd_ex_st7789_reginit_def,
      simp add: table_simps lcd_ex_ili9341_reginit_def,
      simp add: table_simps lcd_ex_nt35310_reginit_def lcd_ex_nt35310_5_def,
      simp add: table_simps lcd_ex_st7796_reginit_def,
      simp add: table_simps lcd_ex_nt35510_reginit_def lcd_ex_nt35510_4_def,
      simp add: table_simps lcd_ex_ili9806_reginit_def,
      simp add: table_simps lcd_ex_ssd1963_reginit_def)

lemma rd_asleep: "list_all panel_asleep log \<Longrightarrow> list_all panel_asleep (snd (lcd_rd_data ans log))"
  by (simp add: lcd_rd_data_def)

lemma skip_asleep: "list_all panel_asleep log \<Longrightarrow> list_all panel_asleep (skip_reads ans n log)"
  by (induction n arbitrary: log) (simp_all add: rd_asleep)

lemma read_id_asleep:
  assumes "list_all panel_asleep log" "panel_asleep (Reg r)"
  shows "list_all panel_asleep (snd (read_id ans r n log))"
  using skip_asleep [of "log @ [Reg r]" ans n] assms
  by (simp add: read_id_def lcd_rd_data_def Let_def)

lemma identify_asleep:
  assumes "list_all panel_asleep log"
  shows "list_all panel_asleep (snd (identify ans log))"
proof -
  obtain i1 l1 where 1: "read_id ans 0xD3 2 log = (i1, l1)" by fastforce
  obtain i2 l2 where 2: "read_id ans 0x04 2 l1 = (i2, l2)" by fastforce
  obtain i3 l3 where 3: "read_id ans 0xD4 2 l2 = (i3, l3)" by fastforce
  obtain i4 l4 where 4: "read_id ans 0xD3 2 l3 = (i4, l4)" by fastforce
  define l5 where "l5 = l4 @ unlock_5510 @ [Reg 0xC500, Rd, Reg 0xC501, Rd] @ delay_ms 5"
  obtain i6 l6 where 6: "read_id ans 0xD3 2 l5 = (i6, l6)" by fastforce
  obtain i7 l7 where 7: "read_id ans 0xA1 1 l6 = (i7, l7)" by fastforce
  have s1: "list_all panel_asleep l1" using read_id_asleep [OF assms, where r = "0xD3" and ans = ans and n = "2"] by (simp add: 1)
  have s2: "list_all panel_asleep l2" using read_id_asleep [OF s1, where r = "0x04" and ans = ans and n = "2"] by (simp add: 2)
  have s3: "list_all panel_asleep l3" using read_id_asleep [OF s2, where r = "0xD4" and ans = ans and n = "2"] by (simp add: 3)
  have s4: "list_all panel_asleep l4" using read_id_asleep [OF s3, where r = "0xD3" and ans = ans and n = "2"] by (simp add: 4)
  have s5: "list_all panel_asleep l5" using s4 by (simp add: l5_def unlock_5510_def lcd_write_reg_def delay_ms_def)
  have s6: "list_all panel_asleep l6" using read_id_asleep [OF s5, where r = "0xD3" and ans = ans and n = "2"] by (simp add: 6)
  have s7: "list_all panel_asleep l7" using read_id_asleep [OF s6, where r = "0xA1" and ans = ans and n = 1] unfolding 7 by simp
  show ?thesis using s1 s2 s3 s4 s5 s6 s7 6
    by (simp add: identify_def 1 2 3 4 7 [simplified] Let_def lcd_rd_data_def l5_def)
qed

lemma scan_dir_id: "panel_id (fst (lcd_scan_dir s d)) = panel_id d"
  by (simp add: lcd_scan_dir_def Let_def)

lemma dir_vars_id: "panel_id (dir_vars v d) = panel_id d"
  by (simp add: dir_vars_def Let_def)

lemma init_wakes:
  assumes "lcd_init ans = (d, log)" "wake_wait None (panel_reginit (panel_id d)) = Some t"
  shows "wake_wait None log = Some t"
proof -
  obtain i l where i: "identify ans (delay_ms 50) = (i, l)" by fastforce
  have "list_all panel_asleep l" using identify_asleep [of "delay_ms 50" ans] unfolding i by (simp add: delay_ms_def)
  moreover have "panel_id d = i" using assms(1)
    by (auto simp: lcd_init_def i lcd_display_dir_def lcddev_zero_def Let_def scan_dir_id dir_vars_id
             split: prod.splits dest!: arg_cong [of "lcd_scan_dir _ _" _ fst])
  moreover from this obtain rest where "log = l @ panel_reginit (panel_id d) @ rest" using assms(1)
    by (auto simp: lcd_init_def i Let_def split: prod.splits)
  ultimately show ?thesis using wake_wait_Some [OF assms(2)] by simp
qed

section \<open>Properties\<close>

lemma landscape_size: "landscape d \<Longrightarrow> 320 \<le> width d \<and> 240 \<le> height d"
  by (auto simp: landscape_def split: if_splits)

lemma flushes_paint:
  assumes "landscape d" "list_all (on_screen d) fs"
  shows "pixels (run_bus (wide_panel d) (concat (map (\<lambda>(a, c). disp_flush d a c) fs)) f)
    = fold (\<lambda>(a, c). paint a c) fs (pixels f)"
  using assms(2)
proof (induction fs arbitrary: f)
  case (Cons x fs)
  then show ?case by (cases x) (simp add: flush_paints [OF assms(1)])
qed simp

text \<open>C23: The display shows what the graphics library draws: whatever controller is found and whatever it answers,
  after \<open>disp_init\<close> any sequence of flushes of areas on the screen changes the frame memory as painting the
  areas one after the other with their colours does, row by row, and leaves every other pixel.\<close>

theorem display_refines_frame:
  assumes "list_all (on_screen (fst (disp_init ans))) fs"
  shows "pixels (run_bus (wide_panel (fst (disp_init ans)))
           (concat (map (\<lambda>(a, c). disp_flush (fst (disp_init ans)) a c) fs)) f)
    = fold (\<lambda>(a, c). paint a c) fs (pixels f)"
  by (rule flushes_paint [OF disp_init_landscape assms])

lemma example_flushes_on_screen:
  "list_all (on_screen (fst (disp_init ans)))
     [(\<lparr>area_x1 = 5, area_y1 = 4, area_x2 = 7, area_y2 = 5\<rparr>, [1, 2, 3, 4, 5, 6]),
      (\<lparr>area_x1 = 7, area_y1 = 5, area_x2 = 8, area_y2 = 5\<rparr>, [7, 8])]"
proof -
  have "320 \<le> width (fst (disp_init ans))" "240 \<le> height (fst (disp_init ans))"
    using landscape_size [OF disp_init_landscape] by simp_all
  then have "8 < width (fst (disp_init ans))" and "7 < width (fst (disp_init ans))" and "5 < height (fst (disp_init ans))"
    using less_le_trans [of 8 320 "width (fst (disp_init ans))"] less_le_trans [of 7 320 "width (fst (disp_init ans))"]
      less_le_trans [of 5 240 "height (fst (disp_init ans))"] by simp_all
  then show ?thesis by (simp add: on_screen_def)
qed

theorem display_refines_frame_witness:
  "map (pixels (run_bus (wide_panel (fst (disp_init (\<lambda>_. 0))))
     (concat (map (\<lambda>(a, c). disp_flush (fst (disp_init (\<lambda>_. 0))) a c)
       [(\<lparr>area_x1 = 5, area_y1 = 4, area_x2 = 7, area_y2 = 5\<rparr>, [1, 2, 3, 4, 5, 6]),
        (\<lparr>area_x1 = 7, area_y1 = 5, area_x2 = 8, area_y2 = 5\<rparr>, [7, 8])]))
     \<lparr>op = 0, idx = 0, param = \<lambda>_. 0, pos = (0, 0), pixels = \<lambda>_. 9\<rparr>))
     [(5, 4), (7, 4), (5, 5), (6, 5), (7, 5), (8, 5), (9, 5), (4, 4)] = [1, 3, 4, 5, 7, 8, 9, 9]"
  unfolding display_refines_frame [OF example_flushes_on_screen] by (simp add: paint_def)

end
