(* ===== verification/Lcd_Draw.thy ===== *)
theory Lcd_Draw
  imports Lcd
begin

text \<open>
  Shapes and texts of the display driver, \<open>Drivers/BSP/LCD/lcd.c\<close>: lines and circles by Bresenham's
  algorithm, numbers and strings. The bitmaps of the characters are an argument, as a function of size
  and character.
\<close>

section \<open>Lines\<close>

definition step_dir :: "int \<Rightarrow> int" where
  "step_dir delta = (if delta > 0 then 1 else if delta = 0 then 0 else - 1)"

text \<open>The loop over the points, with its 16-bit counter \<open>t\<close>.\<close>

partial_function (option) line_loop ::
    "lcddev_t \<Rightarrow> u16 \<Rightarrow> int \<Rightarrow> int \<Rightarrow> int \<Rightarrow> int \<Rightarrow> int \<Rightarrow> u16 \<Rightarrow> int \<Rightarrow> int \<Rightarrow> int \<Rightarrow> int \<Rightarrow> bus list option" where
  "line_loop d color delta_x delta_y distance incx incy t xerr yerr row col =
     (if uint t \<le> distance + 1
      then (let xerr' = xerr + delta_x; yerr' = yerr + delta_y;
                xstep = xerr' > distance; ystep = yerr' > distance
            in Option.bind
                 (line_loop d color delta_x delta_y distance incx incy (t + 1)
                    (if xstep then xerr' - distance else xerr') (if ystep then yerr' - distance else yerr')
                    (if xstep then row + incx else row) (if ystep then col + incy else col))
                 (\<lambda>rest. Some (lcd_draw_point d (word_of_int row) (word_of_int col) (ucast color) @ rest)))
      else Some [])"

definition lcd_draw_line :: "lcddev_t \<Rightarrow> u16 \<Rightarrow> u16 \<Rightarrow> u16 \<Rightarrow> u16 \<Rightarrow> u16 \<Rightarrow> bus list option" where
  "lcd_draw_line d xa ya xb yb color =
     (let delta_x = uint xb - uint xa; delta_y = uint yb - uint ya;
          incx = step_dir delta_x; incy = step_dir delta_y;
          delta_x = \<bar>delta_x\<bar>; delta_y = \<bar>delta_y\<bar>;
          distance = (if delta_x > delta_y then delta_x else delta_y)
      in line_loop d color delta_x delta_y distance incx incy 0 0 0 (uint xa) (uint ya))"

definition lcd_draw_rectangle :: "lcddev_t \<Rightarrow> u16 \<Rightarrow> u16 \<Rightarrow> u16 \<Rightarrow> u16 \<Rightarrow> u16 \<Rightarrow> bus list option" where
  "lcd_draw_rectangle d xa ya xb yb color =
     Option.bind (lcd_draw_line d xa ya xb ya color) (\<lambda>l1.
     Option.bind (lcd_draw_line d xa ya xa yb color) (\<lambda>l2.
     Option.bind (lcd_draw_line d xa yb xb yb color) (\<lambda>l3.
     Option.bind (lcd_draw_line d xb ya xb yb color) (\<lambda>l4. Some (l1 @ l2 @ l3 @ l4)))))"

section \<open>Circles\<close>

definition eight_points :: "lcddev_t \<Rightarrow> u16 \<Rightarrow> u16 \<Rightarrow> u16 \<Rightarrow> int \<times> int \<Rightarrow> bus list" where
  "eight_points d xc yc color = (\<lambda>(a, b). concat (map (\<lambda>(x, y). lcd_draw_point d (xc + word_of_int x) (yc + word_of_int y) (ucast color))
     [(a, - b), (b, - a), (b, a), (a, b), (- a, b), (- b, a), (- a, - b), (- b, - a)]))"

text \<open>The points of an eighth of the circle; the loop increments \<open>a\<close> before it uses it.\<close>

function circle_loop :: "int \<Rightarrow> int \<Rightarrow> int \<Rightarrow> (int \<times> int) list" where
  "circle_loop a b di =
     (if a \<le> b
      then (a, b) # (let a' = a + 1
                     in if di < 0 then circle_loop a' b (di + (4 * a' + 6))
                        else circle_loop a' (b - 1) (di + (10 + 4 * (a' - b))))
      else [])"
  by pat_completeness auto

termination
  by (relation "measure (\<lambda>(a, b, di). nat (b - a + 1))") (auto simp: Let_def)

declare circle_loop.simps [simp del]

definition lcd_draw_circle :: "lcddev_t \<Rightarrow> u16 \<Rightarrow> u16 \<Rightarrow> u8 \<Rightarrow> u16 \<Rightarrow> bus list" where
  "lcd_draw_circle d xc yc r color =
     concat (map (eight_points d xc yc color) (circle_loop 0 (uint r) (3 - 2 * uint r)))"

text \<open>One turn of the loop that fills a circle, and the loop with its 32-bit variables.\<close>

definition fill_circle_turn ::
    "lcddev_t \<Rightarrow> u16 \<Rightarrow> u16 \<Rightarrow> u16 \<Rightarrow> u32 \<Rightarrow> u32 \<Rightarrow> u32 \<Rightarrow> u32 \<Rightarrow> (bus list \<times> u32) option" where
  "fill_circle_turn d x y color imax sqmax i xr =
     (let outside = i * i + xr * xr > sqmax
      in Option.bind
           (if outside \<and> xr > imax
            then Option.bind (lcd_draw_hline d (ucast (ucast x - i + 1)) (ucast (ucast y + xr)) (ucast (2 * (i - 1))) color) (\<lambda>l1.
                 Option.bind (lcd_draw_hline d (ucast (ucast x - i + 1)) (ucast (ucast y - xr)) (ucast (2 * (i - 1))) color) (\<lambda>l2.
                 Some (l1 @ l2)))
            else Some [])
           (\<lambda>l. let xr = (if outside then xr - 1 else xr)
                in Option.bind (lcd_draw_hline d (ucast (ucast x - xr)) (ucast (ucast y + i)) (ucast (2 * xr)) color) (\<lambda>l3.
                   Option.bind (lcd_draw_hline d (ucast (ucast x - xr)) (ucast (ucast y - i)) (ucast (2 * xr)) color) (\<lambda>l4.
                   Some (l @ l3 @ l4, xr)))))"

fun fill_circle_loop ::
    "lcddev_t \<Rightarrow> u16 \<Rightarrow> u16 \<Rightarrow> u16 \<Rightarrow> u32 \<Rightarrow> u32 \<Rightarrow> nat \<Rightarrow> u32 \<Rightarrow> u32 \<Rightarrow> bus list option" where
  "fill_circle_loop d x y color imax sqmax 0 i xr = Some []"
| "fill_circle_loop d x y color imax sqmax (Suc n) i xr =
     Option.bind (fill_circle_turn d x y color imax sqmax i xr) (\<lambda>(l, xr').
       Option.bind (fill_circle_loop d x y color imax sqmax n (i + 1) xr') (\<lambda>rest. Some (l @ rest)))"

definition lcd_fill_circle :: "lcddev_t \<Rightarrow> u16 \<Rightarrow> u16 \<Rightarrow> u16 \<Rightarrow> u16 \<Rightarrow> bus list option" where
  "lcd_fill_circle d x y r color =
     (let imax = ucast r * 707 div 1000 + 1 :: u32; sqmax = ucast r * ucast r + ucast r div 2 :: u32
      in Option.bind (lcd_draw_hline d (x - r) y (2 * r) color) (\<lambda>l.
         Option.bind (fill_circle_loop d x y color imax sqmax (unat imax) 1 (ucast r)) (\<lambda>rest. Some (l @ rest))))"

section \<open>Texts\<close>

type_synonym font = "u8 \<Rightarrow> u8 \<Rightarrow> u8 list"

text \<open>The bits of one byte of the bitmap, downwards in a column; the result is the place for the next byte,
  or none when the edge of the screen ends the character.\<close>

fun char_bits :: "lcddev_t \<Rightarrow> u8 \<Rightarrow> u8 \<Rightarrow> u32 \<Rightarrow> u32 \<Rightarrow> u16 \<Rightarrow> nat \<Rightarrow> u8 \<Rightarrow> u16 \<times> u16 \<Rightarrow> bus list \<times> (u16 \<times> u16) option" where
  "char_bits d fsize mode color back y0 0 temp p = ([], Some p)"
| "char_bits d fsize mode color back y0 (Suc n) temp (x, y) =
     (let dot = (if temp AND 0x80 \<noteq> 0 then lcd_draw_point d x y color
                 else if mode = 0 then lcd_draw_point d x y back else []);
          y' = y + 1
      in if y' \<ge> height d then (dot, None)
         else if uint y' - uint y0 = uint fsize
         then (dot, if x + 1 \<ge> width d then None else Some (x + 1, y0))
         else (let (log, next) = char_bits d fsize mode color back y0 n (push_bit 1 temp) (x, y') in (dot @ log, next)))"

fun char_bytes :: "lcddev_t \<Rightarrow> u8 \<Rightarrow> u8 \<Rightarrow> u32 \<Rightarrow> u32 \<Rightarrow> u16 \<Rightarrow> u8 list \<Rightarrow> u16 \<times> u16 \<Rightarrow> bus list" where
  "char_bytes d fsize mode color back y0 [] p = []"
| "char_bytes d fsize mode color back y0 (b # bs) p =
     (case char_bits d fsize mode color back y0 8 b p of
        (log, None) \<Rightarrow> log
      | (log, Some p') \<Rightarrow> log @ char_bytes d fsize mode color back y0 bs p')"

definition lcd_show_char :: "lcddev_t \<Rightarrow> font \<Rightarrow> u32 \<Rightarrow> u16 \<Rightarrow> u16 \<Rightarrow> u8 \<Rightarrow> u8 \<Rightarrow> u8 \<Rightarrow> u16 \<Rightarrow> bus list" where
  "lcd_show_char d font back x y chr fsize mode color =
     (let csize = (fsize div 8 + (if fsize mod 8 \<noteq> 0 then 1 else 0)) * (fsize div 2)
      in if fsize = 12 \<or> fsize = 16 \<or> fsize = 24 \<or> fsize = 32
         then char_bytes d fsize mode (ucast color) back y (take (unat csize) (font fsize (chr - 32))) (x, y)
         else [])"

primrec lcd_pow :: "u8 \<Rightarrow> nat \<Rightarrow> u32" where
  "lcd_pow m 0 = 1"
| "lcd_pow m (Suc n) = lcd_pow m n * ucast m"

text \<open>The digits still to be shown are counted down; the first of them is digit \<open>t\<close>.\<close>

fun num_loop :: "lcddev_t \<Rightarrow> font \<Rightarrow> u32 \<Rightarrow> u16 \<Rightarrow> u16 \<Rightarrow> u32 \<Rightarrow> u8 \<Rightarrow> u8 \<Rightarrow> bool \<Rightarrow> u16 \<Rightarrow> bool \<Rightarrow> nat \<Rightarrow> nat \<Rightarrow> bus list" where
  "num_loop d font back x y num fsize mode zeros color enshow t 0 = []"
| "num_loop d font back x y num fsize mode zeros color enshow t (Suc n) =
     (let temp = ucast (num div lcd_pow 10 n mod 10) :: u8;
          place = x + of_nat (unat fsize div 2 * t)
      in if \<not> enshow \<and> n > 0 \<and> temp = 0
         then lcd_show_char d font back place y (if zeros then 48 else 32) fsize mode color
              @ num_loop d font back x y num fsize mode zeros color False (Suc t) n
         else lcd_show_char d font back place y (temp + 48) fsize mode color
              @ num_loop d font back x y num fsize mode zeros color (enshow \<or> n > 0) (Suc t) n)"

definition lcd_show_num :: "lcddev_t \<Rightarrow> font \<Rightarrow> u32 \<Rightarrow> u16 \<Rightarrow> u16 \<Rightarrow> u32 \<Rightarrow> u8 \<Rightarrow> u8 \<Rightarrow> u16 \<Rightarrow> bus list" where
  "lcd_show_num d font back x y num len fsize color =
     num_loop d font back x y num fsize 0 False color False 0 (unat len)"

definition lcd_show_xnum :: "lcddev_t \<Rightarrow> font \<Rightarrow> u32 \<Rightarrow> u16 \<Rightarrow> u16 \<Rightarrow> u32 \<Rightarrow> u8 \<Rightarrow> u8 \<Rightarrow> u8 \<Rightarrow> u16 \<Rightarrow> bus list" where
  "lcd_show_xnum d font back x y num len fsize mode color =
     num_loop d font back x y num fsize (mode AND 0x01) (mode AND 0x80 \<noteq> 0) color False 0 (unat len)"

text \<open>The characters up to the first that cannot be shown; the left margin is kept in 8 bits.\<close>

fun string_loop :: "lcddev_t \<Rightarrow> font \<Rightarrow> u32 \<Rightarrow> u8 \<Rightarrow> u16 \<Rightarrow> u16 \<Rightarrow> u8 \<Rightarrow> u16 \<Rightarrow> u16 \<Rightarrow> u16 \<Rightarrow> u8 list \<Rightarrow> bus list" where
  "string_loop d font back x0 w h fsize color x y [] = []"
| "string_loop d font back x0 w h fsize color x y (p # ps) =
     (if p \<le> 126 \<and> p \<ge> 32
      then (let (x, y) = (if x \<ge> w then (ucast x0, y + ucast fsize) else (x, y))
            in if y \<ge> h then []
               else lcd_show_char d font back x y p fsize 0 color
                    @ string_loop d font back x0 w h fsize color (x + ucast (fsize div 2)) y ps)
      else [])"

definition lcd_show_string :: "lcddev_t \<Rightarrow> font \<Rightarrow> u32 \<Rightarrow> u16 \<Rightarrow> u16 \<Rightarrow> u16 \<Rightarrow> u16 \<Rightarrow> u8 \<Rightarrow> u8 list \<Rightarrow> u16 \<Rightarrow> bus list" where
  "lcd_show_string d font back x y w h fsize p color =
     string_loop d font back (ucast x) (w + x) (h + y) fsize color x y p"

section \<open>The line that is drawn\<close>

text \<open>The steps taken in one coordinate after \<open>k\<close> turns of the loop, and the points.\<close>

definition line_steps :: "int \<Rightarrow> int \<Rightarrow> nat \<Rightarrow> int" where
  "line_steps n delta k = (if k = 0 \<or> delta = 0 then 0 else (int k * delta - 1) div n)"

definition line_point :: "int \<times> int \<Rightarrow> int \<times> int \<Rightarrow> nat \<Rightarrow> int \<times> int" where
  "line_point p q k =
     (let dx = fst q - fst p; dy = snd q - snd p; n = max \<bar>dx\<bar> \<bar>dy\<bar>
      in (fst p + step_dir dx * line_steps n \<bar>dx\<bar> k, snd p + step_dir dy * line_steps n \<bar>dy\<bar> k))"

lemma line_steps_0 [simp]: "line_steps n delta 0 = 0"
  by (simp add: line_steps_def)

text \<open>The error variable of the loop is what the steps leave over.\<close>

definition line_err :: "int \<Rightarrow> int \<Rightarrow> nat \<Rightarrow> int" where
  "line_err n delta k = int k * delta - n * line_steps n delta k"

lemma line_err_0 [simp]: "line_err n delta 0 = 0"
  by (simp add: line_err_def)

lemma line_err_bounds:
  assumes "0 < delta" "delta \<le> n" "0 < k"
  shows "0 < line_err n delta k \<and> line_err n delta k \<le> n"
proof -
  define r where "r = (int k * delta - 1) mod n"
  have "0 \<le> r" "r < n" using assms by (simp_all add: r_def)
  moreover have "n * ((int k * delta - 1) div n) = int k * delta - 1 - r"
    by (simp add: r_def minus_mod_eq_mult_div)
  moreover have "line_err n delta k = int k * delta - n * ((int k * delta - 1) div n)"
    using assms by (simp add: line_err_def line_steps_def)
  ultimately show ?thesis by linarith
qed

lemma line_steps_Suc:
  assumes "0 \<le> delta" "delta \<le> n"
  shows "line_steps n delta (Suc k) = line_steps n delta k + (if line_err n delta k + delta > n then 1 else 0)"
proof (cases "delta = 0")
  case True
  then show ?thesis using assms by (simp add: line_steps_def line_err_def)
next
  case False
  then have d: "0 < delta" using assms by simp
  have eq: "int (Suc k) * delta - 1 = line_steps n delta k * n + (line_err n delta k + delta - 1)"
    by (simp add: line_err_def algebra_simps)
  have lo: "0 \<le> line_err n delta k" "line_err n delta k \<le> n"
    using line_err_bounds [OF d assms(2), of k] assms d by (cases "k = 0"; simp)+
  show ?thesis
  proof (cases "line_err n delta k + delta > n")
    case True
    have "(int (Suc k) * delta - 1) div n = line_steps n delta k + 1"
      by (rule int_div_pos_eq [where r = "line_err n delta k + delta - 1 - n"])
        (use eq True lo assms d in \<open>simp_all add: algebra_simps\<close>)
    then show ?thesis using True d by (simp add: line_steps_def)
  next
    case f: False
    have "(int (Suc k) * delta - 1) div n = line_steps n delta k"
      by (rule int_div_pos_eq [where r = "line_err n delta k + delta - 1"])
        (use eq f lo assms d in \<open>simp_all add: algebra_simps\<close>)
    then show ?thesis using f d by (simp add: line_steps_def)
  qed
qed

lemma line_err_Suc:
  assumes "0 \<le> delta" "delta \<le> n"
  shows "line_err n delta (Suc k)
    = (if line_err n delta k + delta > n then line_err n delta k + delta - n else line_err n delta k + delta)"
  using line_steps_Suc [OF assms, of k] by (simp add: line_err_def algebra_simps)

lemma line_loop_end: "n + 1 < uint t \<Longrightarrow> line_loop d color dx dy n ix iy t ex ey x y = Some []"
  by (subst line_loop.simps) simp

lemma line_loop_step:
  assumes "uint t \<le> n + 1"
    and "line_loop d color dx dy n ix iy (t + 1) (if ex + dx > n then ex + dx - n else ex + dx)
      (if ey + dy > n then ey + dy - n else ey + dy) (if ex + dx > n then x + ix else x) (if ey + dy > n then y + iy else y)
      = Some rest"
  shows "line_loop d color dx dy n ix iy t ex ey x y
    = Some (lcd_draw_point d (word_of_int x) (word_of_int y) (ucast color) @ rest)"
  by (subst line_loop.simps) (simp only: assms Let_def if_True Option.bind.bind_lunit)

lemma line_move:
  assumes "0 \<le> e" "e \<le> n"
  shows "(if line_err n e k + e > n then a + i * line_steps n e k + i else a + i * line_steps n e k)
    = a + i * line_steps n e (Suc k)"
  using line_steps_Suc [OF assms, of k] by (simp add: algebra_simps)

lemma line_loop_points:
  assumes "0 \<le> dx" "dx \<le> n" "0 \<le> dy" "dy \<le> n" "n < 65534" "k \<le> nat n + 2"
  shows "line_loop d color dx dy n ix iy (of_nat k) (line_err n dx k) (line_err n dy k)
           (x + ix * line_steps n dx k) (y + iy * line_steps n dy k)
    = Some (concat (map (\<lambda>j. lcd_draw_point d (word_of_int (x + ix * line_steps n dx j))
             (word_of_int (y + iy * line_steps n dy j)) (ucast color)) [k..<nat n + 2]))"
  using assms(6)
proof (induction "nat n + 2 - k" arbitrary: k)
  case 0
  then have k: "k = nat n + 2" by simp
  moreover have "nat n + 2 < 65536" using assms by simp
  ultimately have "k < 65536" by linarith
  then have "uint (of_nat k :: u16) = int k" by (simp add: uint_nat unat_of_nat)
  moreover have "n + 1 < int k" using k assms by simp
  ultimately have "n + 1 < uint (of_nat k :: u16)" by simp
  then show ?case by (simp only: line_loop_end k upt_rec [of "nat n + 2"] less_irrefl if_False list.map concat.simps)
next
  case (Suc m)
  then have k: "k < nat n + 2" by simp
  moreover have "nat n + 2 < 65536" using assms by simp
  ultimately have "k < 65536" by linarith
  then have t: "uint (of_nat k :: u16) \<le> n + 1" using k assms by (simp add: uint_nat unat_of_nat)
  have IH: "line_loop d color dx dy n ix iy (of_nat (Suc k)) (line_err n dx (Suc k)) (line_err n dy (Suc k))
           (x + ix * line_steps n dx (Suc k)) (y + iy * line_steps n dy (Suc k))
    = Some (concat (map (\<lambda>j. lcd_draw_point d (word_of_int (x + ix * line_steps n dx j))
             (word_of_int (y + iy * line_steps n dy j)) (ucast color)) [Suc k..<nat n + 2]))"
    using Suc k by (intro Suc.hyps) simp_all
  have "(of_nat (Suc k) :: u16) = of_nat k + 1" by simp
  then have "line_loop d color dx dy n ix iy (of_nat k) (line_err n dx k) (line_err n dy k)
           (x + ix * line_steps n dx k) (y + iy * line_steps n dy k)
    = Some (lcd_draw_point d (word_of_int (x + ix * line_steps n dx k)) (word_of_int (y + iy * line_steps n dy k)) (ucast color)
        @ concat (map (\<lambda>j. lcd_draw_point d (word_of_int (x + ix * line_steps n dx j))
             (word_of_int (y + iy * line_steps n dy j)) (ucast color)) [Suc k..<nat n + 2]))"
    using IH by (intro line_loop_step t)
      (simp only: line_move [OF assms(1,2)] line_move [OF assms(3,4)] line_err_Suc [OF assms(1,2), symmetric]
        line_err_Suc [OF assms(3,4), symmetric])
  then show ?case using k by (simp only: upt_conv_Cons list.map concat.simps)
qed

lemma line_steps_major: "0 < n \<Longrightarrow> 0 < k \<Longrightarrow> line_steps n n k = int k - 1"
  using int_div_pos_eq [of "int k * n - 1" n "int k - 1" "n - 1"] by (simp add: line_steps_def algebra_simps)

lemma line_steps_all:
  assumes "0 \<le> delta" "delta \<le> n"
  shows "line_steps n delta (Suc (nat n)) = delta"
proof (cases "delta = 0")
  case False
  then have "(int (Suc (nat n)) * delta - 1) div n = delta" using assms
    by (intro int_div_pos_eq [where r = "delta - 1"]) (simp_all add: algebra_simps)
  then show ?thesis using False by (simp add: line_steps_def)
qed (simp add: line_steps_def)

lemma step_dir_abs: "step_dir delta * \<bar>delta\<bar> = delta"
  by (simp add: step_dir_def)

lemma line_steps_near:
  assumes "0 \<le> delta" "delta \<le> n" "0 < n" "0 < k"
  shows "\<bar>(int k - 1) * delta - n * line_steps n delta k\<bar> < n"
proof (cases "delta = 0")
  case False
  then have "0 < delta" using assms by simp
  moreover have "(int k - 1) * delta - n * line_steps n delta k = line_err n delta k - delta"
    by (simp add: line_err_def algebra_simps)
  ultimately show ?thesis using line_err_bounds [of delta n k] assms by linarith
qed (use assms in \<open>simp add: line_steps_def\<close>)

lemma step_dir_scale: "\<bar>step_dir u * step_dir v * z\<bar> \<le> \<bar>z\<bar>"
  by (cases "u = 0"; cases "v = 0") (simp_all add: step_dir_def)

text \<open>How far a point is off the line through \<open>p\<close> and \<open>q\<close>, times the length of the longer side.\<close>

definition off_line :: "int \<times> int \<Rightarrow> int \<times> int \<Rightarrow> int \<times> int \<Rightarrow> int" where
  "off_line p q r = \<bar>(fst r - fst p) * (snd q - snd p) - (snd r - snd p) * (fst q - fst p)\<bar>"

lemma line_point_near:
  fixes p q :: "int \<times> int"
  defines "n \<equiv> max \<bar>fst q - fst p\<bar> \<bar>snd q - snd p\<bar>"
  assumes "0 < n"
  shows "off_line p q (line_point p q k) < n"
proof -
  define dx dy where "dx = fst q - fst p" and "dy = snd q - snd p"
  define a b where "a = line_steps n \<bar>dx\<bar> k" and "b = line_steps n \<bar>dy\<bar> k"
  have n: "n = max \<bar>dx\<bar> \<bar>dy\<bar>" by (simp add: n_def dx_def dy_def)
  then have le: "\<bar>dx\<bar> \<le> n" "\<bar>dy\<bar> \<le> n" by simp_all
  have "off_line p q (line_point p q k) = \<bar>step_dir dx * a * dy - step_dir dy * b * dx\<bar>"
    by (simp add: off_line_def line_point_def Let_def a_def b_def dx_def dy_def n_def)
  also have "step_dir dx * a * dy - step_dir dy * b * dx
      = step_dir dx * a * (step_dir dy * \<bar>dy\<bar>) - step_dir dy * b * (step_dir dx * \<bar>dx\<bar>)" by (simp only: step_dir_abs)
  also have "\<dots> = step_dir dx * step_dir dy * (a * \<bar>dy\<bar> - b * \<bar>dx\<bar>)" by (simp add: algebra_simps)
  also have "\<bar>\<dots>\<bar> \<le> \<bar>a * \<bar>dy\<bar> - b * \<bar>dx\<bar>\<bar>" by (rule step_dir_scale)
  also have "\<dots> < n"
  proof (cases "k = 0")
    case True
    then show ?thesis using assms by (simp add: a_def b_def)
  next
    case k: False
    show ?thesis
    proof (cases "\<bar>dx\<bar> = n")
      case True
      then have "a = int k - 1" using line_steps_major k assms by (simp add: a_def)
      then show ?thesis using line_steps_near [OF _ le(2) assms(2), of k] k True
        by (simp add: b_def mult.commute)
    next
      case False
      then have dy: "\<bar>dy\<bar> = n" using n by linarith
      then have "b = int k - 1" using line_steps_major k assms by (simp add: b_def)
      then show ?thesis using line_steps_near [OF _ le(1) assms(2), of k] k dy
        by (simp add: a_def mult.commute abs_minus_commute)
    qed
  qed
  finally show ?thesis .
qed

text \<open>Neighbours are at most one point apart in each direction.\<close>

definition adjacent :: "int \<times> int \<Rightarrow> int \<times> int \<Rightarrow> bool" where
  "adjacent p q \<longleftrightarrow> \<bar>fst p - fst q\<bar> \<le> 1 \<and> \<bar>snd p - snd q\<bar> \<le> 1"

lemma step_dir_next: "\<bar>step_dir u * m - step_dir u * (m + (if c then 1 else 0))\<bar> \<le> 1"
  by (cases c) (simp_all add: step_dir_def algebra_simps)

lemma line_point_adjacent: "adjacent (line_point p q k) (line_point p q (Suc k))"
  by (simp add: adjacent_def line_point_def Let_def line_steps_Suc step_dir_next)

lemma successively_upt: "(\<And>i. P (f i) (f (Suc i))) \<Longrightarrow> successively P (map f [m..<n])"
  by (simp add: successively_conv_nth)

lemma line_point_first: "line_point p q 0 = p"
  by (simp add: line_point_def Let_def)

lemma line_point_last: "line_point p q (Suc (nat (max \<bar>fst q - fst p\<bar> \<bar>snd q - snd p\<bar>))) = q"
  by (simp add: line_point_def Let_def line_steps_all step_dir_abs)

lemma draw_line_points:
  fixes xa ya xb yb :: u16
  defines "n \<equiv> max \<bar>uint xb - uint xa\<bar> \<bar>uint yb - uint ya\<bar>"
  assumes "n < 65534"
  shows "lcd_draw_line d xa ya xb yb color
    = Some (concat (map (\<lambda>(x, y). lcd_draw_point d (word_of_int x) (word_of_int y) (ucast color))
        (map (line_point (uint xa, uint ya) (uint xb, uint yb)) [0..<nat n + 2])))"
proof -
  let ?dx = "uint xb - uint xa" and ?dy = "uint yb - uint ya"
  have "(if \<bar>?dx\<bar> > \<bar>?dy\<bar> then \<bar>?dx\<bar> else \<bar>?dy\<bar>) = n" by (simp add: n_def max_def)
  then have "lcd_draw_line d xa ya xb yb color
      = line_loop d color \<bar>?dx\<bar> \<bar>?dy\<bar> n (step_dir ?dx) (step_dir ?dy) 0 0 0 (uint xa) (uint ya)"
    by (simp only: lcd_draw_line_def Let_def)
  also have "\<dots> = Some (concat (map (\<lambda>j. lcd_draw_point d (word_of_int (uint xa + step_dir ?dx * line_steps n \<bar>?dx\<bar> j))
      (word_of_int (uint ya + step_dir ?dy * line_steps n \<bar>?dy\<bar> j)) (ucast color)) [0..<nat n + 2]))"
    using line_loop_points [of "\<bar>?dx\<bar>" n "\<bar>?dy\<bar>" 0 d color "step_dir ?dx" "step_dir ?dy" "uint xa" "uint ya"] assms(2)
    by (simp only: of_nat_0 line_err_0 line_steps_0 mult_zero_right add_0_right) (simp add: n_def)
  finally show ?thesis by (simp only: map_map o_def line_point_def fst_conv snd_conv Let_def n_def prod.case)
qed

section \<open>The circle that is drawn\<close>

text \<open>A point of the eighth from the top to the diagonal, not more than half a point outside and about one inside the
  circle: \<open>(r - 1) ^ 2\<close> and \<open>(r + 1/2) ^ 2\<close> are about \<open>r ^ 2 - 2 * r\<close> and \<open>r ^ 2 + r\<close>.\<close>

definition near_circle :: "int \<Rightarrow> int \<times> int \<Rightarrow> bool" where
  "near_circle r = (\<lambda>(a, b). 0 \<le> a \<and> a \<le> b \<and> b \<le> r \<and> r * r - b - 2 * a \<le> a * a + b * b \<and> a * a + b * b \<le> r * r + b)"

definition circle_di :: "int \<Rightarrow> int \<Rightarrow> int \<Rightarrow> int" where
  "circle_di r a b = 2 * (a + 1) * (a + 1) + b * b + (b - 1) * (b - 1) - 2 * r * r + 4 * a"

lemma circle_di_start: "circle_di r 0 r = 3 - 2 * r"
  by (simp add: circle_di_def algebra_simps)

lemma circle_di_keep: "circle_di r a b + (4 * (a + 1) + 6) = circle_di r (a + 1) b"
  by (simp add: circle_di_def algebra_simps)

lemma circle_di_down: "circle_di r a b + (10 + 4 * (a + 1 - b)) = circle_di r (a + 1) (b - 1)"
  by (simp add: circle_di_def algebra_simps)

lemma near_keep:
  assumes "near_circle r (a, b)" "circle_di r a b < 0" "a + 1 \<le> b"
  shows "near_circle r (a + 1, b)"
  using assms by (simp add: near_circle_def circle_di_def algebra_simps)

lemma near_down:
  assumes "near_circle r (a, b)" "0 \<le> circle_di r a b" "a + 1 \<le> b - 1"
  shows "near_circle r (a + 1, b - 1)"
  using assms by (simp add: near_circle_def circle_di_def algebra_simps)

lemma circle_loop_Nil: "b < a \<Longrightarrow> circle_loop a b di = []"
  by (subst circle_loop.simps) simp

lemma circle_loop_keep: "a \<le> b \<Longrightarrow> circle_di r a b < 0
    \<Longrightarrow> circle_loop a b (circle_di r a b) = (a, b) # circle_loop (a + 1) b (circle_di r (a + 1) b)"
  by (subst circle_loop.simps) (simp only: if_True Let_def circle_di_keep)

lemma circle_loop_down: "a \<le> b \<Longrightarrow> 0 \<le> circle_di r a b
    \<Longrightarrow> circle_loop a b (circle_di r a b) = (a, b) # circle_loop (a + 1) (b - 1) (circle_di r (a + 1) (b - 1))"
  by (subst circle_loop.simps) (simp only: if_True Let_def circle_di_down not_less [symmetric] if_False not_False_eq_True)

lemma circle_loop_hd: "a \<le> b \<Longrightarrow> \<exists>ps. circle_loop a b di = (a, b) # ps"
  by (subst circle_loop.simps) simp

definition octant :: "int \<Rightarrow> (int \<times> int) list \<Rightarrow> bool" where
  "octant r ps \<longleftrightarrow> list_all (near_circle r) ps \<and> successively adjacent ps
     \<and> (ps \<noteq> [] \<longrightarrow> snd (last ps) - fst (last ps) \<le> 1)"

lemma octant_Cons:
  assumes "near_circle r (a, b)" "octant r ps" "ps = [] \<and> b - a \<le> 1 \<or> (\<exists>qs. ps = q # qs) \<and> adjacent (a, b) q"
  shows "octant r ((a, b) # ps)"
  using assms by (auto simp: octant_def)

lemma circle_loop_octant:
  assumes "near_circle r (a, b) \<or> b < a"
  shows "octant r (circle_loop a b (circle_di r a b))"
  using assms
proof (induction "nat (b - a + 1)" arbitrary: a b rule: less_induct)
  case less
  show ?case
  proof (cases "b < a")
    case True
    then show ?thesis by (simp add: circle_loop_Nil octant_def)
  next
    case False
    then have ab: "a \<le> b" and near: "near_circle r (a, b)" using less.prems by auto
    show ?thesis
    proof (cases "circle_di r a b < 0")
      case True
      have "octant r (circle_loop (a + 1) b (circle_di r (a + 1) b))"
        using near_keep [OF near True] ab by (intro less.hyps) linarith+
      moreover have "circle_loop (a + 1) b (circle_di r (a + 1) b) = [] \<and> b - a \<le> 1
          \<or> (\<exists>qs. circle_loop (a + 1) b (circle_di r (a + 1) b) = (a + 1, b) # qs) \<and> adjacent (a, b) (a + 1, b)"
        using circle_loop_Nil [of b "a + 1"] circle_loop_hd [of "a + 1" b] by (cases "b < a + 1") (auto simp: adjacent_def)
      ultimately show ?thesis using octant_Cons [OF near] by (simp add: circle_loop_keep ab True)
    next
      case f: False
      have "octant r (circle_loop (a + 1) (b - 1) (circle_di r (a + 1) (b - 1)))"
        using near_down [OF near] f ab by (intro less.hyps) linarith+
      moreover have "circle_loop (a + 1) (b - 1) (circle_di r (a + 1) (b - 1)) = [] \<and> b - a \<le> 1
          \<or> (\<exists>qs. circle_loop (a + 1) (b - 1) (circle_di r (a + 1) (b - 1)) = (a + 1, b - 1) # qs)
            \<and> adjacent (a, b) (a + 1, b - 1)"
        using circle_loop_Nil [of "b - 1" "a + 1"] circle_loop_hd [of "a + 1" "b - 1"]
        by (cases "b - 1 < a + 1") (auto simp: adjacent_def)
      ultimately show ?thesis using octant_Cons [OF near] f by (simp add: circle_loop_down ab)
    qed
  qed
qed

lemma draw_circle_octant:
  "\<exists>ps. lcd_draw_circle d xc yc r color = concat (map (eight_points d xc yc color) ((0, uint r) # ps))
     \<and> octant (uint r) ((0, uint r) # ps)"
proof -
  have "near_circle (uint r) (0, uint r)" by (simp add: near_circle_def)
  then have "octant (uint r) (circle_loop 0 (uint r) (circle_di (uint r) 0 (uint r)))" by (intro circle_loop_octant) simp
  moreover obtain ps where "circle_loop 0 (uint r) (circle_di (uint r) 0 (uint r)) = (0, uint r) # ps"
    using circle_loop_hd [of 0 "uint r"] by auto
  ultimately show ?thesis by (auto simp: lcd_draw_circle_def circle_di_start)
qed

section \<open>The numbers that are shown\<close>

text \<open>The last \<open>l\<close> decimal digits, with leading zeros; and right-aligned without them.\<close>

fun last_digits :: "nat \<Rightarrow> nat \<Rightarrow> u8 list" where
  "last_digits 0 v = []"
| "last_digits (Suc l) v = (48 + of_nat (v div 10 ^ l mod 10)) # last_digits l v"

definition num_text :: "nat \<Rightarrow> nat \<Rightarrow> u8 list" where
  "num_text l v = (let ds = dec_digits (v mod 10 ^ l) in replicate (l - length ds) 32 @ ds)"

lemma last_digits_snoc: "last_digits (Suc l) v = last_digits l (v div 10) @ [48 + of_nat (v mod 10)]"
  by (induction l arbitrary: v) (simp_all add: div_mult2_eq)

lemma last_digits_mod: "l \<le> m \<Longrightarrow> last_digits l (v mod 10 ^ m) = last_digits l v"
proof (induction l)
  case (Suc l)
  have "v mod 10 ^ m div 10 ^ l mod 10 = v div 10 ^ l mod 10"
  proof -
    obtain k where m: "m = l + Suc k" using Suc.prems by (metis add_Suc_right le_iff_add add_Suc)
    define p q :: nat where "p = 10 ^ l" and "q = 10 ^ Suc k"
    have "v mod (p * q) div p = v div p mod q" using mod_mult2_eq [of v p q] by (simp add: p_def)
    moreover have "10 ^ m = p * q" by (simp add: m p_def q_def power_add)
    ultimately have "v mod 10 ^ m div 10 ^ l = v div 10 ^ l mod q" by (simp add: p_def)
    moreover have "10 dvd q" by (simp add: q_def)
    ultimately show ?thesis by (simp add: mod_mod_cancel)
  qed
  then show ?case using Suc by simp
qed simp

lemma dec_digits_full: "10 ^ n \<le> w \<Longrightarrow> w < 10 ^ Suc n \<Longrightarrow> dec_digits w = last_digits (Suc n) w"
proof (induction n arbitrary: w)
  case 0
  then show ?case by (subst dec_digits.simps) simp
next
  case (Suc n)
  then have "dec_digits (w div 10) = last_digits (Suc n) (w div 10)"
    by (intro Suc.IH) (simp_all add: less_mult_imp_div_less)
  moreover have "\<not> w < 10"
  proof -
    have "(1::nat) \<le> 10 ^ n" by simp
    then show ?thesis using Suc.prems(1) unfolding power_Suc by linarith
  qed
  ultimately show ?case by (subst dec_digits.simps) (simp only: if_False last_digits_snoc [of "Suc n" w])
qed

lemma num_text_Suc:
  "num_text (Suc n) v = (let c = v div 10 ^ n mod 10
     in if n > 0 \<and> c = 0 then 32 # num_text n v else (48 + of_nat c) # last_digits n v)"
proof -
  define c where "c = v div 10 ^ n mod 10"
  have split: "v mod 10 ^ Suc n = 10 ^ n * c + v mod 10 ^ n"
    using mod_mult2_eq [of v "10 ^ n" 10] by (simp add: c_def mult.commute)
  have small: "v mod 10 ^ n < 10 ^ n" by simp
  show ?thesis
  proof (cases "c = 0")
    case True
    show ?thesis
    proof (cases "n = 0")
      case True
      then show ?thesis using \<open>c = 0\<close> by (simp add: num_text_def c_def Let_def) (simp add: dec_digits.simps)
    next
      case False
      then have "length (dec_digits (v mod 10 ^ n)) \<le> n" using small by (intro dec_digits_length) simp_all
      then show ?thesis using True False split by (simp add: num_text_def Let_def Suc_diff_le flip: c_def)
    qed
  next
    case False
    then have "10 ^ n \<le> v mod 10 ^ Suc n" unfolding split by (simp add: trans_le_add1)
    moreover have "v mod 10 ^ Suc n < 10 ^ Suc n" by (rule mod_less_divisor) simp
    ultimately have "dec_digits (v mod 10 ^ Suc n) = last_digits (Suc n) (v mod 10 ^ Suc n)" by (rule dec_digits_full)
    also have "\<dots> = last_digits (Suc n) v" by (rule last_digits_mod) simp
    finally have "dec_digits (v mod 10 ^ Suc n) = (48 + of_nat c) # last_digits n v" by (simp add: c_def)
    moreover have "length (last_digits n v) = n" by (induction n) simp_all
    ultimately show ?thesis using False unfolding num_text_def Let_def c_def [symmetric] by (simp flip: c_def)
  qed
qed

text \<open>Characters side by side, from the place \<open>t\<close> on.\<close>

fun char_row :: "lcddev_t \<Rightarrow> font \<Rightarrow> u32 \<Rightarrow> u16 \<Rightarrow> u16 \<Rightarrow> u8 \<Rightarrow> u8 \<Rightarrow> u16 \<Rightarrow> nat \<Rightarrow> u8 list \<Rightarrow> bus list" where
  "char_row d font back x y fsize mode color t [] = []"
| "char_row d font back x y fsize mode color t (c # cs) =
     lcd_show_char d font back (x + of_nat (unat fsize div 2 * t)) y c fsize mode color
     @ char_row d font back x y fsize mode color (Suc t) cs"

lemma lcd_pow_10: "n \<le> 9 \<Longrightarrow> unat (lcd_pow 10 n) = 10 ^ n"
proof (induction n)
  case (Suc n)
  have "(10::nat) ^ Suc n \<le> 10 ^ 9" using Suc.prems by (intro power_increasing) simp_all
  then have "(10::nat) ^ Suc n < 2 ^ 32" by (rule le_less_trans) simp
  then show ?case using Suc by (simp add: unat_word_ariths mult.commute)
qed simp

lemma shown_digit:
  fixes num :: u32
  assumes "n \<le> 9"
  defines "c \<equiv> unat num div 10 ^ n mod 10"
  shows "(ucast (num div lcd_pow 10 n mod 10) :: u8) = of_nat c" "(of_nat c :: u8) = 0 \<longleftrightarrow> c = 0"
proof -
  have u: "unat (num div lcd_pow 10 n mod 10) = c"
    using lcd_pow_10 [OF assms(1)] by (simp add: c_def unat_div unat_mod)
  show "(ucast (num div lcd_pow 10 n mod 10) :: u8) = of_nat c" by (simp add: u [symmetric])
  have "c < 256" by (simp add: c_def)
  then show "(of_nat c :: u8) = 0 \<longleftrightarrow> c = 0" by (auto simp: word_of_nat_eq_0_iff dest: dvd_imp_le)
qed

lemma num_loop_row:
  assumes "n \<le> 10" "enshow \<or> 0 < n"
  shows "num_loop d font back x y num fsize mode False color enshow t n
    = char_row d font back x y fsize mode color t (if enshow then last_digits n (unat num) else num_text n (unat num))"
  using assms
proof (induction n arbitrary: enshow t)
  case (Suc n)
  note dig = shown_digit [where num = num]
  have IH: "num_loop d font back x y num fsize mode False color True (Suc t) n
      = char_row d font back x y fsize mode color (Suc t) (last_digits n (unat num))" using Suc by simp
  have IH0: "num_loop d font back x y num fsize mode False color False (Suc t) n
      = char_row d font back x y fsize mode color (Suc t) (num_text n (unat num))" if "0 < n" using Suc that by simp
  have n: "n \<le> 9" using Suc.prems by simp
  consider "enshow" | "\<not> enshow" "n = 0" | "\<not> enshow" "0 < n" by blast
  then show ?case
    by cases (simp_all add: dig [OF n] dig [of 0, simplified] IH IH0 Let_def num_text_Suc add.commute)
qed simp

lemma show_num_row:
  assumes "0 < len" "len \<le> 10"
  shows "lcd_show_num d font back x y num len fsize color
    = char_row d font back x y fsize 0 color 0 (num_text (unat len) (unat num))"
proof -
  have "0 < unat len" "unat len \<le> 10" using assms by (simp_all add: word_less_nat_alt word_le_nat_alt)
  then show ?thesis using num_loop_row [of "unat len" False] by (simp add: lcd_show_num_def)
qed

section \<open>Where the code differs\<close>

text \<open>A string that does not start in the first 256 columns continues, after a line break, at its column modulo 256.\<close>

lemma show_string_margin:
  assumes "32 \<le> p" "p \<le> 126" "32 \<le> q" "q \<le> 126" "\<not> w + x \<le> x" "w + x \<le> x + ucast (fsize div 2)"
    "\<not> h + y \<le> y + ucast fsize" "\<not> h + y \<le> y"
  shows "lcd_show_string d font back x y w h fsize [p, q] color
    = lcd_show_char d font back x y p fsize 0 color
      @ lcd_show_char d font back (ucast (ucast x :: u8)) (y + ucast fsize) q fsize 0 color"
  unfolding lcd_show_string_def by (simp add: assms del: not_le)

lemma fill_one_row: "y < 0xFFFF \<Longrightarrow> lcd_fill d sx y ex y color
    = Some (lcd_set_cursor d sx y @ lcd_write_ram_prepare d @ replicate (unat (ex - sx + 1)) (Ram (ucast color)))"
proof -
  assume y: "y < 0xFFFF"
  then have "unat y < 65535" by (simp add: word_less_nat_alt)
  then have "y < y + 1" by (simp add: word_less_nat_alt unat_word_ariths)
  then have "\<not> y + 1 \<le> y" by (simp only: not_le)
  then have "fill_rows d sx (ex - sx + 1) y color (y + 1) = Some []"
    by (subst fill_rows.simps) (simp only: if_False)
  then show ?thesis unfolding lcd_fill_def by (subst fill_rows.simps) simp
qed

lemma ucast_next: "(ucast (ucast v + 1 :: u32) :: u16) = v + 1" "(ucast (ucast v - 1 :: u32) :: u16) = v - 1"
  by (simp_all add: word_uint_eq_iff uint_word_ariths unsigned_ucast_eq take_bit_eq_mod mod_simps mod_mod_cancel)

text \<open>A circle of radius 0 is not drawn as a point: the counter \<open>xr\<close> falls below zero, and lines of 65534 pixels run
  over the screen.\<close>

lemma fill_circle_0:
  assumes "x < width d" "y < height d" "width d < 0x8000" "height d < 0x8000"
  shows "\<exists>rest. lcd_fill_circle d x y 0 color
    = Some (lcd_set_cursor d (x + 1) (y + 1) @ lcd_write_ram_prepare d @ replicate 65534 (Ram color) @ rest)"
proof -
  have xy: "unat x < unat (width d)" "unat y < unat (height d)" "unat (width d) < 32768" "unat (height d) < 32768"
    using assms by (simp_all add: word_less_nat_alt)
  then have in_range: "\<not> x + 1 > width d" "\<not> y + 1 > height d" "y + 1 < 0xFFFF"
    by (simp_all add: word_less_nat_alt unat_word_ariths not_less)
  have color: "ucast (ucast color :: u32) = color" by (rule bit_word_eqI) (simp add: bit_ucast_iff)
  have one: "lcd_draw_hline d (x + 1) (y + 1) 0xFFFE color
      = Some (lcd_set_cursor d (x + 1) (y + 1) @ lcd_write_ram_prepare d @ replicate 65534 (Ram color))"
    using in_range fill_one_row [OF in_range(3), of d "x + 1" "x + 1 + 0xFFFE - 1" "ucast color"]
    by (simp add: lcd_draw_hline_def color)
  obtain l4 where l4: "lcd_draw_hline d (x + 1) (y - 1) 0xFFFE color = Some l4"
  proof (cases "y = 0")
    case True
    have "height d < - 1" using xy(4) by (simp add: word_less_nat_alt unsigned_minus_1_eq_mask mask_eq_exp_minus_1)
    then show ?thesis using that [of "[]"] True by (simp add: lcd_draw_hline_def)
  next
    case False
    then have "y - 1 < 0xFFFF" using xy by (simp add: word_less_nat_alt unat_minus_one)
    then have "\<exists>l. lcd_draw_hline d (x + 1) (y - 1) 0xFFFE color = Some l"
      by (simp add: lcd_draw_hline_def fill_one_row)
    then show ?thesis using that by blast
  qed
  have len: "(4294967294 :: u16) = 0xFFFE" by simp
  show ?thesis using one l4
    by (simp add: lcd_fill_circle_def fill_circle_turn_def Let_def lcd_draw_hline_def [of d _ _ 0] ucast_next len)
qed

section \<open>Properties\<close>

text \<open>A line is drawn from its first to its last point, for any two points less than 65534 apart: the points that
  are set form a connected path, and none of them is a whole point off the ideal line (\<open>off_line\<close> is the
  distance along one axis, times the longer side). The loop with its 16-bit counter ends.\<close>

theorem line_drawn:
  assumes "n = max \<bar>uint xb - uint xa\<bar> \<bar>uint yb - uint ya\<bar>" "0 < n" "n < 65534"
  shows "\<exists>ps. lcd_draw_line d xa ya xb yb color
        = Some (concat (map (\<lambda>(x, y). lcd_draw_point d (word_of_int x) (word_of_int y) (ucast color)) ps))
     \<and> length ps = nat n + 2 \<and> hd ps = (uint xa, uint ya) \<and> last ps = (uint xb, uint yb)
     \<and> successively adjacent ps
     \<and> list_all (\<lambda>p. off_line (uint xa, uint ya) (uint xb, uint yb) p < n) ps"
proof (intro exI conjI)
  let ?p = "(uint xa, uint ya)" and ?q = "(uint xb, uint yb)"
  let ?ps = "map (line_point ?p ?q) [0..<nat n + 2]"
  show "lcd_draw_line d xa ya xb yb color
      = Some (concat (map (\<lambda>(x, y). lcd_draw_point d (word_of_int x) (word_of_int y) (ucast color)) ?ps))"
    using draw_line_points assms by simp
  show "hd ?ps = ?p" by (simp add: hd_map line_point_first del: upt_Suc)
  show "last ?ps = ?q" using line_point_last [of ?p ?q] assms(1) by (simp add: last_map)
  show "successively adjacent ?ps" by (rule successively_upt) (rule line_point_adjacent)
  show "list_all (\<lambda>p. off_line ?p ?q p < n) ?ps"
    using line_point_near [of ?q ?p] assms by (simp add: list_all_iff)
qed simp

theorem line_drawn_witness:
  "\<exists>ps. lcd_draw_line lcddev_zero 2 9 7 5 0xF800
        = Some (concat (map (\<lambda>(x, y). lcd_draw_point lcddev_zero (word_of_int x) (word_of_int y) (ucast (0xF800 :: u16))) ps))
     \<and> length ps = 7 \<and> hd ps = (2, 9) \<and> last ps = (7, 5)
     \<and> successively adjacent ps \<and> list_all (\<lambda>p. off_line (2, 9) (7, 5) p < 5) ps"
  using line_drawn [where xa = 2 and ya = 9 and xb = 7 and yb = 5 and n = 5 and d = lcddev_zero and color = "0xF800"] by simp

end
