(* ===== verification/Float32.thy ===== *)
theory Float32
  imports Complex_Main Agro_Prelude "HOL-Library.Multiset"
begin

text \<open>
  The single precision arithmetic the panel computes its averages with: a \<open>float\<close> is the
  rational it stands for, and every operation rounds its result to 24 significant bits, to
  nearest and ties to even. Whole numbers and their sums are exact below \<open>2 ^ 24\<close>, and the
  whole part of a tenth survives the rounding.
\<close>

section \<open>Single precision\<close>

fun bit_count :: "nat \<Rightarrow> nat" where
  "bit_count n = (if n = 0 then 0 else Suc (bit_count (n div 2)))"

declare bit_count.simps [simp del]

text \<open>The nearest integer of a quotient, ties to even.\<close>

definition round_div :: "nat \<Rightarrow> nat \<Rightarrow> nat" where
  "round_div n d = (let t = n div d; r = n mod d in if 2 * r < d \<or> 2 * r = d \<and> even t then t else t + 1)"

text \<open>
  Rounding to 24 significant bits; \<open>e\<close> is the exponent of the leading bit. The values here
  stay far from overflow and underflow.
\<close>

definition f32 :: "rat \<Rightarrow> rat" where
  "f32 x = (case quotient_of \<bar>x\<bar> of (p', q') \<Rightarrow>
     let p = nat p'; q = nat q'; k = int (bit_count p) - int (bit_count q);
         e = (if p = 0 then 0
              else if (if k \<ge> 0 then q * 2 ^ nat k \<le> p else q \<le> p * 2 ^ nat (- k)) then k else k - 1);
         m = e - 23
     in sgn x * (if m \<ge> 0 then of_nat (round_div p (q * 2 ^ nat m)) * 2 ^ nat m
                 else of_nat (round_div (p * 2 ^ nat (- m)) q) / 2 ^ nat (- m)))"

definition fsum :: "rat list \<Rightarrow> rat" where
  "fsum vs = foldl (\<lambda>s v. f32 (s + v)) 0 vs"

section \<open>Rounding\<close>

lemma bit_count_bounds: "n < 2 ^ bit_count n" "0 < n \<Longrightarrow> 2 ^ (bit_count n - 1) \<le> n"
proof -
  have "n < 2 ^ bit_count n \<and> (0 < n \<longrightarrow> 0 < bit_count n \<and> 2 ^ (bit_count n - 1) \<le> n)"
  proof (induction n rule: bit_count.induct)
    case (1 n)
    show ?case
    proof (cases "n = 0")
      case False
      then have IH: "n div 2 < 2 ^ bit_count (n div 2)"
        "0 < n div 2 \<longrightarrow> 0 < bit_count (n div 2) \<and> 2 ^ (bit_count (n div 2) - 1) \<le> n div 2" using 1 by auto
      have b: "bit_count n = Suc (bit_count (n div 2))" using False by (subst bit_count.simps) simp
      have "2 ^ bit_count (n div 2) \<le> n"
      proof (cases "n div 2 = 0")
        case True
        then show ?thesis using False by (simp add: bit_count.simps [of 0])
      next
        case f: False
        then have "(2 :: nat) ^ bit_count (n div 2) = 2 * 2 ^ (bit_count (n div 2) - 1)" using IH by (cases "bit_count (n div 2)") auto
        also have "\<dots> \<le> 2 * (n div 2)" using IH(2) f by (intro mult_le_mono2) simp
        also have "\<dots> \<le> n" by simp
        finally show ?thesis .
      qed
      then show ?thesis using IH(1) b by simp
    qed (simp add: bit_count.simps [of 0])
  qed
  then show "n < 2 ^ bit_count n" "0 < n \<Longrightarrow> 2 ^ (bit_count n - 1) \<le> n" by auto
qed

lemma bit_count_pos: "0 < n \<Longrightarrow> 0 < bit_count n"
  by (subst bit_count.simps) simp

text \<open>A value below \<open>2 ^ E\<close> is rounded to a multiple of \<open>2 ^ - j\<close> with \<open>j \<ge> 24 - E\<close>.\<close>

lemma f32_scaled:
  assumes q: "quotient_of x = (int p, int q)" and pos: "0 < x" "0 < p" "0 < q" and lt: "p < q * 2 ^ E" and "E \<le> 24"
  shows "\<exists>j \<ge> 24 - E. f32 x = of_nat (round_div (p * 2 ^ j) q) / 2 ^ j"
proof -
  define k where "k = int (bit_count p) - int (bit_count q)"
  define t where "t \<longleftrightarrow> (if k \<ge> 0 then q * 2 ^ nat k \<le> p else q \<le> p * 2 ^ nat (- k))"
  define e where "e = (if t then k else k - 1)"
  have kE: "k \<le> int E"
  proof (rule ccontr)
    assume "\<not> k \<le> int E"
    then have "bit_count q + E \<le> bit_count p - 1" by (simp add: k_def)
    then have "(2::nat) ^ (bit_count q + E) \<le> 2 ^ (bit_count p - 1)" by (intro power_increasing) auto
    also have "\<dots> \<le> p" using bit_count_bounds(2) pos(2) .
    finally have "2 ^ bit_count q * 2 ^ E \<le> p" by (simp add: power_add)
    moreover have "q * 2 ^ E < 2 ^ bit_count q * 2 ^ E" using bit_count_bounds(1) [of q] by simp
    ultimately show False using lt by simp
  qed
  have "k \<noteq> int E" if t
  proof
    assume "k = int E"
    with that have "q * 2 ^ E \<le> p" by (simp add: t_def)
    with lt show False by simp
  qed
  with kE have eE: "e \<le> int E - 1" by (auto simp: e_def)
  then have m: "e - 23 \<le> 0" using assms(6) by simp
  let ?j = "nat (23 - e)"
  have "24 - E \<le> ?j" using eE by simp
  moreover have "f32 x = of_nat (round_div (p * 2 ^ ?j) q) / 2 ^ ?j"
  proof -
    have e': "(if p = 0 then 0 else if (if 0 \<le> int (bit_count p) - int (bit_count q)
        then q * 2 ^ nat (int (bit_count p) - int (bit_count q)) \<le> p
        else q \<le> p * 2 ^ nat (- (int (bit_count p) - int (bit_count q))))
        then int (bit_count p) - int (bit_count q) else int (bit_count p) - int (bit_count q) - 1) = e"
      unfolding e_def t_def k_def using pos(2) by simp
    have a: "\<bar>x\<bar> = x" "sgn x = 1" using pos(1) by simp_all
    show ?thesis
      unfolding f32_def a q prod.case Let_def nat_int e'
      using m by (cases "e = 23") simp_all
  qed
  ultimately show ?thesis by blast
qed

lemma round_div_bounds: "0 < d \<Longrightarrow> n div d \<le> round_div n d \<and> round_div n d \<le> n div d + 1"
  by (simp add: round_div_def Let_def)

lemma round_div_1: "round_div n 1 = n"
  by (simp add: round_div_def)

text \<open>Whole numbers of up to 24 bits are exact.\<close>

lemma f32_nat:
  assumes "k < 2 ^ 24"
  shows "f32 (of_nat k) = of_nat k"
proof (cases "k = 0")
  case True
  then show ?thesis by (simp add: f32_def split: prod.split)
next
  case False
  have q: "quotient_of (of_nat k) = (int k, int 1)" using quotient_of_int [of "int k"] by simp
  from f32_scaled [OF q _ _ _ _ order_refl] False assms obtain j where
    "f32 (of_nat k) = of_nat (round_div (k * 2 ^ j) 1) / 2 ^ j" by auto
  then show ?thesis by (simp only: round_div_1) simp
qed

lemma fsum_nat:
  assumes "sum_list ks < 2 ^ 24"
  shows "fsum (map of_nat ks) = of_nat (sum_list ks)"
proof -
  have "foldl (\<lambda>s v. f32 (s + v)) (of_nat a) (map of_nat ks) = of_nat (a + sum_list ks)" if "a + sum_list ks < 2 ^ 24" for a
    using that
  proof (induction ks arbitrary: a)
    case (Cons k ks)
    have "f32 (of_nat a + of_nat k) = of_nat (a + k)" using f32_nat [of "a + k"] Cons.prems by simp
    with Cons.IH [of "a + k"] Cons.prems show ?case by (simp add: add.assoc)
  qed simp
  from this [of 0] assms show ?thesis by (simp add: fsum_def)
qed

text \<open>The whole part of a tenth survives the rounding.\<close>

lemma f32_tenth:
  assumes "t < 65536"
  shows "\<lfloor>f32 (of_nat t / 10)\<rfloor> = int (t div 10)"
proof (cases "t = 0")
  case True
  then show ?thesis using f32_nat [of 0] by simp
next
  case False
  let ?x = "of_nat t / 10 :: rat"
  obtain p' q' where pq: "quotient_of ?x = (p', q')" by fastforce
  have q0: "q' > 0" by (rule quotient_of_denom_pos [OF pq])
  have x: "?x = of_int p' / of_int q'" by (rule quotient_of_div [OF pq])
  have "0 < ?x" using False by simp
  then have p0: "p' > 0" unfolding x using q0 by (simp add: zero_less_divide_iff)
  define p q where "p = nat p'" and "q = nat q'"
  have pq': "p' = int p" "q' = int q" "0 < p" "0 < q" using p0 q0 by (simp_all add: p_def q_def)
  have "(of_nat t :: rat) * of_nat q = 10 * of_nat p" using x pq' by (simp add: field_simps)
  then have "(of_nat (t * q) :: rat) = of_nat (10 * p)" by simp
  then have tq: "t * q = 10 * p" by (simp only: of_nat_eq_iff)
  have "t * q < 65536 * q" using assms pq'(4) by simp
  then have lt: "p < q * 2 ^ 13" using tq by simp
  obtain j where j: "11 \<le> j" "f32 ?x = of_nat (round_div (p * 2 ^ j) q) / 2 ^ j"
    using f32_scaled [OF pq [unfolded pq'(1,2)] \<open>0 < ?x\<close> pq'(3,4) lt] by auto
  let ?r = "round_div (p * 2 ^ j) q"
  have r: "p * 2 ^ j div q \<le> ?r" "?r \<le> p * 2 ^ j div q + 1" using round_div_bounds [OF pq'(4)] by auto
  have w: "10 * (t div 10) \<le> t" "t \<le> 10 * (t div 10) + 9" by presburger+
  have "10 * (t div 10) * q \<le> t * q" using w(1) by (rule mult_le_mono1)
  then have "t div 10 * q \<le> p" using tq by simp
  then have "t div 10 * q * 2 ^ j \<le> p * 2 ^ j" by (rule mult_le_mono1)
  then have "(t div 10 * 2 ^ j) * q \<le> p * 2 ^ j" by (simp add: ac_simps)
  then have lo: "t div 10 * 2 ^ j \<le> ?r" using r(1) pq'(4) less_eq_div_iff_mult_less_eq [of q "t div 10 * 2 ^ j" "p * 2 ^ j"] by linarith
  have "p * 2 ^ j div q * q \<le> p * 2 ^ j" by simp
  then have "10 * (p * 2 ^ j div q * q) \<le> t * q * 2 ^ j" using tq by simp
  also have "\<dots> \<le> (10 * (t div 10) + 9) * q * 2 ^ j" using w(2) by (intro mult_le_mono1)
  finally have "(10 * (p * 2 ^ j div q)) * q \<le> ((10 * (t div 10) + 9) * 2 ^ j) * q" by (simp add: ac_simps)
  then have "10 * (p * 2 ^ j div q) \<le> (10 * (t div 10) + 9) * 2 ^ j" using pq'(4) by simp
  moreover have "(2::nat) ^ 11 \<le> 2 ^ j" using j(1) by (intro power_increasing) auto
  then have "10 < (2::nat) ^ j" by simp
  ultimately have hi: "?r < (t div 10 + 1) * 2 ^ j" using r(2) by (simp add: algebra_simps)
  have "(of_nat (t div 10 * 2 ^ j) :: rat) \<le> of_nat ?r" using lo by (simp only: of_nat_le_iff)
  moreover have "(of_nat ?r :: rat) < of_nat ((t div 10 + 1) * 2 ^ j)" using hi by (simp only: of_nat_less_iff)
  ultimately show ?thesis unfolding j(2) by (intro floor_unique) (simp_all add: field_simps)
qed

lemma fsum_mset_nat:
  assumes "mset vs = mset (map of_nat ks)" "sum_list ks < 2 ^ 24"
  shows "fsum vs = of_nat (sum_list ks)"
proof -
  define js where "js = map (\<lambda>v. nat \<lfloor>v\<rfloor>) vs"
  have "set vs = set (map of_nat ks)" using assms(1) by (metis set_mset_mset)
  then have v: "vs = map of_nat js" unfolding js_def map_map by (intro map_idI [symmetric]) auto
  have "mset js = image_mset (\<lambda>v. nat \<lfloor>v\<rfloor>) (mset vs)" by (simp only: js_def mset_map)
  also have "\<dots> = mset (map (\<lambda>v. nat \<lfloor>v\<rfloor>) (map of_nat ks :: rat list))" by (simp only: assms(1) mset_map)
  also have "\<dots> = mset ks" by (simp add: comp_def)
  finally have js: "vs = map of_nat js" "mset js = mset ks" using v by auto
  have "sum_list js = sum_list ks" using js(2) by (metis sum_mset_sum_list)
  then show ?thesis using fsum_nat [of js] assms(2) js(1) by simp
qed

end
