(* ===== verification/Rtos_Queue.thy ===== *)
theory Rtos_Queue
  imports Agro_Prelude
begin

text \<open>
  The kernel queue every task of the firmware talks through
  (\<open>Middlewares/FreeRTOS/queue.c\<close>): the ring of \<open>uxLength\<close> item slots with its write
  and read pointers, the copy routines, and the send/receive loops with their block
  times. A pointer into the storage area is the index of the slot it points at
  (\<open>(p - pcHead) / uxItemSize\<close>); items have a non-zero size, so the semaphore branch of
  \<open>prvCopyDataToQueue\<close> is not taken. The lists of blocked tasks, the lock counters and
  the queue-set notification only decide which task runs next and are not state here.

  The interface \<open>bounded_queue\<close> states what a client task relies on; the ring is an
  instance of it with \<open>q_list\<close> as the abstraction to the list of waiting items.
\<close>

section \<open>The ring\<close>

record 'a queue =
  slots :: "'a option list"      \<comment> \<open>storage area; None: never written\<close>
  pcWriteTo :: nat
  pcReadFrom :: nat
  uxMessagesWaiting :: nat
  uxLength :: nat

datatype copy_position = queueSEND_TO_BACK | queueSEND_TO_FRONT | queueOVERWRITE

datatype queue_result = pdPASS | errQUEUE_FULL | errQUEUE_EMPTY | pdFAIL

definition xQueueGenericReset :: "'a queue \<Rightarrow> queue_result \<times> 'a queue" where
  "xQueueGenericReset q =
     (if uxLength q \<ge> 1
      then (pdPASS, q\<lparr>uxMessagesWaiting := 0, pcWriteTo := 0, pcReadFrom := uxLength q - 1\<rparr>)
      else (pdFAIL, q))"

definition prvInitialiseNewQueue :: "nat \<Rightarrow> 'a queue" where
  "prvInitialiseNewQueue n =
     snd (xQueueGenericReset
       \<lparr>slots = replicate n None, pcWriteTo = 0, pcReadFrom = 0,
        uxMessagesWaiting = 0, uxLength = n\<rparr>)"

definition prvIsQueueEmpty :: "'a queue \<Rightarrow> bool" where
  "prvIsQueueEmpty q \<longleftrightarrow> uxMessagesWaiting q = 0"

definition prvIsQueueFull :: "'a queue \<Rightarrow> bool" where
  "prvIsQueueFull q \<longleftrightarrow> uxMessagesWaiting q = uxLength q"

definition uxQueueMessagesWaiting :: "'a queue \<Rightarrow> nat" where
  "uxQueueMessagesWaiting q = uxMessagesWaiting q"

definition uxQueueSpacesAvailable :: "'a queue \<Rightarrow> nat" where
  "uxQueueSpacesAvailable q = uxLength q - uxMessagesWaiting q"

definition prvCopyDataToQueue :: "'a queue \<Rightarrow> 'a \<Rightarrow> copy_position \<Rightarrow> 'a queue" where
  "prvCopyDataToQueue q x pos =
     (let n = uxMessagesWaiting q in
      if pos = queueSEND_TO_BACK then
        (let w = Suc (pcWriteTo q) in
         q\<lparr>slots := (slots q)[pcWriteTo q := Some x],
           pcWriteTo := (if w \<ge> uxLength q then 0 else w),
           uxMessagesWaiting := n + 1\<rparr>)
      else
        q\<lparr>slots := (slots q)[pcReadFrom q := Some x],
          pcReadFrom := (if pcReadFrom q = 0 then uxLength q - 1 else pcReadFrom q - 1),
          uxMessagesWaiting := (if pos = queueOVERWRITE \<and> n > 0 then n - 1 else n) + 1\<rparr>)"

definition prvCopyDataFromQueue :: "'a queue \<Rightarrow> 'a option \<times> 'a queue" where
  "prvCopyDataFromQueue q =
     (let r = (if Suc (pcReadFrom q) \<ge> uxLength q then 0 else Suc (pcReadFrom q))
      in (slots q ! r, q\<lparr>pcReadFrom := r\<rparr>))"

section \<open>Sending and receiving with a block time\<close>

text \<open>
  A task that cannot go on at once sleeps. Each time it is woken, the other tasks have
  run: an element \<open>(dt, f)\<close> of the wake-up list says that \<open>dt\<close> ticks passed and that
  the others turned the queue \<open>q\<close> into \<open>f q\<close>. The empty list is a sleep that lasts until
  the block time expires with the queue untouched.
\<close>

type_synonym 'a wakeups = "(nat \<times> ('a queue \<Rightarrow> 'a queue)) list"

definition q_has_room :: "'a queue \<Rightarrow> copy_position \<Rightarrow> bool" where
  "q_has_room q pos \<longleftrightarrow> uxMessagesWaiting q < uxLength q \<or> pos = queueOVERWRITE"

fun xQueueGenericSend ::
  "'a queue \<Rightarrow> 'a \<Rightarrow> nat \<Rightarrow> copy_position \<Rightarrow> 'a wakeups \<Rightarrow> queue_result \<times> 'a queue" where
  "xQueueGenericSend q x ticks pos [] =
     (if q_has_room q pos then (pdPASS, prvCopyDataToQueue q x pos) else (errQUEUE_FULL, q))"
| "xQueueGenericSend q x ticks pos ((dt, f) # ws) =
     (if q_has_room q pos then (pdPASS, prvCopyDataToQueue q x pos)
      else if ticks = 0 then (errQUEUE_FULL, q)
      else xQueueGenericSend (f q) x (ticks - dt) pos ws)"

definition q_take :: "'a queue \<Rightarrow> 'a option \<times> 'a queue" where
  "q_take q = (let (x, q') = prvCopyDataFromQueue q
               in (x, q'\<lparr>uxMessagesWaiting := uxMessagesWaiting q - 1\<rparr>))"

fun xQueueReceive :: "'a queue \<Rightarrow> nat \<Rightarrow> 'a wakeups \<Rightarrow> 'a option \<times> 'a queue" where
  "xQueueReceive q ticks [] = (if uxMessagesWaiting q > 0 then q_take q else (None, q))"
| "xQueueReceive q ticks ((dt, f) # ws) =
     (if uxMessagesWaiting q > 0 then q_take q
      else if ticks = 0 then (None, q)
      else xQueueReceive (f q) (ticks - dt) ws)"

abbreviation xQueueSend :: "'a queue \<Rightarrow> 'a \<Rightarrow> nat \<Rightarrow> 'a wakeups \<Rightarrow> queue_result \<times> 'a queue" where
  "xQueueSend q x ticks ws \<equiv> xQueueGenericSend q x ticks queueSEND_TO_BACK ws"

abbreviation xQueueOverwrite :: "'a queue \<Rightarrow> 'a \<Rightarrow> queue_result \<times> 'a queue" where
  "xQueueOverwrite q x \<equiv> xQueueGenericSend q x 0 queueOVERWRITE []"

section \<open>Abstraction to the list of waiting items\<close>

definition q_slot :: "'a queue \<Rightarrow> nat \<Rightarrow> 'a option" where
  "q_slot q i = slots q ! ((pcReadFrom q + 1 + i) mod uxLength q)"

definition q_list :: "'a queue \<Rightarrow> 'a list" where
  "q_list q = map (\<lambda>i. the (q_slot q i)) [0..<uxMessagesWaiting q]"

definition q_inv :: "'a queue \<Rightarrow> bool" where
  "q_inv q \<longleftrightarrow> uxLength q \<ge> 1 \<and> length (slots q) = uxLength q \<and>
     uxMessagesWaiting q \<le> uxLength q \<and> pcReadFrom q < uxLength q \<and>
     pcWriteTo q = (pcReadFrom q + 1 + uxMessagesWaiting q) mod uxLength q \<and>
     (\<forall>i < uxMessagesWaiting q. q_slot q i \<noteq> None)"

lemma q_list_length [simp]: "length (q_list q) = uxMessagesWaiting q"
  by (simp add: q_list_def)

lemma wrap_succ: "w < n \<Longrightarrow> (if Suc w \<ge> n then 0 else Suc w) = Suc w mod n"
  by (cases "Suc w = n") auto

lemma wrap_pred: "r < n \<Longrightarrow> Suc (if r = 0 then n - 1 else r - 1) mod n = r"
  by (cases r) auto

lemma wrap_pred_less: "r < (n::nat) \<Longrightarrow> (if r = 0 then n - 1 else r - 1) < n"
  by (cases r) auto

lemma mod_Suc_shift: "Suc r mod n = r' \<Longrightarrow> (r' + k) mod n = (Suc r + k) mod (n::nat)"
  by (metis mod_add_left_eq)

lemma q_inv_reset: "uxLength q \<ge> 1 \<Longrightarrow> length (slots q) = uxLength q \<Longrightarrow>
    q_inv (snd (xQueueGenericReset q)) \<and> q_list (snd (xQueueGenericReset q)) = []"
  by (simp add: xQueueGenericReset_def q_inv_def q_list_def)

lemma q_inv_new: "n \<ge> 1 \<Longrightarrow> q_inv (prvInitialiseNewQueue n)"
  unfolding prvInitialiseNewQueue_def by (rule q_inv_reset [THEN conjunct1]) simp_all

lemma q_list_new [simp]: "q_list (prvInitialiseNewQueue n) = []"
  by (simp add: prvInitialiseNewQueue_def xQueueGenericReset_def q_list_def)

lemma uxLength_new [simp]: "uxLength (prvInitialiseNewQueue n) = n"
  by (simp add: prvInitialiseNewQueue_def xQueueGenericReset_def)

lemma uxLength_copy_to [simp]: "uxLength (prvCopyDataToQueue q x pos) = uxLength q"
  by (simp add: prvCopyDataToQueue_def Let_def)

lemma uxLength_take [simp]: "uxLength (snd (q_take q)) = uxLength q"
  by (simp add: q_take_def prvCopyDataFromQueue_def Let_def)

subsection \<open>Copying in at the back\<close>

lemma slot_send_back:
  assumes inv: "q_inv q" and room: "uxMessagesWaiting q < uxLength q"
    and i: "i \<le> uxMessagesWaiting q"
  shows "q_slot (prvCopyDataToQueue q x queueSEND_TO_BACK) i =
    (if i = uxMessagesWaiting q then Some x else q_slot q i)"
proof -
  let ?L = "uxLength q" and ?r = "pcReadFrom q" and ?n = "uxMessagesWaiting q"
  have w: "pcWriteTo q = (?r + 1 + ?n) mod ?L" and len: "length (slots q) = ?L"
    using inv by (simp_all add: q_inv_def)
  have wl: "pcWriteTo q < ?L" using w room by simp
  show ?thesis
  proof (cases "i = ?n")
    case True
    then show ?thesis
      using wl len w by (simp add: q_slot_def prvCopyDataToQueue_def Let_def)
  next
    case False
    then have "(?r + 1 + i) mod ?L \<noteq> pcWriteTo q"
      using w room i mod_add_inj [of i ?L ?n "?r + 1"] by auto
    then show ?thesis
      using False by (simp add: q_slot_def prvCopyDataToQueue_def Let_def)
  qed
qed

lemma q_inv_send_back:
  assumes inv: "q_inv q" and room: "uxMessagesWaiting q < uxLength q"
  shows "q_inv (prvCopyDataToQueue q x queueSEND_TO_BACK)"
proof -
  let ?q = "prvCopyDataToQueue q x queueSEND_TO_BACK"
  have n: "uxMessagesWaiting ?q = Suc (uxMessagesWaiting q)" and r: "pcReadFrom ?q = pcReadFrom q"
    and l: "length (slots ?q) = length (slots q)"
    by (simp_all add: prvCopyDataToQueue_def Let_def)
  have "pcWriteTo q < uxLength q" using inv room by (simp add: q_inv_def)
  then have "pcWriteTo ?q = Suc (pcWriteTo q) mod uxLength q"
    by (simp add: prvCopyDataToQueue_def Let_def wrap_succ)
  then have "pcWriteTo ?q = (pcReadFrom ?q + 1 + uxMessagesWaiting ?q) mod uxLength q"
    using inv n r by (simp add: q_inv_def mod_Suc_eq)
  moreover have "\<forall>i < uxMessagesWaiting ?q. q_slot ?q i \<noteq> None"
    using inv n slot_send_back [OF inv room] by (auto simp: q_inv_def)
  ultimately show ?thesis using inv room n r l by (simp add: q_inv_def)
qed

lemma q_list_send_back:
  assumes inv: "q_inv q" and room: "uxMessagesWaiting q < uxLength q"
  shows "q_list (prvCopyDataToQueue q x queueSEND_TO_BACK) = q_list q @ [x]"
proof -
  have n: "uxMessagesWaiting (prvCopyDataToQueue q x queueSEND_TO_BACK)
      = Suc (uxMessagesWaiting q)"
    by (simp add: prvCopyDataToQueue_def Let_def)
  show ?thesis
    using slot_send_back [OF inv room, of _ x] by (simp add: q_list_def n)
qed

subsection \<open>Copying in at the front, and overwriting\<close>

lemma slot_send_front:
  assumes inv: "q_inv q" and room: "uxMessagesWaiting q < uxLength q"
    and i: "i \<le> uxMessagesWaiting q"
  shows "q_slot (prvCopyDataToQueue q x queueSEND_TO_FRONT) i =
    (case i of 0 \<Rightarrow> Some x | Suc j \<Rightarrow> q_slot q j)"
proof -
  let ?L = "uxLength q" and ?r = "pcReadFrom q" and ?n = "uxMessagesWaiting q"
  let ?r' = "if ?r = 0 then ?L - 1 else ?r - 1"
  have r: "?r < ?L" and len: "length (slots q) = ?L" using inv by (simp_all add: q_inv_def)
  have idx: "(?r' + 1 + i) mod ?L = (?r + i) mod ?L"
    using mod_Suc_shift [OF wrap_pred [OF r], of i] by simp
  show ?thesis
  proof (cases i)
    case 0
    then show ?thesis using r len idx
      by (simp add: q_slot_def prvCopyDataToQueue_def Let_def)
  next
    case (Suc j)
    have "(?r + Suc j) mod ?L \<noteq> (?r + 0) mod ?L"
      using mod_add_inj [of "Suc j" ?L 0 ?r] Suc i room by auto
    then have "(?r + Suc j) mod ?L \<noteq> ?r" using r by simp
    then show ?thesis using r len idx Suc
      by (simp add: q_slot_def prvCopyDataToQueue_def Let_def nth_list_update)
  qed
qed

lemma q_inv_send_front:
  assumes inv: "q_inv q" and room: "uxMessagesWaiting q < uxLength q"
  shows "q_inv (prvCopyDataToQueue q x queueSEND_TO_FRONT)"
proof -
  let ?q = "prvCopyDataToQueue q x queueSEND_TO_FRONT"
  have r: "pcReadFrom q < uxLength q" using inv by (simp add: q_inv_def)
  have n: "uxMessagesWaiting ?q = Suc (uxMessagesWaiting q)"
    and r': "pcReadFrom ?q = (if pcReadFrom q = 0 then uxLength q - 1 else pcReadFrom q - 1)"
    and w: "pcWriteTo ?q = pcWriteTo q" and l: "length (slots ?q) = length (slots q)"
    by (simp_all add: prvCopyDataToQueue_def Let_def)
  have "(pcReadFrom ?q + 1 + uxMessagesWaiting ?q) mod uxLength q = pcWriteTo q"
    using mod_Suc_shift [OF wrap_pred [OF r], of "uxMessagesWaiting ?q"] inv n r'
    by (simp add: q_inv_def)
  moreover have "\<forall>i < uxMessagesWaiting ?q. q_slot ?q i \<noteq> None"
  proof (intro allI impI)
    fix i assume "i < uxMessagesWaiting ?q"
    then show "q_slot ?q i \<noteq> None"
      using slot_send_front [OF inv room, of i x] inv n
      by (cases i) (simp_all add: q_inv_def)
  qed
  moreover have "pcReadFrom ?q < uxLength q"
    using wrap_pred_less [OF r] r' by simp
  ultimately show ?thesis using inv room n w l by (simp add: q_inv_def)
qed

lemma q_list_send_front:
  assumes inv: "q_inv q" and room: "uxMessagesWaiting q < uxLength q"
  shows "q_list (prvCopyDataToQueue q x queueSEND_TO_FRONT) = x # q_list q"
proof (rule nth_equalityI)
  let ?q = "prvCopyDataToQueue q x queueSEND_TO_FRONT"
  have n: "uxMessagesWaiting ?q = Suc (uxMessagesWaiting q)"
    by (simp add: prvCopyDataToQueue_def Let_def)
  then show "length (q_list ?q) = length (x # q_list q)" by simp
  fix i assume "i < length (q_list ?q)"
  then have "i \<le> uxMessagesWaiting q" using n by simp
  then show "q_list ?q ! i = (x # q_list q) ! i"
    using slot_send_front [OF inv room, of i x] n
    by (cases i) (simp_all add: q_list_def del: upt_Suc)
qed

lemma overwrite_one:
  assumes inv: "q_inv q" and one: "uxLength q = 1"
  shows "q_inv (prvCopyDataToQueue q x queueOVERWRITE)
    \<and> q_list (prvCopyDataToQueue q x queueOVERWRITE) = [x]"
proof -
  have "pcReadFrom q = 0" "length (slots q) = 1" "uxMessagesWaiting q \<le> 1"
    using inv one by (auto simp: q_inv_def)
  then show ?thesis using one inv
    by (simp add: q_inv_def q_list_def q_slot_def prvCopyDataToQueue_def Let_def)
qed

subsection \<open>Copying out\<close>

lemma q_take_facts:
  assumes inv: "q_inv q" and some: "uxMessagesWaiting q > 0"
  shows "q_inv (snd (q_take q))" (is ?A)
    and "fst (q_take q) = Some (hd (q_list q))" (is ?B)
    and "q_list (snd (q_take q)) = tl (q_list q)" (is ?C)
proof -
  let ?q = "snd (q_take q)" and ?L = "uxLength q" and ?r = "pcReadFrom q"
  have r: "?r < ?L" using inv by (simp add: q_inv_def)
  have r': "pcReadFrom ?q = Suc ?r mod ?L"
    using wrap_succ [OF r] by (simp add: q_take_def prvCopyDataFromQueue_def Let_def)
  have rest: "slots ?q = slots q" "uxMessagesWaiting ?q = uxMessagesWaiting q - 1"
    "pcWriteTo ?q = pcWriteTo q"
    by (simp_all add: q_take_def prvCopyDataFromQueue_def Let_def)
  have slot: "q_slot ?q i = q_slot q (Suc i)" for i
    using mod_Suc_shift [OF r' [symmetric], of "Suc i"] rest
    by (simp add: q_slot_def)
  have wr: "(pcReadFrom ?q + 1 + (uxMessagesWaiting q - 1)) mod ?L = pcWriteTo q"
    using mod_Suc_shift [OF r' [symmetric], of "uxMessagesWaiting q"] inv some
    by (simp add: q_inv_def)
  have "pcReadFrom ?q < ?L" using r r' by simp
  then show ?A
    unfolding q_inv_def uxLength_take
    using inv rest slot wr some by (auto simp: q_inv_def simp del: One_nat_def)
  have "fst (q_take q) = q_slot q 0"
    using wrap_succ [OF r] by (simp add: q_take_def prvCopyDataFromQueue_def Let_def q_slot_def)
  moreover have "q_slot q 0 \<noteq> None" using inv some by (simp add: q_inv_def)
  moreover have "hd (q_list q) = the (q_slot q 0)"
    using some by (simp add: q_list_def hd_map)
  ultimately show ?B by simp
  show ?C
    by (rule nth_equalityI) (simp_all add: q_list_def nth_tl rest slot less_diff_conv)
qed

section \<open>Sending and receiving on the abstraction\<close>

definition q_ok :: "nat \<Rightarrow> 'a queue \<Rightarrow> bool" where
  "q_ok n q \<longleftrightarrow> q_inv q \<and> uxLength q = n"

lemma q_ok_new: "n \<ge> 1 \<Longrightarrow> q_ok n (prvInitialiseNewQueue n)"
  by (simp add: q_ok_def q_inv_new)

lemma q_ok_bound: "q_ok n q \<Longrightarrow> length (q_list q) \<le> n"
  by (auto simp: q_ok_def q_inv_def)

lemma send_has_room:
  assumes "q_inv q" "length (q_list q) < uxLength q"
  shows "fst (xQueueSend q x t ws) = pdPASS"
    and "q_list (snd (xQueueSend q x t ws)) = q_list q @ [x]"
    and "q_inv (snd (xQueueSend q x t ws))"
    and "uxLength (snd (xQueueSend q x t ws)) = uxLength q"
  using assms q_list_send_back [of q x] q_inv_send_back [of q x]
  by (cases ws; auto simp: q_has_room_def)+

lemma send_full:
  assumes "uxMessagesWaiting q \<ge> uxLength q"
  shows "xQueueSend q x 0 ws = (errQUEUE_FULL, q)"
  using assms by (cases ws) (auto simp: q_has_room_def)

text \<open>
  Whatever the other tasks do while the sender sleeps, as long as they keep the queue
  well formed it stays so, and the item is either appended to the queue as found at the
  successful attempt or not sent at all.
\<close>

definition wakeups_ok :: "nat \<Rightarrow> 'a wakeups \<Rightarrow> bool" where
  "wakeups_ok n ws \<longleftrightarrow> (\<forall>(dt, f) \<in> set ws. \<forall>q. q_ok n q \<longrightarrow> q_ok n (f q))"

lemma send_ok [inv_intros]:
  "q_ok n q \<Longrightarrow> wakeups_ok n ws \<Longrightarrow> q_ok n (snd (xQueueSend q x t ws))"
proof (induction q x t queueSEND_TO_BACK ws rule: xQueueGenericSend.induct)
  case (1 q x ticks)
  then show ?case
    using q_inv_send_back [of q x] by (auto simp: q_ok_def q_has_room_def)
next
  case (2 q x ticks dt f ws)
  then have "q_ok n (f q)" "wakeups_ok n ws" by (auto simp: wakeups_ok_def)
  with 2 show ?case
    using q_inv_send_back [of q x] by (auto simp: q_ok_def q_has_room_def)
qed

lemma send_outcome:
  "q_ok n q \<Longrightarrow> wakeups_ok n ws \<Longrightarrow>
   (\<exists>q0. q_ok n q0 \<and> length (q_list q0) < n \<and> fst (xQueueSend q x t ws) = pdPASS
      \<and> q_list (snd (xQueueSend q x t ws)) = q_list q0 @ [x]) \<or>
   (fst (xQueueSend q x t ws) = errQUEUE_FULL \<and> length (q_list (snd (xQueueSend q x t ws))) = n)"
  (is "_ \<Longrightarrow> _ \<Longrightarrow> ?P q t ws")
proof (induction ws arbitrary: q t)
  case Nil
  show ?case
  proof (cases "uxMessagesWaiting q < uxLength q")
    case True
    then show ?thesis
      using Nil send_has_room(1,2) [of q x t "[]"] by (intro disjI1 exI [of _ q]) (simp add: q_ok_def)
  next
    case False
    then show ?thesis using Nil by (simp add: q_ok_def q_inv_def q_has_room_def)
  qed
next
  case (Cons w ws)
  obtain dt f where w: "w = (dt, f)" by (cases w)
  show ?case
  proof (cases "uxMessagesWaiting q < uxLength q")
    case True
    then show ?thesis
      using Cons.prems send_has_room(1,2) [of q x t "w # ws"]
      by (intro disjI1 exI [of _ q]) (simp add: q_ok_def)
  next
    case False
    then have full: "\<not> q_has_room q queueSEND_TO_BACK" and len: "uxMessagesWaiting q = n"
      using Cons.prems by (auto simp: q_has_room_def q_ok_def q_inv_def)
    have "q_ok n (f q)" "wakeups_ok n ws" using Cons.prems w by (auto simp: wakeups_ok_def)
    then have "?P (f q) (t - dt) ws" by (rule Cons.IH)
    then show ?thesis using full len w by (cases "t = 0") simp_all
  qed
qed

lemma receive_now:
  assumes "q_inv q" "q_list q = y # ys"
  shows "fst (xQueueReceive q t ws) = Some y"
    and "q_list (snd (xQueueReceive q t ws)) = ys"
    and "q_inv (snd (xQueueReceive q t ws))"
    and "uxLength (snd (xQueueReceive q t ws)) = uxLength q"
proof -
  have n: "uxMessagesWaiting q > 0" using assms(2) by (metis length_greater_0_conv list.discI q_list_length)
  then have r: "xQueueReceive q t ws = q_take q" by (cases ws) auto
  show "fst (xQueueReceive q t ws) = Some y" "q_list (snd (xQueueReceive q t ws)) = ys"
    "q_inv (snd (xQueueReceive q t ws))" "uxLength (snd (xQueueReceive q t ws)) = uxLength q"
    using q_take_facts [OF assms(1) n] assms(2) r by simp_all
qed

lemma receive_none: "uxMessagesWaiting q = 0 \<Longrightarrow> xQueueReceive q 0 ws = (None, q)"
  by (cases ws) auto

lemma receive_ok [inv_intros]:
  "q_ok n q \<Longrightarrow> wakeups_ok n ws \<Longrightarrow> q_ok n (snd (xQueueReceive q t ws))"
proof (induction q t ws rule: xQueueReceive.induct)
  case (1 q ticks)
  then show ?case using q_take_facts(1) [of q] by (auto simp: q_ok_def)
next
  case (2 q ticks dt f ws)
  then have "q_ok n (f q)" "wakeups_ok n ws" by (auto simp: wakeups_ok_def)
  with 2 show ?case using q_take_facts(1) [of q] by (auto simp: q_ok_def)
qed

lemma overwrite_facts:
  assumes "q_ok 1 q"
  shows "fst (xQueueOverwrite q x) = pdPASS" and "q_list (snd (xQueueOverwrite q x)) = [x]"
    and "q_ok 1 (snd (xQueueOverwrite q x))"
  using assms overwrite_one [of q x] by (auto simp: q_ok_def q_has_room_def)

section \<open>The interface clients rely on\<close>

locale bounded_queue =
  fixes items :: "'q \<Rightarrow> 'a list"
    and ok :: "nat \<Rightarrow> 'q \<Rightarrow> bool"
    and send :: "'q \<Rightarrow> 'a \<Rightarrow> queue_result \<times> 'q"
    and receive :: "'q \<Rightarrow> 'a option \<times> 'q"
  assumes bounded: "ok n q \<Longrightarrow> length (items q) \<le> n"
    and send_room: "ok n q \<Longrightarrow> length (items q) < n \<Longrightarrow>
          fst (send q x) = pdPASS \<and> items (snd (send q x)) = items q @ [x]"
    and send_drop: "ok n q \<Longrightarrow> length (items q) = n \<Longrightarrow> send q x = (errQUEUE_FULL, q)"
    and ok_send: "ok n q \<Longrightarrow> ok n (snd (send q x))"
    and receive_hd: "ok n q \<Longrightarrow> items q = y # ys \<Longrightarrow>
          fst (receive q) = Some y \<and> items (snd (receive q)) = ys"
    and receive_empty: "ok n q \<Longrightarrow> items q = [] \<Longrightarrow> receive q = (None, q)"
    and ok_receive: "ok n q \<Longrightarrow> ok n (snd (receive q))"

text \<open>A history of sends and receives, and what it accepted and delivered.\<close>

datatype 'a qop = Send 'a | Receive

fun q_run :: "('q \<Rightarrow> 'a \<Rightarrow> queue_result \<times> 'q) \<Rightarrow> ('q \<Rightarrow> 'a option \<times> 'q) \<Rightarrow> 'a qop list \<Rightarrow> 'q
    \<Rightarrow> 'a list \<times> 'a list \<times> 'q" where
  "q_run snd_f rcv_f [] q = ([], [], q)"
| "q_run snd_f rcv_f (Send x # ops) q =
     (let (r, q1) = snd_f q x; (acc, del, q2) = q_run snd_f rcv_f ops q1
      in ((if r = pdPASS then x # acc else acc), del, q2))"
| "q_run snd_f rcv_f (Receive # ops) q =
     (let (y, q1) = rcv_f q; (acc, del, q2) = q_run snd_f rcv_f ops q1
      in (acc, (case y of None \<Rightarrow> del | Some v \<Rightarrow> v # del), q2))"

context bounded_queue
begin

lemma send_cases:
  assumes "ok n q"
  obtains (sent) "fst (send q x) = pdPASS" "items (snd (send q x)) = items q @ [x]"
        "length (items q) < n"
    | (dropped) "send q x = (errQUEUE_FULL, q)" "length (items q) = n"
  using assms bounded [OF assms] send_room [OF assms] send_drop [OF assms]
  by (metis le_neq_implies_less)

text \<open>First in, first out: nothing is lost, duplicated or reordered.\<close>

lemma fifo:
  "ok n q \<Longrightarrow> q_run send receive ops q = (acc, del, q') \<Longrightarrow>
     ok n q' \<and> items q @ acc = del @ items q'"
proof (induction ops arbitrary: q acc del)
  case Nil
  then show ?case by simp
next
  case (Cons a ops)
  show ?case
  proof (cases a)
    case (Send x)
    obtain acc1 del1 where run: "q_run send receive ops (snd (send q x)) = (acc1, del1, q')"
      and acc: "acc = (if fst (send q x) = pdPASS then x # acc1 else acc1)" "del = del1"
      using Cons.prems(2) Send by (auto simp: split_beta Let_def prod_eq_iff)
    note IH = Cons.IH [OF ok_send [OF Cons.prems(1)] run]
    show ?thesis
      by (rule send_cases [OF Cons.prems(1), of x]) (use IH acc in auto)
  next
    case Receive
    obtain acc1 del1 where run: "q_run send receive ops (snd (receive q)) = (acc1, del1, q')"
      and del: "acc = acc1" "del = (case fst (receive q) of None \<Rightarrow> del1 | Some v \<Rightarrow> v # del1)"
      using Cons.prems(2) Receive by (auto simp: split_beta Let_def prod_eq_iff)
    note IH = Cons.IH [OF ok_receive [OF Cons.prems(1)] run]
    show ?thesis
      using IH del receive_hd [OF Cons.prems(1)] receive_empty [OF Cons.prems(1)]
      by (cases "items q") auto
  qed
qed

end

interpretation rtosq: bounded_queue q_list q_ok "\<lambda>q x. xQueueSend q x 0 []" "\<lambda>q. xQueueReceive q 0 []"
proof unfold_locales
  fix n :: nat and q :: "'a queue" and x y :: 'a and ys :: "'a list"
  assume ok: "q_ok n q"
  then have inv: "q_inv q" and n: "uxLength q = n" by (auto simp: q_ok_def)
  show "length (q_list q) \<le> n" by (rule q_ok_bound [OF ok])
  show "length (q_list q) < n \<Longrightarrow> fst (xQueueSend q x 0 []) = pdPASS
      \<and> q_list (snd (xQueueSend q x 0 [])) = q_list q @ [x]"
    using send_has_room(1,2) [OF inv] n by blast
  show "length (q_list q) = n \<Longrightarrow> xQueueSend q x 0 [] = (errQUEUE_FULL, q)"
    using send_full [of q x "[]"] n by simp
  show "q_ok n (snd (xQueueSend q x 0 []))"
    by (rule send_ok [OF ok]) (simp add: wakeups_ok_def)
  show "q_list q = y # ys \<Longrightarrow> fst (xQueueReceive q 0 []) = Some y
      \<and> q_list (snd (xQueueReceive q 0 [])) = ys"
    using receive_now(1,2) [OF inv] by blast
  show "q_list q = [] \<Longrightarrow> xQueueReceive q 0 [] = (None, q)"
    using receive_none [of q "[]"] by (metis list.size(3) q_list_length)
  show "q_ok n (snd (xQueueReceive q 0 []))"
    by (rule receive_ok [OF ok]) (simp add: wakeups_ok_def)
qed


section \<open>Properties\<close>

text \<open>The bounded list a queue of capacity \<open>n\<close> promises to be.\<close>

definition spec_send :: "nat \<Rightarrow> 'a list \<Rightarrow> 'a \<Rightarrow> queue_result \<times> 'a list" where
  "spec_send n xs x = (if length xs < n then (pdPASS, xs @ [x]) else (errQUEUE_FULL, xs))"

definition spec_receive :: "'a list \<Rightarrow> 'a option \<times> 'a list" where
  "spec_receive xs = (case xs of [] \<Rightarrow> (None, []) | y # ys \<Rightarrow> (Some y, ys))"

text \<open>C37: the ring buffer of the kernel's queue implements the bounded list: any history of
  non-blocking sends and receives on a new queue gives the same accepted and delivered items
  as on the list, and leaves the list in the queue.\<close>

theorem queue_refines_list:
  assumes "n \<ge> 1"
  shows "let (acc, del, q') = q_run (\<lambda>q x. xQueueSend q x 0 []) (\<lambda>q. xQueueReceive q 0 []) ops
             (prvInitialiseNewQueue n)
         in q_run (spec_send n) spec_receive ops [] = (acc, del, q_list q')"
proof -
  have "q_ok n q \<Longrightarrow> let (acc, del, q') = q_run (\<lambda>q x. xQueueSend q x 0 []) (\<lambda>q. xQueueReceive q 0 []) ops q
      in q_run (spec_send n) spec_receive ops (q_list q) = (acc, del, q_list q')" for q :: "'a queue"
  proof (induction ops arbitrary: q)
    case (Cons a ops)
    show ?case
    proof (cases a)
      case (Send x)
      have ok: "q_ok n (snd (xQueueSend q x 0 []))" by (rule rtosq.ok_send [OF Cons.prems])
      show ?thesis
        by (rule rtosq.send_cases [OF Cons.prems, of x])
          (use Cons.IH [OF ok] Send in \<open>auto simp: spec_send_def split_beta Let_def\<close>)
    next
      case Receive
      have ok: "q_ok n (snd (xQueueReceive q 0 []))" by (rule rtosq.ok_receive [OF Cons.prems])
      show ?thesis
        using Cons.IH [OF ok] Receive rtosq.receive_hd [OF Cons.prems] rtosq.receive_empty [OF Cons.prems]
        by (cases "q_list q") (auto simp: spec_receive_def split_beta Let_def)
    qed
  qed simp
  from this [OF q_ok_new [OF assms]] show ?thesis by simp
qed

lemma queue_refines_list_witness:
  "snd (snd (q_run (spec_send 2) spec_receive [Send (7::nat), Send 8, Send 9, Receive] [])) =
   q_list (snd (snd (q_run (\<lambda>q x. xQueueSend q x 0 []) (\<lambda>q. xQueueReceive q 0 [])
     [Send 7, Send 8, Send 9, Receive] (prvInitialiseNewQueue 2))))"
  using queue_refines_list [of 2 "[Send (7::nat), Send 8, Send 9, Receive]"]
  by (simp only: split_beta Let_def) simp

text \<open>First in, first out: the items a new queue accepted are, in order, those it
  delivered followed by those still waiting, and never more than its capacity wait.\<close>

theorem queue_fifo:
  assumes "n \<ge> 1"
    and "q_run (\<lambda>q x. xQueueSend q x 0 []) (\<lambda>q. xQueueReceive q 0 []) ops (prvInitialiseNewQueue n)
          = (acc, del, q')"
  shows "acc = del @ q_list q' \<and> uxQueueMessagesWaiting q' \<le> n \<and>
    uxQueueSpacesAvailable q' = n - length (q_list q')"
  using rtosq.fifo [OF q_ok_new [OF assms(1)] assms(2)] q_ok_bound [of n q']
  by (simp add: uxQueueMessagesWaiting_def uxQueueSpacesAvailable_def q_ok_def)

lemma queue_fifo_witness:
  "\<exists>acc del q'. q_run (\<lambda>q x. xQueueSend q x 0 []) (\<lambda>q. xQueueReceive q 0 [])
     [Send True, Send False, Receive] (prvInitialiseNewQueue 1) = (acc, del, q') \<and> acc = del @ q_list q'"
proof -
  obtain acc del q' where r: "q_run (\<lambda>q x. xQueueSend q x 0 []) (\<lambda>q. xQueueReceive q 0 [])
     [Send True, Send False, Receive] (prvInitialiseNewQueue 1) = (acc, del, q')"
    by (metis surj_pair)
  with queue_fifo [OF _ r] show ?thesis by auto
qed

text \<open>A sender that may sleep either gets its item to the back of a queue that had room at
  that moment, or gives up with the queue full and its item nowhere, whatever the other tasks
  do to the queue while it sleeps.\<close>

theorem blocked_send_outcome:
  assumes "q_ok n q" and "wakeups_ok n ws"
  shows "(\<exists>q0. q_ok n q0 \<and> length (q_list q0) < n \<and> fst (xQueueSend q x t ws) = pdPASS
      \<and> q_list (snd (xQueueSend q x t ws)) = q_list q0 @ [x]) \<or>
   (fst (xQueueSend q x t ws) = errQUEUE_FULL \<and> length (q_list (snd (xQueueSend q x t ws))) = n)"
  by (rule send_outcome [OF assms])

lemma blocked_send_outcome_witness:
  "fst (xQueueSend (prvInitialiseNewQueue 1) (5::nat) 100 [(3, \<lambda>q. snd (xQueueReceive q 0 []))]) = pdPASS
   \<or> length (q_list (snd (xQueueSend (prvInitialiseNewQueue 1) (5::nat) 100
        [(3, \<lambda>q. snd (xQueueReceive q 0 []))]))) = 1"
proof -
  have ok: "q_ok 1 (prvInitialiseNewQueue 1 :: nat queue)" by (rule q_ok_new) simp
  have ws: "wakeups_ok 1 [(3, \<lambda>q :: nat queue. snd (xQueueReceive q 0 []))]"
    using rtosq.ok_receive [of 1] by (auto simp: wakeups_ok_def simp del: xQueueReceive.simps)
  from blocked_send_outcome [OF ok ws, of 5 100] show ?thesis by blast
qed

text \<open>The one-item mailbox keeps the latest value: after any number of overwrites the
  queue holds exactly the last item, and every overwrite succeeds.\<close>

theorem mailbox_latest:
  assumes "q_ok 1 q"
  shows "q_list (fold (\<lambda>x q. snd (xQueueOverwrite q x)) (xs @ [x]) q) = [x] \<and>
    fst (xQueueOverwrite (fold (\<lambda>x q. snd (xQueueOverwrite q x)) xs q) x) = pdPASS"
proof -
  have "q_ok 1 (fold (\<lambda>x q. snd (xQueueOverwrite q x)) xs q)"
    using assms
  proof (induction xs arbitrary: q)
    case (Cons y ys)
    from Cons.IH [OF overwrite_facts(3) [OF Cons.prems]] show ?case by (simp only: fold_simps)
  qed simp
  from overwrite_facts(1,2) [OF this] show ?thesis by simp
qed

lemma mailbox_latest_witness:
  "q_list (fold (\<lambda>x q. snd (xQueueOverwrite q x)) ([1, 2] @ [3::nat]) (prvInitialiseNewQueue 1)) = [3]"
  using mailbox_latest [OF q_ok_new [of 1], of "[1, 2]" 3] by blast

end
