(* ===== verification/Task_Data.thy ===== *)
theory Task_Data
  imports Rtos_Queue
begin

text \<open>
  The data task (\<open>Middlewares/FreeRTOS/Task/task_data_process\<close>): raw samples from
  \<open>EnvSampleQueue\<close> are summed up for a minute, averaged, and posted to \<open>ReportQueue\<close> and to
  the one-item queue of the display. Time is the 32-bit tick counter (1 ms).
\<close>

section \<open>Data\<close>

record env_sample_t =
  es_err_bits :: u8
  es_temperature :: u8
  es_humidity :: u8
  es_rain_status :: u8       \<comment> \<open>0 rain, 1 dry\<close>
  es_co2_value :: u16
  es_co_value :: u16

record env_avg_t =
  err_bits :: u8
  temp_avg_x10 :: u16
  humi_avg_x10 :: u16
  rain_flag :: u8
  co2_avg :: u16
  co_avg :: u16
  sample_count :: u32

abbreviation DATA_PROCESS_PERIOD_MS :: u32 where "DATA_PROCESS_PERIOD_MS \<equiv> 60000"

text \<open>The local variables of \<open>data_process_task\<close>.\<close>

record data_process =
  temp_sum :: u32
  humi_sum :: u32
  co2_sum :: u32
  co_sum :: u32
  rain_sum :: u32
  cnt :: u32
  last_err :: u8
  period_start :: u32

section \<open>One turn of the task\<close>

definition dp_accumulate :: "env_sample_t \<Rightarrow> data_process \<Rightarrow> data_process" where
  "dp_accumulate s d =
     (let d1 = (if es_err_bits s AND 1 = 0
                then d\<lparr>temp_sum := temp_sum d + ucast (es_temperature s) * 10,
                       humi_sum := humi_sum d + ucast (es_humidity s) * 10\<rparr> else d);
          d2 = (if es_err_bits s AND 2 = 0
                then d1\<lparr>rain_sum := rain_sum d1 + (if es_rain_status s \<noteq> 0 then 0 else 1)\<rparr> else d1);
          d3 = (if es_err_bits s AND 8 = 0
                then d2\<lparr>co2_sum := co2_sum d2 + ucast (es_co2_value s)\<rparr> else d2);
          d4 = (if es_err_bits s AND 16 = 0
                then d3\<lparr>co_sum := co_sum d3 + ucast (es_co_value s)\<rparr> else d3)
      in d4\<lparr>cnt := cnt d4 + 1, last_err := es_err_bits s\<rparr>)"

definition dp_average :: "data_process \<Rightarrow> env_avg_t" where
  "dp_average d =
     \<lparr>err_bits = last_err d,
      temp_avg_x10 = ucast (temp_sum d div cnt d),
      humi_avg_x10 = ucast (humi_sum d div cnt d),
      rain_flag = (if rain_sum d * 10 \<ge> cnt d * 3 then 1 else 0),
      co2_avg = ucast (co2_sum d div cnt d),
      co_avg = ucast (co_sum d div cnt d),
      sample_count = cnt d\<rparr>"

definition dp_clear :: "u32 \<Rightarrow> data_process \<Rightarrow> data_process" where
  "dp_clear now d = d\<lparr>temp_sum := 0, humi_sum := 0, co2_sum := 0, co_sum := 0, rain_sum := 0,
     cnt := 0, period_start := now\<rparr>"

text \<open>
  The computation of a turn: the sample received (\<open>None\<close>: the receive timed out), the tick
  count read afterwards; the result is the average that is due, if one is.
\<close>

definition dp_turn :: "env_sample_t option \<Rightarrow> u32 \<Rightarrow> data_process \<Rightarrow> env_avg_t option \<times> data_process" where
  "dp_turn sample now d =
     (let d1 = (case sample of None \<Rightarrow> d | Some s \<Rightarrow> dp_accumulate s d) in
      if now - period_start d1 < DATA_PROCESS_PERIOD_MS then (None, d1)
      else (if cnt d1 = 0 then None else Some (dp_average d1), dp_clear now d1))"

record data_queues =
  EnvSampleQueue :: "env_sample_t queue option"
  ReportQueue :: "env_avg_t queue option"
  LV_RXDataQueue :: "env_avg_t queue option"

text \<open>
  A whole turn with its queues; \<open>ws\<close> and \<open>ws'\<close> are what the other tasks do while it sleeps
  in the receive and in the send.
\<close>

definition data_process_step ::
    "u32 \<Rightarrow> env_sample_t wakeups \<Rightarrow> env_avg_t wakeups \<Rightarrow> data_process \<times> 'z data_queues_scheme \<Rightarrow> data_process \<times> 'z data_queues_scheme" where
  "data_process_step now ws ws' = (\<lambda>(d, w). case EnvSampleQueue w of
       None \<Rightarrow> (d, w)
     | Some q \<Rightarrow>
         (let (sample, q') = xQueueReceive q 60000 ws;
              w1 = w\<lparr>EnvSampleQueue := Some q'\<rparr>;
              (out, d') = dp_turn sample now d
          in case out of
               None \<Rightarrow> (d', w1)
             | Some avg \<Rightarrow>
                 (let w2 = (case ReportQueue w1 of None \<Rightarrow> w1
                            | Some rq \<Rightarrow> w1\<lparr>ReportQueue := Some (snd (xQueueSend rq avg 100 ws'))\<rparr>)
                  in (d', case LV_RXDataQueue w2 of None \<Rightarrow> w2
                          | Some lq \<Rightarrow> w2\<lparr>LV_RXDataQueue := Some (snd (xQueueOverwrite lq avg))\<rparr>))))"

section \<open>The sums as natural numbers\<close>

definition has_err :: "nat \<Rightarrow> env_sample_t \<Rightarrow> bool" where
  "has_err n s \<longleftrightarrow> bit (es_err_bits s) n"

lemma err_bit: "b AND 2 ^ n = 0 \<longleftrightarrow> \<not> bit b n" if "n < 8" for b :: u8
proof
  assume "b AND 2 ^ n = 0"
  then have "\<not> bit (b AND 2 ^ n) n" by simp
  then show "\<not> bit b n" using that by (simp add: bit_and_iff bit_exp_iff)
next
  assume "\<not> bit b n"
  then show "b AND 2 ^ n = 0" by (intro bit_word_eqI) (auto simp: bit_and_iff bit_exp_iff)
qed

lemma err_masks:
  "es_err_bits s AND 1 = 0 \<longleftrightarrow> \<not> has_err 0 s" "es_err_bits s AND 2 = 0 \<longleftrightarrow> \<not> has_err 1 s"
  "es_err_bits s AND 8 = 0 \<longleftrightarrow> \<not> has_err 3 s" "es_err_bits s AND 16 = 0 \<longleftrightarrow> \<not> has_err 4 s"
  using err_bit [of 0 "es_err_bits s"] err_bit [of 1 "es_err_bits s"] err_bit [of 3 "es_err_bits s"]
    err_bit [of 4 "es_err_bits s"] by (simp_all add: has_err_def)

text \<open>What the field contributes over a list of samples.\<close>

definition sum_ok :: "nat \<Rightarrow> (env_sample_t \<Rightarrow> nat) \<Rightarrow> env_sample_t list \<Rightarrow> nat" where
  "sum_ok n f xs = sum_list (map (\<lambda>s. if has_err n s then 0 else f s) xs)"

definition temp10 :: "env_sample_t \<Rightarrow> nat" where "temp10 s = unat (es_temperature s) * 10"
definition humi10 :: "env_sample_t \<Rightarrow> nat" where "humi10 s = unat (es_humidity s) * 10"
definition rainy :: "env_sample_t \<Rightarrow> nat" where "rainy s = (if es_rain_status s = 0 then 1 else 0)"
definition co2n :: "env_sample_t \<Rightarrow> nat" where "co2n s = unat (es_co2_value s)"
definition con :: "env_sample_t \<Rightarrow> nat" where "con s = unat (es_co_value s)"

lemma sum_ok_simps [simp]:
  "sum_ok n f [] = 0" "sum_ok n f (xs @ ys) = sum_ok n f xs + sum_ok n f ys"
  "sum_ok n f [x] = (if has_err n x then 0 else f x)"
  by (simp_all add: sum_ok_def)

lemma sum_ok_le: "(\<And>s. f s \<le> b) \<Longrightarrow> sum_ok n f xs \<le> b * length xs"
proof (induction xs)
  case (Cons x xs)
  have "sum_ok n f (x # xs) = sum_ok n f [x] + sum_ok n f xs"
    using sum_ok_simps(2) [of n f "[x]" xs] by simp
  moreover have "sum_ok n f [x] \<le> b" using Cons.prems [of x] by simp
  ultimately show ?case using Cons by simp
qed simp

lemma field_bounds: "temp10 s \<le> 2550" "humi10 s \<le> 2550" "rainy s \<le> 1" "co2n s \<le> 65535" "con s \<le> 65535"
proof -
  have "unat (es_temperature s) < 2 ^ LENGTH(8)" "unat (es_humidity s) < 2 ^ LENGTH(8)"
    "unat (es_co2_value s) < 2 ^ LENGTH(16)" "unat (es_co_value s) < 2 ^ LENGTH(16)"
    by (rule unsigned_less)+
  then show "temp10 s \<le> 2550" "humi10 s \<le> 2550" "rainy s \<le> 1" "co2n s \<le> 65535" "con s \<le> 65535"
    by (simp_all add: temp10_def humi10_def rainy_def co2n_def con_def)
qed

text \<open>The state of the task after the samples \<open>xs\<close> of the running period.\<close>

definition holds :: "env_sample_t list \<Rightarrow> data_process \<Rightarrow> bool" where
  "holds xs d \<longleftrightarrow>
     temp_sum d = of_nat (sum_ok 0 temp10 xs) \<and> humi_sum d = of_nat (sum_ok 0 humi10 xs) \<and>
     rain_sum d = of_nat (sum_ok 1 rainy xs) \<and> co2_sum d = of_nat (sum_ok 3 co2n xs) \<and>
     co_sum d = of_nat (sum_ok 4 con xs) \<and> cnt d = of_nat (length xs) \<and>
     (xs \<noteq> [] \<longrightarrow> last_err d = es_err_bits (last xs))"

lemma holds_accumulate: "holds xs d \<Longrightarrow> holds (xs @ [s]) (dp_accumulate s d)"
  by (simp add: holds_def dp_accumulate_def Let_def err_masks temp10_def humi10_def rainy_def co2n_def con_def
    unsigned_of_nat)

lemma holds_clear: "holds [] (dp_clear now d)"
  by (simp add: holds_def dp_clear_def)


section \<open>Averages\<close>

lemma avg_div:
  assumes "a \<le> 65535 * n" "n < 65536" "n \<noteq> 0"
  shows "(ucast ((of_nat a :: u32) div of_nat n) :: u16) = of_nat (a div n)" "a div n \<le> 65535"
proof -
  have q: "a div n \<le> 65535" using div_le_mono [OF assms(1), of n] assms(3) by simp
  then show "a div n \<le> 65535" .
  have "65535 * n \<le> 65535 * 65535" using assms(2) by (intro mult_le_mono2) simp
  then have ua: "unat (of_nat a :: u32) = a" using assms(1) by (intro unat_of_nat_u32) simp
  have un: "unat (of_nat n :: u32) = n" using assms(2) by (intro unat_of_nat_u32) simp
  have "unat ((of_nat a :: u32) div of_nat n) = a div n" unfolding unat_div ua un ..
  then show "(ucast ((of_nat a :: u32) div of_nat n) :: u16) = of_nat (a div n)" by (metis of_nat_unat)
qed

text \<open>The average the task means to compute, over the natural numbers.\<close>

definition avg_spec :: "env_sample_t list \<Rightarrow> env_avg_t" where
  "avg_spec xs = (let n = length xs in
     \<lparr>err_bits = es_err_bits (last xs), temp_avg_x10 = of_nat (sum_ok 0 temp10 xs div n),
      humi_avg_x10 = of_nat (sum_ok 0 humi10 xs div n),
      rain_flag = (if 3 * n \<le> 10 * sum_ok 1 rainy xs then 1 else 0),
      co2_avg = of_nat (sum_ok 3 co2n xs div n), co_avg = of_nat (sum_ok 4 con xs div n),
      sample_count = of_nat n\<rparr>)"

lemma sum_bounds:
  "sum_ok 0 temp10 xs \<le> 2550 * length xs" "sum_ok 0 humi10 xs \<le> 2550 * length xs"
  "sum_ok 1 rainy xs \<le> length xs" "sum_ok 3 co2n xs \<le> 65535 * length xs" "sum_ok 4 con xs \<le> 65535 * length xs"
  using sum_ok_le [of temp10 2550 0 xs] sum_ok_le [of humi10 2550 0 xs] sum_ok_le [of rainy 1 1 xs]
    sum_ok_le [of co2n 65535 3 xs] sum_ok_le [of con 65535 4 xs] field_bounds by simp_all

lemma dp_average_spec:
  assumes "holds xs d" "xs \<noteq> []" "length xs < 65536"
  shows "dp_average d = avg_spec xs"
proof -
  let ?n = "length xs"
  have n: "?n \<noteq> 0" using assms(2) by simp
  have r: "unat (of_nat (sum_ok 1 rainy xs) * 10 :: u32) = 10 * sum_ok 1 rainy xs"
    using sum_bounds(3) [of xs] assms(3) unat_of_nat_u32 [of "sum_ok 1 rainy xs * 10"] by simp
  have c: "unat (of_nat ?n * 3 :: u32) = 3 * ?n"
    using assms(3) unat_of_nat_u32 [of "?n * 3"] by simp
  have rain: "(of_nat ?n * 3 :: u32) \<le> of_nat (sum_ok 1 rainy xs) * 10 \<longleftrightarrow> 3 * ?n \<le> 10 * sum_ok 1 rainy xs"
    unfolding word_le_nat_alt r c ..
  show ?thesis
    using assms(1,2) avg_div(1) [OF _ assms(3) n] sum_bounds [of xs]
    by (simp add: dp_average_def avg_spec_def Let_def holds_def rain del: One_nat_def)
qed

text \<open>A run of the task: per turn what was received and the time; the reports in order.\<close>

fun dp_run :: "(env_sample_t option \<times> u32) list \<Rightarrow> data_process \<Rightarrow> env_avg_t list \<times> data_process" where
  "dp_run [] d = ([], d)"
| "dp_run ((sample, now) # evs) d =
     (let (out, d1) = dp_turn sample now d; (outs, d2) = dp_run evs d1
      in (case out of None \<Rightarrow> outs | Some a \<Rightarrow> a # outs, d2))"

definition received :: "(env_sample_t option \<times> u32) list \<Rightarrow> env_sample_t list" where
  "received evs = List.map_filter fst evs"

lemma received_simps [simp]: "received [] = []"
  "received (e # evs) = (case fst e of None \<Rightarrow> [] | Some s \<Rightarrow> [s]) @ received evs"
  by (auto simp: received_def List.map_filter_def split: option.split)

lemma dp_turn_holds:
  assumes "holds xs d" "length xs < 65535" and ys_def: "ys = xs @ (case sample of None \<Rightarrow> [] | Some s \<Rightarrow> [s])"
  shows "if now - period_start d < DATA_PROCESS_PERIOD_MS
    then fst (dp_turn sample now d) = None \<and> holds ys (snd (dp_turn sample now d)) \<and>
      period_start (snd (dp_turn sample now d)) = period_start d
    else fst (dp_turn sample now d) = (if ys = [] then None else Some (avg_spec ys)) \<and>
      holds [] (snd (dp_turn sample now d)) \<and> period_start (snd (dp_turn sample now d)) = now"
proof -
  define d1 where "d1 = (case sample of None \<Rightarrow> d | Some s \<Rightarrow> dp_accumulate s d)"
  have h: "holds ys d1" using assms(1) holds_accumulate by (auto simp: d1_def ys_def split: option.split)
  have p: "period_start d1 = period_start d" by (simp add: d1_def dp_accumulate_def Let_def split: option.split)
  have len: "length ys < 65536" using assms(2) by (simp add: ys_def split: option.split)
  have "unat (of_nat (length ys) :: u32) = length ys" by (rule unat_of_nat_u32) (use len in simp)
  then have "cnt d1 = 0 \<longleftrightarrow> ys = []" using h by (metis holds_def length_0_conv unat_0 unat_eq_zero of_nat_0)
  then show ?thesis
    using h p dp_average_spec [OF h _ len] holds_clear
    by (simp add: dp_turn_def d1_def [symmetric] Let_def) (simp add: dp_clear_def)
qed

lemma dp_run_blocks:
  assumes "holds xs d" "length xs + length evs < 65535"
  shows "\<exists>blocks pend. concat blocks @ pend = xs @ received evs \<and> [] \<notin> set blocks \<and>
    fst (dp_run evs d) = map avg_spec blocks \<and> holds pend (snd (dp_run evs d))"
  using assms
proof (induction evs arbitrary: xs d)
  case Nil
  then show ?case by (intro exI [of _ "[]"] exI [of _ xs]) simp
next
  case (Cons e evs)
  obtain sample now where e: "e = (sample, now)" by (cases e)
  define ys where "ys = xs @ (case sample of None \<Rightarrow> [] | Some s \<Rightarrow> [s])"
  have ly: "length ys \<le> Suc (length xs)" by (simp add: ys_def split: option.split)
  have t: "if now - period_start d < DATA_PROCESS_PERIOD_MS
    then fst (dp_turn sample now d) = None \<and> holds ys (snd (dp_turn sample now d)) \<and>
      period_start (snd (dp_turn sample now d)) = period_start d
    else fst (dp_turn sample now d) = (if ys = [] then None else Some (avg_spec ys)) \<and>
      holds [] (snd (dp_turn sample now d)) \<and> period_start (snd (dp_turn sample now d)) = now"
    by (rule dp_turn_holds [OF Cons.prems(1) _ ys_def]) (use Cons.prems(2) in simp)
  have run: "fst (dp_run (e # evs) d) = (case fst (dp_turn sample now d) of None \<Rightarrow> [] | Some a \<Rightarrow> [a])
      @ fst (dp_run evs (snd (dp_turn sample now d)))"
    "snd (dp_run (e # evs) d) = snd (dp_run evs (snd (dp_turn sample now d)))"
    by (simp_all add: e split_beta Let_def split: option.split)
  show ?case
  proof (cases "now - period_start d < DATA_PROCESS_PERIOD_MS")
    case True
    then have "fst (dp_turn sample now d) = None" "holds ys (snd (dp_turn sample now d))" using t by auto
    with Cons.IH [of ys "snd (dp_turn sample now d)"] run ly Cons.prems(2) e show ?thesis
      by (auto simp: ys_def)
  next
    case False
    then have o: "fst (dp_turn sample now d) = (if ys = [] then None else Some (avg_spec ys))"
      "holds [] (snd (dp_turn sample now d))" using t by auto
    from Cons.IH [OF o(2)] Cons.prems(2) obtain blocks pend where
      b: "concat blocks @ pend = received evs" "[] \<notin> set blocks"
      "fst (dp_run evs (snd (dp_turn sample now d))) = map avg_spec blocks"
      "holds pend (snd (dp_run evs (snd (dp_turn sample now d))))" by auto
    show ?thesis
      using b run o(1) e
      by (intro exI [of _ "(if ys = [] then [] else [ys]) @ blocks"] exI [of _ pend]) (auto simp: ys_def)
  qed
qed

section \<open>Properties\<close>

definition dp_boot :: data_process where
  "dp_boot = \<lparr>temp_sum = 0, humi_sum = 0, co2_sum = 0, co_sum = 0, rain_sum = 0, cnt = 0,
     last_err = 0, period_start = 0\<rparr>"

lemma holds_boot: "holds [] dp_boot"
  by (simp add: holds_def dp_boot_def)


definition a_sample :: "u8 \<Rightarrow> u8 \<Rightarrow> env_sample_t" where
  "a_sample err t = \<lparr>es_err_bits = err, es_temperature = t, es_humidity = 50, es_rain_status = 1,
     es_co2_value = 400, es_co_value = 10\<rparr>"


text \<open>A turn reports exactly when the minute is over and samples have come in; the period then
  starts anew with empty accumulators, and before that nothing is lost.\<close>

theorem dp_turn_spec:
  assumes "holds xs d" and "length xs < 65535" and "ys = xs @ (case sample of None \<Rightarrow> [] | Some s \<Rightarrow> [s])"
  shows "if uint (now - period_start d) < 60000
    then fst (dp_turn sample now d) = None \<and> holds ys (snd (dp_turn sample now d))
    else fst (dp_turn sample now d) = (if ys = [] then None else Some (avg_spec ys)) \<and>
      holds [] (snd (dp_turn sample now d)) \<and> period_start (snd (dp_turn sample now d)) = now"
  using dp_turn_holds [OF assms(1,2,3), of now] by (simp add: word_less_def split: if_splits)

lemma dp_turn_spec_witness:
  "fst (dp_turn (Some (a_sample 0 20)) 60000 dp_boot) = Some (avg_spec [a_sample 0 20])"
  using dp_turn_spec [OF holds_boot _ refl, of 60000 "Some (a_sample 0 20)"] by (simp add: dp_boot_def)

text \<open>Samples whose temperature could not be read are left out of the sum but not out of the
  divisor: with f of n samples failed and all others at t degrees, the reported average is
  t (n - f) / n, below every temperature that was measured.\<close>

theorem failed_samples_dilute:
  assumes "holds xs d" and "length xs < 65536" and "\<forall>s \<in> set xs. \<not> has_err 0 s \<longrightarrow> unat (es_temperature s) = t"
    and "f = length (filter (has_err 0) xs)" and "0 < f" and "0 < t"
  shows "unat (temp_avg_x10 (dp_average d)) = 10 * t * (length xs - f) div length xs \<and>
    unat (temp_avg_x10 (dp_average d)) < 10 * t"
proof -
  have ne: "xs \<noteq> []" using assms(4,5) by auto
  have s: "\<forall>s \<in> set ys. \<not> has_err 0 s \<longrightarrow> unat (es_temperature s) = t \<Longrightarrow>
      sum_ok 0 temp10 ys = 10 * t * (length ys - length (filter (has_err 0) ys)) \<and>
      length (filter (has_err 0) ys) \<le> length ys" for ys
  proof (induction ys)
    case (Cons y ys)
    have "sum_ok 0 temp10 (y # ys) = sum_ok 0 temp10 [y] + sum_ok 0 temp10 ys"
      using sum_ok_simps(2) [of 0 temp10 "[y]" ys] by simp
    moreover have "temp10 y = unat (es_temperature y) * 10" by (simp add: temp10_def)
    ultimately show ?case using Cons length_filter_le [of "has_err 0" ys] by (auto simp: Suc_diff_le le_SucI)
  qed simp
  let ?n = "length xs"
  have sum: "sum_ok 0 temp10 xs = 10 * t * (?n - f)" "f \<le> ?n" using s [OF assms(3)] assms(4) by auto
  have "sum_ok 0 temp10 xs div ?n \<le> 65535"
    by (rule avg_div(2)) (use sum_bounds(1) [of xs] assms(2) ne in auto)
  then have u: "unat (temp_avg_x10 (dp_average d)) = 10 * t * (?n - f) div ?n"
    using dp_average_spec [OF assms(1) ne assms(2)] sum(1)
    by (simp add: avg_spec_def Let_def unat_of_nat_u16)
  have "10 * t * (?n - f) < 10 * t * ?n" using assms(5,6) ne sum(2) by simp
  then have "10 * t * (?n - f) div ?n < 10 * t" by (simp add: less_mult_imp_div_less)
  with u show ?thesis by simp
qed

lemma failed_samples_dilute_witness:
  "unat (temp_avg_x10 (dp_average (dp_accumulate (a_sample 1 0) (dp_accumulate (a_sample 0 20) dp_boot)))) = 100"
proof -
  have h: "holds ([] @ [a_sample 0 20] @ [a_sample 1 0]) (dp_accumulate (a_sample 1 0) (dp_accumulate (a_sample 0 20) dp_boot))"
    using holds_accumulate [OF holds_accumulate [OF holds_boot]] by simp
  show ?thesis
    using failed_samples_dilute [OF h, of 20 1] by (simp add: a_sample_def has_err_def numeral_2_eq_2 [symmetric])
qed

text \<open>A due average always reaches the display: its one-item queue then holds exactly that
  average; the report queue either holds it at its end or was full for the whole send.\<close>

theorem report_posted:
  assumes "EnvSampleQueue w = Some q" and "ReportQueue w = Some rq" and "LV_RXDataQueue w = Some lq"
    and "q_ok 1 lq" and "q_ok 2 rq" and "wakeups_ok 2 ws'"
    and "fst (dp_turn (fst (xQueueReceive q 60000 ws)) now d) = Some avg"
  shows "\<exists>d' w' rq' lq'. data_process_step now ws ws' (d, w) = (d', w') \<and>
    LV_RXDataQueue w' = Some lq' \<and> q_list lq' = [avg] \<and> ReportQueue w' = Some rq' \<and> q_ok 2 rq' \<and>
    ((\<exists>before. q_list rq' = before @ [avg] \<and> length before < 2) \<or> length (q_list rq') = 2)"
proof -
  let ?lq = "snd (xQueueOverwrite lq avg)" and ?rq = "snd (xQueueSend rq avg 100 ws')"
  have l: "q_list ?lq = [avg]" by (rule overwrite_facts(2) [OF assms(4)])
  have r: "q_ok 2 ?rq" by (rule send_ok [OF assms(5,6)])
  have o: "(\<exists>before. q_list ?rq = before @ [avg] \<and> length before < 2) \<or> length (q_list ?rq) = 2"
    using send_outcome [OF assms(5,6), of avg 100] by blast
  obtain d' where t: "dp_turn (fst (xQueueReceive q 60000 ws)) now d = (Some avg, d')"
    using assms(7) by (metis prod.collapse)
  have "data_process_step now ws ws' (d, w) = (d', w\<lparr>EnvSampleQueue := Some (snd (xQueueReceive q 60000 ws)),
      ReportQueue := Some ?rq, LV_RXDataQueue := Some ?lq\<rparr>)"
    using assms(1-3) t by (simp add: data_process_step_def split_beta Let_def)
  then show ?thesis using l r o by auto
qed

lemma report_posted_witness:
  "\<exists>d' w' lq'. data_process_step 60000 [] [] (dp_accumulate (a_sample 0 20) dp_boot,
      \<lparr>EnvSampleQueue = Some (prvInitialiseNewQueue 8), ReportQueue = Some (prvInitialiseNewQueue 2),
       LV_RXDataQueue = Some (prvInitialiseNewQueue 1)\<rparr>) = (d', w') \<and>
     LV_RXDataQueue w' = Some lq' \<and> q_list lq' = [avg_spec [a_sample 0 20]]"
proof -
  let ?d = "dp_accumulate (a_sample 0 20) dp_boot"
  let ?w = "\<lparr>EnvSampleQueue = Some (prvInitialiseNewQueue 8), ReportQueue = Some (prvInitialiseNewQueue 2),
       LV_RXDataQueue = Some (prvInitialiseNewQueue 1)\<rparr> :: data_queues"
  have w: "EnvSampleQueue ?w = Some (prvInitialiseNewQueue 8)" "ReportQueue ?w = Some (prvInitialiseNewQueue 2)"
    "LV_RXDataQueue ?w = Some (prvInitialiseNewQueue 1)" by simp_all
  have ok: "q_ok 1 (prvInitialiseNewQueue 1 :: env_avg_t queue)" "q_ok 2 (prvInitialiseNewQueue 2 :: env_avg_t queue)"
    by (simp_all add: q_ok_new)
  have h: "holds [a_sample 0 20] ?d" using holds_accumulate [OF holds_boot] by simp
  have "period_start ?d = 0" by (simp add: dp_accumulate_def Let_def dp_boot_def)
  then have t: "fst (dp_turn None 60000 ?d) = Some (avg_spec [a_sample 0 20])"
    using dp_turn_holds [OF h _ refl, of 60000 None] by simp
  have r: "xQueueReceive (prvInitialiseNewQueue 8) 60000 [] = (None, prvInitialiseNewQueue 8 :: env_sample_t queue)"
    by (simp add: prvInitialiseNewQueue_def xQueueGenericReset_def)
  have "fst (dp_turn (fst (xQueueReceive (prvInitialiseNewQueue 8) 60000 [])) 60000 ?d) = Some (avg_spec [a_sample 0 20])"
    unfolding r using t by simp
  from report_posted [OF w ok _ this, of "[]"] show ?thesis by (auto simp: wakeups_ok_def)
qed

end
