(* ===== verification/Applay.thy ===== *)
theory Applay
  imports Rtos_Queue
begin

text \<open>
  The actuators: \<open>Drivers/BSP/APPLAY/applay.c\<close> (fan, heater, humidifier), the motor PWM
  (\<open>BSP/motor/gtim.c\<close>), the indicator lights (\<open>BSP/LIGHT/lihgt.c\<close>), the heater pin
  (\<open>BSP/ST021/st021.c\<close>) and the task that feeds them from \<open>ActuatorCmdQueue\<close>
  (\<open>Task/task_applay\<close>). The state is the hardware the code drives (output register of
  port C, compare register of the PWM timer) and the global status variables.
\<close>

section \<open>Messages\<close>

datatype source_t = SOURCE_AUTO | SOURCE_KEY | SOURCE_LORA | SOURCE_GUI | SOURCE_NETWORK

datatype applay_target_t =
  APPLAY_TARGET_FAN | APPLAY_TARGET_HEAT | APPLAY_TARGET_HUMID
| APPLAY_TARGET_other nat  \<comment> \<open>a value of the C type outside the enumeration\<close>

type_synonym applay_val_t = u32

abbreviation APPLAY_VAL_OFF :: applay_val_t where "APPLAY_VAL_OFF \<equiv> 0"
abbreviation APPLAY_VAL_ON :: applay_val_t where "APPLAY_VAL_ON \<equiv> 1"
abbreviation APPLAY_VAL_LOW :: applay_val_t where "APPLAY_VAL_LOW \<equiv> 1"
abbreviation APPLAY_VAL_MID :: applay_val_t where "APPLAY_VAL_MID \<equiv> 2"
abbreviation APPLAY_VAL_HI :: applay_val_t where "APPLAY_VAL_HI \<equiv> 3"

record applay_msg_t =
  target :: applay_target_t
  val :: applay_val_t
  source :: source_t

section \<open>Hardware and status\<close>

datatype light_id_t = LIGHT_NONE | LIGHT_FAN | LIGHT_HEAT | LIGHT_HUMID

abbreviation GPIO_PIN_2 :: u16 where "GPIO_PIN_2 \<equiv> 4"       \<comment> \<open>heater, active low\<close>
abbreviation fan_light :: u16 where "fan_light \<equiv> 64"        \<comment> \<open>pin 6\<close>
abbreviation hot_light :: u16 where "hot_light \<equiv> 128"       \<comment> \<open>pin 7\<close>
abbreviation water_light :: u16 where "water_light \<equiv> 256"   \<comment> \<open>pin 8\<close>

record actuators =
  gpioc :: u16                    \<comment> \<open>output data register of GPIOC\<close>
  pwm_compare :: int              \<comment> \<open>compare register of the motor timer\<close>
  fan_running :: u8
  fan_speed :: u8
  mode_control :: u8              \<comment> \<open>1 manual, 0 automatic\<close>
  heat_running :: u8
  humid_running :: u8
  fan_mutex :: "bool option"      \<comment> \<open>\<open>FanMutex\<close>: None for NULL, else whether it is held\<close>

definition HAL_GPIO_WritePin :: "u16 \<Rightarrow> bool \<Rightarrow> actuators \<Rightarrow> actuators" where
  "HAL_GPIO_WritePin pin level s =
     s\<lparr>gpioc := (if level then gpioc s OR pin else gpioc s AND NOT pin)\<rparr>"

fun light_off :: "light_id_t \<Rightarrow> actuators \<Rightarrow> actuators" where
  "light_off LIGHT_FAN s = HAL_GPIO_WritePin fan_light False s"
| "light_off LIGHT_HEAT s = HAL_GPIO_WritePin hot_light False s"
| "light_off LIGHT_HUMID s = HAL_GPIO_WritePin water_light False s"
| "light_off LIGHT_NONE s = HAL_GPIO_WritePin (fan_light OR hot_light OR water_light) False s"

fun light_on :: "light_id_t \<Rightarrow> actuators \<Rightarrow> actuators" where
  "light_on LIGHT_FAN s = HAL_GPIO_WritePin fan_light True s"
| "light_on LIGHT_HEAT s = HAL_GPIO_WritePin hot_light True s"
| "light_on LIGHT_HUMID s = HAL_GPIO_WritePin water_light True s"
| "light_on LIGHT_NONE s = s"

definition ST021_CON :: "int \<Rightarrow> actuators \<Rightarrow> actuators" where
  "ST021_CON a s =
     (if a = 1 then HAL_GPIO_WritePin GPIO_PIN_2 False s
      else if a = 0 then HAL_GPIO_WritePin GPIO_PIN_2 True s
      else s)"

definition motor_set_speed :: "int \<Rightarrow> actuators \<Rightarrow> actuators" where
  "motor_set_speed a s = (if a \<ge> 0 \<and> a \<le> 300 then s\<lparr>pwm_compare := a\<rparr> else s)"

text \<open>
  \<open>if (FanMutex != NULL) xSemaphoreTake(FanMutex, portMAX_DELAY)\<close> returns once the
  caller holds the mutex; \<open>xSemaphoreGive\<close> frees it.
\<close>

definition fan_mutex_take :: "actuators \<Rightarrow> actuators" where
  "fan_mutex_take s = (if fan_mutex s \<noteq> None then s\<lparr>fan_mutex := Some True\<rparr> else s)"

definition fan_mutex_give :: "actuators \<Rightarrow> actuators" where
  "fan_mutex_give s = (if fan_mutex s \<noteq> None then s\<lparr>fan_mutex := Some False\<rparr> else s)"

section \<open>The three channels\<close>

abbreviation MOTOR_PWM_LOW :: int where "MOTOR_PWM_LOW \<equiv> 100"
abbreviation MOTOR_PWM_MID :: int where "MOTOR_PWM_MID \<equiv> 200"
abbreviation MOTOR_PWM_HIGH :: int where "MOTOR_PWM_HIGH \<equiv> 300"
abbreviation MOTOR_PWM_OFF :: int where "MOTOR_PWM_OFF \<equiv> 0"
abbreviation FAN_PCT_LOW :: u8 where "FAN_PCT_LOW \<equiv> 33"
abbreviation FAN_PCT_MID :: u8 where "FAN_PCT_MID \<equiv> 66"
abbreviation FAN_PCT_HIGH :: u8 where "FAN_PCT_HIGH \<equiv> 100"

definition fan_apply :: "applay_msg_t option \<Rightarrow> actuators \<Rightarrow> actuators" where
  "fan_apply msg s0 = (case msg of None \<Rightarrow> s0 | Some m \<Rightarrow>
     (let s = fan_mutex_take s0 in
      if source m = SOURCE_GUI then
        (let v = (ucast (val m) :: u8);
             pct = (if v \<le> 100 then v else 100);
             pwm = uint ((ucast pct :: u32) * 3);
             s1 = (if pct = 0
                   then light_off LIGHT_FAN ((motor_set_speed 0 s)\<lparr>fan_running := 0, fan_speed := 0\<rparr>)
                   else light_on LIGHT_FAN ((motor_set_speed pwm s)\<lparr>fan_running := 1, fan_speed := pct\<rparr>))
         in fan_mutex_give (s1\<lparr>mode_control := 1\<rparr>))
      else
        (let is_manual = (source m \<noteq> SOURCE_AUTO);
             manual = (\<lambda>t. if is_manual then t\<lparr>mode_control := 1\<rparr> else t);
             s1 = (if val m = APPLAY_VAL_OFF then
                     light_off LIGHT_FAN (manual
                       ((motor_set_speed MOTOR_PWM_OFF s)\<lparr>fan_running := 0, fan_speed := 0\<rparr>))
                   else if val m = APPLAY_VAL_LOW then
                     light_on LIGHT_FAN (manual
                       ((motor_set_speed MOTOR_PWM_LOW s)\<lparr>fan_running := 1, fan_speed := FAN_PCT_LOW\<rparr>))
                   else if val m = APPLAY_VAL_MID then
                     light_on LIGHT_FAN (manual
                       ((motor_set_speed MOTOR_PWM_MID s)\<lparr>fan_running := 1, fan_speed := FAN_PCT_MID\<rparr>))
                   else if val m = APPLAY_VAL_HI then
                     light_on LIGHT_FAN (manual
                       ((motor_set_speed MOTOR_PWM_HIGH s)\<lparr>fan_running := 1, fan_speed := FAN_PCT_HIGH\<rparr>))
                   else s)
         in fan_mutex_give s1)))"

definition heat_apply :: "applay_msg_t option \<Rightarrow> actuators \<Rightarrow> actuators" where
  "heat_apply msg s0 = (case msg of None \<Rightarrow> s0 | Some m \<Rightarrow>
     (let s = fan_mutex_take s0;
          s1 = (if val m = APPLAY_VAL_OFF
                then light_off LIGHT_HEAT ((ST021_CON 0 s)\<lparr>heat_running := 0\<rparr>)
                else light_on LIGHT_HEAT ((ST021_CON 1 s)\<lparr>heat_running := 1\<rparr>))
      in fan_mutex_give s1))"

definition humid_apply :: "applay_msg_t option \<Rightarrow> actuators \<Rightarrow> actuators" where
  "humid_apply msg s0 = (case msg of None \<Rightarrow> s0 | Some m \<Rightarrow>
     (let s = fan_mutex_take s0;
          s1 = (if val m = APPLAY_VAL_OFF
                then light_off LIGHT_HUMID (s\<lparr>humid_running := 0\<rparr>)
                else light_on LIGHT_HUMID (s\<lparr>humid_running := 1\<rparr>))
      in fan_mutex_give s1))"

definition applay_dispatch :: "applay_msg_t option \<Rightarrow> actuators \<Rightarrow> actuators" where
  "applay_dispatch msg s = (case msg of None \<Rightarrow> s | Some m \<Rightarrow>
     (case target m of
        APPLAY_TARGET_FAN \<Rightarrow> fan_apply msg s
      | APPLAY_TARGET_HEAT \<Rightarrow> heat_apply msg s
      | APPLAY_TARGET_HUMID \<Rightarrow> humid_apply msg s
      | APPLAY_TARGET_other _ \<Rightarrow> s))"

text \<open>
  One turn of the loop of \<open>applay_task\<close>: take one command if there is one and carry it
  out, else sleep 10 ticks. The queue handle may still be NULL. The last component is
  the time slept.
\<close>

definition applay_task_step ::
    "applay_msg_t queue option \<Rightarrow> actuators \<Rightarrow> applay_msg_t queue option \<times> actuators \<times> nat" where
  "applay_task_step hq s = (case hq of
       None \<Rightarrow> (hq, s, 10)
     | Some q \<Rightarrow> (case xQueueReceive q 0 [] of
           (Some am, q') \<Rightarrow> (Some q', applay_dispatch (Some am) s, 0)
         | (None, q') \<Rightarrow> (Some q', s, 10)))"

fun applay_task_run ::
    "nat \<Rightarrow> applay_msg_t queue option \<Rightarrow> actuators \<Rightarrow> applay_msg_t queue option \<times> actuators" where
  "applay_task_run 0 hq s = (hq, s)"
| "applay_task_run (Suc k) hq s =
     (case applay_task_step hq s of (hq', s', _) \<Rightarrow> applay_task_run k hq' s')"

section \<open>Lemmas\<close>

lemmas gpio_defs = HAL_GPIO_WritePin_def ST021_CON_def motor_set_speed_def
  fan_mutex_take_def fan_mutex_give_def

text \<open>The three lights and the heater pin as bits of the port register.\<close>

abbreviation fan_lit :: "actuators \<Rightarrow> bool" where "fan_lit s \<equiv> bit (gpioc s) 6"
abbreviation hot_lit :: "actuators \<Rightarrow> bool" where "hot_lit s \<equiv> bit (gpioc s) 7"
abbreviation water_lit :: "actuators \<Rightarrow> bool" where "water_lit s \<equiv> bit (gpioc s) 8"
abbreviation heater_on :: "actuators \<Rightarrow> bool" where "heater_on s \<equiv> \<not> bit (gpioc s) 2"

lemma bit_pow: "k < 16 \<Longrightarrow> bit (2 ^ k :: u16) n \<longleftrightarrow> n = k"
  by (auto simp: bit_exp_iff)

lemma gpio_write_bit:
  "bit (gpioc (HAL_GPIO_WritePin pin level s)) n =
     (if bit pin n then level else bit (gpioc s) n)"
  using bit_imp_le_length [of "gpioc s" n] bit_imp_le_length [of pin n]
  by (auto simp: HAL_GPIO_WritePin_def bit_or_iff bit_and_iff bit_not_iff)

lemma gpio_write_pin:
  "bit (gpioc (HAL_GPIO_WritePin fan_light l s)) n = (if n = 6 then l else bit (gpioc s) n)"
  "bit (gpioc (HAL_GPIO_WritePin hot_light l s)) n = (if n = 7 then l else bit (gpioc s) n)"
  "bit (gpioc (HAL_GPIO_WritePin water_light l s)) n = (if n = 8 then l else bit (gpioc s) n)"
  "bit (gpioc (HAL_GPIO_WritePin GPIO_PIN_2 l s)) n = (if n = 2 then l else bit (gpioc s) n)"
  unfolding gpio_write_bit
  using bit_pow [of 6 n] bit_pow [of 7 n] bit_pow [of 8 n] bit_pow [of 2 n] by simp_all

text \<open>What a fan command asks for: the PWM compare value and the displayed percentage.\<close>

definition fan_cmd :: "source_t \<Rightarrow> applay_val_t \<Rightarrow> (int \<times> u8) option" where
  "fan_cmd src v =
     (if src = SOURCE_GUI then
        (let p = min 100 (uint v mod 256) in Some (3 * p, word_of_int p))
      else if v = 0 then Some (0, 0) else if v = 1 then Some (100, 33)
      else if v = 2 then Some (200, 66) else if v = 3 then Some (300, 100) else None)"

lemma gui_pct:
  fixes v :: applay_val_t
  defines "p \<equiv> if (ucast v :: u8) \<le> 100 then (ucast v :: u8) else 100"
  shows "uint p = min 100 (uint v mod 256)" "uint ((ucast p :: u32) * 3) = 3 * uint p"
    "p = word_of_int (min 100 (uint v mod 256))"
proof -
  have u: "uint (ucast v :: u8) = uint v mod 256"
    by (simp add: unsigned_ucast_eq take_bit_eq_mod)
  show p: "uint p = min 100 (uint v mod 256)"
  proof (cases "(ucast v :: u8) \<le> 100")
    case True
    then have "uint v mod 256 \<le> 100" using u by (simp add: word_le_def)
    with True u show ?thesis by (simp add: p_def)
  next
    case False
    then have "uint v mod 256 > 100" using u by (simp add: word_le_def)
    with False show ?thesis by (simp add: p_def)
  qed
  then have "uint p \<le> 100" by simp
  then have "uint (ucast p :: u32) = uint p" "uint p * 3 < 2 ^ 32" "0 \<le> uint p"
    by (simp_all add: unsigned_ucast_eq take_bit_eq_mod)
  then show "uint ((ucast p :: u32) * 3) = 3 * uint p"
    by (simp add: uint_word_ariths)
  show "p = word_of_int (min 100 (uint v mod 256))"
    by (simp flip: p)
qed

lemma gpio_frame [simp]:
  "pwm_compare (HAL_GPIO_WritePin p l s) = pwm_compare s"
  "fan_running (HAL_GPIO_WritePin p l s) = fan_running s"
  "fan_speed (HAL_GPIO_WritePin p l s) = fan_speed s"
  "mode_control (HAL_GPIO_WritePin p l s) = mode_control s"
  "heat_running (HAL_GPIO_WritePin p l s) = heat_running s"
  "humid_running (HAL_GPIO_WritePin p l s) = humid_running s"
  "fan_mutex (HAL_GPIO_WritePin p l s) = fan_mutex s"
  by (simp_all add: HAL_GPIO_WritePin_def)

lemma mutex_give_take [simp]:
  "pwm_compare (fan_mutex_give s) = pwm_compare s" "pwm_compare (fan_mutex_take s) = pwm_compare s"
  "fan_running (fan_mutex_give s) = fan_running s" "fan_running (fan_mutex_take s) = fan_running s"
  "fan_speed (fan_mutex_give s) = fan_speed s" "fan_speed (fan_mutex_take s) = fan_speed s"
  "mode_control (fan_mutex_give s) = mode_control s" "mode_control (fan_mutex_take s) = mode_control s"
  "heat_running (fan_mutex_give s) = heat_running s" "heat_running (fan_mutex_take s) = heat_running s"
  "humid_running (fan_mutex_give s) = humid_running s" "humid_running (fan_mutex_take s) = humid_running s"
  "gpioc (fan_mutex_give s) = gpioc s" "gpioc (fan_mutex_take s) = gpioc s"
  "fan_mutex (fan_mutex_give s) = map_option (\<lambda>_. False) (fan_mutex s)"
  "fan_mutex (fan_mutex_take s) = map_option (\<lambda>_. True) (fan_mutex s)"
  by (auto simp: fan_mutex_give_def fan_mutex_take_def)

text \<open>The effect of a fan command the channel understands, in one equation.\<close>

definition fan_effect :: "bool \<Rightarrow> int \<Rightarrow> u8 \<Rightarrow> actuators \<Rightarrow> actuators" where
  "fan_effect manual pwm pct s =
     HAL_GPIO_WritePin fan_light (pwm \<noteq> 0)
       (s\<lparr>pwm_compare := pwm, fan_running := (if pwm = 0 then 0 else 1), fan_speed := pct,
          mode_control := (if manual then 1 else mode_control s)\<rparr>)"

lemma fan_apply_gui:
  assumes "source m = SOURCE_GUI" "fan_cmd (source m) (val m) = Some (pwm, pct)"
  shows "fan_apply (Some m) s = fan_mutex_give (fan_effect True pwm pct (fan_mutex_take s))"
proof -
  define p :: u8 where "p = (if (ucast (val m) :: u8) \<le> 100 then ucast (val m) else 100)"
  note facts = gui_pct [of "val m", folded p_def]
  have pwm: "pwm = 3 * uint p" and pct: "pct = p"
    using assms facts by (simp_all add: fan_cmd_def Let_def)
  have le: "uint p \<le> 100" "0 \<le> uint p" using facts(1) by simp_all
  have "fan_apply (Some m) s = fan_mutex_give
      ((if p = 0
        then light_off LIGHT_FAN ((motor_set_speed 0 (fan_mutex_take s))\<lparr>fan_running := 0, fan_speed := 0\<rparr>)
        else light_on LIGHT_FAN ((motor_set_speed (uint ((ucast p :: u32) * 3)) (fan_mutex_take s))
               \<lparr>fan_running := 1, fan_speed := p\<rparr>))\<lparr>mode_control := 1\<rparr>)"
    using assms(1) by (simp add: fan_apply_def Let_def p_def)
  also have "\<dots> = fan_mutex_give (fan_effect True pwm pct (fan_mutex_take s))"
  proof (cases "p = 0")
    case True
    then show ?thesis using pwm pct
      by (simp add: fan_effect_def motor_set_speed_def HAL_GPIO_WritePin_def)
  next
    case False
    then have "uint p \<noteq> 0" by (simp add: uint_0_iff)
    then show ?thesis using False pwm pct facts(2) le
      by (simp add: fan_effect_def motor_set_speed_def HAL_GPIO_WritePin_def)
  qed
  finally show ?thesis .
qed

lemma fan_apply_level:
  assumes "source m \<noteq> SOURCE_GUI" "fan_cmd (source m) (val m) = Some (pwm, pct)"
  shows "fan_apply (Some m) s =
    fan_mutex_give (fan_effect (source m \<noteq> SOURCE_AUTO) pwm pct (fan_mutex_take s))"
proof -
  have "val m = 0 \<and> pwm = 0 \<and> pct = 0 \<or> val m = 1 \<and> pwm = 100 \<and> pct = 33 \<or>
     val m = 2 \<and> pwm = 200 \<and> pct = 66 \<or> val m = 3 \<and> pwm = 300 \<and> pct = 100"
    using assms by (auto simp: fan_cmd_def split: if_splits)
  then show ?thesis using assms(1)
    by (elim disjE; elim conjE)
      (simp_all add: fan_apply_def Let_def fan_effect_def motor_set_speed_def HAL_GPIO_WritePin_def)
qed

lemma fan_apply_cmd:
  assumes "fan_cmd (source m) (val m) = Some (pwm, pct)"
  shows "fan_apply (Some m) s =
    fan_mutex_give (fan_effect (source m \<noteq> SOURCE_AUTO) pwm pct (fan_mutex_take s))"
  using fan_apply_gui [OF _ assms] fan_apply_level [OF _ assms]
  by (cases "source m = SOURCE_GUI") auto

lemma fan_apply_ignored:
  assumes "fan_cmd (source m) (val m) = None"
  shows "fan_apply (Some m) s = fan_mutex_give (fan_mutex_take s)"
  using assms by (auto simp: fan_cmd_def fan_apply_def Let_def split: if_splits)

lemma fan_cmd_range:
  assumes "fan_cmd src v = Some (pwm, pct)"
  shows "0 \<le> pwm" "pwm \<le> 300" "uint pct \<le> 100" "pct = 0 \<longleftrightarrow> pwm = 0"
    "pwm = 3 * uint pct \<or> (pwm, pct) = (100, 33) \<or> (pwm, pct) = (200, 66)"
proof -
  consider (gui) "pwm = 3 * min 100 (uint v mod 256)" "pct = word_of_int (min 100 (uint v mod 256))"
    | (level) "(pwm, pct) \<in> {(0, 0), (100, 33), (200, 66), (300, 100)}"
  proof (cases "src = SOURCE_GUI")
    case True
    with assms have "(pwm, pct) = (3 * min 100 (uint v mod 256), word_of_int (min 100 (uint v mod 256)))"
      by (simp add: fan_cmd_def Let_def)
    with gui show ?thesis by blast
  next
    case False
    with assms have "(pwm, pct) \<in> {(0, 0), (100, 33), (200, 66), (300, 100)}"
      by (simp add: fan_cmd_def split: if_splits)
    with level show ?thesis by blast
  qed
  then have "0 \<le> pwm \<and> pwm \<le> 300 \<and> uint pct \<le> 100 \<and> (pct = 0 \<longleftrightarrow> pwm = 0) \<and>
    (pwm = 3 * uint pct \<or> (pwm, pct) = (100, 33) \<or> (pwm, pct) = (200, 66))"
  proof cases
    case gui
    have "uint pct = min 100 (uint v mod 256)" using gui_pct(1,3) [of v] gui(2) by simp
    moreover have "pct = 0 \<longleftrightarrow> uint pct = 0" by (simp add: uint_0_iff)
    ultimately show ?thesis using gui(1) by simp
  next
    case level
    then show ?thesis by auto
  qed
  then show "0 \<le> pwm" "pwm \<le> 300" "uint pct \<le> 100" "pct = 0 \<longleftrightarrow> pwm = 0"
    "pwm = 3 * uint pct \<or> (pwm, pct) = (100, 33) \<or> (pwm, pct) = (200, 66)" by auto
qed

text \<open>The invariant of the fan channel and what each operation leaves alone.\<close>

definition fan_ok :: "actuators \<Rightarrow> bool" where
  "fan_ok s \<longleftrightarrow> 0 \<le> pwm_compare s \<and> pwm_compare s \<le> 300 \<and>
     fan_running s = (if pwm_compare s = 0 then 0 else 1) \<and>
     fan_lit s = (pwm_compare s \<noteq> 0) \<and> uint (fan_speed s) \<le> 100 \<and>
     (fan_speed s = 0 \<longleftrightarrow> pwm_compare s = 0) \<and>
     (pwm_compare s = 3 * uint (fan_speed s) \<or>
      (pwm_compare s, fan_speed s) = (100, 33) \<or> (pwm_compare s, fan_speed s) = (200, 66))"

definition heat_ok :: "actuators \<Rightarrow> bool" where
  "heat_ok s \<longleftrightarrow> heat_running s = (if heater_on s then 1 else 0) \<and> hot_lit s = heater_on s"

definition humid_ok :: "actuators \<Rightarrow> bool" where
  "humid_ok s \<longleftrightarrow> humid_running s = (if water_lit s then 1 else 0)"

definition act_ok :: "actuators \<Rightarrow> bool" where
  "act_ok s \<longleftrightarrow> fan_ok s \<and> heat_ok s \<and> humid_ok s \<and> fan_mutex s \<noteq> Some True"

lemma fan_apply_ok: "fan_ok s \<Longrightarrow> fan_ok (fan_apply msg s)"
proof (cases msg)
  case (Some m)
  assume ok: "fan_ok s"
  show ?thesis
  proof (cases "fan_cmd (source m) (val m)")
    case None
    then show ?thesis using ok Some by (simp add: fan_apply_ignored fan_ok_def)
  next
    case (Some c)
    then obtain pwm pct where c: "fan_cmd (source m) (val m) = Some (pwm, pct)" by (cases c) auto
    show ?thesis
      using fan_cmd_range [OF c] \<open>msg = Some m\<close>
      by (simp add: fan_apply_cmd [OF c] fan_ok_def fan_effect_def gpio_write_pin)
  qed
qed (simp add: fan_apply_def)

lemma fan_apply_frame:
  "heat_running (fan_apply msg s) = heat_running s"
  "humid_running (fan_apply msg s) = humid_running s"
  "n \<noteq> 6 \<Longrightarrow> bit (gpioc (fan_apply msg s)) n = bit (gpioc s) n"
proof -
  have "heat_running (fan_apply msg s) = heat_running s
      \<and> humid_running (fan_apply msg s) = humid_running s
      \<and> (n \<noteq> 6 \<longrightarrow> bit (gpioc (fan_apply msg s)) n = bit (gpioc s) n)"
  proof (cases msg)
    case (Some m)
    show ?thesis
    proof (cases "fan_cmd (source m) (val m)")
      case None
      then show ?thesis using Some by (simp add: fan_apply_ignored)
    next
      case (Some c)
      then show ?thesis using \<open>msg = Some m\<close>
        by (cases c) (simp add: fan_apply_cmd fan_effect_def gpio_write_pin)
    qed
  qed (simp add: fan_apply_def)
  then show "heat_running (fan_apply msg s) = heat_running s"
    "humid_running (fan_apply msg s) = humid_running s"
    "n \<noteq> 6 \<Longrightarrow> bit (gpioc (fan_apply msg s)) n = bit (gpioc s) n" by auto
qed

lemma heat_apply_eq:
  "heat_apply (Some m) s = fan_mutex_give
     (HAL_GPIO_WritePin hot_light (val m \<noteq> 0)
       (HAL_GPIO_WritePin GPIO_PIN_2 (val m = 0)
         ((fan_mutex_take s)\<lparr>heat_running := (if val m = 0 then 0 else 1)\<rparr>)))"
  by (simp add: heat_apply_def Let_def ST021_CON_def HAL_GPIO_WritePin_def)

lemma humid_apply_eq:
  "humid_apply (Some m) s = fan_mutex_give
     (HAL_GPIO_WritePin water_light (val m \<noteq> 0)
       ((fan_mutex_take s)\<lparr>humid_running := (if val m = 0 then 0 else 1)\<rparr>))"
  by (simp add: humid_apply_def Let_def)

lemma apply_ok:
  assumes "act_ok s"
  shows "act_ok (fan_apply (Some m) s)" "act_ok (heat_apply (Some m) s)"
    "act_ok (humid_apply (Some m) s)"
proof -
  have mutex: "fan_mutex (fan_apply (Some m) s) \<noteq> Some True"
    by (cases "fan_cmd (source m) (val m)")
      (auto simp: fan_apply_ignored fan_apply_cmd fan_effect_def)
  show "act_ok (fan_apply (Some m) s)"
    using assms mutex fan_apply_ok [of s "Some m"] fan_apply_frame [where msg = "Some m" and s = s]
    by (simp add: act_ok_def heat_ok_def humid_ok_def)
  show "act_ok (heat_apply (Some m) s)"
    using assms by (auto simp: act_ok_def fan_ok_def heat_ok_def humid_ok_def heat_apply_eq gpio_write_pin)
  show "act_ok (humid_apply (Some m) s)"
    using assms by (auto simp: act_ok_def fan_ok_def heat_ok_def humid_ok_def humid_apply_eq gpio_write_pin)
qed

lemma dispatch_ok [inv_intros]: "act_ok s \<Longrightarrow> act_ok (applay_dispatch msg s)"
  by (auto simp: applay_dispatch_def apply_ok split: option.split applay_target_t.split)

section \<open>Properties\<close>

text \<open>Every fan command is carried out exactly as its source and value ask: the GUI's
  percentage (cut to a byte, capped at 100) drives the PWM at three times its value, every
  other source selects one of the four levels; a value outside the levels changes nothing;
  only automatic commands leave the manual flag alone.\<close>

theorem fan_apply_spec:
  "let s' = fan_apply (Some m) s in
   (pwm_compare s', fan_speed s', fan_running s', fan_lit s', mode_control s') =
   (case fan_cmd (source m) (val m) of
      None \<Rightarrow> (pwm_compare s, fan_speed s, fan_running s, fan_lit s, mode_control s)
    | Some (pwm, pct) \<Rightarrow> (pwm, pct, (if pwm = 0 then 0 else 1), pwm \<noteq> 0,
        (if source m = SOURCE_AUTO then mode_control s else 1)))"
proof (cases "fan_cmd (source m) (val m)")
  case None
  then show ?thesis by (simp add: fan_apply_ignored)
next
  case (Some c)
  then show ?thesis
    by (cases c) (simp add: fan_apply_cmd fan_effect_def gpio_write_pin Let_def)
qed

text \<open>The actuator invariant (PWM within 0..300, running flag, indicator light and
  percentage agreeing with it; heater pin and its light and flag agreeing; humidifier light
  and flag agreeing; the mutex not held between commands) survives any number of turns of
  the actuator task on any queue contents.\<close>

theorem applay_task_invariant:
  assumes "act_ok s"
  shows "act_ok (snd (applay_task_run k hq s))"
  using assms
proof (induction k arbitrary: hq s)
  case (Suc k)
  have "act_ok (fst (snd (applay_task_step hq s)))"
    using Suc.prems dispatch_ok
    by (auto simp: applay_task_step_def split: option.split prod.split)
  with Suc.IH show ?case by (simp add: split_beta)
qed simp

definition act_boot :: actuators where
  "act_boot = \<lparr>gpioc = GPIO_PIN_2, pwm_compare = 0, fan_running = 0, fan_speed = 0,
     mode_control = 0, heat_running = 0, humid_running = 0, fan_mutex = Some False\<rparr>"

lemma act_boot_ok: "act_ok act_boot"
  by (simp add: act_ok_def fan_ok_def heat_ok_def humid_ok_def act_boot_def)

lemma applay_task_invariant_witness:
  "act_ok act_boot \<and> act_ok (snd (applay_task_run 2 (Some (prvInitialiseNewQueue 10)) act_boot))"
  using applay_task_invariant [OF act_boot_ok] act_boot_ok by simp

text \<open>The three channels are independent: a command to one of them never touches the
  status, the pins or (unless it is the fan) the manual flag of the others, and a message
  for an unknown target changes nothing.\<close>

theorem dispatch_independent:
  "(target m \<noteq> APPLAY_TARGET_FAN \<longrightarrow>
      pwm_compare (applay_dispatch (Some m) s) = pwm_compare s \<and>
      fan_speed (applay_dispatch (Some m) s) = fan_speed s \<and>
      fan_running (applay_dispatch (Some m) s) = fan_running s \<and>
      mode_control (applay_dispatch (Some m) s) = mode_control s \<and>
      fan_lit (applay_dispatch (Some m) s) = fan_lit s) \<and>
   (target m \<noteq> APPLAY_TARGET_HEAT \<longrightarrow>
      heat_running (applay_dispatch (Some m) s) = heat_running s \<and>
      heater_on (applay_dispatch (Some m) s) = heater_on s \<and>
      hot_lit (applay_dispatch (Some m) s) = hot_lit s) \<and>
   (target m \<noteq> APPLAY_TARGET_HUMID \<longrightarrow>
      humid_running (applay_dispatch (Some m) s) = humid_running s \<and>
      water_lit (applay_dispatch (Some m) s) = water_lit s)"
  by (cases "target m")
    (simp_all add: applay_dispatch_def fan_apply_frame heat_apply_eq humid_apply_eq gpio_write_pin)

lemma dispatch_independent_witness:
  "\<exists>m. target m = APPLAY_TARGET_HEAT \<and> pwm_compare (applay_dispatch (Some m) act_boot) = 0
      \<and> humid_running (applay_dispatch (Some m) act_boot) = 0"
  using dispatch_independent [of "\<lparr>target = APPLAY_TARGET_HEAT, val = 1, source = SOURCE_LORA\<rparr>" act_boot]
  by (intro exI [of _ "\<lparr>target = APPLAY_TARGET_HEAT, val = 1, source = SOURCE_LORA\<rparr>"])
    (simp add: act_boot_def)

text \<open>The actuator task carries out the waiting commands in the order they were sent:
  after as many turns as there are commands the queue is empty and the actuators are in the
  state the commands produce one after the other.\<close>

theorem applay_task_drains:
  assumes "q_ok n q" and "k = length (q_list q)"
  shows "\<exists>q'. applay_task_run k (Some q) s
      = (Some q', fold (\<lambda>m. applay_dispatch (Some m)) (q_list q) s) \<and> q_list q' = [] \<and> q_ok n q'"
  using assms
proof (induction k arbitrary: q s)
  case 0
  then have "q_list q = []" by (metis length_0_conv)
  with 0 show ?case by simp
next
  case (Suc k)
  then obtain m ms where q: "q_list q = m # ms" by (metis length_Suc_conv)
  obtain q1 where r: "xQueueReceive q 0 [] = (Some m, q1)"
    using rtosq.receive_hd [OF Suc.prems(1) q] by (metis prod.collapse)
  have "q_list q1 = ms" "q_ok n q1"
    using rtosq.receive_hd [OF Suc.prems(1) q] rtosq.ok_receive [OF Suc.prems(1)] r by simp_all
  with Suc.IH [of q1 "applay_dispatch (Some m) s"] Suc.prems(2) q r show ?case
    by (simp add: applay_task_step_def)
qed

lemma applay_task_drains_witness:
  "let q = snd (xQueueSend (prvInitialiseNewQueue 10)
        \<lparr>target = APPLAY_TARGET_FAN, val = 2, source = SOURCE_LORA\<rparr> 0 []) in
   q_ok 10 q \<and> (\<exists>q'. fst (applay_task_run 1 (Some q) act_boot) = Some q' \<and> q_list q' = [])"
proof -
  let ?m = "\<lparr>target = APPLAY_TARGET_FAN, val = 2, source = SOURCE_LORA\<rparr>"
  let ?q = "snd (xQueueSend (prvInitialiseNewQueue 10) ?m 0 [])"
  have ok: "q_ok 10 (prvInitialiseNewQueue 10 :: applay_msg_t queue)" by (rule q_ok_new) simp
  have ok': "q_ok 10 ?q" by (rule rtosq.ok_send [OF ok])
  have "1 = length (q_list ?q)" using rtosq.send_room [OF ok, of ?m] by simp
  from applay_task_drains [OF ok' this, of act_boot] ok' show ?thesis
    unfolding Let_def by (metis fst_conv)
qed

end
