(* ===== verification/Task_Sensor.thy ===== *)
theory Task_Sensor
  imports Task_Data Applay
begin

text \<open>
  The sensor task (\<open>Middlewares/FreeRTOS/Task/task_sensor\<close>): every 500 ms it judges what the
  drivers returned, keeps the last valid analogue values, decides the fan level, sends it to
  \<open>ActuatorCmdQueue\<close> when it changes in automatic mode, posts the raw sample, prints changes
  of the error bits and ends manual mode after 30 minutes. What the drivers return in a turn
  (theory \<open>Sensor_Chain\<close>) is the record \<open>sensor_readings\<close>.
\<close>

section \<open>State\<close>

record sensor_readings =
  dht_ret :: u8
  r_temperature :: u8
  r_humidity :: u8
  r_rain_ao :: u16
  r_rain_status :: u8
  r_co2 :: u16
  r_co_ao :: u16

text \<open>The static variables of the file and of the task.\<close>

record sensor_task =
  read_error :: u8
  last_valid_rain :: u16
  last_valid_co2 :: u16
  last_valid_co :: u16
  last_read_error :: u8
  last_auto_cmd :: applay_val_t
  last_was_full :: u8
  manual_enter_tick :: u32
  prev_mode_control :: u8

datatype sensor_msg =
    Sensor_Err nat | Sensor_Ok nat | Read_Error u8 | Auto_Dropped | Sample_Dropped

text \<open>What the tasks share: the queues, the event group, the actuators, the buzzer, the console.\<close>

record firmware = data_queues +
  ActuatorCmdQueue :: "applay_msg_t queue option"
  SensorEventGroup :: u32
  act :: actuators
  beep_pin :: bool
  console :: "sensor_msg list"

abbreviation MODE_TIMEOUT_MS :: u32 where "MODE_TIMEOUT_MS \<equiv> 1800000"
abbreviation CO2_SAFE_THRESHOLD :: u16 where "CO2_SAFE_THRESHOLD \<equiv> 1000"
abbreviation CO_SAFE_THRESHOLD :: u16 where "CO_SAFE_THRESHOLD \<equiv> 200"
abbreviation SENSOR_DATA_READY :: u32 where "SENSOR_DATA_READY \<equiv> 1"

section \<open>One turn of the task\<close>

definition put_err :: "bool \<Rightarrow> u8 \<Rightarrow> u8 \<Rightarrow> u8" where
  "put_err ok m e = (if ok then e AND NOT m else e OR m)"

definition dht_valid :: "sensor_readings \<Rightarrow> bool" where
  "dht_valid r \<longleftrightarrow> dht_ret r = 0 \<and> r_temperature r > 0 \<and> r_temperature r < 50 \<and>
     r_humidity r > 0 \<and> r_humidity r < 100"

definition adc_valid :: "u16 \<Rightarrow> bool" where
  "adc_valid v \<longleftrightarrow> v > 0 \<and> v < 4096"

text \<open>Judging the readings: the sample of this turn and the new static variables.\<close>

definition sensor_judge :: "sensor_readings \<Rightarrow> sensor_task \<Rightarrow> env_sample_t \<times> sensor_task" where
  "sensor_judge r t =
     (let t1 = t\<lparr>read_error := put_err (dht_valid r) 1 (read_error t)\<rparr>;
          rain_ok = adc_valid (r_rain_ao r);
          t2 = t1\<lparr>last_valid_rain := (if rain_ok then r_rain_ao r else last_valid_rain t1),
                  read_error := put_err rain_ok 2 (read_error t1)\<rparr>;
          co2_ok = adc_valid (r_co2 r);
          co2_value = (if co2_ok then r_co2 r else last_valid_co2 t2);
          t3 = t2\<lparr>last_valid_co2 := (if co2_ok then r_co2 r else last_valid_co2 t2),
                  read_error := put_err co2_ok 8 (read_error t2)\<rparr>;
          co_ok = adc_valid (r_co_ao r);
          co_value = (if co_ok then r_co_ao r else last_valid_co t3);
          t4 = t3\<lparr>last_valid_co := (if co_ok then r_co_ao r else last_valid_co t3),
                  read_error := put_err co_ok 16 (read_error t3)\<rparr>
      in (\<lparr>es_err_bits = read_error t4, es_temperature = r_temperature r, es_humidity = r_humidity r,
           es_rain_status = r_rain_status r, es_co2_value = co2_value, es_co_value = co_value\<rparr>, t4))"

text \<open>The fan level the automatic control wants; the flag says that the buzzer is switched off.\<close>

definition auto_decision :: "env_sample_t \<Rightarrow> applay_val_t \<times> bool" where
  "auto_decision s =
     (if es_err_bits s AND 8 = 0 \<and> es_co2_value s > CO2_SAFE_THRESHOLD then (APPLAY_VAL_HI, False)
      else if es_err_bits s AND 16 = 0 \<and> es_co_value s > CO_SAFE_THRESHOLD then (APPLAY_VAL_HI, False)
      else if es_err_bits s AND 1 = 0 \<and> es_humidity s > 60 then (APPLAY_VAL_MID, False)
      else if es_err_bits s AND 2 = 0 \<and> es_rain_status s = 0 then (APPLAY_VAL_LOW, False)
      else (APPLAY_VAL_OFF, True))"

definition fan_auto_msg :: "applay_val_t \<Rightarrow> applay_msg_t" where
  "fan_auto_msg v = \<lparr>target = APPLAY_TARGET_FAN, val = v, source = SOURCE_AUTO\<rparr>"

definition auto_control :: "applay_val_t \<Rightarrow> sensor_task \<times> 'z firmware_scheme \<Rightarrow> sensor_task \<times> 'z firmware_scheme" where
  "auto_control auto_cmd = (\<lambda>(t, w).
     if auto_cmd \<noteq> last_auto_cmd t then
       (t\<lparr>last_auto_cmd := auto_cmd\<rparr>,
        if mode_control (act w) = 0 then
          (case ActuatorCmdQueue w of
             None \<Rightarrow> w\<lparr>console := console w @ [Auto_Dropped]\<rparr>
           | Some q \<Rightarrow> (case xQueueSend q (fan_auto_msg auto_cmd) 0 [] of (res, q') \<Rightarrow>
               w\<lparr>ActuatorCmdQueue := Some q',
                 console := console w @ (if res \<noteq> pdPASS then [Auto_Dropped] else [])\<rparr>))
        else w)
     else (t, w))"

definition post_sample :: "env_sample_t \<Rightarrow> sensor_task \<times> 'z firmware_scheme \<Rightarrow> sensor_task \<times> 'z firmware_scheme" where
  "post_sample s = (\<lambda>(t, w). case EnvSampleQueue w of
       None \<Rightarrow> (t, w)
     | Some q \<Rightarrow> (case xQueueSend q s 0 [] of (res, q') \<Rightarrow>
         if res \<noteq> pdPASS then
           (if last_was_full t = 0
            then (t\<lparr>last_was_full := 1\<rparr>,
                  w\<lparr>EnvSampleQueue := Some q', console := console w @ [Sample_Dropped]\<rparr>)
            else (t, w\<lparr>EnvSampleQueue := Some q'\<rparr>))
         else (t\<lparr>last_was_full := 0\<rparr>, w\<lparr>EnvSampleQueue := Some q'\<rparr>)))"

definition edge_msgs :: "u8 \<Rightarrow> u8 \<Rightarrow> nat \<Rightarrow> sensor_msg list" where
  "edge_msgs cur prev n =
     (if bit cur n \<and> \<not> bit prev n then [Sensor_Err n]
      else if \<not> bit cur n \<and> bit prev n then [Sensor_Ok n] else [])"

definition print_sensor_error_state :: "u8 \<Rightarrow> sensor_task \<times> 'z firmware_scheme \<Rightarrow> sensor_task \<times> 'z firmware_scheme" where
  "print_sensor_error_state cur = (\<lambda>(t, w).
     if cur = last_read_error t then (t, w)
     else (t\<lparr>last_read_error := cur\<rparr>,
           w\<lparr>console := console w @ edge_msgs cur (last_read_error t) 0 @ edge_msgs cur (last_read_error t) 1
              @ edge_msgs cur (last_read_error t) 3 @ edge_msgs cur (last_read_error t) 4 @ [Read_Error cur]\<rparr>))"

text \<open>\<open>t0\<close> and \<open>now\<close>: the two reads of the tick count.\<close>

definition manual_timeout :: "u32 \<Rightarrow> u32 \<Rightarrow> sensor_task \<times> 'z firmware_scheme \<Rightarrow> sensor_task \<times> 'z firmware_scheme" where
  "manual_timeout t0 now = (\<lambda>(t, w).
     if mode_control (act w) = 1 then
       (let t1 = (if prev_mode_control t = 0 then t\<lparr>manual_enter_tick := t0\<rparr> else t);
            t2 = t1\<lparr>prev_mode_control := 1\<rparr>
        in if now - manual_enter_tick t2 \<ge> MODE_TIMEOUT_MS
           then (t2\<lparr>prev_mode_control := 0\<rparr>, w\<lparr>act := (act w)\<lparr>mode_control := 0\<rparr>\<rparr>)
           else (t2, w))
     else (t, w))"

definition sensor_step :: "sensor_readings \<Rightarrow> u32 \<Rightarrow> u32 \<Rightarrow> sensor_task \<times> 'z firmware_scheme \<Rightarrow> sensor_task \<times> 'z firmware_scheme" where
  "sensor_step r t0 now = (\<lambda>(t, w).
     (let (s, t1) = sensor_judge r t;
          (auto_cmd, quiet) = auto_decision s;
          w1 = (if quiet then w\<lparr>beep_pin := False\<rparr> else w);
          (t2, w2) = auto_control auto_cmd (t1, w1);
          w3 = w2\<lparr>SensorEventGroup := SensorEventGroup w2 OR SENSOR_DATA_READY\<rparr>
      in manual_timeout t0 now (print_sensor_error_state (es_err_bits s) (post_sample s (t2, w3)))))"

definition sensor_boot :: sensor_task where
  "sensor_boot = \<lparr>read_error = 0, last_valid_rain = 0, last_valid_co2 = 0, last_valid_co = 0,
     last_read_error = 255, last_auto_cmd = -1, last_was_full = 0, manual_enter_tick = 0,
     prev_mode_control = 0\<rparr>"

text \<open>
  The turns of the task with the ticks they run at; before each turn the other tasks have
  turned what is shared from \<open>w\<close> into \<open>f w\<close>.
\<close>

fun sensor_run :: "(sensor_readings \<times> u32 \<times> (firmware \<Rightarrow> firmware)) list \<Rightarrow> sensor_task \<times> firmware \<Rightarrow> sensor_task \<times> firmware" where
  "sensor_run [] p = p"
| "sensor_run ((r, now, f) # evs) p = sensor_run evs (sensor_step r now now (fst p, f (snd p)))"

section \<open>Lemmas\<close>

lemma put_err_bit: "n < 8 \<Longrightarrow> m < 8 \<Longrightarrow> bit (put_err ok (2 ^ m) e) n = (if n = m then \<not> ok else bit e n)"
  by (auto simp: put_err_def bit_and_iff bit_or_iff bit_not_iff bit_exp_iff)

lemma put_err_bits:
  assumes "n < 8"
  shows "bit (put_err ok 1 e) n = (if n = 0 then \<not> ok else bit e n)"
    "bit (put_err ok 2 e) n = (if n = 1 then \<not> ok else bit e n)"
    "bit (put_err ok 8 e) n = (if n = 3 then \<not> ok else bit e n)"
    "bit (put_err ok 16 e) n = (if n = 4 then \<not> ok else bit e n)"
  using put_err_bit [OF assms, of 0 ok e] put_err_bit [OF assms, of 1 ok e] put_err_bit [OF assms, of 3 ok e]
    put_err_bit [OF assms, of 4 ok e] by simp_all

lemma err_bits_judge:
  "es_err_bits (fst (sensor_judge r t)) = put_err (adc_valid (r_co_ao r)) 16
     (put_err (adc_valid (r_co2 r)) 8 (put_err (adc_valid (r_rain_ao r)) 2
        (put_err (dht_valid r) 1 (read_error t))))"
  by (simp add: sensor_judge_def Let_def)

lemma judge_bits:
  "has_err 0 (fst (sensor_judge r t)) \<longleftrightarrow> \<not> dht_valid r"
  "has_err 1 (fst (sensor_judge r t)) \<longleftrightarrow> \<not> adc_valid (r_rain_ao r)"
  "has_err 3 (fst (sensor_judge r t)) \<longleftrightarrow> \<not> adc_valid (r_co2 r)"
  "has_err 4 (fst (sensor_judge r t)) \<longleftrightarrow> \<not> adc_valid (r_co_ao r)"
  unfolding has_err_def err_bits_judge by (simp_all add: put_err_bits)

lemma judge_values:
  "es_temperature (fst (sensor_judge r t)) = r_temperature r"
  "es_humidity (fst (sensor_judge r t)) = r_humidity r"
  "es_rain_status (fst (sensor_judge r t)) = r_rain_status r"
  "es_co2_value (fst (sensor_judge r t)) = (if adc_valid (r_co2 r) then r_co2 r else last_valid_co2 t)"
  "es_co_value (fst (sensor_judge r t)) = (if adc_valid (r_co_ao r) then r_co_ao r else last_valid_co t)"
  by (simp_all add: sensor_judge_def Let_def)

lemma judge_statics:
  "last_valid_rain (snd (sensor_judge r t)) = (if adc_valid (r_rain_ao r) then r_rain_ao r else last_valid_rain t)"
  "last_valid_co2 (snd (sensor_judge r t)) = (if adc_valid (r_co2 r) then r_co2 r else last_valid_co2 t)"
  "last_valid_co (snd (sensor_judge r t)) = (if adc_valid (r_co_ao r) then r_co_ao r else last_valid_co t)"
  "last_auto_cmd (snd (sensor_judge r t)) = last_auto_cmd t"
  "manual_enter_tick (snd (sensor_judge r t)) = manual_enter_tick t"
  "prev_mode_control (snd (sensor_judge r t)) = prev_mode_control t"
  by (simp_all add: sensor_judge_def Let_def)

text \<open>The fan level from the raw readings: it does not depend on what came before.\<close>

definition fan_level :: "sensor_readings \<Rightarrow> applay_val_t" where
  "fan_level r =
     (if 1000 < r_co2 r \<and> r_co2 r < 4096 \<or> 200 < r_co_ao r \<and> r_co_ao r < 4096 then 3
      else if dht_valid r \<and> r_humidity r > 60 then 2
      else if 0 < r_rain_ao r \<and> r_rain_ao r < 4096 \<and> r_rain_status r = 0 then 1 else 0)"

lemma adc_above: "c < v \<Longrightarrow> adc_valid v \<longleftrightarrow> v < 4096"
  unfolding adc_valid_def using word_gt_0 by fastforce

lemma decision_level: "fst (auto_decision (fst (sensor_judge r t))) = fan_level r"
proof -
  have c2: "adc_valid (r_co2 r) \<and> 1000 < r_co2 r \<longleftrightarrow> 1000 < r_co2 r \<and> r_co2 r < 4096"
    and c: "adc_valid (r_co_ao r) \<and> 200 < r_co_ao r \<longleftrightarrow> 200 < r_co_ao r \<and> r_co_ao r < 4096"
    using adc_above by blast+
  have split: "fst (auto_decision s) = (if \<not> has_err 3 s \<and> 1000 < es_co2_value s \<or> \<not> has_err 4 s \<and> 200 < es_co_value s
     then 3 else if \<not> has_err 0 s \<and> 60 < es_humidity s then 2
     else if \<not> has_err 1 s \<and> es_rain_status s = 0 then 1 else 0)" for s
    unfolding auto_decision_def err_masks by simp
  show ?thesis unfolding split judge_bits not_not judge_values fan_level_def
    by (simp only: c2 [symmetric] c [symmetric] adc_valid_def [of "r_rain_ao r"] cong: conj_cong if_cong) simp
qed

text \<open>What a turn does to the parts, in the order of the code.\<close>

lemma step_unfold:
  assumes "sensor_judge r t = (s, t1)"
  shows "sensor_step r t0 now (t, w) = manual_timeout t0 now (print_sensor_error_state (es_err_bits s)
    (post_sample s (case auto_control (fan_level r) (t1, if snd (auto_decision s) then w\<lparr>beep_pin := False\<rparr> else w)
       of (t2, w2) \<Rightarrow> (t2, w2\<lparr>SensorEventGroup := SensorEventGroup w2 OR SENSOR_DATA_READY\<rparr>))))"
  using decision_level [of r t] assms
  by (simp add: sensor_step_def Let_def split_beta)

text \<open>Frames of the parts.\<close>

lemma post_sample_frame:
  "ActuatorCmdQueue (snd (post_sample s p)) = ActuatorCmdQueue (snd p)" "act (snd (post_sample s p)) = act (snd p)"
  "last_auto_cmd (fst (post_sample s p)) = last_auto_cmd (fst p)"
  "last_valid_rain (fst (post_sample s p)) = last_valid_rain (fst p)"
  "last_valid_co2 (fst (post_sample s p)) = last_valid_co2 (fst p)"
  "last_valid_co (fst (post_sample s p)) = last_valid_co (fst p)"
  "manual_enter_tick (fst (post_sample s p)) = manual_enter_tick (fst p)"
  "prev_mode_control (fst (post_sample s p)) = prev_mode_control (fst p)"
  by (simp_all add: post_sample_def split_beta split: option.split)

lemma print_frame:
  "ActuatorCmdQueue (snd (print_sensor_error_state e p)) = ActuatorCmdQueue (snd p)"
  "EnvSampleQueue (snd (print_sensor_error_state e p)) = EnvSampleQueue (snd p)"
  "act (snd (print_sensor_error_state e p)) = act (snd p)"
  "last_auto_cmd (fst (print_sensor_error_state e p)) = last_auto_cmd (fst p)"
  "last_valid_rain (fst (print_sensor_error_state e p)) = last_valid_rain (fst p)"
  "last_valid_co2 (fst (print_sensor_error_state e p)) = last_valid_co2 (fst p)"
  "last_valid_co (fst (print_sensor_error_state e p)) = last_valid_co (fst p)"
  "manual_enter_tick (fst (print_sensor_error_state e p)) = manual_enter_tick (fst p)"
  "prev_mode_control (fst (print_sensor_error_state e p)) = prev_mode_control (fst p)"
  by (simp_all add: print_sensor_error_state_def split_beta)

lemma timeout_frame:
  "ActuatorCmdQueue (snd (manual_timeout a b p)) = ActuatorCmdQueue (snd p)"
  "EnvSampleQueue (snd (manual_timeout a b p)) = EnvSampleQueue (snd p)"
  "fan_speed (act (snd (manual_timeout a b p))) = fan_speed (act (snd p))"
  "last_auto_cmd (fst (manual_timeout a b p)) = last_auto_cmd (fst p)"
  "last_valid_rain (fst (manual_timeout a b p)) = last_valid_rain (fst p)"
  "last_valid_co2 (fst (manual_timeout a b p)) = last_valid_co2 (fst p)"
  "last_valid_co (fst (manual_timeout a b p)) = last_valid_co (fst p)"
  by (simp_all add: manual_timeout_def split_beta Let_def)

lemma auto_frame:
  "EnvSampleQueue (snd (auto_control v p)) = EnvSampleQueue (snd p)"
  "act (snd (auto_control v p)) = act (snd p)"
  "last_auto_cmd (fst (auto_control v p)) = v"
  "last_valid_rain (fst (auto_control v p)) = last_valid_rain (fst p)"
  "last_valid_co2 (fst (auto_control v p)) = last_valid_co2 (fst p)"
  "last_valid_co (fst (auto_control v p)) = last_valid_co (fst p)"
  "manual_enter_tick (fst (auto_control v p)) = manual_enter_tick (fst p)"
  "prev_mode_control (fst (auto_control v p)) = prev_mode_control (fst p)"
  by (simp_all add: auto_control_def split_beta split: option.split)

lemmas sensor_frames = post_sample_frame print_frame timeout_frame auto_frame judge_statics

lemma step_auto_cmd: "last_auto_cmd (fst (sensor_step r a b (t, w))) = fan_level r"
proof -
  obtain s t1 where j: "sensor_judge r t = (s, t1)" by fastforce
  show ?thesis unfolding step_unfold [OF j] by (simp add: sensor_frames split_beta)
qed

lemma step_cmd_queue:
  assumes "ActuatorCmdQueue w = Some q"
  shows "ActuatorCmdQueue (snd (sensor_step r a b (t, w))) =
    Some (if fan_level r \<noteq> last_auto_cmd t \<and> mode_control (act w) = 0
          then snd (xQueueSend q (fan_auto_msg (fan_level r)) 0 []) else q)"
proof -
  obtain s t1 where j: "sensor_judge r t = (s, t1)" by fastforce
  then have "last_auto_cmd t1 = last_auto_cmd t" using judge_statics(4) [of r t] by simp
  with assms show ?thesis unfolding step_unfold [OF j]
    by (simp add: sensor_frames split_beta) (simp add: auto_control_def split_beta)
qed

lemma step_cmd_none:
  assumes "ActuatorCmdQueue w = None"
  shows "ActuatorCmdQueue (snd (sensor_step r a b (t, w))) = None"
proof -
  obtain s t1 where j: "sensor_judge r t = (s, t1)" by fastforce
  with assms show ?thesis unfolding step_unfold [OF j]
    by (simp add: sensor_frames split_beta) (simp add: auto_control_def split_beta)
qed

lemma step_statics:
  "last_valid_rain (fst (sensor_step r a b (t, w))) = (if adc_valid (r_rain_ao r) then r_rain_ao r else last_valid_rain t)"
  "last_valid_co2 (fst (sensor_step r a b (t, w))) = (if adc_valid (r_co2 r) then r_co2 r else last_valid_co2 t)"
  "last_valid_co (fst (sensor_step r a b (t, w))) = (if adc_valid (r_co_ao r) then r_co_ao r else last_valid_co t)"
proof -
  obtain s t1 where j: "sensor_judge r t = (s, t1)" by fastforce
  have j': "t1 = snd (sensor_judge r t)" by (simp add: j)
  show "last_valid_rain (fst (sensor_step r a b (t, w))) = (if adc_valid (r_rain_ao r) then r_rain_ao r else last_valid_rain t)"
    "last_valid_co2 (fst (sensor_step r a b (t, w))) = (if adc_valid (r_co2 r) then r_co2 r else last_valid_co2 t)"
    "last_valid_co (fst (sensor_step r a b (t, w))) = (if adc_valid (r_co_ao r) then r_co_ao r else last_valid_co t)"
    unfolding step_unfold [OF j] j' by (simp_all add: sensor_frames split_beta)
qed

lemma step_sample:
  assumes "EnvSampleQueue w = Some q"
  shows "EnvSampleQueue (snd (sensor_step r a b (t, w)))
    = Some (snd (xQueueSend q (fst (sensor_judge r t)) 0 []))"
proof -
  obtain s t1 where j: "sensor_judge r t = (s, t1)" by fastforce
  have e: "EnvSampleQueue (snd (post_sample s p)) = Some (snd (xQueueSend q s 0 []))"
    if "EnvSampleQueue (snd p) = Some q" for p :: "sensor_task \<times> 'a firmware_scheme"
    using that by (simp add: post_sample_def split_beta)
  show ?thesis unfolding step_unfold [OF j] timeout_frame print_frame
    by (subst e) (use assms j in \<open>simp_all add: split_beta auto_frame\<close>)
qed

text \<open>The fan speed and the manual flag: a turn changes at most the flag, in the last part.\<close>

definition manual_clock :: "u32 \<Rightarrow> u32 \<Rightarrow> u8 \<Rightarrow> u8 \<times> u32 \<Rightarrow> u8 \<times> u8 \<times> u32" where
  "manual_clock a b m = (\<lambda>(prev, enter).
     if m = 1 then
       (let e = (if prev = 0 then a else enter)
        in if b - e \<ge> MODE_TIMEOUT_MS then (0, 0, e) else (1, 1, e))
     else (m, prev, enter))"

lemma step_clock:
  "(mode_control (act (snd (sensor_step r a b (t, w)))), prev_mode_control (fst (sensor_step r a b (t, w))),
    manual_enter_tick (fst (sensor_step r a b (t, w))))
   = manual_clock a b (mode_control (act w)) (prev_mode_control t, manual_enter_tick t)"
  "fan_speed (act (snd (sensor_step r a b (t, w)))) = fan_speed (act w)"
proof -
  obtain s t1 where j: "sensor_judge r t = (s, t1)" by fastforce
  have st: "prev_mode_control t1 = prev_mode_control t" "manual_enter_tick t1 = manual_enter_tick t"
    using judge_statics(5,6) [of r t] by (simp_all add: j)
  have m: "(mode_control (act (snd (manual_timeout a b p))), prev_mode_control (fst (manual_timeout a b p)),
      manual_enter_tick (fst (manual_timeout a b p)))
    = manual_clock a b (mode_control (act (snd p))) (prev_mode_control (fst p), manual_enter_tick (fst p))"
    for p :: "sensor_task \<times> 'a firmware_scheme"
    by (simp add: manual_timeout_def manual_clock_def split_beta Let_def)
  show "(mode_control (act (snd (sensor_step r a b (t, w)))), prev_mode_control (fst (sensor_step r a b (t, w))),
    manual_enter_tick (fst (sensor_step r a b (t, w))))
   = manual_clock a b (mode_control (act w)) (prev_mode_control t, manual_enter_tick t)"
    unfolding step_unfold [OF j] m by (simp add: print_frame post_sample_frame auto_frame split_beta st)
  show "fan_speed (act (snd (sensor_step r a b (t, w)))) = fan_speed (act w)"
    unfolding step_unfold [OF j] by (simp add: sensor_frames split_beta)
qed

text \<open>Over a run: the last valid value of a channel.\<close>

definition last_valid :: "(sensor_readings \<Rightarrow> u16) \<Rightarrow> sensor_readings list \<Rightarrow> u16" where
  "last_valid f rs = last (0 # filter adc_valid (map f rs))"

lemma last_valid_snoc:
  "last_valid f (rs @ [r]) = (if adc_valid (f r) then f r else last_valid f rs)"
  by (simp add: last_valid_def)

lemma sensor_run_append: "sensor_run (xs @ ys) p = sensor_run ys (sensor_run xs p)"
  by (induction xs p rule: sensor_run.induct) auto

lemma run_last_valid:
  "last_valid_rain (fst (sensor_run evs (sensor_boot, w))) = last_valid r_rain_ao (map fst evs) \<and>
   last_valid_co2 (fst (sensor_run evs (sensor_boot, w))) = last_valid r_co2 (map fst evs) \<and>
   last_valid_co (fst (sensor_run evs (sensor_boot, w))) = last_valid r_co_ao (map fst evs)"
proof (induction evs rule: rev_induct)
  case Nil
  show ?case by (simp add: last_valid_def sensor_boot_def)
next
  case (snoc e evs)
  obtain r now f where e: "e = (r, now, f)" by (cases e)
  show ?case using snoc
    by (simp add: sensor_run_append e last_valid_snoc step_statics)
qed

section \<open>Properties\<close>

text \<open>The sample posted in a turn, after any earlier turns and whatever the other tasks did in
  between, carries for CO2 and CO the last reading of the whole history that was in range (0 if
  there was none), for temperature and humidity the reading of the turn, and in its error bits 0,
  1, 3 and 4 which of the four readings of the turn were rejected; it goes to the end of the queue.\<close>

theorem posted_sample:
  assumes "sensor_run evs (sensor_boot, w0) = (t, w)" and "EnvSampleQueue w = Some q"
    and "q_ok 8 q" and "length (q_list q) < 8"
  shows "\<exists>q' s. EnvSampleQueue (snd (sensor_step r a b (t, w))) = Some q' \<and> q_list q' = q_list q @ [s] \<and>
    es_co2_value s = last_valid r_co2 (map fst evs @ [r]) \<and>
    es_co_value s = last_valid r_co_ao (map fst evs @ [r]) \<and>
    es_temperature s = r_temperature r \<and> es_humidity s = r_humidity r \<and>
    (has_err 0 s \<longleftrightarrow> \<not> dht_valid r) \<and> (has_err 1 s \<longleftrightarrow> \<not> adc_valid (r_rain_ao r)) \<and>
    (has_err 3 s \<longleftrightarrow> \<not> adc_valid (r_co2 r)) \<and> (has_err 4 s \<longleftrightarrow> \<not> adc_valid (r_co_ao r))"
proof -
  have "q_list (snd (xQueueSend q (fst (sensor_judge r t)) 0 [])) = q_list q @ [fst (sensor_judge r t)]"
    using rtosq.send_room [OF assms(3,4)] by simp
  moreover have "last_valid_co2 t = last_valid r_co2 (map fst evs)" "last_valid_co t = last_valid r_co_ao (map fst evs)"
    using run_last_valid [of evs w0] assms(1) by simp_all
  ultimately show ?thesis
    using step_sample [OF assms(2), of r a b t] by (simp add: judge_values judge_bits last_valid_snoc del: One_nat_def)
qed

definition firmware_boot :: firmware where
  "firmware_boot = \<lparr>EnvSampleQueue = Some (prvInitialiseNewQueue 8), ReportQueue = Some (prvInitialiseNewQueue 2),
     LV_RXDataQueue = Some (prvInitialiseNewQueue 1), ActuatorCmdQueue = Some (prvInitialiseNewQueue 10),
     SensorEventGroup = 0, act = act_boot, beep_pin = False, console = []\<rparr>"

definition quiet_reading :: sensor_readings where
  "quiet_reading = \<lparr>dht_ret = 0, r_temperature = 20, r_humidity = 50, r_rain_ao = 3000,
     r_rain_status = 1, r_co2 = 450, r_co_ao = 100\<rparr>"

lemma posted_sample_witness:
  "\<exists>q' s. EnvSampleQueue (snd (sensor_step (quiet_reading\<lparr>r_co2 := 5000\<rparr>) 500 500 (sensor_boot, firmware_boot))) = Some q' \<and>
     q_list q' = [s] \<and> es_co2_value s = 0 \<and> has_err 3 s"
proof -
  have e: "EnvSampleQueue firmware_boot = Some (prvInitialiseNewQueue 8)" by (simp add: firmware_boot_def)
  from posted_sample [OF sensor_run.simps(1) e q_ok_new, of "quiet_reading\<lparr>r_co2 := 5000\<rparr>" 500 500]
  show ?thesis by (auto simp: last_valid_def adc_valid_def quiet_reading_def)
qed

text \<open>C39: The automatic fan level as a function of the raw readings: high exactly for CO2 in
  1001..4095 or CO in 201..4095, else medium for a valid humidity above 60, else low for rain,
  else off. In particular a CO2 concentration of 4096 ppm and more, which the driver passes on
  as valid, never asks for ventilation by itself.\<close>

theorem auto_fan_level:
  "last_auto_cmd (fst (sensor_step r a b (t, w))) =
     (if 1000 < uint (r_co2 r) \<and> uint (r_co2 r) < 4096 \<or> 200 < uint (r_co_ao r) \<and> uint (r_co_ao r) < 4096
      then APPLAY_VAL_HI
      else if dht_valid r \<and> 60 < uint (r_humidity r) then APPLAY_VAL_MID
      else if 0 < uint (r_rain_ao r) \<and> uint (r_rain_ao r) < 4096 \<and> r_rain_status r = 0 then APPLAY_VAL_LOW
      else APPLAY_VAL_OFF)"
  unfolding step_auto_cmd fan_level_def by (simp add: word_less_def)

lemma changes_step: "tl (remdups_adj (c # x # xs)) = (if x = c then tl (remdups_adj (c # xs)) else x # tl (remdups_adj (x # xs)))"
  by (cases xs) auto

lemma auto_run_cmds:
  assumes "ActuatorCmdQueue w = Some q" "q_ok 10 q" "length (q_list q) + length evs \<le> 10"
    "mode_control (act w) = 0"
    "\<And>r now f w. (r, now, f) \<in> set evs \<Longrightarrow> ActuatorCmdQueue (f w) = ActuatorCmdQueue w \<and> mode_control (act (f w)) = mode_control (act w)"
  shows "\<exists>q'. ActuatorCmdQueue (snd (sensor_run evs (t, w))) = Some q' \<and>
    q_list q' = q_list q @ map fan_auto_msg (tl (remdups_adj (last_auto_cmd t # map (fan_level \<circ> fst) evs)))"
  using assms
proof (induction evs arbitrary: t w q)
  case Nil
  then show ?case by simp
next
  case (Cons e evs)
  obtain r now f where e: "e = (r, now, f)" by (cases e)
  define q1 where "q1 = (if fan_level r \<noteq> last_auto_cmd t then snd (xQueueSend q (fan_auto_msg (fan_level r)) 0 []) else q)"
  have f: "ActuatorCmdQueue (f w) = Some q" "mode_control (act (f w)) = 0"
    using Cons.prems(5) [of r now f w] Cons.prems(1,4) e by auto
  obtain t1 w1 where s: "sensor_step r now now (t, f w) = (t1, w1)" by fastforce
  have c: "ActuatorCmdQueue w1 = Some q1" using step_cmd_queue [OF f(1), of r now now t] f(2) s by (simp add: q1_def)
  have l: "last_auto_cmd t1 = fan_level r" using step_auto_cmd [of r now now t "f w"] s by simp
  have m: "mode_control (act w1) = 0"
    using step_clock(1) [of r now now t "f w"] f(2) s by (simp add: manual_clock_def)
  have q1: "q_list q1 = q_list q @ (if fan_level r \<noteq> last_auto_cmd t then [fan_auto_msg (fan_level r)] else [])" "q_ok 10 q1"
    using rtosq.send_room [OF Cons.prems(2), of "fan_auto_msg (fan_level r)"] Cons.prems(3) rtosq.ok_send [OF Cons.prems(2)]
      Cons.prems(2) by (simp_all add: q1_def)
  have "\<exists>q'. ActuatorCmdQueue (snd (sensor_run evs (t1, w1))) = Some q' \<and>
    q_list q' = q_list q1 @ map fan_auto_msg (tl (remdups_adj (last_auto_cmd t1 # map (fan_level \<circ> fst) evs)))"
    by (rule Cons.IH [OF c q1(2) _ m]) (use q1(1) Cons.prems(3,5) in auto)
  moreover have "tl (remdups_adj (last_auto_cmd t # map (fan_level \<circ> fst) (e # evs))) =
      (if fan_level r \<noteq> last_auto_cmd t then [fan_level r] else []) @
      tl (remdups_adj (fan_level r # map (fan_level \<circ> fst) evs))"
    by (simp only: list.map changes_step) (simp add: e)
  ultimately show ?case by (simp only: e sensor_run.simps fst_conv snd_conv s q1(1) l) (auto simp: e)
qed

text \<open>C19: In automatic mode, with room in the queue, exactly the changes of the wanted fan level
  are sent to the actuator task, in order.\<close>

theorem auto_commands_on_change:
  assumes "ActuatorCmdQueue w = Some q" and "q_ok 10 q" and "length (q_list q) + length evs \<le> 10"
    and "mode_control (act w) = 0"
    and "\<And>r now f w. (r, now, f) \<in> set evs \<Longrightarrow>
      ActuatorCmdQueue (f w) = ActuatorCmdQueue w \<and> mode_control (act (f w)) = mode_control (act w)"
  shows "\<exists>q'. ActuatorCmdQueue (snd (sensor_run evs (t, w))) = Some q' \<and>
    q_list q' = q_list q @ map fan_auto_msg (tl (remdups_adj (last_auto_cmd t # map (fan_level \<circ> fst) evs)))"
  using auto_run_cmds [of w q evs t] assms by blast

lemma auto_commands_on_change_witness:
  "\<exists>q'. ActuatorCmdQueue (snd (sensor_run [(quiet_reading, 500, id), (quiet_reading\<lparr>r_co2 := 1200\<rparr>, 1000, id),
       (quiet_reading\<lparr>r_co2 := 1300\<rparr>, 1500, id)] (sensor_boot, firmware_boot))) = Some q' \<and>
     q_list q' = [fan_auto_msg 0, fan_auto_msg 3]"
proof -
  let ?evs = "[(quiet_reading, 500, id), (quiet_reading\<lparr>r_co2 := 1200\<rparr>, 1000, id),
       (quiet_reading\<lparr>r_co2 := 1300\<rparr>, 1500, id)] :: (sensor_readings \<times> u32 \<times> (firmware \<Rightarrow> firmware)) list"
  have e: "ActuatorCmdQueue firmware_boot = Some (prvInitialiseNewQueue 10)" by (simp add: firmware_boot_def)
  have l: "map (fan_level \<circ> fst) ?evs = [0, 3, 3]" by (simp add: fan_level_def quiet_reading_def dht_valid_def)
  have b: "last_auto_cmd sensor_boot = -1" by (simp add: sensor_boot_def)
  have "\<exists>q'. ActuatorCmdQueue (snd (sensor_run ?evs (sensor_boot, firmware_boot))) = Some q' \<and>
    q_list q' = q_list (prvInitialiseNewQueue 10) @
      map fan_auto_msg (tl (remdups_adj (last_auto_cmd sensor_boot # map (fan_level \<circ> fst) ?evs)))"
    by (rule auto_commands_on_change [OF e]) (auto simp: q_ok_new firmware_boot_def act_boot_def)
  then show ?thesis unfolding l b by simp
qed

lemma clock_turn:
  assumes "d < 2 ^ 32"
  shows "manual_clock (T + of_nat d) (T + of_nat d) 1 (1, T) = (if d < 1800000 then (1, 1, T) else (0, 0, T))"
proof -
  have u: "unat (of_nat d :: u32) = d" by (rule unat_of_nat_u32) (use assms in simp)
  have "(of_nat d :: u32) \<ge> 1800000 \<longleftrightarrow> d \<ge> 1800000" unfolding word_le_nat_alt u by simp
  then show ?thesis by (auto simp: manual_clock_def Let_def)
qed

lemma clock_run:
  assumes "mode_control (act w) = 1" "prev_mode_control t = 1" "manual_enter_tick t = T"
    "map (fst \<circ> snd) evs = map (\<lambda>d. T + of_nat d) ds" "\<forall>d \<in> set ds. d < 1800000"
    "\<And>r now f v. (r, now, f) \<in> set evs \<Longrightarrow> mode_control (act v) = 1 \<Longrightarrow> mode_control (act (f v)) = 1"
  shows "mode_control (act (snd (sensor_run evs (t, w)))) = 1 \<and> prev_mode_control (fst (sensor_run evs (t, w))) = 1 \<and>
    manual_enter_tick (fst (sensor_run evs (t, w))) = T"
  using assms
proof (induction evs arbitrary: t w ds)
  case Nil
  then show ?case by simp
next
  case (Cons e evs)
  obtain r now f where e: "e = (r, now, f)" by (cases e)
  obtain d ds' where ds: "ds = d # ds'" "now = T + of_nat d" "map (fst \<circ> snd) evs = map (\<lambda>d. T + of_nat d) ds'" "d < 1800000"
    using Cons.prems(4,5) e by (cases ds) (auto simp: comp_def)
  have m: "mode_control (act (f w)) = 1" using Cons.prems(6) [of r now f w] Cons.prems(1) e by simp
  obtain t1 w1 where s: "sensor_step r now now (t, f w) = (t1, w1)" by fastforce
  have c: "mode_control (act w1) = 1" "prev_mode_control t1 = 1" "manual_enter_tick t1 = T"
    using step_clock(1) [of r now now t "f w"] clock_turn [of d T] ds(2,4) m Cons.prems(2,3) s by simp_all
  have "mode_control (act (snd (sensor_run evs (t1, w1)))) = 1 \<and> prev_mode_control (fst (sensor_run evs (t1, w1))) = 1 \<and>
    manual_enter_tick (fst (sensor_run evs (t1, w1))) = T"
    by (rule Cons.IH [OF c ds(3)]) (use Cons.prems(5,6) ds(1) in auto)
  then show ?case by (simp add: e s)
qed

text \<open>C18: Manual mode lasts 30 minutes from the first turn that sees it, however often the tick
  counter wraps and whatever else the other tasks do: every turn before leaves it on, the first
  turn at or after 1800000 ms switches it off.\<close>

theorem manual_mode_times_out:
  assumes "mode_control (act w) = 1" and "prev_mode_control t = 0"
    and "map (fst \<circ> snd) evs = map (\<lambda>d. T + of_nat d) (0 # ds)" and "\<forall>d \<in> set ds. d < 1800000" and "d < 2 ^ 32"
    and "\<And>r now f v. (r, now, f) \<in> set evs \<Longrightarrow> mode_control (act v) = 1 \<Longrightarrow> mode_control (act (f v)) = 1"
  shows "mode_control (act (snd (sensor_step r (T + of_nat d) (T + of_nat d) (sensor_run evs (t, w)))))
    = (if d < 1800000 then 1 else 0)"
proof -
  obtain r0 f evs' where evs: "evs = (r0, T, f) # evs'" and e': "map (fst \<circ> snd) evs' = map (\<lambda>d. T + of_nat d) ds"
    using assms(3) by (cases evs) auto
  have m: "mode_control (act (f w)) = 1" using assms(6) [of r0 T f w] assms(1) evs by simp
  obtain t1 w1 where s: "sensor_step r0 T T (t, f w) = (t1, w1)" by fastforce
  have c: "mode_control (act w1) = 1" "prev_mode_control t1 = 1" "manual_enter_tick t1 = T"
    using step_clock(1) [of r0 T T t "f w"] m assms(2) s by (simp_all add: manual_clock_def)
  obtain t2 w2 where r: "sensor_run evs' (t1, w1) = (t2, w2)" by fastforce
  have "mode_control (act (snd (sensor_run evs' (t1, w1)))) = 1 \<and> prev_mode_control (fst (sensor_run evs' (t1, w1))) = 1 \<and>
    manual_enter_tick (fst (sensor_run evs' (t1, w1))) = T"
    by (rule clock_run [OF c e' assms(4)]) (use assms(6) evs in auto)
  then show ?thesis
    using step_clock(1) [of r "T + of_nat d" "T + of_nat d" t2 w2] clock_turn [OF assms(5), of T]
    by (simp add: evs s r split: if_splits)
qed

text \<open>A manual command to the fan, taken over by the actuator task at the first turn.\<close>

definition manual_off :: "firmware \<Rightarrow> firmware" where
  "manual_off w = w\<lparr>act := applay_dispatch (Some \<lparr>target = APPLAY_TARGET_FAN, val = 0, source = SOURCE_KEY\<rparr>) (act w)\<rparr>"

lemma manual_mode_times_out_witness:
  "mode_control (act (snd (sensor_step quiet_reading 1804000 1804000
     (sensor_run [(quiet_reading, 4000, id), (quiet_reading, 4500, id)] (sensor_boot, manual_off firmware_boot))))) = 0"
proof -
  let ?evs = "[(quiet_reading, 4000, id), (quiet_reading, 4500, id)] :: (sensor_readings \<times> u32 \<times> (firmware \<Rightarrow> firmware)) list"
  have m: "mode_control (act (manual_off firmware_boot)) = 1"
    by (simp add: manual_off_def firmware_boot_def applay_dispatch_def fan_apply_def Let_def gpio_defs act_boot_def)
  have p: "prev_mode_control sensor_boot = 0" by (simp add: sensor_boot_def)
  have "mode_control (act (snd (sensor_step quiet_reading (4000 + of_nat 1800000) (4000 + of_nat 1800000)
     (sensor_run ?evs (sensor_boot, manual_off firmware_boot))))) = (if (1800000::nat) < 1800000 then 1 else 0)"
    by (rule manual_mode_times_out [OF m p, of ?evs 4000 "[500]"]) auto
  then show ?thesis by simp
qed

text \<open>The fan is not driven again when manual mode ends. As long as the readings ask for the
  level last decided on, no command is queued, in manual mode, at the turn that ends it and ever
  after: the fan keeps the speed of the manual command even while the readings ask for full speed.\<close>

theorem no_command_after_timeout:
  assumes "last_auto_cmd t = fan_level r"
    and "\<And>r' now f. (r', now, f) \<in> set evs \<Longrightarrow> r' = r \<and> f = id"
  shows "ActuatorCmdQueue (snd (sensor_run evs (t, w))) = ActuatorCmdQueue w \<and>
    fan_speed (act (snd (sensor_run evs (t, w)))) = fan_speed (act w)"
  using assms
proof (induction evs arbitrary: t w)
  case Nil
  then show ?case by simp
next
  case (Cons e evs)
  obtain r' now f where e': "e = (r', now, f)" by (cases e)
  then have "r' = r \<and> f = id" by (intro Cons.prems(2) [of r' now f]) simp
  with e' have e: "e = (r, now, id)" by simp
  obtain t1 w1 where s: "sensor_step r now now (t, w) = (t1, w1)" by fastforce
  have q: "ActuatorCmdQueue w1 = ActuatorCmdQueue w"
    using step_cmd_queue [of w _ r now now t] step_cmd_none [of w r now now t] Cons.prems(1) s
    by (cases "ActuatorCmdQueue w") simp_all
  have f: "fan_speed (act w1) = fan_speed (act w)" using step_clock(2) [of r now now t w] s by simp
  have l: "last_auto_cmd t1 = fan_level r" using step_auto_cmd [of r now now t w] s by simp
  have "ActuatorCmdQueue (snd (sensor_run evs (t1, w1))) = ActuatorCmdQueue w1 \<and>
    fan_speed (act (snd (sensor_run evs (t1, w1)))) = fan_speed (act w1)"
  proof (rule Cons.IH [OF l])
    show "r' = r \<and> f = id" if "(r', now, f) \<in> set evs" for r' now f
      by (rule Cons.prems(2) [of r' now f]) (simp add: that)
  qed
  then show ?case by (simp only: e sensor_run.simps fst_conv snd_conv id_apply s q f)
qed

text \<open>CO at 300 all the time; the fan is switched off by hand and stays off after the timeout.\<close>

lemma no_command_after_timeout_witness:
  "let r = quiet_reading\<lparr>r_co_ao := 300\<rparr>; t = sensor_boot\<lparr>last_auto_cmd := APPLAY_VAL_HI\<rparr>;
       w = manual_off (firmware_boot\<lparr>act := act_boot\<lparr>fan_speed := FAN_PCT_HIGH, fan_running := 1\<rparr>\<rparr>)
   in fan_level r = APPLAY_VAL_HI \<and>
      fan_speed (act (snd (sensor_run [(r, 500, id), (r, 1800500, id), (r, 1801000, id)] (t, w)))) = 0 \<and>
      mode_control (act (snd (sensor_run [(r, 500, id), (r, 1800500, id), (r, 1801000, id)] (t, w)))) = 0 \<and>
      q_list (the (ActuatorCmdQueue (snd (sensor_run [(r, 500, id), (r, 1800500, id), (r, 1801000, id)] (t, w))))) = []"
proof -
  let ?r = "quiet_reading\<lparr>r_co_ao := 300\<rparr>" and ?t = "sensor_boot\<lparr>last_auto_cmd := APPLAY_VAL_HI\<rparr>"
  let ?w = "manual_off (firmware_boot\<lparr>act := act_boot\<lparr>fan_speed := FAN_PCT_HIGH, fan_running := 1\<rparr>\<rparr>)"
  let ?evs = "[(?r, 500, id), (?r, 1800500, id), (?r, 1801000, id)] :: (sensor_readings \<times> u32 \<times> (firmware \<Rightarrow> firmware)) list"
  have l: "fan_level ?r = APPLAY_VAL_HI" by (simp add: fan_level_def quiet_reading_def)
  have w: "mode_control (act ?w) = 1" "fan_speed (act ?w) = 0" "ActuatorCmdQueue ?w = Some (prvInitialiseNewQueue 10)"
    by (simp_all add: manual_off_def firmware_boot_def applay_dispatch_def fan_apply_def Let_def gpio_defs act_boot_def)
  have n: "ActuatorCmdQueue (snd (sensor_run ?evs (?t, ?w))) = ActuatorCmdQueue ?w \<and>
    fan_speed (act (snd (sensor_run ?evs (?t, ?w)))) = fan_speed (act ?w)"
    by (rule no_command_after_timeout [where r = ?r]) (auto simp: l)
  have "mode_control (act (snd (sensor_run ?evs (?t, ?w)))) = 0"
  proof -
    have step: "mode_control (act (snd (sensor_step ?r x x p))) = m' \<and> prev_mode_control (fst (sensor_step ?r x x p)) = p' \<and>
        manual_enter_tick (fst (sensor_step ?r x x p)) = e'"
      if "manual_clock x x (mode_control (act (snd p))) (prev_mode_control (fst p), manual_enter_tick (fst p)) = (m', p', e')"
      for x p m' p' e' using step_clock(1) [of ?r x x "fst p" "snd p"] that by simp
    let ?p1 = "sensor_step ?r 500 500 (?t, ?w)" let ?p2 = "sensor_step ?r 1800500 1800500 ?p1"
    have "mode_control (act (snd ?p1)) = 1 \<and> prev_mode_control (fst ?p1) = 1 \<and> manual_enter_tick (fst ?p1) = 500"
      by (rule step) (simp add: w(1) manual_clock_def sensor_boot_def)
    then have "mode_control (act (snd ?p2)) = 0 \<and> prev_mode_control (fst ?p2) = 0 \<and> manual_enter_tick (fst ?p2) = 500"
      by (intro step) (simp add: manual_clock_def)
    then have "mode_control (act (snd (sensor_step ?r 1801000 1801000 ?p2))) = 0"
      using step [of 1801000 ?p2] by (simp add: manual_clock_def)
    then show ?thesis by simp
  qed
  with n w l show ?thesis by (simp add: Let_def)
qed

end
