(* ===== verification/Gui_Panel.thy ===== *)
theory Gui_Panel
  imports Float32 Task_Sensor
begin

text \<open>
  The logic behind the touch panel (\<open>Middlewares/LVGL/GUI_APP/my_gui.c\<close>): current values, the
  minute and hour histories with their averages, the alarm with its fan control, and the two
  controls of the fan. Widgets appear as what the code reads back from them (switch, slider)
  or writes to them (texts); layout, colours and charts are not modelled; \<open>float\<close>
  is the arithmetic of \<open>Float32\<close>.
\<close>

section \<open>State\<close>

abbreviation (input) HISTORY_BUCKETS :: nat where "HISTORY_BUCKETS \<equiv> 60"
abbreviation (input) HOUR_HISTORY :: nat where "HOUR_HISTORY \<equiv> 24"
abbreviation (input) CH_TEMP :: nat where "CH_TEMP \<equiv> 0"
abbreviation (input) CH_HUM :: nat where "CH_HUM \<equiv> 1"
abbreviation (input) CH_CO2 :: nat where "CH_CO2 \<equiv> 2"
abbreviation (input) CH_CO :: nat where "CH_CO \<equiv> 3"
abbreviation (input) CH_MAX :: nat where "CH_MAX \<equiv> 4"

text \<open>The arrays by channel; the counters stay below 61, so their 8 bits never wrap.\<close>

record gui_panel =
  history :: "rat list list"
  hist_count :: "nat list"
  hist_head :: "nat list"
  history_hour :: "rat list list"
  hour_count :: "nat list"
  hour_head :: "nat list"
  cur_values :: "rat list"
  has_current_data :: bool
  sensor_data_count_min :: nat
  alert_auto_on :: bool
  value_texts :: "u8 list list"      \<comment> \<open>the four value labels\<close>
  status_text :: "u8 list"
  speed_text :: "u8 list"
  switch_on :: bool
  slider :: int
  slider_enabled :: bool
  gfw :: firmware

section \<open>Histories\<close>

definition chan_set :: "nat \<Rightarrow> rat \<Rightarrow> gui_panel \<Rightarrow> gui_panel" where
  "chan_set ch v g = g\<lparr>cur_values := (cur_values g)[ch := v]\<rparr>"

definition chan_get :: "nat \<Rightarrow> gui_panel \<Rightarrow> rat" where
  "chan_get ch g = cur_values g ! ch"

definition chan_pick_value_from_avg :: "nat \<Rightarrow> env_avg_t \<Rightarrow> rat" where
  "chan_pick_value_from_avg ch a =
     (if ch = CH_TEMP then f32 (of_nat (unat (temp_avg_x10 a)) / 10)
      else if ch = CH_HUM then f32 (of_nat (unat (humi_avg_x10 a)) / 10)
      else if ch = CH_CO2 then of_nat (unat (co2_avg a))
      else if ch = CH_CO then of_nat (unat (co_avg a)) else 0)"

definition history_push_one :: "nat \<Rightarrow> rat \<Rightarrow> gui_panel \<Rightarrow> gui_panel" where
  "history_push_one ch v g =
     (let h = hist_head g ! ch in
      g\<lparr>history := (history g)[ch := (history g ! ch)[h := v]],
        hist_head := (hist_head g)[ch := (h + 1) mod HISTORY_BUCKETS],
        hist_count := (if hist_count g ! ch < HISTORY_BUCKETS then (hist_count g)[ch := hist_count g ! ch + 1] else hist_count g)\<rparr>)"

definition history_push_hour :: "nat \<Rightarrow> rat \<Rightarrow> gui_panel \<Rightarrow> gui_panel" where
  "history_push_hour ch v g =
     (let h = hour_head g ! ch in
      g\<lparr>history_hour := (history_hour g)[ch := (history_hour g ! ch)[h := v]],
        hour_head := (hour_head g)[ch := (h + 1) mod HOUR_HISTORY],
        hour_count := (if hour_count g ! ch < HOUR_HISTORY then (hour_count g)[ch := hour_count g ! ch + 1] else hour_count g)\<rparr>)"

definition history_init :: "gui_panel \<Rightarrow> gui_panel" where
  "history_init g = g\<lparr>hist_head := replicate CH_MAX 0, hist_count := replicate CH_MAX 0,
     hour_head := replicate CH_MAX 0, hour_count := replicate CH_MAX 0,
     history := replicate CH_MAX (replicate HISTORY_BUCKETS 0),
     history_hour := replicate CH_MAX (replicate HOUR_HISTORY 0), sensor_data_count_min := 0\<rparr>"

text \<open>The \<open>take\<close> newest entries of a ring of \<open>n\<close> slots, newest first.\<close>

definition newest :: "nat \<Rightarrow> rat list \<Rightarrow> nat \<Rightarrow> nat \<Rightarrow> rat list" where
  "newest n buf h k = map (\<lambda>i. let idx = int h - 1 - int i; idx = (if idx < 0 then idx + int n else idx)
                                in buf ! nat idx) [0..<k]"

text \<open>The averages over 30 minutes, 60 minutes, 12 hours and 24 hours; -1 where there is none.\<close>

definition my_gui_get_average :: "nat \<Rightarrow> gui_panel \<Rightarrow> rat \<times> rat \<times> rat \<times> rat" where
  "my_gui_get_average ch g =
     (if ch \<ge> CH_MAX then (-1, -1, -1, -1)
      else let n = hist_count g ! ch; nh = hour_count g ! ch;
               avg = (\<lambda>vs k. f32 (fsum vs / of_nat k));
               hours = (\<lambda>k. avg (newest HOUR_HISTORY (history_hour g ! ch) (hour_head g ! ch) k) k)
           in ((if n > 0 then let k = (if n \<ge> 30 then 30 else n) in avg (newest HISTORY_BUCKETS (history g ! ch) (hist_head g ! ch) k) k
                else -1),
               (if n > 0 then avg (take n (history g ! ch)) n else -1),
               (if nh > 0 then hours (if nh \<ge> 12 then 12 else nh) else -1),
               (if nh > 0 then hours (if nh \<ge> HOUR_HISTORY then HOUR_HISTORY else nh) else -1)))"

section \<open>Alarm and fan control\<close>

definition gui_send :: "applay_msg_t \<Rightarrow> gui_panel \<Rightarrow> gui_panel" where
  "gui_send am g = (case ActuatorCmdQueue (gfw g) of
       None \<Rightarrow> g
     | Some q \<Rightarrow> g\<lparr>gfw := (gfw g)\<lparr>ActuatorCmdQueue := Some (snd (xQueueSend q am 0 []))\<rparr>\<rparr>)"

definition gui_fan :: "applay_val_t \<Rightarrow> applay_msg_t" where
  "gui_fan v = \<lparr>target = APPLAY_TARGET_FAN, val = v, source = SOURCE_GUI\<rparr>"

definition set_fan_running :: "u8 \<Rightarrow> gui_panel \<Rightarrow> gui_panel" where
  "set_fan_running v g = g\<lparr>gfw := (gfw g)\<lparr>act := (act (gfw g))\<lparr>fan_running := v\<rparr>\<rparr>\<rparr>"

definition set_fan_speed :: "u8 \<Rightarrow> gui_panel \<Rightarrow> gui_panel" where
  "set_fan_speed v g = g\<lparr>gfw := (gfw g)\<lparr>act := (act (gfw g))\<lparr>fan_speed := v\<rparr>\<rparr>\<rparr>"

definition speed_label :: "u8 \<Rightarrow> u8 list" where
  "speed_label v = ascii ''Speed: '' @ dec_digits (unat v) @ ascii ''%''"

definition int_text :: "rat \<Rightarrow> string \<Rightarrow> u8 list" where
  "int_text v u = dec_digits (nat \<lfloor>v\<rfloor>) @ ascii u"

definition alert_now :: "gui_panel \<Rightarrow> bool" where
  "alert_now g \<longleftrightarrow> has_current_data g \<and> (chan_get CH_CO2 g > 1500 \<or> chan_get CH_CO g > 100)"

definition update_sensor_display :: "gui_panel \<Rightarrow> gui_panel" where
  "update_sensor_display g0 =
     (let g = g0\<lparr>value_texts := (if has_current_data g0
             then [int_text (chan_get CH_TEMP g0) '' C'', int_text (chan_get CH_HUM g0) '' %'',
                   int_text (chan_get CH_CO2 g0) '' ppm'', int_text (chan_get CH_CO g0) '' ppm'']
             else [ascii ''-- C'', ascii ''-- %'', ascii ''-- ppm'', ascii ''-- ppm''])\<rparr>
      in if alert_now g then
           (let g = g\<lparr>status_text := ascii ''System Status: WARNING''\<rparr> in
            if \<not> alert_auto_on g then
              (let g = set_fan_running 1 (g\<lparr>alert_auto_on := True\<rparr>);
                   g = g\<lparr>switch_on := True, slider_enabled := True\<rparr>;
                   g = (if (word_of_int (slider g) :: u8) < 80
                        then (set_fan_speed 80 (g\<lparr>slider := 80\<rparr>))\<lparr>speed_text := speed_label 80\<rparr>
                        else set_fan_speed (word_of_int (slider g)) g)
               in gui_send (gui_fan (ucast (fan_speed (act (gfw g))))) g)
            else g)
         else
           (let g = g\<lparr>status_text := ascii ''System Status: Normal''\<rparr> in
            if alert_auto_on g then
              (let g = set_fan_running 0 (g\<lparr>alert_auto_on := False\<rparr>);
                   g = g\<lparr>switch_on := False, slider_enabled := False, slider := 0\<rparr>;
                   g = (set_fan_speed 0 g)\<lparr>speed_text := speed_label 0\<rparr>
               in gui_send (gui_fan APPLAY_VAL_OFF) g)
            else g))"

text \<open>The user switches: the switch already has its new state when the callback runs.\<close>

definition fan_switch_event_cb :: "gui_panel \<Rightarrow> gui_panel" where
  "fan_switch_event_cb g =
     (if switch_on g then
        (let g = (set_fan_running 1 g)\<lparr>alert_auto_on := False, slider_enabled := True\<rparr>
         in gui_send (gui_fan (word_of_int (slider g))) g)
      else
        (let g = (set_fan_running 0 g)\<lparr>alert_auto_on := False, slider_enabled := False, slider := 0\<rparr>;
             g = (set_fan_speed 0 g)\<lparr>speed_text := speed_label 0\<rparr>
         in gui_send (gui_fan APPLAY_VAL_OFF) g))"

definition fan_slider_event_cb :: "gui_panel \<Rightarrow> gui_panel" where
  "fan_slider_event_cb g =
     (let g = set_fan_speed (word_of_int (slider g)) g;
          g = g\<lparr>speed_text := speed_label (fan_speed (act (gfw g)))\<rparr>
      in gui_send (gui_fan (word_of_int (slider g))) g)"

section \<open>Averages from the data processing task\<close>

text \<open>Every full hour the mean of the minute ring goes to the hour ring.\<close>

definition hour_push :: "nat \<Rightarrow> gui_panel \<Rightarrow> gui_panel" where
  "hour_push ch g =
     (let n = hist_count g ! ch in
      if n = 0 then g else history_push_hour ch (f32 (fsum (take n (history g ! ch)) / of_nat n)) g)"

definition apply_avg_to_gui :: "env_avg_t \<Rightarrow> gui_panel \<Rightarrow> gui_panel" where
  "apply_avg_to_gui avg g0 =
     (let g = fold (\<lambda>ch. chan_set ch (chan_pick_value_from_avg ch avg)) [0..<CH_MAX] g0;
          g = g\<lparr>has_current_data := True\<rparr>;
          g = (if sensor_data_count_min g \<ge> 60
               then fold hour_push [0..<CH_MAX] (g\<lparr>sensor_data_count_min := 0\<rparr>) else g);
          g = g\<lparr>sensor_data_count_min := sensor_data_count_min g + 1\<rparr>;
          g = fold (\<lambda>ch g. history_push_one ch (chan_get ch g) g) [0..<CH_MAX] g
      in update_sensor_display g)"

definition my_gui_pump_rx_queue :: "gui_panel \<Rightarrow> gui_panel" where
  "my_gui_pump_rx_queue g = (case LV_RXDataQueue (gfw g) of
       None \<Rightarrow> g
     | Some q \<Rightarrow> (case xQueueReceive q 0 [] of
           (None, q') \<Rightarrow> g\<lparr>gfw := (gfw g)\<lparr>LV_RXDataQueue := Some q'\<rparr>\<rparr>
         | (Some avg, q') \<Rightarrow> apply_avg_to_gui avg (g\<lparr>gfw := (gfw g)\<lparr>LV_RXDataQueue := Some q'\<rparr>\<rparr>)))"

section \<open>Processor load\<close>

record cpu_load =
  last_total_runtime :: u32
  last_idle_runtime :: u32
  cpu_hist_buf :: "u8 list"
  cpu_hist_head :: nat
  cpu_hist_count :: nat

abbreviation (input) CPU_BUF_SIZE :: nat where "CPU_BUF_SIZE \<equiv> 20"

text \<open>
  The counter, the number of tasks, whether the buffer was allocated and what
  \<open>uxTaskGetSystemState\<close> put into it (names and run times) are inputs.
\<close>

definition sys_calc_cpu_pct :: "u32 \<Rightarrow> nat \<Rightarrow> bool \<Rightarrow> (u8 list \<times> u32) list \<Rightarrow> cpu_load \<Rightarrow> u8 \<times> cpu_load" where
  "sys_calc_cpu_pct total_runtime n alloc arr c =
     (if total_runtime < 1000 then (0, c)
      else if n = 0 then (0, c)
      else if \<not> alloc then (0, c)
      else let idle_time = (case List.find (\<lambda>t. take 4 (fst t) = ascii ''IDLE'') arr of None \<Rightarrow> 0 | Some t \<Rightarrow> snd t);
               delta_total = (if total_runtime \<ge> last_total_runtime c then total_runtime - last_total_runtime c else total_runtime);
               delta_idle = (if idle_time \<ge> last_idle_runtime c then idle_time - last_idle_runtime c else idle_time);
               c = c\<lparr>last_total_runtime := total_runtime, last_idle_runtime := idle_time\<rparr>
           in if delta_total = 0 then (0, c)
              else let cpu = 100 - (delta_idle * 100) div delta_total;
                       cpu = (if cpu > 100 then 100 else cpu)
                   in (ucast cpu, c))"

definition cpu_push :: "u8 \<Rightarrow> cpu_load \<Rightarrow> cpu_load" where
  "cpu_push instant c = c\<lparr>cpu_hist_buf := (cpu_hist_buf c)[cpu_hist_head c := instant],
     cpu_hist_head := (cpu_hist_head c + 1) mod CPU_BUF_SIZE,
     cpu_hist_count := (if cpu_hist_count c < CPU_BUF_SIZE then cpu_hist_count c + 1 else cpu_hist_count c)\<rparr>"

definition cpu_avg_1min :: "cpu_load \<Rightarrow> u8" where
  "cpu_avg_1min c =
     (if cpu_hist_count c = 0 then 0
      else ucast (foldl (\<lambda>s v. s + ucast v) (0 :: u32) (take (cpu_hist_count c) (cpu_hist_buf c)) div of_nat (cpu_hist_count c)))"

section \<open>Rings\<close>

text \<open>A ring of \<open>n\<close> slots into which the values \<open>xs\<close> have been written, in this order.\<close>

definition ring_holds :: "nat \<Rightarrow> rat list \<Rightarrow> nat \<Rightarrow> nat \<Rightarrow> rat list \<Rightarrow> bool" where
  "ring_holds n buf h c xs \<longleftrightarrow> length buf = n \<and> h = length xs mod n \<and> c = min n (length xs) \<and>
     (\<forall>i < c. buf ! ((length xs - 1 - i) mod n) = rev xs ! i)"

lemma ring_holds_init: "ring_holds n (replicate n 0) 0 0 []"
  by (simp add: ring_holds_def)

lemma ring_holds_push:
  assumes "ring_holds n buf h c xs" "0 < n"
  shows "ring_holds n (buf[h := v]) ((h + 1) mod n) (if c < n then c + 1 else c) (xs @ [v])"
proof -
  have a: "length buf = n" "h = length xs mod n" "c = min n (length xs)"
    "\<And>i. i < c \<Longrightarrow> buf ! ((length xs - 1 - i) mod n) = rev xs ! i" using assms(1) by (auto simp: ring_holds_def)
  have hn: "h < n" using a(2) assms(2) by simp
  have "buf[h := v] ! ((length (xs @ [v]) - 1 - i) mod n) = rev (xs @ [v]) ! i"
    if i: "i < (if c < n then c + 1 else c)" for i
  proof (cases i)
    case 0
    then show ?thesis using a(1,2) hn by simp
  next
    case (Suc k)
    have k: "k < c" "Suc k < n" "Suc k \<le> length xs" using i Suc a(3) by (auto split: if_splits)
    have "(length xs - Suc k) mod n \<noteq> h"
    proof
      assume "(length xs - Suc k) mod n = h"
      moreover have "length xs - Suc k + Suc k = length xs" using k(3) by simp
      ultimately have "(length xs - Suc k + 0) mod n = (length xs - Suc k + Suc k) mod n" unfolding a(2) by (simp only: add_0_right)
      then have "0 = Suc k" by (rule mod_add_inj [OF assms(2) k(2)])
      then show False by simp
    qed
    moreover have "length xs - 1 - k = length xs - Suc k" by simp
    ultimately show ?thesis using a(4) [OF k(1)] Suc a(1) assms(2) by simp
  qed
  then show ?thesis using a(1-3) assms(2) by (auto simp: ring_holds_def mod_Suc_eq)
qed

lemma ring_index:
  assumes "0 < n" "i < n" "i < l"
  shows "nat (let idx = int (l mod n) - 1 - int i in if idx < 0 then idx + int n else idx) = (l - 1 - i) mod n"
proof (cases "i + 1 \<le> l mod n")
  case True
  have "l - 1 - i = l mod n - 1 - i + n * (l div n)" using True mult_div_mod_eq [of n l] by linarith
  then have "(l - 1 - i) mod n = (l mod n - 1 - i) mod n" by simp
  also have "\<dots> = l mod n - 1 - i" using mod_less_divisor [OF assms(1), of l] by (intro mod_less) linarith
  finally show ?thesis using True by (simp add: Let_def nat_diff_distrib)
next
  case False
  then have "l div n \<noteq> 0" using assms(1,3) by (auto simp: div_eq_0_iff)
  then obtain k where k: "l div n = Suc k" by (cases "l div n") auto
  have "n * (l div n) = n + n * k" unfolding k by simp
  then have "l = n + n * k + l mod n" using mult_div_mod_eq [of n l] by simp
  then have "l - 1 - i = n + l mod n - 1 - i + n * k" using False assms(2) by linarith
  then have "(l - 1 - i) mod n = (n + l mod n - 1 - i) mod n" by simp
  also have "\<dots> = n + l mod n - 1 - i" using False assms(1,2) by (intro mod_less) linarith
  finally show ?thesis using False by (simp add: Let_def)
qed

lemma newest_holds:
  assumes "ring_holds n buf h c xs" "0 < n" "k \<le> c"
  shows "newest n buf h k = take k (rev xs)"
proof (rule nth_equalityI)
  show "length (newest n buf h k) = length (take k (rev xs))" using assms(1,3) by (simp add: newest_def ring_holds_def)
next
  fix i assume "i < length (newest n buf h k)"
  then have i: "i < k" "i < c" "i < n" "i < length xs" using assms(1,3) by (auto simp: newest_def ring_holds_def)
  have h: "h = length xs mod n" using assms(1) by (simp add: ring_holds_def)
  have "newest n buf h k ! i = buf ! nat (let idx = int (length xs mod n) - 1 - int i in if idx < 0 then idx + int n else idx)"
    using i(1) unfolding newest_def h by (simp add: Let_def)
  also have "\<dots> = buf ! ((length xs - 1 - i) mod n)" by (simp only: ring_index [OF assms(2) i(3,4)])
  finally have "newest n buf h k ! i = buf ! ((length xs - 1 - i) mod n)" .
  then show "newest n buf h k ! i = take k (rev xs) ! i" using assms(1) i by (simp add: ring_holds_def)
qed

text \<open>At a full turn the slots are in chronological order.\<close>

lemma ring_block:
  assumes "ring_holds n buf h c xs" "0 < n" "length xs = n * Suc m"
  shows "take c buf = drop (n * m) xs" "c = n"
proof -
  show c: "c = n" using assms by (simp add: ring_holds_def)
  show "take c buf = drop (n * m) xs"
  proof (rule nth_equalityI)
    show "length (take c buf) = length (drop (n * m) xs)" using assms c by (simp add: ring_holds_def)
  next
    fix i assume "i < length (take c buf)"
    then have i: "i < n" using assms(1) c by (simp add: ring_holds_def)
    have e: "length xs - 1 - (n - 1 - i) = i + n * m" using assms(3) i by (simp add: algebra_simps)
    have "\<forall>k < c. buf ! ((length xs - 1 - k) mod n) = rev xs ! k" using assms(1) unfolding ring_holds_def by blast
    moreover have "n - 1 - i < c" using i c by simp
    ultimately have "buf ! ((length xs - 1 - (n - 1 - i)) mod n) = rev xs ! (n - 1 - i)" by blast
    moreover have "rev xs ! (n - 1 - i) = xs ! (i + n * m)" using rev_nth [of "n - 1 - i" xs] assms(3) i e by (simp add: add.commute)
    ultimately show "take c buf ! i = drop (n * m) xs ! i" using e i c assms(3) by (simp add: add.commute)
  qed
qed

text \<open>In whatever order, the slots in use hold the newest values.\<close>

lemma ring_mset:
  assumes "ring_holds n buf h c xs" "0 < n"
  shows "mset (take c buf) = mset (take c (rev xs))"
proof -
  let ?f = "\<lambda>i. (length xs - 1 - i) mod n"
  have a: "length buf = n" "c = min n (length xs)" "\<forall>i < c. buf ! ?f i = rev xs ! i"
    using assms(1) unfolding ring_holds_def by blast+
  have inj: "inj_on ?f {0..<c}"
  proof (rule inj_onI)
    fix i j assume ij: "i \<in> {0..<c}" "j \<in> {0..<c}" "?f i = ?f j"
    have l: "length xs - 1 - i = length xs - c + (c - 1 - i)" "length xs - 1 - j = length xs - c + (c - 1 - j)"
      using ij(1,2) a(2) by auto
    have "c - 1 - i < n" "c - 1 - j < n" using ij(1,2) a(2) by auto
    from mod_add_inj [OF this, of "length xs - c"] ij(3) l have "c - 1 - i = c - 1 - j" by simp
    then show "i = j" using ij(1,2) by auto
  qed
  have "?f i < c" if "i < c" for i
    using that a(2) assms(2) by (cases "length xs < n") (auto simp: min_def)
  then have sub: "?f ` {0..<c} \<subseteq> {0..<c}" by auto
  have im: "?f ` {0..<c} = {0..<c}" by (rule endo_inj_surj [OF _ sub inj]) simp
  have d: "distinct (map ?f [0..<c])" using inj by (simp add: distinct_map)
  have "set (map ?f [0..<c]) = set [0..<c]" using im by simp
  then have "mset (map ?f [0..<c]) = mset [0..<c]" 
    by (rule set_eq_iff_mset_eq_distinct [OF d distinct_upt, THEN iffD1])
  then have "mset (map ((!) buf) (map ?f [0..<c])) = mset (map ((!) buf) [0..<c])" by (simp only: mset_map)
  moreover have "map ((!) buf) [0..<c] = take c buf" using a(1,2) by (intro nth_equalityI) auto
  moreover have "map ((!) buf) (map ?f [0..<c]) = take c (rev xs)" using a(2,3) by (intro nth_equalityI) auto
  ultimately show ?thesis by (simp only:)
qed

section \<open>What the panel remembers\<close>

text \<open>The hour values of a channel: the means of the full blocks of 60 averages, but the last one.\<close>

definition hour_means :: "rat list \<Rightarrow> rat list" where
  "hour_means xs = map (\<lambda>m. f32 (fsum (take 60 (drop (60 * m) xs)) / 60)) [0..<(length xs - 1) div 60]"

text \<open>The rows of a channel: slots, head and count.\<close>

definition mrow :: "nat \<Rightarrow> gui_panel \<Rightarrow> rat list \<times> nat \<times> nat" where
  "mrow ch g = (history g ! ch, hist_head g ! ch, hist_count g ! ch)"

definition hrow :: "nat \<Rightarrow> gui_panel \<Rightarrow> rat list \<times> nat \<times> nat" where
  "hrow ch g = (history_hour g ! ch, hour_head g ! ch, hour_count g ! ch)"

definition rows_ok :: "gui_panel \<Rightarrow> bool" where
  "rows_ok g \<longleftrightarrow> length (history g) = 4 \<and> length (hist_head g) = 4 \<and> length (hist_count g) = 4 \<and>
     length (history_hour g) = 4 \<and> length (hour_head g) = 4 \<and> length (hour_count g) = 4 \<and> length (cur_values g) = 4"

definition row_push :: "nat \<Rightarrow> rat \<Rightarrow> rat list \<times> nat \<times> nat \<Rightarrow> rat list \<times> nat \<times> nat" where
  "row_push n v = (\<lambda>(buf, h, c). (buf[h := v], (h + 1) mod n, if c < n then c + 1 else c))"

definition row_holds :: "nat \<Rightarrow> rat list \<times> nat \<times> nat \<Rightarrow> rat list \<Rightarrow> bool" where
  "row_holds n r xs = (case r of (buf, h, c) \<Rightarrow> ring_holds n buf h c xs)"

lemma row_holds_push: "row_holds n r xs \<Longrightarrow> 0 < n \<Longrightarrow> row_holds n (row_push n v r) (xs @ [v])"
  by (cases r) (simp only: row_holds_def row_push_def prod.case ring_holds_push)

lemma push_one_rows:
  assumes "rows_ok g" "ch < 4"
  shows "mrow k (history_push_one ch v g) = (if k = ch then row_push 60 v (mrow ch g) else mrow k g)"
    "hrow k (history_push_one ch v g) = hrow k g" "rows_ok (history_push_one ch v g)"
    "cur_values (history_push_one ch v g) = cur_values g"
    "sensor_data_count_min (history_push_one ch v g) = sensor_data_count_min g"
  using assms by (auto simp: history_push_one_def mrow_def hrow_def row_push_def rows_ok_def Let_def)

lemma push_hour_rows:
  assumes "rows_ok g" "ch < 4"
  shows "hrow k (history_push_hour ch v g) = (if k = ch then row_push 24 v (hrow ch g) else hrow k g)"
    "mrow k (history_push_hour ch v g) = mrow k g" "rows_ok (history_push_hour ch v g)"
    "cur_values (history_push_hour ch v g) = cur_values g"
    "sensor_data_count_min (history_push_hour ch v g) = sensor_data_count_min g"
  using assms by (auto simp: history_push_hour_def mrow_def hrow_def row_push_def rows_ok_def Let_def)

definition row_mean :: "rat list \<times> nat \<times> nat \<Rightarrow> rat" where
  "row_mean r = (case r of (buf, h, c) \<Rightarrow> f32 (fsum (take c buf) / of_nat c))"

lemma hour_push_rows:
  assumes "rows_ok g" "ch < 4"
  shows "hrow k (hour_push ch g) = (if k = ch \<and> snd (snd (mrow ch g)) \<noteq> 0 then row_push 24 (row_mean (mrow ch g)) (hrow ch g) else hrow k g)"
    "mrow k (hour_push ch g) = mrow k g" "rows_ok (hour_push ch g)" "cur_values (hour_push ch g) = cur_values g"
    "sensor_data_count_min (hour_push ch g) = sensor_data_count_min g"
  using push_hour_rows [OF assms] assms(1) by (simp_all add: hour_push_def Let_def row_mean_def mrow_def)

lemma fold4: "fold F [0..<4] g = F 3 (F 2 (F (Suc 0) (F 0 g)))"
  by (simp add: upt_rec numeral_2_eq_2 numeral_3_eq_3)

lemma less4: "(ch :: nat) < 4 \<longleftrightarrow> ch = 0 \<or> ch = Suc 0 \<or> ch = 2 \<or> ch = 3"
  by auto

lemma push_all_rows:
  fixes g :: gui_panel
  defines "g' \<equiv> fold (\<lambda>ch g. history_push_one ch (chan_get ch g) g) [0..<4] g"
  assumes "rows_ok g"
  shows "ch < 4 \<Longrightarrow> mrow ch g' = row_push 60 (cur_values g ! ch) (mrow ch g)" "hrow ch g' = hrow ch g" "rows_ok g'"
    "cur_values g' = cur_values g" "sensor_data_count_min g' = sensor_data_count_min g"
  using assms(2) unfolding g'_def fold4 less4 by (auto simp: push_one_rows chan_get_def)

lemma hour_all_rows:
  fixes g :: gui_panel
  defines "g' \<equiv> fold hour_push [0..<4] g"
  assumes "rows_ok g"
  shows "ch < 4 \<Longrightarrow> hrow ch g' = (if snd (snd (mrow ch g)) \<noteq> 0 then row_push 24 (row_mean (mrow ch g)) (hrow ch g) else hrow ch g)"
    "mrow ch g' = mrow ch g" "rows_ok g'" "cur_values g' = cur_values g" "sensor_data_count_min g' = sensor_data_count_min g"
  using assms(2) unfolding g'_def fold4 less4 by (auto simp: hour_push_rows)

lemma chan_all:
  fixes g :: gui_panel and f :: "nat \<Rightarrow> rat"
  defines "g' \<equiv> fold (\<lambda>ch. chan_set ch (f ch)) [0..<4] g"
  assumes "rows_ok g"
  shows "ch < 4 \<Longrightarrow> cur_values g' ! ch = f ch" "rows_ok g'" "mrow ch g' = mrow ch g" "hrow ch g' = hrow ch g"
    "sensor_data_count_min g' = sensor_data_count_min g" "alert_auto_on g' = alert_auto_on g" "gfw g' = gfw g" "slider g' = slider g"
  using assms(2) unfolding g'_def fold4 less4 by (auto simp: chan_set_def rows_ok_def mrow_def hrow_def)

text \<open>A panel that has been given the averages \<open>as\<close>.\<close>

definition remembers :: "env_avg_t list \<Rightarrow> gui_panel \<Rightarrow> bool" where
  "remembers as g \<longleftrightarrow> rows_ok g \<and>
     (\<forall>ch < 4. row_holds 60 (mrow ch g) (map (chan_pick_value_from_avg ch) as) \<and>
        row_holds 24 (hrow ch g) (hour_means (map (chan_pick_value_from_avg ch) as))) \<and>
     sensor_data_count_min g = (if as = [] then 0 else (length as - 1) mod 60 + 1)"

lemma hour_means_snoc:
  "hour_means (xs @ [v]) = hour_means xs @
     (if xs \<noteq> [] \<and> length xs mod 60 = 0 then [f32 (fsum (drop (length xs - 60) xs) / 60)] else [])"
proof (cases "xs \<noteq> [] \<and> length xs mod 60 = 0")
  case True
  then obtain m where m: "length xs = 60 * Suc m" by (metis length_0_conv mod_0_imp_dvd dvdE mult_is_0 not0_implies_Suc)
  then have l: "(length xs - 1) div 60 = m" "length xs div 60 = Suc m" "length xs - 60 = 60 * m" by simp_all
  have "take 60 (drop (60 * k) (xs @ [v])) = take 60 (drop (60 * k) xs)" if "k < Suc m" for k
    using that m by simp
  then have "hour_means (xs @ [v]) = map (\<lambda>k. f32 (fsum (take 60 (drop (60 * k) xs)) / 60)) [0..<Suc m]"
    unfolding hour_means_def using l(2) by simp
  moreover have "take 60 (drop (60 * m) xs) = drop (60 * m) xs" using m by simp
  ultimately show ?thesis using True l by (simp add: hour_means_def)
next
  case False
  have e: "length xs div 60 = (length xs - 1) div 60"
  proof (cases "length xs")
    case (Suc k)
    then have "Suc k mod 60 \<noteq> 0" using False by auto
    then show ?thesis using Suc by (simp add: div_Suc)
  qed simp
  have "take 60 (drop (60 * k) (xs @ [v])) = take 60 (drop (60 * k) xs)" if "k < (length xs - 1) div 60" for k
  proof -
    have "60 * k + 60 \<le> 60 * ((length xs - 1) div 60)" using that by simp
    also have "\<dots> \<le> length xs - 1" by simp
    finally show ?thesis by simp
  qed
  then show ?thesis using False e by (simp add: hour_means_def)
qed

lemma send_frame [simp]:
  "history (gui_send m g) = history g" "hist_head (gui_send m g) = hist_head g" "hist_count (gui_send m g) = hist_count g"
  "history_hour (gui_send m g) = history_hour g" "hour_head (gui_send m g) = hour_head g" "hour_count (gui_send m g) = hour_count g"
  "cur_values (gui_send m g) = cur_values g" "sensor_data_count_min (gui_send m g) = sensor_data_count_min g"
  "alert_auto_on (gui_send m g) = alert_auto_on g" "switch_on (gui_send m g) = switch_on g" "slider (gui_send m g) = slider g"
  "slider_enabled (gui_send m g) = slider_enabled g" "value_texts (gui_send m g) = value_texts g"
  "has_current_data (gui_send m g) = has_current_data g" "act (gfw (gui_send m g)) = act (gfw g)"
  "status_text (gui_send m g) = status_text g"
  by (simp_all add: gui_send_def split: option.split)

lemmas fan_sets = set_fan_running_def set_fan_speed_def

lemma display_rows [simp]:
  "mrow ch (update_sensor_display g) = mrow ch g" "hrow ch (update_sensor_display g) = hrow ch g"
  "rows_ok (update_sensor_display g) = rows_ok g" "cur_values (update_sensor_display g) = cur_values g"
  "sensor_data_count_min (update_sensor_display g) = sensor_data_count_min g"
  by (simp_all add: update_sensor_display_def Let_def mrow_def hrow_def rows_ok_def fan_sets)

text \<open>The steps of \<open>apply_avg_to_gui\<close> before the display is brought up to date.\<close>

definition fed :: "env_avg_t \<Rightarrow> gui_panel \<Rightarrow> gui_panel" where
  "fed a g0 =
     (let g = (fold (\<lambda>ch. chan_set ch (chan_pick_value_from_avg ch a)) [0..<4] g0)\<lparr>has_current_data := True\<rparr>;
          g = (if sensor_data_count_min g \<ge> 60 then fold hour_push [0..<4] (g\<lparr>sensor_data_count_min := 0\<rparr>) else g);
          g = g\<lparr>sensor_data_count_min := sensor_data_count_min g + 1\<rparr>
      in fold (\<lambda>ch g. history_push_one ch (chan_get ch g) g) [0..<4] g)"

lemma apply_fed: "apply_avg_to_gui a g = update_sensor_display (fed a g)"
  by (simp add: apply_avg_to_gui_def fed_def Let_def)

lemma rows_updates [simp]:
  "mrow ch (g\<lparr>sensor_data_count_min := n\<rparr>) = mrow ch g" "hrow ch (g\<lparr>sensor_data_count_min := n\<rparr>) = hrow ch g"
  "rows_ok (g\<lparr>sensor_data_count_min := n\<rparr>) = rows_ok g" "mrow ch (g\<lparr>has_current_data := b\<rparr>) = mrow ch g"
  "hrow ch (g\<lparr>has_current_data := b\<rparr>) = hrow ch g" "rows_ok (g\<lparr>has_current_data := b\<rparr>) = rows_ok g"
  "mrow ch (g\<lparr>gfw := w\<rparr>) = mrow ch g" "hrow ch (g\<lparr>gfw := w\<rparr>) = hrow ch g" "rows_ok (g\<lparr>gfw := w\<rparr>) = rows_ok g"
  by (simp_all add: mrow_def hrow_def rows_ok_def)

lemma fed_rows:
  assumes "rows_ok g" "ch < 4"
  shows "mrow ch (fed a g) = row_push 60 (chan_pick_value_from_avg ch a) (mrow ch g)"
    "hrow ch (fed a g) = (if sensor_data_count_min g \<ge> 60 \<and> snd (snd (mrow ch g)) \<noteq> 0
       then row_push 24 (row_mean (mrow ch g)) (hrow ch g) else hrow ch g)"
    "rows_ok (fed a g)" "sensor_data_count_min (fed a g) = (if sensor_data_count_min g \<ge> 60 then 1 else sensor_data_count_min g + 1)"
    "cur_values (fed a g) ! ch = chan_pick_value_from_avg ch a"
proof -
  define g1 where "g1 = (fold (\<lambda>ch. chan_set ch (chan_pick_value_from_avg ch a)) [0..<4] g)\<lparr>has_current_data := True\<rparr>"
  define g2 where "g2 = (if sensor_data_count_min g1 \<ge> 60 then fold hour_push [0..<4] (g1\<lparr>sensor_data_count_min := 0\<rparr>) else g1)"
  define g3 where "g3 = g2\<lparr>sensor_data_count_min := sensor_data_count_min g2 + 1\<rparr>"
  have f: "fed a g = fold (\<lambda>ch g. history_push_one ch (chan_get ch g) g) [0..<4] g3"
    by (simp add: fed_def Let_def g1_def g2_def g3_def)
  have r1: "rows_ok g1" "mrow ch g1 = mrow ch g" "hrow ch g1 = hrow ch g" "cur_values g1 ! ch = chan_pick_value_from_avg ch a"
    "sensor_data_count_min g1 = sensor_data_count_min g"
    using chan_all [where f = "\<lambda>ch. chan_pick_value_from_avg ch a", OF assms(1)] assms(2) by (simp_all add: g1_def)
  have "rows_ok (g1\<lparr>sensor_data_count_min := 0\<rparr>)" using r1(1) by simp
  note h = hour_all_rows [OF this]
  have r2: "rows_ok g2" "mrow ch g2 = mrow ch g" "cur_values g2 = cur_values g1"
    "hrow ch g2 = (if sensor_data_count_min g \<ge> 60 \<and> snd (snd (mrow ch g)) \<noteq> 0
       then row_push 24 (row_mean (mrow ch g)) (hrow ch g) else hrow ch g)"
    "sensor_data_count_min g2 = (if sensor_data_count_min g \<ge> 60 then 0 else sensor_data_count_min g)"
    using h r1 assms(2) by (simp_all add: g2_def)
  then have r3: "rows_ok g3" "mrow ch g3 = mrow ch g" "cur_values g3 = cur_values g1" "hrow ch g3 = hrow ch g2"
    "sensor_data_count_min g3 = sensor_data_count_min g2 + 1" by (simp_all add: g3_def)
  note p = push_all_rows [OF r3(1), folded f]
  show "mrow ch (fed a g) = row_push 60 (chan_pick_value_from_avg ch a) (mrow ch g)"
    "hrow ch (fed a g) = (if sensor_data_count_min g \<ge> 60 \<and> snd (snd (mrow ch g)) \<noteq> 0
       then row_push 24 (row_mean (mrow ch g)) (hrow ch g) else hrow ch g)"
    "rows_ok (fed a g)" "sensor_data_count_min (fed a g) = (if sensor_data_count_min g \<ge> 60 then 1 else sensor_data_count_min g + 1)"
    "cur_values (fed a g) ! ch = chan_pick_value_from_avg ch a"
    using p r1(4) r2(4,5) r3 assms(2) by simp_all
qed

lemma remembers_step:
  assumes "remembers as g"
  shows "remembers (as @ [a]) (apply_avg_to_gui a g)"
proof -
  have ok: "rows_ok g" and m: "sensor_data_count_min g = (if as = [] then 0 else (length as - 1) mod 60 + 1)"
    using assms by (simp_all add: remembers_def)
  have full: "sensor_data_count_min g \<ge> 60 \<longleftrightarrow> as \<noteq> [] \<and> length as mod 60 = 0"
  proof (cases "length as")
    case (Suc k)
    then have "as \<noteq> []" by auto
    moreover have "60 \<le> k mod 60 + 1 \<longleftrightarrow> Suc k mod 60 = 0" by (simp add: mod_Suc) presburger
    ultimately show ?thesis using m Suc by simp
  qed (use m in simp)
  have rows: "row_holds 60 (mrow ch (fed a g)) (map (chan_pick_value_from_avg ch) (as @ [a])) \<and>
    row_holds 24 (hrow ch (fed a g)) (hour_means (map (chan_pick_value_from_avg ch) (as @ [a])))" if "ch < 4" for ch
  proof -
    let ?xs = "map (chan_pick_value_from_avg ch) as"
    have h: "row_holds 60 (mrow ch g) ?xs" "row_holds 24 (hrow ch g) (hour_means ?xs)"
      using assms that by (simp_all add: remembers_def)
    obtain buf hh c where r: "mrow ch g = (buf, hh, c)" by (cases "mrow ch g")
    have rh: "ring_holds 60 buf hh c ?xs" using h(1) by (simp add: row_holds_def r)
    note f = fed_rows [OF ok that, of a]
    have "row_holds 24 (hrow ch (fed a g)) (hour_means (?xs @ [chan_pick_value_from_avg ch a]))"
    proof (cases "as \<noteq> [] \<and> length as mod 60 = 0")
      case True
      then obtain k where "length as = 60 * k" by (metis mod_0_imp_dvd dvdE)
      with True obtain k where k: "length ?xs = 60 * Suc k" by (cases k) auto
      have "row_mean (mrow ch g) = f32 (fsum (drop (length ?xs - 60) ?xs) / 60)" "c \<noteq> 0"
        using ring_block [OF rh _ k] k r by (simp_all add: row_mean_def)
      then show ?thesis using row_holds_push [OF h(2), of "row_mean (mrow ch g)"] f(2) full True r
        by (simp add: hour_means_snoc)
    next
      case False
      then show ?thesis using h(2) f(2) full by (auto simp: hour_means_snoc)
    qed
    then show ?thesis using row_holds_push [OF h(1), of "chan_pick_value_from_avg ch a"] f(1) by simp
  qed
  have "sensor_data_count_min (fed a g) = length as mod 60 + 1"
  proof (cases "length as")
    case (Suc k)
    then show ?thesis using fed_rows(4) [OF ok, of 0 a] m full by (auto simp: mod_Suc split: if_splits)
  qed (use fed_rows(4) [OF ok, of 0 a] m in auto)
  moreover have "rows_ok (fed a g)" using fed_rows(3) [OF ok, of 0 a] by simp
  ultimately show ?thesis using rows by (simp add: remembers_def apply_fed)
qed

lemma remembers_init: "length (cur_values g) = 4 \<Longrightarrow> remembers [] (history_init g)"
  by (auto simp: remembers_def history_init_def rows_ok_def mrow_def hrow_def row_holds_def ring_holds_init hour_means_def)

lemma remembers_feed: "remembers bs g \<Longrightarrow> remembers (bs @ as) (fold apply_avg_to_gui as g)"
proof (induction as arbitrary: bs g)
  case (Cons a as)
  from Cons.IH [OF remembers_step [OF Cons.prems, of a]] show ?case by simp
qed simp

text \<open>The two concentrations are whole numbers.\<close>

definition ppm :: "nat \<Rightarrow> env_avg_t \<Rightarrow> nat" where
  "ppm ch a = (if ch = CH_CO2 then unat (co2_avg a) else unat (co_avg a))"

lemma pick_ppm: "ch = CH_CO2 \<or> ch = CH_CO \<Longrightarrow> chan_pick_value_from_avg ch = of_nat \<circ> ppm ch"
  by (rule ext) (auto simp: chan_pick_value_from_avg_def ppm_def)

lemma ppm_less: "ppm ch a < 65536"
proof -
  have "unat (w :: u16) < 65536" for w
  proof -
    have "unat w < 2 ^ LENGTH(16)" by (rule unsigned_less)
    then show ?thesis by simp
  qed
  then show ?thesis by (simp add: ppm_def)
qed

lemma ppm_sum: "length as \<le> 60 \<Longrightarrow> sum_list (map (ppm ch) as) < 2 ^ 24"
proof -
  assume l: "length as \<le> 60"
  have "sum_list (map (ppm ch) as) \<le> 65536 * length as"
    by (induction as) (auto intro!: add_mono less_imp_le [OF ppm_less])
  also have "\<dots> \<le> 65536 * 60" using l by (intro mult_le_mono2)
  finally show ?thesis by simp
qed

section \<open>Properties\<close>


definition gui_boot :: gui_panel where
  "gui_boot = \<lparr>history = replicate 4 (replicate 60 0), hist_count = replicate 4 0, hist_head = replicate 4 0,
     history_hour = replicate 4 (replicate 24 0), hour_count = replicate 4 0, hour_head = replicate 4 0,
     cur_values = replicate 4 0, has_current_data = False, sensor_data_count_min = 0, alert_auto_on = False,
     value_texts = replicate 4 [], status_text = [], speed_text = speed_label 50, switch_on = False, slider = 50,
     slider_enabled = False, gfw = firmware_boot\<rparr>"

definition co2_report :: "u16 \<Rightarrow> env_avg_t" where
  "co2_report v = \<lparr>err_bits = 0, temp_avg_x10 = 253, humi_avg_x10 = 601, rain_flag = 0, co2_avg = v, co_avg = 12, sample_count = 120\<rparr>"


text \<open>An average that raises the alarm.\<close>

definition alarm :: "env_avg_t \<Rightarrow> bool" where
  "alarm a \<longleftrightarrow> co2_avg a > 1500 \<or> co_avg a > 100"

lemma alert_fed:
  assumes "rows_ok g"
  shows "alert_now (fed a g) = alarm a" "has_current_data (fed a g)"
proof -
  have "has_current_data (history_push_one ch v x) = has_current_data x" "has_current_data (hour_push ch x) = has_current_data x" for ch v x
    by (simp_all add: history_push_one_def hour_push_def history_push_hour_def Let_def)
  then show h: "has_current_data (fed a g)" by (simp add: fed_def Let_def fold4)
  have c: "chan_get 2 (fed a g) = of_nat (unat (co2_avg a))" "chan_get 3 (fed a g) = of_nat (unat (co_avg a))"
    using fed_rows(5) [OF assms] by (simp_all add: chan_get_def chan_pick_value_from_avg_def)
  have n: "(1500 :: rat) < of_nat n \<longleftrightarrow> 1500 < n" "(100 :: rat) < of_nat n \<longleftrightarrow> 100 < n" for n
    using of_nat_less_iff [of 1500 n, where ?'a = rat] of_nat_less_iff [of 100 n, where ?'a = rat] by simp_all
  have "unat (1500 :: u16) = 1500" "unat (100 :: u16) = 100" by simp_all
  then show "alert_now (fed a g) = alarm a"
    unfolding alert_now_def alarm_def c n word_less_nat_alt using h by simp
qed

lemma fed_frame:
  "alert_auto_on (fed a g) = alert_auto_on g" "gfw (fed a g) = gfw g" "slider (fed a g) = slider g" "switch_on (fed a g) = switch_on g"
proof -
  have f: "alert_auto_on (history_push_one ch v x) = alert_auto_on x" "alert_auto_on (hour_push ch x) = alert_auto_on x"
    "gfw (history_push_one ch v x) = gfw x" "gfw (hour_push ch x) = gfw x" "slider (history_push_one ch v x) = slider x"
    "slider (hour_push ch x) = slider x" "switch_on (history_push_one ch v x) = switch_on x" "switch_on (hour_push ch x) = switch_on x"
    "alert_auto_on (chan_set ch v x) = alert_auto_on x" "gfw (chan_set ch v x) = gfw x" "slider (chan_set ch v x) = slider x"
    "switch_on (chan_set ch v x) = switch_on x" for ch v x
    by (simp_all add: history_push_one_def hour_push_def history_push_hour_def chan_set_def Let_def)
  show "alert_auto_on (fed a g) = alert_auto_on g" "gfw (fed a g) = gfw g" "slider (fed a g) = slider g" "switch_on (fed a g) = switch_on g"
    by (simp_all add: fed_def Let_def fold4 f)
qed

text \<open>Sending without waiting: appended if there is room, else dropped.\<close>

lemma gui_send_queue:
  assumes "ActuatorCmdQueue (gfw g) = Some q" "q_ok 10 q"
  shows "length (q_list q) < 10 \<Longrightarrow> \<exists>q'. ActuatorCmdQueue (gfw (gui_send m g)) = Some q' \<and> q_ok 10 q' \<and> q_list q' = q_list q @ [m]"
    and "length (q_list q) = 10 \<Longrightarrow> gui_send m g = g"
proof -
  assume l: "length (q_list q) < 10"
  have inv: "q_inv q" "length (q_list q) < uxLength q" using assms(2) l by (simp_all add: q_ok_def)
  have "q_list (snd (xQueueSend q m 0 [])) = q_list q @ [m]" "q_ok 10 (snd (xQueueSend q m 0 []))"
    using send_has_room [OF inv, of m 0 "[]"] assms(2) by (simp_all only: q_ok_def simp_thms)
  with assms(1) show "\<exists>q'. ActuatorCmdQueue (gfw (gui_send m g)) = Some q' \<and> q_ok 10 q' \<and> q_list q' = q_list q @ [m]"
    by (intro exI [of _ "snd (xQueueSend q m 0 [])"]) (simp only: gui_send_def option.case, simp)
next
  assume l: "length (q_list q) = 10"
  then have "snd (xQueueSend q m 0 []) = q" using send_full [of q m "[]"] assms(2) by (simp add: q_ok_def)
  moreover have "(gfw g)\<lparr>ActuatorCmdQueue := Some q\<rparr> = gfw g" using assms(1) by (cases "gfw g") simp
  ultimately show "gui_send m g = g" using assms(1) by (simp add: gui_send_def)
qed

text \<open>The command a display turn sends, if it sends one, and the state it sends it from.\<close>

definition alarm_cmd :: "gui_panel \<Rightarrow> applay_msg_t option" where
  "alarm_cmd g = (if alert_now g \<and> \<not> alert_auto_on g then Some (gui_fan (word_of_int (max 80 (slider g))))
     else if \<not> alert_now g \<and> alert_auto_on g then Some (gui_fan 0) else None)"

lemma slider_u8:
  assumes "0 \<le> v" "v \<le> 100"
  shows "(word_of_int v :: u8) < 80 \<longleftrightarrow> v < 80" "ucast (word_of_int v :: u8) = (word_of_int v :: u32)"
proof -
  have u: "uint (word_of_int v :: u8) = v" using assms by (simp add: unsigned_of_int take_bit_eq_mod)
  then show "(word_of_int v :: u8) < 80 \<longleftrightarrow> v < 80" by (simp add: word_less_def)
  have m: "v mod 2 ^ 32 = v" using assms by (intro mod_pos_pos_trivial) simp_all
  have "uint (ucast (word_of_int v :: u8) :: u32) = uint (word_of_int v :: u8)"
    using m by (simp add: unsigned_ucast_eq take_bit_eq_mod u)
  also have "\<dots> = uint (word_of_int v :: u32)" using u m by (simp add: unsigned_of_int take_bit_eq_mod)
  finally show "ucast (word_of_int v :: u8) = (word_of_int v :: u32)" by (rule word_uint_eqI)
qed

lemma display_turn:
  assumes "0 \<le> slider g" "slider g \<le> 100"
  shows "\<exists>x. update_sensor_display g = (case alarm_cmd g of None \<Rightarrow> x | Some m \<Rightarrow> gui_send m x) \<and>
    alert_auto_on x = alert_now g \<and> ActuatorCmdQueue (gfw x) = ActuatorCmdQueue (gfw g) \<and>
    (alarm_cmd g = None \<longrightarrow> gfw x = gfw g \<and> switch_on x = switch_on g \<and> slider x = slider g) \<and>
    (alarm_cmd g \<noteq> None \<longrightarrow> switch_on x = alert_now g \<and> slider x = (if alert_now g then max 80 (slider g) else 0))"
proof (cases "alert_now g \<and> \<not> alert_auto_on g")
  case True
  then show ?thesis
    using slider_u8 [OF assms]
    by (cases "slider g < 80") (auto simp: update_sensor_display_def Let_def alert_now_def chan_get_def alarm_cmd_def fan_sets max_def)
next
  case False
  then show ?thesis
    by (cases "alert_now g"; cases "alert_auto_on g")
      (auto simp: update_sensor_display_def Let_def alert_now_def chan_get_def alarm_cmd_def fan_sets)
qed

lemma apply_turn:
  assumes "rows_ok g" "0 \<le> slider g" "slider g \<le> 100" "ActuatorCmdQueue (gfw g) = Some q" "q_ok 10 q" "length (q_list q) < 10"
  shows "\<exists>q'. ActuatorCmdQueue (gfw (apply_avg_to_gui a g)) = Some q' \<and> q_ok 10 q' \<and>
    q_list q' = q_list q @ (if alarm a \<and> \<not> alert_auto_on g then [gui_fan (word_of_int (max 80 (slider g)))]
      else if \<not> alarm a \<and> alert_auto_on g then [gui_fan 0] else []) \<and>
    alert_auto_on (apply_avg_to_gui a g) = alarm a \<and> rows_ok (apply_avg_to_gui a g) \<and>
    slider (apply_avg_to_gui a g) = (if alarm a = alert_auto_on g then slider g else if alarm a then max 80 (slider g) else 0) \<and>
    switch_on (apply_avg_to_gui a g) = (if alarm a = alert_auto_on g then switch_on g else alarm a)"
proof -
  note f = fed_frame [of a g] alert_fed(1) [OF assms(1), of a]
  have sl: "0 \<le> slider (fed a g)" "slider (fed a g) \<le> 100" using assms(2,3) f by simp_all
  obtain x where x: "apply_avg_to_gui a g = (case alarm_cmd (fed a g) of None \<Rightarrow> x | Some m \<Rightarrow> gui_send m x)"
    "alert_auto_on x = alarm a" "ActuatorCmdQueue (gfw x) = Some q"
    "alarm_cmd (fed a g) = None \<longrightarrow> gfw x = gfw (fed a g) \<and> switch_on x = switch_on (fed a g) \<and> slider x = slider (fed a g)"
    "alarm_cmd (fed a g) \<noteq> None \<longrightarrow> switch_on x = alarm a \<and> slider x = (if alarm a then max 80 (slider (fed a g)) else 0)"
    using display_turn [OF sl] f(2,5) assms(4) unfolding apply_fed by auto
  have c: "alarm_cmd (fed a g) = (if alarm a \<and> \<not> alert_auto_on g then Some (gui_fan (word_of_int (max 80 (slider g))))
      else if \<not> alarm a \<and> alert_auto_on g then Some (gui_fan 0) else None)" using f by (simp add: alarm_cmd_def)
  have r: "rows_ok (apply_avg_to_gui a g)" using fed_rows(3) [OF assms(1), of 0 a] by (simp add: apply_fed)
  show ?thesis
  proof (cases "alarm_cmd (fed a g)")
    case None
    then have "alarm a = alert_auto_on g" using c by (auto split: if_splits)
    then show ?thesis using None x f assms(4,5) r by simp
  next
    case (Some m)
    then have ne: "alarm a \<noteq> alert_auto_on g" using c by (auto split: if_splits)
    from gui_send_queue(1) [OF x(3) assms(5,6), of m] obtain q' where
      "ActuatorCmdQueue (gfw (gui_send m x)) = Some q'" "q_ok 10 q'" "q_list q' = q_list q @ [m]" by blast
    then show ?thesis using Some x f r ne c by (auto split: if_splits)
  qed
qed

text \<open>C8: an average moves the panel's alarm to what the average asks for (CO2 above 1500 or CO above
  100) and sends a fan command only when that is a change: at least 80 percent when the alarm
  starts, 0 when it ends. The texts show the whole parts of the values just received.\<close>

theorem gui_alarm_turn:
  assumes "rows_ok g" and "0 \<le> slider g" and "slider g \<le> 100"
    and "ActuatorCmdQueue (gfw g) = Some q" and "q_ok 10 q" and "length (q_list q) < 10"
  shows "\<exists>q'. ActuatorCmdQueue (gfw (apply_avg_to_gui a g)) = Some q' \<and> q_ok 10 q' \<and>
    q_list q' = q_list q @ (if alarm a \<and> \<not> alert_auto_on g then [gui_fan (word_of_int (max 80 (slider g)))]
      else if \<not> alarm a \<and> alert_auto_on g then [gui_fan 0] else []) \<and>
    alert_auto_on (apply_avg_to_gui a g) = alarm a \<and>
    value_texts (apply_avg_to_gui a g) =
      [dec_digits (unat (temp_avg_x10 a) div 10) @ ascii '' C'', dec_digits (unat (humi_avg_x10 a) div 10) @ ascii '' %'',
       dec_digits (unat (co2_avg a)) @ ascii '' ppm'', dec_digits (unat (co_avg a)) @ ascii '' ppm'']"
proof -
  have "unat (w :: u16) < 65536" for w
  proof -
    have "unat w < 2 ^ LENGTH(16)" by (rule unsigned_less)
    then show ?thesis by simp
  qed
  note fl = f32_tenth [OF this]
  have v: "chan_get 0 (fed a g) = f32 (of_nat (unat (temp_avg_x10 a)) / 10)" "chan_get (Suc 0) (fed a g) = f32 (of_nat (unat (humi_avg_x10 a)) / 10)"
    "chan_get 2 (fed a g) = of_nat (unat (co2_avg a))" "chan_get 3 (fed a g) = of_nat (unat (co_avg a))"
    using fed_rows(5) [OF assms(1)] by (simp_all add: chan_get_def chan_pick_value_from_avg_def)
  have t: "value_texts (update_sensor_display x) = [int_text (chan_get 0 x) '' C'', int_text (chan_get (Suc 0) x) '' %'',
      int_text (chan_get 2 x) '' ppm'', int_text (chan_get 3 x) '' ppm'']" if "has_current_data x" for x
    using that by (simp add: update_sensor_display_def Let_def fan_sets)
  have "value_texts (apply_avg_to_gui a g) =
      [dec_digits (unat (temp_avg_x10 a) div 10) @ ascii '' C'', dec_digits (unat (humi_avg_x10 a) div 10) @ ascii '' %'',
       dec_digits (unat (co2_avg a)) @ ascii '' ppm'', dec_digits (unat (co_avg a)) @ ascii '' ppm'']"
    unfolding apply_fed t [OF alert_fed(2) [OF assms(1)]] int_text_def v fl nat_int floor_of_nat by (rule refl)
  then show ?thesis using apply_turn [OF assms, of a] by blast
qed

lemma gui_boot_ok: "rows_ok gui_boot" "slider gui_boot = 50" "\<not> alert_auto_on gui_boot"
  "ActuatorCmdQueue (gfw gui_boot) = Some (prvInitialiseNewQueue 10)"
  by (simp_all add: gui_boot_def rows_ok_def firmware_boot_def)

lemma gui_alarm_turn_witness:
  "\<exists>q'. ActuatorCmdQueue (gfw (apply_avg_to_gui (co2_report 2000) gui_boot)) = Some q' \<and> q_list q' = [gui_fan 80] \<and>
     value_texts (apply_avg_to_gui (co2_report 2000) gui_boot) = [ascii ''25 C'', ascii ''60 %'', ascii ''2000 ppm'', ascii ''12 ppm'']"
proof -
  have "alarm (co2_report 2000)" by (simp add: alarm_def co2_report_def)
  moreover have "dec_digits 25 = ascii ''25''" "dec_digits 60 = ascii ''60''" "dec_digits 2000 = ascii ''2000''" "dec_digits 12 = ascii ''12''"
    by (simp_all add: dec_digits.simps ascii_def)
  ultimately show ?thesis
    using gui_alarm_turn [OF gui_boot_ok(1) _ _ gui_boot_ok(4) q_ok_new, of "co2_report 2000"] gui_boot_ok
    by (auto simp: co2_report_def ascii_def max_def)
qed

text \<open>An alarm takes the fan away from the user: after the user has switched the fan on, an
  alarm that comes and goes leaves it switched off, with a final command of 0, although the
  program's comments promise that only a fan the alarm itself has started is stopped.\<close>

theorem alarm_stops_manual_fan:
  assumes "rows_ok g" and "0 \<le> slider g" and "slider g \<le> 100"
    and "ActuatorCmdQueue (gfw g) = Some q" and "q_ok 10 q" and "length (q_list q) < 8" and "alarm a" and "\<not> alarm b"
  shows "let g' = apply_avg_to_gui b (apply_avg_to_gui a (fan_switch_event_cb (g\<lparr>switch_on := True\<rparr>))) in
    \<not> switch_on g' \<and> slider g' = 0 \<and> (\<exists>q'. ActuatorCmdQueue (gfw g') = Some q' \<and>
      q_list q' = q_list q @ [gui_fan (word_of_int (slider g)), gui_fan (word_of_int (max 80 (slider g))), gui_fan 0])"
proof -
  define x where "x = (set_fan_running 1 (g\<lparr>switch_on := True\<rparr>))\<lparr>alert_auto_on := False, slider_enabled := True\<rparr>"
  define g1 where "g1 = fan_switch_event_cb (g\<lparr>switch_on := True\<rparr>)"
  define g2 where "g2 = apply_avg_to_gui a g1"
  have g1: "g1 = gui_send (gui_fan (word_of_int (slider g))) x"
    by (simp add: g1_def x_def fan_switch_event_cb_def Let_def set_fan_running_def)
  have x: "ActuatorCmdQueue (gfw x) = Some q" "rows_ok x" "slider x = slider g" "\<not> alert_auto_on x" "switch_on x"
    using assms(1,4) by (simp_all add: x_def set_fan_running_def rows_ok_def)
  have lt: "length (q_list q) < 10" using assms(6) by simp
  obtain q1 where q1: "ActuatorCmdQueue (gfw g1) = Some q1" "q_ok 10 q1" "q_list q1 = q_list q @ [gui_fan (word_of_int (slider g))]"
    using gui_send_queue(1) [OF x(1) assms(5) lt] g1 by blast
  have s1: "rows_ok g1" "slider g1 = slider g" "\<not> alert_auto_on g1" using x by (simp_all add: g1 rows_ok_def)
  have l1: "length (q_list q1) < 10" "0 \<le> slider g1" "slider g1 \<le> 100" using q1(3) assms(2,3,6) s1 by simp_all
  obtain q2 where q2: "ActuatorCmdQueue (gfw g2) = Some q2" "q_ok 10 q2"
    "q_list q2 = q_list q1 @ [gui_fan (word_of_int (max 80 (slider g)))]" "alert_auto_on g2" "rows_ok g2" "slider g2 = max 80 (slider g)"
    using apply_turn [OF s1(1) l1(2,3) q1(1,2) l1(1), of a] s1 assms(7) by (auto simp: g2_def)
  have l2: "length (q_list q2) < 10" "0 \<le> slider g2" "slider g2 \<le> 100" using q1(3) q2 assms(2,3,6) by simp_all
  from apply_turn [OF q2(5) l2(2,3) q2(1,2) l2(1), of b] q2(3,4) q1(3) assms(8)
  show ?thesis by (auto simp: Let_def g1_def [symmetric] g2_def [symmetric])
qed

lemma alarm_stops_manual_fan_witness:
  "\<not> switch_on (apply_avg_to_gui (co2_report 400) (apply_avg_to_gui (co2_report 2000) (fan_switch_event_cb (gui_boot\<lparr>switch_on := True\<rparr>))))"
proof -
  have "alarm (co2_report 2000)" "\<not> alarm (co2_report 400)" by (simp_all add: alarm_def co2_report_def)
  then show ?thesis
    using alarm_stops_manual_fan [OF gui_boot_ok(1) _ _ gui_boot_ok(4) q_ok_new, of "co2_report 2000" "co2_report 400"] gui_boot_ok(2)
    by (simp add: Let_def)
qed

text \<open>An alarm that starts while the actuators' queue is full never starts the fan: the command is
  dropped, the panel shows the fan as on, and later averages with the alarm still up send
  nothing, whatever room the queue then has.\<close>

theorem alarm_command_lost:
  assumes "rows_ok g" and "0 \<le> slider g" and "slider g \<le> 100" and "\<not> alert_auto_on g"
    and "ActuatorCmdQueue (gfw g) = Some q" and "q_ok 10 q" and "length (q_list q) = 10" and "alarm a" and "alarm b"
  shows "let g' = apply_avg_to_gui a g in ActuatorCmdQueue (gfw g') = Some q \<and> switch_on g' \<and>
    gfw (apply_avg_to_gui b (g'\<lparr>gfw := w\<rparr>)) = w"
proof -
  note f = fed_frame [of a g] alert_fed(1) [OF assms(1), of a]
  have sl: "0 \<le> slider (fed a g)" "slider (fed a g) \<le> 100" using assms(2,3) f by simp_all
  have c: "alarm_cmd (fed a g) = Some (gui_fan (word_of_int (max 80 (slider g))))" using f assms(4,8) by (simp add: alarm_cmd_def)
  obtain x where x: "apply_avg_to_gui a g = gui_send (gui_fan (word_of_int (max 80 (slider g)))) x"
    "alert_auto_on x" "ActuatorCmdQueue (gfw x) = Some q" "switch_on x" "slider x = max 80 (slider g)"
    using display_turn [OF sl] f assms(5,8) c unfolding apply_fed by auto
  define g' where "g' = apply_avg_to_gui a g"
  have g': "g' = x" using gui_send_queue(2) [OF x(3) assms(6,7)] x(1) by (simp add: g'_def)
  have r: "rows_ok g'" using fed_rows(3) [OF assms(1), of 0 a] by (simp add: g'_def apply_fed)
  let ?y = "g'\<lparr>gfw := w\<rparr>"
  have y: "rows_ok ?y" "alert_auto_on ?y" "slider ?y = max 80 (slider g)" using r g' x(2,5) by simp_all
  note fy = fed_frame [of b ?y] alert_fed(1) [OF y(1), of b]
  have "alarm_cmd (fed b ?y) = None" using fy y assms(9) by (simp add: alarm_cmd_def)
  then have "gfw (apply_avg_to_gui b ?y) = w"
    using display_turn [of "fed b ?y"] fy y assms(2,3) unfolding apply_fed by auto
  then show ?thesis using g' x(3,4) by (simp add: Let_def g'_def [symmetric])
qed

fun full_queue :: "nat \<Rightarrow> applay_msg_t queue" where
  "full_queue 0 = prvInitialiseNewQueue 10"
| "full_queue (Suc k) = snd (xQueueSend (full_queue k) (gui_fan 0) 0 [])"

lemma full_queue_ok: "k \<le> 10 \<Longrightarrow> q_ok 10 (full_queue k) \<and> length (q_list (full_queue k)) = k"
proof (induction k)
  case 0
  then show ?case using q_ok_new [of 10] by simp
next
  case (Suc k)
  then have ok: "q_ok 10 (full_queue k)" "length (q_list (full_queue k)) = k" by simp_all
  have inv: "q_inv (full_queue k)" "length (q_list (full_queue k)) < uxLength (full_queue k)" using ok Suc.prems by (simp_all add: q_ok_def)
  note b = send_has_room [OF inv, of "gui_fan 0" 0 "[]"]
  have "length (q_list (full_queue k) @ [gui_fan 0]) = Suc k" using ok(2) by simp
  then show ?case unfolding full_queue.simps using b(2,3,4) ok(1) by (simp only: q_ok_def simp_thms)
qed

lemma alarm_command_lost_witness:
  "gfw (apply_avg_to_gui (co2_report 3000) ((apply_avg_to_gui (co2_report 2000)
      (gui_boot\<lparr>gfw := firmware_boot\<lparr>ActuatorCmdQueue := Some (full_queue 10)\<rparr>\<rparr>))\<lparr>gfw := firmware_boot\<rparr>)) = firmware_boot"
proof -
  let ?g = "gui_boot\<lparr>gfw := firmware_boot\<lparr>ActuatorCmdQueue := Some (full_queue 10)\<rparr>\<rparr>"
  have g: "rows_ok ?g" "0 \<le> slider ?g" "slider ?g \<le> 100" "\<not> alert_auto_on ?g" "ActuatorCmdQueue (gfw ?g) = Some (full_queue 10)"
    using gui_boot_ok by simp_all
  have q: "q_ok 10 (full_queue 10)" "length (q_list (full_queue 10)) = 10" using full_queue_ok [of 10] by blast+
  have a: "alarm (co2_report 2000)" "alarm (co2_report 3000)" by (simp_all add: alarm_def co2_report_def)
  from alarm_command_lost [OF g q a] show ?thesis unfolding Let_def by blast
qed

text \<open>The processor load on the display is never above 100; as long as the products stay below
  2^32 it is 100 minus the idle share, except that an idle time more than one percent above the
  total, which the two counter readings allow, is shown as full load.\<close>

theorem cpu_load_value:
  assumes "now \<ge> 1000" and "n \<noteq> 0" and "List.find (\<lambda>t. take 4 (fst t) = ascii ''IDLE'') arr = Some (name, idle)"
    and "last_total_runtime c < now" and "last_idle_runtime c \<le> idle"
    and "unat (idle - last_idle_runtime c) * 100 < 2 ^ 32"
  shows "let dt = unat (now - last_total_runtime c); di = unat (idle - last_idle_runtime c); share = di * 100 div dt in
    unat (fst (sys_calc_cpu_pct now n True arr c)) = (if share \<le> 100 then 100 - share else 100)"
proof -
  define dt di where "dt = now - last_total_runtime c" and "di = idle - last_idle_runtime c"
  have "dt \<noteq> 0" using assms(4) by (auto simp: dt_def)
  define s where "s = di * 100 div dt"
  have "unat (D * 100) = unat D * 100" if "unat D * 100 < 2 ^ 32" for D :: u32
    using that by (simp add: unat_word_ariths)
  from this [OF assms(6)] have m: "unat (di * 100) = unat di * 100" by (simp only: di_def)
  have s: "unat s = unat di * 100 div unat dt" by (simp add: s_def unat_div m)
  have r: "fst (sys_calc_cpu_pct now n True arr c) = ucast (if 100 - s > 100 then 100 else 100 - s)"
  proof -
    have c: "\<not> now < 1000" "last_total_runtime c \<le> now" "\<not> \<not> True" using assms(1,4) by auto
    show ?thesis
      unfolding sys_calc_cpu_pct_def if_not_P [OF c(1)] if_not_P [OF assms(2)] if_not_P [OF c(3)] Let_def assms(3)
        option.case snd_conv if_P [OF c(2)] if_P [OF assms(5)]
      unfolding dt_def [symmetric] di_def [symmetric] if_not_P [OF \<open>dt \<noteq> 0\<close>] s_def [symmetric] fst_conv by (rule refl)
  qed
  have u: "unat (ucast w :: u8) = unat w" if "unat w \<le> 100" for w :: u32
    using that by (simp add: unsigned_ucast_eq take_bit_eq_mod)
  have "unat (100 - s) = 100 - unat s" if "unat s \<le> 100"
  proof -
    have "s \<le> 100" using that by (simp add: word_le_nat_alt)
    then show ?thesis by (simp add: unat_sub)
  qed
  moreover have "unat (100 - s) > 100" if "\<not> unat s \<le> 100"
  proof -
    have "uint s > 100" using that by (metis linorder_not_le nat_le_iff unat_eq_nat_uint of_nat_numeral)
    moreover have "uint s < 2 ^ 32" using uint_lt2p [of s] by simp
    moreover have "uint (100 - s) = (100 - uint s) mod 2 ^ 32" by (simp add: uint_word_ariths)
    moreover have "(100 - uint s) mod 2 ^ 32 = (100 - uint s + 2 ^ 32) mod 2 ^ 32" by (rule mod_add_self2 [symmetric])
    ultimately have "uint (100 - s) = 100 - uint s + 2 ^ 32" using mod_pos_pos_trivial [of "100 - uint s + 2 ^ 32" "2 ^ 32"] by linarith
    then have "uint (100 - s) > 100" using \<open>uint s < 2 ^ 32\<close> by simp
    then show ?thesis unfolding uint_nat by linarith
  qed
  ultimately have "unat (if 100 - s > 100 then 100 else 100 - s) = (if unat s \<le> 100 then 100 - unat s else 100)"
    by (auto simp: word_less_nat_alt)
  then show ?thesis unfolding Let_def r dt_def [symmetric] di_def [symmetric] s [symmetric] by (subst u) auto
qed

definition load_boot :: cpu_load where
  "load_boot = \<lparr>last_total_runtime = 1000, last_idle_runtime = 500, cpu_hist_buf = replicate 20 0, cpu_hist_head = 0, cpu_hist_count = 0\<rparr>"

lemma cpu_load_value_witness:
  "unat (fst (sys_calc_cpu_pct 1250 10 True [(ascii ''IDLE'', 600)] load_boot)) = 60 \<and>
   unat (fst (sys_calc_cpu_pct 1250 10 True [(ascii ''IDLE'', 753)] load_boot)) = 100"
  using cpu_load_value [of 1250 10 "[(ascii ''IDLE'', 600)]" "ascii ''IDLE''" 600 load_boot]
    cpu_load_value [of 1250 10 "[(ascii ''IDLE'', 753)]" "ascii ''IDLE''" 753 load_boot]
  by (simp add: load_boot_def Let_def ascii_def)

end
