(* ===== verification/Heap4.thy ===== *)
theory Heap4
  imports Agro_Prelude
begin

text \<open>
  The heap of the kernel (\<open>Middlewares/FreeRTOS/portable/MemMang/heap_4.c\<close>), from which queues,
  stacks and the task table of the panel's system page come: headers in the memory they manage,
  linked into a list of the free blocks in the order of their addresses, with neighbours merged.
  A pointer is its 32-bit address, 0 is NULL; \<open>configASSERT\<close> of this firmware only prints.
\<close>

section \<open>State\<close>

record BlockLink_t =
  pxNextFreeBlock :: u32
  xBlockSize :: u32

text \<open>The headers by address; the addresses of the array and of the static \<open>xStart\<close> are the linker's.\<close>

record heap4 =
  links :: "u32 \<Rightarrow> BlockLink_t"
  ucHeap :: u32
  xStart :: u32
  pxEnd :: u32
  xFreeBytesRemaining :: u32
  xMinimumEverFreeBytesRemaining :: u32
  xNumberOfSuccessfulAllocations :: u32
  xNumberOfSuccessfulFrees :: u32
  xBlockAllocatedBit :: u32

abbreviation (input) portBYTE_ALIGNMENT :: u32 where "portBYTE_ALIGNMENT \<equiv> 8"
abbreviation (input) portBYTE_ALIGNMENT_MASK :: u32 where "portBYTE_ALIGNMENT_MASK \<equiv> 7"
abbreviation (input) xHeapStructSize :: u32 where "xHeapStructSize \<equiv> 8"
abbreviation (input) heapMINIMUM_BLOCK_SIZE :: u32 where "heapMINIMUM_BLOCK_SIZE \<equiv> 16"
abbreviation (input) configTOTAL_HEAP_SIZE :: u32 where "configTOTAL_HEAP_SIZE \<equiv> 61440"

abbreviation next_of :: "heap4 \<Rightarrow> u32 \<Rightarrow> u32" where "next_of h p \<equiv> pxNextFreeBlock (links h p)"
abbreviation size_of :: "heap4 \<Rightarrow> u32 \<Rightarrow> u32" where "size_of h p \<equiv> xBlockSize (links h p)"

definition set_next :: "u32 \<Rightarrow> u32 \<Rightarrow> heap4 \<Rightarrow> heap4" where
  "set_next p q h = h\<lparr>links := (links h)(p := (links h p)\<lparr>pxNextFreeBlock := q\<rparr>)\<rparr>"

definition set_size :: "u32 \<Rightarrow> u32 \<Rightarrow> heap4 \<Rightarrow> heap4" where
  "set_size p n h = h\<lparr>links := (links h)(p := (links h p)\<lparr>xBlockSize := n\<rparr>)\<rparr>"

section \<open>Operations\<close>

definition prvHeapInit :: "heap4 \<Rightarrow> heap4" where
  "prvHeapInit h =
     (let (uxAddress, xTotalHeapSize) =
            (if ucHeap h AND portBYTE_ALIGNMENT_MASK \<noteq> 0
             then (let a = (ucHeap h + (portBYTE_ALIGNMENT - 1)) AND NOT portBYTE_ALIGNMENT_MASK
                   in (a, configTOTAL_HEAP_SIZE - (a - ucHeap h)))
             else (ucHeap h, configTOTAL_HEAP_SIZE));
          pucAlignedHeap = uxAddress;
          h = set_size (xStart h) 0 (set_next (xStart h) pucAlignedHeap h);
          uxAddress = (pucAlignedHeap + xTotalHeapSize - xHeapStructSize) AND NOT portBYTE_ALIGNMENT_MASK;
          h = set_next uxAddress 0 (set_size uxAddress 0 (h\<lparr>pxEnd := uxAddress\<rparr>));
          pxFirstFreeBlock = pucAlignedHeap;
          h = set_next pxFirstFreeBlock (pxEnd h) (set_size pxFirstFreeBlock (uxAddress - pxFirstFreeBlock) h)
      in h\<lparr>xMinimumEverFreeBytesRemaining := size_of h pxFirstFreeBlock,
           xFreeBytesRemaining := size_of h pxFirstFreeBlock, xBlockAllocatedBit := push_bit 31 1\<rparr>)"

text \<open>The loop for the place of a block in the list.\<close>

partial_function (option) insert_after :: "heap4 \<Rightarrow> u32 \<Rightarrow> u32 \<Rightarrow> u32 option" where
  "insert_after h pxBlockToInsert pxIterator =
     (if next_of h pxIterator < pxBlockToInsert then insert_after h pxBlockToInsert (next_of h pxIterator)
      else Some pxIterator)"

definition prvInsertBlockIntoFreeList :: "u32 \<Rightarrow> heap4 \<Rightarrow> heap4 option" where
  "prvInsertBlockIntoFreeList pxBlockToInsert h = map_option (\<lambda>pxIterator.
     let (b, h) = (if pxIterator + size_of h pxIterator = pxBlockToInsert
                   then (pxIterator, set_size pxIterator (size_of h pxIterator + size_of h pxBlockToInsert) h)
                   else (pxBlockToInsert, h));
         h = (if b + size_of h b = next_of h pxIterator
              then (if next_of h pxIterator \<noteq> pxEnd h
                    then (let h = set_size b (size_of h b + size_of h (next_of h pxIterator)) h
                          in set_next b (next_of h (next_of h pxIterator)) h)
                    else set_next b (pxEnd h) h)
              else set_next b (next_of h pxIterator) h)
     in if pxIterator \<noteq> b then set_next pxIterator b h else h) (insert_after h pxBlockToInsert (xStart h))"

text \<open>The size of the block for a request, header and alignment included; 0 where it overflows.\<close>

definition block_size :: "u32 \<Rightarrow> u32" where
  "block_size xWantedSize =
     (if xWantedSize > 0 \<and> xWantedSize + xHeapStructSize > xWantedSize then
        (let w = xWantedSize + xHeapStructSize in
         if w AND portBYTE_ALIGNMENT_MASK \<noteq> 0 then
           (if w + (portBYTE_ALIGNMENT - (w AND portBYTE_ALIGNMENT_MASK)) > w
            then w + (portBYTE_ALIGNMENT - (w AND portBYTE_ALIGNMENT_MASK)) else 0)
         else w)
      else 0)"

text \<open>The search for a block that is large enough: the one before it and itself.\<close>

partial_function (option) find_block :: "heap4 \<Rightarrow> u32 \<Rightarrow> u32 \<Rightarrow> u32 \<Rightarrow> (u32 \<times> u32) option" where
  "find_block h xWantedSize pxPreviousBlock pxBlock =
     (if size_of h pxBlock < xWantedSize \<and> next_of h pxBlock \<noteq> 0
      then find_block h xWantedSize pxBlock (next_of h pxBlock) else Some (pxPreviousBlock, pxBlock))"

definition take_block :: "u32 \<Rightarrow> u32 \<Rightarrow> u32 \<Rightarrow> heap4 \<Rightarrow> (u32 \<times> heap4) option" where
  "take_block xWantedSize pxPreviousBlock pxBlock h =
     (let pvReturn = next_of h pxPreviousBlock + xHeapStructSize;
          h = set_next pxPreviousBlock (next_of h pxBlock) h
      in map_option (\<lambda>h.
           let free = xFreeBytesRemaining h - size_of h pxBlock;
               h = h\<lparr>xFreeBytesRemaining := free,
                     xMinimumEverFreeBytesRemaining := (if free < xMinimumEverFreeBytesRemaining h then free
                       else xMinimumEverFreeBytesRemaining h)\<rparr>;
               h = set_next pxBlock 0 (set_size pxBlock (size_of h pxBlock OR xBlockAllocatedBit h) h)
           in (pvReturn, h\<lparr>xNumberOfSuccessfulAllocations := xNumberOfSuccessfulAllocations h + 1\<rparr>))
         (if size_of h pxBlock - xWantedSize > heapMINIMUM_BLOCK_SIZE
          then (let pxNewBlockLink = pxBlock + xWantedSize;
                    h = set_size pxNewBlockLink (size_of h pxBlock - xWantedSize) h;
                    h = set_size pxBlock xWantedSize h
                in prvInsertBlockIntoFreeList pxNewBlockLink h)
          else Some h))"

definition pvPortMalloc :: "u32 \<Rightarrow> heap4 \<Rightarrow> (u32 \<times> heap4) option" where
  "pvPortMalloc xWantedSize h =
     (let h = (if pxEnd h = 0 then prvHeapInit h else h) in
      if xWantedSize AND xBlockAllocatedBit h = 0 then
        (let xWantedSize = block_size xWantedSize in
         if xWantedSize > 0 \<and> xWantedSize \<le> xFreeBytesRemaining h then
           Option.bind (find_block h xWantedSize (xStart h) (next_of h (xStart h))) (\<lambda>(pxPreviousBlock, pxBlock).
             if pxBlock \<noteq> pxEnd h then take_block xWantedSize pxPreviousBlock pxBlock h else Some (0, h))
         else Some (0, h))
      else Some (0, h))"

definition vPortFree :: "u32 \<Rightarrow> heap4 \<Rightarrow> heap4 option" where
  "vPortFree pv h =
     (if pv = 0 then Some h
      else let pxLink = pv - xHeapStructSize in
        if size_of h pxLink AND xBlockAllocatedBit h \<noteq> 0 then
          (if next_of h pxLink = 0 then
             (let h = set_size pxLink (size_of h pxLink AND NOT (xBlockAllocatedBit h)) h;
                  h = h\<lparr>xFreeBytesRemaining := xFreeBytesRemaining h + size_of h pxLink\<rparr>
              in map_option (\<lambda>h. h\<lparr>xNumberOfSuccessfulFrees := xNumberOfSuccessfulFrees h + 1\<rparr>)
                   (prvInsertBlockIntoFreeList pxLink h))
           else Some h)
        else Some h)"

definition xPortGetFreeHeapSize :: "heap4 \<Rightarrow> u32" where
  "xPortGetFreeHeapSize h = xFreeBytesRemaining h"

definition xPortGetMinimumEverFreeHeapSize :: "heap4 \<Rightarrow> u32" where
  "xPortGetMinimumEverFreeHeapSize h = xMinimumEverFreeBytesRemaining h"

text \<open>The statistics: one step of the walk per block, then the counters.\<close>

record HeapStats_t =
  xAvailableHeapSpaceInBytes :: u32
  xSizeOfLargestFreeBlockInBytes :: u32
  xSizeOfSmallestFreeBlockInBytes :: u32
  xNumberOfFreeBlocks :: u32
  stat_xMinimumEverFreeBytesRemaining :: u32
  stat_xNumberOfSuccessfulAllocations :: u32
  stat_xNumberOfSuccessfulFrees :: u32

partial_function (option) stats_walk :: "heap4 \<Rightarrow> u32 \<Rightarrow> u32 \<times> u32 \<times> u32 \<Rightarrow> (u32 \<times> u32 \<times> u32) option" where
  "stats_walk h pxBlock s =
     (let (xBlocks, xMaxSize, xMinSize) = s;
          n = size_of h pxBlock;
          s = (xBlocks + 1, if n > xMaxSize then n else xMaxSize, if n < xMinSize then n else xMinSize);
          pxBlock = next_of h pxBlock
      in if pxBlock \<noteq> pxEnd h then stats_walk h pxBlock s else Some s)"

definition vPortGetHeapStats :: "heap4 \<Rightarrow> HeapStats_t option" where
  "vPortGetHeapStats h = map_option (\<lambda>(xBlocks, xMaxSize, xMinSize).
       \<lparr>xAvailableHeapSpaceInBytes = xFreeBytesRemaining h, xSizeOfLargestFreeBlockInBytes = xMaxSize,
        xSizeOfSmallestFreeBlockInBytes = xMinSize, xNumberOfFreeBlocks = xBlocks,
        stat_xMinimumEverFreeBytesRemaining = xMinimumEverFreeBytesRemaining h,
        stat_xNumberOfSuccessfulAllocations = xNumberOfSuccessfulAllocations h,
        stat_xNumberOfSuccessfulFrees = xNumberOfSuccessfulFrees h\<rparr>)
     (if next_of h (xStart h) \<noteq> 0 then stats_walk h (next_of h (xStart h)) (0, 0, 0xFFFFFFFF) else Some (0, 0, 0xFFFFFFFF))"

section \<open>Pointers and chains\<close>

abbreviation adr :: "nat \<Rightarrow> u32" where "adr a \<equiv> of_nat a"

lemma unat_adr: "a < 2 ^ 32 \<Longrightarrow> unat (adr a) = a"
  by (rule unat_of_nat_u32) simp

lemma adr_eq: "a < 2 ^ 32 \<Longrightarrow> b < 2 ^ 32 \<Longrightarrow> adr a = adr b \<longleftrightarrow> a = b"
  by (metis unat_adr)

lemma adr_less: "a < 2 ^ 32 \<Longrightarrow> b < 2 ^ 32 \<Longrightarrow> adr a < adr b \<longleftrightarrow> a < b"
  by (simp only: word_less_nat_alt unat_adr)

lemma set_fields [simp]:
  "next_of (set_next p q h) x = (if x = p then q else next_of h x)" "size_of (set_next p q h) x = size_of h x"
  "next_of (set_size p n h) x = next_of h x" "size_of (set_size p n h) x = (if x = p then n else size_of h x)"
  "pxEnd (set_next p q h) = pxEnd h" "pxEnd (set_size p n h) = pxEnd h"
  "xStart (set_next p q h) = xStart h" "xStart (set_size p n h) = xStart h"
  "xFreeBytesRemaining (set_next p q h) = xFreeBytesRemaining h" "xFreeBytesRemaining (set_size p n h) = xFreeBytesRemaining h"
  "xMinimumEverFreeBytesRemaining (set_next p q h) = xMinimumEverFreeBytesRemaining h"
  "xMinimumEverFreeBytesRemaining (set_size p n h) = xMinimumEverFreeBytesRemaining h"
  "xBlockAllocatedBit (set_next p q h) = xBlockAllocatedBit h" "xBlockAllocatedBit (set_size p n h) = xBlockAllocatedBit h"
  by (simp_all add: set_next_def set_size_def)

text \<open>A chain of free blocks, each with its address and its size.\<close>

fun seg :: "heap4 \<Rightarrow> u32 \<Rightarrow> (nat \<times> nat) list \<Rightarrow> u32 \<Rightarrow> bool" where
  "seg h p [] q \<longleftrightarrow> p = q"
| "seg h p ((a, k) # fs) q \<longleftrightarrow> p = adr a \<and> size_of h (adr a) = adr k \<and> seg h (next_of h (adr a)) fs q"

lemma seg_append: "seg h p (xs @ ys) q \<longleftrightarrow> (\<exists>r. seg h p xs r \<and> seg h r ys q)"
  by (induction xs arbitrary: p) auto

lemma seg_frame:
  assumes "\<And>a. a \<in> fst ` set fs \<Longrightarrow> next_of h' (adr a) = next_of h (adr a) \<and> size_of h' (adr a) = size_of h (adr a)"
  shows "seg h' p fs q = seg h p fs q"
  using assms by (induction fs arbitrary: p) force+

lemma seg_counters [simp]:
  "seg (h\<lparr>xNumberOfSuccessfulFrees := c\<rparr>) p fs q = seg h p fs q"
  "seg (h\<lparr>xNumberOfSuccessfulAllocations := c\<rparr>) p fs q = seg h p fs q"
  "seg (h\<lparr>xFreeBytesRemaining := c\<rparr>) p fs q = seg h p fs q"
  "seg (h\<lparr>xMinimumEverFreeBytesRemaining := c\<rparr>) p fs q = seg h p fs q"
  by (rule seg_frame; simp)+

text \<open>Where a chain ends is what the last block, or the pointer before it, points to.\<close>

definition last_of :: "u32 \<Rightarrow> (nat \<times> nat) list \<Rightarrow> u32" where
  "last_of p fs = (if fs = [] then p else adr (fst (last fs)))"

lemma last_of_simps [simp]: "last_of p [] = p" "last_of p (fs @ [(a, k)]) = adr a" "last_of p ((a, k) # fs) = last_of (adr a) fs"
  by (simp_all add: last_of_def)

lemma seg_last: "seg h (next_of h p) fs q \<Longrightarrow> next_of h (last_of p fs) = q"
proof (induction fs arbitrary: p)
  case (Cons x fs)
  then show ?case by (cases x) simp
qed simp

text \<open>Blocks in the order of their addresses, with gaps between them, below the end.\<close>

fun apart :: "nat \<Rightarrow> (nat \<times> nat) list \<Rightarrow> nat \<Rightarrow> bool" where
  "apart lo [] e \<longleftrightarrow> lo \<le> e"
| "apart lo ((a, k) # fs) e \<longleftrightarrow> lo \<le> a \<and> 0 < k \<and> (fs \<noteq> [] \<longrightarrow> a + k < fst (hd fs)) \<and> apart (a + k) fs e"

lemma apart_bounds: "apart lo fs e \<Longrightarrow> lo \<le> e \<and> (\<forall>(a, k) \<in> set fs. lo \<le> a \<and> 0 < k \<and> a + k \<le> e)"
  by (induction lo fs e rule: apart.induct) fastforce+

lemma apart_append:
  "apart lo (xs @ ys) e \<Longrightarrow> \<exists>m. apart lo xs m \<and> apart m ys e \<and> (xs \<noteq> [] \<longrightarrow> m = fst (last xs) + snd (last xs))"
proof (induction lo xs e rule: apart.induct)
  case (1 lo e)
  then show ?case by auto
next
  case (2 lo a k fs e)
  then obtain m where m: "apart (a + k) fs m" "apart m ys e" "fs \<noteq> [] \<longrightarrow> m = fst (last fs) + snd (last fs)" by auto
  show ?case
  proof (cases "fs = []")
    case True
    then show ?thesis using 2(2) by (intro exI [of _ "a + k"]) auto
  next
    case False
    then show ?thesis using 2(2) m by (intro exI [of _ m]) auto
  qed
qed

lemma insert_after_chain:
  assumes "seg h (next_of h p) (lo @ hi) (adr e)" "\<forall>(a, k) \<in> set lo. a < t" "\<forall>(a, k) \<in> set hi. t < a \<and> a < 2 ^ 32"
    "t < e" "e < 2 ^ 32"
  shows "insert_after h (adr t) p = Some (last_of p lo)"
  using assms
proof (induction lo arbitrary: p)
  case Nil
  have "\<not> next_of h p < adr t"
  proof (cases hi)
    case Nil
    then show ?thesis using Nil.prems by (simp add: adr_less)
  next
    case (Cons x xs)
    then show ?thesis using Nil.prems by (cases x) (simp add: adr_less)
  qed
  then show ?case by (subst insert_after.simps) simp
next
  case (Cons x lo)
  obtain a k where x: "x = (a, k)" by (cases x)
  have "next_of h p < adr t" using Cons.prems x by (simp add: adr_less)
  moreover have "next_of h p = adr a" using Cons.prems(1) x by simp
  moreover have "insert_after h (adr t) (adr a) = Some (last_of (adr a) lo)"
    by (rule Cons.IH) (use Cons.prems x in simp_all)
  ultimately show ?case by (subst insert_after.simps) (simp add: x)
qed

lemma find_block_chain:
  assumes "seg h p (small @ (a, k) # rest) q" "\<forall>(x, m) \<in> set small. 0 < x \<and> x < 2 ^ 32 \<and> m < w" "0 < a" "a < 2 ^ 32"
    "w \<le> k" "k < 2 ^ 32"
  shows "find_block h (adr w) prev p = Some (last_of prev small, adr a)"
  using assms
proof (induction small arbitrary: prev p)
  case Nil
  then have "\<not> adr k < adr w" by (simp add: adr_less)
  then show ?case using Nil by (subst find_block.simps) simp
next
  case (Cons x small)
  obtain b m where x: "x = (b, m)" by (cases x)
  have s: "p = adr b" "size_of h (adr b) = adr m" "seg h (next_of h (adr b)) (small @ (a, k) # rest) q"
    using Cons.prems(1) x by simp_all
  have "\<exists>c. 0 < c \<and> c < 2 ^ 32 \<and> next_of h (adr b) = adr c"
    using s(3) Cons.prems(2-4) by (cases small) auto
  then have "next_of h (adr b) \<noteq> 0" using adr_eq [of _ 0] by force
  moreover have "adr m < adr w" using Cons.prems(2,5,6) x by (simp add: adr_less)
  ultimately have "find_block h (adr w) prev p = find_block h (adr w) (adr b) (next_of h (adr b))"
    using s by (subst find_block.simps) simp
  also have "\<dots> = Some (last_of (adr b) small, adr a)" by (rule Cons.IH) (use s(3) Cons.prems x in simp_all)
  finally show ?case by (simp add: x)
qed

lemma find_block_none:
  assumes "seg h p small (adr e)" "\<forall>(x, m) \<in> set small. 0 < x \<and> x < 2 ^ 32 \<and> m < w" "0 < e" "e < 2 ^ 32" "0 < w" "w < 2 ^ 32"
    "size_of h (adr e) = 0" "next_of h (adr e) = 0"
  shows "find_block h (adr w) prev p = Some (last_of prev small, adr e)"
  using assms
proof (induction small arbitrary: prev p)
  case Nil
  then show ?case by (subst find_block.simps) simp
next
  case (Cons x small)
  obtain b m where x: "x = (b, m)" by (cases x)
  have s: "p = adr b" "size_of h (adr b) = adr m" "seg h (next_of h (adr b)) small (adr e)"
    using Cons.prems(1) x by simp_all
  have "\<exists>c. 0 < c \<and> c < 2 ^ 32 \<and> next_of h (adr b) = adr c"
    using s(3) Cons.prems(2-4) by (cases small) auto
  then have "next_of h (adr b) \<noteq> 0" using adr_eq [of _ 0] by force
  moreover have "adr m < adr w" using Cons.prems(2,6) x by (simp add: adr_less)
  ultimately have "find_block h (adr w) prev p = find_block h (adr w) (adr b) (next_of h (adr b))"
    using s by (subst find_block.simps) simp
  also have "\<dots> = Some (last_of (adr b) small, adr e)" by (rule Cons.IH) (use s(3) Cons.prems x in simp_all)
  finally show ?case by (simp add: x)
qed

section \<open>Putting a block into the list\<close>

text \<open>A free block joined with the one that follows it directly, and with the one it follows.\<close>

fun absorb :: "nat \<Rightarrow> nat \<Rightarrow> (nat \<times> nat) list \<Rightarrow> (nat \<times> nat) list" where
  "absorb t n [] = [(t, n)]"
| "absorb t n ((a, k) # fs) = (if t + n = a then (t, n + k) # fs else (t, n) # (a, k) # fs)"

definition glue :: "(nat \<times> nat) list \<Rightarrow> nat \<Rightarrow> nat \<Rightarrow> (nat \<times> nat) list \<Rightarrow> (nat \<times> nat) list" where
  "glue fs1 t n fs2 =
     (if fs1 \<noteq> [] \<and> fst (last fs1) + snd (last fs1) = t
      then butlast fs1 @ absorb (fst (last fs1)) (snd (last fs1) + n) fs2 else fs1 @ absorb t n fs2)"

lemma glue_simps:
  "glue [] t n fs2 = absorb t n fs2"
  "glue (ls @ [(a, k)]) t n fs2 = (if a + k = t then ls @ absorb a (k + n) fs2 else ls @ (a, k) # absorb t n fs2)"
  by (simp_all add: glue_def)

definition merge_next :: "u32 \<Rightarrow> u32 \<Rightarrow> heap4 \<Rightarrow> heap4" where
  "merge_next b it h = (if b + size_of h b = next_of h it
      then (if next_of h it \<noteq> pxEnd h
            then set_next b (next_of h (next_of h it)) (set_size b (size_of h b + size_of h (next_of h it)) h)
            else set_next b (pxEnd h) h)
      else set_next b (next_of h it) h)"

lemma insert_unfold:
  "prvInsertBlockIntoFreeList t h = map_option (\<lambda>it.
     if it + size_of h it = t then merge_next it it (set_size it (size_of h it + size_of h t) h)
     else (let h2 = merge_next t it h in if it \<noteq> t then set_next it t h2 else h2)) (insert_after h t (xStart h))"
proof -
  have "(let (b, h) = (if it + size_of h it = t then (it, set_size it (size_of h it + size_of h t) h) else (t, h));
         h = (if b + size_of h b = next_of h it
              then (if next_of h it \<noteq> pxEnd h
                    then (let h = set_size b (size_of h b + size_of h (next_of h it)) h
                          in set_next b (next_of h (next_of h it)) h)
                    else set_next b (pxEnd h) h)
              else set_next b (next_of h it) h)
     in if it \<noteq> b then set_next it b h else h)
     = (if it + size_of h it = t then merge_next it it (set_size it (size_of h it + size_of h t) h)
     else (let h2 = merge_next t it h in if it \<noteq> t then set_next it t h2 else h2))" (is "?l = ?r") for it
  proof (cases "it + size_of h it = t")
    case True
    then show ?thesis by (simp only: merge_next_def Let_def if_True prod.case set_fields simp_thms if_False)
  next
    case False
    then show ?thesis by (simp only: merge_next_def Let_def if_False prod.case set_fields)
  qed
  then show ?thesis unfolding prvInsertBlockIntoFreeList_def by (simp only:)
qed

lemma merge_next_chain:
  assumes "size_of h (adr t) = adr n" "seg h (next_of h it) fs (adr e)" "apart (t + n) fs e" "pxEnd h = adr e" "e < 2 ^ 32" "0 < n"
  shows "seg (merge_next (adr t) it h) (adr t) (absorb t n fs) (adr e)"
    "x \<noteq> adr t \<Longrightarrow> links (merge_next (adr t) it h) x = links h x"
    "\<exists>l. merge_next (adr t) it h = h\<lparr>links := l\<rparr>"
proof -
  let ?h = "merge_next (adr t) it h"
  show l: "links ?h x = links h x" if "x \<noteq> adr t" for x
    using that by (simp add: merge_next_def set_next_def set_size_def)
  show "\<exists>l. ?h = h\<lparr>links := l\<rparr>"
    by (simp add: merge_next_def set_next_def set_size_def) blast
  have b: "t + n \<le> e" "\<forall>(a, k) \<in> set fs. t + n \<le> a \<and> 0 < k \<and> a + k \<le> e" using apart_bounds [OF assms(3)] by auto
  have ne: "adr a \<noteq> adr t" if "a \<in> fst ` set fs" for a
  proof -
    have "t < a" "a < 2 ^ 32" using that b assms(5,6) by force+
    then show ?thesis using adr_eq [of a t] by simp
  qed
  have frame: "seg ?h p gs q = seg h p gs q" if "fst ` set gs \<subseteq> fst ` set fs" for p gs q
  proof (rule seg_frame)
    fix a assume "a \<in> fst ` set gs"
    then have "adr a \<noteq> adr t" using that ne by blast
    then show "next_of ?h (adr a) = next_of h (adr a) \<and> size_of ?h (adr a) = size_of h (adr a)" using l by simp
  qed
  have tn: "adr t + adr n = adr (t + n)" by simp
  show "seg ?h (adr t) (absorb t n fs) (adr e)"
  proof (cases fs)
    case Nil
    then have nx: "next_of h it = adr e" using assms(2) by simp
    then have "size_of ?h (adr t) = adr n" "next_of ?h (adr t) = adr e" using assms(1,4) by (simp_all add: merge_next_def)
    then show ?thesis using Nil by simp
  next
    case (Cons x gs)
    obtain a k where x: "x = (a, k)" by (cases x)
    have s: "next_of h it = adr a" "size_of h (adr a) = adr k" "seg h (next_of h (adr a)) gs (adr e)"
      using assms(2) Cons x by simp_all
    have a: "t + n \<le> a" "a < 2 ^ 32" "a < e" "t + n < 2 ^ 32" using b Cons x assms(5) by auto
    have ae: "adr a \<noteq> adr e" using adr_eq [of a e] a assms(5) by simp
    have at: "adr a \<noteq> adr t" using ne Cons x by simp
    have touch: "adr t + adr n = adr a \<longleftrightarrow> t + n = a" unfolding tn using adr_eq [of "t + n" a] a by simp
    show ?thesis
    proof (cases "t + n = a")
      case True
      then have "size_of ?h (adr t) = adr (n + k)" "next_of ?h (adr t) = next_of h (adr a)"
        using touch s assms(1,4) ae by (simp_all add: merge_next_def)
      then show ?thesis using Cons x True s(3) frame [of gs] by (simp add: subset_insertI)
    next
      case False
      then have "size_of ?h (adr t) = adr n" "next_of ?h (adr t) = adr a" using touch s(1) assms(1) by (simp_all add: merge_next_def)
      then show ?thesis using Cons x False s frame [of fs "adr a"] by simp
    qed
  qed
qed

lemma fst_absorb: "fst ` set (absorb t n fs) \<subseteq> insert t (fst ` set fs)"
  by (cases fs) (auto split: if_splits)

lemma apart_fst:
  assumes "apart lo fs e" "a \<in> fst ` set fs"
  shows "lo \<le> a \<and> a < e"
  using apart_bounds [OF assms(1)] assms(2) by fastforce

lemma seg_frame_ne:
  assumes "\<And>x. x \<notin> X \<Longrightarrow> links h' x = links h x" "\<And>a. a \<in> fst ` set fs \<Longrightarrow> adr a \<notin> X"
  shows "seg h' p fs q = seg h p fs q"
  by (rule seg_frame) (simp add: assms)

text \<open>What an insertion leaves: the chain with the block in its place, everything else as it was.\<close>

definition inserted :: "heap4 \<Rightarrow> (nat \<times> nat) list \<Rightarrow> nat \<Rightarrow> nat \<Rightarrow> (nat \<times> nat) list \<Rightarrow> nat \<Rightarrow> heap4 \<Rightarrow> bool" where
  "inserted h fs1 t n fs2 e h' \<longleftrightarrow> seg h' (next_of h' (xStart h)) (glue fs1 t n fs2) (adr e) \<and>
     (\<forall>x. x \<noteq> xStart h \<longrightarrow> x \<noteq> adr t \<longrightarrow> x \<notin> adr ` fst ` set fs1 \<longrightarrow> links h' x = links h x) \<and>
     size_of h' (xStart h) = size_of h (xStart h) \<and> (\<exists>l. h' = h\<lparr>links := l\<rparr>)"

lemma insert_first:
  assumes "seg h (next_of h (xStart h)) fs2 (adr e)" "pxEnd h = adr e" "size_of h (adr t) = adr n" "0 < n"
    "apart (t + n) fs2 e" "e < 2 ^ 32" "\<And>x. t \<le> x \<Longrightarrow> x \<le> e \<Longrightarrow> xStart h \<noteq> adr x"
  shows "inserted h [] t n fs2 e (set_next (xStart h) (adr t) (merge_next (adr t) (xStart h) h))"
proof -
  note m = merge_next_chain [OF assms(3,1,5,2,6,4)]
  let ?h2 = "merge_next (adr t) (xStart h) h"
  let ?h' = "set_next (xStart h) (adr t) ?h2"
  have te: "t < e" using apart_bounds [OF assms(5)] assms(4) by simp
  have "seg ?h' (adr t) (absorb t n fs2) (adr e) = seg ?h2 (adr t) (absorb t n fs2) (adr e)"
  proof (rule seg_frame_ne [where X = "{xStart h}"])
    fix a assume "a \<in> fst ` set (absorb t n fs2)"
    then have "t \<le> a \<and> a \<le> e" using fst_absorb [of t n fs2] apart_fst [OF assms(5)] te by fastforce
    then show "adr a \<notin> {xStart h}" using assms(7) by (metis singletonD)
  qed (simp add: set_next_def)
  then have "seg ?h' (next_of ?h' (xStart h)) (glue [] t n fs2) (adr e)" using m(1) by (simp add: glue_simps)
  moreover have "links ?h' x = links h x" if "x \<noteq> xStart h" "x \<noteq> adr t" for x
    using that m(2) by (simp add: set_next_def)
  moreover have "size_of ?h' (xStart h) = size_of h (xStart h)"
    using m(2) [of "xStart h"] assms(7) [of t] te by simp
  moreover have "\<exists>l. ?h' = h\<lparr>links := l\<rparr>" using m(3) by (auto simp: set_next_def)
  ultimately show ?thesis unfolding inserted_def by blast
qed

lemma insert_later:
  assumes seg: "seg h (next_of h (xStart h)) (ls @ (a, k) # fs2) (adr e)" and e: "pxEnd h = adr e"
    and n: "size_of h (adr t) = adr n" "0 < n" and ap: "apart b (ls @ [(a, k)]) t" "apart (t + n) fs2 e" "e < 2 ^ 32"
    and x: "\<And>x. b \<le> x \<Longrightarrow> x \<le> e \<Longrightarrow> xStart h \<noteq> adr x"
  defines "h1 \<equiv> set_size (adr a) (size_of h (adr a) + size_of h (adr t)) h"
  shows "a + k = t \<Longrightarrow> inserted h (ls @ [(a, k)]) t n fs2 e (merge_next (adr a) (adr a) h1)"
    "a + k \<noteq> t \<Longrightarrow> inserted h (ls @ [(a, k)]) t n fs2 e (set_next (adr a) (adr t) (merge_next (adr t) (adr a) h))"
    "adr a + size_of h (adr a) = adr t \<longleftrightarrow> a + k = t" "adr a \<noteq> adr t"
proof -
  obtain m where m: "apart b ls m" "m \<le> a" "0 < k" "a + k \<le> t"
    using apart_append [OF ap(1)] by auto
  have te: "t + n \<le> e" "\<forall>(a, k) \<in> set fs2. t + n \<le> a \<and> 0 < k \<and> a + k \<le> e" using apart_bounds [OF ap(2)] by auto
  have bm: "b \<le> m" using apart_bounds [OF m(1)] by simp
  have s: "seg h (next_of h (xStart h)) ls (adr a)" "size_of h (adr a) = adr k" "seg h (next_of h (adr a)) fs2 (adr e)"
    using seg by (auto simp: seg_append)
  have xa: "xStart h \<noteq> adr a" using x [of a] bm m te by simp
  have xt: "xStart h \<noteq> adr t" using x [of t] bm m te by simp
  show at: "adr a \<noteq> adr t" using adr_eq [of a t] m te ap(3) by simp
  have ls: "adr y \<noteq> adr a \<and> adr y \<noteq> adr t" if "y \<in> fst ` set ls" for y
    using apart_fst [OF m(1) that] adr_eq [of y a] adr_eq [of y t] m te ap(3) by simp
  have fs2: "adr y \<noteq> adr a" if "y \<in> fst ` set fs2 \<or> y = t" for y
    using apart_fst [OF ap(2), of y] that adr_eq [of y a] m te ap(3) by auto
  have "adr a + adr k = adr (a + k)" by simp
  then show "adr a + size_of h (adr a) = adr t \<longleftrightarrow> a + k = t" using s(2) adr_eq [of "a + k" t] m te ap(3) by simp
  show "inserted h (ls @ [(a, k)]) t n fs2 e (merge_next (adr a) (adr a) h1)" if t: "a + k = t"
  proof -
    have fs2': "adr y \<notin> {adr a}" if "y \<in> fst ` set fs2" for y using fs2 that by simp
    have "seg h1 (next_of h1 (adr a)) fs2 (adr e) = seg h (next_of h (adr a)) fs2 (adr e)"
      unfolding h1_def set_fields
      by (rule seg_frame_ne [where X = "{adr a}"]) (use fs2' in \<open>simp_all add: set_size_def\<close>)
    moreover have "size_of h1 (adr a) = adr (k + n)" using s n by (simp add: h1_def)
    moreover have "apart (a + (k + n)) fs2 e"
    proof -
      have "a + (k + n) = t + n" using t by simp
      then show ?thesis using ap(2) by (simp only:)
    qed
    ultimately have M: "seg (merge_next (adr a) (adr a) h1) (adr a) (absorb a (k + n) fs2) (adr e)"
      "\<And>x. x \<noteq> adr a \<Longrightarrow> links (merge_next (adr a) (adr a) h1) x = links h1 x"
      "\<exists>l. merge_next (adr a) (adr a) h1 = h1\<lparr>links := l\<rparr>"
      using merge_next_chain [of h1 a "k + n" "adr a" fs2 e] s(3) e ap(3) n by (simp_all add: h1_def)
    let ?h' = "merge_next (adr a) (adr a) h1"
    have L: "links ?h' x = links h x" if "x \<noteq> adr a" for x using M(2) that by (simp add: h1_def set_size_def)
    have "seg ?h' (next_of h (xStart h)) ls (adr a)" using s(1) ls
      by (subst seg_frame_ne [where X = "{adr a}" and h = h]) (simp_all add: L)
    then have "seg ?h' (next_of ?h' (xStart h)) (glue (ls @ [(a, k)]) t n fs2) (adr e)"
      using M(1) L [OF xa] t by (auto simp: glue_simps seg_append)
    moreover have "\<exists>l. ?h' = h\<lparr>links := l\<rparr>" using M(3) by (auto simp: h1_def set_size_def)
    ultimately show ?thesis unfolding inserted_def using L xa by simp
  qed
  show "inserted h (ls @ [(a, k)]) t n fs2 e (set_next (adr a) (adr t) (merge_next (adr t) (adr a) h))" if t: "a + k \<noteq> t"
  proof -
    note M = merge_next_chain [OF n(1) s(3) ap(2) e ap(3) n(2)]
    let ?h2 = "merge_next (adr t) (adr a) h"
    let ?h' = "set_next (adr a) (adr t) ?h2"
    have L2: "links ?h' x = links ?h2 x" if "x \<noteq> adr a" for x using that by (simp add: set_next_def)
    have L: "links ?h' x = links h x" if "x \<noteq> adr a" "x \<noteq> adr t" for x using L2 M(2) that by simp
    have "seg ?h' (next_of h (xStart h)) ls (adr a)" using s(1) ls
      by (subst seg_frame_ne [where X = "{adr a, adr t}" and h = h]) (simp_all add: L)
    moreover have "seg ?h' (adr t) (absorb t n fs2) (adr e)" using M(1) fs2 fst_absorb [of t n fs2]
      by (subst seg_frame_ne [where X = "{adr a}" and h = ?h2]) (auto simp: L2)
    moreover have "size_of ?h' (adr a) = adr k" using M(2) [OF at] s(2) by simp
    ultimately have "seg ?h' (next_of ?h' (xStart h)) (glue (ls @ [(a, k)]) t n fs2) (adr e)"
      using L [OF xa xt] t by (auto simp: glue_simps seg_append)
    moreover have "\<exists>l. ?h' = h\<lparr>links := l\<rparr>" using M(3) by (auto simp: set_next_def)
    ultimately show ?thesis unfolding inserted_def using L xa xt by simp
  qed
qed

lemma insert_chain:
  assumes "seg h (next_of h (xStart h)) (fs1 @ fs2) (adr e)" "pxEnd h = adr e" "size_of h (adr t) = adr n" "0 < n"
    "apart b fs1 t" "apart (t + n) fs2 e" "e < 2 ^ 32" "size_of h (xStart h) = 0"
    "\<And>x. b \<le> x \<Longrightarrow> x \<le> e \<Longrightarrow> xStart h \<noteq> adr x"
  shows "\<exists>h'. prvInsertBlockIntoFreeList (adr t) h = Some h' \<and> inserted h fs1 t n fs2 e h'"
proof -
  have te: "t + n \<le> e" "\<forall>(a, k) \<in> set fs2. t + n \<le> a \<and> 0 < k \<and> a + k \<le> e" using apart_bounds [OF assms(6)] by auto
  have bt: "b \<le> t" "\<forall>(a, k) \<in> set fs1. b \<le> a \<and> 0 < k \<and> a + k \<le> t" using apart_bounds [OF assms(5)] by auto
  have it: "insert_after h (adr t) (xStart h) = Some (last_of (xStart h) fs1)"
    by (rule insert_after_chain [OF assms(1)]) (use te bt assms(4,7) in force)+
  show ?thesis
  proof (cases fs1 rule: rev_cases)
    case Nil
    have "xStart h \<noteq> adr t" using assms(9) bt te by simp
    moreover have "\<And>x. t \<le> x \<Longrightarrow> x \<le> e \<Longrightarrow> xStart h \<noteq> adr x" using assms(9) bt by simp
    ultimately show ?thesis
      using insert_first [OF _ assms(2,3,4,6,7)] assms(1,8) it Nil by (simp add: insert_unfold)
  next
    case (snoc ls y)
    obtain a k where y: "y = (a, k)" by (cases y)
    have "seg h (next_of h (xStart h)) (ls @ (a, k) # fs2) (adr e)" "apart b (ls @ [(a, k)]) t"
      using assms(1,5) snoc y by simp_all
    note L = insert_later [OF this(1) assms(2,3,4) this(2) assms(6,7,9)]
    have "insert_after h (adr t) (xStart h) = Some (adr a)" using it snoc y by simp
    then show ?thesis using L by (cases "a + k = t") (simp_all add: insert_unfold snoc y)
  qed
qed

section \<open>Layouts\<close>

text \<open>
  What the heap promises, without pointers: the blocks from the base in the order of their
  addresses, each with its size and whether it is free. An allocation takes the first free block
  that is large enough; a release joins a block with its free neighbours.
\<close>

type_synonym layout = "(nat \<times> bool) list"

definition span :: "layout \<Rightarrow> nat" where
  "span bs = sum_list (map fst bs)"

fun at :: "bool \<Rightarrow> nat \<Rightarrow> layout \<Rightarrow> (nat \<times> nat) list" where
  "at g a [] = []"
| "at g a ((n, f) # bs) = (if f = g then [(a, n)] else []) @ at g (a + n) bs"

abbreviation frees :: "nat \<Rightarrow> layout \<Rightarrow> (nat \<times> nat) list" where "frees \<equiv> at True"
abbreviation used :: "nat \<Rightarrow> layout \<Rightarrow> (nat \<times> nat) list" where "used \<equiv> at False"

definition free_bytes :: "layout \<Rightarrow> nat" where
  "free_bytes bs = sum_list (map fst (filter snd bs))"

definition sound :: "layout \<Rightarrow> bool" where
  "sound bs \<longleftrightarrow> (\<forall>(n, f) \<in> set bs. 16 \<le> n \<and> 8 dvd n)"

fun coalesced :: "layout \<Rightarrow> bool" where
  "coalesced ((n, f) # (m, g) # bs) \<longleftrightarrow> \<not> (f \<and> g) \<and> coalesced ((m, g) # bs)"
| "coalesced bs \<longleftrightarrow> True"

fun alloc :: "nat \<Rightarrow> nat \<Rightarrow> layout \<Rightarrow> (nat \<times> layout) option" where
  "alloc w a [] = None"
| "alloc w a ((n, f) # bs) =
     (if f \<and> w \<le> n then Some (a, if n - w > 16 then (w, False) # (n - w, True) # bs else (n, False) # bs)
      else map_option (\<lambda>(r, bs'). (r, (n, f) # bs')) (alloc w (a + n) bs))"

fun join_next :: "nat \<Rightarrow> layout \<Rightarrow> layout" where
  "join_next n ((m, True) # bs) = (n + m, True) # bs"
| "join_next n bs = (n, True) # bs"

definition put :: "layout \<Rightarrow> nat \<Rightarrow> layout \<Rightarrow> layout" where
  "put xs n ys = (if xs \<noteq> [] \<and> snd (last xs) then butlast xs @ join_next (fst (last xs) + n) ys
                  else xs @ join_next n ys)"

fun release :: "nat \<Rightarrow> nat \<Rightarrow> layout \<Rightarrow> layout \<Rightarrow> layout option" where
  "release t a xs [] = None"
| "release t a xs ((n, f) # bs) =
     (if t = a then (if f then None else Some (put (rev xs) n bs)) else release t (a + n) ((n, f) # xs) bs)"

lemma span_simps [simp]: "span [] = 0" "span ((n, f) # bs) = n + span bs" "span (xs @ ys) = span xs + span ys"
  by (simp_all add: span_def)

lemma free_bytes_simps [simp]: "free_bytes [] = 0" "free_bytes ((n, f) # bs) = (if f then n else 0) + free_bytes bs"
  "free_bytes (xs @ ys) = free_bytes xs + free_bytes ys"
  by (simp_all add: free_bytes_def)

lemma sound_simps [simp]: "sound []" "sound ((n, f) # bs) \<longleftrightarrow> 16 \<le> n \<and> 8 dvd n \<and> sound bs"
  "sound (xs @ ys) \<longleftrightarrow> sound xs \<and> sound ys"
  by (auto simp: sound_def)

lemma free_bytes_span: "free_bytes bs \<le> span bs"
  by (induction bs) auto

lemma at_append: "at g a (xs @ ys) = at g a xs @ at g (a + span xs) ys"
  by (induction xs arbitrary: a) (auto simp: add.assoc)

lemma at_bounds: "(x, n) \<in> set (at g a bs) \<Longrightarrow> a \<le> x \<and> x + n \<le> a + span bs"
  by (induction bs arbitrary: a) (force split: if_splits)+

lemma at_sound: "(x, n) \<in> set (at g a bs) \<Longrightarrow> sound bs \<Longrightarrow> 16 \<le> n \<and> 8 dvd n"
  by (induction bs arbitrary: a) (force split: if_splits)+

lemma at_range: "x \<in> fst ` set (at g a bs) \<Longrightarrow> sound bs \<Longrightarrow> a \<le> x \<and> x < a + span bs"
  using at_bounds at_sound by fastforce

lemma at_disjoint: "sound bs \<Longrightarrow> (x, n) \<in> set (at True a bs) \<Longrightarrow> (x, m) \<in> set (at False a bs) \<Longrightarrow> False"
proof (induction bs arbitrary: a)
  case (Cons b bs)
  obtain k f where b: "b = (k, f)" by (cases b)
  then have "(x, n) \<in> set (at True (a + k) bs) \<or> x = a \<and> f" "(x, m) \<in> set (at False (a + k) bs) \<or> x = a \<and> \<not> f"
    using Cons.prems by (auto split: if_splits)
  then show ?case using Cons.IH [of "a + k"] Cons.prems(1) b at_bounds [of x n True "a + k" bs] at_bounds [of x m False "a + k" bs]
    by auto
qed simp

lemma coalesced_Cons: "coalesced ((n, f) # bs) \<longleftrightarrow> coalesced bs \<and> (bs \<noteq> [] \<longrightarrow> \<not> (f \<and> snd (hd bs)))"
  by (cases bs) auto

lemma coalesced_append:
  "coalesced (xs @ ys) \<longleftrightarrow> coalesced xs \<and> coalesced ys \<and> (xs \<noteq> [] \<and> ys \<noteq> [] \<longrightarrow> \<not> (snd (last xs) \<and> snd (hd ys)))"
proof (induction xs)
  case (Cons x xs)
  then show ?case by (cases x; cases xs) (auto simp: coalesced_Cons)
qed simp

lemma frees_later: "sound bs \<Longrightarrow> bs \<noteq> [] \<Longrightarrow> \<not> snd (hd bs) \<Longrightarrow> x \<in> fst ` set (frees a bs) \<Longrightarrow> a < x"
  using at_range [of x True] by (cases bs) (fastforce split: if_splits)+

lemma apart_frees: "sound bs \<Longrightarrow> coalesced bs \<Longrightarrow> lo \<le> a \<Longrightarrow> apart lo (frees a bs) (a + span bs)"
proof (induction bs arbitrary: lo a)
  case (Cons b bs)
  obtain n f where b: "b = (n, f)" by (cases b)
  have ih: "apart l (frees (a + n) bs) (a + n + span bs)" if "l \<le> a + n" for l
    using Cons that b by (simp add: coalesced_Cons)
  show ?case
  proof (cases f)
    case True
    have "a + n < fst (hd (frees (a + n) bs))" if "frees (a + n) bs \<noteq> []"
    proof (rule frees_later [of bs])
      show "\<not> snd (hd bs)" "sound bs" "bs \<noteq> []" using Cons.prems that b True by (auto simp: coalesced_Cons)
      show "fst (hd (frees (a + n) bs)) \<in> fst ` set (frees (a + n) bs)" using that by simp
    qed
    then show ?thesis using ih [of "a + n"] Cons.prems b True by (simp add: add.assoc)
  next
    case False
    then show ?thesis using ih [of lo] Cons.prems b by (simp add: add.assoc)
  qed
qed simp

lemma join_next_cases:
  obtains m zs where "ys = (m, True) # zs" "join_next n ys = (n + m, True) # zs"
  | "ys = [] \<or> \<not> snd (hd ys)" "join_next n ys = (n, True) # ys"
  by (cases ys; cases "snd (hd ys)") (auto elim: prod.exhaust)

lemma put_cases:
  obtains us k where "xs = us @ [(k, True)]" "put xs n ys = us @ join_next (k + n) ys"
  | "xs = [] \<or> \<not> snd (last xs)" "put xs n ys = xs @ join_next n ys"
  by (cases xs rule: rev_cases; cases "snd (last xs)") (auto simp: put_def elim: prod.exhaust)

lemma join_next_facts: "span (join_next n ys) = n + span ys" "free_bytes (join_next n ys) = n + free_bytes ys"
  "used a (join_next n ys) = used (a + n) ys" "16 \<le> n \<Longrightarrow> 8 dvd n \<Longrightarrow> sound ys \<Longrightarrow> sound (join_next n ys)"
  "coalesced ys \<Longrightarrow> coalesced (join_next n ys)" "join_next n ys \<noteq> []"
  by (cases rule: join_next_cases [of ys n]; auto simp: coalesced_Cons add.assoc)+

lemma put_facts: "span (put xs n ys) = span xs + n + span ys" "free_bytes (put xs n ys) = free_bytes xs + n + free_bytes ys"
  "used a (put xs n ys) = used a xs @ used (a + span xs + n) ys"
  "16 \<le> n \<Longrightarrow> 8 dvd n \<Longrightarrow> sound xs \<Longrightarrow> sound ys \<Longrightarrow> sound (put xs n ys)"
  by (cases rule: put_cases [of xs n ys]; simp add: join_next_facts at_append add.assoc)+

lemma coalesced_put:
  assumes "coalesced xs" "coalesced ys"
  shows "coalesced (put xs n ys)"
proof (cases rule: put_cases [of xs n ys])
  case (1 us k)
  then show ?thesis using assms by (auto simp: coalesced_append join_next_facts)
next
  case 2
  then show ?thesis using assms by (auto simp: coalesced_append join_next_facts)
qed

lemma absorb_join: "sound ys \<Longrightarrow> absorb t n (frees (t + n) ys) = frees t (join_next n ys)"
proof (cases rule: join_next_cases [of ys n])
  case (1 m zs)
  then show ?thesis by (simp add: add.assoc)
next
  case 2
  assume s: "sound ys"
  show ?thesis
  proof (cases "frees (t + n) ys")
    case (Cons y gs)
    have "ys \<noteq> []" using Cons by auto
    then have "t + n < fst y" using frees_later [OF s, of "fst y" "t + n"] 2 Cons by auto
    then show ?thesis using 2 Cons by (cases y) simp
  qed (use 2 in simp)
qed

lemma glue_put:
  assumes "sound xs" "sound ys"
  shows "glue (frees a xs) (a + span xs) n (frees (a + span xs + n) ys) = frees a (put xs n ys)"
proof (cases rule: put_cases [of xs n ys])
  case (1 us k)
  have "absorb (a + span us) (k + n) (frees (a + span us + (k + n)) ys) = frees (a + span us) (join_next (k + n) ys)"
    by (rule absorb_join [OF assms(2)])
  then show ?thesis using 1 by (simp add: at_append glue_simps add.assoc)
next
  case 2
  have "fst (last (frees a xs)) + snd (last (frees a xs)) \<noteq> a + span xs" if "frees a xs \<noteq> []"
  proof (cases xs rule: rev_cases)
    case (snoc us y)
    obtain m f where y: "y = (m, f)" by (cases y)
    have f: "\<not> f" "0 < m" using 2 assms(1) snoc y by auto
    have "last (frees a us) \<in> set (frees a us)" using that f snoc y by (simp add: at_append)
    then have "fst (last (frees a us)) + snd (last (frees a us)) \<le> a + span us"
      using at_bounds [of "fst (last (frees a us))" "snd (last (frees a us))" True a us] by simp
    then show ?thesis using f snoc y by (simp add: at_append)
  qed (use that in simp)
  then show ?thesis using 2 absorb_join [OF assms(2), of "a + span xs" n] by (auto simp: glue_def at_append)
qed

lemma alloc_Some:
  assumes "alloc w a bs = Some (r, bs')"
  obtains xs n ys where "bs = xs @ (n, True) # ys" "\<forall>(m, f) \<in> set xs. f \<longrightarrow> m < w" "w \<le> n" "r = a + span xs"
    "bs' = xs @ (if n - w > 16 then (w, False) # (n - w, True) # ys else (n, False) # ys)"
proof -
  have "\<exists>xs n ys. bs = xs @ (n, True) # ys \<and> (\<forall>(m, f) \<in> set xs. f \<longrightarrow> m < w) \<and> w \<le> n \<and> r = a + span xs \<and>
    bs' = xs @ (if n - w > 16 then (w, False) # (n - w, True) # ys else (n, False) # ys)"
    using assms
  proof (induction bs arbitrary: a bs')
    case (Cons b bs)
    obtain n f where b: "b = (n, f)" by (cases b)
    show ?case
    proof (cases "f \<and> w \<le> n")
      case True
      then show ?thesis using Cons.prems b
        by (intro exI [of _ "[]"] exI [of _ n] exI [of _ bs]) (simp split del: if_split)
    next
      case False
      then obtain cs where cs: "alloc w (a + n) bs = Some (r, cs)" "bs' = (n, f) # cs" using Cons.prems b by auto
      obtain xs k ys where "bs = xs @ (k, True) # ys" "\<forall>(m, f) \<in> set xs. f \<longrightarrow> m < w" "w \<le> k" "r = a + n + span xs"
        "cs = xs @ (if k - w > 16 then (w, False) # (k - w, True) # ys else (k, False) # ys)" using Cons.IH [OF cs(1)] by blast
      then have "b # bs = ((n, f) # xs) @ (k, True) # ys" "\<forall>(m, f) \<in> set ((n, f) # xs). f \<longrightarrow> m < w" "w \<le> k"
        "r = a + span ((n, f) # xs)"
        "bs' = ((n, f) # xs) @ (if k - w > 16 then (w, False) # (k - w, True) # ys else (k, False) # ys)"
        using False b cs(2) by (simp_all add: not_le)
      then show ?thesis by blast
    qed
  qed simp
  then show thesis using that by blast
qed

lemma alloc_None: "alloc w a bs = None \<longleftrightarrow> (\<forall>(m, f) \<in> set bs. f \<longrightarrow> m < w)"
  by (induction w a bs rule: alloc.induct) auto

lemma release_prefix:
  assumes "0 < n" "sound xs"
  shows "release (a + span xs) a us (xs @ (n, False) # ys) = Some (put (rev us @ xs) n ys)"
  using assms
proof (induction xs arbitrary: a us)
  case (Cons b xs)
  obtain m f where b: "b = (m, f)" by (cases b)
  have "release (a + m + span xs) (a + m) (b # us) (xs @ (n, False) # ys) = Some (put (rev (b # us) @ xs) n ys)"
    by (rule Cons.IH) (use Cons.prems b in simp_all)
  then show ?case using b Cons.prems(2) by (simp add: add.assoc)
qed simp

section \<open>The heap implements its layout\<close>

text \<open>The bit that marks an allocated block, in the size of its header.\<close>

definition top_bit :: u32 where
  "top_bit = push_bit 31 1"

lemma bit_top_bit: "bit top_bit i \<longleftrightarrow> i = 31"
  unfolding top_bit_def bit_push_bit_iff by (auto simp: bit_1_iff)

lemma bit_adr: "n < 2 ^ 31 \<Longrightarrow> \<not> bit (adr n) 31"
proof
  assume n: "n < 2 ^ 31" and b: "bit (adr n) 31"
  have "bit (unat (adr n)) 31" using b by (simp add: bit_unsigned_iff)
  then have "bit n 31" using n by (subst (asm) unat_adr) simp_all
  then show False using n by (simp add: bit_iff_odd)
qed

lemma top_bit_facts:
  assumes "n < 2 ^ 31"
  shows "adr n AND top_bit = 0" "(adr n OR top_bit) AND top_bit \<noteq> 0" "(adr n OR top_bit) AND NOT top_bit = adr n"
proof -
  show "adr n AND top_bit = 0" using bit_adr [OF assms]
    by (intro bit_eqI) (auto simp: bit_and_iff bit_top_bit)
  have "bit ((adr n OR top_bit) AND top_bit) 31" by (simp add: bit_and_iff bit_or_iff bit_top_bit)
  then show "(adr n OR top_bit) AND top_bit \<noteq> 0" by (metis bit_0_eq bot_apply bot_bool_def)
  show "(adr n OR top_bit) AND NOT top_bit = adr n" using bit_adr [OF assms]
    by (intro bit_word_eqI) (auto simp: bit_and_iff bit_or_iff bit_not_iff bit_top_bit)
qed

lemma top_bit_zero: "x AND top_bit = 0 \<longleftrightarrow> unat x < 2 ^ 31" for x :: u32
proof
  assume "unat x < 2 ^ 31"
  then have "adr (unat x) AND top_bit = 0" by (rule top_bit_facts)
  then show "x AND top_bit = 0" by simp
next
  assume a: "x AND top_bit = 0"
  have "\<not> bit x 31"
  proof
    assume "bit x 31"
    then have "bit (x AND top_bit) 31" by (simp add: bit_and_iff bit_top_bit)
    then show False using a by simp
  qed
  then have "\<not> bit (unat x) 31" by (simp add: bit_unsigned_iff)
  then have "even (unat x div 2 ^ 31)" by (simp only: bit_iff_odd not_not)
  moreover have "unat x div 2 ^ 31 < 2" using unat_u32_less [of x] by (simp add: less_mult_imp_div_less)
  ultimately have "unat x div 2 ^ 31 = 0" by (elim evenE) simp
  then show "unat x < 2 ^ 31" by (simp add: div_eq_0_iff)
qed

definition heap_inv :: "heap4 \<Rightarrow> nat \<Rightarrow> layout \<Rightarrow> bool" where
  "heap_inv h B bs \<longleftrightarrow>
     sound bs \<and> coalesced bs \<and> 0 < B \<and> 8 dvd B \<and> B + span bs < 2 ^ 32 \<and> span bs < 2 ^ 31 \<and>
     pxEnd h = adr (B + span bs) \<and> size_of h (pxEnd h) = 0 \<and> next_of h (pxEnd h) = 0 \<and>
     (\<forall>x \<in> {B..B + span bs}. xStart h \<noteq> adr x) \<and> size_of h (xStart h) = 0 \<and>
     seg h (next_of h (xStart h)) (frees B bs) (pxEnd h) \<and>
     (\<forall>(a, n) \<in> set (used B bs). size_of h (adr a) = adr n OR top_bit \<and> next_of h (adr a) = 0) \<and>
     xFreeBytesRemaining h = adr (free_bytes bs) \<and> xBlockAllocatedBit h = top_bit \<and>
     xMinimumEverFreeBytesRemaining h \<le> xFreeBytesRemaining h"

lemma heap_inv_facts:
  assumes "heap_inv h B bs" "B + span bs = e"
  shows "pxEnd h = adr e" "size_of h (adr e) = 0" "next_of h (adr e) = 0" "\<forall>x \<in> {B..e}. xStart h \<noteq> adr x"
    "size_of h (xStart h) = 0" "seg h (next_of h (xStart h)) (frees B bs) (adr e)"
    "xFreeBytesRemaining h = adr (free_bytes bs)" "xBlockAllocatedBit h = top_bit"
    "xMinimumEverFreeBytesRemaining h \<le> xFreeBytesRemaining h"
  using assms(1) unfolding heap_inv_def assms(2) by (elim conjE; simp only: refl)+

lemma heap_invI:
  assumes "sound bs" "coalesced bs" "0 < B" "8 dvd B" "e < 2 ^ 32" "span bs < 2 ^ 31" "B + span bs = e" "pxEnd h = adr e"
    "size_of h (adr e) = 0" "next_of h (adr e) = 0" "\<forall>x \<in> {B..e}. xStart h \<noteq> adr x" "size_of h (xStart h) = 0"
    "seg h (next_of h (xStart h)) (frees B bs) (adr e)"
    "\<forall>(a, n) \<in> set (used B bs). size_of h (adr a) = adr n OR top_bit \<and> next_of h (adr a) = 0"
    "xFreeBytesRemaining h = adr (free_bytes bs)" "xBlockAllocatedBit h = top_bit"
    "xMinimumEverFreeBytesRemaining h \<le> xFreeBytesRemaining h"
  shows "heap_inv h B bs"
  unfolding heap_inv_def assms(7) assms(8) by (insert assms, intro conjI; (rule refl | assumption))

lemma insert_layout:
  assumes seg: "seg h (next_of h (xStart h)) (frees B xs @ frees (t + n) ys) (adr e)"
    and t: "t = B + span xs" "e = t + n + span ys" "e < 2 ^ 32" and pe: "pxEnd h = adr e" "size_of h (adr t) = adr n" "16 \<le> n"
    and so: "sound xs" "sound ys" "coalesced xs" "coalesced ys" and x: "size_of h (xStart h) = 0" "\<forall>x \<in> {B..e}. xStart h \<noteq> adr x"
  shows "\<exists>l. prvInsertBlockIntoFreeList (adr t) h = Some (h\<lparr>links := l\<rparr>) \<and>
    seg (h\<lparr>links := l\<rparr>) (pxNextFreeBlock (l (xStart h))) (frees B (put xs n ys)) (adr e) \<and>
    l (adr e) = links h (adr e) \<and> (\<forall>a \<in> fst ` set (used B xs @ used (t + n) ys). l (adr a) = links h (adr a)) \<and>
    xBlockSize (l (xStart h)) = 0"
proof -
  have ap: "apart B (frees B xs) t" "apart (t + n) (frees (t + n) ys) e" using apart_frees [OF so(1,3)] apart_frees [OF so(2,4)] t by simp_all
  obtain h' where h': "prvInsertBlockIntoFreeList (adr t) h = Some h'" "inserted h (frees B xs) t n (frees (t + n) ys) e h'"
    using insert_chain [OF seg pe(1,2) _ ap t(3) x(1)] pe(3) x(2) by auto
  obtain l where l: "h' = h\<lparr>links := l\<rparr>" using h'(2) by (auto simp: inserted_def)
  have frame: "l (adr a) = links h (adr a)" if "B \<le> a" "a \<le> e" "a \<noteq> t" "a \<notin> fst ` set (frees B xs)" for a
  proof -
    have "adr a \<notin> adr ` fst ` set (frees B xs)"
    proof
      assume "adr a \<in> adr ` fst ` set (frees B xs)"
      then obtain b where b: "b \<in> fst ` set (frees B xs)" "adr a = adr b" by blast
      then have "b < 2 ^ 32" using at_range [OF b(1) so(1)] t by simp
      then have "a = b" using b(2) adr_eq [of a b] that(2) t(3) by simp
      then show False using b(1) that(4) by simp
    qed
    moreover have "adr a \<noteq> adr t" using adr_eq [of a t] that t by simp
    moreover have "adr a \<noteq> xStart h" using x(2) that by (metis atLeastAtMost_iff)
    ultimately show ?thesis using h'(2) l by (simp add: inserted_def)
  qed
  have "l (adr a) = links h (adr a)" if "a \<in> fst ` set (used B xs @ used (t + n) ys)" for a
  proof (cases "a \<in> fst ` set (used B xs)")
    case True
    then have "a \<notin> fst ` set (frees B xs)" using at_disjoint [OF so(1)] by auto
    then show ?thesis using frame [of a] at_range [OF True so(1)] t by simp
  next
    case False
    then have a: "t + n \<le> a \<and> a < e" using that at_range [of a False "t + n" ys] so(2) t by auto
    then have "a \<notin> fst ` set (frees B xs)" using at_range [of a True B xs] so(1) t by auto
    then show ?thesis using frame [of a] a pe(3) t by simp
  qed
  moreover have "l (adr e) = links h (adr e)"
    using frame [of e] at_range [of e True B xs] so(1) t pe(3) by auto
  moreover have "glue (frees B xs) t n (frees (t + n) ys) = frees B (put xs n ys)"
    using glue_put [OF so(1,2)] t by simp
  ultimately show ?thesis using h' l x(1) by (intro exI [of _ l]) (simp add: inserted_def)
qed

declare of_nat_add [simp del]

lemma adr_ne:
  assumes "a \<in> fst ` set (at g b bs)" "sound bs" "b + span bs < 2 ^ 32" "t < 2 ^ 32" "t < b \<or> b + span bs \<le> t"
  shows "adr a \<noteq> adr t"
  using at_range [OF assms(1,2)] adr_eq [of a t] assms(3-5) by auto

lemma adr_plus_le: "x \<le> adr m \<Longrightarrow> m + n < 2 ^ 32 \<Longrightarrow> x \<le> adr (m + n)"
  by (simp only: word_le_nat_alt unat_adr)

lemma used_next: "(a, n) \<in> set (used B bs) \<Longrightarrow> heap_inv h B bs \<Longrightarrow> size_of h (adr a) = adr n OR top_bit \<and> next_of h (adr a) = 0"
  by (auto simp: heap_inv_def)

lemma free_layout:
  assumes inv: "heap_inv h B (xs @ (n, False) # ys)" and t: "t = B + span xs"
  shows "\<exists>h'. vPortFree (adr (t + 8)) h = Some h' \<and> heap_inv h' B (put xs n ys)"
proof -
  define e where "e = t + n + span ys"
  have so: "sound xs" "sound ys" "coalesced xs" "coalesced ys" "16 \<le> n" "8 dvd n" "0 < B" "8 dvd B"
    using inv by (auto simp: heap_inv_def coalesced_append coalesced_Cons)
  have e: "e < 2 ^ 32" "B + span (xs @ (n, False) # ys) = e" "n < 2 ^ 31" "span xs + n + span ys < 2 ^ 31"
    using inv t by (auto simp: heap_inv_def e_def add.assoc)
  note f = heap_inv_facts [OF inv e(2)]
  have hdr: "size_of h (adr t) = adr n OR top_bit" "next_of h (adr t) = 0"
    using used_next [OF _ inv, of t n] t by (simp_all add: at_append)
  have nz: "adr (t + 8) \<noteq> 0" using adr_eq [of "t + 8" 0] e_def e so by simp
  have pv: "adr (t + 8) - xHeapStructSize = adr t" by (simp add: of_nat_add)
  define h1 where "h1 = (set_size (adr t) (adr n) h)\<lparr>xFreeBytesRemaining := xFreeBytesRemaining h + adr n\<rparr>"
  have h1: "links h1 x = links h x" if "x \<noteq> adr t" for x using that by (simp add: h1_def set_size_def)
  have "t \<in> {B..e}" using t by (simp add: e_def)
  then have xt: "xStart h \<noteq> adr t" using f(4) by blast
  have nx: "xStart h1 = xStart h" "pxEnd h1 = adr e" "xBlockAllocatedBit h1 = top_bit" "next_of h1 (xStart h1) = next_of h (xStart h)"
    "size_of h1 (xStart h1) = 0" "size_of h1 (adr t) = adr n" "xFreeBytesRemaining h1 = xFreeBytesRemaining h + adr n"
    "xMinimumEverFreeBytesRemaining h1 = xMinimumEverFreeBytesRemaining h"
    using xt f(1,5,8) by (simp_all add: h1_def set_size_def)
  have net: "adr a \<noteq> adr t" if "a \<in> fst ` set (at g B xs) \<or> a \<in> fst ` set (at g (t + n) ys)" for a g
    using that adr_ne [of a g B xs t] adr_ne [of a g "t + n" ys t] so t e by (auto simp: e_def)
  have sp: "t + n = B + span xs + n" using t by simp
  have "seg h1 (next_of h1 (xStart h1)) (frees B xs @ frees (t + n) ys) (adr e)"
  proof (subst seg_frame_ne [where X = "{adr t}"])
    show "seg h (next_of h1 (xStart h1)) (frees B xs @ frees (t + n) ys) (adr e)"
      using f(6) unfolding nx(4) sp by (simp add: at_append)
    show "adr a \<notin> {adr t}" if "a \<in> fst ` set (frees B xs @ frees (t + n) ys)" for a
      using net [of a True] that unfolding set_append image_Un by blast
    show "links h1 x = links h x" if "x \<notin> {adr t}" for x using h1 that by simp
  qed
  then obtain l where l: "prvInsertBlockIntoFreeList (adr t) h1 = Some (h1\<lparr>links := l\<rparr>)"
    "seg (h1\<lparr>links := l\<rparr>) (pxNextFreeBlock (l (xStart h1))) (frees B (put xs n ys)) (adr e)" "l (adr e) = links h1 (adr e)"
    "\<forall>a \<in> fst ` set (used B xs @ used (t + n) ys). l (adr a) = links h1 (adr a)" "xBlockSize (l (xStart h1)) = 0"
    using insert_layout [OF _ t e_def e(1) nx(2,6) so(5,1-4) nx(5)] f(4) unfolding nx(1) by blast
  let ?h = "h1\<lparr>links := l, xNumberOfSuccessfulFrees := xNumberOfSuccessfulFrees h1 + 1\<rparr>"
  have run: "vPortFree (adr (t + 8)) h = Some ?h"
    using l(1) hdr nz top_bit_facts [OF e(3)] unfolding vPortFree_def pv Let_def f(8) hdr h1_def
    by (simp add: f(8))
  have free: "xFreeBytesRemaining h1 = adr (free_bytes (xs @ (n, False) # ys) + n)"
    unfolding nx(7) f(7) by (simp only: of_nat_add)
  have "free_bytes (xs @ (n, False) # ys) + n < 2 ^ 32" using free_bytes_span [of xs] free_bytes_span [of ys] e by simp
  then have min: "xMinimumEverFreeBytesRemaining h1 \<le> xFreeBytesRemaining h1"
    unfolding free nx(8) by (intro adr_plus_le) (use f(9) in \<open>simp only: f(7)\<close>)
  have et: "adr e \<noteq> adr t" using adr_eq [of e t] e so by (simp add: e_def)
  have used: "l (adr a) = links h (adr a)" if "a \<in> fst ` set (used B xs @ used (t + n) ys)" for a
    using that l(4) h1 net [of a False] unfolding set_append image_Un by (metis UnE)
  have hds: "xBlockSize (l (adr a)) = adr m OR top_bit \<and> pxNextFreeBlock (l (adr a)) = 0"
    if "(a, m) \<in> set (used B (put xs n ys))" for a m
  proof -
    have "(a, m) \<in> set (used B xs @ used (t + n) ys)" using that unfolding put_facts t by (simp add: add.assoc)
    moreover from this have "(a, m) \<in> set (used B (xs @ (n, False) # ys))" using t by (auto simp: at_append)
    ultimately show ?thesis using used [of a] used_next [OF _ inv] by (metis fst_conv image_eqI)
  qed
  have "heap_inv ?h B (put xs n ys)"
  proof (rule heap_invI [OF put_facts(4) [OF so(5,6,1,2)] coalesced_put [OF so(3,4)] so(7,8) e(1)])
    show "span (put xs n ys) < 2 ^ 31" "B + span (put xs n ys) = e" using e(4) t by (simp_all add: put_facts e_def)
    show "xFreeBytesRemaining ?h = adr (free_bytes (put xs n ys))" using free by (simp add: put_facts add_ac)
    show "seg ?h (next_of ?h (xStart ?h)) (frees B (put xs n ys)) (adr e)"
      using l(2) seg_counters(1) [where h = "h1\<lparr>links := l\<rparr>"] by simp
    show "\<forall>(a, m) \<in> set (used B (put xs n ys)). size_of ?h (adr a) = adr m OR top_bit \<and> next_of ?h (adr a) = 0"
      using hds by auto
  qed (use l(3,5) f h1 [OF et] nx min in simp_all)
  then show ?thesis using run by blast
qed

lemma adr_and_7: "adr a AND 7 = adr (a mod 8)"
proof -
  have "adr a AND 7 = take_bit 3 (adr a)" by (simp add: take_bit_eq_mask mask_eq_exp_minus_1)
  also have "\<dots> = adr (take_bit 3 a)" by (simp add: take_bit_of_nat)
  finally show ?thesis by (simp add: take_bit_eq_mod)
qed

lemma and_split: "(x AND NOT y) + (x AND y) = x" for x y :: u32
proof -
  have "(x AND NOT y) + (x AND y) = (x AND NOT y) OR (x AND y)"
    by (rule disjunctive_add_eq_or) (rule bit_eqI, simp add: bit_and_iff bit_not_iff)
  also have "\<dots> = x" by (rule bit_word_eqI) (auto simp: bit_and_iff bit_or_iff bit_not_iff)
  finally show ?thesis .
qed

lemma adr_and_not_7: "adr a AND NOT 7 = adr (a div 8 * 8)"
proof -
  have "adr a AND NOT 7 = adr a - adr (a mod 8)" using and_split [of "adr a" 7] by (simp only: adr_and_7 eq_diff_eq)
  also have "\<dots> = adr (a - a mod 8)" by (rule of_nat_diff [symmetric]) simp
  also have "a - a mod 8 = a div 8 * 8" by (rule minus_mod_eq_div_mult)
  finally show ?thesis .
qed

lemma round_up:
  assumes "m mod 8 \<noteq> (0 :: nat)"
  shows "m + (8 - m mod 8) = (m + 7) div 8 * 8" "m < (m + 7) div 8 * 8"
proof -
  define q r where "q = m div 8" and "r = m mod 8"
  have m: "m = 8 * q + r" "0 < r" "r < 8" using assms by (simp_all add: q_def r_def)
  have "(r + 7) div 8 = 1" by (rule div_nat_eqI) (use m in simp_all)
  then have "(m + 7) div 8 = q + 1" using m(1) by (simp add: add.assoc)
  then show "m + (8 - m mod 8) = (m + 7) div 8 * 8" "m < (m + 7) div 8 * 8" using m by simp_all
qed

definition request :: "u32 \<Rightarrow> nat" where
  "request n = (unat n + 15) div 8 * 8"

lemma block_size_request:
  assumes "0 < unat n" "unat n < 2 ^ 31"
  shows "block_size n = adr (request n)" "16 \<le> request n" "8 dvd request n" "request n < 2 ^ 32"
proof -
  define k where "k = unat n"
  have n: "n = adr k" "0 < k" "k < 2 ^ 31" using assms by (simp_all add: k_def)
  have r: "request n = (k + 15) div 8 * 8" by (simp add: request_def k_def)
  show "16 \<le> request n" "8 dvd request n" "request n < 2 ^ 32" using n(2,3) unfolding r by simp_all
  have w: "n + 8 = adr (k + 8)" "n < n + 8" using n adr_less [of k "k + 8"] by (simp_all add: of_nat_add)
  have n0: "0 < n" using n adr_less [of 0 k] by simp
  show "block_size n = adr (request n)"
  proof (cases "(k + 8) mod 8 = 0")
    case True
    then have "(k + 15) div 8 * 8 = k + 8" by presburger
    then show ?thesis unfolding block_size_def using n0 w True by (simp only: w adr_and_7 r Let_def) simp
  next
    case False
    then have z: "adr ((k + 8) mod 8) \<noteq> 0" using adr_eq [of "(k + 8) mod 8" 0] by simp
    have "k + 8 + (8 - (k + 8) mod 8) = (k + 15) div 8 * 8" using round_up(1) [OF False] by simp
    moreover have "adr (k + 8) + (8 - adr ((k + 8) mod 8)) = adr (k + 8 + (8 - (k + 8) mod 8))" by (simp add: of_nat_add of_nat_diff)
    ultimately have e: "adr (k + 8) + (8 - adr ((k + 8) mod 8)) = adr ((k + 15) div 8 * 8)" by simp
    have "k + 8 < (k + 15) div 8 * 8" using round_up(2) [OF False] by (simp add: add.commute)
    then have "adr (k + 8) < adr ((k + 15) div 8 * 8)" using adr_less [of "k + 8" "(k + 15) div 8 * 8"] n(3) by simp
    then show ?thesis unfolding block_size_def using n0 w z by (simp only: w adr_and_7 r Let_def e simp_thms if_True)
  qed
qed

definition heap_base :: "heap4 \<Rightarrow> nat" where
  "heap_base h = (unat (ucHeap h) + 7) div 8 * 8"

definition heap_bytes :: "heap4 \<Rightarrow> nat" where
  "heap_bytes h = (unat (ucHeap h) + 61432) div 8 * 8 - heap_base h"

lemma heap_area:
  fixes h :: heap4
  defines "A \<equiv> heap_base h" and "E \<equiv> heap_base h + heap_bytes h"
  shows "unat (ucHeap h) \<le> A" "A + 16 \<le> E" "E \<le> unat (ucHeap h) + 61432" "8 dvd A" "8 dvd heap_bytes h" "16 \<le> heap_bytes h"
    "E = (unat (ucHeap h) + 61432) div 8 * 8" "unat (ucHeap h) mod 8 = 0 \<Longrightarrow> A = unat (ucHeap h)"
    "heap_bytes h \<le> 61432"
proof -
  define q r where "q = unat (ucHeap h) div 8" and "r = unat (ucHeap h) mod 8"
  have u: "unat (ucHeap h) = 8 * q + r" "r < 8" by (simp_all add: q_def r_def)
  have "(r + 61432) div 8 = 7679" by (rule div_nat_eqI) (use u(2) in simp_all)
  then have e: "(unat (ucHeap h) + 61432) div 8 = q + 7679" unfolding u(1) by (simp add: add.assoc)
  have a: "A = 8 * q + (if r = 0 then 0 else 8)"
  proof (cases "r = 0")
    case False
    then have "(r + 7) div 8 = 1" by (intro div_nat_eqI) (use u(2) in simp_all)
    then show ?thesis using False by (simp add: A_def heap_base_def u(1) add.assoc)
  qed (simp add: A_def heap_base_def u(1))
  have b: "heap_bytes h = 61432 - (if r = 0 then 0 else 8)"
    unfolding heap_bytes_def e A_def [symmetric] a by simp
  show "E = (unat (ucHeap h) + 61432) div 8 * 8" unfolding E_def e b using a A_def by simp
  show "unat (ucHeap h) \<le> A" "A + 16 \<le> E" "E \<le> unat (ucHeap h) + 61432" "8 dvd A" "8 dvd heap_bytes h" "16 \<le> heap_bytes h"
    "heap_bytes h \<le> 61432" unfolding E_def A_def [symmetric] b u(1) a using u(2) by simp_all
  show "unat (ucHeap h) mod 8 = 0 \<Longrightarrow> A = unat (ucHeap h)"
  proof -
    assume "unat (ucHeap h) mod 8 = 0"
    then have "r = 0" by (simp only: r_def)
    then show ?thesis using a u(1) by simp
  qed
qed

lemma heap_init_state:
  fixes h :: heap4
  defines "A \<equiv> heap_base h" and "E \<equiv> heap_base h + heap_bytes h"
  shows "prvHeapInit h =
    (set_next (adr A) (adr E) (set_size (adr A) (adr E - adr A) (set_next (adr E) 0 (set_size (adr E) 0
      ((set_size (xStart h) 0 (set_next (xStart h) (adr A) h))\<lparr>pxEnd := adr E\<rparr>)))))
    \<lparr>xMinimumEverFreeBytesRemaining := adr E - adr A, xFreeBytesRemaining := adr E - adr A, xBlockAllocatedBit := top_bit\<rparr>"
proof -
  define u where "u = unat (ucHeap h)"
  have uh: "ucHeap h = adr u" by (simp add: u_def)
  note a = heap_area [of h, folded A_def E_def u_def]
  have round: "(adr u + 7) AND NOT 7 = adr A"
    using adr_and_not_7 [of "u + 7"] by (simp add: of_nat_add A_def heap_base_def u_def)
  have top: "adr A + (61440 - (adr A - adr u)) - 8 = adr (u + 61432)" by (simp add: of_nat_add)
  have down: "adr (u + 61432) AND NOT 7 = adr E" unfolding a(7) by (rule adr_and_not_7)
  have start: "(if adr u AND 7 \<noteq> 0 then (let a = (adr u + (8 - 1)) AND NOT 7 in (a, 61440 - (a - adr u))) else (adr u, 61440))
    = (adr A, 61440 - (adr A - adr u))"
  proof (cases "adr u AND 7 = 0")
    case True
    then have "u mod 8 = 0" using adr_and_7 [of u] adr_eq [of "u mod 8" 0] by simp
    then have "A = u" by (rule a(8))
    then show ?thesis using True by simp
  next
    case False
    then show ?thesis using round by (simp add: Let_def)
  qed
  show ?thesis unfolding prvHeapInit_def uh unfolding start unfolding Let_def prod.case top down
    by (simp add: top_bit_def)
qed

lemma heap_init_layout:
  assumes "0 < unat (ucHeap h)" "unat (ucHeap h) + 61440 < 2 ^ 32" "\<And>x. unat (ucHeap h) \<le> x \<Longrightarrow> x < unat (ucHeap h) + 61440 \<Longrightarrow> xStart h \<noteq> adr x"
  shows "heap_inv (prvHeapInit h) (heap_base h) [(heap_bytes h, True)]"
proof -
  define A E where "A = heap_base h" and "E = heap_base h + heap_bytes h"
  note a = heap_area [of h, folded A_def E_def]
  have x: "xStart h \<noteq> adr y" if "A \<le> y" "y \<le> E" for y using assms(3) that a(1,3) by simp
  have ne: "adr E \<noteq> adr A" using adr_eq [of E A] a(2,3) assms(2) by simp
  have xA: "xStart h \<noteq> adr A" using x a(2) by simp
  have xE: "xStart h \<noteq> adr E" using x a(2) by simp
  have sz: "adr E - adr A = adr (heap_bytes h)" by (simp add: E_def A_def of_nat_add)
  note st = heap_init_state [of h, folded A_def E_def, unfolded sz]
  show ?thesis
  proof (rule heap_invI [where e = E])
    show "sound [(heap_bytes h, True)]" using a by simp
    show "0 < heap_base h" "8 dvd heap_base h" "E < 2 ^ 32" using a(1,3,4) assms(1,2) by (simp_all add: A_def)
    show "heap_base h + span [(heap_bytes h, True)] = E" by (simp add: E_def)
    show "span [(heap_bytes h, True)] < 2 ^ 31" using a(9) by simp
    show "\<forall>y \<in> {heap_base h..E}. xStart (prvHeapInit h) \<noteq> adr y" using x by (simp add: st A_def)
  qed (use ne xA xE in \<open>simp_all add: st E_def [symmetric] A_def [symmetric]\<close>)
qed

lemma distinct_at: "sound bs \<Longrightarrow> a + span bs < 2 ^ 32 \<Longrightarrow> distinct (map (\<lambda>x. adr (fst x)) (at g a bs))"
proof (induction bs arbitrary: a)
  case (Cons b bs)
  obtain n f where b: "b = (n, f)" by (cases b)
  have "adr a \<noteq> adr x" if "x \<in> fst ` set (at g (a + n) bs)" for x
    using adr_ne [OF that, of a] Cons.prems b by (auto simp: add.assoc)
  then show ?case using Cons b by (auto simp: add.assoc)
qed simp

lemma unlink:
  assumes seg: "seg h (next_of h p) (fs @ (a, k) # gs) q" and d: "distinct (p # map (\<lambda>x. adr (fst x)) (fs @ (a, k) # gs))"
  defines "h1 \<equiv> set_next (last_of p fs) (next_of h (adr a)) h"
  shows "seg h1 (next_of h1 p) (fs @ gs) q" "next_of h (last_of p fs) = adr a" "last_of p fs \<in> insert p (adr ` fst ` set fs)"
proof -
  have s: "seg h (next_of h p) fs (adr a)" "seg h (next_of h (adr a)) gs q" using seg by (auto simp: seg_append)
  show "next_of h (last_of p fs) = adr a" using seg_last [OF s(1)] .
  show "last_of p fs \<in> insert p (adr ` fst ` set fs)" by (simp add: last_of_def)
  have fr: "seg h1 r xs z = seg h r xs z" if "\<And>x. x \<in> fst ` set xs \<Longrightarrow> adr x \<notin> {last_of p fs}" for r xs z
    by (rule seg_frame_ne [where X = "{last_of p fs}"]) (use that in \<open>simp_all add: h1_def set_next_def\<close>)
  show "seg h1 (next_of h1 p) (fs @ gs) q"
  proof (cases fs rule: rev_cases)
    case Nil
    then show ?thesis using s(2) d fr [of gs] by (force simp: h1_def)
  next
    case (snoc ls y)
    obtain b m where y: "y = (b, m)" by (cases y)
    have lb: "last_of p fs = adr b" using snoc y by simp
    have ls: "adr x \<notin> {last_of p fs}" if "x \<in> fst ` set ls \<or> x \<in> fst ` set gs" for x
      using d that snoc y lb by (force simp: image_iff)
    have "seg h (next_of h p) ls (adr b)" "size_of h (adr b) = adr m" using s(1) snoc y by (auto simp: seg_append)
    moreover have "next_of h1 p = next_of h p" "next_of h1 (adr b) = next_of h (adr a)" "size_of h1 (adr b) = size_of h (adr b)"
      using d snoc y lb by (auto simp: h1_def)
    ultimately show ?thesis using s(2) fr [of ls] fr [of gs] ls snoc y by (auto simp: seg_append)
  qed
qed

lemma finish_layout:
  assumes so: "sound cs" "coalesced cs" "0 < B" "8 dvd B" "e < 2 ^ 32" "span cs < 2 ^ 31" "B + span cs = e"
    and cs: "cs = xs @ (m, False) # zs" "t = B + span xs"
    and g: "pxEnd g = adr e" "size_of g (adr e) = 0" "next_of g (adr e) = 0" "\<forall>x \<in> {B..e}. xStart g \<noteq> adr x"
      "size_of g (xStart g) = 0" "seg g (next_of g (xStart g)) (frees B cs) (adr e)"
      "\<And>a k. (a, k) \<in> set (used B cs) \<Longrightarrow> a \<noteq> t \<Longrightarrow> size_of g (adr a) = adr k OR top_bit \<and> next_of g (adr a) = 0"
      "xFreeBytesRemaining g = adr (free_bytes cs)" "xBlockAllocatedBit g = top_bit"
      "xMinimumEverFreeBytesRemaining g \<le> xFreeBytesRemaining g"
  shows "heap_inv ((set_next (adr t) 0 (set_size (adr t) (adr m OR top_bit) g))\<lparr>xNumberOfSuccessfulAllocations := c\<rparr>) B cs"
    (is "heap_inv ?h B cs")
proof -
  have m: "0 < m" "t < e" "t < 2 ^ 32" "sound xs" "sound zs" using so cs by auto
  have te: "adr e \<noteq> adr t" using adr_eq [of e t] m so(5) by simp
  have "t \<in> {B..e}" using cs(2) m by simp
  then have tx: "xStart g \<noteq> adr t" using g(4) by blast
  have L: "links ?h x = links g x" if "x \<noteq> adr t" for x using that by (simp add: set_next_def set_size_def)
  have nt: "adr a \<noteq> adr t" if "a \<in> fst ` set (at f B xs) \<or> a \<in> fst ` set (at f (t + m) zs)" for a f
    using that adr_ne [of a f B xs t] adr_ne [of a f "t + m" zs t] m so cs by auto
  show ?thesis
  proof (rule heap_invI [OF so])
    have "seg ?h p (frees B cs) q = seg g p (frees B cs) q" for p q
    proof (rule seg_frame_ne [where X = "{adr t}"])
      show "adr a \<notin> {adr t}" if "a \<in> fst ` set (frees B cs)" for a
      proof -
        have "a \<in> fst ` set (frees B xs) \<or> a \<in> fst ` set (frees (t + m) zs)" using that cs by (auto simp: at_append)
        then show ?thesis using nt [of a True] by blast
      qed
    qed (use L in simp)
    then show "seg ?h (next_of ?h (xStart ?h)) (frees B cs) (adr e)" using g(6) L [OF tx] by simp
    show "\<forall>(a, k) \<in> set (used B cs). size_of ?h (adr a) = adr k OR top_bit \<and> next_of ?h (adr a) = 0"
    proof (clarify)
      fix a k assume ak: "(a, k) \<in> set (used B cs)"
      show "size_of ?h (adr a) = adr k OR top_bit \<and> next_of ?h (adr a) = 0"
      proof (cases "a = t")
        case True
        then have "k = m" using ak cs nt [of t False] by (force simp: at_append)
        then show ?thesis using True by simp
      next
        case False
        then have "a \<in> fst ` set (used B xs) \<or> a \<in> fst ` set (used (t + m) zs)" using ak cs by (force simp: at_append)
        then have "adr a \<noteq> adr t" using nt [of a False] by blast
        then show ?thesis using g(7) [OF ak False] by simp
      qed
    qed
  qed (use g te tx in simp_all)
qed

lemma put_used: "ys = [] \<or> \<not> snd (hd ys) \<Longrightarrow> put (xs @ [(w, False)]) n ys = xs @ (w, False) # (n, True) # ys"
  by (cases rule: join_next_cases [of ys n]) (auto simp: put_def)

text \<open>The block after the cut, or the whole one, and the list without it.\<close>

lemma cut_layout:
  assumes so: "sound xs" "sound ys" "coalesced xs" "coalesced ys" "ys = [] \<or> \<not> snd (hd ys)"
    and w: "16 \<le> w" "8 dvd w" "w + 16 < n" "8 dvd n" and t: "t = B + span xs" "e = t + n + span ys" "e < 2 ^ 32"
    and g: "pxEnd g = adr e" "\<forall>x \<in> {B..e}. xStart g \<noteq> adr x" "size_of g (xStart g) = 0" "size_of g (adr t) = adr n"
      "seg g (next_of g (xStart g)) (frees B xs @ frees (t + n) ys) (adr e)"
  defines "cs \<equiv> xs @ (w, False) # (n - w, True) # ys"
  shows "\<exists>l. prvInsertBlockIntoFreeList (adr (t + w)) (set_size (adr t) (adr w) (set_size (adr (t + w)) (adr (n - w)) g)) = Some (g\<lparr>links := l\<rparr>) \<and>
    seg (g\<lparr>links := l\<rparr>) (pxNextFreeBlock (l (xStart g))) (frees B cs) (adr e) \<and> l (adr e) = links g (adr e) \<and>
    (\<forall>a \<in> fst ` set (used B cs). a \<noteq> t \<longrightarrow> l (adr a) = links g (adr a)) \<and> xBlockSize (l (adr t)) = adr w \<and> xBlockSize (l (xStart g)) = 0"
proof -
  let ?g = "set_size (adr t) (adr w) (set_size (adr (t + w)) (adr (n - w)) g)"
  have tw: "adr (t + w) \<noteq> adr t" "adr e \<noteq> adr t" "adr e \<noteq> adr (t + w)"
    using adr_eq [of "t + w" t] adr_eq [of e t] adr_eq [of e "t + w"] w t by simp_all
  have "t \<in> {B..e}" "t + w \<in> {B..e}" using t w by simp_all
  then have x: "xStart g \<noteq> adr t" "xStart g \<noteq> adr (t + w)" using g(2) by blast+
  have L: "links ?g y = links g y" if "y \<noteq> adr t" "y \<noteq> adr (t + w)" for y using that by (simp add: set_size_def)
  have nt: "adr a \<noteq> adr t \<and> adr a \<noteq> adr (t + w)" if "a \<in> fst ` set (at f B xs) \<or> a \<in> fst ` set (at f (t + n) ys)" for a f
    using that adr_ne [of a f B xs t] adr_ne [of a f "t + n" ys t] adr_ne [of a f B xs "t + w"] adr_ne [of a f "t + n" ys "t + w"] so w t
    by auto
  have e: "t + w + (n - w) = t + n" using w by simp
  have "seg ?g (next_of ?g (xStart ?g)) (frees B (xs @ [(w, False)]) @ frees (t + w + (n - w)) ys) (adr e)"
  proof (subst seg_frame_ne [where X = "{adr t, adr (t + w)}"])
    show "adr a \<notin> {adr t, adr (t + w)}" if "a \<in> fst ` set (frees B (xs @ [(w, False)]) @ frees (t + w + (n - w)) ys)" for a
      using nt [of a True] that unfolding e by (auto simp: at_append)
    show "seg g (next_of ?g (xStart ?g)) (frees B (xs @ [(w, False)]) @ frees (t + w + (n - w)) ys) (adr e)"
      using g(5) x unfolding e by (simp add: at_append)
  qed (use L in simp)
  moreover have "t + w = B + span (xs @ [(w, False)])" "e = t + w + (n - w) + span ys" "16 \<le> n - w"
    "sound (xs @ [(w, False)])" "coalesced (xs @ [(w, False)])" using t w so by (auto simp: coalesced_append)
  moreover have "pxEnd ?g = adr e" "size_of ?g (adr (t + w)) = adr (n - w)" "size_of ?g (xStart ?g) = 0" "\<forall>y \<in> {B..e}. xStart ?g \<noteq> adr y"
    using g x tw by simp_all
  ultimately obtain l where l: "prvInsertBlockIntoFreeList (adr (t + w)) ?g = Some (?g\<lparr>links := l\<rparr>)"
    "seg (?g\<lparr>links := l\<rparr>) (pxNextFreeBlock (l (xStart ?g))) (frees B (put (xs @ [(w, False)]) (n - w) ys)) (adr e)" "l (adr e) = links ?g (adr e)"
    "\<forall>a \<in> fst ` set (used B (xs @ [(w, False)]) @ used (t + w + (n - w)) ys). l (adr a) = links ?g (adr a)" "xBlockSize (l (xStart ?g)) = 0"
    using insert_layout [of ?g B "xs @ [(w, False)]" "t + w" "n - w" ys e] t(3) so by blast
  have gl: "?g\<lparr>links := l\<rparr> = g\<lparr>links := l\<rparr>" by (simp add: set_size_def)
  have "l (adr a) = links g (adr a)" if "a \<in> fst ` set (used B cs)" "a \<noteq> t" for a
  proof -
    have "used B cs = used B xs @ (t, w) # used (t + n) ys" using w t unfolding cs_def by (simp add: at_append add.assoc)
    then have "a \<in> fst ` set (used B xs) \<or> a \<in> fst ` set (used (t + n) ys)" using that by auto
    moreover from this have "l (adr a) = links ?g (adr a)" using l(4) unfolding e at_append set_append image_Un by blast
    ultimately show ?thesis using nt [of a False] L [of "adr a"] by simp
  qed
  moreover have "xBlockSize (l (adr t)) = adr w" using l(4) t by (simp add: at_append)
  ultimately show ?thesis using l(1,2,3,5) L [OF tw(2,3)] unfolding gl cs_def put_used [OF so(5)] by auto
qed

text \<open>The counters and the mark of the block that leaves the list.\<close>

definition claim_block :: "u32 \<Rightarrow> heap4 \<Rightarrow> heap4" where
  "claim_block pxBlock g =
     (let free = xFreeBytesRemaining g - size_of g pxBlock;
          h = g\<lparr>xFreeBytesRemaining := free,
                xMinimumEverFreeBytesRemaining := (if free < xMinimumEverFreeBytesRemaining g then free
                  else xMinimumEverFreeBytesRemaining g)\<rparr>;
          h = set_next pxBlock 0 (set_size pxBlock (size_of h pxBlock OR xBlockAllocatedBit h) h)
      in h\<lparr>xNumberOfSuccessfulAllocations := xNumberOfSuccessfulAllocations h + 1\<rparr>)"

lemma take_block_unfold:
  "take_block w prev b h =
     map_option (\<lambda>g. (next_of h prev + 8, claim_block b g))
       (let h1 = set_next prev (next_of h b) h in
        if size_of h b - w > 16 then prvInsertBlockIntoFreeList (b + w) (set_size b w (set_size (b + w) (size_of h b - w) h1))
        else Some h1)"
  unfolding take_block_def claim_block_def Let_def set_fields by (simp only: heap4.simps set_fields)

lemma claim_layout:
  assumes so: "sound cs" "coalesced cs" "0 < B" "8 dvd B" "e < 2 ^ 32" "span cs < 2 ^ 31" "B + span cs = e"
    and cs: "cs = xs @ (m, False) # zs" "t = B + span xs"
    and g: "pxEnd g = adr e" "size_of g (adr e) = 0" "next_of g (adr e) = 0" "\<forall>x \<in> {B..e}. xStart g \<noteq> adr x"
      "size_of g (xStart g) = 0" "seg g (next_of g (xStart g)) (frees B cs) (adr e)"
      "\<And>a k. (a, k) \<in> set (used B cs) \<Longrightarrow> a \<noteq> t \<Longrightarrow> size_of g (adr a) = adr k OR top_bit \<and> next_of g (adr a) = 0"
      "xFreeBytesRemaining g = adr (free_bytes cs + m)" "xBlockAllocatedBit g = top_bit" "size_of g (adr t) = adr m"
  shows "heap_inv (claim_block (adr t) g) B cs"
proof -
  have free: "xFreeBytesRemaining g - size_of g (adr t) = adr (free_bytes cs)" unfolding g(8,10) by (simp add: of_nat_add)
  have m: "xMinimumEverFreeBytesRemaining g \<le> adr (free_bytes cs)" if "\<not> adr (free_bytes cs) < xMinimumEverFreeBytesRemaining g"
    using that by simp
  let ?k = "g\<lparr>xFreeBytesRemaining := adr (free_bytes cs),
    xMinimumEverFreeBytesRemaining := (if adr (free_bytes cs) < xMinimumEverFreeBytesRemaining g then adr (free_bytes cs)
      else xMinimumEverFreeBytesRemaining g)\<rparr>"
  have k: "size_of ?k (adr t) = adr m" "xBlockAllocatedBit ?k = top_bit" using g(9,10) by simp_all
  have "seg ?k p fs q = seg g p fs q" for p fs q by (rule seg_frame) simp
  then show ?thesis unfolding claim_block_def Let_def free k
    by (intro finish_layout [OF so cs]) (use g m in simp_all)
qed

lemma unlink_layout:
  assumes inv: "heap_inv h B (xs @ (n, True) # ys)" and t: "t = B + span xs" and e: "e = t + n + span ys"
  defines "p \<equiv> last_of (xStart h) (frees B xs)"
  defines "h1 \<equiv> set_next p (next_of h (adr t)) h"
  shows "seg h1 (next_of h1 (xStart h)) (frees B xs @ frees (t + n) ys) (adr e)" "next_of h p = adr t"
    "links h1 (adr e) = links h (adr e)" "size_of h (adr t) = adr n"
    "(a, k) \<in> set (used B xs @ used (t + n) ys) \<Longrightarrow> size_of h1 (adr a) = adr k OR top_bit \<and> next_of h1 (adr a) = 0"
proof -
  let ?bs = "xs @ (n, True) # ys"
  have so: "sound ?bs" "sound xs" using inv by (auto simp: heap_inv_def)
  have e2: "B + span ?bs = e" "e < 2 ^ 32" using inv t e by (auto simp: heap_inv_def add.assoc)
  note f = heap_inv_facts [OF inv e2(1)]
  have fs: "frees B ?bs = frees B xs @ (t, n) # frees (t + n) ys" using t by (simp add: at_append)
  have us: "used B ?bs = used B xs @ used (t + n) ys" using t by (simp add: at_append)
  have seg: "seg h (next_of h (xStart h)) (frees B xs @ (t, n) # frees (t + n) ys) (adr e)" using f(6) unfolding fs .
  then show "size_of h (adr t) = adr n" by (auto simp: seg_append)
  have xo: "xStart h \<noteq> adr a" if "a \<in> fst ` set (at g B ?bs) \<or> a = e" for a g
  proof -
    have "B \<le> a \<and> a \<le> e" using at_range [OF _ so(1), of a g B] that unfolding e2(1) using e2(1) by fastforce
    then have "a \<in> {B..e}" by simp
    then show ?thesis using f(4) by blast
  qed
  have "distinct (map (\<lambda>x. adr (fst x)) (frees B ?bs))" using distinct_at [OF so(1)] e2 by simp
  moreover have "xStart h \<notin> set (map (\<lambda>x. adr (fst x)) (frees B ?bs))" using xo [of _ True] by auto
  ultimately have d: "distinct (xStart h # map (\<lambda>x. adr (fst x)) (frees B xs @ (t, n) # frees (t + n) ys))"
    unfolding fs by simp
  note u = unlink [OF seg d, folded p_def, folded h1_def]
  show "seg h1 (next_of h1 (xStart h)) (frees B xs @ frees (t + n) ys) (adr e)" "next_of h p = adr t" using u by simp_all
  have pne: "p \<noteq> adr a" if a: "a \<in> fst ` set (used B ?bs) \<or> a = e" for a
  proof
    assume "p = adr a"
    then obtain b where b: "b \<in> fst ` set (frees B xs)" "adr a = adr b"
      using u(3) xo [of a False] a by (metis image_iff insertE)
    have "b < e" using at_range [OF b(1) so(2)] t e by simp
    moreover have "a \<le> e" using a at_range [OF _ so(1), of a False B] unfolding e2(1) by (elim disjE) simp_all
    ultimately have be: "b < e" "a \<le> e" by simp_all
    then have "a = b" using b(2) adr_eq [of a b] e2(2) by simp
    then have "b \<in> fst ` set (frees B ?bs)" "b \<in> fst ` set (used B ?bs)" using a be b(1) unfolding fs by auto
    then show False using at_disjoint [OF so(1)] by auto
  qed
  have L: "links h1 x = links h x" if "x \<noteq> p" for x using that by (simp add: h1_def set_next_def)
  show "links h1 (adr e) = links h (adr e)" using L pne by metis
  show "size_of h1 (adr a) = adr k OR top_bit \<and> next_of h1 (adr a) = 0" if "(a, k) \<in> set (used B xs @ used (t + n) ys)"
  proof -
    have "(a, k) \<in> set (used B ?bs)" using that us by simp
    then show ?thesis using L [of "adr a"] pne [of a] used_next [OF _ inv] by (metis fst_conv image_eqI)
  qed
qed

lemma take_layout:
  assumes inv: "heap_inv h B (xs @ (n, True) # ys)" and t: "t = B + span xs" and w: "16 \<le> w" "8 dvd w" "w \<le> n"
  defines "cs \<equiv> xs @ (if n - w > 16 then (w, False) # (n - w, True) # ys else (n, False) # ys)"
  shows "\<exists>h'. take_block (adr w) (last_of (xStart h) (frees B xs)) (adr t) h = Some (adr (t + 8), h') \<and> heap_inv h' B cs"
proof -
  define e where "e = t + n + span ys"
  have so: "sound xs" "sound ys" "coalesced xs" "coalesced ys" "16 \<le> n" "8 dvd n" "0 < B" "8 dvd B" "ys = [] \<or> \<not> snd (hd ys)"
    using inv by (auto simp: heap_inv_def coalesced_append coalesced_Cons)
  have e: "e < 2 ^ 32" "B + span (xs @ (n, True) # ys) = e" "n < 2 ^ 31" "span xs + n + span ys < 2 ^ 31"
    using inv t by (auto simp: heap_inv_def e_def add.assoc)
  note f = heap_inv_facts [OF inv e(2)]
  let ?p = "last_of (xStart h) (frees B xs)"
  note u = unlink_layout [OF inv t e_def]
  define h1 where "h1 = set_next ?p (next_of h (adr t)) h"
  note u = u [folded h1_def]
  have sz: "size_of h1 x = size_of h x" for x by (simp add: h1_def)
  have nx: "xStart h1 = xStart h" "pxEnd h1 = adr e" "xBlockAllocatedBit h1 = top_bit" "xFreeBytesRemaining h1 = adr (free_bytes (xs @ (n, True) # ys))"
    using f by (simp_all add: h1_def)
  have xz: "size_of h1 (xStart h1) = 0" "\<forall>x \<in> {B..e}. xStart h1 \<noteq> adr x" "size_of h1 (adr t) = adr n"
    using f u(4) by (simp_all add: sz nx(1))
  have ret: "next_of h ?p + 8 = adr (t + 8)" unfolding u(2) by (simp add: of_nat_add)
  have cmp: "size_of h (adr t) - adr w > 16 \<longleftrightarrow> w + 16 < n" "size_of h (adr t) - adr w = adr (n - w)"
  proof -
    show "size_of h (adr t) - adr w = adr (n - w)" using w by (simp add: u(4) of_nat_diff)
    then show "size_of h (adr t) - adr w > 16 \<longleftrightarrow> w + 16 < n" using adr_less [of 16 "n - w"] e(3) by auto
  qed
  show ?thesis
  proof (cases "w + 16 < n")
    case True
    then have cs: "cs = xs @ (w, False) # (n - w, True) # ys" by (simp add: cs_def less_diff_conv add.commute)
    obtain l where l: "prvInsertBlockIntoFreeList (adr (t + w)) (set_size (adr t) (adr w) (set_size (adr (t + w)) (adr (n - w)) h1)) = Some (h1\<lparr>links := l\<rparr>)"
      "seg (h1\<lparr>links := l\<rparr>) (pxNextFreeBlock (l (xStart h1))) (frees B cs) (adr e)" "l (adr e) = links h1 (adr e)"
      "\<forall>a \<in> fst ` set (used B cs). a \<noteq> t \<longrightarrow> l (adr a) = links h1 (adr a)" "xBlockSize (l (adr t)) = adr w" "xBlockSize (l (xStart h1)) = 0"
      using cut_layout [OF so(1-4,9) w(1,2) True so(6) t e_def e(1) nx(2) xz(2,1,3), folded cs] u(1) nx(1) by auto
    have run: "take_block (adr w) ?p (adr t) h = Some (adr (t + 8), claim_block (adr t) (h1\<lparr>links := l\<rparr>))"
      using True cmp l(1) ret by (simp add: take_block_unfold h1_def [symmetric] Let_def of_nat_add)
    have "heap_inv (claim_block (adr t) (h1\<lparr>links := l\<rparr>)) B cs"
    proof (rule claim_layout [OF _ _ so(7,8) e(1) _ _ cs t])
      show "sound cs" "coalesced cs" using so w True by (auto simp: cs coalesced_append coalesced_Cons intro: dvd_diff_nat)
      show "span cs < 2 ^ 31" "B + span cs = e" using e(4) t True by (simp_all add: cs e_def)
      show "xFreeBytesRemaining (h1\<lparr>links := l\<rparr>) = adr (free_bytes cs + w)" using nx True by (simp add: cs)
      fix a k assume a: "(a, k) \<in> set (used B cs)" "a \<noteq> t"
      then have "(a, k) \<in> set (used B xs @ used (t + n) ys)" using t True by (simp add: cs at_append add.assoc)
      moreover have "l (adr a) = links h1 (adr a)" using a l(4) by force
      ultimately show "size_of (h1\<lparr>links := l\<rparr>) (adr a) = adr k OR top_bit \<and> next_of (h1\<lparr>links := l\<rparr>) (adr a) = 0"
        using u(5) by simp
    qed (use l nx f u(3) xz in simp_all)
    then show ?thesis using run by blast
  next
    case False
    then have cs: "cs = xs @ (n, False) # ys" by (simp add: cs_def)
    have run: "take_block (adr w) ?p (adr t) h = Some (adr (t + 8), claim_block (adr t) h1)"
      using False cmp ret by (simp add: take_block_unfold h1_def [symmetric] Let_def)
    have "heap_inv (claim_block (adr t) h1) B cs"
    proof (rule claim_layout [OF _ _ so(7,8) e(1) _ _ cs t])
      show "sound cs" "coalesced cs" using so by (auto simp: cs coalesced_append coalesced_Cons)
      show "span cs < 2 ^ 31" "B + span cs = e" using e(4) t by (simp_all add: cs e_def)
      show "xFreeBytesRemaining h1 = adr (free_bytes cs + n)" using nx by (simp add: cs add_ac)
      show "seg h1 (next_of h1 (xStart h1)) (frees B cs) (adr e)" using u(1) nx(1) t by (simp add: cs at_append)
      fix a k assume a: "(a, k) \<in> set (used B cs)" "a \<noteq> t"
      then have "(a, k) \<in> set (used B xs @ used (t + n) ys)" using t by (auto simp: cs at_append)
      then show "size_of h1 (adr a) = adr k OR top_bit \<and> next_of h1 (adr a) = 0" using u(5) by simp
    qed (use nx f u(3) xz in simp_all)
    then show ?thesis using run by blast
  qed
qed

definition heap_alloc :: "u32 \<Rightarrow> nat \<Rightarrow> layout \<Rightarrow> nat \<times> layout" where
  "heap_alloc n B bs =
     (if n = 0 \<or> 2 ^ 31 \<le> unat n then (0, bs)
      else case alloc (request n) B bs of None \<Rightarrow> (0, bs) | Some (a, bs') \<Rightarrow> (a + 8, bs'))"

lemma at_in: "(x, m) \<in> set (at g a bs) \<Longrightarrow> (m, g) \<in> set bs"
proof (induction bs arbitrary: a)
  case (Cons b bs)
  obtain n f where "b = (n, f)" by (cases b)
  then show ?case using Cons.IH [of "a + n"] Cons.prems by (auto split: if_splits)
qed simp

text \<open>The search on a heap with a layout: the first block that fits, or the end marker.\<close>

lemma find_layout:
  assumes inv: "heap_inv h B bs" and e: "e = B + span bs" and w: "0 < w" "w < 2 ^ 32"
  shows "alloc w B bs = None \<Longrightarrow> find_block h (adr w) (xStart h) (next_of h (xStart h)) = Some (last_of (xStart h) (frees B bs), adr e)"
    "bs = xs @ (n, True) # ys \<Longrightarrow> \<forall>(m, f) \<in> set xs. f \<longrightarrow> m < w \<Longrightarrow> w \<le> n \<Longrightarrow>
      find_block h (adr w) (xStart h) (next_of h (xStart h)) = Some (last_of (xStart h) (frees B xs), adr (B + span xs))"
proof -
  note f = heap_inv_facts [OF inv e [symmetric]]
  have so: "sound bs" "0 < B" "e < 2 ^ 32" "span bs < 2 ^ 31" using inv e by (auto simp: heap_inv_def)
  have pos: "0 < x \<and> x < 2 ^ 32 \<and> (m, True) \<in> set zs" if "(x, m) \<in> set (frees B zs)" "sound zs" "span zs \<le> span bs" for x m zs
    using at_range [of x True B zs] at_in [OF that(1)] that so e by (force simp: image_iff)
  show "find_block h (adr w) (xStart h) (next_of h (xStart h)) = Some (last_of (xStart h) (frees B bs), adr e)"
    if n: "alloc w B bs = None"
  proof (rule find_block_none [OF f(6) _ _ so(3) w f(2,3)])
    show "\<forall>(x, m) \<in> set (frees B bs). 0 < x \<and> x < 2 ^ 32 \<and> m < w"
      using pos [OF _ so(1)] n unfolding alloc_None by fast
  qed (use so e in simp)
  show "find_block h (adr w) (xStart h) (next_of h (xStart h)) = Some (last_of (xStart h) (frees B xs), adr (B + span xs))"
    if bs: "bs = xs @ (n, True) # ys" and small: "\<forall>(m, f) \<in> set xs. f \<longrightarrow> m < w" and "w \<le> n"
  proof (rule find_block_chain)
    show "seg h (next_of h (xStart h)) (frees B xs @ (B + span xs, n) # frees (B + span xs + n) ys) (adr e)"
      using f(6) unfolding bs by (simp add: at_append)
    have "sound xs" "span xs \<le> span bs" using so(1) bs by simp_all
    then show "\<forall>(x, m) \<in> set (frees B xs). 0 < x \<and> x < 2 ^ 32 \<and> m < w" using pos [of _ _ xs] small by fast
    show "0 < B + span xs" "B + span xs < 2 ^ 32" "n < 2 ^ 32" using so e bs by simp_all
  qed (fact \<open>w \<le> n\<close>)
qed

lemma malloc_run:
  assumes inv: "heap_inv h B bs" and n: "n \<noteq> 0" "unat n < 2 ^ 31"
  shows "pvPortMalloc n h = (if adr (request n) \<le> xFreeBytesRemaining h
    then Option.bind (find_block h (adr (request n)) (xStart h) (next_of h (xStart h))) (\<lambda>(prev, b).
      if b \<noteq> pxEnd h then take_block (adr (request n)) prev b h else Some (0, h))
    else Some (0, h))"
proof -
  have "0 < B + span bs" "B + span bs < 2 ^ 32" "pxEnd h = adr (B + span bs)" "xBlockAllocatedBit h = top_bit"
    using inv by (simp_all add: heap_inv_def)
  then have e: "pxEnd h \<noteq> 0" "xBlockAllocatedBit h = top_bit" using adr_eq [of "B + span bs" 0] by simp_all
  have "0 < unat n" using n(1) by (simp add: unat_gt_0)
  note r = block_size_request [OF this n(2)]
  have "adr (request n) > 0" using adr_less [of 0 "request n"] r by simp
  moreover have "n AND top_bit = 0" using n(2) by (simp only: top_bit_zero)
  ultimately show ?thesis unfolding pvPortMalloc_def Let_def r(1) using e by simp
qed

lemma malloc_layout:
  assumes inv: "heap_inv h B bs"
  shows "\<exists>h'. pvPortMalloc n h = Some (adr (fst (heap_alloc n B bs)), h') \<and> heap_inv h' B (snd (heap_alloc n B bs)) \<and>
    (fst (heap_alloc n B bs) = 0 \<longrightarrow> h' = h)"
proof (cases "n = 0 \<or> 2 ^ 31 \<le> unat n")
  case True
  have e: "pxEnd h \<noteq> 0" "xBlockAllocatedBit h = top_bit"
  proof -
    have "0 < B + span bs" "B + span bs < 2 ^ 32" "pxEnd h = adr (B + span bs)" using inv by (simp_all add: heap_inv_def)
    then show "pxEnd h \<noteq> 0" using adr_eq [of "B + span bs" 0] by simp
  qed (use inv in \<open>simp add: heap_inv_def\<close>)
  have "pvPortMalloc n h = Some (0, h)"
  proof (cases "n = 0")
    case False
    then have "n AND top_bit \<noteq> 0" using True top_bit_zero [of n] by auto
    then show ?thesis using e by (simp add: pvPortMalloc_def)
  qed (use e in \<open>simp add: pvPortMalloc_def block_size_def\<close>)
  then show ?thesis using True inv by (simp add: heap_alloc_def)
next
  case False
  then have n: "n \<noteq> 0" "unat n < 2 ^ 31" "0 < unat n" by (simp_all add: unat_gt_0)
  define w where "w = request n"
  have w: "16 \<le> w" "8 dvd w" "w < 2 ^ 32" using block_size_request [OF n(3,2)] by (simp_all add: w_def)
  define e where "e = B + span bs"
  note f = heap_inv_facts [OF inv e_def [symmetric]] and run = malloc_run [OF inv n(1,2), folded w_def]
  have fb: "free_bytes bs < 2 ^ 32" "e < 2 ^ 32" "sound bs" using free_bytes_span [of bs] inv by (auto simp: heap_inv_def e_def)
  show ?thesis
  proof (cases "alloc w B bs")
    case None
    then have "pvPortMalloc n h = Some (0, h)"
      using find_layout(1) [OF inv e_def _ w(3)] w(1) run f(1) by simp
    then show ?thesis using False None inv by (simp add: heap_alloc_def w_def)
  next
    case (Some p)
    obtain r cs where p: "p = (r, cs)" by (cases p)
    obtain xs k ys where b: "bs = xs @ (k, True) # ys" "\<forall>(m, f) \<in> set xs. f \<longrightarrow> m < w" "w \<le> k" "r = B + span xs"
      "cs = xs @ (if k - w > 16 then (w, False) # (k - w, True) # ys else (k, False) # ys)"
      using alloc_Some Some p by metis
    have "w \<le> free_bytes bs" using b(1,3) by simp
    then have fits: "adr w \<le> xFreeBytesRemaining h" unfolding f(7) using w(3) fb(1) by (simp only: word_le_nat_alt unat_adr)
    have "r < e" using b(1,4) fb(3) by (simp add: e_def)
    then have re: "adr r \<noteq> pxEnd h" using adr_eq [of r e] fb(2) f(1) by simp
    have "find_block h (adr w) (xStart h) (next_of h (xStart h)) = Some (last_of (xStart h) (frees B xs), adr r)"
      using find_layout(2) [OF inv e_def _ w(3) b(1-3)] w(1) b(4) by simp
    then have "pvPortMalloc n h = take_block (adr w) (last_of (xStart h) (frees B xs)) (adr r) h"
      using run fits re by simp
    then show ?thesis using take_layout [OF inv [unfolded b(1)] b(4) w(1,2) b(3), folded b(5)] False Some p
      by (auto simp: heap_alloc_def w_def)
  qed
qed

section \<open>Sequences of calls\<close>

datatype kheap_call = Malloc_call u32 | Free_call u32

fun kheap_calls :: "kheap_call list \<Rightarrow> heap4 \<Rightarrow> (u32 list \<times> heap4) option" where
  "kheap_calls [] h = Some ([], h)"
| "kheap_calls (Malloc_call n # cs) h =
     Option.bind (pvPortMalloc n h) (\<lambda>(p, h). map_option (\<lambda>(ps, h). (p # ps, h)) (kheap_calls cs h))"
| "kheap_calls (Free_call p # cs) h = Option.bind (vPortFree p h) (kheap_calls cs)"

text \<open>The same calls on the layout; None where a pointer is freed that no allocated block has.\<close>

fun layout_calls :: "nat \<Rightarrow> kheap_call list \<Rightarrow> layout \<Rightarrow> (nat list \<times> layout) option" where
  "layout_calls B [] bs = Some ([], bs)"
| "layout_calls B (Malloc_call n # cs) bs =
     map_option (\<lambda>(ps, bs'). (fst (heap_alloc n B bs) # ps, bs')) (layout_calls B cs (snd (heap_alloc n B bs)))"
| "layout_calls B (Free_call p # cs) bs =
     (if p = 0 then layout_calls B cs bs
      else Option.bind (release (unat p - 8) B [] bs) (layout_calls B cs))"

text \<open>Before the first allocation the kernel has not touched the array.\<close>

definition fresh_heap :: "heap4 \<Rightarrow> bool" where
  "fresh_heap h \<longleftrightarrow> pxEnd h = 0 \<and> 0 < unat (ucHeap h) \<and> unat (ucHeap h) + 61440 < 2 ^ 32 \<and>
     (unat (xStart h) < unat (ucHeap h) \<or> unat (ucHeap h) + 61440 \<le> unat (xStart h))"

lemma fresh_init: "fresh_heap h \<Longrightarrow> heap_inv (prvHeapInit h) (heap_base h) [(heap_bytes h, True)]"
proof (rule heap_init_layout)
  assume h: "fresh_heap h"
  then show "0 < unat (ucHeap h)" "unat (ucHeap h) + 61440 < 2 ^ 32" by (simp_all add: fresh_heap_def)
  fix x assume x: "unat (ucHeap h) \<le> x" "x < unat (ucHeap h) + 61440"
  then have "unat (adr x) = x" using h by (intro unat_adr) (simp add: fresh_heap_def)
  then show "xStart h \<noteq> adr x" using h x by (auto simp: fresh_heap_def)
qed

lemma fresh_malloc: "fresh_heap h \<Longrightarrow> pvPortMalloc n h = pvPortMalloc n (prvHeapInit h)"
proof -
  assume h: "fresh_heap h"
  have "pxEnd (prvHeapInit h) = adr (heap_base h + heap_bytes h)" "0 < heap_base h" "heap_base h + heap_bytes h < 2 ^ 32"
    using fresh_init [OF h] by (simp_all add: heap_inv_def)
  then have "pxEnd (prvHeapInit h) \<noteq> 0" using adr_eq [of "heap_base h + heap_bytes h" 0] by simp
  then show ?thesis using h by (simp add: pvPortMalloc_def fresh_heap_def)
qed

lemma release_Some:
  assumes "release t a us bs = Some cs"
  shows "\<exists>xs n ys. bs = xs @ (n, False) # ys \<and> t = a + span xs \<and> cs = put (rev us @ xs) n ys"
  using assms
proof (induction t a us bs rule: release.induct)
  case (2 t a us n f bs)
  show ?case
  proof (cases "t = a")
    case True
    then have "(n, f) # bs = [] @ (n, False) # bs" "t = a + span []" "cs = put (rev us @ []) n bs" using 2(2) by (simp_all split: if_splits)
    then show ?thesis by blast
  next
    case False
    then obtain xs k ys where x: "bs = xs @ (k, False) # ys" "t = a + n + span xs" "cs = put (rev ((n, f) # us) @ xs) k ys"
      using 2 by auto
    then have "(n, f) # bs = ((n, f) # xs) @ (k, False) # ys" "t = a + span ((n, f) # xs)" "cs = put (rev us @ (n, f) # xs) k ys" by simp_all
    then show ?thesis by blast
  qed
qed simp

lemma free_refines:
  assumes "heap_inv h B bs" "release (unat p - 8) B [] bs = Some cs"
  shows "\<exists>h'. vPortFree p h = Some h' \<and> heap_inv h' B cs"
proof -
  obtain xs n ys where b: "bs = xs @ (n, False) # ys" "unat p - 8 = B + span xs" "cs = put xs n ys"
    using release_Some [OF assms(2)] by auto
  have "0 < B" using assms(1) by (simp add: heap_inv_def)
  then have u: "unat p = B + span xs + 8" using b(2) by simp
  have "adr (unat p) = p" by simp
  then have "p = adr (B + span xs + 8)" unfolding u by (rule sym)
  then show ?thesis using free_layout [OF assms(1) [unfolded b(1)] refl] b(3) by simp
qed

lemma calls_refine:
  assumes "heap_inv h B bs" "layout_calls B cs bs = Some (ps, bs')"
  shows "\<exists>h'. kheap_calls cs h = Some (map adr ps, h') \<and> heap_inv h' B bs'"
  using assms
proof (induction B cs bs arbitrary: h ps rule: layout_calls.induct)
  case (2 B n cs bs)
  obtain qs where q: "layout_calls B cs (snd (heap_alloc n B bs)) = Some (qs, bs')" "ps = fst (heap_alloc n B bs) # qs"
    using 2(3) by auto
  obtain h1 where h1: "pvPortMalloc n h = Some (adr (fst (heap_alloc n B bs)), h1)" "heap_inv h1 B (snd (heap_alloc n B bs))"
    using malloc_layout [OF 2(2)] by blast
  then show ?case using 2(1) [OF h1(2) q(1)] q(2) by auto
next
  case (3 B p cs bs)
  show ?case
  proof (cases "p = 0")
    case True
    then show ?thesis using 3 by (simp add: vPortFree_def)
  next
    case False
    then obtain ds where d: "release (unat p - 8) B [] bs = Some ds" "layout_calls B cs ds = Some (ps, bs')"
      using 3(4) by (auto simp: bind_eq_Some_conv)
    obtain h1 where h1: "vPortFree p h = Some h1" "heap_inv h1 B ds" using free_refines [OF 3(3) d(1)] by blast
    then show ?thesis using 3(2) [OF False d(1) h1(2) d(2)] by simp
  qed
qed simp

lemma fresh_calls_refine:
  assumes "fresh_heap h" "layout_calls (heap_base h) cs [(heap_bytes h, True)] = Some (ps, bs)"
  shows "\<exists>h'. kheap_calls cs h = Some (map adr ps, h') \<and> (heap_inv h' (heap_base h) bs \<or> h' = h \<and> bs = [(heap_bytes h, True)])"
  using assms(2)
proof (induction cs)
  case (Cons c cs)
  show ?case
  proof (cases c)
    case (Malloc_call n)
    have "kheap_calls (c # cs) h = kheap_calls (c # cs) (prvHeapInit h)" by (simp add: Malloc_call fresh_malloc [OF assms(1)])
    then show ?thesis using calls_refine [OF fresh_init [OF assms(1)] Cons.prems] by auto
  next
    case (Free_call p)
    show ?thesis
    proof (cases "p = 0")
      case True
      then show ?thesis using Cons Free_call by (simp add: vPortFree_def)
    next
      case False
      have "release (unat p - 8) (heap_base h) [] [(heap_bytes h, True)] = None" by simp
      then show ?thesis using Cons.prems False Free_call by simp
    qed
  qed
qed simp

lemma put_back: "coalesced (xs @ (k, True) # ys) \<Longrightarrow> put xs k ys = xs @ (k, True) # ys"
  "coalesced (xs @ (k, True) # ys) \<Longrightarrow> w < k \<Longrightarrow> put xs w ((k - w, True) # ys) = xs @ (k, True) # ys"
proof -
  assume c: "coalesced (xs @ (k, True) # ys)"
  then have x: "xs = [] \<or> \<not> snd (last xs)" "ys = [] \<or> \<not> snd (hd ys)" by (auto simp: coalesced_append coalesced_Cons)
  then have "put xs w zs = xs @ join_next w zs" for w zs by (auto simp: put_def)
  moreover have "join_next k ys = (k, True) # ys" using x(2) by (cases rule: join_next_cases [of ys k]) auto
  ultimately show "put xs k ys = xs @ (k, True) # ys"
    "w < k \<Longrightarrow> put xs w ((k - w, True) # ys) = xs @ (k, True) # ys" by simp_all
qed

lemma of_unat: "unat p = a \<Longrightarrow> p = adr a"
  by (drule sym) simp

text \<open>What an allocation that succeeds has done.\<close>

lemma malloc_success:
  assumes inv: "heap_inv h B bs" and m: "pvPortMalloc n h = Some (p, h')" "p \<noteq> 0"
  obtains xs k ys where "bs = xs @ (k, True) # ys" "unat p = B + span xs + 8" "unat n + 8 \<le> request n" "request n \<le> k"
    "heap_inv h' B (xs @ (if k - request n > 16 then (request n, False) # (k - request n, True) # ys else (k, False) # ys))"
proof -
  obtain h1 where h1: "pvPortMalloc n h = Some (adr (fst (heap_alloc n B bs)), h1)" "heap_inv h1 B (snd (heap_alloc n B bs))"
    using malloc_layout [OF inv] by blast
  have p: "p = adr (fst (heap_alloc n B bs))" "h1 = h'" using m(1) h1(1) by simp_all
  have nz: "fst (heap_alloc n B bs) \<noteq> 0"
  proof
    assume "fst (heap_alloc n B bs) = 0"
    then show False using m(2) unfolding p(1) by simp
  qed
  then obtain r cs where r: "alloc (request n) B bs = Some (r, cs)" "heap_alloc n B bs = (r + 8, cs)"
    by (auto simp: heap_alloc_def split: if_splits option.splits)
  obtain xs k ys where b: "bs = xs @ (k, True) # ys" "request n \<le> k" "r = B + span xs"
    "cs = xs @ (if k - request n > 16 then (request n, False) # (k - request n, True) # ys else (k, False) # ys)"
    using alloc_Some [OF r(1)] by metis
  have "B + span bs < 2 ^ 32" "sound bs" using inv by (simp_all add: heap_inv_def)
  then have "unat p = B + span xs + 8" using p(1) r(2) b(1,3) by (simp add: unat_adr)
  moreover have "unat n + 8 \<le> request n" by (simp add: request_def)
  ultimately show thesis using that b h1(2) p(2) r(2) by simp
qed

section \<open>Statistics\<close>

lemma stats_walk_chain:
  assumes "seg h p (x # fs) (adr e)" "pxEnd h = adr e" "\<forall>y \<in> set (x # fs). adr (fst y) \<noteq> adr e"
    "\<forall>y \<in> set (x # fs). 0 < snd y \<and> snd y < 2 ^ 32" "M < 2 ^ 32" "m < 2 ^ 32"
  shows "stats_walk h p (c, adr M, adr m) =
    Some (c + adr (length (x # fs)), adr (Max (set (map snd (x # fs)) \<union> {M})), adr (Min (set (map snd (x # fs)) \<union> {m})))"
  using assms
proof (induction fs arbitrary: p x c M m)
  case Nil
  obtain a k where x: "x = (a, k)" by (cases x)
  have "adr M < adr k \<longleftrightarrow> M < k" "adr k < adr m \<longleftrightarrow> k < m" using adr_less Nil.prems(4-6) x by auto
  then show ?case using Nil.prems(1,2) x by (subst stats_walk.simps) (auto simp: max_def min_def Let_def)
next
  case (Cons y fs)
  obtain a k where x: "x = (a, k)" by (cases x)
  obtain b j where y: "y = (b, j)" by (cases y)
  have s: "p = adr a" "size_of h (adr a) = adr k" "next_of h (adr a) = adr b" "seg h (adr b) (y # fs) (adr e)"
    using Cons.prems(1) x y by simp_all
  have ne: "adr b \<noteq> pxEnd h" using Cons.prems(2,3) y by simp
  have cmp: "adr M < adr k \<longleftrightarrow> M < k" "adr k < adr m \<longleftrightarrow> k < m" using adr_less Cons.prems(4-6) x by auto
  then have mm: "(if adr k > adr M then adr k else adr M) = adr (max k M)" "(if adr k < adr m then adr k else adr m) = adr (min k m)"
    by (auto simp: max_def min_def)
  have "stats_walk h p (c, adr M, adr m) = stats_walk h (adr b) (c + 1, adr (max k M), adr (min k m))"
    by (subst stats_walk.simps) (simp only: s Let_def prod.case mm ne if_True not_False_eq_True)
  also have "\<dots> = Some (c + 1 + adr (length (y # fs)), adr (Max (set (map snd (y # fs)) \<union> {max k M})),
      adr (Min (set (map snd (y # fs)) \<union> {min k m})))"
    by (rule Cons.IH) (use Cons.prems x s(4) in auto)
  also have "c + 1 + adr (length (y # fs)) = c + adr (length (x # y # fs))" by (simp add: of_nat_add)
  also have "Max (set (map snd (y # fs)) \<union> {max k M}) = Max (set (map snd (x # y # fs)) \<union> {M})"
    by (simp add: x max.left_commute)
  also have "Min (set (map snd (y # fs)) \<union> {min k m}) = Min (set (map snd (x # y # fs)) \<union> {m})"
    by (simp add: x min.left_commute)
  finally show ?case .
qed

text \<open>The statistics describe the layout as long as some block is free.\<close>

lemma heap_stats:
  assumes inv: "heap_inv h B bs" and fr: "frees B bs \<noteq> []"
  defines "sizes \<equiv> set (map snd (frees B bs))"
  shows "vPortGetHeapStats h = Some \<lparr>xAvailableHeapSpaceInBytes = adr (free_bytes bs),
    xSizeOfLargestFreeBlockInBytes = adr (Max sizes), xSizeOfSmallestFreeBlockInBytes = adr (Min sizes),
    xNumberOfFreeBlocks = adr (length (frees B bs)), stat_xMinimumEverFreeBytesRemaining = xMinimumEverFreeBytesRemaining h,
    stat_xNumberOfSuccessfulAllocations = xNumberOfSuccessfulAllocations h,
    stat_xNumberOfSuccessfulFrees = xNumberOfSuccessfulFrees h\<rparr>"
proof -
  define e where "e = B + span bs"
  note f = heap_inv_facts [OF inv e_def [symmetric]]
  have so: "sound bs" "0 < B" "e < 2 ^ 32" using inv by (auto simp: heap_inv_def e_def)
  obtain a k fs where x: "frees B bs = (a, k) # fs" using fr by (cases "frees B bs") auto
  have b: "0 < a" "a < e" "0 < k" "k < 2 ^ 32 - 1" if "(a, k) \<in> set (frees B bs)" for a k
    using at_bounds [OF that] at_sound [OF that so(1)] so e_def by auto
  have nx: "next_of h (xStart h) = adr a" using f(6) x by simp
  moreover have "adr a \<noteq> 0" using b [of a k] x adr_eq [of a 0] so by simp
  moreover have "stats_walk h (adr a) (0, adr 0, adr (2 ^ 32 - 1)) =
      Some (0 + adr (length ((a, k) # fs)), adr (Max (set (map snd ((a, k) # fs)) \<union> {0})), adr (Min (set (map snd ((a, k) # fs)) \<union> {2 ^ 32 - 1})))"
  proof (rule stats_walk_chain [OF _ f(1)])
    show "seg h (adr a) ((a, k) # fs) (adr e)" using f(6) nx x by simp
    show "\<forall>y \<in> set ((a, k) # fs). adr (fst y) \<noteq> adr e"
    proof
      fix y assume "y \<in> set ((a, k) # fs)"
      then have "fst y < e" using b [of "fst y" "snd y"] x by simp
      then show "adr (fst y) \<noteq> adr e" using adr_eq [of "fst y" e] so(3) by simp
    qed
    show "\<forall>y \<in> set ((a, k) # fs). 0 < snd y \<and> snd y < 2 ^ 32" using b(3,4) x by fastforce
  qed simp_all
  moreover have "Max (set (map snd ((a, k) # fs)) \<union> {0}) = Max sizes" by (simp add: sizes_def x)
  moreover have "Min (set (map snd ((a, k) # fs)) \<union> {2 ^ 32 - 1}) = Min sizes"
  proof -
    have "Min sizes \<le> k" by (simp add: sizes_def x)
    then have "Min sizes < 2 ^ 32 - 1" using b(4) [of a k] x by simp
    then show ?thesis using Min_insert [of sizes "2 ^ 32 - 1"] by (simp add: sizes_def x)
  qed
  ultimately show ?thesis using f(7) by (simp add: vPortGetHeapStats_def x)
qed

text \<open>With every byte allocated the walk counts the end marker as a block and then leaves the list
  through its NULL pointer.\<close>

lemma heap_stats_full:
  assumes "heap_inv h B bs" "frees B bs = []"
  shows "stats_walk h (next_of h (xStart h)) (0, 0, 0xFFFFFFFF) = stats_walk h 0 (1, 0, 0)"
proof -
  note f = heap_inv_facts [OF assms(1) refl]
  have "0 < B + span bs" "B + span bs < 2 ^ 32" using assms(1) by (auto simp: heap_inv_def)
  then have "0 \<noteq> pxEnd h" using adr_eq [of 0 "B + span bs"] f(1) by simp
  then show ?thesis using f(2,3,6) assms(2) by (subst stats_walk.simps) (simp add: Let_def)
qed

section \<open>Properties\<close>

text \<open>C34: from the start of the system the kernel's heap answers any sequence of allocations and
  of frees of allocated pointers as the first-fit layout of blocks with joined neighbours does, and
  every call returns.\<close>

theorem kernel_heap_refines:
  assumes "fresh_heap h" "layout_calls (heap_base h) cs [(heap_bytes h, True)] = Some (ps, bs)"
  shows "\<exists>h'. kheap_calls cs h = Some (map adr ps, h') \<and>
    (if pxEnd h' = 0 then h' = h else heap_inv h' (heap_base h) bs)"
proof -
  obtain h' where h': "kheap_calls cs h = Some (map adr ps, h')"
    "heap_inv h' (heap_base h) bs \<or> h' = h \<and> bs = [(heap_bytes h, True)]" using fresh_calls_refine [OF assms] by blast
  have "pxEnd h' \<noteq> 0" if "heap_inv h' (heap_base h) bs"
  proof -
    have "0 < heap_base h + span bs" "heap_base h + span bs < 2 ^ 32" "pxEnd h' = adr (heap_base h + span bs)"
      using that by (simp_all add: heap_inv_def)
    then show ?thesis using adr_eq [of "heap_base h + span bs" 0] by simp
  qed
  then show ?thesis using h' assms(1) by (auto simp: fresh_heap_def)
qed

definition heap_boot :: heap4 where
  "heap_boot = \<lparr>links = (\<lambda>_. \<lparr>pxNextFreeBlock = 0, xBlockSize = 0\<rparr>), ucHeap = 0x68010000, xStart = 0x20000100, pxEnd = 0,
     xFreeBytesRemaining = 0, xMinimumEverFreeBytesRemaining = 0, xNumberOfSuccessfulAllocations = 0,
     xNumberOfSuccessfulFrees = 0, xBlockAllocatedBit = 0\<rparr>"

lemma heap_boot_facts: "fresh_heap heap_boot" "heap_base heap_boot = 0x68010000" "heap_bytes heap_boot = 61432"
  by (simp_all add: fresh_heap_def heap_boot_def heap_base_def heap_bytes_def)

lemma kernel_heap_refines_witness:
  "\<exists>h'. kheap_calls [Malloc_call 100, Malloc_call 40, Free_call 0x68010008, Malloc_call 20] heap_boot
     = Some ([0x68010008, 0x68010078, 0x68010008], h')"
  using kernel_heap_refines [OF heap_boot_facts(1), of "[Malloc_call 100, Malloc_call 40, Free_call 0x68010008, Malloc_call 20]"]
  by (auto simp: heap_boot_facts heap_alloc_def request_def put_def)

text \<open>A pointer that the kernel's heap returns is 8-aligned, its bytes lie inside the heap
  and overlap neither the memory nor the header of any block allocated before.\<close>

theorem kernel_malloc_safe:
  assumes "heap_inv h B bs" "pvPortMalloc n h = Some (p, h')" "p \<noteq> 0"
  shows "8 dvd unat p \<and> B + 8 \<le> unat p \<and> unat p + unat n \<le> B + span bs \<and>
    list_all (\<lambda>(a, k). unat p + unat n \<le> a \<or> a + k \<le> unat p - 8) (used B bs)"
proof -
  obtain xs k ys where b: "bs = xs @ (k, True) # ys" "unat p = B + span xs + 8" "unat n + 8 \<le> request n" "request n \<le> k"
    by (rule malloc_success [OF assms]) simp
  have so: "sound xs" "sound ys" "8 dvd B" using assms(1) b(1) by (simp_all add: heap_inv_def)
  have "8 dvd span xs" using so(1) by (induction xs) auto
  moreover have "a + m \<le> unat p - 8 \<or> unat p + unat n \<le> a" if "(a, m) \<in> set (used B bs)" for a m
    using that at_bounds [of a m False B xs] at_bounds [of a m False "B + span xs + k" ys] b by (auto simp: at_append)
  ultimately show ?thesis using so b by (auto simp: list_all_iff)
qed

lemma kernel_malloc_safe_witness:
  "\<exists>h'. pvPortMalloc 100 (prvHeapInit heap_boot) = Some (0x68010008, h') \<and> (8::nat) dvd 0x68010008"
proof -
  obtain h' where h': "pvPortMalloc 100 (prvHeapInit heap_boot) = Some (0x68010008, h')"
    using malloc_layout [OF fresh_init [OF heap_boot_facts(1)], of 100]
    by (auto simp: heap_boot_facts heap_alloc_def request_def)
  then show ?thesis using kernel_malloc_safe [OF fresh_init [OF heap_boot_facts(1)] h'] h' by simp
qed

text \<open>Freeing what was just allocated gives the layout of the heap back, its free bytes and the
  answer to every later request.\<close>

theorem kernel_malloc_free:
  assumes "heap_inv h B bs" "pvPortMalloc n h = Some (p, h1)" "p \<noteq> 0"
  shows "\<exists>h2. vPortFree p h1 = Some h2 \<and> heap_inv h2 B bs \<and> xPortGetFreeHeapSize h2 = xPortGetFreeHeapSize h \<and>
    map_option fst (pvPortMalloc m h2) = map_option fst (pvPortMalloc m h)"
proof -
  obtain xs k ys where b: "bs = xs @ (k, True) # ys" "unat p = B + span xs + 8" "unat n + 8 \<le> request n" "request n \<le> k"
    "heap_inv h1 B (xs @ (if k - request n > 16 then (request n, False) # (k - request n, True) # ys else (k, False) # ys))"
    by (rule malloc_success [OF assms]) blast
  have co: "coalesced (xs @ (k, True) # ys)" using assms(1) b(1) by (simp add: heap_inv_def)
  have p: "p = adr (B + span xs + 8)" by (rule of_unat) (rule b(2))
  obtain h2 where h2: "vPortFree p h1 = Some h2" "heap_inv h2 B bs"
  proof (cases "k - request n > 16")
    case True
    then show thesis using that free_layout [of h1 B xs "request n" "(k - request n, True) # ys"] put_back(2) [OF co, of "request n"] b(1,5) p
      by auto
  next
    case False
    then show thesis using that free_layout [of h1 B xs k ys] put_back(1) [OF co] b(1,5) p by auto
  qed
  moreover have "xPortGetFreeHeapSize h2 = xPortGetFreeHeapSize h"
    using h2(2) assms(1) by (simp add: heap_inv_def xPortGetFreeHeapSize_def)
  moreover have "map_option fst (pvPortMalloc m h2) = map_option fst (pvPortMalloc m h)"
    using malloc_layout [OF h2(2), of m] malloc_layout [OF assms(1), of m] by auto
  ultimately show ?thesis by blast
qed

lemma kernel_malloc_free_witness:
  "\<exists>h1 h2. pvPortMalloc 61000 (prvHeapInit heap_boot) = Some (0x68010008, h1) \<and> vPortFree 0x68010008 h1 = Some h2 \<and>
     xPortGetFreeHeapSize h2 = 61432"
proof -
  obtain h' where h': "pvPortMalloc 61000 (prvHeapInit heap_boot) = Some (0x68010008, h')"
    using malloc_layout [OF fresh_init [OF heap_boot_facts(1)], of 61000]
    by (auto simp: heap_boot_facts heap_alloc_def request_def)
  have "xPortGetFreeHeapSize (prvHeapInit heap_boot) = 61432"
    using fresh_init [OF heap_boot_facts(1)] by (simp add: heap_inv_def xPortGetFreeHeapSize_def heap_boot_facts)
  then show ?thesis using kernel_malloc_free [OF fresh_init [OF heap_boot_facts(1)] h', of 1] h' by auto
qed

text \<open>An allocation fails exactly where the request is zero, has its top bit set or is larger,
  header and alignment included, than every single free block, and then nothing changes.\<close>

theorem kernel_malloc_fails:
  assumes "heap_inv h B bs"
  shows "(pvPortMalloc n h = Some (0, h)) =
    (n = 0 \<or> 2 ^ 31 \<le> unat n \<or> list_all (\<lambda>(k, free). \<not> (free \<and> request n \<le> k)) bs)"
proof -
  obtain h' where h': "pvPortMalloc n h = Some (adr (fst (heap_alloc n B bs)), h')" "fst (heap_alloc n B bs) = 0 \<longrightarrow> h' = h"
    using malloc_layout [OF assms] by blast
  have "fst (heap_alloc n B bs) = 0 \<longleftrightarrow> n = 0 \<or> 2 ^ 31 \<le> unat n \<or> list_all (\<lambda>(k, free). \<not> (free \<and> request n \<le> k)) bs"
    using alloc_None [of "request n" B bs] by (auto simp: heap_alloc_def list_all_iff not_le split: option.splits)
  moreover have "fst (heap_alloc n B bs) < 2 ^ 32"
  proof (cases "alloc (request n) B bs")
    case (Some q)
    obtain r cs where q: "q = (r, cs)" by (cases q)
    obtain xs k ys where b: "bs = xs @ (k, True) # ys" "r = B + span xs" using alloc_Some [of "request n" B bs r cs] Some q by metis
    have "B + span bs < 2 ^ 32" "sound bs" using assms by (simp_all add: heap_inv_def)
    then have "r + 8 < 2 ^ 32" using b by simp
    then show ?thesis using Some q by (simp add: heap_alloc_def)
  qed (simp add: heap_alloc_def)
  ultimately show ?thesis using h' adr_eq [of "fst (heap_alloc n B bs)" 0] by auto
qed

lemma kernel_malloc_fails_witness:
  "pvPortMalloc 61425 (prvHeapInit heap_boot) = Some (0, prvHeapInit heap_boot)"
  using kernel_malloc_fails [OF fresh_init [OF heap_boot_facts(1)], of 61425]
  by (simp add: heap_boot_facts request_def)

declare of_nat_add [simp]

end
