(* ===== verification/Gui_Pages.thy ===== *)
theory Gui_Pages
  imports Gui_Panel Heap4
begin

text \<open>
  The pages of the touch panel (\<open>Middlewares/LVGL/GUI_APP/my_gui.c\<close>): the widgets the program
  creates, with their sizes, places, texts and hidden flags, the full-screen chart, the detail page
  of a channel and the system page. LVGL appears as the tree of its objects and as what
  is written to its charts and labels; colours, fonts and styles are not modelled. A number
  that \<open>sprintf\<close> formats from a \<open>float\<close> is kept as its decimals, value and unit.
\<close>

section \<open>Objects of the graphics library\<close>

datatype widget =
  Home_root | Detail_root | Sys_root | Home_label_title | Temp_label | Humidity_label | Co2_label
  | Co_label | Fan_switch | Fan_slider | Fan_speed_label | Alert_led | Alert_label_lbl
  | Status_label | Chart_container | Chart_title | Temp_chart | Channel_buttons_bar | Fs_back_btn
  | Detail_back_btn | Detail_title_lbl | Detail_cur_lbl | Detail_unit_lbl | Detail_avg_12h_lbl
  | Detail_avg_24h_lbl | Detail_avg30_lbl | Detail_avg60_lbl | Detail_hist_chart | Sys_back_btn
  | Sys_title_lbl | Sys_uptime_lbl | Sys_cpu_lbl | Sys_cpu_bar | Sys_heap_lbl | Sys_tasks_lbl
  | Sys_tasks_box | Sys_cpu_chart | Sys_lvgl_mem_lbl | Local string

datatype lv_align = ALIGN_TOP_LEFT | ALIGN_TOP_MID | ALIGN_TOP_RIGHT | ALIGN_BOTTOM_MID | ALIGN_LEFT_MID
  | ALIGN_RIGHT_MID | ALIGN_CENTER | ALIGN_OUT_RIGHT_BOTTOM

text \<open>An object: name, hidden flag, text, size and alignment where the code sets them, children.\<close>

datatype lv_obj = Obj (lv_id: widget) (lv_hidden: bool) (lv_text: string) (lv_size: "(int \<times> int) option")
  (lv_place: "(lv_align \<times> int \<times> int) option") (lv_kids: "lv_obj list")

fun lv_update :: "widget \<Rightarrow> (lv_obj \<Rightarrow> lv_obj) \<Rightarrow> lv_obj \<Rightarrow> lv_obj" where
  "lv_update w f (Obj i h t s a ks) = (if i = w then f (Obj i h t s a ks) else Obj i h t s a (map (lv_update w f) ks))"

definition lv_obj_set_hidden :: "bool \<Rightarrow> widget \<Rightarrow> lv_obj \<Rightarrow> lv_obj" where
  "lv_obj_set_hidden b w = lv_update w (\<lambda>x. Obj (lv_id x) b (lv_text x) (lv_size x) (lv_place x) (lv_kids x))"

abbreviation lv_hide :: "widget \<Rightarrow> lv_obj \<Rightarrow> lv_obj" where "lv_hide \<equiv> lv_obj_set_hidden True"
abbreviation lv_show :: "widget \<Rightarrow> lv_obj \<Rightarrow> lv_obj" where "lv_show \<equiv> lv_obj_set_hidden False"

definition lv_label_set_text :: "widget \<Rightarrow> string \<Rightarrow> lv_obj \<Rightarrow> lv_obj" where
  "lv_label_set_text w t = lv_update w (\<lambda>x. Obj (lv_id x) (lv_hidden x) t (lv_size x) (lv_place x) (lv_kids x))"

definition lv_obj_set_size :: "widget \<Rightarrow> int \<Rightarrow> int \<Rightarrow> lv_obj \<Rightarrow> lv_obj" where
  "lv_obj_set_size w x y = lv_update w (\<lambda>v. Obj (lv_id v) (lv_hidden v) (lv_text v) (Some (x, y)) (lv_place v) (lv_kids v))"

definition lv_obj_align :: "widget \<Rightarrow> lv_align \<Rightarrow> int \<Rightarrow> int \<Rightarrow> lv_obj \<Rightarrow> lv_obj" where
  "lv_obj_align w a x y = lv_update w (\<lambda>v. Obj (lv_id v) (lv_hidden v) (lv_text v) (lv_size v) (Some (a, x, y)) (lv_kids v))"

definition lv_obj_create :: "widget \<Rightarrow> lv_obj \<Rightarrow> lv_obj \<Rightarrow> lv_obj" where
  "lv_obj_create w x = lv_update w (\<lambda>v. Obj (lv_id v) (lv_hidden v) (lv_text v) (lv_size v) (lv_place v) (lv_kids v @ [x]))"

fun lv_obj_del :: "widget \<Rightarrow> lv_obj \<Rightarrow> lv_obj" where
  "lv_obj_del w (Obj i h t s a ks) = Obj i h t s a (map (lv_obj_del w) (filter (\<lambda>k. lv_id k \<noteq> w) ks))"

fun lv_label_get_text :: "widget \<Rightarrow> lv_obj \<Rightarrow> string option" where
  "lv_label_get_text w (Obj i h t s a ks) =
     (if i = w then Some t else foldr (\<lambda>k r. case lv_label_get_text w k of None \<Rightarrow> r | Some t \<Rightarrow> Some t) ks None)"

text \<open>Visible: neither the object nor one above it is hidden.\<close>

fun lv_obj_is_visible :: "widget \<Rightarrow> lv_obj \<Rightarrow> bool" where
  "lv_obj_is_visible w (Obj i h t s a ks) \<longleftrightarrow> \<not> h \<and> (i = w \<or> list_ex (lv_obj_is_visible w) ks)"

fun set_flag_recursive :: "bool \<Rightarrow> lv_obj \<Rightarrow> lv_obj" where
  "set_flag_recursive b (Obj i h t s a ks) = Obj i b t s a (map (set_flag_recursive b) ks)"

section \<open>The widgets of the three pages\<close>

definition create_sensor_section :: lv_obj where
  "create_sensor_section =
   Obj (Local ''container'') False '''' (Some (380, 120)) (Some (ALIGN_TOP_LEFT, (- 15), 40)) [
    Obj (Local ''title'') False ''Sensor Data'' None (Some (ALIGN_TOP_LEFT, 10, 5)) [],
    Obj (Local ''temp_title'') False ''Temp:'' None (Some (ALIGN_TOP_LEFT, 15, 38)) [],
    Obj Temp_label False ''--'' None (Some (ALIGN_TOP_LEFT, 65, 35)) [],
    Obj (Local ''hum_title'') False ''Hum:'' None (Some (ALIGN_TOP_LEFT, 200, 38)) [],
    Obj Humidity_label False ''--'' None (Some (ALIGN_TOP_LEFT, 245, 35)) [],
    Obj (Local ''co2_title'') False ''CO2:'' None (Some (ALIGN_TOP_LEFT, 15, 78)) [],
    Obj Co2_label False ''--'' None (Some (ALIGN_TOP_LEFT, 65, 75)) [],
    Obj (Local ''co_title'') False ''CO:'' None (Some (ALIGN_TOP_LEFT, 200, 78)) [],
    Obj Co_label False ''--'' None (Some (ALIGN_TOP_LEFT, 245, 75)) []]"

definition create_fan_control_section :: lv_obj where
  "create_fan_control_section =
   Obj (Local ''container'') False '''' (Some (380, 90)) (Some (ALIGN_TOP_LEFT, (- 15), 170)) [
    Obj (Local ''title'') False ''Fan Control'' None (Some (ALIGN_TOP_LEFT, 10, 5)) [],
    Obj Fan_speed_label False ''Speed: 50%'' None (Some (ALIGN_TOP_LEFT, 10, 28)) [],
    Obj Fan_slider False '''' (Some (240, 12)) (Some (ALIGN_TOP_LEFT, 10, 55)) [],
    Obj Fan_switch False '''' (Some (50, 25)) (Some (ALIGN_TOP_RIGHT, (- 55), 50)) [],
    Obj (Local ''switch_label'') False ''ON/OFF'' None (Some (ALIGN_TOP_RIGHT, 0, 55)) []]"

definition create_alert_section :: lv_obj where
  "create_alert_section =
   Obj (Local ''container'') False '''' (Some (380, 76)) (Some (ALIGN_TOP_LEFT, (- 15), 270)) [
    Obj Alert_led False '''' (Some (40, 40)) (Some (ALIGN_LEFT_MID, 15, 0)) [
     Obj Alert_label_lbl False ''OK'' None (Some (ALIGN_CENTER, 0, 0)) []],
    Obj Status_label False ''System Status: Normal'' None (Some (ALIGN_LEFT_MID, 70, 0)) []]"

definition create_chart_section :: lv_obj where
  "create_chart_section =
   Obj Chart_container False '''' (Some (390, 310)) (Some (ALIGN_TOP_LEFT, 380, 40)) [
    Obj Chart_title False ''Data Trends'' None (Some (ALIGN_TOP_MID, 0, 5)) [],
    Obj Temp_chart False '''' (Some (370, 260)) (Some (ALIGN_TOP_MID, 0, 32)) []]"

definition create_channel_buttons :: lv_obj where
  "create_channel_buttons =
   Obj Channel_buttons_bar False '''' (Some (790, 90)) (Some (ALIGN_BOTTOM_MID, 0, 10))
    (Obj (Local ''bar_title'') False ''Tap a sensor / System for details'' None (Some (ALIGN_TOP_LEFT, 15, 4)) [] #
     map (\<lambda>i. Obj (Local (''btn'')) False '''' (Some (148, 50)) (Some (ALIGN_TOP_LEFT, 10 + int i * (148 + 10), 28)) [
       Obj (Local ''lbl'') False ([''Temperature'', ''Humidity'', ''CO2'', ''CO''] ! i) None (Some (ALIGN_CENTER, 0, 0)) []]) [0..<CH_MAX] @
     [Obj (Local ''sys_btn'') False '''' (Some (148, 50)) (Some (ALIGN_TOP_LEFT, 10 + int CH_MAX * (148 + 10), 28)) [
       Obj (Local ''sys_btn_lbl'') False ''System'' None (Some (ALIGN_CENTER, 0, 0)) []]])"

definition home_page :: lv_obj where
  "home_page =
   Obj Home_root False '''' (Some (800, 480)) (Some (ALIGN_TOP_LEFT, 0, 0)) [
    Obj (Local ''home_label'') False '''' (Some (800, 30)) (Some (ALIGN_TOP_MID, 0, 0)) [
     Obj Home_label_title False ''Grain Warehouse Environment Monitoring System'' None (Some (ALIGN_CENTER, 0, 0)) []],
    create_sensor_section, create_fan_control_section, create_alert_section, create_chart_section, create_channel_buttons]"

definition create_detail_page :: lv_obj where
  "create_detail_page =
   Obj Detail_root True '''' (Some (800, 480)) (Some (ALIGN_TOP_LEFT, 0, 0)) [
    Obj (Local ''header'') False '''' (Some (800, 30)) (Some (ALIGN_TOP_MID, 0, 0)) [
     Obj Detail_back_btn False '''' (Some (70, 25)) (Some (ALIGN_LEFT_MID, 5, 0)) [
      Obj (Local ''back_lbl'') False ''< BACK'' None (Some (ALIGN_CENTER, 0, 0)) []],
     Obj Detail_title_lbl False ''Detail'' None (Some (ALIGN_CENTER, 0, 0)) []],
    Obj (Local ''top'') False '''' (Some (780, 200)) (Some (ALIGN_TOP_MID, 0, 40)) [
     Obj (Local ''col_cur'') False '''' (Some (380, 200)) (Some (ALIGN_LEFT_MID, 0, 0)) [
      Obj (Local ''cur_header'') False ''Current'' None (Some (ALIGN_TOP_LEFT, 20, 8)) [],
      Obj Detail_cur_lbl False ''--'' None (Some (ALIGN_TOP_LEFT, 20, 28)) [],
      Obj Detail_unit_lbl False '''' None (Some (ALIGN_OUT_RIGHT_BOTTOM, 80, (- 4))) [],
      Obj (Local ''row12'') False '''' (Some (360, 50)) (Some (ALIGN_TOP_LEFT, 20, 78)) [
       Obj (Local ''row12_name'') False ''12h Avg'' None (Some (ALIGN_LEFT_MID, 0, 0)) [],
       Obj Detail_avg_12h_lbl False ''--'' None (Some (ALIGN_LEFT_MID, 65, 0)) []],
      Obj (Local ''row24'') False '''' (Some (360, 50)) (Some (ALIGN_TOP_LEFT, 20, 135)) [
       Obj (Local ''row24_name'') False ''24h Avg'' None (Some (ALIGN_LEFT_MID, 0, 0)) [],
       Obj Detail_avg_24h_lbl False ''--'' None (Some (ALIGN_LEFT_MID, 65, 0)) []]],
     Obj (Local ''col_avg'') False '''' (Some (380, 200)) (Some (ALIGN_RIGHT_MID, 0, 0)) [
      Obj (Local ''avg_header'') False ''Averages'' None (Some (ALIGN_TOP_LEFT, 20, 8)) [],
      Obj (Local ''avg30_row'') False '''' (Some (360, 55)) (Some (ALIGN_TOP_LEFT, 20, 55)) [
       Obj (Local ''avg30_name'') False ''30min'' None (Some (ALIGN_LEFT_MID, 0, 0)) [],
       Obj Detail_avg30_lbl False ''--'' None (Some (ALIGN_LEFT_MID, 55, 0)) []],
      Obj (Local ''avg60_row'') False '''' (Some (360, 55)) (Some (ALIGN_TOP_LEFT, 20, 120)) [
       Obj (Local ''avg60_name'') False ''60min'' None (Some (ALIGN_LEFT_MID, 0, 0)) [],
       Obj Detail_avg60_lbl False ''--'' None (Some (ALIGN_LEFT_MID, 55, 0)) []]],
     Obj (Local ''vline'') False '''' (Some (1, 170)) (Some (ALIGN_CENTER, 0, 0)) []],
    Obj (Local ''bot'') False '''' (Some (780, 200)) (Some (ALIGN_TOP_MID, 0, 250)) [
     Obj (Local ''bot_title'') False ''History (1h, 1 sample/min)'' None (Some (ALIGN_TOP_LEFT, 10, 5)) [],
     Obj Detail_hist_chart True '''' (Some (760, 180)) (Some (ALIGN_BOTTOM_MID, 0, (- 5))) []]]"

definition create_system_page :: lv_obj where
  "create_system_page =
   Obj Sys_root True '''' (Some (800, 480)) (Some (ALIGN_TOP_LEFT, 0, 0)) [
    Obj (Local ''header'') False '''' (Some (800, 30)) (Some (ALIGN_TOP_MID, 0, 0)) [
     Obj Sys_back_btn False '''' (Some (70, 25)) (Some (ALIGN_LEFT_MID, 5, 0)) [
      Obj (Local ''back_lbl'') False ''< BACK'' None (Some (ALIGN_CENTER, 0, 0)) []],
     Obj Sys_title_lbl False ''System Status'' None (Some (ALIGN_CENTER, 0, 0)) []],
    Obj (Local ''panel'') False '''' (Some (780, 410)) (Some (ALIGN_TOP_MID, 0, 40)) [
     Obj (Local ''r1'') False '''' (Some (740, 50)) (Some (ALIGN_TOP_LEFT, 20, 15)) [
      Obj (Local ''r1_lbl'') False ''Uptime'' None (Some (ALIGN_LEFT_MID, 0, 0)) [],
      Obj Sys_uptime_lbl False ''--'' None (Some (ALIGN_LEFT_MID, 120, 0)) []],
     Obj (Local ''r2'') False '''' (Some (740, 50)) (Some (ALIGN_TOP_LEFT, 20, 75)) [
      Obj (Local ''r2_lbl'') False ''CPU Load (10s Avg)'' None (Some (ALIGN_LEFT_MID, 0, 0)) [],
      Obj Sys_cpu_lbl False ''--'' None (Some (ALIGN_LEFT_MID, 150, 0)) []],
     Obj (Local ''r2b'') False '''' (Some (680, 25)) (Some (ALIGN_TOP_LEFT, 20, 145)) [
      Obj Sys_cpu_bar False '''' (Some (680, 12)) (Some (ALIGN_LEFT_MID, 0, 0)) []],
     Obj (Local ''r3'') False '''' (Some (740, 40)) (Some (ALIGN_TOP_LEFT, 20, 170)) [
      Obj (Local ''r3_lbl'') False ''Heap (FreeRTOS)'' None (Some (ALIGN_LEFT_MID, 0, 0)) [],
      Obj Sys_heap_lbl False ''--'' None (Some (ALIGN_LEFT_MID, 120, 0)) []],
     Obj (Local ''r4'') False '''' (Some (740, 40)) (Some (ALIGN_TOP_LEFT, 20, 220)) [
      Obj (Local ''r4_lbl'') False ''Tasks'' None (Some (ALIGN_LEFT_MID, 0, 0)) [],
      Obj Sys_tasks_lbl False ''--'' None (Some (ALIGN_LEFT_MID, 120, 0)) []],
     Obj Sys_tasks_box False '''' (Some (740, 50)) (Some (ALIGN_TOP_LEFT, 20, 265)) [],
     Obj Sys_cpu_chart False '''' (Some (700, 55)) (Some (ALIGN_TOP_LEFT, 20, 320)) [],
     Obj (Local ''r5'') False '''' (Some (740, 40)) (Some (ALIGN_TOP_LEFT, 20, 380)) [
      Obj (Local ''r5_lbl'') False ''LVGL Memory'' None (Some (ALIGN_LEFT_MID, 0, 0)) [],
      Obj Sys_lvgl_mem_lbl False ''--'' None (Some (ALIGN_LEFT_MID, 120, 0)) []]]]"

section \<open>State\<close>

text \<open>What \<open>sprintf\<close> makes of a \<open>float\<close>: the decimals, the value, the unit after it.\<close>

datatype number_text = Dashes | Printed nat rat string

record detail_view =
  detail_title :: string
  detail_cur :: number_text
  detail_unit :: string
  detail_avg_12h :: number_text
  detail_avg_24h :: number_text
  detail_avg30 :: number_text
  detail_avg60 :: number_text
  hist_range :: "int \<times> int"
  hist_points :: "int option list"   \<comment> \<open>None is \<open>LV_CHART_POINT_NONE\<close>\<close>

record sys_view =
  sys_uptime :: "u8 list"
  sys_cpu :: "u8 list"
  sys_bar :: u8
  sys_points :: "u8 list"
  sys_heap :: "u8 list"
  sys_tasks :: "u8 list"
  sys_box :: "u8 list list"
  sys_mem :: "u8 list"

record gui_pages =
  home_root :: lv_obj
  detail_root :: lv_obj
  sys_root :: lv_obj
  chart_fullscreen :: bool
  fs_back_btn :: bool               \<comment> \<open>the pointer is not NULL\<close>
  fs_title_backup :: string
  point_count :: nat
  div_lines :: "nat \<times> nat"
  trend :: "(int \<times> int) list"      \<comment> \<open>the points appended to the two series\<close>
  detail_channel :: nat
  detail :: detail_view
  sysv :: sys_view
  panel :: gui_panel
  cpu :: cpu_load

text \<open>What the kernel and the libraries answer when the system page is refreshed.\<close>

record sys_info =
  hal_tick :: u32
  kheap :: heap4
  task_status :: "(u8 list \<times> nat) list"   \<comment> \<open>name and stack high water mark of every task\<close>
  mem_total :: nat
  mem_free :: nat
  mem_frag :: nat
  run_time :: u32
  got_buffer :: bool
  run_times :: "(u8 list \<times> u32) list"

section \<open>The full-screen chart\<close>

definition chart_fullscreen_event_cb :: "widget \<Rightarrow> gui_pages \<Rightarrow> gui_pages" where
  "chart_fullscreen_event_cb obj p =
     (if obj \<noteq> Chart_container \<and> obj \<noteq> Temp_chart then p
      else if chart_fullscreen p then p
      else let p = p\<lparr>chart_fullscreen := True\<rparr>;
        h = lv_label_set_text Chart_title '''' (home_root p);
        h = lv_obj_align Chart_container ALIGN_TOP_MID 0 40 (lv_obj_set_size Chart_container 790 410 h);
        h = lv_obj_align Temp_chart ALIGN_CENTER 0 0 (lv_obj_set_size Temp_chart 760 380 h);
        p = p\<lparr>point_count := 100, div_lines := (10, 20)\<rparr>;
        p = p\<lparr>fs_title_backup := (case lv_label_get_text Home_label_title h of None \<Rightarrow> '''' | Some t \<Rightarrow> take 63 t)\<rparr>;
        h = lv_label_set_text Home_label_title ''Data Trends'' h;
        h = (if fs_back_btn p then lv_obj_del Fs_back_btn h else h);
        h = lv_obj_create Home_root (Obj Fs_back_btn False '''' (Some (70, 26)) (Some (ALIGN_TOP_LEFT, 0, 0))
              [Obj (Local ''btn_label'') False ''< BACK'' None (Some (ALIGN_CENTER, 0, 0)) []]) h;
        h = fold lv_hide [Temp_label, Humidity_label, Co2_label, Co_label, Fan_switch, Fan_slider, Fan_speed_label,
              Alert_led, Channel_buttons_bar] h
      in p\<lparr>fs_back_btn := True, home_root := h\<rparr>)"

definition back_butten_event_cb :: "gui_pages \<Rightarrow> gui_pages" where
  "back_butten_event_cb p =
     (let p = p\<lparr>chart_fullscreen := False\<rparr>;
        h = lv_label_set_text Chart_title ''Data Trends'' (home_root p);
        h = lv_obj_align Chart_container ALIGN_TOP_LEFT 380 40 (lv_obj_set_size Chart_container 390 310 h);
        h = lv_obj_align Temp_chart ALIGN_TOP_MID 0 32 (lv_obj_set_size Temp_chart 370 260 h);
        p = p\<lparr>point_count := 20, div_lines := (5, 10)\<rparr>;
        h = (if fs_back_btn p then lv_obj_del Fs_back_btn h else h);
        h = lv_label_set_text Home_label_title
              (if fs_title_backup p \<noteq> '''' then fs_title_backup p else ''Grain Warehouse Environment Monitoring System'') h;
        h = fold lv_show [Temp_label, Humidity_label, Co2_label, Co_label, Fan_switch, Fan_speed_label, Fan_slider,
              Alert_led, Channel_buttons_bar, Temp_chart, Chart_title, Chart_container] h
      in p\<lparr>fs_back_btn := False, home_root := h\<rparr>)"

section \<open>The detail page\<close>

record chan_info_t =
  ci_name :: string
  ci_unit :: string
  ci_min :: rat
  ci_max :: rat
  ci_color :: u32

definition chan_info :: "chan_info_t list" where
  "chan_info = [\<lparr>ci_name = ''Temperature'', ci_unit = ''C'', ci_min = -10, ci_max = 60, ci_color = 0xFFA500\<rparr>,
     \<lparr>ci_name = ''Humidity'', ci_unit = ''%'', ci_min = 0, ci_max = 100, ci_color = 0x00BFFF\<rparr>,
     \<lparr>ci_name = ''CO2'', ci_unit = ''ppm'', ci_min = 0, ci_max = 5000, ci_color = 0xAA00AA\<rparr>,
     \<lparr>ci_name = ''CO'', ci_unit = ''ppm'', ci_min = 0, ci_max = 500, ci_color = 0xCC0000\<rparr>]"

text \<open>A \<open>float\<close> converted to the 16-bit \<open>lv_coord_t\<close>: towards zero, then cut to 16 bits, as the target does.\<close>

definition lv_coord :: "rat \<Rightarrow> int" where
  "lv_coord v = sint (word_of_int (if v < 0 then \<lceil>v\<rceil> else \<lfloor>v\<rfloor>) :: 16 word)"

definition average_text :: "rat \<Rightarrow> string \<Rightarrow> number_text" where
  "average_text a u = (if a < 0 then Dashes else Printed 2 a ('' '' @ u))"

definition clamp_point :: "chan_info_t \<Rightarrow> rat \<Rightarrow> int" where
  "clamp_point ci x =
     (let v = lv_coord x;
          v = (if v < lv_coord (ci_min ci) then lv_coord (ci_min ci) else v)
      in if v > lv_coord (ci_max ci) then lv_coord (ci_max ci) else v)"

definition update_detail_page :: "nat \<Rightarrow> gui_pages \<Rightarrow> gui_pages" where
  "update_detail_page ch p =
     (if ch \<ge> CH_MAX then p
      else let ci = chan_info ! ch; g = panel p;
        (a30, a60, a12h, a24h) = my_gui_get_average ch g;
        n = hist_count g ! ch;
        start = (if n < HISTORY_BUCKETS then 0 else hist_head g ! ch);
        d = \<lparr>detail_title = ci_name ci,
             detail_cur = (if has_current_data g then Printed 1 (chan_get ch g) '''' else Dashes),
             detail_unit = ci_unit ci,
             detail_avg_12h = average_text a12h (ci_unit ci), detail_avg_24h = average_text a24h (ci_unit ci),
             detail_avg30 = average_text a30 (ci_unit ci), detail_avg60 = average_text a60 (ci_unit ci),
             hist_range = (lv_coord (ci_min ci), lv_coord (ci_max ci)),
             hist_points = map (\<lambda>i. Some (clamp_point ci (history g ! ch ! ((start + i) mod HISTORY_BUCKETS)))) [0..<n]
               @ replicate (HISTORY_BUCKETS - n) None\<rparr>
      in p\<lparr>detail := d, detail_root := lv_obj_set_hidden (n = 0) Detail_hist_chart (detail_root p)\<rparr>)"

definition detail_channel_btn_event_cb :: "nat \<Rightarrow> gui_pages \<Rightarrow> gui_pages" where
  "detail_channel_btn_event_cb ch p =
     (if chart_fullscreen p then p
      else if ch \<ge> CH_MAX then p
      else let p = update_detail_page ch (p\<lparr>detail_channel := ch\<rparr>)
        in p\<lparr>home_root := set_flag_recursive True (home_root p), detail_root := lv_show Detail_root (detail_root p)\<rparr>)"

definition detail_back_event_cb :: "gui_pages \<Rightarrow> gui_pages" where
  "detail_back_event_cb p =
     (let d = lv_hide Detail_root (detail_root p);
          h = set_flag_recursive False (lv_show Home_root (home_root p))
      in p\<lparr>detail_root := lv_show Detail_hist_chart d, home_root := h\<rparr>)"

section \<open>The system page\<close>

text \<open>The kernel fills the array only if it has room for every task.\<close>

definition uxTaskGetSystemState :: "nat \<Rightarrow> 'a list \<Rightarrow> 'a list" where
  "uxTaskGetSystemState uxArraySize tasks = (if uxArraySize \<ge> length tasks then tasks else [])"

definition pad2 :: "u8 list \<Rightarrow> u8 list" where
  "pad2 t = replicate (2 - length t) 0x30 @ t"

definition uptime_text :: "u32 \<Rightarrow> u8 list" where
  "uptime_text tick = (let sec = tick div 1000 in
     dec_digits (unat (sec div 3600)) @ ascii ''h '' @ pad2 (dec_digits (unat ((sec mod 3600) div 60))) @ ascii ''m ''
     @ pad2 (dec_digits (unat (sec mod 60))) @ ascii ''s'')"

definition heap_text :: "heap4 \<Rightarrow> u8 list" where
  "heap_text h = ascii ''Used '' @ dec_digits (unat (configTOTAL_HEAP_SIZE - xPortGetFreeHeapSize h)) @ ascii '' / ''
     @ dec_digits (unat configTOTAL_HEAP_SIZE) @ ascii '' B  (Min free ever ''
     @ dec_digits (unat (xPortGetMinimumEverFreeHeapSize h)) @ ascii '' B)''"

definition task_text :: "u8 list \<times> nat \<Rightarrow> u8 list" where
  "task_text t = take 23 (fst t @ replicate (10 - length (fst t)) 0x20 @ ascii '' '' @ dec_digits (snd t))"

definition mem_text :: "sys_info \<Rightarrow> u8 list" where
  "mem_text si = ascii ''LVGL total '' @ dec_digits (mem_total si) @ ascii '' B  free '' @ dec_digits (mem_free si)
     @ ascii '' B  used '' @ dec_digits (mem_total si - mem_free si) @ ascii '' B  frag '' @ dec_digits (mem_frag si) @ ascii ''%''"

definition update_system_page :: "sys_info \<Rightarrow> gui_pages \<Rightarrow> gui_pages" where
  "update_system_page si p =
     (let load = cpu_avg_1min (cpu p);
          oldest = (if cpu_hist_count (cpu p) < CPU_BUF_SIZE then 0 else cpu_hist_head (cpu p))
      in p\<lparr>sysv := \<lparr>sys_uptime = uptime_text (hal_tick si),
           sys_cpu = dec_digits (unat load) @ ascii '' %'', sys_bar = load,
           sys_points = map (\<lambda>i. cpu_hist_buf (cpu p) ! ((oldest + i) mod CPU_BUF_SIZE)) [0..<cpu_hist_count (cpu p)]
             @ drop (cpu_hist_count (cpu p)) (sys_points (sysv p)),
           sys_heap = heap_text (kheap si), sys_tasks = dec_digits (length (task_status si)) @ ascii '' task(s)'',
           sys_box = map task_text (uxTaskGetSystemState 8 (task_status si)), sys_mem = mem_text si\<rparr>\<rparr>)"

definition sys_back_event_cb :: "gui_pages \<Rightarrow> gui_pages" where
  "sys_back_event_cb p =
     p\<lparr>sys_root := lv_hide Sys_root (sys_root p), home_root := set_flag_recursive False (lv_show Home_root (home_root p)),
       detail_root := lv_show Detail_hist_chart (detail_root p)\<rparr>"

definition sys_btn_event_cb :: "sys_info \<Rightarrow> gui_pages \<Rightarrow> gui_pages" where
  "sys_btn_event_cb si p =
     (if chart_fullscreen p then p
      else let p = update_system_page si p
        in p\<lparr>home_root := set_flag_recursive True (home_root p), sys_root := lv_show Sys_root (sys_root p)\<rparr>)"

definition sys_refresh_timer_cb :: "sys_info \<Rightarrow> gui_pages \<Rightarrow> gui_pages" where
  "sys_refresh_timer_cb si p =
     (if \<not> lv_obj_is_visible Sys_root (sys_root p) then p
      else let (instant, c) = sys_calc_cpu_pct (run_time si) (length (task_status si)) (got_buffer si) (run_times si) (cpu p)
        in update_system_page si (p\<lparr>cpu := cpu_push instant c\<rparr>))"

section \<open>Averages, and the start\<close>

definition update_chart_data :: "gui_pages \<Rightarrow> gui_pages" where
  "update_chart_data p =
     (if \<not> has_current_data (panel p) then p
      else p\<lparr>trend := trend p @ [(lv_coord (chan_get CH_TEMP (panel p)), lv_coord (chan_get CH_HUM (panel p)))]\<rparr>)"

text \<open>An average from the data task with all the pages it refreshes.\<close>

definition pages_average :: "env_avg_t \<Rightarrow> sys_info \<Rightarrow> gui_pages \<Rightarrow> gui_pages" where
  "pages_average avg si p =
     (let p = update_chart_data (p\<lparr>panel := apply_avg_to_gui avg (panel p)\<rparr>);
          p = (if lv_obj_is_visible Detail_root (detail_root p) then update_detail_page (detail_channel p) p else p)
      in if lv_obj_is_visible Sys_root (sys_root p) then update_system_page si p else p)"

definition my_gui :: "gui_panel \<Rightarrow> gui_pages" where
  "my_gui g = update_chart_data
     \<lparr>home_root = home_page, detail_root = create_detail_page, sys_root = create_system_page,
      chart_fullscreen = False, fs_back_btn = False, fs_title_backup = '''', point_count = 20, div_lines = (5, 10),
      trend = [], detail_channel = 0,
      detail = \<lparr>detail_title = ''Detail'', detail_cur = Dashes, detail_unit = '''', detail_avg_12h = Dashes,
        detail_avg_24h = Dashes, detail_avg30 = Dashes, detail_avg60 = Dashes, hist_range = (0, 100),
        hist_points = replicate HISTORY_BUCKETS None\<rparr>,
      sysv = \<lparr>sys_uptime = ascii ''--'', sys_cpu = ascii ''--'', sys_bar = 0, sys_points = [], sys_heap = ascii ''--'',
        sys_tasks = ascii ''--'', sys_box = [], sys_mem = ascii ''--''\<rparr>,
      panel = update_sensor_display (history_init g),
      cpu = \<lparr>last_total_runtime = 0, last_idle_runtime = 0, cpu_hist_buf = replicate CPU_BUF_SIZE 0, cpu_hist_head = 0, cpu_hist_count = 0\<rparr>\<rparr>"

text \<open>The clicks and the library's timer, as far as a widget is there to be touched.\<close>

datatype page_event = Click_chart widget | Click_fs_back | Click_channel nat | Click_detail_back | Click_system | Click_sys_back
  | Timer_500ms | Average env_avg_t

definition touchable :: "page_event \<Rightarrow> gui_pages \<Rightarrow> bool" where
  "touchable ev p = (case ev of
     Click_chart w \<Rightarrow> (w = Chart_container \<or> w = Temp_chart) \<and> lv_obj_is_visible w (home_root p)
   | Click_fs_back \<Rightarrow> lv_obj_is_visible Fs_back_btn (home_root p)
   | Click_channel ch \<Rightarrow> ch < CH_MAX \<and> lv_obj_is_visible Channel_buttons_bar (home_root p)
   | Click_detail_back \<Rightarrow> lv_obj_is_visible Detail_back_btn (detail_root p)
   | Click_system \<Rightarrow> lv_obj_is_visible Channel_buttons_bar (home_root p)
   | Click_sys_back \<Rightarrow> lv_obj_is_visible Sys_back_btn (sys_root p)
   | _ \<Rightarrow> True)"

definition page_event :: "page_event \<Rightarrow> sys_info \<Rightarrow> gui_pages \<Rightarrow> gui_pages" where
  "page_event ev si p = (case ev of
     Click_chart w \<Rightarrow> chart_fullscreen_event_cb w p
   | Click_fs_back \<Rightarrow> back_butten_event_cb p
   | Click_channel ch \<Rightarrow> detail_channel_btn_event_cb ch p
   | Click_detail_back \<Rightarrow> detail_back_event_cb p
   | Click_system \<Rightarrow> sys_btn_event_cb si p
   | Click_sys_back \<Rightarrow> sys_back_event_cb p
   | Timer_500ms \<Rightarrow> sys_refresh_timer_cb si p
   | Average a \<Rightarrow> pages_average a si p)"

text \<open>What can happen from the start of the panel on, with the averages that have arrived.\<close>

inductive pages_reach :: "gui_panel \<Rightarrow> env_avg_t list \<Rightarrow> gui_pages \<Rightarrow> bool" for g where
  pages_start: "pages_reach g [] (my_gui g)"
| pages_step: "pages_reach g as p \<Longrightarrow> touchable ev p \<Longrightarrow>
    pages_reach g (case ev of Average a \<Rightarrow> as @ [a] | _ \<Rightarrow> as) (page_event ev si p)"

section \<open>One page at a time\<close>

lemmas lv_defs = lv_obj_set_hidden_def lv_label_set_text_def lv_obj_set_size_def lv_obj_align_def lv_obj_create_def
lemmas home_defs = home_page_def create_sensor_section_def create_fan_control_section_def create_alert_section_def
  create_chart_section_def create_channel_buttons_def

text \<open>The home page with the chart over the whole screen.\<close>

definition full_page :: lv_obj where
  "full_page = fold lv_hide [Temp_label, Humidity_label, Co2_label, Co_label, Fan_switch, Fan_slider, Fan_speed_label,
     Alert_led, Channel_buttons_bar]
   (lv_obj_create Home_root (Obj Fs_back_btn False '''' (Some (70, 26)) (Some (ALIGN_TOP_LEFT, 0, 0))
      [Obj (Local ''btn_label'') False ''< BACK'' None (Some (ALIGN_CENTER, 0, 0)) []])
   (lv_label_set_text Home_label_title ''Data Trends''
   (lv_obj_align Temp_chart ALIGN_CENTER 0 0 (lv_obj_set_size Temp_chart 760 380
   (lv_obj_align Chart_container ALIGN_TOP_MID 0 40 (lv_obj_set_size Chart_container 790 410
   (lv_label_set_text Chart_title '''' home_page)))))))"

abbreviation main_title :: string where
  "main_title \<equiv> ''Grain Warehouse Environment Monitoring System''"

lemma home_title: "lv_label_get_text Home_label_title
  (lv_obj_align Temp_chart ALIGN_CENTER 0 0 (lv_obj_set_size Temp_chart 760 380
   (lv_obj_align Chart_container ALIGN_TOP_MID 0 40 (lv_obj_set_size Chart_container 790 410
   (lv_label_set_text Chart_title '''' home_page))))) = Some main_title"
  by (simp add: lv_defs home_page_def)

lemma full_page_back: "fold lv_show [Temp_label, Humidity_label, Co2_label, Co_label, Fan_switch, Fan_speed_label, Fan_slider,
     Alert_led, Channel_buttons_bar, Temp_chart, Chart_title, Chart_container]
   (lv_label_set_text Home_label_title main_title (lv_obj_del Fs_back_btn
   (lv_obj_align Temp_chart ALIGN_TOP_MID 0 32 (lv_obj_set_size Temp_chart 370 260
   (lv_obj_align Chart_container ALIGN_TOP_LEFT 380 40 (lv_obj_set_size Chart_container 390 310
   (lv_label_set_text Chart_title ''Data Trends'' full_page))))))) = home_page"
  by (simp add: full_page_def lv_defs home_defs)

lemma home_visible:
  "lv_obj_is_visible Chart_container home_page" "lv_obj_is_visible Temp_chart home_page" "lv_obj_is_visible Channel_buttons_bar home_page"
  "\<not> lv_obj_is_visible Fs_back_btn home_page" "lv_obj_is_visible Home_root home_page"
  "lv_obj_is_visible Chart_container full_page" "lv_obj_is_visible Temp_chart full_page" "\<not> lv_obj_is_visible Channel_buttons_bar full_page"
  "lv_obj_is_visible Fs_back_btn full_page" "lv_obj_is_visible Home_root full_page"
  by (simp_all add: full_page_def lv_defs home_defs upt_rec)

lemma hidden_all: "\<not> lv_obj_is_visible w (set_flag_recursive True x)"
  by (cases x) simp

lemma show_home: "set_flag_recursive False (lv_show Home_root (set_flag_recursive True home_page)) = home_page"
  by (simp add: lv_defs home_defs)

definition detail_tree :: "bool \<Rightarrow> bool \<Rightarrow> lv_obj" where
  "detail_tree b c = lv_obj_set_hidden c Detail_hist_chart (lv_obj_set_hidden b Detail_root create_detail_page)"

definition sys_tree :: "bool \<Rightarrow> lv_obj" where
  "sys_tree b = lv_obj_set_hidden b Sys_root create_system_page"

lemma detail_tree_simps [simp]:
  "lv_obj_set_hidden x Detail_root (detail_tree b c) = detail_tree x c"
  "lv_obj_set_hidden x Detail_hist_chart (detail_tree b c) = detail_tree b x"
  "lv_obj_is_visible Detail_root (detail_tree b c) \<longleftrightarrow> \<not> b" "lv_obj_is_visible Detail_back_btn (detail_tree b c) \<longleftrightarrow> \<not> b"
  by (simp_all add: detail_tree_def lv_defs create_detail_page_def)

lemma sys_tree_simps [simp]:
  "lv_obj_set_hidden x Sys_root (sys_tree b) = sys_tree x" "lv_obj_is_visible Sys_root (sys_tree b) \<longleftrightarrow> \<not> b"
  "lv_obj_is_visible Sys_back_btn (sys_tree b) \<longleftrightarrow> \<not> b"
  by (simp_all add: sys_tree_def lv_defs create_system_page_def)

lemma start_trees: "create_detail_page = detail_tree True True" "create_system_page = sys_tree True"
  by (simp_all add: detail_tree_def sys_tree_def lv_defs create_detail_page_def create_system_page_def)

text \<open>The page that is shown, and what a touch does to it.\<close>

datatype shown = Home | Full | Detail | System

fun home_of :: "shown \<Rightarrow> lv_obj" where
  "home_of Home = home_page"
| "home_of Full = full_page"
| "home_of Detail = set_flag_recursive True home_page"
| "home_of System = set_flag_recursive True home_page"

definition on_page :: "shown \<Rightarrow> gui_pages \<Rightarrow> bool" where
  "on_page s p \<longleftrightarrow> home_root p = home_of s \<and> chart_fullscreen p = (s = Full) \<and> fs_back_btn p = (s = Full) \<and>
     (s = Full \<longrightarrow> fs_title_backup p = main_title) \<and> point_count p = (if s = Full then 100 else 20) \<and>
     div_lines p = (if s = Full then (10, 20) else (5, 10)) \<and>
     (\<exists>c. detail_root p = detail_tree (s \<noteq> Detail) c) \<and> sys_root p = sys_tree (s \<noteq> System)"

fun page_next :: "shown \<Rightarrow> page_event \<Rightarrow> shown option" where
  "page_next Home (Click_chart w) = (if w = Chart_container \<or> w = Temp_chart then Some Full else None)"
| "page_next Home (Click_channel ch) = (if ch < 4 then Some Detail else None)"
| "page_next Home Click_system = Some System"
| "page_next Full (Click_chart w) = (if w = Chart_container \<or> w = Temp_chart then Some Full else None)"
| "page_next Full Click_fs_back = Some Home"
| "page_next Detail Click_detail_back = Some Home"
| "page_next System Click_sys_back = Some Home"
| "page_next s Timer_500ms = Some s"
| "page_next s (Average a) = Some s"
| "page_next s ev = None"

lemma start_shows: "on_page Home (my_gui g)"
  by (auto simp: on_page_def my_gui_def update_chart_data_def start_trees)

lemma update_detail_form:
  obtains d b where "update_detail_page ch p = p\<lparr>detail := d, detail_root := lv_obj_set_hidden b Detail_hist_chart (detail_root p)\<rparr>"
  | "update_detail_page ch p = p"
proof (cases "ch \<ge> CH_MAX")
  case False
  obtain a b c d where "my_gui_get_average ch (panel p) = (a, b, c, d)" by (metis surj_pair)
  then show thesis using False that(1) by (simp add: update_detail_page_def Let_def)
qed (use that(2) in \<open>simp add: update_detail_page_def\<close>)

lemma update_detail_trees:
  "home_root (update_detail_page ch p) = home_root p" "sys_root (update_detail_page ch p) = sys_root p"
  "chart_fullscreen (update_detail_page ch p) = chart_fullscreen p" "fs_back_btn (update_detail_page ch p) = fs_back_btn p"
  "fs_title_backup (update_detail_page ch p) = fs_title_backup p" "point_count (update_detail_page ch p) = point_count p"
  "div_lines (update_detail_page ch p) = div_lines p" "detail_channel (update_detail_page ch p) = detail_channel p"
  "panel (update_detail_page ch p) = panel p"
  "detail_root p = detail_tree b c \<Longrightarrow> \<exists>c. detail_root (update_detail_page ch p) = detail_tree b c"
  by (cases rule: update_detail_form [of ch p]; auto)+

lemma update_system_trees:
  "home_root (update_system_page si p) = home_root p" "sys_root (update_system_page si p) = sys_root p"
  "detail_root (update_system_page si p) = detail_root p"
  "chart_fullscreen (update_system_page si p) = chart_fullscreen p" "fs_back_btn (update_system_page si p) = fs_back_btn p"
  "fs_title_backup (update_system_page si p) = fs_title_backup p" "point_count (update_system_page si p) = point_count p"
  "div_lines (update_system_page si p) = div_lines p"
  by (simp_all add: update_system_page_def Let_def)

lemma shows_detail:
  assumes "on_page s p"
  shows "on_page s (update_detail_page ch p)"
proof -
  obtain c where "detail_root p = detail_tree (s \<noteq> Detail) c" using assms by (auto simp: on_page_def)
  then have "\<exists>c. detail_root (update_detail_page ch p) = detail_tree (s \<noteq> Detail) c" by (rule update_detail_trees(10))
  then show ?thesis using assms by (simp add: on_page_def update_detail_trees(1-9))
qed

lemma shows_system: "on_page s p \<Longrightarrow> on_page s (update_system_page si p)"
  by (simp add: on_page_def update_system_trees)

lemma shows_fields: "on_page s (p\<lparr>trend := t, panel := g\<rparr>) = on_page s p" "on_page s (p\<lparr>panel := g\<rparr>) = on_page s p"
  "on_page s (p\<lparr>cpu := c\<rparr>) = on_page s p" "on_page s (p\<lparr>trend := t\<rparr>) = on_page s p"
  "on_page s (p\<lparr>detail_channel := n\<rparr>) = on_page s p"
  by (simp_all add: on_page_def)

lemma shows_average: "on_page s p \<Longrightarrow> on_page s (pages_average a si p)"
  by (simp add: pages_average_def Let_def update_chart_data_def shows_fields shows_detail shows_system)

lemma shows_timer: "on_page s p \<Longrightarrow> on_page s (sys_refresh_timer_cb si p)"
  by (simp add: sys_refresh_timer_cb_def shows_fields shows_system split: prod.split)

lemma enter_full:
  assumes "on_page Home p" "w = Chart_container \<or> w = Temp_chart"
  shows "on_page Full (chart_fullscreen_event_cb w p)"
proof -
  have h: "home_root p = home_page" "\<not> chart_fullscreen p" "\<not> fs_back_btn p" using assms(1) by (simp_all add: on_page_def)
  have "home_root (chart_fullscreen_event_cb w p) = full_page" "fs_title_backup (chart_fullscreen_event_cb w p) = main_title"
    using assms(2) h home_title by (auto simp: chart_fullscreen_event_cb_def Let_def full_page_def simp del: fold_simps)
  then show ?thesis using assms h by (auto simp: on_page_def chart_fullscreen_event_cb_def Let_def simp del: fold_simps)
qed

lemma leave_full:
  assumes "on_page Full p"
  shows "on_page Home (back_butten_event_cb p)"
proof -
  have h: "home_root p = full_page" "fs_back_btn p" "fs_title_backup p = main_title" using assms by (simp_all add: on_page_def)
  have "home_root (back_butten_event_cb p) = home_page"
    using h full_page_back by (simp add: back_butten_event_cb_def Let_def del: fold_simps)
  then show ?thesis using assms by (auto simp: on_page_def back_butten_event_cb_def Let_def simp del: fold_simps)
qed

lemma touchable_page:
  assumes "on_page s p"
  shows "touchable ev p \<longleftrightarrow> page_next s ev \<noteq> None"
  using assms hidden_all home_visible by (cases s; cases ev) (auto simp: touchable_def on_page_def)

lemma touch_step:
  assumes "on_page s p" "page_next s ev = Some s'"
  shows "on_page s' (page_event ev si p)"
proof (cases ev)
  case (Click_chart w)
  then have "s = Home \<and> (w = Chart_container \<or> w = Temp_chart) \<or> s = Full" "s' = Full"
    using assms(2) by (cases s; auto split: if_splits)+
  moreover have "chart_fullscreen_event_cb w p = p" if "s = Full"
    using that assms(1) by (simp add: chart_fullscreen_event_cb_def on_page_def)
  ultimately show ?thesis using assms(1) enter_full by (auto simp: Click_chart page_event_def)
next
  case Click_fs_back
  then have "s = Full" "s' = Home" using assms(2) by (cases s; simp)+
  then show ?thesis using assms(1) leave_full Click_fs_back by (simp add: page_event_def)
next
  case (Click_channel ch)
  then have s: "s = Home" "s' = Detail" "ch < 4" using assms(2) by (cases s; simp split: if_splits)+
  then have "on_page Home (update_detail_page ch (p\<lparr>detail_channel := ch\<rparr>))" using assms(1) by (intro shows_detail) (simp add: shows_fields)
  then show ?thesis using s Click_channel assms(1)
    by (auto simp: on_page_def page_event_def detail_channel_btn_event_cb_def Let_def)
next
  case Click_detail_back
  then have "s = Detail" "s' = Home" using assms(2) by (cases s; simp)+
  then show ?thesis using assms(1) show_home Click_detail_back by (auto simp: on_page_def page_event_def detail_back_event_cb_def Let_def)
next
  case Click_system
  then have s: "s = Home" "s' = System" using assms(2) by (cases s; simp)+
  then have "on_page Home (update_system_page si p)" using assms(1) by (intro shows_system) simp
  then show ?thesis using s Click_system assms(1) by (auto simp: on_page_def page_event_def sys_btn_event_cb_def Let_def)
next
  case Click_sys_back
  then have "s = System" "s' = Home" using assms(2) by (cases s; simp)+
  then show ?thesis using assms(1) show_home Click_sys_back by (auto simp: on_page_def page_event_def sys_back_event_cb_def)
next
  case Timer_500ms
  then have "s' = s" using assms(2) by (cases s) simp_all
  then show ?thesis using Timer_500ms shows_timer [OF assms(1)] by (simp add: page_event_def)
next
  case (Average a)
  then have "s' = s" using assms(2) by (cases s) simp_all
  then show ?thesis using Average shows_average [OF assms(1)] by (simp add: page_event_def)
qed

lemma on_page_unique: "on_page s p \<Longrightarrow> on_page s' p \<Longrightarrow> s = s'"
proof -
  assume a: "on_page s p" "on_page s' p"
  have "(s \<noteq> Detail) = (s' \<noteq> Detail)" using a by (auto simp: on_page_def) (metis detail_tree_simps(3))+
  moreover have "(s \<noteq> System) = (s' \<noteq> System)" using a unfolding on_page_def by (metis sys_tree_simps(2))
  moreover have "(s = Full) = (s' = Full)" using a by (auto simp: on_page_def)
  ultimately show "s = s'" by (cases s; cases s') auto
qed

lemma reach_page: "pages_reach g as p \<Longrightarrow> \<exists>s. on_page s p"
proof (induction rule: pages_reach.induct)
  case pages_start
  then show ?case using start_shows by blast
next
  case (pages_step as p ev si)
  then obtain s where s: "on_page s p" by blast
  then obtain s' where "page_next s ev = Some s'" using touchable_page [OF s, of ev] pages_step(2) by auto
  then show ?case using touch_step [OF s] by blast
qed

text \<open>C13: on every reachable state the panel shows exactly one of four pages (home, full-screen chart,
  detail, system), what can be touched is what that page offers, and every event leads to the
  page the diagram of the pages gives.\<close>

theorem pages_follow_diagram:
  assumes "pages_reach g as p"
  shows "\<exists>!s. on_page s p \<and> (\<forall>ev. touchable ev p = (page_next s ev \<noteq> None)) \<and>
    (\<forall>ev si. case page_next s ev of None \<Rightarrow> True | Some s' \<Rightarrow> on_page s' (page_event ev si p))"
proof -
  obtain s where s: "on_page s p" using reach_page [OF assms] by blast
  have "case page_next s ev of None \<Rightarrow> True | Some s' \<Rightarrow> on_page s' (page_event ev si p)" for ev si
    using touch_step [OF s, of ev _ si] by (simp split: option.split)
  then show ?thesis using s on_page_unique touchable_page [OF s] by blast
qed


lemma pages_follow_diagram_witness:
  "\<exists>s. on_page s (my_gui gui_boot) \<and> touchable (Click_channel 2) (my_gui gui_boot) = (page_next s (Click_channel 2) \<noteq> None)"
  using pages_follow_diagram [OF pages_start, of gui_boot] by blast


section \<open>What the pages show\<close>

text \<open>The slots of a ring from the oldest to the newest.\<close>

lemma ring_chronological:
  assumes "ring_holds 60 buf h c xs"
  shows "map (\<lambda>i. buf ! (((if c < 60 then 0 else h) + i) mod 60)) [0..<c] = drop (length xs - 60) xs"
proof (rule nth_equalityI)
  have a: "h = length xs mod 60" "c = min 60 (length xs)" "\<And>i. i < c \<Longrightarrow> buf ! ((length xs - 1 - i) mod 60) = rev xs ! i"
    using assms by (auto simp: ring_holds_def)
  then show "length (map (\<lambda>i. buf ! (((if c < 60 then 0 else h) + i) mod 60)) [0..<c]) = length (drop (length xs - 60) xs)" by simp
  fix i assume "i < length (map (\<lambda>i. buf ! (((if c < 60 then 0 else h) + i) mod 60)) [0..<c])"
  then have i: "i < c" by simp
  define j where "j = c - 1 - i"
  have j: "j < c" "length xs - 1 - j = length xs - c + i" "length xs - Suc j = length xs - c + i" using i a(2) by (auto simp: j_def)
  have "((if c < 60 then 0 else h) + i) mod 60 = (length xs - c + i) mod 60"
  proof (cases "c < 60")
    case False
    then have "c = 60" "60 \<le> length xs" using a(2) by simp_all
    moreover from this have "h = (length xs - 60) mod 60" using a(1) by (simp add: le_mod_geq)
    moreover have "((length xs - 60) mod 60 + i) mod 60 = (length xs - 60 + i) mod 60" by (rule mod_add_left_eq)
    ultimately show ?thesis by simp
  qed (use a(2) in simp)
  then have "buf ! (((if c < 60 then 0 else h) + i) mod 60) = rev xs ! j" using a(3) [OF j(1)] j(2) by simp
  also have "\<dots> = xs ! (length xs - c + i)" using j a(2) by (simp add: rev_nth)
  also have "length xs - c = length xs - 60" using a(2) by simp
  finally show "map (\<lambda>i. buf ! (((if c < 60 then 0 else h) + i) mod 60)) [0..<c] ! i = drop (length xs - 60) xs ! i" using i a(2) by simp
qed

text \<open>The chart of a channel after the averages \<open>as\<close>: a point for each of the last 60, then gaps.\<close>

definition channel_chart :: "nat \<Rightarrow> env_avg_t list \<Rightarrow> int option list" where
  "channel_chart ch as = map (\<lambda>a. Some (clamp_point (chan_info ! ch) (chan_pick_value_from_avg ch a))) (drop (length as - 60) as)
     @ replicate (60 - length as) None"

lemma detail_points:
  assumes "remembers as (panel p)" "ch < 4"
  shows "hist_points (detail (update_detail_page ch p)) = channel_chart ch as"
proof -
  let ?g = "panel p" and ?xs = "map (chan_pick_value_from_avg ch) as"
  have r: "ring_holds 60 (history ?g ! ch) (hist_head ?g ! ch) (hist_count ?g ! ch) ?xs"
    using assms by (simp add: remembers_def row_holds_def mrow_def)
  then have c: "hist_count ?g ! ch = min 60 (length as)" by (simp add: ring_holds_def)
  define F where "F v = Some (clamp_point (chan_info ! ch) v)" for v
  define ix where "ix i = ((if hist_count ?g ! ch < 60 then 0 else hist_head ?g ! ch) + i) mod 60" for i
  have "map (\<lambda>i. F (history ?g ! ch ! ix i)) [0..<hist_count ?g ! ch] = map F (drop (length as - 60) ?xs)"
    using ring_chronological [OF r] unfolding ix_def by (metis (no_types, lifting) length_map map_eq_conv map_map comp_apply)
  moreover have "60 - min 60 (length as) = 60 - length as" by simp
  ultimately show ?thesis using assms(2) c
    by (simp add: update_detail_page_def channel_chart_def Let_def F_def ix_def drop_map split: prod.split)
qed

lemma start_remembers: "length (cur_values g) = 4 \<Longrightarrow> remembers [] (panel (my_gui g))"
proof -
  assume "length (cur_values g) = 4"
  then have "remembers [] (update_sensor_display (history_init g))"
    using remembers_init [of g] by (simp add: remembers_def)
  then show ?thesis by (simp add: my_gui_def update_chart_data_def)
qed

lemma panel_clicks:
  "panel (chart_fullscreen_event_cb w p) = panel p" "panel (back_butten_event_cb p) = panel p"
  "panel (detail_back_event_cb p) = panel p" "panel (sys_back_event_cb p) = panel p" "panel (update_system_page si p) = panel p"
  by (simp_all add: chart_fullscreen_event_cb_def back_butten_event_cb_def detail_back_event_cb_def sys_back_event_cb_def
    update_system_page_def Let_def del: fold_simps)

lemma panel_pages:
  "panel (detail_channel_btn_event_cb ch p) = panel p" "panel (sys_btn_event_cb si p) = panel p"
  "panel (sys_refresh_timer_cb si p) = panel p" "panel (pages_average a si p) = apply_avg_to_gui a (panel p)"
  by (simp_all add: detail_channel_btn_event_cb_def sys_btn_event_cb_def sys_refresh_timer_cb_def pages_average_def
    update_chart_data_def Let_def panel_clicks update_detail_trees(9) split: prod.split)

lemma panel_event: "panel (page_event ev si p) = (case ev of Average a \<Rightarrow> apply_avg_to_gui a (panel p) | _ \<Rightarrow> panel p)"
  by (cases ev) (simp_all add: page_event_def panel_clicks panel_pages)

lemma reach_remembers: "pages_reach g as p \<Longrightarrow> length (cur_values g) = 4 \<Longrightarrow> remembers as (panel p)"
proof (induction rule: pages_reach.induct)
  case pages_start
  then show ?case by (rule start_remembers)
next
  case (pages_step as p ev si)
  then show ?case by (cases ev) (simp_all add: panel_event remembers_step)
qed

text \<open>The detail page is up to date: writing it again would change nothing.\<close>

definition detail_fresh :: "gui_pages \<Rightarrow> bool" where
  "detail_fresh p \<longleftrightarrow> detail_channel p < 4 \<and> detail p = detail (update_detail_page (detail_channel p) p)"

lemma detail_panel: "panel p = panel q \<Longrightarrow> ch < 4 \<Longrightarrow> detail (update_detail_page ch p) = detail (update_detail_page ch q)"
  by (simp add: update_detail_page_def Let_def split: prod.split)

lemma fresh_update: "detail_channel p < 4 \<Longrightarrow> detail_fresh (update_detail_page (detail_channel p) p)"
  unfolding detail_fresh_def update_detail_trees
  by (metis detail_panel update_detail_trees(9))

lemma fresh_congruence: "detail_fresh p \<Longrightarrow> detail q = detail p \<Longrightarrow> detail_channel q = detail_channel p \<Longrightarrow> panel q = panel p \<Longrightarrow> detail_fresh q"
  unfolding detail_fresh_def by (metis detail_panel)

lemma system_detail: "detail (update_system_page si p) = detail p" "detail_channel (update_system_page si p) = detail_channel p"
  "panel (update_system_page si p) = panel p" "detail_root (update_system_page si p) = detail_root p"
  by (simp_all add: update_system_page_def Let_def)

lemma reach_detail_fresh: "pages_reach g as p \<Longrightarrow> on_page Detail p \<Longrightarrow> detail_fresh p"
proof (induction rule: pages_reach.induct)
  case pages_start
  then show ?case using on_page_unique [OF _ start_shows] by blast
next
  case (pages_step as p ev si)
  obtain s where s: "on_page s p" using reach_page [OF pages_step(1)] by blast
  obtain s' where n: "page_next s ev = Some s'" using touchable_page [OF s, of ev] pages_step(2) by auto
  note s' = n touch_step [OF s n, of si]
  have "s' = Detail" by (rule on_page_unique [OF s'(2) pages_step(4)])
  then have c: "s = Home \<and> (\<exists>ch < 4. ev = Click_channel ch) \<or> s = Detail \<and> (ev = Timer_500ms \<or> (\<exists>a. ev = Average a))"
    using s'(1) by (cases s; cases ev) (auto split: if_splits)
  show ?case
  proof (cases "s = Home")
    case True
    then obtain ch where ch: "ev = Click_channel ch" "ch < 4" using c by auto
    have "detail_fresh (update_detail_page ch (p\<lparr>detail_channel := ch\<rparr>))" using fresh_update [of "p\<lparr>detail_channel := ch\<rparr>"] ch(2) by simp
    then show ?thesis
      by (rule fresh_congruence) (use ch s True in \<open>simp_all add: on_page_def page_event_def detail_channel_btn_event_cb_def Let_def\<close>)
  next
    case False
    then have sd: "s = Detail" and f: "detail_fresh p" using c s pages_step(3) by auto
    then have vis: "lv_obj_is_visible Detail_root (detail_root p)" "\<not> lv_obj_is_visible Sys_root (sys_root p)" using s by (auto simp: on_page_def)
    show ?thesis
    proof (cases "ev = Timer_500ms")
      case True
      then show ?thesis using f vis(2) by (simp add: page_event_def sys_refresh_timer_cb_def)
    next
      case False
      then obtain a where a: "ev = Average a" using c sd by auto
      define q where "q = update_chart_data (p\<lparr>panel := apply_avg_to_gui a (panel p)\<rparr>)"
      have q: "detail_channel q = detail_channel p" "detail_root q = detail_root p" "sys_root q = sys_root p"
        by (simp_all add: q_def update_chart_data_def)
      have "page_event ev si p = update_detail_page (detail_channel q) q"
        using vis q by (simp add: a page_event_def pages_average_def Let_def q_def [symmetric] update_detail_trees)
      moreover have "detail_channel q < 4" using f q by (simp add: detail_fresh_def)
      ultimately show ?thesis using fresh_update [of q] by simp
    qed
  qed
qed

text \<open>C14: whenever the detail page of a channel is shown, its title and unit are the channel's and its
  chart holds, in the order of their arrival, the values of the last 60 averages received since the
  start, each cut to the range of the chart, and gaps where there were fewer.\<close>

theorem detail_page_current:
  assumes "pages_reach g as p" "length (cur_values g) = 4" "lv_obj_is_visible Detail_root (detail_root p)"
  shows "detail_channel p < 4 \<and> detail_title (detail p) = ci_name (chan_info ! detail_channel p) \<and>
    detail_unit (detail p) = ci_unit (chan_info ! detail_channel p) \<and>
    hist_points (detail p) = channel_chart (detail_channel p) as"
proof -
  obtain s where s: "on_page s p" using reach_page [OF assms(1)] by blast
  then have "s = Detail" using assms(3) by (auto simp: on_page_def)
  then have f: "detail_fresh p" using reach_detail_fresh [OF assms(1)] s by blast
  then have ch: "detail_channel p < 4" by (simp add: detail_fresh_def)
  have "hist_points (detail p) = channel_chart (detail_channel p) as"
    using detail_points [OF reach_remembers [OF assms(1,2)] ch] f by (simp add: detail_fresh_def)
  moreover have "detail_title (detail (update_detail_page ch q)) = ci_name (chan_info ! ch) \<and>
    detail_unit (detail (update_detail_page ch q)) = ci_unit (chan_info ! ch)" if "ch < 4" for ch q
    using that by (simp add: update_detail_page_def Let_def split: prod.split)
  ultimately show ?thesis using ch f unfolding detail_fresh_def by metis
qed

lemma two_steps: "pages_reach g [a] (page_event (Click_channel ch) si (page_event (Average a) si (my_gui g)))" if "ch < 4"
proof -
  have h: "on_page Home (my_gui g)" by (rule start_shows)
  have "pages_reach g [a] (page_event (Average a) si (my_gui g))"
    using pages_step [OF pages_start, of "Average a" g si] by (simp add: touchable_def)
  moreover have "on_page Home (page_event (Average a) si (my_gui g))" using touch_step [OF h, of "Average a" Home si] by simp
  then have "touchable (Click_channel ch) (page_event (Average a) si (my_gui g))" using touchable_page that by simp
  ultimately show ?thesis using pages_step [of g "[a]" _ "Click_channel ch" si] by simp
qed

lemma co2_chart_wraps_fact:
  "clamp_point (chan_info ! CH_CO2) (chan_pick_value_from_avg CH_CO2 a) =
    (if unat (co2_avg a) < 32768 then min (int (unat (co2_avg a))) 5000 else 0)"
proof -
  have l: "unat (co2_avg a) < 65536" using ppm_less [of CH_CO2 a] by (simp add: ppm_def)
  define k where "k = unat (co2_avg a)"
  have k: "lv_coord (of_nat k) = (if k < 32768 then int k else int k - 65536)" if "k < 65536" for k
  proof -
    have "int k mod 2 ^ LENGTH(16) = int k" using that by (intro mod_pos_pos_trivial) simp_all
    then have u: "uint (word_of_int (int k) :: 16 word) = int k" unfolding uint_word_of_int .
    have "sint (word_of_int (int k) :: 16 word) = (32768 + int k) mod 65536 - 32768"
      unfolding sint_uint u signed_take_bit_eq_take_bit_shift by (simp add: take_bit_eq_mod add.commute [of "int k"])
    moreover have "(32768 + int k) mod 65536 = (if k < 32768 then int k + 32768 else int k - 32768)"
    proof (cases "k < 32768")
      case False
      have "(32768 + int k) mod 65536 = (int k - 32768 + 65536) mod 65536" by simp
      also have "\<dots> = (int k - 32768) mod 65536" by (rule mod_add_self2)
      also have "\<dots> = int k - 32768" using False that by (intro mod_pos_pos_trivial) simp_all
      finally show ?thesis using False by simp
    qed (use that in simp)
    ultimately show ?thesis by (simp add: lv_coord_def)
  qed
  have m: "lv_coord 0 = 0" "lv_coord 5000 = 5000" using k [of 0] k [of 5000] by simp_all
  have v: "chan_pick_value_from_avg CH_CO2 a = of_nat k" by (simp add: chan_pick_value_from_avg_def k_def)
  have "lv_coord (of_nat k) = (if k < 32768 then int k else int k - 65536)" "k < 65536" using k [of k] l by (simp_all add: k_def)
  then show ?thesis unfolding v k_def [symmetric] using m by (simp add: clamp_point_def chan_info_def Let_def min_def)
qed

text \<open>A CO2 average above 32767 ppm, which the sensor can report, is drawn at the bottom of its
  chart instead of the top: the value is cut to 16 bits before it is cut to the range.\<close>

theorem co2_chart_wraps:
  "clamp_point (chan_info ! CH_CO2) (chan_pick_value_from_avg CH_CO2 a) =
    (if unat (co2_avg a) < 32768 then min (int (unat (co2_avg a))) 5000 else 0)"
  by (rule co2_chart_wraps_fact)

text \<open>A system with the ten tasks of the firmware: eight of \<open>task_start.c\<close>, idle and timer task.\<close>

definition sys_boot :: sys_info where
  "sys_boot = \<lparr>hal_tick = 3725000, kheap = prvHeapInit heap_boot,
     task_status = map (\<lambda>t. (ascii (take 15 t), 100)) [''led_task'', ''sensoe_data_get_task'', ''my_gui_task'', ''applay_task'', ''lora_task'',
       ''data_process_task'', ''mqtt_task'', ''watchdog_task'', ''IDLE'', ''Tmr Svc''],
     mem_total = 47104, mem_free = 9000, mem_frag = 12, run_time = 0, got_buffer = True, run_times = []\<rparr>"

lemma detail_page_current_witness:
  "hist_points (detail (page_event (Click_channel CH_CO2) sys_boot (page_event (Average (co2_report 40000)) sys_boot (my_gui gui_boot))))
     = Some 0 # replicate 59 None"
proof -
  let ?p = "page_event (Click_channel CH_CO2) sys_boot (page_event (Average (co2_report 40000)) sys_boot (my_gui gui_boot))"
  have r: "pages_reach gui_boot [co2_report 40000] ?p" by (rule two_steps) simp
  have h: "on_page Home (page_event (Average (co2_report 40000)) sys_boot (my_gui gui_boot))"
    using touch_step [OF start_shows [of gui_boot], of "Average (co2_report 40000)" Home sys_boot] by simp
  have "on_page Detail ?p" using touch_step [OF h, of "Click_channel CH_CO2" Detail sys_boot] by simp
  then have "lv_obj_is_visible Detail_root (detail_root ?p)" by (auto simp: on_page_def)
  then have "hist_points (detail ?p) = channel_chart (detail_channel ?p) [co2_report 40000]"
    using detail_page_current [OF r] by (simp add: gui_boot_def)
  moreover have "detail_channel ?p = CH_CO2" using h
    by (simp add: page_event_def detail_channel_btn_event_cb_def Let_def update_detail_trees(8) on_page_def)
  moreover have "clamp_point (chan_info ! 2) (chan_pick_value_from_avg 2 (co2_report 40000)) = 0"
    using co2_chart_wraps_fact [of "co2_report 40000"] by (simp add: co2_report_def)
  ultimately show ?thesis by (simp add: channel_chart_def)
qed

lemma dec_u32_length: "length (dec_digits (unat (w :: u32))) \<le> 10"
  by (rule dec_digits_length) (use unat_u32_less [of w] in simp_all)

lemma pad2_length: "length (pad2 t) = max 2 (length t)"
  by (simp add: pad2_def)

lemma uptime_length: "length (uptime_text tick) \<le> 20"
proof -
  have t: "unat tick < 2 ^ 32" by (rule unat_u32_less)
  have "unat (tick div 1000 div 3600) < 10 ^ 4" using t by (simp add: unat_div)
  moreover have "unat (tick div 1000 mod 3600 div 60) < 10 ^ 2" by (simp add: unat_div unat_mod less_mult_imp_div_less)
  moreover have "unat (tick div 1000 mod 60) < 10 ^ 2"
  proof -
    have "unat (tick div 1000) mod 60 < 60" by simp
    then show ?thesis by (simp add: unat_mod)
  qed
  ultimately have "length (dec_digits (unat (tick div 1000 div 3600))) \<le> 4" "length (dec_digits (unat (tick div 1000 mod 3600 div 60))) \<le> 2"
    "length (dec_digits (unat (tick div 1000 mod 60))) \<le> 2" using dec_digits_length by simp_all
  then show ?thesis by (simp add: uptime_text_def Let_def pad2_length ascii_def)
qed

lemma mem_length:
  assumes "mem_total si \<le> 47104" "mem_frag si \<le> 100"
  shows "length (mem_text si) \<le> 63 \<or> mem_free si > mem_total si"
proof (cases "mem_free si \<le> mem_total si")
  case True
  have "length (dec_digits (mem_total si)) \<le> 5" "length (dec_digits (mem_free si)) \<le> 5"
    "length (dec_digits (mem_total si - mem_free si)) \<le> 5" "length (dec_digits (mem_frag si)) \<le> 3"
    using dec_digits_length [of _ 5] dec_digits_length [of "mem_frag si" 3] assms True by simp_all
  then show ?thesis by (simp add: mem_text_def ascii_def)
qed simp

text \<open>Every line of the system page fits the 64 bytes it is printed into, and its list of tasks is
  empty whenever there are more than the eight tasks it has room for, as in this firmware.\<close>

theorem system_page_lines:
  fixes si :: sys_info and p :: gui_pages
  assumes "mem_total si \<le> 47104" "mem_free si \<le> mem_total si" "mem_frag si \<le> 100" "length (task_status si) < 10 ^ 9"
  defines "v \<equiv> sysv (update_system_page si p)"
  shows "list_all (\<lambda>t. length t < 64) [sys_uptime v, sys_cpu v, sys_heap v, sys_tasks v, sys_mem v] \<and>
    list_all (\<lambda>t. length t < 24) (sys_box v) \<and>
    sys_box v = (if length (task_status si) > 8 then [] else map task_text (task_status si))"
proof -
  have v: "sys_uptime v = uptime_text (hal_tick si)" "sys_heap v = heap_text (kheap si)" "sys_mem v = mem_text si"
    "sys_tasks v = dec_digits (length (task_status si)) @ ascii '' task(s)''"
    "sys_cpu v = dec_digits (unat (cpu_avg_1min (cpu p))) @ ascii '' %''"
    "sys_box v = (if length (task_status si) > 8 then [] else map task_text (task_status si))"
    by (auto simp: v_def update_system_page_def Let_def uxTaskGetSystemState_def)
  have "length (uptime_text (hal_tick si)) < 64" using uptime_length [of "hal_tick si"] by simp
  moreover have "length (sys_cpu v) < 64"
  proof -
    have "unat (cpu_avg_1min (cpu p)) < 2 ^ LENGTH(8)" by (rule unsigned_less)
    then have "length (dec_digits (unat (cpu_avg_1min (cpu p)))) \<le> 3" by (intro dec_digits_length) simp_all
    then show ?thesis by (simp add: v(5) ascii_def)
  qed
  moreover have "length (heap_text (kheap si)) < 64"
  proof -
    have "length (dec_digits (unat (configTOTAL_HEAP_SIZE :: u32))) \<le> 5" by (rule dec_digits_length) simp_all
    then show ?thesis using dec_u32_length [of "configTOTAL_HEAP_SIZE - xPortGetFreeHeapSize (kheap si)"]
      dec_u32_length [of "xPortGetMinimumEverFreeHeapSize (kheap si)"] unfolding heap_text_def by (simp add: ascii_def)
  qed
  moreover have "length (sys_tasks v) < 64" using dec_digits_length [OF assms(4)] by (simp add: v(4) ascii_def)
  moreover have "length (mem_text si) < 64" using mem_length [OF assms(1,3)] assms(2) by simp
  moreover have "length (task_text t) < 24" for t unfolding task_text_def by (simp only: length_take)
  then have "list_all (\<lambda>t. length t < 24) (sys_box v)" by (simp add: v(6) list_all_iff)
  ultimately show ?thesis using v by simp
qed

lemma system_page_lines_witness:
  "sys_box (sysv (page_event Click_system sys_boot (my_gui gui_boot))) = []"
proof -
  have "\<not> chart_fullscreen (my_gui gui_boot)" using start_shows by (simp add: on_page_def)
  then have "sysv (page_event Click_system sys_boot (my_gui gui_boot)) = sysv (update_system_page sys_boot (my_gui gui_boot))"
    by (simp add: page_event_def sys_btn_event_cb_def Let_def)
  then show ?thesis using system_page_lines [of sys_boot "my_gui gui_boot"] by (simp add: sys_boot_def)
qed

end
