(* ===== verification/Touch.thy ===== *)
theory Touch
  imports Agro_Prelude
begin

text \<open>
  The touch screen: the scan of the GT9xxx controller (\<open>Drivers/BSP/TOUCH/gt9xxx.c\<close>), which polls
  the chip at a limited rate, takes up to ten points, and drops points off the screen, and the
  read callback of the graphics library above it (\<open>examples/porting/lv_port_indev_template.c\<close>).
  The registers of the chip are an input; the serial bus below them is not modelled.
\<close>

section \<open>State\<close>

abbreviation (input) TP_PRES_DOWN :: u16 where "TP_PRES_DOWN \<equiv> 0x8000"
abbreviation (input) TP_CATH_PRES :: u16 where "TP_CATH_PRES \<equiv> 0x4000"
abbreviation (input) GT9XXX_GSTID_REG :: u16 where "GT9XXX_GSTID_REG \<equiv> 0x814E"

record m_tp_dev =
  tp_x :: "u16 list"      \<comment> \<open>ten entries\<close>
  tp_y :: "u16 list"
  tp_sta :: u16
  touchtype :: u8

record lcd_dev =
  lcd_width :: u16
  lcd_height :: u16
  lcd_ident :: u16

text \<open>The device, the display, the number of points of the panel and the static counter of the scan;
  \<open>gstid_clears\<close> counts the writes that tell the chip its points were read.\<close>

record touch =
  tp_dev :: m_tp_dev
  lcddev :: lcd_dev
  g_gt_tnum :: u8
  scan_t :: u8
  gstid_clears :: nat

definition GT9XXX_TPX_TBL :: "u16 list" where
  "GT9XXX_TPX_TBL = [0x8150, 0x8158, 0x8160, 0x8168, 0x8170, 0x8178, 0x8180, 0x8188, 0x8190, 0x8198]"

section \<open>The scan\<close>

text \<open>The coordinates of point \<open>i\<close>, turned to the orientation of the display.\<close>

definition touch_point :: "(u16 \<Rightarrow> u8) \<Rightarrow> touch \<Rightarrow> nat \<Rightarrow> u16 \<times> u16" where
  "touch_point regs s i =
     (let a = GT9XXX_TPX_TBL ! i;
          lo = push_bit 8 (ucast (regs (a + 1))) + ucast (regs a);
          hi = push_bit 8 (ucast (regs (a + 3))) + ucast (regs (a + 2));
          landscape = touchtype (tp_dev s) AND 1 \<noteq> 0
      in if lcd_ident (lcddev s) = 0x5510 \<or> lcd_ident (lcddev s) = 0x9806 \<or> lcd_ident (lcddev s) = 0x7796
         then (if landscape then (lcd_width (lcddev s) - hi, lo) else (lo, hi))
         else (if landscape then (lo, hi) else (lcd_width (lcddev s) - hi, lo)))"

definition set_point :: "nat \<Rightarrow> u16 \<times> u16 \<Rightarrow> touch \<Rightarrow> touch" where
  "set_point i p s = s\<lparr>tp_dev := (tp_dev s)\<lparr>tp_x := (tp_x (tp_dev s))[i := fst p], tp_y := (tp_y (tp_dev s))[i := snd p]\<rparr>\<rparr>"

definition set_sta :: "u16 \<Rightarrow> touch \<Rightarrow> touch" where
  "set_sta v s = s\<lparr>tp_dev := (tp_dev s)\<lparr>tp_sta := v\<rparr>\<rparr>"

definition get_point :: "nat \<Rightarrow> touch \<Rightarrow> u16 \<times> u16" where
  "get_point i s = (tp_x (tp_dev s) ! i, tp_y (tp_dev s) ! i)"

definition read_points :: "(u16 \<Rightarrow> u8) \<Rightarrow> touch \<Rightarrow> touch" where
  "read_points regs s = fold (\<lambda>i s. if bit (tp_sta (tp_dev s)) i then set_point i (touch_point regs s i) s else s)
     [0..<unat (g_gt_tnum s)] s"

definition off_screen :: "u16 \<times> u16 \<Rightarrow> touch \<Rightarrow> bool" where
  "off_screen p s \<longleftrightarrow> fst p > lcd_width (lcddev s) \<or> snd p > lcd_height (lcddev s)"

text \<open>The branch for a status with points: the result, the status after it and the state.\<close>

definition take_points :: "u8 \<Rightarrow> (u16 \<Rightarrow> u8) \<Rightarrow> touch \<Rightarrow> u8 \<times> u8 \<times> touch" where
  "take_points mode regs s =
     (let last = unat (g_gt_tnum s) - 1;
          temp = push_bit (unat (mode AND 0xF)) 0xFFFF :: u16;
          tempsta = tp_sta (tp_dev s);
          s = set_sta (NOT temp OR TP_PRES_DOWN OR TP_CATH_PRES) s;
          s = set_point last (get_point 0 s) s;
          s = read_points regs s
      in if off_screen (get_point 0 s) s
         then (if mode AND 0xF > 1 then (1, mode, (set_point 0 (get_point 1 s) s)\<lparr>scan_t := 0\<rparr>)
               else (1, 0x80, set_sta tempsta (set_point 0 (get_point last s) s)))
         else (1, mode, s\<lparr>scan_t := 0\<rparr>))"

definition gt9xxx_scan :: "u8 \<Rightarrow> (u16 \<Rightarrow> u8) \<Rightarrow> touch \<Rightarrow> u8 \<times> touch" where
  "gt9xxx_scan mode regs s =
     (let s = s\<lparr>scan_t := scan_t s + 1\<rparr>;
          (res, mode, s) =
            (if scan_t s mod 10 = 0 \<or> scan_t s < 10
             then (let mode = regs GT9XXX_GSTID_REG;
                       s = (if mode AND 0x80 \<noteq> 0 \<and> mode AND 0xF \<le> g_gt_tnum s then s\<lparr>gstid_clears := gstid_clears s + 1\<rparr> else s)
                   in if mode AND 0xF \<noteq> 0 \<and> mode AND 0xF \<le> g_gt_tnum s then take_points mode regs s else (0, mode, s))
             else (0, mode, s));
          s = (if mode AND 0x8F = 0x80
               then (if tp_sta (tp_dev s) AND TP_PRES_DOWN \<noteq> 0 then set_sta (tp_sta (tp_dev s) AND NOT TP_PRES_DOWN) s
                     else set_sta (tp_sta (tp_dev s) AND 0xE000) (set_point 0 (0xFFFF, 0xFFFF) s))
               else s);
          s = (if scan_t s > 240 then s\<lparr>scan_t := 10\<rparr> else s)
      in (res, s))"

section \<open>The callback of the graphics library\<close>

text \<open>Pressed or not, and the point: the last one touched while nothing is touched.\<close>

definition touchpad_read :: "(u16 \<Rightarrow> u8) \<Rightarrow> touch \<times> u16 \<times> u16 \<Rightarrow> (bool \<times> u16 \<times> u16) \<times> (touch \<times> u16 \<times> u16)" where
  "touchpad_read regs = (\<lambda>(s, last_x, last_y).
     let s = snd (gt9xxx_scan 0 regs s);
         pressed = tp_sta (tp_dev s) AND TP_PRES_DOWN \<noteq> 0;
         (last_x, last_y) = (if pressed then get_point 0 s else (last_x, last_y))
     in ((pressed, last_x, last_y), (s, last_x, last_y)))"

section \<open>Points\<close>

text \<open>The parts of the device that a scan leaves alone, and the arrays of ten points.\<close>

definition same_frame :: "touch \<Rightarrow> touch \<Rightarrow> bool" where
  "same_frame s s' \<longleftrightarrow> lcddev s' = lcddev s \<and> g_gt_tnum s' = g_gt_tnum s \<and> touchtype (tp_dev s') = touchtype (tp_dev s) \<and>
     length (tp_x (tp_dev s')) = length (tp_x (tp_dev s)) \<and> length (tp_y (tp_dev s')) = length (tp_y (tp_dev s))"

definition touch_wf :: "touch \<Rightarrow> bool" where
  "touch_wf s \<longleftrightarrow> length (tp_x (tp_dev s)) = 10 \<and> length (tp_y (tp_dev s)) = 10 \<and>
     2 \<le> unat (g_gt_tnum s) \<and> unat (g_gt_tnum s) \<le> 10"

lemma same_frame_refl [simp]: "same_frame s s"
  by (simp add: same_frame_def)

lemma same_frame_trans: "same_frame a b \<Longrightarrow> same_frame b c \<Longrightarrow> same_frame a c"
  by (simp add: same_frame_def)

lemma same_frame_set [simp]:
  "same_frame s (set_point i p s)" "same_frame s (set_sta v s)" "same_frame s (s\<lparr>scan_t := t\<rparr>)" "same_frame s (s\<lparr>gstid_clears := g\<rparr>)"
  by (simp_all add: same_frame_def set_point_def set_sta_def)

lemma same_frame_wf: "same_frame s s' \<Longrightarrow> touch_wf s \<Longrightarrow> touch_wf s'"
  by (simp add: same_frame_def touch_wf_def)

lemma same_frame_point: "same_frame s s' \<Longrightarrow> touch_point regs s' i = touch_point regs s i"
  unfolding same_frame_def touch_point_def Let_def by simp

lemma same_frame_off: "same_frame s s' \<Longrightarrow> off_screen p s' = off_screen p s"
  by (simp add: same_frame_def off_screen_def)

lemma get_set_point: "touch_wf s \<Longrightarrow> i < 10 \<Longrightarrow> get_point j (set_point i p s) = (if j = i then p else get_point j s)"
  by (simp add: get_point_def set_point_def touch_wf_def)

lemma point_frame [simp]:
  "get_point j (set_sta v s) = get_point j s" "get_point j (s\<lparr>scan_t := t\<rparr>) = get_point j s" "get_point j (s\<lparr>gstid_clears := g\<rparr>) = get_point j s"
  by (simp_all add: get_point_def set_sta_def)

lemma sta_frame [simp]:
  "tp_sta (tp_dev (set_point i p s)) = tp_sta (tp_dev s)" "tp_sta (tp_dev (set_sta v s)) = v"
  "scan_t (set_point i p s) = scan_t s" "scan_t (set_sta v s) = scan_t s"
  by (simp_all add: set_point_def set_sta_def)

lemma wf_set [simp]:
  "touch_wf (set_point i p s) = touch_wf s" "touch_wf (set_sta v s) = touch_wf s"
  "touch_wf (s\<lparr>scan_t := t\<rparr>) = touch_wf s" "touch_wf (s\<lparr>gstid_clears := g\<rparr>) = touch_wf s"
  by (simp_all add: touch_wf_def set_point_def set_sta_def)

lemma read_points_upto:
  fixes regs :: "u16 \<Rightarrow> u8"
  assumes "touch_wf s" "n \<le> 10"
  defines "r \<equiv> fold (\<lambda>i s. if bit (tp_sta (tp_dev s)) i then set_point i (touch_point regs s i) s else s) [0..<n] s"
  shows "same_frame s r \<and> tp_sta (tp_dev r) = tp_sta (tp_dev s) \<and> scan_t r = scan_t s \<and>
    (\<forall>j. get_point j r = (if j < n \<and> bit (tp_sta (tp_dev s)) j then touch_point regs s j else get_point j s))"
  using assms(2) unfolding r_def
proof (induction n)
  case 0
  then show ?case by simp
next
  case (Suc n)
  let ?r = "fold (\<lambda>i s. if bit (tp_sta (tp_dev s)) i then set_point i (touch_point regs s i) s else s) [0..<n] s"
  have ih: "same_frame s ?r" "tp_sta (tp_dev ?r) = tp_sta (tp_dev s)" "scan_t ?r = scan_t s"
    "\<And>j. get_point j ?r = (if j < n \<and> bit (tp_sta (tp_dev s)) j then touch_point regs s j else get_point j s)"
    using Suc by auto
  have w: "touch_wf ?r" using ih(1) assms(1) by (rule same_frame_wf)
  have f: "same_frame s (set_point n (touch_point regs s n) ?r)"
    using ih(1) by (rule same_frame_trans) simp
  show ?case using Suc.prems ih f
    by (auto simp: get_set_point[OF w] same_frame_point[OF ih(1)] less_Suc_eq)
qed

lemma read_points:
  assumes "touch_wf s"
  shows "same_frame s (read_points regs s)" "tp_sta (tp_dev (read_points regs s)) = tp_sta (tp_dev s)"
    "scan_t (read_points regs s) = scan_t s"
    "get_point j (read_points regs s) =
       (if j < unat (g_gt_tnum s) \<and> bit (tp_sta (tp_dev s)) j then touch_point regs s j else get_point j s)"
  using read_points_upto[of s "unat (g_gt_tnum s)" regs] assms unfolding read_points_def touch_wf_def by auto

text \<open>The status a scan with \<open>n\<close> points stores: their bits, pressed and held.\<close>

definition touch_sta :: "nat \<Rightarrow> u16" where
  "touch_sta n = NOT (push_bit n 0xFFFF) OR TP_PRES_DOWN OR TP_CATH_PRES"

lemma bit_all_u16: "bit (0xFFFF :: u16) j \<longleftrightarrow> j < 16"
proof -
  have e: "(0xFFFF :: u16) = - 1" by simp
  show ?thesis unfolding e by (simp add: bit_minus_1_iff)
qed

lemma touch_sta_bit: "j < 10 \<Longrightarrow> bit (touch_sta n) j \<longleftrightarrow> j < n"
proof -
  assume j: "j < 10"
  have "(0x8000 :: u16) = push_bit 15 1" "(0x4000 :: u16) = push_bit 14 1" by simp_all
  then have c: "\<not> bit (0x8000 :: u16) j" "\<not> bit (0x4000 :: u16) j" using j
    by (simp_all only: bit_push_bit_iff bit_1_iff) simp_all
  have "bit (push_bit n (0xFFFF :: u16)) j \<longleftrightarrow> n \<le> j"
    unfolding bit_push_bit_iff bit_all_u16 using j by auto
  then show ?thesis unfolding touch_sta_def bit_or_iff bit_not_iff using j c by auto
qed

lemma touch_sta_pressed: "touch_sta n AND TP_PRES_DOWN \<noteq> 0"
proof -
  have e: "(0x8000 :: u16) = push_bit 15 1" by simp
  have b: "bit (touch_sta n AND TP_PRES_DOWN) 15"
    by (simp only: touch_sta_def bit_or_iff bit_and_iff e bit_push_bit_iff bit_1_iff) simp
  show ?thesis
  proof
    assume "touch_sta n AND TP_PRES_DOWN = 0"
    with b show False by simp
  qed
qed

section \<open>One scan\<close>

definition pressed :: "touch \<Rightarrow> bool" where
  "pressed s \<longleftrightarrow> tp_sta (tp_dev s) AND TP_PRES_DOWN \<noteq> 0"

lemma pressed_frame [simp]:
  "pressed (set_point i p s) = pressed s" "pressed (s\<lparr>scan_t := t\<rparr>) = pressed s" "pressed (s\<lparr>gstid_clears := g\<rparr>) = pressed s"
  by (simp_all add: pressed_def set_point_def)

text \<open>The calls that read the chip, and the number of points it reports.\<close>

definition polled :: "touch \<Rightarrow> bool" where
  "polled s \<longleftrightarrow> (scan_t s + 1) mod 10 = 0 \<or> scan_t s + 1 < 10"

definition points :: "(u16 \<Rightarrow> u8) \<Rightarrow> u8" where
  "points regs = regs GT9XXX_GSTID_REG AND 0xF"

lemma low_bits: "(m :: u8) AND 0xF \<noteq> 0 \<Longrightarrow> m AND 0x8F \<noteq> 0x80"
proof
  assume "m AND 0xF \<noteq> 0" and h: "m AND 0x8F = 0x80"
  have "m AND 0xF = (m AND 0x8F) AND 0xF" by (simp add: and.assoc)
  also have "\<dots> = 0" by (simp add: h)
  finally show False using \<open>m AND 0xF \<noteq> 0\<close> by simp
qed

lemma scan_idle:
  "\<not> polled s \<Longrightarrow> gt9xxx_scan 0 regs s = (0, s\<lparr>scan_t := if scan_t s + 1 > 240 then 10 else scan_t s + 1\<rparr>)"
  by (simp add: gt9xxx_scan_def polled_def Let_def)

text \<open>The state the chip's points are taken in: one more call, perhaps one more acknowledgement.\<close>

definition acked :: "(u16 \<Rightarrow> u8) \<Rightarrow> touch \<Rightarrow> touch" where
  "acked regs s = (let s = s\<lparr>scan_t := scan_t s + 1\<rparr>
     in if regs GT9XXX_GSTID_REG AND 0x80 \<noteq> 0 \<and> points regs \<le> g_gt_tnum s then s\<lparr>gstid_clears := gstid_clears s + 1\<rparr> else s)"

lemma acked_frame [simp]:
  "same_frame s (acked regs s)" "tp_dev (acked regs s) = tp_dev s" "g_gt_tnum (acked regs s) = g_gt_tnum s"
  "scan_t (acked regs s) = scan_t s + 1"
  by (simp_all add: acked_def same_frame_def Let_def)

text \<open>The end of a scan: the release of the panel, and the counter.\<close>

definition release :: "touch \<Rightarrow> touch" where
  "release s = (if pressed s then set_sta (tp_sta (tp_dev s) AND NOT TP_PRES_DOWN) s
                else set_sta (tp_sta (tp_dev s) AND 0xE000) (set_point 0 (0xFFFF, 0xFFFF) s))"

definition rewind :: "touch \<Rightarrow> touch" where
  "rewind s = (if scan_t s > 240 then s\<lparr>scan_t := 10\<rparr> else s)"

lemma rewind_frame [simp]:
  "same_frame s (rewind s)" "pressed (rewind s) = pressed s" "get_point j (rewind s) = get_point j s" "scan_t (rewind s) \<le> 240"
  by (auto simp: rewind_def linorder_not_less)

lemma release_frame:
  "same_frame s (release s)" "\<not> pressed (release s)" "pressed s \<Longrightarrow> get_point j (release s) = get_point j s"
proof -
  have "(0xE000 :: u16) AND 0x8000 = 0x8000" by simp
  then show "\<not> pressed (release s)" by (simp add: release_def pressed_def and.assoc)
  show "same_frame s (release s)"
    using same_frame_trans[OF same_frame_set(1)[of s 0 "(0xFFFF, 0xFFFF)"] same_frame_set(2)] by (simp add: release_def)
  show "get_point j (release s) = get_point j s" if "pressed s" using that by (simp add: release_def)
qed

lemma scan_points:
  assumes "polled s" "points regs \<noteq> 0" "points regs \<le> g_gt_tnum s"
  shows "gt9xxx_scan 0 regs s = (let (res, mode, s) = take_points (regs GT9XXX_GSTID_REG) regs (acked regs s)
      in (res, rewind (if mode AND 0x8F = 0x80 then release s else s)))"
  using assms unfolding gt9xxx_scan_def polled_def points_def acked_def pressed_def release_def rewind_def Let_def
  by (simp split: prod.split)

lemma scan_none:
  assumes "polled s" "points regs = 0 \<or> points regs > g_gt_tnum s"
  shows "gt9xxx_scan 0 regs s =
    (0, rewind (if regs GT9XXX_GSTID_REG AND 0x8F = 0x80 then release (acked regs s) else acked regs s))"
  using assms unfolding gt9xxx_scan_def polled_def points_def acked_def pressed_def release_def rewind_def Let_def
  by auto

section \<open>The points of a scan\<close>

text \<open>The state after the chip's points are read, before the test for the edge of the screen.\<close>

definition taken :: "(u16 \<Rightarrow> u8) \<Rightarrow> touch \<Rightarrow> touch" where
  "taken regs s = read_points regs (set_point (unat (g_gt_tnum s) - 1) (get_point 0 s) (set_sta (touch_sta (unat (points regs))) s))"

lemma tnum_last: "touch_wf s \<Longrightarrow> unat (g_gt_tnum s) - 1 < 10 \<and> 0 < unat (g_gt_tnum s) - 1"
  unfolding touch_wf_def by linarith

lemma taken:
  assumes "touch_wf s" "points regs \<le> g_gt_tnum s"
  shows "same_frame s (taken regs s)" "tp_sta (tp_dev (taken regs s)) = touch_sta (unat (points regs))"
    "scan_t (taken regs s) = scan_t s"
    "j < unat (points regs) \<Longrightarrow> get_point j (taken regs s) = touch_point regs s j"
    "points regs = 1 \<Longrightarrow> get_point (unat (g_gt_tnum s) - 1) (taken regs s) = get_point 0 s"
proof -
  let ?k = "unat (g_gt_tnum s) - 1"
  let ?s = "set_point ?k (get_point 0 s) (set_sta (touch_sta (unat (points regs))) s)"
  have w: "touch_wf ?s" using assms(1) by simp
  have f: "same_frame s ?s" by (rule same_frame_trans[of _ "set_sta (touch_sta (unat (points regs))) s"]) simp_all
  have tn: "g_gt_tnum ?s = g_gt_tnum s" using f by (simp add: same_frame_def)
  have n: "unat (points regs) \<le> unat (g_gt_tnum s)" using assms(2) by (simp add: word_le_nat_alt)
  have le: "unat (g_gt_tnum s) \<le> 10" using assms(1) by (simp add: touch_wf_def)
  have r: "taken regs s = read_points regs ?s" by (simp add: taken_def)
  show "same_frame s (taken regs s)" unfolding r by (rule same_frame_trans[OF f read_points(1)[OF w]])
  show "tp_sta (tp_dev (taken regs s)) = touch_sta (unat (points regs))" unfolding r read_points(2)[OF w] by simp
  show "scan_t (taken regs s) = scan_t s" unfolding r read_points(3)[OF w] by simp
  have k: "?k < 10" "0 < ?k" using tnum_last[OF assms(1)] by auto
  show "get_point j (taken regs s) = touch_point regs s j" if "j < unat (points regs)"
  proof -
    have "j < unat (g_gt_tnum s)" "j < 10" using that n le by auto
    moreover have "touch_point regs ?s j = touch_point regs s j" by (rule same_frame_point[OF f])
    ultimately show ?thesis using that
      unfolding r read_points(4)[OF w] tn by (simp add: touch_sta_bit)
  qed
  show "get_point ?k (taken regs s) = get_point 0 s" if "points regs = 1"
  proof -
    have "\<not> bit (touch_sta (unat (points regs))) ?k" using k that by (simp add: touch_sta_bit)
    then show ?thesis
      unfolding r read_points(4)[OF w] tn using k assms(1) by (simp add: get_set_point)
  qed
qed

lemma take_points_cases:
  assumes "touch_wf s"
  shows "take_points (regs GT9XXX_GSTID_REG) regs s =
    (if off_screen (get_point 0 (taken regs s)) (taken regs s)
     then (if points regs > 1 then (1, regs GT9XXX_GSTID_REG, (set_point 0 (get_point 1 (taken regs s)) (taken regs s))\<lparr>scan_t := 0\<rparr>)
           else (1, 0x80, set_sta (tp_sta (tp_dev s)) (set_point 0 (get_point (unat (g_gt_tnum s) - 1) (taken regs s)) (taken regs s))))
     else (1, regs GT9XXX_GSTID_REG, (taken regs s)\<lparr>scan_t := 0\<rparr>))"
proof -
  have "get_point 0 (set_sta v s) = get_point 0 s" for v by simp
  then show ?thesis
    unfolding take_points_def taken_def touch_sta_def points_def Let_def by (simp only:)
qed

text \<open>What a call that reads the chip does, by what the chip reports.\<close>

lemma taken_acked:
  assumes "touch_wf s" "points regs \<noteq> 0" "points regs \<le> g_gt_tnum s"
  shows "touch_wf (acked regs s)" "same_frame s (taken regs (acked regs s))"
    "j < unat (points regs) \<Longrightarrow> get_point j (taken regs (acked regs s)) = touch_point regs s j"
    "off_screen (get_point 0 (taken regs (acked regs s))) (taken regs (acked regs s)) = off_screen (touch_point regs s 0) s"
    "regs GT9XXX_GSTID_REG AND 0x8F \<noteq> 0x80"
proof -
  let ?a = "acked regs s"
  show w: "touch_wf ?a" using same_frame_wf[OF acked_frame(1) assms(1)] .
  have le: "points regs \<le> g_gt_tnum ?a" using assms(3) by simp
  show f: "same_frame s (taken regs ?a)" by (rule same_frame_trans[OF acked_frame(1) taken(1)[OF w le]])
  show p: "get_point j (taken regs ?a) = touch_point regs s j" if "j < unat (points regs)" for j
    using taken(4)[OF w le that] same_frame_point[OF acked_frame(1)[of s regs], of regs j] by simp
  have "0 < unat (points regs)" using assms(2) by (simp add: unat_gt_0)
  then have "get_point 0 (taken regs ?a) = touch_point regs s 0" by (rule p)
  then show "off_screen (get_point 0 (taken regs ?a)) (taken regs ?a) = off_screen (touch_point regs s 0) s"
    unfolding same_frame_off[OF f] by simp
  show "regs GT9XXX_GSTID_REG AND 0x8F \<noteq> 0x80" using low_bits assms(2) unfolding points_def by blast
qed

lemma scan_valid:
  assumes "touch_wf s" "polled s" "points regs \<noteq> 0" "points regs \<le> g_gt_tnum s" "\<not> off_screen (touch_point regs s 0) s"
  shows "gt9xxx_scan 0 regs s = (1, (taken regs (acked regs s))\<lparr>scan_t := 0\<rparr>)"
  using assms(5) taken_acked(4,5)[OF assms(1,3,4)]
  unfolding scan_points[OF assms(2-4)] take_points_cases[OF taken_acked(1)[OF assms(1,3,4)]] by (simp add: rewind_def)

lemma scan_off_many:
  assumes "touch_wf s" "polled s" "points regs > 1" "points regs \<le> g_gt_tnum s" "off_screen (touch_point regs s 0) s"
  shows "gt9xxx_scan 0 regs s =
    (1, (set_point 0 (get_point 1 (taken regs (acked regs s))) (taken regs (acked regs s)))\<lparr>scan_t := 0\<rparr>)"
proof -
  have nz: "points regs \<noteq> 0" using assms(3) by auto
  show ?thesis using assms(3,5) taken_acked(4,5)[OF assms(1) nz assms(4)]
    unfolding scan_points[OF assms(2) nz assms(4)] take_points_cases[OF taken_acked(1)[OF assms(1) nz assms(4)]]
    by (simp add: rewind_def)
qed

lemma scan_off_one:
  assumes "touch_wf s" "polled s" "points regs = 1" "off_screen (touch_point regs s 0) s"
  defines "r \<equiv> set_sta (tp_sta (tp_dev s))
      (set_point 0 (get_point (unat (g_gt_tnum s) - 1) (taken regs (acked regs s))) (taken regs (acked regs s)))"
  shows "gt9xxx_scan 0 regs s = (1, rewind (release r))" "same_frame s r" "pressed r = pressed s" "get_point 0 r = get_point 0 s"
proof -
  have nz: "points regs \<noteq> 0" using assms(3) by simp
  have le: "points regs \<le> g_gt_tnum s" using assms(1,3) by (simp add: touch_wf_def word_le_nat_alt)
  note t = taken_acked[OF assms(1) nz le]
  show "gt9xxx_scan 0 regs s = (1, rewind (release r))"
    using assms(3,4) t(4) unfolding r_def scan_points[OF assms(2) nz le] take_points_cases[OF t(1)] by simp
  show "same_frame s r" unfolding r_def
    by (rule same_frame_trans[OF t(2) same_frame_trans[OF same_frame_set(1) same_frame_set(2)]])
  show "pressed r = pressed s" by (simp add: r_def pressed_def)
  have w: "touch_wf (taken regs (acked regs s))" by (rule same_frame_wf[OF t(2) assms(1)])
  have l: "get_point (unat (g_gt_tnum s) - 1) (taken regs (acked regs s)) = get_point 0 (acked regs s)"
    using taken(5)[OF t(1) _ assms(3)] le by simp
  have "get_point 0 (acked regs s) = get_point 0 s" by (simp add: get_point_def)
  then show "get_point 0 r = get_point 0 s" using w l by (simp add: r_def get_set_point)
qed

section \<open>Sequences of reads\<close>

definition touch_inv :: "touch \<Rightarrow> bool" where
  "touch_inv s \<longleftrightarrow> touch_wf s \<and> scan_t s \<le> 240 \<and> (pressed s \<longrightarrow> \<not> off_screen (get_point 0 s) s)"

text \<open>A report of several touches whose first two both lie off the screen.\<close>

definition edge_pair :: "touch \<Rightarrow> (u16 \<Rightarrow> u8) \<Rightarrow> bool" where
  "edge_pair s regs \<longleftrightarrow> points regs > 1 \<and> points regs \<le> g_gt_tnum s \<and>
     off_screen (touch_point regs s 0) s \<and> off_screen (touch_point regs s 1) s"

definition on_screen_report :: "touch \<Rightarrow> (u16 \<Rightarrow> u8) \<Rightarrow> bool" where
  "on_screen_report s regs \<longleftrightarrow> points regs \<noteq> 0 \<and> points regs \<le> g_gt_tnum s \<and> \<not> off_screen (touch_point regs s 0) s"

primrec touchpad_reads :: "(u16 \<Rightarrow> u8) list \<Rightarrow> touch \<times> u16 \<times> u16 \<Rightarrow> (bool \<times> u16 \<times> u16) list" where
  "touchpad_reads [] st = []"
| "touchpad_reads (regs # rs) st = fst (touchpad_read regs st) # touchpad_reads rs (snd (touchpad_read regs st))"

lemma same_frame_tnum: "same_frame s s' \<Longrightarrow> g_gt_tnum s' = g_gt_tnum s"
  by (simp add: same_frame_def)

lemma same_frame_edge: "edge_pair s' regs = edge_pair s regs" if f: "same_frame s s'"
  unfolding edge_pair_def same_frame_point[OF f] same_frame_off[OF f] same_frame_tnum[OF f] ..

lemma same_frame_report: "on_screen_report s' regs = on_screen_report s regs" if f: "same_frame s s'"
  unfolding on_screen_report_def same_frame_point[OF f] same_frame_off[OF f] same_frame_tnum[OF f] ..

lemma touch_inv_frameI:
  assumes "same_frame s r" "touch_wf s" "pressed r \<Longrightarrow> \<not> off_screen (get_point 0 r) s" "scan_t r \<le> 240"
  shows "same_frame s r \<and> touch_inv r"
  using assms same_frame_wf[OF assms(1,2)] same_frame_off[OF assms(1)] by (simp add: touch_inv_def)

lemma two_points: "(n :: u8) \<noteq> 0 \<Longrightarrow> n \<noteq> 1 \<Longrightarrow> n > 1"
  by (simp add: word_less_nat_alt word_unat_eq_iff)

lemma scan_inv:
  assumes i: "touch_inv s" and e: "\<not> edge_pair s regs"
  shows "same_frame s (snd (gt9xxx_scan 0 regs s)) \<and> touch_inv (snd (gt9xxx_scan 0 regs s))"
proof -
  have w: "touch_wf s" and on: "pressed s \<Longrightarrow> \<not> off_screen (get_point 0 s) s"
    using i by (auto simp: touch_inv_def)
  have a: "pressed (acked regs s) = pressed s" "get_point 0 (acked regs s) = get_point 0 s"
    by (simp_all add: pressed_def get_point_def)
  consider (idle) "\<not> polled s" | (none) "polled s" "points regs = 0 \<or> points regs > g_gt_tnum s"
    | (seen) "polled s" "points regs \<noteq> 0" "points regs \<le> g_gt_tnum s"
    using linorder_not_le by blast
  then show ?thesis
  proof cases
    case idle
    show ?thesis unfolding scan_idle[OF idle] snd_conv
      by (rule touch_inv_frameI[OF _ w]) (auto simp: on)
  next
    case none
    show ?thesis unfolding scan_none[OF none] snd_conv
      using same_frame_trans[OF acked_frame(1) rewind_frame(1)] a on
        same_frame_trans[OF acked_frame(1) same_frame_trans[OF release_frame(1) rewind_frame(1)]] release_frame(2)
      by (intro touch_inv_frameI[OF _ w]) auto
  next
    case seen
    note t = taken_acked[OF w seen(2,3)]
    have n: "0 < unat (points regs)" using seen(2) by (simp add: unat_gt_0)
    consider (valid) "\<not> off_screen (touch_point regs s 0) s"
      | (one) "points regs = 1" "off_screen (touch_point regs s 0) s"
      | (many) "points regs > 1" "off_screen (touch_point regs s 0) s" "\<not> off_screen (touch_point regs s 1) s"
      using e seen two_points unfolding edge_pair_def by blast
    then show ?thesis
    proof cases
      case valid
      show ?thesis unfolding scan_valid[OF w seen valid] snd_conv
        using same_frame_trans[OF t(2) same_frame_set(3)] t(3)[OF n] valid
        by (intro touch_inv_frameI[OF _ w]) simp_all
    next
      case one
      note o = scan_off_one[OF w seen(1) one]
      show ?thesis unfolding o(1) snd_conv
        using same_frame_trans[OF o(2) same_frame_trans[OF release_frame(1) rewind_frame(1)]] release_frame(2)
        by (intro touch_inv_frameI[OF _ w]) auto
    next
      case many
      have "1 < unat (points regs)" using many(1) by (simp add: word_less_nat_alt)
      then show ?thesis unfolding scan_off_many[OF w seen(1) many(1) seen(3) many(2)] snd_conv
        using same_frame_trans[OF t(2) same_frame_trans[OF same_frame_set(1) same_frame_set(3)]] t(3)[of 1] many(3)
          same_frame_wf[OF t(2) w]
        by (intro touch_inv_frameI[OF _ w]) (simp_all add: get_set_point)
    qed
  qed
qed

lemma read_unfold:
  "touchpad_read regs (s, x, y) =
     (let s' = snd (gt9xxx_scan 0 regs s); p = (if pressed s' then get_point 0 s' else (x, y)) in ((pressed s', p), (s', p)))"
  by (simp add: touchpad_read_def pressed_def Let_def get_point_def)

lemma reads_on_screen:
  "touch_inv s \<Longrightarrow> list_all (\<lambda>regs. \<not> edge_pair s regs) rs \<Longrightarrow>
   list_all (\<lambda>(pr, p). pr \<longrightarrow> \<not> off_screen p s) (touchpad_reads rs (s, p))"
proof (induction rs arbitrary: s p)
  case Nil
  then show ?case by simp
next
  case (Cons regs rs)
  let ?s = "snd (gt9xxx_scan 0 regs s)"
  have e: "\<not> edge_pair s regs" "list_all (\<lambda>regs. \<not> edge_pair s regs) rs" using Cons.prems(2) by simp_all
  have i: "same_frame s ?s" "touch_inv ?s" using scan_inv[OF Cons.prems(1) e(1)] by simp_all
  have ih: "list_all (\<lambda>(pr, p). pr \<longrightarrow> \<not> off_screen p ?s) (touchpad_reads rs (?s, q))" for q
    by (rule Cons.IH[OF i(2)]) (simp only: same_frame_edge[OF i(1)] e(2))
  have on: "pressed ?s \<Longrightarrow> \<not> off_screen (get_point 0 ?s) s"
    using i(2) same_frame_off[OF i(1)] by (simp add: touch_inv_def)
  show ?case
    using ih on unfolding same_frame_off[OF i(1)]
    by (cases p) (simp add: read_unfold Let_def)
qed

section \<open>The rate of polling\<close>

text \<open>The number of calls until the chip is read.\<close>

definition calls_left :: "touch \<Rightarrow> nat" where
  "calls_left s = (if scan_t s < 9 then 1 else if scan_t s = 240 then 11 else 10 - unat (scan_t s) mod 10)"

lemma calls_left_pos: "1 \<le> calls_left s" "calls_left s \<le> 11"
proof -
  have "unat (scan_t s) mod 10 < 10" by simp
  then show "1 \<le> calls_left s" "calls_left s \<le> 11" unfolding calls_left_def by (auto simp del: One_nat_def)
qed

lemma polled_nat:
  assumes "scan_t s \<le> 240"
  shows "polled s \<longleftrightarrow> (unat (scan_t s) + 1) mod 10 = 0 \<or> unat (scan_t s) + 1 < 10"
proof -
  have "unat (scan_t s) \<le> 240" using assms by (simp add: word_le_nat_alt)
  then have "unat (scan_t s + 1) = unat (scan_t s) + 1" by (simp add: unat_word_ariths)
  then show ?thesis by (simp add: polled_def word_less_nat_alt word_unat_eq_iff unat_mod_distrib)
qed

lemma calls_left_step:
  assumes le: "scan_t s \<le> 240" and np: "\<not> polled s"
  shows "calls_left (snd (gt9xxx_scan 0 regs s)) = calls_left s - 1 \<and> 1 < calls_left s"
proof -
  let ?t = "unat (scan_t s)"
  have t: "?t \<le> 240" using le by (simp add: word_le_nat_alt)
  have n: "(?t + 1) mod 10 \<noteq> 0" "9 \<le> ?t" using np unfolding polled_nat[OF le] by auto
  have t9: "?t \<noteq> 9" using n(1) by auto
  have u: "unat (scan_t s + 1) = ?t + 1" using t by (simp add: unat_word_ariths)
  have lt: "\<not> scan_t s < 9" using n(2) by (simp add: word_less_nat_alt)
  show ?thesis
  proof (cases "?t = 240")
    case True
    then have e: "scan_t s = 240" by (simp add: word_unat_eq_iff)
    show ?thesis unfolding scan_idle[OF np] snd_conv by (simp add: calls_left_def e)
  next
    case False
    have ne: "scan_t s \<noteq> 240" using False by auto
    have m: "?t mod 10 \<noteq> 9" and m10: "(?t + 1) mod 10 = ?t mod 10 + 1" using n(1) by (simp_all add: mod_Suc split: if_splits)
    have b: "\<not> scan_t s + 1 > 240" using t False u by (simp add: word_less_nat_alt)
    have ne': "scan_t s + 1 \<noteq> 240"
    proof
      assume "scan_t s + 1 = 240"
      then have "?t + 1 = 240" using u by simp
      then show False using n(1) by simp
    qed
    have lt': "\<not> scan_t s + 1 < 9" using n(2) u by (simp add: word_less_nat_alt)
    have "?t mod 10 < 10" by simp
    then show ?thesis using m m10 u lt lt' ne ne' b
      unfolding scan_idle[OF np] snd_conv calls_left_def by (simp del: One_nat_def)
  qed
qed

lemma scan_idle_same:
  assumes "\<not> polled s"
  shows "same_frame s (snd (gt9xxx_scan 0 regs s))" "tp_dev (snd (gt9xxx_scan 0 regs s)) = tp_dev s"
  unfolding scan_idle[OF assms] by simp_all

lemma polled_after_touch: "scan_t s = 0 \<Longrightarrow> polled s"
  by (simp add: polled_def)

text \<open>The state a read leaves once the finger was seen: the next call sees it again.\<close>

lemma held_step:
  assumes "touch_wf s" "polled s" "on_screen_report s regs"
  shows "touchpad_read regs (s, q) = ((True, touch_point regs s 0), (snd (gt9xxx_scan 0 regs s), touch_point regs s 0)) \<and>
    same_frame s (snd (gt9xxx_scan 0 regs s)) \<and> scan_t (snd (gt9xxx_scan 0 regs s)) = 0"
proof -
  have r: "points regs \<noteq> 0" "points regs \<le> g_gt_tnum s" "\<not> off_screen (touch_point regs s 0) s"
    using assms(3) by (auto simp: on_screen_report_def)
  note t = taken_acked[OF assms(1) r(1,2)]
  have n: "0 < unat (points regs)" using r(1) by (simp add: unat_gt_0)
  have pr: "pressed (taken regs (acked regs s))"
    using taken(2)[OF t(1)] r(2) touch_sta_pressed by (simp add: pressed_def)
  show ?thesis using t(3)[OF n] pr same_frame_trans[OF t(2) same_frame_set(3)]
    by (cases q) (simp add: read_unfold scan_valid[OF assms(1,2) r] Let_def)
qed

lemma held_reads:
  "touch_wf s \<Longrightarrow> polled s \<Longrightarrow> on_screen_report s regs \<Longrightarrow>
   touchpad_reads (replicate k regs) (s, q) = replicate k (True, touch_point regs s 0)"
proof (induction k arbitrary: s q)
  case 0
  then show ?case by simp
next
  case (Suc k)
  let ?s = "snd (gt9xxx_scan 0 regs s)"
  note h = held_step[OF Suc.prems]
  have f: "same_frame s ?s" and z: "scan_t ?s = 0" using h by simp_all
  have r: "on_screen_report ?s regs" unfolding same_frame_report[OF f] by (rule Suc.prems(3))
  have "touchpad_reads (replicate k regs) (?s, touch_point regs s 0) = replicate k (True, touch_point regs ?s 0)"
    by (rule Suc.IH[OF same_frame_wf[OF f Suc.prems(1)] polled_after_touch[OF z] r])
  then show ?case using h unfolding same_frame_point[OF f] by simp
qed

lemma held_within:
  "touch_inv s \<Longrightarrow> on_screen_report s regs \<Longrightarrow> calls_left s \<le> Suc k \<Longrightarrow>
   drop k (touchpad_reads (replicate (k + m) regs) (s, q)) = replicate m (True, touch_point regs s 0)"
proof (induction k arbitrary: s q)
  case 0
  then have c: "calls_left s = 1" using calls_left_pos[of s] by simp
  have w: "touch_wf s" "scan_t s \<le> 240" using 0 by (auto simp: touch_inv_def)
  then have p: "polled s" using calls_left_step c by fastforce
  show ?case using held_reads[OF w(1) p 0(2), of m q] by simp
next
  case (Suc k)
  let ?s = "snd (gt9xxx_scan 0 regs s)"
  have w: "touch_wf s" "scan_t s \<le> 240" using Suc.prems(1) by (auto simp: touch_inv_def)
  show ?case
  proof (cases "polled s")
    case True
    show ?thesis using held_reads[OF w(1) True Suc.prems(2), of "Suc k + m" q] by simp
  next
    case False
    note f = scan_idle_same(1)[OF False, of regs]
    have e: "\<not> edge_pair s regs" using Suc.prems(2) by (simp add: on_screen_report_def edge_pair_def)
    have i: "touch_inv ?s" using scan_inv[OF Suc.prems(1) e] by simp
    have r: "on_screen_report ?s regs" unfolding same_frame_report[OF f] by (rule Suc.prems(2))
    have c: "calls_left ?s \<le> Suc k" using calls_left_step[OF w(2) False, of regs] Suc.prems(3) by simp
    have rd: "fst (snd (touchpad_read regs (s, q))) = ?s" by (cases q) (simp add: read_unfold Let_def)
    then obtain q' where "snd (touchpad_read regs (s, q)) = (?s, q')" by (metis prod.collapse)
    then show ?thesis using Suc.IH[OF i r c, of q'] unfolding same_frame_point[OF f] by simp
  qed
qed

section \<open>Properties\<close>

text \<open>A panel of 800 by 480 in landscape at start-up, and a report of \<open>n\<close> points, the first two at
  given places of the chip.\<close>

definition sample_touch :: touch where
  "sample_touch = \<lparr>tp_dev = \<lparr>tp_x = replicate 10 0, tp_y = replicate 10 0, tp_sta = 0, touchtype = 0x81\<rparr>,
     lcddev = \<lparr>lcd_width = 800, lcd_height = 480, lcd_ident = 0x1963\<rparr>, g_gt_tnum = 5, scan_t = 0, gstid_clears = 0\<rparr>"

definition sample_regs :: "u8 \<Rightarrow> u8 list \<Rightarrow> u8 list \<Rightarrow> u16 \<Rightarrow> u8" where
  "sample_regs n p0 p1 a =
     (if a = GT9XXX_GSTID_REG then 0x80 OR n
      else if 0x8150 \<le> a \<and> a < 0x8154 then p0 ! unat (a - 0x8150)
      else if 0x8158 \<le> a \<and> a < 0x815C then p1 ! unat (a - 0x8158) else 0)"

lemma sample_inv: "touch_inv sample_touch" "touch_wf sample_touch" "polled sample_touch"
  by (simp_all add: touch_inv_def touch_wf_def sample_touch_def pressed_def polled_def)

lemma sample_points:
  "points (sample_regs n p0 p1) = n AND 0xF"
  "length p0 = 4 \<Longrightarrow> touch_point (sample_regs n p0 p1) sample_touch 0 =
     (push_bit 8 (ucast (p0 ! 1)) + ucast (p0 ! 0), push_bit 8 (ucast (p0 ! 3)) + ucast (p0 ! 2))"
  "length p1 = 4 \<Longrightarrow> touch_point (sample_regs n p0 p1) sample_touch 1 =
     (push_bit 8 (ucast (p1 ! 1)) + ucast (p1 ! 0), push_bit 8 (ucast (p1 ! 3)) + ucast (p1 ! 2))"
  by (simp_all add: points_def sample_regs_def bit.conj_disj_distrib2 touch_point_def sample_touch_def GT9XXX_TPX_TBL_def Let_def)

lemma sample_off:
  "off_screen p sample_touch \<longleftrightarrow> fst p > 800 \<or> snd p > 480"
  by (simp add: off_screen_def sample_touch_def)

text \<open>A scan that reads the chip and finds from one to all of its points pressed, the first of them
  on the screen, stores the coordinates of every one of them, marks exactly these points and the panel
  as pressed and held, answers that there is a touch, and restarts the counter so that the next call
  reads the chip again.\<close>

theorem touch_reported:
  assumes "touch_wf s" "polled s" "on_screen_report s regs"
  shows "fst (gt9xxx_scan 0 regs s) = 1 \<and> tp_sta (tp_dev (snd (gt9xxx_scan 0 regs s))) = touch_sta (unat (points regs)) \<and>
    scan_t (snd (gt9xxx_scan 0 regs s)) = 0 \<and>
    map (\<lambda>j. get_point j (snd (gt9xxx_scan 0 regs s))) [0..<unat (points regs)] = map (touch_point regs s) [0..<unat (points regs)]"
proof -
  have r: "points regs \<noteq> 0" "points regs \<le> g_gt_tnum s" "\<not> off_screen (touch_point regs s 0) s"
    using assms(3) by (auto simp: on_screen_report_def)
  note t = taken_acked[OF assms(1) r(1,2)]
  have "tp_sta (tp_dev (taken regs (acked regs s))) = touch_sta (unat (points regs))"
    using taken(2)[OF t(1)] r(2) by simp
  then show ?thesis using t(3) by (simp add: scan_valid[OF assms(1,2) r])
qed

lemma touch_reported_witness:
  "fst (gt9xxx_scan 0 (sample_regs 2 [44, 1, 200, 0] [10, 0, 20, 0]) sample_touch) = 1 \<and>
   tp_sta (tp_dev (snd (gt9xxx_scan 0 (sample_regs 2 [44, 1, 200, 0] [10, 0, 20, 0]) sample_touch))) = touch_sta 2"
proof -
  have p: "touch_point (sample_regs 2 [44, 1, 200, 0] [10, 0, 20, 0]) sample_touch 0 = (300, 200)"
    by (subst sample_points(2)) simp_all
  have "on_screen_report sample_touch (sample_regs 2 [44, 1, 200, 0] [10, 0, 20, 0])"
    unfolding on_screen_report_def sample_points(1) sample_off p by (simp add: sample_touch_def)
  from touch_reported[OF sample_inv(2,3) this] show ?thesis by (simp add: sample_points)
qed



text \<open>C25: A finger held on the screen is seen: although the chip is read only in some of the calls, from
  the eleventh read on at the latest every read reports the finger at its place, for as long as the
  finger stays.\<close>

theorem touch_held:
  assumes "touch_inv s" "on_screen_report s regs"
  shows "drop 10 (touchpad_reads (replicate (10 + m) regs) (s, p)) = replicate m (True, touch_point regs s 0)"
  using assms by (rule held_within) (simp add: calls_left_pos(2))

lemma touch_held_witness:
  "drop 10 (touchpad_reads (replicate (10 + 3) (sample_regs 1 [44, 1, 200, 0] [0, 0, 0, 0])) (sample_touch, 0, 0)) =
     [(True, 300, 200), (True, 300, 200), (True, 300, 200)]"
proof -
  have p: "touch_point (sample_regs 1 [44, 1, 200, 0] [0, 0, 0, 0]) sample_touch 0 = (300, 200)"
    by (subst sample_points(2)) simp_all
  have "on_screen_report sample_touch (sample_regs 1 [44, 1, 200, 0] [0, 0, 0, 0])"
    unfolding on_screen_report_def sample_points(1) sample_off p by (simp add: sample_touch_def)
  from touch_held[OF sample_inv(1) this, of 3] show ?thesis by (simp only: p) (simp add: numeral_eq_Suc)
qed

text \<open>Of several touches whose first two both lie off the screen the second replaces the first without
  a test, so the graphics library is told of a press at a point off the screen.\<close>

theorem touch_edge_pair:
  assumes "touch_wf s" "polled s" "edge_pair s regs"
  shows "fst (touchpad_read regs (s, p)) = (True, touch_point regs s 1) \<and> off_screen (touch_point regs s 1) s"
proof -
  have e: "points regs > 1" "points regs \<le> g_gt_tnum s" "off_screen (touch_point regs s 0) s" "off_screen (touch_point regs s 1) s"
    using assms(3) by (auto simp: edge_pair_def)
  have nz: "points regs \<noteq> 0" using e(1) by auto
  note t = taken_acked[OF assms(1) nz e(2)]
  have one: "1 < unat (points regs)" using e(1) by (simp add: word_less_nat_alt)
  have pr: "pressed (taken regs (acked regs s))"
    using taken(2)[OF t(1)] e(2) touch_sta_pressed by (simp add: pressed_def)
  show ?thesis using t(3)[OF one] pr e(4) same_frame_wf[OF t(2) assms(1)]
    by (cases p) (simp add: read_unfold scan_off_many[OF assms(1,2) e(1-3)] Let_def get_set_point)
qed

lemma touch_edge_pair_witness:
  "fst (touchpad_read (sample_regs 2 [255, 255, 200, 0] [10, 0, 255, 255]) (sample_touch, 0, 0)) = (True, 10, 0xFFFF)"
proof -
  have p: "touch_point (sample_regs 2 [255, 255, 200, 0] [10, 0, 255, 255]) sample_touch 0 = (0xFFFF, 200)"
    "touch_point (sample_regs 2 [255, 255, 200, 0] [10, 0, 255, 255]) sample_touch 1 = (10, 0xFFFF)"
    by (subst sample_points(2) sample_points(3); simp)+
  have "edge_pair sample_touch (sample_regs 2 [255, 255, 200, 0] [10, 0, 255, 255])"
    unfolding edge_pair_def sample_off sample_points(1) p by (simp add: sample_touch_def)
  from touch_edge_pair[OF sample_inv(2,3) this, of "(0, 0)"] show ?thesis by (simp only: p)
qed

end
