(* ===== verification/Dht11.thy ===== *)
theory Dht11
  imports Agro_Prelude
begin

text \<open>
  The one-wire driver of the temperature and humidity sensor (\<open>Drivers/BSP/DHT11/dht11.c\<close>).
  The line is an input: the levels the successive reads of the pin see, low once they are used
  up. Delays only decide which levels those are.
\<close>

section \<open>The driver\<close>

definition dq_in :: "bool list \<Rightarrow> bool \<times> bool list" where
  "dq_in ls = (case ls of [] \<Rightarrow> (False, []) | b # bs \<Rightarrow> (b, bs))"

text \<open>\<open>while (DQ == level && retry < 100) retry++\<close>: the retries and the line after it.\<close>

function dq_while :: "bool \<Rightarrow> nat \<Rightarrow> bool list \<Rightarrow> nat \<times> bool list" where
  "dq_while level retry ls =
     (case dq_in ls of (b, ls') \<Rightarrow>
        if b = level \<and> retry < 100 then dq_while level (retry + 1) ls' else (retry, ls'))"
  by pat_completeness auto
termination by (relation "measure (\<lambda>(level, retry, ls). 100 - retry)") auto

declare dq_while.simps [simp del]

definition DHT11_Check :: "bool list \<Rightarrow> u8 \<times> bool list" where
  "DHT11_Check ls =
     (case dq_while True 0 ls of (retry, l1) \<Rightarrow>
        if retry \<ge> 100 then (1, l1)
        else (case dq_while False 0 l1 of (retry, l2) \<Rightarrow> if retry \<ge> 100 then (1, l2) else (0, l2)))"

definition DHT11_Read_Bit :: "bool list \<Rightarrow> u8 \<times> bool list" where
  "DHT11_Read_Bit ls =
     (case dq_while True 0 ls of (_, l1) \<Rightarrow> case dq_while False 0 l1 of (_, l2) \<Rightarrow>
        case dq_in l2 of (b, l3) \<Rightarrow> (if b then 1 else 0, l3))"

fun read_bits :: "nat \<Rightarrow> u8 \<Rightarrow> bool list \<Rightarrow> u8 \<times> bool list" where
  "read_bits 0 dat ls = (dat, ls)"
| "read_bits (Suc n) dat ls = (case DHT11_Read_Bit ls of (b, ls') \<Rightarrow> read_bits n (push_bit 1 dat OR b) ls')"

definition DHT11_Read_Byte :: "bool list \<Rightarrow> u8 \<times> bool list" where
  "DHT11_Read_Byte ls = read_bits 8 0 ls"

fun read_bytes :: "nat \<Rightarrow> bool list \<Rightarrow> u8 list \<times> bool list" where
  "read_bytes 0 ls = ([], ls)"
| "read_bytes (Suc n) ls = (case DHT11_Read_Byte ls of (b, l1) \<Rightarrow> case read_bytes n l1 of (bs, l2) \<Rightarrow> (b # bs, l2))"

text \<open>The caller's two variables go in and come out; the sum is taken in \<open>int\<close>, without wrap.\<close>

definition DHT11_Read_Data :: "u8 \<Rightarrow> u8 \<Rightarrow> bool list \<Rightarrow> u8 \<times> u8 \<times> u8 \<times> bool list" where
  "DHT11_Read_Data temp humi ls =
     (case DHT11_Check ls of (r, l1) \<Rightarrow>
        if r = 0 then
          (case read_bytes 5 l1 of (buf, l2) \<Rightarrow>
             if uint (buf ! 0) + uint (buf ! 1) + uint (buf ! 2) + uint (buf ! 3) = uint (buf ! 4)
             then (0, buf ! 2, buf ! 0, l2) else (0, temp, humi, l2))
        else (1, temp, humi, l1))"

section \<open>What a sensor sends\<close>

text \<open>
  As the reads see it: \<open>h\<close> high levels, the falling edge, \<open>l\<close> more low levels, the rising edge;
  for a bit the level 40 us later.
\<close>

definition edge_wave :: "nat \<Rightarrow> nat \<Rightarrow> bool list" where
  "edge_wave h l = replicate h True @ False # replicate l False @ [True]"

fun bits_wave :: "(nat \<times> nat) list \<Rightarrow> bool list \<Rightarrow> bool list" where
  "bits_wave ((h, l) # ts) (b # bs) = edge_wave h l @ b # bits_wave ts bs"
| "bits_wave _ _ = []"

definition byte_bits :: "u8 \<Rightarrow> bool list" where
  "byte_bits b = map (bit b) (rev [0..<8])"

fun bytes_wave :: "(nat \<times> nat) list \<Rightarrow> u8 list \<Rightarrow> bool list" where
  "bytes_wave ts [] = []"
| "bytes_wave ts (b # bs) = bits_wave (take 8 ts) (byte_bits b) @ bytes_wave (drop 8 ts) bs"

definition timing_ok :: "(nat \<times> nat) list \<Rightarrow> bool" where
  "timing_ok ts \<longleftrightarrow> (\<forall>(h, l) \<in> set ts. h < 100 \<and> l < 100)"

section \<open>Lemmas\<close>

lemma dq_while_run:
  "n + k < 100 \<Longrightarrow> dq_while v k (replicate n v @ (\<not> v) # ls) = (k + n, ls)"
proof (induction n arbitrary: k)
  case 0
  then show ?case by (subst dq_while.simps) (simp add: dq_in_def)
next
  case (Suc n)
  then show ?case by (subst dq_while.simps) (simp add: dq_in_def)
qed

lemma edges:
  assumes "h < 100" "l < 100"
  shows "dq_while True 0 (edge_wave h l @ ls) = (h, replicate l False @ True # ls)"
    and "dq_while False 0 (replicate l False @ True # ls) = (l, ls)"
  using dq_while_run [of h 0 True "replicate l False @ True # ls"] dq_while_run [of l 0 False ls] assms
  by (simp_all add: edge_wave_def)

lemma read_bit_wave: "h < 100 \<Longrightarrow> l < 100 \<Longrightarrow> DHT11_Read_Bit (edge_wave h l @ b # ls) = (if b then 1 else 0, ls)"
  by (simp add: DHT11_Read_Bit_def edges dq_in_def)

lemma check_wave: "h < 100 \<Longrightarrow> l < 100 \<Longrightarrow> DHT11_Check (edge_wave h l @ ls) = (0, ls)"
  by (simp add: DHT11_Check_def edges)

definition shift_in :: "u8 \<Rightarrow> bool \<Rightarrow> u8" where
  "shift_in d b = push_bit 1 d OR (if b then 1 else 0)"

lemma read_bits_wave:
  "timing_ok ts \<Longrightarrow> length ts = length bs \<Longrightarrow>
     read_bits (length bs) d (bits_wave ts bs @ ls) = (foldl shift_in d bs, ls)"
proof (induction bs arbitrary: ts d)
  case (Cons b bs)
  then obtain h l ts' where t: "ts = (h, l) # ts'" "h < 100" "l < 100" "timing_ok ts'" "length ts' = length bs"
    by (cases ts) (auto simp: timing_ok_def)
  then show ?case using Cons.IH [OF t(4,5)] by (simp add: read_bit_wave shift_in_def)
qed simp

lemma bit_shift_in: "bit (shift_in d b) n \<longleftrightarrow> n < 8 \<and> (if n = 0 then b else bit d (n - 1))"
  unfolding shift_in_def bit_or_iff bit_push_bit_iff
  by (cases n) (auto simp: bit_1_iff dest: bit_imp_le_length)

lemma foldl_bits:
  "n < 8 \<Longrightarrow> bit (foldl shift_in d bs) n = (if n < length bs then rev bs ! n else bit d (n - length bs))"
proof (induction bs arbitrary: n rule: rev_induct)
  case (snoc b bs)
  then show ?case by (cases n) (auto simp: bit_shift_in)
qed simp

lemma byte_bits_roundtrip: "foldl shift_in d (byte_bits b) = b"
proof (rule bit_word_eqI)
  fix n assume n: "n < LENGTH(8)"
  then have "rev (byte_bits b) ! n = bit b n" by (simp add: byte_bits_def rev_map)
  with n show "bit (foldl shift_in d (byte_bits b)) n = bit b n" by (simp add: foldl_bits byte_bits_def)
qed

lemma timing_take_drop: "timing_ok ts \<Longrightarrow> timing_ok (take n ts) \<and> timing_ok (drop n ts)"
  by (auto simp: timing_ok_def dest: in_set_takeD in_set_dropD)

lemma read_byte_wave:
  assumes "timing_ok ts" "length ts = 8"
  shows "DHT11_Read_Byte (bits_wave ts (byte_bits b) @ ls) = (b, ls)"
proof -
  have "length (byte_bits b) = 8" by (simp add: byte_bits_def)
  with read_bits_wave [OF assms(1), of "byte_bits b" 0 ls] assms(2) byte_bits_roundtrip [of 0 b] show ?thesis
    by (simp add: DHT11_Read_Byte_def)
qed

lemma read_bytes_wave:
  "timing_ok ts \<Longrightarrow> length ts = 8 * length bs \<Longrightarrow> read_bytes (length bs) (bytes_wave ts bs @ ls) = (bs, ls)"
proof (induction bs arbitrary: ts)
  case (Cons b bs)
  have "timing_ok (take 8 ts)" "timing_ok (drop 8 ts)" using timing_take_drop [OF Cons.prems(1)] by auto
  with Cons.IH [of "drop 8 ts"] Cons.prems(2) show ?case by (simp add: read_byte_wave)
qed simp

section \<open>Properties\<close>

lemma dht11_wave:
  assumes "timing_ok ((h, l) # ts)" and "length ts = 40"
  shows "DHT11_Read_Data t0 h0 (edge_wave h l @ bytes_wave ts [b0, b1, b2, b3, b4] @ ls) =
    (if uint b0 + uint b1 + uint b2 + uint b3 = uint b4 then (0, b2, b0, ls) else (0, t0, h0, ls))"
proof -
  have t: "timing_ok ts" "h < 100" "l < 100" using assms(1) by (auto simp: timing_ok_def)
  have "read_bytes 5 (bytes_wave ts [b0, b1, b2, b3, b4] @ ls) = ([b0, b1, b2, b3, b4], ls)"
    using read_bytes_wave [OF t(1), of "[b0, b1, b2, b3, b4]" ls] assms(2) by (simp add: numeral_eq_Suc)
  with t show ?thesis by (simp add: DHT11_Read_Data_def check_wave)
qed

text \<open>C22: whatever its timing within the limits of the driver, a sensor's answer of five bytes is read
  back bit by bit: humidity and temperature are delivered if the fifth byte is the sum of the
  other four, and if it is not the caller's variables keep their values, while the result is
  success in either case.\<close>

theorem dht11_reads_answer:
  assumes "timing_ok ((h, l) # ts)" and "length ts = 40"
  shows "DHT11_Read_Data t0 h0 (edge_wave h l @ bytes_wave ts [b0, b1, b2, b3, b4] @ ls) =
    (if uint b0 + uint b1 + uint b2 + uint b3 = uint b4 then (0, b2, b0, ls) else (0, t0, h0, ls))"
  by (rule dht11_wave [OF assms])

lemma dht11_reads_answer_witness:
  "DHT11_Read_Data 0 0 (edge_wave 3 5 @ bytes_wave (replicate 40 (2, 4)) [55, 0, 23, 0, 78]) = (0, 23, 55, []) \<and>
   DHT11_Read_Data 0 0 (edge_wave 3 5 @ bytes_wave (replicate 40 (2, 4)) [55, 0, 23, 0, 77]) = (0, 0, 0, [])"
proof -
  have t: "timing_ok ((3, 5) # replicate 40 (2, 4))" by (auto simp: timing_ok_def)
  show ?thesis
    using dht11_reads_answer [OF t, of 0 0 55 0 23 0 78 "[]"] dht11_reads_answer [OF t, of 0 0 55 0 23 0 77 "[]"] by simp
qed

end
