(* ===== verification/Sgp30.thy ===== *)
theory Sgp30
  imports Dht11
begin

text \<open>
  The air quality sensor behind the MQ135 interface (\<open>Drivers/BSP/MQ135/mq135.c\<close>): an SGP30 on a
  bit-banged I2C bus. The driver's edges are recorded on a log; what it reads from the data line
  is an input, high (pulled up) once it is used up.
\<close>

section \<open>The bus\<close>

datatype i2c_line = SCL | SDA

record sgp30 =
  i2c_log :: "(i2c_line \<times> bool) list"
  sda_in :: "bool list"
  last_valid_ppm :: u16            \<comment> \<open>\<open>last_valid\<close> of \<open>MQ135_ReadCO2\<close>\<close>
  retry_count :: u8
  sgp30_initialized :: u8

definition pin :: "i2c_line \<Rightarrow> bool \<Rightarrow> sgp30 \<Rightarrow> sgp30" where
  "pin l b s = s\<lparr>i2c_log := i2c_log s @ [(l, b)]\<rparr>"

definition SDA_READ :: "sgp30 \<Rightarrow> bool \<times> sgp30" where
  "SDA_READ s = (case sda_in s of [] \<Rightarrow> (True, s) | b # bs \<Rightarrow> (b, s\<lparr>sda_in := bs\<rparr>))"

definition I2C_Start :: "sgp30 \<Rightarrow> sgp30" where
  "I2C_Start s = pin SCL False (pin SDA False (pin SCL True (pin SDA True s)))"

definition I2C_Stop :: "sgp30 \<Rightarrow> sgp30" where
  "I2C_Stop s = pin SDA True (pin SCL True (pin SDA False s))"

function ack_loop :: "nat \<Rightarrow> sgp30 \<Rightarrow> u8 \<times> sgp30" where
  "ack_loop ucErrTime s = (case SDA_READ s of (b, s1) \<Rightarrow>
     if b then (if ucErrTime + 1 > 250 then (1, I2C_Stop s1) else ack_loop (ucErrTime + 1) s1)
     else (0, pin SCL False s1))"
  by pat_completeness auto
termination by (relation "measure (\<lambda>(n, s). 251 - n)") auto

declare ack_loop.simps [simp del]

definition I2C_WaitAck :: "sgp30 \<Rightarrow> u8 \<times> sgp30" where
  "I2C_WaitAck s = ack_loop 0 (pin SCL True (pin SDA True s))"

definition I2C_Ack :: "sgp30 \<Rightarrow> sgp30" where
  "I2C_Ack s = pin SCL False (pin SCL True (pin SDA False (pin SCL False s)))"

definition I2C_NAck :: "sgp30 \<Rightarrow> sgp30" where
  "I2C_NAck s = pin SCL False (pin SCL True (pin SDA True (pin SCL False s)))"

fun send_bits :: "nat \<Rightarrow> u8 \<Rightarrow> sgp30 \<Rightarrow> sgp30" where
  "send_bits 0 txd s = s"
| "send_bits (Suc n) txd s =
     send_bits n (push_bit 1 txd) (pin SCL False (pin SCL True (pin SDA (txd AND 0x80 \<noteq> 0) s)))"

definition I2C_SendByte :: "u8 \<Rightarrow> sgp30 \<Rightarrow> sgp30" where
  "I2C_SendByte txd s = send_bits 8 txd (pin SCL False s)"

fun recv_bits :: "nat \<Rightarrow> u8 \<Rightarrow> sgp30 \<Rightarrow> u8 \<times> sgp30" where
  "recv_bits 0 receive s = (receive, s)"
| "recv_bits (Suc n) receive s =
     (case SDA_READ (pin SCL True (pin SCL False s)) of (b, s1) \<Rightarrow>
        recv_bits n (if b then push_bit 1 receive + 1 else push_bit 1 receive) s1)"

definition I2C_ReadByte :: "sgp30 \<Rightarrow> u8 \<times> sgp30" where
  "I2C_ReadByte s = (case recv_bits 8 0 (pin SDA True s) of (b, s1) \<Rightarrow> (b, pin SCL False s1))"

section \<open>CRC\<close>

definition crc_shift :: "u8 \<Rightarrow> u8" where
  "crc_shift crc = (if crc AND 0x80 \<noteq> 0 then push_bit 1 crc XOR 0x31 else push_bit 1 crc)"

definition SGP30_CRC8 :: "u8 list \<Rightarrow> u8" where
  "SGP30_CRC8 data = foldl (\<lambda>crc d. (crc_shift ^^ 8) (crc XOR d)) 0xFF data"

section \<open>The sensor\<close>

definition SGP30_ADDR_W :: u8 where "SGP30_ADDR_W = 0xB0"     \<comment> \<open>\<open>0x58 << 1\<close>\<close>

definition sgp30_fail :: "sgp30 \<Rightarrow> u16 \<times> sgp30" where
  "sgp30_fail s = (last_valid_ppm s, s\<lparr>retry_count := retry_count s + 1\<rparr>)"

definition MQ135_ReadCO2 :: "sgp30 \<Rightarrow> u16 \<times> sgp30" where
  "MQ135_ReadCO2 s0 =
     (case I2C_WaitAck (I2C_SendByte SGP30_ADDR_W (I2C_Start s0)) of (e1, s1) \<Rightarrow>
      if e1 \<noteq> 0 then sgp30_fail s1 else
      case I2C_WaitAck (I2C_SendByte 0x20 s1) of (e2, s2) \<Rightarrow>
      if e2 \<noteq> 0 then sgp30_fail s2 else
      case I2C_WaitAck (I2C_SendByte 0x08 s2) of (e3, s3) \<Rightarrow>
      if e3 \<noteq> 0 then sgp30_fail s3 else
      case I2C_WaitAck (I2C_SendByte (SGP30_ADDR_W OR 1) (I2C_Start (I2C_Stop s3))) of (e4, s4) \<Rightarrow>
      if e4 \<noteq> 0 then sgp30_fail s4 else
      case I2C_ReadByte s4 of (d0, s5) \<Rightarrow> case I2C_ReadByte (I2C_Ack s5) of (d1, s6) \<Rightarrow>
      case I2C_ReadByte (I2C_Ack s6) of (d2, s7) \<Rightarrow>
      let s8 = I2C_Ack s7; co2_eq = push_bit 8 (ucast d0) OR ucast d1 in
      if 400 \<le> co2_eq \<and> co2_eq \<le> 60000
      then (co2_eq, s8\<lparr>last_valid_ppm := co2_eq, retry_count := 0\<rparr>)
      else (last_valid_ppm s8, s8))"

abbreviation CO2_THRESHOLD :: u16 where "CO2_THRESHOLD \<equiv> 700"

definition MQ135_GetStatus :: "sgp30 \<Rightarrow> u8 \<times> sgp30" where
  "MQ135_GetStatus s = (case MQ135_ReadCO2 s of (v, s1) \<Rightarrow> (if v > CO2_THRESHOLD then 1 else 0, s1))"

definition MQ135_GetStatusString :: "sgp30 \<Rightarrow> string \<times> sgp30" where
  "MQ135_GetStatusString s = (case MQ135_GetStatus s of (st, s1) \<Rightarrow>
     (if st = 0 then ''Normal'' else if st = 1 then ''Danger'' else ''Unknown'', s1))"

record sgp30_state =
  co2_value :: u16
  co2_status :: u8
  co2_initialized :: u8
  co2_error :: u8

definition MQ135_GetState :: "sgp30 \<Rightarrow> sgp30_state \<times> sgp30" where
  "MQ135_GetState s = (case MQ135_ReadCO2 s of (v, s1) \<Rightarrow> case MQ135_GetStatus s1 of (st, s2) \<Rightarrow>
     (\<lparr>co2_value = v, co2_status = st, co2_initialized = sgp30_initialized s2, co2_error = 0\<rparr>, s2))"

fun nine_clocks :: "nat \<Rightarrow> sgp30 \<Rightarrow> sgp30" where
  "nine_clocks 0 s = s"
| "nine_clocks (Suc n) s = nine_clocks n (pin SCL True (pin SCL False s))"

text \<open>A byte whose acknowledge is waited for and ignored.\<close>

definition put_byte :: "u8 \<Rightarrow> sgp30 \<Rightarrow> sgp30" where
  "put_byte b s = snd (I2C_WaitAck (I2C_SendByte b s))"

definition MQ135_Init :: "sgp30 \<Rightarrow> sgp30" where
  "MQ135_Init s =
     (case I2C_WaitAck (I2C_SendByte SGP30_ADDR_W (I2C_Start (nine_clocks 9 (pin SDA True (pin SCL True s))))) of (e1, s1) \<Rightarrow>
      if e1 \<noteq> 0 then s1 else
      case I2C_WaitAck (I2C_SendByte SGP30_ADDR_W (I2C_Start (I2C_Stop (put_byte 0x03 (put_byte 0x20 s1))))) of (e2, s2) \<Rightarrow>
      if e2 \<noteq> 0 then s2 else
      (I2C_Stop (put_byte 0x01 (put_byte 0x00 (put_byte 0x1E (put_byte 0x20 s2)))))\<lparr>sgp30_initialized := 1\<rparr>)"

section \<open>Lemmas\<close>

lemma pin_simps [simp]:
  "sda_in (pin l b s) = sda_in s" "last_valid_ppm (pin l b s) = last_valid_ppm s"
  "i2c_log (pin l b s) = i2c_log s @ [(l, b)]"
  by (simp_all add: pin_def)

lemma bus_frame [simp]:
  "sda_in (I2C_Start s) = sda_in s" "last_valid_ppm (I2C_Start s) = last_valid_ppm s"
  "sda_in (I2C_Stop s) = sda_in s" "last_valid_ppm (I2C_Stop s) = last_valid_ppm s"
  "sda_in (I2C_Ack s) = sda_in s" "last_valid_ppm (I2C_Ack s) = last_valid_ppm s"
  by (simp_all add: I2C_Start_def I2C_Stop_def I2C_Ack_def)

lemma send_bits_frame: "sda_in (send_bits n b s) = sda_in s \<and> last_valid_ppm (send_bits n b s) = last_valid_ppm s"
  by (induction n b s rule: send_bits.induct) simp_all

lemma send_byte_frame [simp]:
  "sda_in (I2C_SendByte b s) = sda_in s" "last_valid_ppm (I2C_SendByte b s) = last_valid_ppm s"
  using send_bits_frame [of 8 b "pin SCL False s"] by (simp_all add: I2C_SendByte_def)

lemma sda_read_frame: "last_valid_ppm (snd (SDA_READ s)) = last_valid_ppm s"
  by (simp add: SDA_READ_def split: list.split)

lemma ack_loop_frame: "last_valid_ppm (snd (ack_loop n s)) = last_valid_ppm s"
proof (induction n s rule: ack_loop.induct)
  case (1 n s)
  obtain b s1 where r: "SDA_READ s = (b, s1)" by fastforce
  with sda_read_frame [of s] have "last_valid_ppm s1 = last_valid_ppm s" by simp
  with 1 r show ?case by (subst ack_loop.simps) simp
qed

lemma wait_ack_frame [simp]: "last_valid_ppm (snd (I2C_WaitAck s)) = last_valid_ppm s"
  by (simp add: I2C_WaitAck_def ack_loop_frame)

lemma recv_bits_frame: "last_valid_ppm (snd (recv_bits n r s)) = last_valid_ppm s"
proof (induction n arbitrary: r s)
  case (Suc n)
  obtain b s1 where r: "SDA_READ (pin SCL True (pin SCL False s)) = (b, s1)" by fastforce
  with sda_read_frame [of "pin SCL True (pin SCL False s)"] have "last_valid_ppm s1 = last_valid_ppm s" by simp
  with Suc r show ?case by simp
qed simp

lemma read_byte_frame [simp]: "last_valid_ppm (snd (I2C_ReadByte s)) = last_valid_ppm s"
  using recv_bits_frame [of 8 0 "pin SDA True s"] by (simp add: I2C_ReadByte_def split_beta)

text \<open>The slave acknowledges, the slave sends a byte.\<close>

lemma wait_ack_low:
  assumes "sda_in s = False # ls"
  shows "fst (I2C_WaitAck s) = 0" "sda_in (snd (I2C_WaitAck s)) = ls"
  using assms by (simp_all add: I2C_WaitAck_def ack_loop.simps SDA_READ_def)

lemma push1_add: "push_bit 1 r + 1 = (push_bit 1 r OR 1 :: u8)"
proof -
  have "\<not> bit (push_bit 1 r AND 1) n" for n unfolding bit_and_iff bit_push_bit_iff bit_1_iff by simp
  then have "push_bit 1 r AND 1 = 0" by (intro bit_word_eqI) simp
  then show ?thesis by (rule disjunctive_add_eq_or)
qed

lemma recv_bits_wave:
  "sda_in s = bs @ ls \<Longrightarrow> fst (recv_bits (length bs) r s) = foldl shift_in r bs \<and> sda_in (snd (recv_bits (length bs) r s)) = ls"
proof (induction bs arbitrary: r s)
  case (Cons b bs)
  have "SDA_READ (pin SCL True (pin SCL False s)) = (b, (pin SCL True (pin SCL False s))\<lparr>sda_in := bs @ ls\<rparr>)"
    using Cons.prems by (simp add: SDA_READ_def)
  moreover have "(if b then push_bit 1 r + 1 else push_bit 1 r) = shift_in r b"
    using push1_add [of r] by (simp add: shift_in_def)
  ultimately show ?case
    using Cons.IH [of "(pin SCL True (pin SCL False s))\<lparr>sda_in := bs @ ls\<rparr>" "shift_in r b"] by simp
qed simp

lemma read_byte_bits:
  assumes "sda_in s = byte_bits d @ ls"
  shows "fst (I2C_ReadByte s) = d" "sda_in (snd (I2C_ReadByte s)) = ls"
  using recv_bits_wave [of "pin SDA True s" "byte_bits d" ls 0] assms byte_bits_roundtrip [of 0 d]
  by (simp_all add: I2C_ReadByte_def split_beta byte_bits_def [of d, symmetric]) (simp_all add: byte_bits_def)

text \<open>What a listener on the bus sees: the level of the data line at every rising clock edge, and
  whether the data line ever moves while the clock is high.\<close>

fun sampled :: "bool \<Rightarrow> bool \<Rightarrow> (i2c_line \<times> bool) list \<Rightarrow> bool list" where
  "sampled scl sda [] = []"
| "sampled scl sda ((SDA, b) # es) = sampled scl b es"
| "sampled scl sda ((SCL, b) # es) = (if b \<and> \<not> scl then [sda] else []) @ sampled b sda es"

fun data_stable :: "bool \<Rightarrow> bool \<Rightarrow> (i2c_line \<times> bool) list \<Rightarrow> bool" where
  "data_stable scl sda [] = True"
| "data_stable scl sda ((SDA, b) # es) = ((scl \<longrightarrow> b = sda) \<and> data_stable scl b es)"
| "data_stable scl sda ((SCL, b) # es) = data_stable b sda es"

lemma top_bit: "(txd AND 0x80 \<noteq> 0) = bit txd 7" for txd :: u8
proof -
  have "(txd AND 2 ^ 7 = 0) = (\<not> bit txd 7)" by (rule and_exp_eq_0_iff_not_bit)
  then show ?thesis by simp
qed

text \<open>The edges of one bit, and of a byte from its most significant bit on.\<close>

definition bit_edges :: "bool list \<Rightarrow> (i2c_line \<times> bool) list" where
  "bit_edges bs = concat (map (\<lambda>b. [(SDA, b), (SCL, True), (SCL, False)]) bs)"

lemma send_bits_log:
  "n \<le> 8 \<Longrightarrow> i2c_log (send_bits n txd s) = i2c_log s @ bit_edges (map (\<lambda>i. bit txd (7 - i)) [0..<n])"
proof (induction n arbitrary: txd s)
  case 0
  then show ?case by (simp add: bit_edges_def)
next
  case (Suc n)
  have sh: "bit (push_bit 1 txd) (7 - i) = bit txd (7 - Suc i)" if "i < n" for i
    using that Suc.prems unfolding bit_push_bit_iff by (auto simp: Suc_diff_Suc)
  have "map (\<lambda>i. bit txd (7 - i)) [0..<Suc n] = bit txd 7 # map (\<lambda>i. bit (push_bit 1 txd) (7 - i)) [0..<n]"
    using sh by (simp add: upt_conv_Cons map_Suc_upt [symmetric] del: upt_Suc)
  then show ?case using Suc by (simp add: top_bit bit_edges_def del: upt_Suc)
qed

lemma sampled_edges: "sampled False sda (bit_edges bs) = bs"
  by (induction bs arbitrary: sda) (simp_all add: bit_edges_def)

lemma stable_edges: "data_stable False sda (bit_edges bs)"
  by (induction bs arbitrary: sda) (simp_all add: bit_edges_def)

lemma byte_msb_first: "map (\<lambda>i. bit b (7 - i)) [0..<8] = byte_bits b"
  by (simp add: byte_bits_def upt_conv_Cons numeral_eq_Suc)

section \<open>Properties\<close>

text \<open>A byte put on the bus is sampled by the slave at eight rising clock edges, most significant
  bit first, as exactly that byte, and the data line never moves while the clock is high, so no
  start or stop condition is produced within it.\<close>

theorem i2c_byte_on_bus:
  "\<exists>es. i2c_log (I2C_SendByte b s) = i2c_log s @ (SCL, False) # es \<and>
    foldl shift_in 0 (sampled False sda es) = b \<and> length (sampled False sda es) = 8 \<and> data_stable False sda es"
proof (intro exI conjI)
  show "i2c_log (I2C_SendByte b s) = i2c_log s @ (SCL, False) # bit_edges (byte_bits b)"
    using send_bits_log [of 8 b "pin SCL False s"] byte_msb_first [of b] by (simp add: I2C_SendByte_def)
  show "foldl shift_in 0 (sampled False sda (bit_edges (byte_bits b))) = b"
    by (simp add: sampled_edges byte_bits_roundtrip)
  show "length (sampled False sda (bit_edges (byte_bits b))) = 8" by (simp add: sampled_edges byte_bits_def)
  show "data_stable False sda (bit_edges (byte_bits b))" by (rule stable_edges)
qed

text \<open>C21: a measurement of a sensor that acknowledges its address and command and then sends a value
  and its CRC returns that value if it lies in 400 to 60000, and else the last good one. The CRC
  byte is read but never looked at.\<close>

theorem sgp30_measurement:
  assumes "sda_in s = [False, False, False, False] @ byte_bits (hi8 v) @ byte_bits (lo8 v) @ byte_bits crc @ rest"
  shows "fst (MQ135_ReadCO2 s) = (if 400 \<le> uint v \<and> uint v \<le> 60000 then v else last_valid_ppm s) \<and>
    last_valid_ppm (snd (MQ135_ReadCO2 s)) = fst (MQ135_ReadCO2 s)"
proof -
  obtain s1 where s1: "I2C_WaitAck (I2C_SendByte SGP30_ADDR_W (I2C_Start s)) = (0, s1)"
    "sda_in s1 = [False, False, False] @ byte_bits (hi8 v) @ byte_bits (lo8 v) @ byte_bits crc @ rest"
    "last_valid_ppm s1 = last_valid_ppm s"
    using wait_ack_low [of "I2C_SendByte SGP30_ADDR_W (I2C_Start s)"] wait_ack_frame [of "I2C_SendByte SGP30_ADDR_W (I2C_Start s)"] assms
    by (cases "I2C_WaitAck (I2C_SendByte SGP30_ADDR_W (I2C_Start s))") simp
  obtain s2 where s2: "I2C_WaitAck (I2C_SendByte 0x20 s1) = (0, s2)"
    "sda_in s2 = [False, False] @ byte_bits (hi8 v) @ byte_bits (lo8 v) @ byte_bits crc @ rest"
    "last_valid_ppm s2 = last_valid_ppm s"
    using wait_ack_low [of "I2C_SendByte 0x20 s1"] wait_ack_frame [of "I2C_SendByte 0x20 s1"] s1(2,3)
    by (cases "I2C_WaitAck (I2C_SendByte 0x20 s1)") simp
  obtain s3 where s3: "I2C_WaitAck (I2C_SendByte 0x08 s2) = (0, s3)"
    "sda_in s3 = [False] @ byte_bits (hi8 v) @ byte_bits (lo8 v) @ byte_bits crc @ rest"
    "last_valid_ppm s3 = last_valid_ppm s"
    using wait_ack_low [of "I2C_SendByte 0x08 s2"] wait_ack_frame [of "I2C_SendByte 0x08 s2"] s2(2,3)
    by (cases "I2C_WaitAck (I2C_SendByte 0x08 s2)") simp
  let ?s3 = "I2C_SendByte (SGP30_ADDR_W OR 1) (I2C_Start (I2C_Stop s3))"
  obtain s4 where s4: "I2C_WaitAck ?s3 = (0, s4)"
    "sda_in s4 = byte_bits (hi8 v) @ byte_bits (lo8 v) @ byte_bits crc @ rest" "last_valid_ppm s4 = last_valid_ppm s"
    using wait_ack_low [of ?s3] wait_ack_frame [of ?s3] s3(2,3) by (cases "I2C_WaitAck ?s3") simp
  obtain s5 where s5: "I2C_ReadByte s4 = (hi8 v, s5)" "sda_in s5 = byte_bits (lo8 v) @ byte_bits crc @ rest"
    "last_valid_ppm s5 = last_valid_ppm s"
    using read_byte_bits [OF s4(2)] read_byte_frame [of s4] s4(3) by (cases "I2C_ReadByte s4") simp
  have i5: "sda_in (I2C_Ack s5) = byte_bits (lo8 v) @ byte_bits crc @ rest" using s5(2) by simp
  obtain s6 where s6: "I2C_ReadByte (I2C_Ack s5) = (lo8 v, s6)" "last_valid_ppm s6 = last_valid_ppm s"
    using read_byte_bits(1) [OF i5] read_byte_frame [of "I2C_Ack s5"] s5(3) by (cases "I2C_ReadByte (I2C_Ack s5)") simp
  obtain d2 s7 where s7: "I2C_ReadByte (I2C_Ack s6) = (d2, s7)" "last_valid_ppm s7 = last_valid_ppm s"
    using read_byte_frame [of "I2C_Ack s6"] s6(2) by (cases "I2C_ReadByte (I2C_Ack s6)") simp
  have v: "push_bit 8 (ucast (hi8 v)) OR ucast (lo8 v) = v" using be16_hi_lo [of v] by (simp only: be16_def)
  have r: "400 \<le> v \<and> v \<le> 60000 \<longleftrightarrow> 400 \<le> uint v \<and> uint v \<le> 60000" by (simp add: word_le_def)
  have "MQ135_ReadCO2 s = (if 400 \<le> v \<and> v \<le> 60000
      then (v, (I2C_Ack s7)\<lparr>last_valid_ppm := v, retry_count := 0\<rparr>)
      else (last_valid_ppm (I2C_Ack s7), I2C_Ack s7))"
    unfolding MQ135_ReadCO2_def s1(1) prod.case s2(1) s3(1) s4(1) s5(1) s6(1) s7(1) Let_def v by simp
  with r s7(2) show ?thesis by simp
qed

definition sgp30_boot :: sgp30 where
  "sgp30_boot = \<lparr>i2c_log = [], sda_in = [], last_valid_ppm = 400, retry_count = 0, sgp30_initialized = 0\<rparr>"

lemma sgp30_measurement_witness:
  "fst (MQ135_ReadCO2 (sgp30_boot\<lparr>sda_in := [False, False, False, False] @ byte_bits (hi8 1234) @ byte_bits (lo8 1234) @ byte_bits 0\<rparr>)) = 1234"
  using sgp30_measurement [of "sgp30_boot\<lparr>sda_in := [False, False, False, False] @ byte_bits (hi8 1234) @ byte_bits (lo8 1234) @ byte_bits 0\<rparr>" 1234 0 "[]"]
  by simp

lemma crc_shift_zero [simp]: "crc_shift 0 = 0" by (simp add: crc_shift_def)

lemma crc_shift_zero_iff: "crc_shift c = 0 \<longleftrightarrow> c = 0"
proof
  assume z: "crc_shift c = 0"
  show "c = 0"
  proof (cases "bit c 7")
    case True
    have "bit (push_bit 1 c XOR 0x31 :: u8) 0" unfolding bit_xor_iff bit_push_bit_iff by simp
    with True z show ?thesis using top_bit [of c] by (simp add: crc_shift_def)
  next
    case False
    with z have p: "push_bit 1 c = 0" using top_bit [of c] by (simp add: crc_shift_def)
    show ?thesis
    proof (rule bit_word_eqI)
      fix n assume n: "n < LENGTH(8)"
      show "bit c n = bit 0 n"
      proof (cases "n = 7")
        case True with False show ?thesis by simp
      next
        case False
        have "\<not> bit (push_bit 1 c) (Suc n)" unfolding p by simp
        with False n show ?thesis unfolding bit_push_bit_iff by simp
      qed
    qed
  qed
qed simp

lemma crc_shifts_zero_iff: "(crc_shift ^^ n) c = 0 \<longleftrightarrow> c = 0"
  by (induction n) (simp_all add: crc_shift_zero_iff)

text \<open>The CRC the driver has but does not use detects what it is made for: a message followed by
  its CRC has remainder zero, and changing the CRC byte in any way makes the remainder non-zero.\<close>

theorem crc_remainder:
  "SGP30_CRC8 (data @ [c]) = 0 \<longleftrightarrow> c = SGP30_CRC8 data"
proof -
  have "SGP30_CRC8 (data @ [c]) = (crc_shift ^^ 8) (SGP30_CRC8 data XOR c)" by (simp add: SGP30_CRC8_def)
  moreover have "a XOR c = 0 \<longleftrightarrow> c = a" for a :: u8
  proof
    assume "a XOR c = 0"
    then have "a XOR (a XOR c) = a" by simp
    then show "c = a" by (simp add: xor.assoc [symmetric])
  qed simp
  ultimately show ?thesis by (simp add: crc_shifts_zero_iff)
qed

end
