(* ===== verification/Sensor_Chain.thy ===== *)
theory Sensor_Chain
  imports Sgp30 Task_Sensor
begin

text \<open>
  The analogue sensors (\<open>Drivers/BSP/ADC\<close>, \<open>FC37\<close>, \<open>MQ7\<close>) and the sensor task's view of all
  drivers: the hardware of a turn, read in the order of \<open>sensor_data_get_task\<close>, gives the
  readings the task judges. The converter's results and the levels of the digital pins are inputs.
\<close>

section \<open>The converter\<close>

definition adc_get_result :: "u32 list \<Rightarrow> u32 \<times> u32 list" where
  "adc_get_result vs = (case vs of [] \<Rightarrow> (0, []) | v # rest \<Rightarrow> (ucast (ucast v :: u16), rest))"

fun adc_sum :: "nat \<Rightarrow> u32 \<Rightarrow> u32 list \<Rightarrow> u32 \<times> u32 list" where
  "adc_sum 0 temp_val vs = (temp_val, vs)"
| "adc_sum (Suc t) temp_val vs = (case adc_get_result vs of (v, rest) \<Rightarrow> adc_sum t (temp_val + v) rest)"

definition adc_get_result_average :: "u8 \<Rightarrow> u32 list \<Rightarrow> u32 \<times> u32 list" where
  "adc_get_result_average m vs =
     (case adc_sum (unat m) 0 vs of (temp_val, rest) \<Rightarrow> (temp_val div ucast m, rest))"

section \<open>Rain and carbon monoxide\<close>

definition FC37_ReadAO :: "u32 list \<Rightarrow> u16 \<times> u32 list" where
  "FC37_ReadAO vs = (case adc_get_result vs of (_, v1) \<Rightarrow>
     case adc_get_result_average 20 v1 of (a, v2) \<Rightarrow> (ucast a, v2))"

definition FC37_GetStatus :: "u32 list \<Rightarrow> u8 \<times> u32 list" where
  "FC37_GetStatus vs = (case FC37_ReadAO vs of (ao_value, v1) \<Rightarrow> (if ao_value < 1800 then 0 else 1, v1))"

definition MQ7_ReadAO :: "u32 list \<Rightarrow> u16 \<times> u32 list" where
  "MQ7_ReadAO vs = (case adc_get_result_average 20 vs of (a, v1) \<Rightarrow> (ucast a, v1))"

text \<open>A digital output with its debouncing: the static level, the pin levels to come.\<close>

definition pin_next :: "bool list \<Rightarrow> bool \<times> bool list" where
  "pin_next ps = (case ps of [] \<Rightarrow> (True, []) | p # rest \<Rightarrow> (p, rest))"

definition MQ7_ReadDO :: "bool \<Rightarrow> bool list \<Rightarrow> bool \<times> bool \<times> bool list" where
  "MQ7_ReadDO last_status ps =
     (case pin_next ps of (c, p1) \<Rightarrow>
        if c \<noteq> last_status then (case pin_next p1 of (c', p2) \<Rightarrow> (c', c', p2)) else (c, c, p1))"

definition FC37_ReadDO :: "bool \<Rightarrow> bool list \<Rightarrow> bool \<times> bool \<times> bool list" where
  "FC37_ReadDO last_status ps =
     (case pin_next ps of (c, p1) \<Rightarrow>
        if c \<noteq> last_status then (case pin_next p1 of (c', p2) \<Rightarrow> (c', c', p2)) else (c, c, p1))"

abbreviation CO_THRESHOLD :: u16 where "CO_THRESHOLD \<equiv> 1000"

text \<open>The hardware of the sensors, with the static variables of the drivers.\<close>

record sensor_hw =
  dht_line :: "bool list"
  adc_values :: "u32 list"
  air :: sgp30
  do_pins :: "bool list"
  do_last :: bool
  mq7_last :: u8

definition MQ7_GetStatus :: "sensor_hw \<Rightarrow> u8 \<times> sensor_hw" where
  "MQ7_GetStatus h =
     (case MQ7_ReadAO (adc_values h) of (ao_value, vs) \<Rightarrow>
       (let h1 = h\<lparr>adc_values := vs\<rparr>;
            (danger, h2) = (if ao_value > CO_THRESHOLD then (True, h1)
              else (case MQ7_ReadDO (do_last h1) (do_pins h1) of (d, l, ps) \<Rightarrow>
                (\<not> d, h1\<lparr>do_last := l, do_pins := ps\<rparr>)));
            st = (if danger then 1 else 0)
        in (st, if st \<noteq> mq7_last h2 then h2\<lparr>mq7_last := st\<rparr> else h2)))"

section \<open>All drivers of a turn\<close>

definition read_sensors :: "sensor_hw \<Rightarrow> sensor_readings \<times> sensor_hw" where
  "read_sensors h =
     (case DHT11_Read_Data 0 0 (dht_line h) of (ret, temperature, humidity, l1) \<Rightarrow>
      case FC37_ReadAO (adc_values h) of (rain_value, v1) \<Rightarrow>
      case FC37_GetStatus v1 of (rain_status, v2) \<Rightarrow>
      case MQ135_ReadCO2 (air h) of (co2, a1) \<Rightarrow>
      case MQ7_ReadAO v2 of (co, v3) \<Rightarrow>
      case MQ7_GetStatus (h\<lparr>dht_line := l1, adc_values := v3, air := a1\<rparr>) of (_, h1) \<Rightarrow>
      (\<lparr>dht_ret = ret, r_temperature = temperature, r_humidity = humidity, r_rain_ao = rain_value,
        r_rain_status = rain_status, r_co2 = co2, r_co_ao = co\<rparr>, h1))"

section \<open>Lemmas\<close>

text \<open>Conversions between two bounds; an exhausted input reads as 0, hence the length.\<close>

definition conv_ok :: "nat \<Rightarrow> nat \<Rightarrow> nat \<Rightarrow> u32 list \<Rightarrow> bool" where
  "conv_ok n lo hi vs \<longleftrightarrow> n \<le> length vs \<and> (\<forall>v \<in> set (take n vs). lo \<le> unat v \<and> unat v \<le> hi)"

lemma conv_ok_Cons: "conv_ok (Suc n) lo hi (v # vs) \<longleftrightarrow> lo \<le> unat v \<and> unat v \<le> hi \<and> conv_ok n lo hi vs"
  by (auto simp: conv_ok_def)

lemma ucast_16_id:
  assumes "unat (v :: u32) \<le> 65535"
  shows "ucast (ucast v :: u16) = v"
proof -
  have w: "unat (ucast v :: u16) = unat v" using assms by (simp add: unsigned_ucast_eq take_bit_eq_mod)
  have "unat (ucast w :: u32) = unat w" for w :: u16 
  proof -
    have "unat w < 2 ^ LENGTH(16)" by (rule unsigned_less)
    then show ?thesis by (subst unsigned_ucast_eq) (simp add: unsigned_take_bit_eq take_bit_nat_eq_self)
  qed
  then have "unat (ucast (ucast v :: u16) :: u32) = unat v" unfolding w [symmetric] .
  then show ?thesis by (simp only: word_unat_eq_iff)
qed

text \<open>Summing up stays between the bounds and never wraps.\<close>

lemma adc_sum_bounds:
  "conv_ok n lo hi vs \<Longrightarrow> hi \<le> 65535 \<Longrightarrow> unat t + hi * n < 2 ^ 32 \<Longrightarrow>
     unat t + lo * n \<le> unat (fst (adc_sum n t vs)) \<and> unat (fst (adc_sum n t vs)) \<le> unat t + hi * n \<and>
     snd (adc_sum n t vs) = drop n vs"
proof (induction n arbitrary: t vs)
  case (Suc n)
  then obtain v rest where vs: "vs = v # rest" by (cases vs) (auto simp: conv_ok_def)
  have v: "lo \<le> unat v" "unat v \<le> hi" "conv_ok n lo hi rest" using Suc.prems(1) by (auto simp: vs conv_ok_Cons)
  have r: "adc_get_result vs = (v, rest)" using v(2) Suc.prems(2) by (simp add: vs adc_get_result_def ucast_16_id)
  have le: "unat t + unat v \<le> unat t + hi * Suc n" using v(2) by simp
  then have u: "unat (t + v) = unat t + unat v" using Suc.prems(3) by (intro unat_add_lem [THEN iffD1]) simp
  have "unat (t + v) + hi * n < 2 ^ 32" using u v(2) Suc.prems(3) by simp
  from Suc.IH [OF v(3) Suc.prems(2) this] u v(1,2) show ?case by (simp add: r [unfolded vs] vs)
qed simp

lemma average_bounds:
  assumes "conv_ok 20 lo hi vs" "hi \<le> 65535"
  shows "lo \<le> unat (fst (adc_get_result_average 20 vs)) \<and> unat (fst (adc_get_result_average 20 vs)) \<le> hi \<and>
    snd (adc_get_result_average 20 vs) = drop 20 vs"
proof -
  have "unat (0 :: u32) + hi * 20 < 2 ^ 32" using assms(2) by simp
  note b = adc_sum_bounds [OF assms this]
  have d: "unat (fst (adc_get_result_average 20 vs)) = unat (fst (adc_sum 20 0 vs)) div 20"
    by (simp add: adc_get_result_average_def split_beta unat_div)
  have "lo = lo * 20 div 20" by simp
  also have "\<dots> \<le> unat (fst (adc_sum 20 0 vs)) div 20" using b by (intro div_le_mono) simp
  finally have "lo \<le> unat (fst (adc_sum 20 0 vs)) div 20" .
  moreover have "unat (fst (adc_sum 20 0 vs)) div 20 \<le> hi * 20 div 20" using b by (intro div_le_mono) simp
  ultimately show ?thesis using b d by (simp add: adc_get_result_average_def split_beta)
qed

lemma ucast_u16_id: "unat (a :: u32) \<le> 65535 \<Longrightarrow> unat (ucast a :: u16) = unat a"
  by (simp add: unsigned_ucast_eq take_bit_eq_mod)

lemma mq7_bounds:
  assumes "conv_ok 20 lo hi vs" "hi \<le> 65535"
  shows "lo \<le> unat (fst (MQ7_ReadAO vs)) \<and> unat (fst (MQ7_ReadAO vs)) \<le> hi \<and> snd (MQ7_ReadAO vs) = drop 20 vs"
  using average_bounds [OF assms] assms(2) by (simp add: MQ7_ReadAO_def split_beta ucast_u16_id)

lemma fc37_bounds:
  assumes "conv_ok 21 lo hi vs" "hi \<le> 65535"
  shows "lo \<le> unat (fst (FC37_ReadAO vs)) \<and> unat (fst (FC37_ReadAO vs)) \<le> hi \<and> snd (FC37_ReadAO vs) = drop 21 vs"
proof -
  obtain v rest where vs: "vs = v # rest" using assms(1) by (cases vs) (auto simp: conv_ok_def)
  have "conv_ok (Suc 20) lo hi (v # rest)" using assms(1) vs by simp
  then have c: "conv_ok 20 lo hi rest" by (simp only: conv_ok_Cons)
  have r: "snd (adc_get_result vs) = rest" by (simp add: vs adc_get_result_def)
  have d: "drop 21 vs = drop 20 rest" by (simp add: vs)
  show ?thesis using average_bounds [OF c assms(2)] assms(2) r d by (simp add: FC37_ReadAO_def split_beta ucast_u16_id)
qed

lemma conv_ok_split: "conv_ok (n + m) lo hi vs \<Longrightarrow> conv_ok n lo hi vs \<and> conv_ok m lo hi (drop n vs)"
  by (auto simp: conv_ok_def take_add)

text \<open>The air quality driver never leaves the range it accepts.\<close>

definition ppm_ok :: "u16 \<Rightarrow> bool" where
  "ppm_ok v \<longleftrightarrow> 400 \<le> v \<and> v \<le> 60000"

lemma read_co2_ppm:
  assumes "ppm_ok (last_valid_ppm s)"
  shows "ppm_ok (fst (MQ135_ReadCO2 s)) \<and> last_valid_ppm (snd (MQ135_ReadCO2 s)) = fst (MQ135_ReadCO2 s)"
  using assms unfolding MQ135_ReadCO2_def by (auto simp: split_beta Let_def sgp30_fail_def ppm_ok_def)

lemma read_sensors_fields:
  "r_rain_ao (fst (read_sensors h)) = fst (FC37_ReadAO (adc_values h))"
  "r_co2 (fst (read_sensors h)) = fst (MQ135_ReadCO2 (air h))"
  "r_co_ao (fst (read_sensors h)) = fst (MQ7_ReadAO (snd (FC37_ReadAO (snd (FC37_ReadAO (adc_values h))))))"
  "dht_ret (fst (read_sensors h)) = fst (DHT11_Read_Data 0 0 (dht_line h))"
  "r_temperature (fst (read_sensors h)) = fst (snd (DHT11_Read_Data 0 0 (dht_line h)))"
  "r_humidity (fst (read_sensors h)) = fst (snd (snd (DHT11_Read_Data 0 0 (dht_line h))))"
  by (simp_all add: read_sensors_def split_beta FC37_GetStatus_def)

lemma mq7_status_air [simp]: "air (snd (MQ7_GetStatus h)) = air h"
  by (simp add: MQ7_GetStatus_def split_beta Let_def)

lemma read_sensors_air: "air (snd (read_sensors h)) = snd (MQ135_ReadCO2 (air h))"
  by (simp add: read_sensors_def split_beta)

section \<open>Properties\<close>


definition hw_boot :: sensor_hw where
  "hw_boot = \<lparr>dht_line = [], adc_values = replicate 62 2000, air = sgp30_boot, do_pins = [], do_last = False, mq7_last = 0\<rparr>"

lemma hw_boot_ok: "conv_ok 62 0 4095 (adc_values hw_boot)" "ppm_ok (last_valid_ppm (air hw_boot))"
  by (simp_all add: hw_boot_def conv_ok_def ppm_ok_def sgp30_boot_def)


lemma ack_loop_silent: "sda_in s = [] \<Longrightarrow> fst (ack_loop n s) = 1 \<and> sda_in (snd (ack_loop n s)) = []"
proof (induction n s rule: ack_loop.induct)
  case (1 n s)
  have "SDA_READ s = (True, s)" using 1(2) by (simp add: SDA_READ_def)
  with 1 show ?case by (subst (1 2) ack_loop.simps) simp
qed

text \<open>A CO2 sensor that never answers is not noticed: every turn reads the last good value, 400
  after power-up, as a valid measurement without error, for as long as the bus stays silent.\<close>

theorem silent_co2_sensor_unnoticed:
  assumes "sda_in (air h) = []" and "ppm_ok (last_valid_ppm (air h))" and "last_valid_ppm (air h) < 4096"
  shows "let (r, h') = read_sensors h in r_co2 r = last_valid_ppm (air h) \<and>
    \<not> has_err 3 (fst (sensor_judge r t)) \<and>
    sda_in (air h') = [] \<and> last_valid_ppm (air h') = last_valid_ppm (air h)"
proof -
  let ?s = "I2C_SendByte SGP30_ADDR_W (I2C_Start (air h))"
  obtain s1 where w: "I2C_WaitAck ?s = (1, s1)" "sda_in s1 = []" "last_valid_ppm s1 = last_valid_ppm (air h)"
    using ack_loop_silent [of "pin SCL True (pin SDA True ?s)" 0] wait_ack_frame [of ?s] assms(1)
    by (cases "I2C_WaitAck ?s") (simp add: I2C_WaitAck_def)
  then have c: "MQ135_ReadCO2 (air h) = (last_valid_ppm (air h), s1\<lparr>retry_count := retry_count s1 + 1\<rparr>)"
    by (simp add: MQ135_ReadCO2_def sgp30_fail_def)
  have "adc_valid (last_valid_ppm (air h))"
    using assms(2,3) by (auto simp: ppm_ok_def adc_valid_def word_le_def word_less_def)
  then have e: "\<not> has_err 3 (fst (sensor_judge (fst (read_sensors h)) t))"
    unfolding judge_bits read_sensors_fields c by simp
  show ?thesis
    using c w e read_sensors_air [of h] read_sensors_fields(2) [of h] by (simp add: split_beta)
qed

lemma silent_co2_sensor_unnoticed_witness:
  "r_co2 (fst (read_sensors hw_boot)) = 400 \<and> \<not> has_err 3 (fst (sensor_judge (fst (read_sensors hw_boot)) sensor_boot))"
proof -
  have "sda_in (air hw_boot) = []" "last_valid_ppm (air hw_boot) < 4096" "last_valid_ppm (air hw_boot) = 400"
    by (simp_all add: hw_boot_def sgp30_boot_def)
  then show ?thesis using silent_co2_sensor_unnoticed [of hw_boot sensor_boot] hw_boot_ok(2) by (simp add: split_beta)
qed

text \<open>A corrupted answer of the temperature and humidity sensor, which its driver reports as
  success, is still caught by the task: the sample carries the error bit and zeros.\<close>

theorem bad_checksum_flagged:
  assumes "timing_ok ((hi, lo) # ts)" and "length ts = 40"
    and "dht_line h = edge_wave hi lo @ bytes_wave ts [b0, b1, b2, b3, b4] @ ls"
    and "uint b0 + uint b1 + uint b2 + uint b3 \<noteq> uint b4"
  shows "let s = fst (sensor_judge (fst (read_sensors h)) t) in
    has_err 0 s \<and> es_temperature s = 0 \<and> es_humidity s = 0 \<and> dht_ret (fst (read_sensors h)) = 0"
proof -
  have d: "DHT11_Read_Data 0 0 (dht_line h) = (0, 0, 0, ls)"
    unfolding assms(3) using dht11_wave [OF assms(1,2), of 0 0 b0 b1 b2 b3 b4 ls] assms(4) by simp
  have z: "r_temperature (fst (read_sensors h)) = 0" "r_humidity (fst (read_sensors h)) = 0"
    "dht_ret (fst (read_sensors h)) = 0"
    unfolding read_sensors_fields d by simp_all
  then have "\<not> dht_valid (fst (read_sensors h))" by (simp add: dht_valid_def)
  then show ?thesis unfolding Let_def judge_bits judge_values using z by simp
qed

lemma bad_checksum_flagged_witness:
  "has_err 0 (fst (sensor_judge (fst (read_sensors
     (hw_boot\<lparr>dht_line := edge_wave 3 5 @ bytes_wave (replicate 40 (2, 4)) [55, 0, 23, 0, 77]\<rparr>))) sensor_boot))"
proof -
  have t: "timing_ok ((3, 5) # replicate 40 (2, 4))" by (auto simp: timing_ok_def)
  show ?thesis
    using bad_checksum_flagged [OF t, of "hw_boot\<lparr>dht_line := edge_wave 3 5 @ bytes_wave (replicate 40 (2, 4)) [55, 0, 23, 0, 77]\<rparr>"
      55 0 23 0 77 "[]" sensor_boot] by (simp add: Let_def)
qed

end
