(* ===== verification/Lora_Module.thy ===== *)
theory Lora_Module
  imports Agro_Prelude
begin

text \<open>
  The LoRa module driver: the receiver of \<open>Drivers/BSP/ATK-MW1278/atk_mw1278d_uart.c\<close> (a frame
  buffer filled by the UART interrupt and closed by a timer interrupt after 10 ms of silence)
  and the AT commands of \<open>atk_mw1278d.c\<close>. The line is an input: per millisecond waited, the
  interrupts that occur in it.
\<close>

section \<open>State\<close>

abbreviation ATK_MW1278D_UART_RX_BUF_SIZE :: nat where "ATK_MW1278D_UART_RX_BUF_SIZE \<equiv> 128"
abbreviation ATK_MW1278D_UART_TX_BUF_SIZE :: nat where "ATK_MW1278D_UART_TX_BUF_SIZE \<equiv> 128"
abbreviation ATK_MW1278D_AT_TIMEOUT :: nat where "ATK_MW1278D_AT_TIMEOUT \<equiv> 500"

abbreviation ATK_MW1278D_EOK :: u8 where "ATK_MW1278D_EOK \<equiv> 0"
abbreviation ATK_MW1278D_ERROR :: u8 where "ATK_MW1278D_ERROR \<equiv> 1"
abbreviation ATK_MW1278D_ETIMEOUT :: u8 where "ATK_MW1278D_ETIMEOUT \<equiv> 2"
abbreviation ATK_MW1278D_EINVAL :: u8 where "ATK_MW1278D_EINVAL \<equiv> 3"
abbreviation ATK_MW1278D_EBUSY :: u8 where "ATK_MW1278D_EBUSY \<equiv> 4"

datatype lora_event =
    Uart_Rxne u8       \<comment> \<open>a byte has arrived\<close>
  | Uart_Ore           \<comment> \<open>overrun, no byte\<close>
  | Tim_Update         \<comment> \<open>10 ms without a byte, if the timer runs\<close>

record lora_uart =
  rx_buf :: "u8 list"
  rx_len :: nat                    \<comment> \<open>\<open>sta.len\<close>, 15 bits\<close>
  rx_finsh :: bool                 \<comment> \<open>\<open>sta.finsh\<close>\<close>
  tim_running :: bool
  lora_line :: "u8 list"           \<comment> \<open>what has been transmitted\<close>
  md0 :: bool
  ahead :: "lora_event list list"    \<comment> \<open>the interrupts to come, per millisecond\<close>

section \<open>The UART\<close>

definition atk_mw1278d_uart_printf :: "u8 list \<Rightarrow> 'z lora_uart_scheme \<Rightarrow> 'z lora_uart_scheme" where
  "atk_mw1278d_uart_printf text u = u\<lparr>lora_line := lora_line u @ cstr text\<rparr>"

definition atk_mw1278d_uart_send_bin :: "u8 list option \<Rightarrow> nat \<Rightarrow> 'z lora_uart_scheme \<Rightarrow> 'z lora_uart_scheme" where
  "atk_mw1278d_uart_send_bin buf len u = (case buf of
       None \<Rightarrow> u
     | Some bs \<Rightarrow> if len = 0 then u
         else u\<lparr>lora_line := lora_line u @
           take (if len > ATK_MW1278D_UART_TX_BUF_SIZE then ATK_MW1278D_UART_TX_BUF_SIZE else len) bs\<rparr>)"

definition atk_mw1278d_uart_rx_restart :: "'z lora_uart_scheme \<Rightarrow> 'z lora_uart_scheme" where
  "atk_mw1278d_uart_rx_restart u = u\<lparr>rx_len := 0, rx_finsh := False\<rparr>"

definition atk_mw1278d_uart_rx_get_frame :: "'z lora_uart_scheme \<Rightarrow> u8 list option \<times> 'z lora_uart_scheme" where
  "atk_mw1278d_uart_rx_get_frame u =
     (if rx_finsh u then (let u' = u\<lparr>rx_buf := (rx_buf u)[rx_len u := 0]\<rparr> in (Some (rx_buf u'), u'))
      else (None, u))"

definition atk_mw1278d_uart_rx_get_frame_len :: "'z lora_uart_scheme \<Rightarrow> nat" where
  "atk_mw1278d_uart_rx_get_frame_len u = (if rx_finsh u then rx_len u else 0)"

definition ATK_MW1278D_TIM_IRQHandler :: "bool \<Rightarrow> 'z lora_uart_scheme \<Rightarrow> 'z lora_uart_scheme" where
  "ATK_MW1278D_TIM_IRQHandler update u =
     (if update then u\<lparr>rx_finsh := True, tim_running := False\<rparr> else u)"

definition ATK_MW1278D_UART_IRQHandler :: "u8 option \<Rightarrow> 'z lora_uart_scheme \<Rightarrow> 'z lora_uart_scheme" where
  "ATK_MW1278D_UART_IRQHandler rxne u = (case rxne of
       None \<Rightarrow> u
     | Some tmp \<Rightarrow>
         if rx_len u < ATK_MW1278D_UART_RX_BUF_SIZE - 1 then
           (let u1 = (if rx_len u = 0 then u\<lparr>tim_running := True\<rparr> else u)
            in u1\<lparr>rx_buf := (rx_buf u1)[rx_len u1 := tmp], rx_len := rx_len u1 + 1\<rparr>)
         else u\<lparr>rx_buf := (rx_buf u)[0 := tmp], rx_len := 1\<rparr>)"

text \<open>An interrupt as the hardware raises it: the timer only while it runs.\<close>

fun lora_irq :: "lora_event \<Rightarrow> 'z lora_uart_scheme \<Rightarrow> 'z lora_uart_scheme" where
  "lora_irq (Uart_Rxne b) u = ATK_MW1278D_UART_IRQHandler (Some b) u"
| "lora_irq Uart_Ore u = ATK_MW1278D_UART_IRQHandler None u"
| "lora_irq Tim_Update u = ATK_MW1278D_TIM_IRQHandler (tim_running u) u"

text \<open>\<open>delay_ms (1)\<close>: the interrupts of the next millisecond.\<close>

definition delay_1ms :: "'z lora_uart_scheme \<Rightarrow> 'z lora_uart_scheme" where
  "delay_1ms u = (case ahead u of [] \<Rightarrow> u | es # rest \<Rightarrow> fold lora_irq es (u\<lparr>ahead := rest\<rparr>))"

section \<open>AT commands\<close>

abbreviation crlf :: "u8 list" where "crlf \<equiv> [13, 10]"

fun atk_wait :: "u8 list \<Rightarrow> nat \<Rightarrow> 'z lora_uart_scheme \<Rightarrow> u8 \<times> 'z lora_uart_scheme" where
  "atk_wait ack 0 u = (ATK_MW1278D_ETIMEOUT, u)"
| "atk_wait ack (Suc timeout) u = (case atk_mw1278d_uart_rx_get_frame u of
       (None, u1) \<Rightarrow> atk_wait ack timeout (delay_1ms u1)
     | (Some f, u1) \<Rightarrow>
         if find_sub ack (cstr f) \<noteq> None then (ATK_MW1278D_EOK, u1)
         else atk_wait ack timeout (delay_1ms (atk_mw1278d_uart_rx_restart u1)))"

definition atk_mw1278d_send_at_cmd :: "u8 list \<Rightarrow> u8 list option \<Rightarrow> nat \<Rightarrow> 'z lora_uart_scheme \<Rightarrow> u8 \<times> 'z lora_uart_scheme" where
  "atk_mw1278d_send_at_cmd cmd ack timeout u =
     (let u1 = atk_mw1278d_uart_printf (cstr cmd @ crlf) (atk_mw1278d_uart_rx_restart u)
      in case ack of None \<Rightarrow> (ATK_MW1278D_EOK, u1)
         | Some a \<Rightarrow> if timeout = 0 then (ATK_MW1278D_EOK, u1) else atk_wait a timeout u1)"

text \<open>The tail all commands share.\<close>

definition at_config :: "u8 list \<Rightarrow> 'z lora_uart_scheme \<Rightarrow> u8 \<times> 'z lora_uart_scheme" where
  "at_config cmd u =
     (case atk_mw1278d_send_at_cmd cmd (Some (ascii ''OK'')) ATK_MW1278D_AT_TIMEOUT u of (ret, u') \<Rightarrow>
        (if ret \<noteq> ATK_MW1278D_EOK then ATK_MW1278D_ERROR else ATK_MW1278D_EOK, u'))"

fun at_test_loop :: "nat \<Rightarrow> 'z lora_uart_scheme \<Rightarrow> u8 \<times> 'z lora_uart_scheme" where
  "at_test_loop 0 u = (ATK_MW1278D_ERROR, u)"
| "at_test_loop (Suc n) u =
     (case atk_mw1278d_send_at_cmd (ascii ''AT'') (Some (ascii ''OK'')) ATK_MW1278D_AT_TIMEOUT u of (ret, u') \<Rightarrow>
        if ret = ATK_MW1278D_EOK then (ATK_MW1278D_EOK, u') else at_test_loop n u')"

definition atk_mw1278d_at_test :: "'z lora_uart_scheme \<Rightarrow> u8 \<times> 'z lora_uart_scheme" where
  "atk_mw1278d_at_test = at_test_loop 10"

definition atk_mw1278d_echo_config :: "u8 \<Rightarrow> 'z lora_uart_scheme \<Rightarrow> u8 \<times> 'z lora_uart_scheme" where
  "atk_mw1278d_echo_config enable u =
     (if enable = 1 then at_config (ascii ''ATE1'') u
      else if enable = 0 then at_config (ascii ''ATE0'') u
      else (ATK_MW1278D_EINVAL, u))"

definition atk_mw1278d_sw_reset :: "'z lora_uart_scheme \<Rightarrow> u8 \<times> 'z lora_uart_scheme" where
  "atk_mw1278d_sw_reset = at_config (ascii ''AT+RESET'')"

definition atk_mw1278d_flash_config :: "u8 \<Rightarrow> 'z lora_uart_scheme \<Rightarrow> u8 \<times> 'z lora_uart_scheme" where
  "atk_mw1278d_flash_config enable u =
     (if enable = 0 then at_config (ascii ''AT+FLASH=0'') u
      else if enable = 1 then at_config (ascii ''AT+FLASH=1'') u
      else (ATK_MW1278D_EINVAL, u))"

definition atk_mw1278d_default :: "'z lora_uart_scheme \<Rightarrow> u8 \<times> 'z lora_uart_scheme" where
  "atk_mw1278d_default = at_config (ascii ''AT+DEFAULT'')"

text \<open>\<open>%02X\<close> of a byte.\<close>

definition hex_digit :: "nat \<Rightarrow> u8" where
  "hex_digit d = (if d < 10 then 48 + of_nat d else 55 + of_nat d)"

definition hex2 :: "u8 \<Rightarrow> u8 list" where
  "hex2 b = [hex_digit (unat b div 16), hex_digit (unat b mod 16)]"

definition atk_mw1278d_addr_config :: "u16 \<Rightarrow> 'z lora_uart_scheme \<Rightarrow> u8 \<times> 'z lora_uart_scheme" where
  "atk_mw1278d_addr_config addr =
     at_config (ascii ''AT+ADDR='' @ hex2 (ucast (drop_bit 8 addr) AND 0xFF) @ ascii '','' @ hex2 (ucast addr AND 0xFF))"

definition atk_mw1278d_tpower_config :: "u8 \<Rightarrow> 'z lora_uart_scheme \<Rightarrow> u8 \<times> 'z lora_uart_scheme" where
  "atk_mw1278d_tpower_config tpower u =
     (if tpower \<in> {0, 1, 2, 3} then at_config (ascii ''AT+TPOWER='' @ dec_digits (unat tpower)) u
      else (ATK_MW1278D_EINVAL, u))"

definition atk_mw1278d_workmode_config :: "u8 \<Rightarrow> 'z lora_uart_scheme \<Rightarrow> u8 \<times> 'z lora_uart_scheme" where
  "atk_mw1278d_workmode_config workmode u =
     (if workmode \<in> {0, 1, 2, 3} then at_config (ascii ''AT+CWMODE='' @ dec_digits (unat workmode)) u
      else (ATK_MW1278D_EINVAL, u))"

definition atk_mw1278d_tmode_config :: "u8 \<Rightarrow> 'z lora_uart_scheme \<Rightarrow> u8 \<times> 'z lora_uart_scheme" where
  "atk_mw1278d_tmode_config tmode u =
     (if tmode \<in> {0, 1} then at_config (ascii ''AT+TMODE='' @ dec_digits (unat tmode)) u
      else (ATK_MW1278D_EINVAL, u))"

definition atk_mw1278d_wlrate_channel_config :: "u8 \<Rightarrow> u8 \<Rightarrow> 'z lora_uart_scheme \<Rightarrow> u8 \<times> 'z lora_uart_scheme" where
  "atk_mw1278d_wlrate_channel_config wlrate channel u =
     (if wlrate \<notin> {1, 2, 3, 4, 5} then (ATK_MW1278D_EINVAL, u)
      else if channel > 83 then (ATK_MW1278D_EINVAL, u)
      else at_config (ascii ''AT+WLRATE='' @ dec_digits (unat channel) @ ascii '','' @ dec_digits (unat wlrate)) u)"

definition atk_mw1278d_wltime_config :: "u8 \<Rightarrow> 'z lora_uart_scheme \<Rightarrow> u8 \<times> 'z lora_uart_scheme" where
  "atk_mw1278d_wltime_config wltime u =
     (if wltime \<in> {0, 1} then at_config (ascii ''AT+WLTIME='' @ dec_digits (unat wltime)) u
      else (ATK_MW1278D_EINVAL, u))"

definition atk_mw1278d_uart_config :: "u8 \<Rightarrow> u8 \<Rightarrow> 'z lora_uart_scheme \<Rightarrow> u8 \<times> 'z lora_uart_scheme" where
  "atk_mw1278d_uart_config baudrate parity u =
     (if baudrate \<notin> {0, 1, 2, 3, 4, 5, 6, 7} then (ATK_MW1278D_EINVAL, u)
      else if parity \<notin> {0, 1, 2} then (ATK_MW1278D_EINVAL, u)
      else at_config (ascii ''AT+UART='' @ dec_digits (unat baudrate) @ ascii '','' @ dec_digits (unat parity)) u)"

section \<open>Initialisation\<close>

definition atk_mw1278d_enter_config :: "'z lora_uart_scheme \<Rightarrow> 'z lora_uart_scheme" where
  "atk_mw1278d_enter_config u = u\<lparr>md0 := True\<rparr>"

definition atk_mw1278d_exit_config :: "'z lora_uart_scheme \<Rightarrow> 'z lora_uart_scheme" where
  "atk_mw1278d_exit_config u = u\<lparr>md0 := False\<rparr>"

text \<open>\<open>aux\<close>: the level of the AUX pin.\<close>

definition atk_mw1278d_free :: "bool \<Rightarrow> u8" where
  "atk_mw1278d_free aux = (if aux then ATK_MW1278D_EBUSY else ATK_MW1278D_EOK)"

definition atk_mw1278d_init :: "'z lora_uart_scheme \<Rightarrow> u8 \<times> 'z lora_uart_scheme" where
  "atk_mw1278d_init u =
     (let u1 = u\<lparr>md0 := False\<rparr>;    \<comment> \<open>\<open>atk_mw1278d_hw_init\<close>; the UART set-up keeps the frame state\<close>
          (ret, u2) = atk_mw1278d_at_test (atk_mw1278d_enter_config u1);
          u3 = atk_mw1278d_exit_config u2
      in (if ret \<noteq> ATK_MW1278D_EOK then ATK_MW1278D_ERROR else ATK_MW1278D_EOK, u3))"

text \<open>Both branches after \<open>atk_mw1278d_init\<close> return; the configuration that follows is not reached.\<close>

definition ATK_MW1278D_Init :: "'z lora_uart_scheme \<Rightarrow> u8 \<times> 'z lora_uart_scheme" where
  "ATK_MW1278D_Init u =
     (case atk_mw1278d_init u of (ret, u') \<Rightarrow>
        if ret \<noteq> 0 then (ATK_MW1278D_ERROR, u') else (ATK_MW1278D_EOK, u'))"

section \<open>Receiver lemmas\<close>

definition rx_ok :: "'z lora_uart_scheme \<Rightarrow> bool" where
  "rx_ok u \<longleftrightarrow> length (rx_buf u) = 128 \<and> rx_len u \<le> 127"

lemma rx_ok_irq [inv_intros]: "rx_ok u \<Longrightarrow> rx_ok (lora_irq e u)"
  by (cases e) (auto simp: rx_ok_def ATK_MW1278D_UART_IRQHandler_def ATK_MW1278D_TIM_IRQHandler_def Let_def)

lemma rx_ok_irqs [inv_intros]: "rx_ok u \<Longrightarrow> rx_ok (fold lora_irq es u)"
  by (induction es arbitrary: u) (simp_all add: rx_ok_irq)

lemma rx_ok_restart [inv_intros]: "rx_ok u \<Longrightarrow> rx_ok (atk_mw1278d_uart_rx_restart u)"
  by (simp add: rx_ok_def atk_mw1278d_uart_rx_restart_def)

lemma rx_ok_get [inv_intros]: "rx_ok u \<Longrightarrow> rx_ok (snd (atk_mw1278d_uart_rx_get_frame u))"
  by (simp add: rx_ok_def atk_mw1278d_uart_rx_get_frame_def Let_def)

lemma rx_ok_delay [inv_intros]: "rx_ok u \<Longrightarrow> rx_ok (delay_1ms u)"
  unfolding delay_1ms_def by (cases "ahead u") (simp_all add: rx_ok_irqs rx_ok_def [of "u\<lparr>ahead := _\<rparr>"] rx_ok_def [of u])

definition rx_frame :: "'z lora_uart_scheme \<Rightarrow> u8 list" where
  "rx_frame u = take (rx_len u) (rx_buf u)"

lemma rx_frame_byte:
  assumes "rx_ok u"
  shows "rx_frame (lora_irq (Uart_Rxne b) u) = (if rx_len u < 127 then rx_frame u @ [b] else [b])"
    and "rx_len (lora_irq (Uart_Rxne b) u) = (if rx_len u < 127 then Suc (rx_len u) else 1)"
proof -
  have l: "length (rx_buf u) = 128" "rx_len u \<le> 127" using assms by (auto simp: rx_ok_def)
  then have "take 1 ((rx_buf u)[0 := b]) = [b]" by (cases "rx_buf u") auto
  with l show "rx_frame (lora_irq (Uart_Rxne b) u) = (if rx_len u < 127 then rx_frame u @ [b] else [b])"
    by (simp add: rx_frame_def ATK_MW1278D_UART_IRQHandler_def Let_def take_Suc_conv_app_nth)
  show "rx_len (lora_irq (Uart_Rxne b) u) = (if rx_len u < 127 then Suc (rx_len u) else 1)"
    by (simp add: ATK_MW1278D_UART_IRQHandler_def Let_def)
qed

lemma rx_frame_length: "rx_ok u \<Longrightarrow> length (rx_frame u) = rx_len u"
  by (auto simp: rx_frame_def rx_ok_def)

text \<open>The frame after a burst of bytes: 127 bytes fill the buffer, the next one starts afresh.\<close>

lemma rx_burst:
  assumes "rx_ok u" "rx_len u = 0" "bs \<noteq> []"
  shows "rx_frame (fold lora_irq (map Uart_Rxne bs) u) = drop (127 * ((length bs - 1) div 127)) bs"
  using assms(3)
proof (induction bs rule: rev_induct)
  case (snoc b bs)
  show ?case
  proof (cases "bs = []")
    case True
    then show ?thesis using rx_frame_byte(1) [OF assms(1), of b] assms(2) by (simp add: rx_frame_def)
  next
    case False
    define v where "v = fold lora_irq (map Uart_Rxne bs) u"
    define k where "k = length bs - 1"
    have k: "length bs = Suc k" using False by (simp add: k_def)
    have ok: "rx_ok v" unfolding v_def by (rule rx_ok_irqs [OF assms(1)])
    have f: "rx_frame v = drop (127 * (k div 127)) bs" using snoc.IH [OF False] by (simp add: v_def k_def)
    have m: "127 * (k div 127) + k mod 127 = k" by simp
    have len: "rx_len v = Suc (k mod 127)"
      using rx_frame_length [OF ok] f k minus_mult_div_eq_mod [of k 127] by (simp add: Suc_diff_le)
    have run: "fold lora_irq (map Uart_Rxne (bs @ [b])) u = lora_irq (Uart_Rxne b) v" by (simp add: v_def)
    have goal: "(length (bs @ [b]) - 1) div 127 = Suc k div 127" by (simp add: k)
    show ?thesis
    proof (cases "k mod 127 = 126")
      case True
      then have "Suc k div 127 = Suc (k div 127)" "127 * Suc (k div 127) = Suc k" using m by (auto simp: div_Suc mod_Suc)
      then show ?thesis unfolding run goal using rx_frame_byte(1) [OF ok, of b] len True k by simp
    next
      case False
      then have "k mod 127 < 126" using mod_less_divisor [of 127 k] by linarith
      moreover have "Suc k div 127 = k div 127" using False by (simp add: div_Suc mod_Suc)
      moreover have "127 * (k div 127) \<le> length bs" using m k by linarith
      ultimately show ?thesis unfolding run goal using rx_frame_byte(1) [OF ok, of b] len f by simp
    qed
  qed
qed simp

lemma irq_bytes_timer:
  "bs \<noteq> [] \<Longrightarrow> rx_len u = 0 \<Longrightarrow> tim_running (fold lora_irq (map Uart_Rxne bs) u)"
proof (induction bs rule: rev_induct)
  case (snoc b bs)
  have keep: "tim_running v \<or> rx_len v = 0 \<Longrightarrow> tim_running (lora_irq (Uart_Rxne b) v)" for v :: "'a lora_uart_scheme"
    by (auto simp: ATK_MW1278D_UART_IRQHandler_def Let_def)
  show ?case using snoc keep by (cases "bs = []") auto
qed simp

lemma irq_frame [simp]:
  "lora_line (lora_irq e u) = lora_line u" "md0 (lora_irq e u) = md0 u" "ahead (lora_irq e u) = ahead u"
  by (cases e; simp add: ATK_MW1278D_UART_IRQHandler_def ATK_MW1278D_TIM_IRQHandler_def Let_def split: option.split)+

lemma irqs_frame [simp]:
  "lora_line (fold lora_irq es u) = lora_line u" "md0 (fold lora_irq es u) = md0 u"
  "ahead (fold lora_irq es u) = ahead u"
  by (induction es arbitrary: u) simp_all

lemma delay_frame [simp]: "lora_line (delay_1ms u) = lora_line u" "md0 (delay_1ms u) = md0 u"
  "ahead (delay_1ms u) = tl (ahead u)"
  by (simp_all add: delay_1ms_def split: list.split)

lemma get_frame_frame [simp]:
  "lora_line (snd (atk_mw1278d_uart_rx_get_frame u)) = lora_line u"
  "md0 (snd (atk_mw1278d_uart_rx_get_frame u)) = md0 u"
  "ahead (snd (atk_mw1278d_uart_rx_get_frame u)) = ahead u"
  by (simp_all add: atk_mw1278d_uart_rx_get_frame_def Let_def)

lemma restart_frame [simp]:
  "lora_line (atk_mw1278d_uart_rx_restart u) = lora_line u"
  "md0 (atk_mw1278d_uart_rx_restart u) = md0 u" "ahead (atk_mw1278d_uart_rx_restart u) = ahead u"
  by (simp_all add: atk_mw1278d_uart_rx_restart_def)

text \<open>The frame read, up to its length, is the frame received.\<close>

lemma get_frame_text:
  assumes "rx_ok u" "rx_finsh u"
  shows "\<exists>f. fst (atk_mw1278d_uart_rx_get_frame u) = Some f \<and> take (rx_len u) f = rx_frame u \<and> cstr f = cstr (rx_frame u)"
proof -
  let ?f = "(rx_buf u)[rx_len u := 0]"
  have l: "rx_len u < length (rx_buf u)" using assms(1) by (auto simp: rx_ok_def)
  then have "?f = rx_frame u @ 0 # drop (Suc (rx_len u)) (rx_buf u)"
    by (simp add: rx_frame_def upd_conv_take_nth_drop)
  then have "cstr ?f = cstr (rx_frame u)" by (simp add: cstr_def takeWhile_tail)
  with assms(2) show ?thesis by (simp add: atk_mw1278d_uart_rx_get_frame_def Let_def rx_frame_def)
qed

section \<open>AT command lemmas\<close>

lemma atk_wait_facts:
  "lora_line (snd (atk_wait ack n u)) = lora_line u \<and> md0 (snd (atk_wait ack n u)) = md0 u \<and>
   (fst (atk_wait ack n u) = ATK_MW1278D_EOK \<or>
    fst (atk_wait ack n u) = ATK_MW1278D_ETIMEOUT \<and> ahead (snd (atk_wait ack n u)) = drop n (ahead u))"
proof (induction n arbitrary: u)
  case (Suc n)
  obtain f u1 where g: "atk_mw1278d_uart_rx_get_frame u = (f, u1)" by fastforce
  then have k: "lora_line u1 = lora_line u" "md0 u1 = md0 u" "ahead u1 = ahead u"
    using get_frame_frame [of u] by simp_all
  show ?case
    using Suc.IH [of "delay_1ms u1"] Suc.IH [of "delay_1ms (atk_mw1278d_uart_rx_restart u1)"] g k
    by (cases f) (auto simp: drop_Suc)
qed simp

lemma rx_ok_wait [inv_intros]: "rx_ok u \<Longrightarrow> rx_ok (snd (atk_wait ack n u))"
proof (induction n arbitrary: u)
  case (Suc n)
  obtain f u1 where g: "atk_mw1278d_uart_rx_get_frame u = (f, u1)" by fastforce
  have "rx_ok u1" using rx_ok_get [OF Suc.prems] g by simp
  then show ?case using g Suc.IH rx_ok_delay rx_ok_restart by (cases f) auto
qed simp

definition printed :: "u8 list \<Rightarrow> 'z lora_uart_scheme \<Rightarrow> 'z lora_uart_scheme" where
  "printed cmd u = atk_mw1278d_uart_printf (cstr cmd @ crlf) (atk_mw1278d_uart_rx_restart u)"

lemma printed_simps [simp]:
  "lora_line (printed cmd u) = lora_line u @ cstr cmd @ crlf" "md0 (printed cmd u) = md0 u"
  "ahead (printed cmd u) = ahead u" "rx_len (printed cmd u) = 0" "rx_finsh (printed cmd u) = False"
proof -
  have "cstr (cstr cmd @ crlf) = cstr cmd @ crlf" by (rule cstr_no_nul) simp
  then show "lora_line (printed cmd u) = lora_line u @ cstr cmd @ crlf" "md0 (printed cmd u) = md0 u"
    "ahead (printed cmd u) = ahead u" "rx_len (printed cmd u) = 0" "rx_finsh (printed cmd u) = False"
    by (simp_all add: printed_def atk_mw1278d_uart_printf_def) (simp_all add: atk_mw1278d_uart_rx_restart_def)
qed

lemma rx_ok_printed [inv_intros]: "rx_ok u \<Longrightarrow> rx_ok (printed cmd u)"
  by (simp add: rx_ok_def printed_def atk_mw1278d_uart_printf_def atk_mw1278d_uart_rx_restart_def)

lemma send_at_cmd_eq:
  "atk_mw1278d_send_at_cmd cmd (Some ack) (Suc n) u = atk_wait ack (Suc n) (printed cmd u)"
  by (simp add: atk_mw1278d_send_at_cmd_def Let_def printed_def)

lemma send_500: "atk_mw1278d_send_at_cmd cmd (Some ack) 500 u = atk_wait ack 500 (printed cmd u)"
  using send_at_cmd_eq [of cmd ack 499 u] by simp

lemma at_config_eq:
  "at_config cmd u = (case atk_wait (ascii ''OK'') 500 (printed cmd u) of (ret, u') \<Rightarrow>
     (if ret \<noteq> ATK_MW1278D_EOK then ATK_MW1278D_ERROR else ATK_MW1278D_EOK, u'))"
  by (simp add: at_config_def send_500)

lemma at_config_facts:
  "lora_line (snd (at_config cmd u)) = lora_line u @ cstr cmd @ crlf"
  "fst (at_config cmd u) = ATK_MW1278D_EOK \<or> fst (at_config cmd u) = ATK_MW1278D_ERROR"
  using atk_wait_facts [of "ascii ''OK''" 500 "printed cmd u"] by (simp_all add: at_config_eq split_beta)

lemma rx_ok_at_config [inv_intros]: "rx_ok u \<Longrightarrow> rx_ok (snd (at_config cmd u))"
  using rx_ok_wait [OF rx_ok_printed, of u "ascii ''OK''" 500 cmd] by (simp add: at_config_eq split_beta)

text \<open>Silence, then a frame.\<close>

lemma atk_wait_silence:
  "\<not> rx_finsh u \<Longrightarrow> ahead u = replicate k [] @ rest \<Longrightarrow> k \<le> n \<Longrightarrow> atk_wait ack n u = atk_wait ack (n - k) (u\<lparr>ahead := rest\<rparr>)"
proof (induction k arbitrary: n u)
  case (Suc k)
  then obtain m where n: "n = Suc m" by (cases n) auto
  have "atk_wait ack n u = atk_wait ack m (u\<lparr>ahead := replicate k [] @ rest\<rparr>)"
    using Suc.prems by (simp add: n atk_mw1278d_uart_rx_get_frame_def delay_1ms_def)
  then show ?case using Suc.IH [of "u\<lparr>ahead := replicate k [] @ rest\<rparr>" m] Suc.prems n by simp
next
  case 0
  then have "u\<lparr>ahead := rest\<rparr> = u" by simp
  then show ?case by simp
qed

lemma rx_burst_timer:
  assumes "rx_ok u" "rx_len u = 0" "bs \<noteq> []"
  defines "v \<equiv> fold lora_irq (map Uart_Rxne bs @ [Tim_Update]) u"
  shows "rx_finsh v" "rx_ok v" "rx_frame v = drop (127 * ((length bs - 1) div 127)) bs" "\<not> tim_running v"
proof -
  let ?u = "fold lora_irq (map Uart_Rxne bs) u"
  have v: "v = ?u\<lparr>rx_finsh := True, tim_running := False\<rparr>"
    using irq_bytes_timer [OF assms(3,2)] by (simp add: v_def ATK_MW1278D_TIM_IRQHandler_def)
  show "rx_finsh v" "\<not> tim_running v" by (simp_all add: v)
  show "rx_frame v = drop (127 * ((length bs - 1) div 127)) bs" using rx_burst [OF assms(1-3)] by (simp add: v rx_frame_def)
  show "rx_ok v" using rx_ok_irqs [OF assms(1), of "map Uart_Rxne bs"] by (simp add: v rx_ok_def)
qed

section \<open>Properties\<close>

text \<open>Whatever bytes arrive while the receiver is idle, the frame the driver hands out once the
  line falls silent is the burst, if it has at most 127 bytes, and else what is left of it after
  dropping full buffers of 127 bytes from its front: never a byte beyond the buffer, and never
  the beginning of a frame that was too long.\<close>

theorem frame_received:
  assumes "rx_ok u" and "rx_len u = 0" and "bs \<noteq> []"
  shows "let v = fold lora_irq (map Uart_Rxne bs @ [Tim_Update]) u; k = atk_mw1278d_uart_rx_get_frame_len v in
    \<exists>f w. atk_mw1278d_uart_rx_get_frame v = (Some f, w) \<and> rx_ok w \<and>
      take k f = drop (127 * ((length bs - 1) div 127)) bs \<and> k = Suc ((length bs - 1) mod 127)"
proof -
  let ?v = "fold lora_irq (map Uart_Rxne bs @ [Tim_Update]) u"
  note v = rx_burst_timer [OF assms]
  have len: "rx_len ?v = Suc ((length bs - 1) mod 127)"
  proof -
    have "rx_len ?v = length bs - 127 * ((length bs - 1) div 127)"
      using rx_frame_length [OF v(2)] v(3) by simp
    moreover obtain k where "length bs = Suc k" using assms(3) by (cases bs) auto
    moreover have "127 * (k div 127) + k mod 127 = k" by simp
    then have "Suc k - 127 * (k div 127) = Suc (k mod 127)" by linarith
    ultimately show ?thesis by simp
  qed
  obtain f w where g: "atk_mw1278d_uart_rx_get_frame ?v = (Some f, w)" "take (rx_len ?v) f = rx_frame ?v"
    using get_frame_text [OF v(2,1)] by (metis prod.collapse)
  moreover have "rx_ok w" using rx_ok_get [OF v(2)] g(1) by simp
  ultimately show ?thesis using v(1,3) len by (simp add: Let_def atk_mw1278d_uart_rx_get_frame_len_def)
qed

definition uart_boot :: "lora_uart" where
  "uart_boot = \<lparr>rx_buf = replicate 128 0, rx_len = 0, rx_finsh = False, tim_running = False,
     lora_line = [], md0 = False, ahead = []\<rparr>"

lemma uart_boot_ok: "rx_ok uart_boot" "rx_len uart_boot = 0" "\<not> rx_finsh uart_boot"
  by (simp_all add: rx_ok_def uart_boot_def)

lemma frame_received_witness:
  "\<exists>f w. atk_mw1278d_uart_rx_get_frame (fold lora_irq (map Uart_Rxne [1, 2, 3] @ [Tim_Update]) uart_boot) = (Some f, w)
     \<and> take 3 f = [1, 2, 3]"
  using frame_received [OF uart_boot_ok(1,2), of "[1, 2, 3]"]
  by (auto simp: Let_def numeral_3_eq_3 simp del: fold_simps fold.simps list.map)

text \<open>An AT command is sent as its text and a line end, and succeeds when within the half second
  it waits a frame arrives that contains OK.\<close>

theorem at_command_answered:
  assumes "rx_ok u" and "ahead u = replicate k [] @ (map Uart_Rxne bs @ [Tim_Update]) # rest" and "Suc k < 500"
    and "bs \<noteq> []" and "length bs \<le> 127" and "find_sub (ascii ''OK'') (cstr bs) \<noteq> None"
  shows "fst (at_config cmd u) = ATK_MW1278D_EOK \<and> ahead (snd (at_config cmd u)) = rest \<and>
    lora_line (snd (at_config cmd u)) = lora_line u @ cstr cmd @ crlf"
proof -
  let ?u = "(printed cmd u)\<lparr>ahead := rest\<rparr>"
  define v where "v = fold lora_irq (map Uart_Rxne bs @ [Tim_Update]) ?u"
  obtain m where m: "500 - k = Suc (Suc m)" using assms(3) by (metis Suc_diff_Suc Suc_lessD)
  have ok: "rx_ok ?u" using rx_ok_printed [OF assms(1), of cmd] by (simp add: rx_ok_def)
  have l: "rx_len ?u = 0" by simp
  note v' = rx_burst_timer [OF ok l assms(4), folded v_def]
  have drop0: "drop (127 * ((length bs - 1) div 127)) bs = bs" using assms(5) by simp
  obtain f w where g: "atk_mw1278d_uart_rx_get_frame v = (Some f, w)" "cstr f = cstr bs"
    using get_frame_text [OF v'(2,1)] v'(3) drop0 by (metis prod.collapse)
  have "atk_wait (ascii ''OK'') 500 (printed cmd u)
      = atk_wait (ascii ''OK'') (500 - k) ((printed cmd u)\<lparr>ahead := (map Uart_Rxne bs @ [Tim_Update]) # rest\<rparr>)"
    by (rule atk_wait_silence) (use assms(2,3) in simp_all)
  also have "\<dots> = atk_wait (ascii ''OK'') (Suc m) v"
    by (simp add: m atk_mw1278d_uart_rx_get_frame_def delay_1ms_def v_def)
  also have "\<dots> = (ATK_MW1278D_EOK, w)" using g assms(6) by simp
  finally have r: "at_config cmd u = (ATK_MW1278D_EOK, w)" by (simp add: at_config_def send_500)
  have "ahead v = rest" unfolding v_def irqs_frame by simp
  then have "ahead w = rest" using get_frame_frame(3) [of v] unfolding g(1) by simp
  with r at_config_facts(1) [of cmd u] show ?thesis by simp
qed

lemma at_command_answered_witness:
  "fst (atk_mw1278d_sw_reset (uart_boot\<lparr>ahead := [[], map Uart_Rxne [13, 10, 79, 75, 13, 10] @ [Tim_Update]]\<rparr>)) = 0"
proof -
  let ?u = "uart_boot\<lparr>ahead := [[], map Uart_Rxne [13, 10, 79, 75, 13, 10] @ [Tim_Update]]\<rparr>"
  have "rx_ok ?u" using uart_boot_ok(1) by (simp add: rx_ok_def)
  moreover have "ahead ?u = replicate 1 [] @ (map Uart_Rxne [13, 10, 79, 75, 13, 10] @ [Tim_Update]) # []" by simp
  moreover have "find_sub (ascii ''OK'') (cstr [13, 10, 79, 75, 13, 10]) \<noteq> None"
    by (simp add: ascii_def cstr_def)
  ultimately show ?thesis
    unfolding atk_mw1278d_sw_reset_def
    using at_command_answered [of ?u 1 "[13, 10, 79, 75, 13, 10]" "[]" "ascii ''AT+RESET''"] by simp
qed

lemma at_test_facts:
  "\<exists>k \<le> n. lora_line (snd (at_test_loop n u)) = lora_line u @ concat (replicate k (ascii ''AT'' @ crlf)) \<and>
    (fst (at_test_loop n u) = ATK_MW1278D_EOK \<and> 1 \<le> k \<or> fst (at_test_loop n u) = ATK_MW1278D_ERROR \<and> k = n)"
proof (induction n arbitrary: u)
  case (Suc n)
  have at: "cstr (ascii ''AT'') = ascii ''AT''" by (simp add: cstr_def ascii_def)
  obtain r v where w: "atk_wait (ascii ''OK'') 500 (printed (ascii ''AT'') u) = (r, v)" by fastforce
  have v: "lora_line v = lora_line u @ ascii ''AT'' @ crlf"
    using atk_wait_facts [of "ascii ''OK''" 500 "printed (ascii ''AT'') u"] w at by simp
  show ?case
  proof (cases "r = ATK_MW1278D_EOK")
    case True
    then have "at_test_loop (Suc n) u = (ATK_MW1278D_EOK, v)" by (simp add: send_500 w)
    with v show ?thesis by (intro exI [of _ 1]) simp
  next
    case False
    then have e: "at_test_loop (Suc n) u = at_test_loop n v" by (simp add: send_500 w)
    from Suc.IH [of v] obtain k where k: "k \<le> n"
      "lora_line (snd (at_test_loop n v)) = lora_line v @ concat (replicate k (ascii ''AT'' @ crlf))"
      "fst (at_test_loop n v) = ATK_MW1278D_EOK \<and> 1 \<le> k \<or> fst (at_test_loop n v) = ATK_MW1278D_ERROR \<and> k = n" by blast
    then show ?thesis unfolding e using v by (intro exI [of _ "Suc k"]) (simp, blast?)
  qed
qed simp

text \<open>Initialisation returns and transmits nothing but the test command, one to ten times: the
  address, channel, power, mode and serial settings of the module are never written. It reports
  an error only when all ten tests went unanswered, and leaves configuration mode.\<close>

theorem init_never_configures:
  "\<exists>k. 1 \<le> k \<and> k \<le> 10 \<and>
    lora_line (snd (ATK_MW1278D_Init u)) = lora_line u @ concat (replicate k (ascii ''AT'' @ crlf)) \<and>
    md0 (snd (ATK_MW1278D_Init u)) = False \<and>
    (fst (ATK_MW1278D_Init u) = ATK_MW1278D_EOK \<or> fst (ATK_MW1278D_Init u) = ATK_MW1278D_ERROR \<and> k = 10)"
proof -
  let ?u = "atk_mw1278d_enter_config (u\<lparr>md0 := False\<rparr>)"
  from at_test_facts [of 10 ?u] obtain k where k: "k \<le> 10"
    "lora_line (snd (at_test_loop 10 ?u)) = lora_line ?u @ concat (replicate k (ascii ''AT'' @ crlf))"
    "fst (at_test_loop 10 ?u) = ATK_MW1278D_EOK \<and> 1 \<le> k \<or> fst (at_test_loop 10 ?u) = ATK_MW1278D_ERROR \<and> k = 10" by blast
  have "ATK_MW1278D_Init u = (fst (at_test_loop 10 ?u), atk_mw1278d_exit_config (snd (at_test_loop 10 ?u)))"
    using k(3) by (auto simp: ATK_MW1278D_Init_def atk_mw1278d_init_def Let_def split_beta atk_mw1278d_at_test_def)
  with k show ?thesis
    by (intro exI [of _ k]) (auto simp: atk_mw1278d_exit_config_def atk_mw1278d_enter_config_def)
qed

definition sends_within :: "nat \<Rightarrow> ('z lora_uart_scheme \<Rightarrow> u8 \<times> 'z lora_uart_scheme) \<Rightarrow> 'z lora_uart_scheme \<Rightarrow> bool" where
  "sends_within n f u \<longleftrightarrow> f u = (ATK_MW1278D_EINVAL, u) \<or>
     (\<exists>cmd. length cmd < n \<and> 0 \<notin> set cmd \<and> lora_line (snd (f u)) = lora_line u @ cmd @ crlf \<and>
        fst (f u) \<in> {ATK_MW1278D_EOK, ATK_MW1278D_ERROR})"

lemma sends_at_config: "length cmd < n \<Longrightarrow> 0 \<notin> set cmd \<Longrightarrow> sends_within n (at_config cmd) u"
  unfolding sends_within_def
  by (intro disjI2 exI [of _ cmd]) (use at_config_facts(1,2) [of cmd u] cstr_no_nul [of cmd] in simp)

lemma sends_cong: "f u = g u \<Longrightarrow> sends_within n g u \<Longrightarrow> sends_within n f u"
  by (simp add: sends_within_def)

lemma sends_reject: "f u = (ATK_MW1278D_EINVAL, u) \<Longrightarrow> sends_within n f u"
  by (simp add: sends_within_def)

lemma no_nul_dec: "0 \<notin> set (dec_digits n)"
  using dec_digits_digits [of n] by (auto simp: is_digit_def)

lemma no_nul_hex: "0 \<notin> set (hex2 b)"
proof -
  have "hex_digit d \<noteq> 0" if "d < 16" for d
  proof -
    have nz: "(of_nat k :: u8) \<noteq> 0" if "0 < k" "k < 256" for k
      using that unat_of_nat_u8 [of k] by (metis less_numeral_extra(3) unat_0)
    have "hex_digit d = of_nat (if d < 10 then 48 + d else 55 + d)" by (simp add: hex_digit_def)
    also have "\<dots> \<noteq> 0" by (rule nz) (use that in auto)
    finally show ?thesis .
  qed
  moreover have "unat b < 2 ^ LENGTH(8)" by (rule unsigned_less)
  then have "unat b div 16 < 16" by (simp add: less_mult_imp_div_less)
  ultimately show ?thesis by (simp add: hex2_def)
qed

lemma dec_one: "unat v < 10 \<Longrightarrow> length (dec_digits (unat v)) = 1"
  by (simp add: dec_digits.simps)

lemma dec_two: "unat v < 100 \<Longrightarrow> length (dec_digits (unat v)) \<le> 2"
  by (rule dec_digits_length) simp_all

lemmas cmd_text = no_nul_dec no_nul_hex ascii_def hex2_def

lemma sends_if:
  assumes "c \<Longrightarrow> sends_within n f u" "\<not> c \<Longrightarrow> sends_within n g u"
  shows "sends_within n (\<lambda>u. if c then f u else g u) u"
  using assms by (cases c) simp_all

lemma sends_einval: "sends_within n (\<lambda>u. (ATK_MW1278D_EINVAL, u)) u"
  by (simp add: sends_within_def)

lemmas sends_rules = sends_if sends_einval sends_at_config

lemma unat_small:
  "p \<in> {0, 1, 2, 3, 4, 5, 6, 7} \<Longrightarrow> unat (p :: u8) < 10" "\<not> (c :: u8) > 83 \<Longrightarrow> unat c < 100"
  by (auto simp: word_less_nat_alt)

lemma sends_echo: "sends_within 5 (atk_mw1278d_echo_config e) u"
  unfolding atk_mw1278d_echo_config_def by (intro sends_rules) (simp_all add: ascii_def)

lemma sends_flash: "sends_within 11 (atk_mw1278d_flash_config e) u"
  unfolding atk_mw1278d_flash_config_def by (intro sends_rules) (simp_all add: ascii_def)

lemma sends_addr: "sends_within 14 (atk_mw1278d_addr_config a) u"
  unfolding atk_mw1278d_addr_config_def
proof (rule sends_at_config)
  let ?h = "hex2 (ucast (drop_bit 8 a) AND 0xFF)" and ?l = "hex2 (ucast a AND 0xFF)"
  show "length (ascii ''AT+ADDR='' @ ?h @ ascii '','' @ ?l) < 14" by (simp add: hex2_def)
  have "0 \<notin> set (ascii ''AT+ADDR='')" "0 \<notin> set (ascii '','')" by (simp_all add: ascii_def)
  then show "0 \<notin> set (ascii ''AT+ADDR='' @ ?h @ ascii '','' @ ?l)" using no_nul_hex by simp
qed

lemma sends_one:
  assumes "unat (p :: u8) < 10" "0 \<notin> set (ascii t)" "length t < n"
  shows "sends_within (Suc n) (at_config (ascii t @ dec_digits (unat p))) u"
  by (rule sends_at_config) (use assms dec_one [OF assms(1)] no_nul_dec in simp_all)

lemma sends_two:
  assumes "unat (c :: u8) < 100" "unat (p :: u8) < 10" "0 \<notin> set (ascii t)" "length t + 3 < n"
  shows "sends_within (Suc n) (at_config (ascii t @ dec_digits (unat c) @ ascii '','' @ dec_digits (unat p))) u"
proof (rule sends_at_config)
  have "0 \<notin> set (ascii '','')" by (simp add: ascii_def)
  then show "0 \<notin> set (ascii t @ dec_digits (unat c) @ ascii '','' @ dec_digits (unat p))"
    using assms(3) no_nul_dec by simp
  show "length (ascii t @ dec_digits (unat c) @ ascii '','' @ dec_digits (unat p)) < Suc n"
    using assms(4) dec_two [OF assms(1)] dec_one [OF assms(2)] by simp
qed

lemma sends_tpower: "sends_within 12 (atk_mw1278d_tpower_config p) u"
  unfolding atk_mw1278d_tpower_config_def
  by (intro sends_if sends_einval sends_one [where n = 11, simplified]) (auto simp: ascii_def)

lemma sends_workmode: "sends_within 12 (atk_mw1278d_workmode_config p) u"
  unfolding atk_mw1278d_workmode_config_def
  by (intro sends_if sends_einval sends_one [where n = 11, simplified]) (auto simp: ascii_def)

lemma sends_wltime: "sends_within 12 (atk_mw1278d_wltime_config p) u"
  unfolding atk_mw1278d_wltime_config_def
  by (intro sends_if sends_einval sends_one [where n = 11, simplified]) (auto simp: ascii_def)

lemma sends_tmode: "sends_within 11 (atk_mw1278d_tmode_config p) u"
  unfolding atk_mw1278d_tmode_config_def
  by (intro sends_if sends_einval sends_one [where n = 10, simplified]) (auto simp: ascii_def)

lemma sends_wlrate: "sends_within 15 (atk_mw1278d_wlrate_channel_config r c) u"
  unfolding atk_mw1278d_wlrate_channel_config_def
  by (intro sends_if sends_einval sends_two [where n = 14, simplified]) (auto simp: ascii_def intro: unat_small)

lemma sends_uart: "sends_within 12 (atk_mw1278d_uart_config b q) u"
  unfolding atk_mw1278d_uart_config_def
proof (intro sends_if sends_einval)
  assume "\<not> b \<notin> {0, 1, 2, 3, 4, 5, 6, 7}" "\<not> q \<notin> {0, 1, 2}"
  then have l: "unat b < 10" "unat q < 10" by auto
  have "0 \<notin> set (ascii ''AT+UART='' @ dec_digits (unat b) @ ascii '','' @ dec_digits (unat q))"
  proof -
    have "0 \<notin> set (ascii ''AT+UART='')" "0 \<notin> set (ascii '','')" by (simp_all add: ascii_def)
    then show ?thesis using no_nul_dec by simp
  qed
  then show "sends_within 12 (at_config (ascii ''AT+UART='' @ dec_digits (unat b) @ ascii '','' @ dec_digits (unat q))) u"
    by (intro sends_at_config) (use dec_one [OF l(1)] dec_one [OF l(2)] in simp_all)
qed

text \<open>Every configuration function either rejects its argument without touching the module or
  sends one command, and that command with its closing NUL fits the local buffer it is printed to.\<close>

theorem config_commands_fit:
  "sends_within 5 (atk_mw1278d_echo_config e) u \<and> sends_within 11 (atk_mw1278d_flash_config e) u \<and>
   sends_within 14 (atk_mw1278d_addr_config a) u \<and> sends_within 12 (atk_mw1278d_tpower_config p) u \<and>
   sends_within 12 (atk_mw1278d_workmode_config m) u \<and> sends_within 11 (atk_mw1278d_tmode_config t) u \<and>
   sends_within 15 (atk_mw1278d_wlrate_channel_config r c) u \<and> sends_within 12 (atk_mw1278d_wltime_config w) u \<and>
   sends_within 12 (atk_mw1278d_uart_config b q) u"
  by (intro conjI sends_echo sends_flash sends_addr sends_tpower sends_workmode sends_tmode sends_wlrate
    sends_wltime sends_uart)

end
