(* ===== verification/Task_Lora.thy ===== *)
theory Task_Lora
  imports Task_Sensor Lora_Module
begin

text \<open>
  The LoRa task (\<open>Middlewares/FreeRTOS/Task/task_lora\<close>): the frames of the radio protocol, the
  up-link of the averages of \<open>ReportQueue\<close> and the down-link of control commands to
  \<open>ActuatorCmdQueue\<close>. The interrupts of the receiver run between the turns of the task.
  \<open>LoraMutex\<close> only orders the transmissions of different tasks and is not state here.
\<close>

section \<open>Frames\<close>

abbreviation LORA_FRAME_HEAD :: u8 where "LORA_FRAME_HEAD \<equiv> 0xAA"
abbreviation LORA_FRAME_LEN :: nat where "LORA_FRAME_LEN \<equiv> 4"
abbreviation LORA_TYPE_FAN :: u8 where "LORA_TYPE_FAN \<equiv> 0x01"
abbreviation LORA_TYPE_HEAT :: u8 where "LORA_TYPE_HEAT \<equiv> 0x02"
abbreviation LORA_TYPE_HUMID :: u8 where "LORA_TYPE_HUMID \<equiv> 0x03"
abbreviation LORA_TYPE_REPORT :: u8 where "LORA_TYPE_REPORT \<equiv> 0x20"

datatype lora_target_t = LORA_TARGET_FAN | LORA_TARGET_HEAT | LORA_TARGET_HUMID

record lora_cmd_t =
  lc_target :: lora_target_t
  lc_command :: u8
  lc_source :: source_t

definition put_be16 :: "u16 \<Rightarrow> u8 list" where
  "put_be16 v = [ucast (drop_bit 8 v), ucast (v AND 0xFF)]"

definition lora_packet :: "u8 \<Rightarrow> u8 \<Rightarrow> u8 list" where
  "lora_packet ty v = [LORA_FRAME_HEAD, ty, v, LORA_FRAME_HEAD + ty + v]"

definition lora_send_packet :: "u8 \<Rightarrow> u8 \<Rightarrow> u8 \<Rightarrow> 'z lora_uart_scheme \<Rightarrow> 'z lora_uart_scheme" where
  "lora_send_packet lora_ready ty v u =
     (if lora_ready \<noteq> 0 then u else atk_mw1278d_uart_send_bin (Some (lora_packet ty v)) LORA_FRAME_LEN u)"

definition lora_parse_frame :: "u8 list option \<Rightarrow> nat \<Rightarrow> lora_cmd_t option" where
  "lora_parse_frame b len = (case b of None \<Rightarrow> None | Some buf \<Rightarrow>
     if len < LORA_FRAME_LEN then None
     else if buf ! 0 \<noteq> LORA_FRAME_HEAD then None
     else if buf ! 0 + buf ! 1 + buf ! 2 \<noteq> buf ! 3 then None
     else if buf ! 1 = LORA_TYPE_FAN then Some \<lparr>lc_target = LORA_TARGET_FAN, lc_command = buf ! 2, lc_source = SOURCE_LORA\<rparr>
     else if buf ! 1 = LORA_TYPE_HEAT then Some \<lparr>lc_target = LORA_TARGET_HEAT, lc_command = buf ! 2, lc_source = SOURCE_LORA\<rparr>
     else if buf ! 1 = LORA_TYPE_HUMID then Some \<lparr>lc_target = LORA_TARGET_HUMID, lc_command = buf ! 2, lc_source = SOURCE_LORA\<rparr>
     else None)"

definition report_frame :: "u8 \<Rightarrow> env_avg_t \<Rightarrow> u8 list" where
  "report_frame sq avg =
     [LORA_FRAME_HEAD, LORA_TYPE_REPORT, sq] @ put_be16 (temp_avg_x10 avg) @ put_be16 (humi_avg_x10 avg)
     @ [rain_flag avg] @ put_be16 (co2_avg avg) @ put_be16 (co_avg avg) @ [err_bits avg]"

section \<open>The task\<close>

record lora_sys = lora_uart +
  g_report_seq :: u8
  fw :: firmware

text \<open>The up-link half of a turn.\<close>

definition lora_tx_step :: "lora_sys \<Rightarrow> lora_sys" where
  "lora_tx_step s = (case ReportQueue (fw s) of
       None \<Rightarrow> s
     | Some q \<Rightarrow> (case xQueueReceive q 0 [] of
           (None, q') \<Rightarrow> s\<lparr>fw := (fw s)\<lparr>ReportQueue := Some q'\<rparr>\<rparr>
         | (Some avg, q') \<Rightarrow>
             atk_mw1278d_uart_send_bin (Some (report_frame (g_report_seq s) avg)) 13
               (s\<lparr>g_report_seq := g_report_seq s + 1, fw := (fw s)\<lparr>ReportQueue := Some q'\<rparr>\<rparr>)))"

text \<open>The message a parsed command becomes; \<open>None\<close> is the jump to \<open>skip_dispatch\<close>.\<close>

definition lora_message :: "lora_cmd_t \<Rightarrow> applay_msg_t option" where
  "lora_message cmd = (case lc_target cmd of
       LORA_TARGET_FAN \<Rightarrow>
         (if lc_command cmd = 0 then Some \<lparr>target = APPLAY_TARGET_FAN, val = APPLAY_VAL_OFF, source = SOURCE_LORA\<rparr>
          else if lc_command cmd = 1 then Some \<lparr>target = APPLAY_TARGET_FAN, val = APPLAY_VAL_LOW, source = SOURCE_LORA\<rparr>
          else if lc_command cmd = 2 then Some \<lparr>target = APPLAY_TARGET_FAN, val = APPLAY_VAL_MID, source = SOURCE_LORA\<rparr>
          else if lc_command cmd = 3 then Some \<lparr>target = APPLAY_TARGET_FAN, val = APPLAY_VAL_HI, source = SOURCE_LORA\<rparr>
          else None)
     | LORA_TARGET_HEAT \<Rightarrow>
         Some \<lparr>target = APPLAY_TARGET_HEAT, val = (if lc_command cmd = 0 then APPLAY_VAL_OFF else APPLAY_VAL_ON), source = SOURCE_LORA\<rparr>
     | LORA_TARGET_HUMID \<Rightarrow>
         Some \<lparr>target = APPLAY_TARGET_HUMID, val = (if lc_command cmd = 0 then APPLAY_VAL_OFF else APPLAY_VAL_ON), source = SOURCE_LORA\<rparr>)"

text \<open>\<open>ws\<close>: what the other tasks do to the command queue while the send blocks.\<close>

definition lora_dispatch :: "applay_msg_t wakeups \<Rightarrow> lora_cmd_t \<Rightarrow> lora_sys \<Rightarrow> lora_sys" where
  "lora_dispatch ws cmd s = (case lora_message cmd of
       None \<Rightarrow> s
     | Some am \<Rightarrow> (case ActuatorCmdQueue (fw s) of
           None \<Rightarrow> s
         | Some q \<Rightarrow> s\<lparr>fw := (fw s)\<lparr>ActuatorCmdQueue := Some (snd (xQueueSend q am 100 ws))\<rparr>\<rparr>))"

definition lora_rx_step :: "applay_msg_t wakeups \<Rightarrow> lora_sys \<Rightarrow> lora_sys" where
  "lora_rx_step ws s =
     (if atk_mw1278d_uart_rx_get_frame_len s \<ge> LORA_FRAME_LEN then
        (case atk_mw1278d_uart_rx_get_frame s of (buf, s1) \<Rightarrow>
           (let local_buf = take LORA_FRAME_LEN (case buf of None \<Rightarrow> [] | Some b \<Rightarrow> b);
                s2 = atk_mw1278d_uart_rx_restart s1
            in case lora_parse_frame (Some local_buf) LORA_FRAME_LEN of
                 None \<Rightarrow> s2
               | Some cmd \<Rightarrow> lora_dispatch ws cmd s2))
      else s)"

definition lora_step :: "applay_msg_t wakeups \<Rightarrow> lora_sys \<Rightarrow> lora_sys" where
  "lora_step ws s = lora_rx_step ws (lora_tx_step s)"

text \<open>The task from its start: per turn the interrupts before it and the blocking of the send.\<close>

definition lora_task :: "u8 \<Rightarrow> (lora_event list \<times> applay_msg_t wakeups) list \<Rightarrow> lora_sys \<Rightarrow> lora_sys" where
  "lora_task lora_ready turns s =
     (if lora_ready \<noteq> 0 then s
      else fold (\<lambda>(es, ws) s. lora_step ws (fold lora_irq es s)) turns (atk_mw1278d_uart_rx_restart s))"

section \<open>Frame lemmas\<close>

lemma put_be16_eq: "put_be16 v = [hi8 v, lo8 v]"
proof -
  have "(ucast (v AND 0xFF) :: u8) = ucast v"
  proof (rule bit_word_eqI)
    fix n assume n: "n < LENGTH(8)"
    have "bit (0xFF :: u16) n" using n bit_mask_iff [of 8 n, where ?'a = u16] by (simp add: mask_eq_exp_minus_1)
    then show "bit (ucast (v AND 0xFF) :: u8) n = bit (ucast v :: u8) n" using n by (simp add: bit_ucast_iff bit_and_iff)
  qed
  then show ?thesis by (simp add: put_be16_def hi8_def lo8_def)
qed

lemma report_frame_eq:
  "report_frame sq a = [LORA_FRAME_HEAD, LORA_TYPE_REPORT, sq, hi8 (temp_avg_x10 a), lo8 (temp_avg_x10 a),
     hi8 (humi_avg_x10 a), lo8 (humi_avg_x10 a), rain_flag a, hi8 (co2_avg a), lo8 (co2_avg a),
     hi8 (co_avg a), lo8 (co_avg a), err_bits a]"
  by (simp add: report_frame_def put_be16_eq)

text \<open>The receiver at the other end of the link.\<close>

fun decode_report :: "u8 list \<Rightarrow> (u8 \<times> u16 \<times> u16 \<times> u8 \<times> u16 \<times> u16 \<times> u8) option" where
  "decode_report [h, ty, sq, t1, t0, m1, m0, r, c1, c0, o1, o0, e] =
     (if h = LORA_FRAME_HEAD \<and> ty = LORA_TYPE_REPORT
      then Some (sq, be16 t1 t0, be16 m1 m0, r, be16 c1 c0, be16 o1 o0, e) else None)"
| "decode_report _ = None"

lemma decode_report_frame:
  "decode_report (report_frame sq a) =
     Some (sq, temp_avg_x10 a, humi_avg_x10 a, rain_flag a, co2_avg a, co_avg a, err_bits a)"
  by (simp add: report_frame_eq)

text \<open>The command two protocol bytes stand for.\<close>

definition lora_command :: "u8 \<Rightarrow> u8 \<Rightarrow> applay_msg_t option" where
  "lora_command ty v =
     (if ty = 1 \<and> v \<le> 3 then Some \<lparr>target = APPLAY_TARGET_FAN, val = ucast v, source = SOURCE_LORA\<rparr>
      else if ty = 2 then Some \<lparr>target = APPLAY_TARGET_HEAT, val = (if v = 0 then 0 else 1), source = SOURCE_LORA\<rparr>
      else if ty = 3 then Some \<lparr>target = APPLAY_TARGET_HUMID, val = (if v = 0 then 0 else 1), source = SOURCE_LORA\<rparr>
      else None)"

lemma le_3_cases: "(v :: u8) \<le> 3 \<longleftrightarrow> v = 0 \<or> v = 1 \<or> v = 2 \<or> v = 3"
proof -
  have "unat v \<le> 3 \<longleftrightarrow> unat v = 0 \<or> unat v = 1 \<or> unat v = 2 \<or> unat v = 3" by arith
  then show ?thesis by (simp add: word_le_nat_alt word_unat_eq_iff)
qed

lemma parse_command:
  "(case lora_parse_frame (Some (lora_packet ty v)) 4 of None \<Rightarrow> None | Some cmd \<Rightarrow> lora_message cmd) = lora_command ty v"
  unfolding lora_packet_def lora_parse_frame_def lora_command_def le_3_cases
  by (simp add: lora_message_def)

section \<open>Turns of the task\<close>

lemma lora_sys_frame [simp]:
  "fw (lora_irq e s) = fw s" "g_report_seq (lora_irq e s) = g_report_seq s"
  "fw (atk_mw1278d_uart_rx_restart s) = fw s" "g_report_seq (atk_mw1278d_uart_rx_restart s) = g_report_seq s"
  "fw (snd (atk_mw1278d_uart_rx_get_frame s)) = fw s"
  "g_report_seq (snd (atk_mw1278d_uart_rx_get_frame s)) = g_report_seq s"
  by (cases e; simp add: ATK_MW1278D_UART_IRQHandler_def ATK_MW1278D_TIM_IRQHandler_def Let_def
      atk_mw1278d_uart_rx_restart_def atk_mw1278d_uart_rx_get_frame_def split: option.split)+

lemma lora_sys_irqs [simp]:
  "fw (fold lora_irq es s) = fw s" "g_report_seq (fold lora_irq es s) = g_report_seq s"
  by (induction es arbitrary: s) simp_all

lemma tx_frame [simp]:
  "rx_buf (lora_tx_step s) = rx_buf s" "rx_len (lora_tx_step s) = rx_len s" "rx_finsh (lora_tx_step s) = rx_finsh s"
  "ActuatorCmdQueue (fw (lora_tx_step s)) = ActuatorCmdQueue (fw s)"
  by (simp_all add: lora_tx_step_def atk_mw1278d_uart_send_bin_def split: option.split prod.split)

lemma rx_step_frame:
  assumes "rx_ok s" "rx_finsh s" "4 \<le> rx_len s"
  shows "\<exists>s2. lora_rx_step ws s = (case lora_parse_frame (Some (take 4 (rx_frame s))) 4 of
      None \<Rightarrow> s2 | Some cmd \<Rightarrow> lora_dispatch ws cmd s2) \<and>
    rx_len s2 = 0 \<and> \<not> rx_finsh s2 \<and> fw s2 = fw s \<and> rx_ok s2 \<and> lora_line s2 = lora_line s"
proof -
  obtain f s1 where g: "atk_mw1278d_uart_rx_get_frame s = (Some f, s1)" "take (rx_len s) f = rx_frame s"
    using get_frame_text [OF assms(1,2)] by (metis prod.collapse)
  have "take 4 f = take 4 (rx_frame s)" using g(2) assms(3) by (metis min.absorb_iff1 take_take)
  moreover have "fw s1 = fw s" "lora_line s1 = lora_line s"
    using lora_sys_frame(5) [of s] get_frame_frame(1) [of s] g(1) by simp_all
  moreover have "rx_ok s1" using rx_ok_get [OF assms(1)] g(1) by simp
  ultimately show ?thesis using assms(2,3) g(1)
    by (intro exI [of _ "atk_mw1278d_uart_rx_restart s1"])
      (simp add: lora_rx_step_def atk_mw1278d_uart_rx_get_frame_len_def Let_def rx_ok_restart,
       simp add: atk_mw1278d_uart_rx_restart_def)
qed

lemma dispatch_frame [simp]:
  "rx_len (lora_dispatch ws cmd s) = rx_len s" "rx_finsh (lora_dispatch ws cmd s) = rx_finsh s"
  "rx_buf (lora_dispatch ws cmd s) = rx_buf s" "lora_line (lora_dispatch ws cmd s) = lora_line s"
  "g_report_seq (lora_dispatch ws cmd s) = g_report_seq s" "ReportQueue (fw (lora_dispatch ws cmd s)) = ReportQueue (fw s)"
  by (simp_all add: lora_dispatch_def split: option.split)

lemma dispatch_queue:
  assumes "ActuatorCmdQueue (fw s) = Some q" "q_ok 10 q" "length (q_list q) < 10"
  shows "\<exists>q'. ActuatorCmdQueue (fw (lora_dispatch ws cmd s)) = Some q' \<and> q_ok 10 q' \<and>
    q_list q' = q_list q @ (case lora_message cmd of None \<Rightarrow> [] | Some m \<Rightarrow> [m])"
proof (cases "lora_message cmd")
  case None
  with assms show ?thesis by (simp add: lora_dispatch_def)
next
  case (Some m)
  have inv: "q_inv q" "length (q_list q) < uxLength q" using assms(2,3) by (simp_all add: q_ok_def)
  have "q_list (snd (xQueueSend q m 100 ws)) = q_list q @ [m]" "q_ok 10 (snd (xQueueSend q m 100 ws))"
    using send_has_room [OF inv, of m 100 ws] assms(2) by (simp_all add: q_ok_def)
  with Some assms(1) show ?thesis by (simp add: lora_dispatch_def)
qed

text \<open>A burst whose first four bytes are \<open>c\<close>, handled in the next turn.\<close>

lemma burst_turn:
  assumes "rx_ok s" "rx_len s = 0" "bs \<noteq> []" "length bs \<le> 127" "4 \<le> length bs"
    and q: "ActuatorCmdQueue (fw s) = Some q" "q_ok 10 q" "length (q_list q) < 10"
  shows "let s' = lora_step ws (fold lora_irq (map Uart_Rxne bs @ [Tim_Update]) s) in
    rx_ok s' \<and> rx_len s' = 0 \<and> \<not> rx_finsh s' \<and> (\<exists>q'. ActuatorCmdQueue (fw s') = Some q' \<and> q_ok 10 q' \<and>
      q_list q' = q_list q @ (case lora_parse_frame (Some (take 4 bs)) 4 of None \<Rightarrow> []
        | Some cmd \<Rightarrow> (case lora_message cmd of None \<Rightarrow> [] | Some m \<Rightarrow> [m])))"
proof -
  define v where "v = fold lora_irq (map Uart_Rxne bs @ [Tim_Update]) s"
  note b = rx_burst_timer [OF assms(1-3), folded v_def]
  have t: "rx_ok (lora_tx_step v)" "rx_finsh (lora_tx_step v)" using b(1,2) by (simp_all add: rx_ok_def)
  have f: "rx_frame (lora_tx_step v) = bs" using b(3) assms(4) by (simp add: rx_frame_def)
  then have l: "4 \<le> rx_len (lora_tx_step v)" using rx_frame_length [OF t(1)] assms(5) by simp
  obtain s2 where s2: "lora_step ws v = (case lora_parse_frame (Some (take 4 bs)) 4 of
      None \<Rightarrow> s2 | Some cmd \<Rightarrow> lora_dispatch ws cmd s2)"
    "rx_len s2 = 0" "\<not> rx_finsh s2" "fw s2 = fw (lora_tx_step v)" "rx_ok s2"
    using rx_step_frame [OF t l, of ws] f by (auto simp: lora_step_def)
  have q2: "ActuatorCmdQueue (fw s2) = Some q"
    unfolding s2(4) tx_frame v_def lora_sys_irqs by (rule q(1))
  show ?thesis
  proof (cases "lora_parse_frame (Some (take 4 bs)) 4")
    case None
    with s2 q2 q(2) show ?thesis unfolding v_def [symmetric] Let_def by simp
  next
    case (Some cmd)
    with s2 dispatch_queue [OF q2 q(2,3), of ws cmd] show ?thesis
      unfolding v_def [symmetric] Let_def by (simp add: rx_ok_def)
  qed
qed

text \<open>A command frame at the head of a burst.\<close>

lemma command_turn:
  assumes "rx_ok s" and "rx_len s = 0" and "length rest \<le> 123"
    and "ActuatorCmdQueue (fw s) = Some q" and "q_ok 10 q" and "length (q_list q) < 10"
  shows "let s' = lora_step ws (fold lora_irq (map Uart_Rxne (lora_packet ty v @ rest) @ [Tim_Update]) s) in
    rx_ok s' \<and> rx_len s' = 0 \<and> \<not> rx_finsh s' \<and> (\<exists>q'. ActuatorCmdQueue (fw s') = Some q' \<and>
      q_list q' = q_list q @ (case lora_command ty v of None \<Rightarrow> [] | Some m \<Rightarrow> [m]))"
proof -
  let ?bs = "lora_packet ty v @ rest"
  have len: "length (lora_packet ty v) = 4" by (simp add: lora_packet_def)
  have "take 4 ?bs = lora_packet ty v" using len by simp
  then have t4: "lora_parse_frame (Some (take 4 ?bs)) 4 = lora_parse_frame (Some (lora_packet ty v)) 4" by (simp only:)
  have m: "(case lora_parse_frame (Some (lora_packet ty v)) 4 of None \<Rightarrow> []
      | Some cmd \<Rightarrow> (case lora_message cmd of None \<Rightarrow> [] | Some m \<Rightarrow> [m]))
    = (case lora_command ty v of None \<Rightarrow> [] | Some m \<Rightarrow> [m])"
    unfolding parse_command [symmetric] by (simp split: option.split)
  have "?bs \<noteq> []" "length ?bs \<le> 127" "4 \<le> length ?bs" using assms(3) len by auto
  from burst_turn [OF assms(1,2) this assms(4-6), of ws, unfolded t4 m] show ?thesis
    unfolding Let_def by blast
qed

section \<open>Properties\<close>

text \<open>C17: a command frame received in one burst is carried out in the next turn, whatever is being
  reported at the time: the command the two bytes stand for, and no other, is put at the end of
  the actuator queue, and the receiver is idle again. Anything behind the first four bytes of the
  burst is thrown away, a second command included.\<close>

theorem lora_command_received:
  assumes "rx_ok s" and "rx_len s = 0" and "length rest \<le> 123"
    and "ActuatorCmdQueue (fw s) = Some q" and "q_ok 10 q" and "length (q_list q) < 10"
  shows "let s' = lora_step ws (fold lora_irq (map Uart_Rxne (lora_packet ty v @ rest) @ [Tim_Update]) s) in
    rx_ok s' \<and> rx_len s' = 0 \<and> \<not> rx_finsh s' \<and> (\<exists>q'. ActuatorCmdQueue (fw s') = Some q' \<and>
      q_list q' = q_list q @ (case lora_command ty v of None \<Rightarrow> [] | Some m \<Rightarrow> [m]))"
  by (rule command_turn [OF assms])

definition lora_boot :: lora_sys where
  "lora_boot = \<lparr>rx_buf = replicate 128 0, rx_len = 0, rx_finsh = False, tim_running = False,
     lora_line = [], md0 = False, ahead = [], g_report_seq = 0, fw = firmware_boot\<rparr>"

lemma lora_boot_ok: "rx_ok lora_boot" "rx_len lora_boot = 0"
  "ActuatorCmdQueue (fw lora_boot) = Some (prvInitialiseNewQueue 10)"
  by (simp_all add: rx_ok_def lora_boot_def firmware_boot_def)

lemma q10: "q_ok 10 (prvInitialiseNewQueue 10)" by (rule q_ok_new) simp

lemma lora_command_received_witness:
  "\<exists>q'. ActuatorCmdQueue (fw (lora_step [] (fold lora_irq (map Uart_Rxne (lora_packet 1 3 @ lora_packet 2 1) @ [Tim_Update]) lora_boot)))
     = Some q' \<and> q_list q' = [\<lparr>target = APPLAY_TARGET_FAN, val = 3, source = SOURCE_LORA\<rparr>]"
proof -
  have "lora_command 1 3 = Some \<lparr>target = APPLAY_TARGET_FAN, val = 3, source = SOURCE_LORA\<rparr>"
    by (simp add: lora_command_def)
  then show ?thesis
    using lora_command_received [OF lora_boot_ok(1,2) _ lora_boot_ok(3) q10, of "lora_packet 2 1" "[]" 1 3]
    by (simp only: Let_def) (simp add: lora_packet_def)
qed

text \<open>A command frame with one byte changed on the air is never taken for a command.\<close>

theorem lora_corruption_detected:
  assumes "i < 4" and "x \<noteq> lora_packet ty v ! i"
  shows "lora_parse_frame (Some ((lora_packet ty v)[i := x])) 4 = None"
proof -
  have "i = 0 \<or> i = 1 \<or> i = 2 \<or> i = 3" using assms(1) by arith
  then show ?thesis using assms(2) by (auto simp: lora_packet_def lora_parse_frame_def)
qed

lemma lora_corruption_detected_witness:
  "lora_parse_frame (Some [0xAA, 1, 2, 0xAD]) 4 \<noteq> None \<and> lora_parse_frame (Some [0xAA, 1, 0, 0xAD]) 4 = None"
  using lora_corruption_detected [of 2 0 1 2] by (simp add: lora_packet_def lora_parse_frame_def)

fun report_frames :: "u8 \<Rightarrow> env_avg_t list \<Rightarrow> u8 list" where
  "report_frames sq [] = []"
| "report_frames sq (a # as) = report_frame sq a @ report_frames (sq + 1) as"

lemma rx_step_reports [simp]:
  "lora_line (lora_rx_step ws s) = lora_line s" "g_report_seq (lora_rx_step ws s) = g_report_seq s"
  "ReportQueue (fw (lora_rx_step ws s)) = ReportQueue (fw s)"
proof -
  obtain f s1 where g: "atk_mw1278d_uart_rx_get_frame s = (f, s1)" by fastforce
  have "lora_line s1 = lora_line s" "g_report_seq s1 = g_report_seq s" "fw s1 = fw s"
    using get_frame_frame(1) [of s] lora_sys_frame(5,6) [of s] g by simp_all
  then show "lora_line (lora_rx_step ws s) = lora_line s" "g_report_seq (lora_rx_step ws s) = g_report_seq s"
    "ReportQueue (fw (lora_rx_step ws s)) = ReportQueue (fw s)"
    by (simp_all add: lora_rx_step_def g Let_def split: option.split)
qed

lemma tx_step_report:
  assumes "ReportQueue (fw s) = Some q" "q_ok 2 q"
  shows "\<exists>q'. ReportQueue (fw (lora_tx_step s)) = Some q' \<and> q_ok 2 q' \<and> q_list q' = tl (q_list q) \<and>
    lora_line (lora_tx_step s) = lora_line s @ report_frames (g_report_seq s) (take 1 (q_list q)) \<and>
    g_report_seq (lora_tx_step s) = g_report_seq s + of_nat (length (take 1 (q_list q)))"
proof (cases "q_list q")
  case Nil
  then have "xQueueReceive q 0 [] = (None, q)" using receive_none [of q "[]"] by (metis length_0_conv q_list_length)
  with Nil assms show ?thesis by (simp add: lora_tx_step_def)
next
  case (Cons a as)
  obtain q' where r: "xQueueReceive q 0 [] = (Some a, q')" "q_list q' = as" "q_ok 2 q'"
    using rtosq.receive_hd [OF assms(2) Cons] rtosq.ok_receive [OF assms(2)] by (metis prod.collapse)
  have "length (report_frame (g_report_seq s) a) = 13" by (simp add: report_frame_eq)
  with r Cons assms(1) show ?thesis
    by (simp add: lora_tx_step_def atk_mw1278d_uart_send_bin_def del: xQueueReceive.simps)
qed

lemma report_turns:
  assumes "ReportQueue (fw s) = Some q" "q_ok 2 q"
  shows "let s' = fold (\<lambda>(es, ws) s. lora_step ws (fold lora_irq es s)) turns s; n = length turns in
    \<exists>q'. ReportQueue (fw s') = Some q' \<and> q_list q' = drop n (q_list q) \<and>
      lora_line s' = lora_line s @ report_frames (g_report_seq s) (take n (q_list q))"
  using assms
proof (induction turns arbitrary: s q)
  case Nil
  then show ?case by simp
next
  case (Cons t turns)
  obtain es ws where t: "t = (es, ws)" by (cases t)
  define s1 where "s1 = lora_step ws (fold lora_irq es s)"
  have r: "ReportQueue (fw (fold lora_irq es s)) = Some q" using Cons.prems(1) by simp
  obtain q1 where q1: "ReportQueue (fw s1) = Some q1" "q_ok 2 q1" "q_list q1 = tl (q_list q)"
    "lora_line s1 = lora_line s @ report_frames (g_report_seq s) (take 1 (q_list q))"
    "g_report_seq s1 = g_report_seq s + of_nat (length (take 1 (q_list q)))"
    using tx_step_report [OF r Cons.prems(2)] by (auto simp: s1_def lora_step_def)
  define s' where "s' = fold (\<lambda>(es, ws) s. lora_step ws (fold lora_irq es s)) turns s1"
  obtain q' where q': "ReportQueue (fw s') = Some q'" "q_list q' = drop (length turns) (q_list q1)"
    "lora_line s' = lora_line s1 @ report_frames (g_report_seq s1) (take (length turns) (q_list q1))"
    using Cons.IH [OF q1(1,2)] by (auto simp: Let_def s'_def)
  have "fold (\<lambda>(es, ws) s. lora_step ws (fold lora_irq es s)) (t # turns) s = s'" by (simp add: t s'_def s1_def)
  with q' q1 show ?case by (cases "q_list q") (simp_all add: Let_def)
qed

text \<open>C20: the waiting averages are transmitted in order, one per turn, as frames with consecutive
  sequence numbers, from which a receiver reads back exactly what was measured, whatever commands
  arrive in between.\<close>

theorem lora_reports_in_order:
  assumes "ReportQueue (fw s) = Some q" and "q_ok 2 q"
  shows "let s' = lora_task 0 turns s; n = length turns in
    \<exists>q'. ReportQueue (fw s') = Some q' \<and> q_list q' = drop n (q_list q) \<and>
      lora_line s' = lora_line s @ report_frames (g_report_seq s) (take n (q_list q)) \<and>
      decode_report (report_frame sq a)
        = Some (sq, temp_avg_x10 a, humi_avg_x10 a, rain_flag a, co2_avg a, co_avg a, err_bits a)"
  using report_turns [of "atk_mw1278d_uart_rx_restart s" q turns] assms
  by (simp add: lora_task_def Let_def decode_report_frame)

definition some_avg :: env_avg_t where
  "some_avg = \<lparr>err_bits = 0, temp_avg_x10 = 215, humi_avg_x10 = 600, rain_flag = 0, co2_avg = 450,
     co_avg = 100, sample_count = 120\<rparr>"

definition one_report :: "env_avg_t queue" where
  "one_report = snd (xQueueSend (prvInitialiseNewQueue 2) some_avg 100 [])"

lemma one_report_ok: "q_ok 2 one_report" "q_list one_report = [some_avg]"
proof -
  have ok: "q_ok 2 (prvInitialiseNewQueue 2 :: env_avg_t queue)" by (rule q_ok_new) simp
  have inv: "q_inv (prvInitialiseNewQueue 2 :: env_avg_t queue)" using ok by (simp add: q_ok_def)
  note send_has_room [OF inv, of some_avg 100 "[]"]
  then show "q_ok 2 one_report" "q_list one_report = [some_avg]" using ok by (simp_all add: one_report_def q_ok_def)
qed

lemma lora_reports_in_order_witness:
  "lora_line (lora_task 0 [([], [])] (lora_boot\<lparr>fw := firmware_boot\<lparr>ReportQueue := Some one_report\<rparr>\<rparr>))
   = [0xAA, 0x20, 0, 0, 215, 2, 88, 0, 1, 194, 0, 100, 0]"
proof -
  let ?s = "lora_boot\<lparr>fw := firmware_boot\<lparr>ReportQueue := Some one_report\<rparr>\<rparr>"
  have "ReportQueue (fw ?s) = Some one_report" by simp
  from lora_reports_in_order [OF this one_report_ok(1), of "[([], [])]"]
  have "lora_line (lora_task 0 [([], [])] ?s) = report_frame 0 some_avg"
    by (auto simp: Let_def one_report_ok(2) lora_boot_def)
  then show ?thesis by (simp add: report_frame_def put_be16_def some_avg_def)
qed

lemma rx_more:
  "rx_ok u \<Longrightarrow> rx_len u + length bs \<le> 127 \<Longrightarrow>
     rx_frame (fold lora_irq (map Uart_Rxne bs) u) = rx_frame u @ bs \<and>
     rx_finsh (fold lora_irq (map Uart_Rxne bs) u) = rx_finsh u \<and>
     rx_len (fold lora_irq (map Uart_Rxne bs) u) = rx_len u + length bs"
proof (induction bs arbitrary: u)
  case (Cons b bs)
  have "rx_finsh (lora_irq (Uart_Rxne b) u) = rx_finsh u"
    by (simp add: ATK_MW1278D_UART_IRQHandler_def Let_def)
  then show ?case
    using Cons.IH [of "lora_irq (Uart_Rxne b) u"] rx_frame_byte [OF Cons.prems(1), of b] rx_ok_irq [OF Cons.prems(1)]
      Cons.prems(2) by (simp del: lora_irq.simps)
qed simp

lemma short_turn:
  assumes "rx_ok s" "rx_len s < 4"
  shows "rx_ok (lora_step ws s) \<and> rx_frame (lora_step ws s) = rx_frame s \<and> rx_finsh (lora_step ws s) = rx_finsh s \<and>
    rx_len (lora_step ws s) = rx_len s \<and> ActuatorCmdQueue (fw (lora_step ws s)) = ActuatorCmdQueue (fw s)"
  using assms by (simp add: lora_step_def lora_rx_step_def atk_mw1278d_uart_rx_get_frame_len_def rx_ok_def rx_frame_def)

text \<open>One to three stray bytes are enough to lose the next command: the task leaves a short frame
  in the receiver, the command is appended to it, and the first four bytes that are then parsed
  begin with the stray ones.\<close>

theorem stray_bytes_lose_command:
  assumes "rx_ok s" and "rx_len s = 0" and "noise \<noteq> []" and "length noise \<le> 3" and "hd noise \<noteq> LORA_FRAME_HEAD"
  shows "let s1 = lora_step ws (fold lora_irq (map Uart_Rxne noise @ [Tim_Update]) s);
      s2 = lora_step ws' (fold lora_irq (map Uart_Rxne (lora_packet ty v)) s1)
    in ActuatorCmdQueue (fw s2) = ActuatorCmdQueue (fw s) \<and> rx_len s2 = 0 \<and> \<not> rx_finsh s2"
proof -
  define u where "u = fold lora_irq (map Uart_Rxne noise @ [Tim_Update]) s"
  note b = rx_burst_timer [OF assms(1-3), folded u_def]
  have fr: "rx_frame u = noise" using b(3) assms(4) by simp
  then have lu: "rx_len u = length noise" using rx_frame_length [OF b(2)] by simp
  have fu: "fw u = fw s" unfolding u_def by (rule lora_sys_irqs)
  define s1 where "s1 = lora_step ws u"
  have s1: "rx_ok s1" "rx_frame s1 = noise" "rx_finsh s1" "rx_len s1 = length noise"
    "ActuatorCmdQueue (fw s1) = ActuatorCmdQueue (fw s)"
    using short_turn [OF b(2), of ws] assms(4) fr lu b(1) fu by (simp_all add: s1_def)
  define w where "w = fold lora_irq (map Uart_Rxne (lora_packet ty v)) s1"
  have len: "length (lora_packet ty v) = 4" by (simp add: lora_packet_def)
  have w: "rx_frame w = noise @ lora_packet ty v" "rx_finsh w" "rx_len w = length noise + 4" "rx_ok w" "fw w = fw s1"
    using rx_more [OF s1(1), of "lora_packet ty v"] s1 len assms(4) rx_ok_irqs [OF s1(1)] by (simp_all add: w_def)
  define x where "x = lora_tx_step w"
  have x: "rx_ok x" "rx_finsh x" "4 \<le> rx_len x" "rx_frame x = noise @ lora_packet ty v"
    "ActuatorCmdQueue (fw x) = ActuatorCmdQueue (fw s)"
    using w s1(5) by (simp_all add: x_def rx_ok_def rx_frame_def)
  have "take 4 (noise @ lora_packet ty v) ! 0 = hd noise" using assms(3) by (cases noise) simp_all
  then have "lora_parse_frame (Some (take 4 (rx_frame x))) 4 = None" unfolding x(4) using assms(5) by (simp add: lora_parse_frame_def)
  with rx_step_frame [OF x(1-3), of ws'] obtain s2 where
    "lora_rx_step ws' x = s2" "rx_len s2 = 0" "\<not> rx_finsh s2" "fw s2 = fw x" by auto
  with x(5) show ?thesis
    unfolding Let_def u_def [symmetric] s1_def [symmetric] w_def [symmetric] by (simp add: lora_step_def x_def)
qed

lemma stray_bytes_lose_command_witness:
  "ActuatorCmdQueue (fw (lora_step [] (fold lora_irq (map Uart_Rxne (lora_packet 1 3))
     (lora_step [] (fold lora_irq (map Uart_Rxne [0] @ [Tim_Update]) lora_boot))))) = Some (prvInitialiseNewQueue 10)"
  using stray_bytes_lose_command [OF lora_boot_ok(1,2), of "[0]" "[]" "[]" 1 3] lora_boot_ok(3)
  by (simp only: Let_def) simp

end
