(* ===== verification/Esp_Ring.thy ===== *)
theory Esp_Ring
  imports Agro_Prelude
begin

text \<open>
  The byte ring between the UART4 interrupt and the ESP8266 driver
  (\<open>Drivers/BSP/ESP8266/esp8266.c\<close>, \<open>ring_t\<close> and its functions) and its abstraction,
  the list of bytes received and not yet consumed.
\<close>

section \<open>Operations\<close>

abbreviation ESP_RXBUF_SIZE :: u16 where "ESP_RXBUF_SIZE \<equiv> 1024"
abbreviation ESP_RXBUF_MASK :: u16 where "ESP_RXBUF_MASK \<equiv> 1023"

record ring_t =
  ring_buf :: "u8 list"
  ring_head :: u16      \<comment> \<open>where the next byte is written\<close>
  ring_tail :: u16      \<comment> \<open>where the next byte is read\<close>

definition ring_used :: "ring_t \<Rightarrow> u16" where
  "ring_used r = (ring_head r - ring_tail r) AND ESP_RXBUF_MASK"

definition ring_free :: "ring_t \<Rightarrow> u16" where
  "ring_free r = ESP_RXBUF_SIZE - 1 - ring_used r"

definition ring_push :: "ring_t \<Rightarrow> u8 \<Rightarrow> int \<times> ring_t" where
  "ring_push r b =
     (if ring_free r = 0 then (-1, r)
      else (0, r\<lparr>ring_buf := (ring_buf r)[unat (ring_head r) := b],
                 ring_head := (ring_head r + 1) AND ESP_RXBUF_MASK\<rparr>))"

definition ring_consume :: "ring_t \<Rightarrow> u16 \<Rightarrow> ring_t" where
  "ring_consume r n =
     (let used = ring_used r; n = (if n > used then used else n)
      in r\<lparr>ring_tail := (ring_tail r + n) AND ESP_RXBUF_MASK\<rparr>)"

fun ring_copy_loop :: "nat \<Rightarrow> ring_t \<Rightarrow> u8 list \<times> ring_t" where
  "ring_copy_loop 0 r = ([], r)"
| "ring_copy_loop (Suc n) r =
     (let b = ring_buf r ! unat (ring_tail r);
          (bs, r') = ring_copy_loop n (r\<lparr>ring_tail := (ring_tail r + 1) AND ESP_RXBUF_MASK\<rparr>)
      in (b # bs, r'))"

definition ring_copy_out :: "ring_t \<Rightarrow> u16 \<Rightarrow> u8 list \<times> ring_t" where
  "ring_copy_out r maxlen =
     (let used = ring_used r; n = (if maxlen > used then used else maxlen)
      in ring_copy_loop (unat n) r)"

text \<open>The byte \<open>buf[(tail + i) & MASK]\<close>, and the unread bytes as the driver walks over them.\<close>

definition ring_at :: "ring_t \<Rightarrow> nat \<Rightarrow> u8" where
  "ring_at r i = ring_buf r ! unat ((ring_tail r + of_nat i) AND ESP_RXBUF_MASK)"

definition ring_bytes :: "ring_t \<Rightarrow> u8 list" where
  "ring_bytes r = map (ring_at r) [0..<unat (ring_used r)]"

definition ring_init :: ring_t where
  "ring_init = \<lparr>ring_buf = replicate 1024 0, ring_head = 0, ring_tail = 0\<rparr>"

section \<open>Refinement to the list of unread bytes\<close>

definition ring_ok :: "ring_t \<Rightarrow> bool" where
  "ring_ok r \<longleftrightarrow> length (ring_buf r) = 1024 \<and> unat (ring_head r) < 1024 \<and> unat (ring_tail r) < 1024"

lemma unat_mask10: "unat ((x :: u16) AND 1023) = unat x mod 1024"
proof -
  have "x AND 1023 = take_bit 10 x" by (simp add: take_bit_eq_mask mask_eq_exp_minus_1)
  then have "unat (x AND 1023) = take_bit 10 (unat x)" by (simp only: unsigned_take_bit_eq)
  then show ?thesis by (simp add: take_bit_eq_mod)
qed

lemma mod_65536_1024: "n mod 65536 mod 1024 = n mod (1024 :: nat)"
  by (rule mod_mod_cancel) simp

lemma unat_plus_mask: "unat ((x + of_nat i :: u16) AND 1023) = (unat x + i) mod 1024"
proof -
  have "unat (x + of_nat i :: u16) = (unat x + i mod 65536) mod 65536"
    by (simp add: unat_word_ariths unat_of_nat)
  then show ?thesis unfolding unat_mask10
    by (metis mod_65536_1024 mod_add_right_eq)
qed

lemma unat_minus_mask: "unat ((x - y :: u16) AND 1023) = (unat x + (65536 - unat y)) mod 1024"
proof -
  have "unat y < 2 ^ LENGTH(16)" by (rule unsigned_less)
  then have "unat y < 65536" by simp
  then have "- y = of_nat (65536 - unat y)" by (simp add: of_nat_diff)
  then have e: "x - y = x + of_nat (65536 - unat y)" by (metis add_uminus_conv_diff)
  show ?thesis unfolding e by (rule unat_plus_mask)
qed

lemma ring_at_nth: "ring_at r i = ring_buf r ! ((unat (ring_tail r) + i) mod 1024)"
  by (simp add: ring_at_def unat_plus_mask)

lemma ring_used_bound: "unat (ring_used r) < 1024"
  by (simp add: ring_used_def unat_mask10)

lemma length_ring_bytes [simp]: "length (ring_bytes r) = unat (ring_used r)"
  by (simp add: ring_bytes_def)

lemma nth_ring_bytes: "i < unat (ring_used r) \<Longrightarrow> ring_bytes r ! i = ring_at r i"
  by (simp add: ring_bytes_def)

lemma ring_head_pos:
  assumes "ring_ok r"
  shows "(unat (ring_tail r) + unat (ring_used r)) mod 1024 = unat (ring_head r)"
proof -
  have t: "unat (ring_tail r) < 1024" "unat (ring_head r) < 1024" using assms by (auto simp: ring_ok_def)
  have "(unat (ring_tail r) + unat (ring_used r)) mod 1024
      = (unat (ring_tail r) + (unat (ring_head r) + (65536 - unat (ring_tail r)))) mod 1024"
    unfolding ring_used_def unat_minus_mask by (rule mod_add_right_eq)
  also have "\<dots> = (unat (ring_head r) + 64 * 1024) mod 1024" using t by simp
  also have "\<dots> = unat (ring_head r)" using t by (simp only: mod_mult_self1 mod_less)
  finally show ?thesis .
qed

text \<open>The ring with its tail moved \<open>k\<close> bytes on.\<close>

lemma ring_used_advance:
  assumes "ring_ok r" "k \<le> unat (ring_used r)" "unat t' = (unat (ring_tail r) + k) mod 1024"
  shows "unat (ring_used (r\<lparr>ring_tail := t'\<rparr>)) = unat (ring_used r) - k"
    "ring_ok (r\<lparr>ring_tail := t'\<rparr>)" "ring_bytes (r\<lparr>ring_tail := t'\<rparr>) = drop k (ring_bytes r)"
proof -
  let ?r = "r\<lparr>ring_tail := t'\<rparr>"
  show ok: "ring_ok ?r" using assms by (simp add: ring_ok_def)
  have at: "ring_at ?r i = ring_at r (k + i)" for i
  proof -
    have "ring_at ?r i = ring_buf r ! ((unat t' + i) mod 1024)" by (simp add: ring_at_nth)
    then show ?thesis unfolding ring_at_nth assms(3) mod_add_left_eq add.assoc .
  qed
  have "(unat (ring_tail r) + k + unat (ring_used ?r)) mod 1024
      = (unat t' + unat (ring_used ?r)) mod 1024"
    unfolding assms(3) by (simp only: mod_add_left_eq)
  also have "\<dots> = unat (ring_head r)" using ring_head_pos [OF ok] by simp
  also have "\<dots> = (unat (ring_tail r) + k + (unat (ring_used r) - k)) mod 1024"
    using ring_head_pos [OF assms(1)] assms(2) by simp
  finally have m: "(unat (ring_tail r) + k + unat (ring_used ?r)) mod 1024
      = (unat (ring_tail r) + k + (unat (ring_used r) - k)) mod 1024" .
  show u: "unat (ring_used ?r) = unat (ring_used r) - k"
    by (rule mod_add_inj [OF ring_used_bound _ m]) (use ring_used_bound [of r] in linarith)
  show "ring_bytes ?r = drop k (ring_bytes r)"
    using assms(2) by (intro nth_equalityI) (simp_all add: u nth_ring_bytes at)
qed

lemma ring_consume_spec:
  assumes "ring_ok r"
  shows "ring_bytes (ring_consume r n) = drop (unat n) (ring_bytes r)" "ring_ok (ring_consume r n)"
proof -
  define k where "k = (if n > ring_used r then ring_used r else n)"
  have k: "unat k \<le> unat (ring_used r)" "drop (unat k) (ring_bytes r) = drop (unat n) (ring_bytes r)"
    by (auto simp: k_def word_less_nat_alt)
  have t: "unat ((ring_tail r + k) AND 1023) = (unat (ring_tail r) + unat k) mod 1024"
    using unat_plus_mask [of "ring_tail r" "unat k"] by simp
  show "ring_bytes (ring_consume r n) = drop (unat n) (ring_bytes r)" "ring_ok (ring_consume r n)"
    using ring_used_advance(2,3) [OF assms k(1) t] k(2) by (simp_all add: ring_consume_def k_def Let_def)
qed

lemma ring_copy_loop_spec:
  "ring_ok r \<Longrightarrow> n \<le> unat (ring_used r) \<Longrightarrow>
   fst (ring_copy_loop n r) = take n (ring_bytes r) \<and>
   ring_bytes (snd (ring_copy_loop n r)) = drop n (ring_bytes r) \<and> ring_ok (snd (ring_copy_loop n r))"
proof (induction n arbitrary: r)
  case (Suc n)
  let ?r = "r\<lparr>ring_tail := (ring_tail r + 1) AND ESP_RXBUF_MASK\<rparr>"
  have t: "unat ((ring_tail r + 1) AND 1023) = (unat (ring_tail r) + 1) mod 1024"
    using unat_plus_mask [of "ring_tail r" 1] by simp
  note adv = ring_used_advance [OF Suc.prems(1) _ t]
  have one: "1 \<le> unat (ring_used r)" using Suc.prems(2) by simp
  note IH = Suc.IH [OF adv(2) [OF one]]
  have ne: "ring_bytes r \<noteq> []" using one by (metis length_ring_bytes list.size(3) not_one_le_zero)
  have "hd (ring_bytes r) = ring_at r 0" using one nth_ring_bytes [of 0 r] by (simp add: hd_conv_nth ne)
  moreover have "ring_at r 0 = ring_buf r ! unat (ring_tail r)"
    using Suc.prems(1) by (simp add: ring_at_nth ring_ok_def)
  ultimately have b: "ring_bytes r = ring_buf r ! unat (ring_tail r) # drop 1 (ring_bytes r)"
    using ne by (cases "ring_bytes r") auto
  have "n \<le> unat (ring_used ?r)" using adv(1) [OF one] Suc.prems(2) by simp
  from IH [OF this] show ?case
    using b adv(3) [OF one] by (auto simp: split_beta Let_def) (metis take_Suc_Cons)
qed simp

lemma ring_copy_out_spec:
  assumes "ring_ok r"
  shows "fst (ring_copy_out r n) = take (unat n) (ring_bytes r)"
    "ring_bytes (snd (ring_copy_out r n)) = drop (unat n) (ring_bytes r)"
    "ring_ok (snd (ring_copy_out r n))"
  using ring_copy_loop_spec [OF assms, of "unat (if n > ring_used r then ring_used r else n)"]
  by (auto simp: ring_copy_out_def Let_def word_less_nat_alt not_less)

lemma unat_ring_free: "unat (ring_free r) = 1023 - unat (ring_used r)"
  using ring_used_bound [of r] by (simp add: ring_free_def unat_sub word_le_nat_alt)

lemma ring_push_spec:
  assumes "ring_ok r"
  shows "length (ring_bytes r) < 1023 \<Longrightarrow>
      fst (ring_push r b) = 0 \<and> ring_bytes (snd (ring_push r b)) = ring_bytes r @ [b]"
    "length (ring_bytes r) = 1023 \<Longrightarrow> ring_push r b = (-1, r)"
    "ring_ok (snd (ring_push r b))"
proof -
  let ?u = "unat (ring_used r)" and ?t = "unat (ring_tail r)"
  let ?r = "r\<lparr>ring_buf := (ring_buf r)[unat (ring_head r) := b],
               ring_head := (ring_head r + 1) AND ESP_RXBUF_MASK\<rparr>"
  have full: "ring_free r = 0 \<longleftrightarrow> ?u = 1023"
    using unat_ring_free [of r] ring_used_bound [of r] unat_eq_0 [of "ring_free r"] by auto
  have h: "unat ((ring_head r + 1) AND 1023) = (unat (ring_head r) + 1) mod 1024"
    using unat_plus_mask [of "ring_head r" 1] by simp
  have ok: "ring_ok ?r" using assms h by (simp add: ring_ok_def)
  show "ring_ok (snd (ring_push r b))" using assms ok by (simp add: ring_push_def)
  show "length (ring_bytes r) = 1023 \<Longrightarrow> ring_push r b = (-1, r)" using full by (simp add: ring_push_def)
  assume "length (ring_bytes r) < 1023"
  then have room: "?u < 1023" by simp
  have "(?t + unat (ring_used ?r)) mod 1024 = (unat (ring_head r) + 1) mod 1024"
    using ring_head_pos [OF ok] h by simp
  also have "\<dots> = (?t + (?u + 1)) mod 1024"
    unfolding ring_head_pos [OF assms, symmetric] by (simp only: mod_add_left_eq add.assoc)
  finally have m: "(?t + unat (ring_used ?r)) mod 1024 = (?t + (?u + 1)) mod 1024" .
  have u: "unat (ring_used ?r) = ?u + 1"
    by (rule mod_add_inj [OF ring_used_bound _ m]) (use room in linarith)
  have "ring_bytes ?r = ring_bytes r @ [b]"
  proof (rule nth_equalityI)
    fix i assume "i < length (ring_bytes ?r)"
    then have i: "i < ?u + 1" using u by simp
    show "ring_bytes ?r ! i = (ring_bytes r @ [b]) ! i"
    proof (cases "i = ?u")
      case True
      then show ?thesis using u ring_head_pos [OF assms] assms
        by (simp add: nth_ring_bytes nth_append ring_at_nth ring_ok_def)
    next
      case False
      then have iu: "i < ?u" using i by simp
      have "(?t + i) mod 1024 \<noteq> (?t + ?u) mod 1024"
        using mod_add_inj [of i 1024 ?u ?t] iu room by auto
      then show ?thesis using u iu ring_head_pos [OF assms]
        by (simp add: nth_ring_bytes nth_append ring_at_nth)
    qed
  qed (simp add: u)
  then show "fst (ring_push r b) = 0 \<and> ring_bytes (snd (ring_push r b)) = ring_bytes r @ [b]"
    using room full by (simp add: ring_push_def)
qed

lemma ring_init_ok: "ring_ok ring_init" "ring_bytes ring_init = []"
  by (simp_all add: ring_ok_def ring_init_def ring_bytes_def ring_used_def)


section \<open>The interface of the driver\<close>

text \<open>What the AT and \<open>+IPD\<close> code relies on: a bounded list of bytes.\<close>

locale byte_ring =
  fixes bytes :: "'r \<Rightarrow> u8 list" and ok :: "'r \<Rightarrow> bool" and cap :: nat
    and push :: "u8 \<Rightarrow> 'r \<Rightarrow> 'r" and consume :: "'r \<Rightarrow> u16 \<Rightarrow> 'r"
  assumes push_room: "ok r \<Longrightarrow> length (bytes r) < cap \<Longrightarrow> bytes (push b r) = bytes r @ [b]"
    and push_full: "ok r \<Longrightarrow> length (bytes r) = cap \<Longrightarrow> bytes (push b r) = bytes r"
    and push_ok: "ok r \<Longrightarrow> ok (push b r)"
    and consume_bytes: "ok r \<Longrightarrow> bytes (consume r n) = drop (unat n) (bytes r)"
    and consume_ok: "ok r \<Longrightarrow> ok (consume r n)"
    and bounded: "ok r \<Longrightarrow> length (bytes r) \<le> cap"

context byte_ring
begin

lemma burst:
  "ok r \<Longrightarrow> ok (fold push bs r) \<and>
    bytes (fold push bs r) = bytes r @ take (cap - length (bytes r)) bs"
proof (induction bs arbitrary: r)
  case (Cons b bs)
  note IH = Cons.IH [OF push_ok [OF Cons.prems, of b]]
  show ?case
  proof (cases "length (bytes r) < cap")
    case True
    then have "cap - length (bytes r) = Suc (cap - length (bytes r @ [b]))" by simp
    then show ?thesis using IH push_room [OF Cons.prems True, of b] by simp
  next
    case False
    then have "length (bytes r) = cap" using bounded [OF Cons.prems] by simp
    then show ?thesis using IH push_full [OF Cons.prems, of b] by simp
  qed
qed simp

lemma burst_length:
  "ok r \<Longrightarrow> length (bytes (fold push bs r)) \<le> length (bytes r) + length bs"
  using burst [of r bs] by simp

lemma consume_all: "ok r \<Longrightarrow> length (bytes r) \<le> unat n \<Longrightarrow> bytes (consume r n) = []"
  by (simp add: consume_bytes)

end

interpretation esp_ring: byte_ring ring_bytes ring_ok 1023 "\<lambda>b r. snd (ring_push r b)" ring_consume
proof unfold_locales
  fix r :: ring_t and b n
  assume ok: "ring_ok r"
  show "length (ring_bytes r) < 1023 \<Longrightarrow> ring_bytes (snd (ring_push r b)) = ring_bytes r @ [b]"
    using ring_push_spec(1) [OF ok] by simp
  show "length (ring_bytes r) = 1023 \<Longrightarrow> ring_bytes (snd (ring_push r b)) = ring_bytes r"
    using ring_push_spec(2) [OF ok] by simp
  show "ring_ok (snd (ring_push r b))" by (rule ring_push_spec(3) [OF ok])
  show "ring_bytes (ring_consume r n) = drop (unat n) (ring_bytes r)" "ring_ok (ring_consume r n)"
    by (rule ring_consume_spec [OF ok])+
  show "length (ring_bytes r) \<le> 1023" using ring_used_bound [of r] by simp
qed

section \<open>Properties\<close>

text \<open>C35: the interrupt side and the driver side of the ring behave as a queue of bytes that
  holds 1023 of them: a burst is appended as far as there is room and its rest is dropped,
  consuming and copying out take bytes from the front, and copying returns exactly them.\<close>

theorem ring_is_byte_queue:
  assumes "ring_ok r"
  shows "ring_bytes (fold (\<lambda>b r. snd (ring_push r b)) burst r)
       = ring_bytes r @ take (1023 - length (ring_bytes r)) burst \<and>
     ring_bytes (ring_consume r n) = drop (unat n) (ring_bytes r) \<and>
     fst (ring_copy_out r n) = take (unat n) (ring_bytes r) \<and>
     ring_bytes (snd (ring_copy_out r n)) = drop (unat n) (ring_bytes r) \<and>
     ring_ok (fold (\<lambda>b r. snd (ring_push r b)) burst r) \<and> ring_ok (ring_consume r n) \<and>
     ring_ok (snd (ring_copy_out r n))"
  using esp_ring.burst [OF assms, of burst] ring_consume_spec [OF assms] ring_copy_out_spec [OF assms]
  by simp

lemma ring_is_byte_queue_witness:
  "fst (ring_copy_out (fold (\<lambda>b r. snd (ring_push r b)) [79, 75, 13, 10] ring_init) 2) = [79, 75]"
proof -
  let ?r = "fold (\<lambda>b r. snd (ring_push r b)) [79, 75, 13, 10] ring_init"
  have "ring_ok ?r \<and> ring_bytes ?r = [79, 75, 13, 10]"
    using ring_is_byte_queue [OF ring_init_ok(1), of "[79, 75, 13, 10]"] ring_init_ok(2) by simp
  then show ?thesis using ring_is_byte_queue [of ?r "[]" 2] by simp
qed

end
