(* ===== verification/Esp8266.thy ===== *)
theory Esp8266
  imports Esp_Ring
begin

text \<open>
  The ESP8266 driver (\<open>Drivers/BSP/ESP8266/esp8266.c\<close>): AT commands over UART4, \<open>+IPD\<close>
  frames, unsolicited result codes and the WiFi/TCP operations built on them. The module on
  the other end of the wire is the list \<open>uart_in\<close>: the bytes that arrive during each of the
  coming 10 ms delays (a delay with nothing left to arrive only lets time pass). What the
  driver transmits is logged in \<open>uart_tx\<close>. Debug output is not modelled.
\<close>

section \<open>State\<close>

datatype esp_err_t = ESP_OK | ESP_ERR_TIMEOUT | ESP_ERR_NO_RESP | ESP_ERR_RESP | ESP_ERR_PARAM | ESP_ERR_BUSY

abbreviation ESP_MAX_LINK_ID :: nat where "ESP_MAX_LINK_ID \<equiv> 5"

record esp =
  s_rx :: ring_t
  s_wifi_connected :: u8
  s_link_state :: "u8 list"
  uart_tx :: "u8 list list"
  uart_in :: "u8 list list"
  ticks :: u32                      \<comment> \<open>\<open>HAL_GetTick()\<close>\<close>

text \<open>The registered receive callback (\<open>s_recv_cb\<close>); it may run any code of the client.\<close>

type_synonym 's recv_cb = "(int \<Rightarrow> u8 list \<Rightarrow> 's \<Rightarrow> 's) option"

abbreviation CR :: u8 where "CR \<equiv> 13"
abbreviation LF :: u8 where "LF \<equiv> 10"

section \<open>UART\<close>

definition ESP_UART_IRQHandler :: "u8 \<Rightarrow> 'a esp_scheme \<Rightarrow> 'a esp_scheme" where
  "ESP_UART_IRQHandler b s = s\<lparr>s_rx := snd (ring_push (s_rx s) b)\<rparr>"

definition uart_send :: "u8 list \<Rightarrow> 'a esp_scheme \<Rightarrow> 'a esp_scheme" where
  "uart_send data s = s\<lparr>uart_tx := uart_tx s @ [data]\<rparr>"

text \<open>\<open>snprintf\<close> into a buffer of \<open>cap\<close> bytes keeps at most \<open>cap - 1\<close> characters.\<close>

definition snprintf :: "nat \<Rightarrow> u8 list \<Rightarrow> u8 list" where
  "snprintf cap text = take (cap - 1) text"

definition at_send_line :: "u8 list \<Rightarrow> 'a esp_scheme \<Rightarrow> 'a esp_scheme" where
  "at_send_line line s = uart_send (snprintf 256 (line @ [CR, LF])) s"

text \<open>\<open>delay_ms(10)\<close>: time passes and the interrupt takes in what arrives meanwhile.\<close>

definition delay_10ms :: "'a esp_scheme \<Rightarrow> 'a esp_scheme" where
  "delay_10ms s = (case uart_in s of
       [] \<Rightarrow> s\<lparr>ticks := ticks s + 10\<rparr>
     | c # cs \<Rightarrow> (fold ESP_UART_IRQHandler c s)\<lparr>uart_in := cs, ticks := ticks s + 10\<rparr>)"

definition rx_flush :: "'a esp_scheme \<Rightarrow> 'a esp_scheme" where
  "rx_flush s = s\<lparr>s_rx := ring_consume (s_rx s) (ring_used (s_rx s))\<rparr>"

section \<open>Waiting for a reply\<close>

text \<open>The offset of the needle, if enough bytes are there and it occurs.\<close>

definition at_find :: "u8 list \<Rightarrow> u8 list \<Rightarrow> nat option" where
  "at_find needle bs = (if length bs \<ge> length needle then find_sub needle bs else None)"

text \<open>What \<open>out_line\<close> receives, and how many bytes are consumed, for a hit at \<open>found\<close>.\<close>

definition at_line :: "u8 list \<Rightarrow> nat \<Rightarrow> u8 list" where
  "at_line bs found = take 200 (takeWhile (\<lambda>c. c \<noteq> CR) (drop found bs))"

definition at_consume :: "u8 list \<Rightarrow> nat \<Rightarrow> nat" where
  "at_consume bs found =
     (let rest = drop found bs; k = length (takeWhile (\<lambda>c. c \<noteq> LF) rest)
      in if k < length rest then Suc k else k)"

function at_wait_loop :: "u8 list \<Rightarrow> nat \<Rightarrow> nat \<Rightarrow> 'a esp_scheme \<Rightarrow> u8 list option \<times> 'a esp_scheme" where
  "at_wait_loop needle timeout elapsed s =
     (if elapsed < timeout then
        (let bs = ring_bytes (s_rx s) in
         case at_find needle bs of
           Some found \<Rightarrow> (Some (at_line bs found),
                          s\<lparr>s_rx := ring_consume (s_rx s) (of_nat (at_consume bs found))\<rparr>)
         | None \<Rightarrow> at_wait_loop needle timeout (elapsed + 10) (delay_10ms s))
      else (None, s))"
  by pat_completeness auto
termination
  by (relation "measure (\<lambda>(needle, timeout, elapsed, s). timeout - elapsed)") auto

declare at_wait_loop.simps [simp del]

text \<open>Result \<open>Some line\<close> is the return value 0 with the line copied out; \<open>None\<close> is \<open>-1\<close>.\<close>

definition at_wait_for :: "u8 list \<Rightarrow> nat \<Rightarrow> 'a esp_scheme \<Rightarrow> u8 list option \<times> 'a esp_scheme" where
  "at_wait_for needle timeout s = at_wait_loop needle timeout 0 s"

section \<open>\<open>+IPD\<close> frames\<close>

text \<open>
  The digit loops of \<open>parse_ipd_header\<close> on the text of the header: the number read so far
  (an \<open>int\<close>, with the target's wrap-around) and the text after the digits.
\<close>

fun ipd_digits :: "int \<Rightarrow> u8 list \<Rightarrow> int \<times> u8 list" where
  "ipd_digits acc [] = (acc, [])"
| "ipd_digits acc (c # cs) =
     (if is_digit c then ipd_digits (wrap32 (acc * 10 + (uint c - 48))) cs else (acc, c # cs))"

definition starts_with :: "u8 list \<Rightarrow> u8 list \<Rightarrow> bool" where
  "starts_with p s \<longleftrightarrow> take (length p) s = p"

text \<open>Result: \<open>*out_link\<close> (an \<open>int8_t\<close>) and \<open>*out_len\<close>.\<close>

definition parse_ipd_header :: "u8 list \<Rightarrow> int \<times> u16" where
  "parse_ipd_header line =
     (if \<not> starts_with (ascii ''+IPD,'') line then (-1, 0)
      else let p = drop 5 line;
               q = dropWhile is_digit p;
               (link, p) = (if starts_with (ascii '','') q
                            then (let (l, r) = ipd_digits 0 p in (l, drop 1 r))
                            else (0, p));
               (len, r) = ipd_digits 0 p
           in if \<not> starts_with (ascii '':'') r then (-1, 0)
              else (wrap8 link, word_of_int len))"

text \<open>The header copied into \<open>hdr[64]\<close>: up to and with the first colon, at most 63 bytes.\<close>

definition ipd_header :: "u8 list \<Rightarrow> u8 list" where
  "ipd_header bs =
     (let r = take 63 bs; t = takeWhile (\<lambda>c. c \<noteq> 58) r
      in if length t < length r then t @ [58] else t)"

text \<open>One turn of the loop of \<open>parse_ipd_frames\<close>; \<open>True\<close> asks for another turn.\<close>

definition ipd_step :: "('a esp_scheme) recv_cb \<Rightarrow> 'a esp_scheme \<Rightarrow> bool \<times> 'a esp_scheme" where
  "ipd_step s_recv_cb s =
     (let bs = ring_bytes (s_rx s); used = length bs in
      if used < 6 then (False, s)
      else case find_sub (ascii ''+IPD,'') bs of
        None \<Rightarrow> (False, s)
      | Some hit \<Rightarrow>
          (let hdr = ipd_header (drop hit bs) in
           if last hdr \<noteq> 58 then (False, s)
           else let (link, dlen) = parse_ipd_header hdr in
             if link < 0 \<or> dlen = 0 then (True, s\<lparr>s_rx := ring_consume (s_rx s) 1\<rparr>)
             else if used < hit + length hdr + unat dlen then (False, s)
             else let r1 = ring_consume (s_rx s) (of_nat (hit + length hdr)) in
               if unat dlen > 512 then (True, s\<lparr>s_rx := ring_consume r1 dlen\<rparr>)
               else let (data, r2) = ring_copy_out r1 dlen in
                 if length data \<noteq> unat dlen
                 then (True, s\<lparr>s_rx := ring_consume r2 (of_nat (used - hit - length hdr))\<rparr>)
                 else (True, (case s_recv_cb of
                                None \<Rightarrow> s\<lparr>s_rx := r2\<rparr>
                              | Some cb \<Rightarrow> cb link data (s\<lparr>s_rx := r2\<rparr>)))))"

partial_function (option) parse_ipd_frames ::
    "('a esp_scheme) recv_cb \<Rightarrow> 'a esp_scheme \<Rightarrow> 'a esp_scheme option" where
  "parse_ipd_frames s_recv_cb s =
     (case ipd_step s_recv_cb s of
        (again, s') \<Rightarrow> if again then parse_ipd_frames s_recv_cb s' else Some s')"

section \<open>Unsolicited result codes\<close>

definition contains :: "u8 list \<Rightarrow> u8 list \<Rightarrow> bool" where
  "contains line needle \<longleftrightarrow> find_sub needle line \<noteq> None"

text \<open>What a line of the module (without its line end) does to the link state.\<close>

definition urc_line :: "u8 list \<Rightarrow> 'a esp_scheme \<Rightarrow> 'a esp_scheme" where
  "urc_line line s =
     (if length line \<ge> 2 \<and> 48 \<le> line ! 0 \<and> line ! 0 \<le> 52 \<and> line ! 1 = 44 then
        (let i = unat (line ! 0 - 48) in
         if contains line (ascii ''CONNECTED'') then
           (if i < ESP_MAX_LINK_ID then s\<lparr>s_link_state := (s_link_state s)[i := 1]\<rparr> else s)
         else if contains line (ascii ''CLOSED'') then
           (if i < ESP_MAX_LINK_ID then s\<lparr>s_link_state := (s_link_state s)[i := 0]\<rparr> else s)
         else s)
      else if line = ascii ''CLOSED'' \<or> contains line (ascii ''CLOSED'' @ [CR, LF]) then
        s\<lparr>s_link_state := (s_link_state s)[0 := 0]\<rparr>
      else if contains line (ascii ''WIFI DISCONNECT'') then
        s\<lparr>s_wifi_connected := 0, s_link_state := replicate ESP_MAX_LINK_ID 0\<rparr>
      else if contains line (ascii ''WIFI CONNECTED'') \<or> contains line (ascii ''WIFI GOT IP'') then
        s\<lparr>s_wifi_connected := 1\<rparr>
      else s)"

text \<open>The line buffer \<open>line[128]\<close> after the trailing CR and LF bytes were cut, as a string.\<close>

definition urc_text :: "u8 list \<Rightarrow> u8 list" where
  "urc_text bytes = cstr (rev (dropWhile (\<lambda>c. c = CR \<or> c = LF) (rev bytes)))"

definition urc_step :: "'a esp_scheme \<Rightarrow> bool \<times> 'a esp_scheme" where
  "urc_step s =
     (let bs = ring_bytes (s_rx s); k = length (takeWhile (\<lambda>c. c \<noteq> LF) bs) in
      if k = length bs then (False, s)
      else let copy_len = (if k + 1 < 128 then k + 1 else 127);
               (bytes, r) = ring_copy_out (s_rx s) (of_nat copy_len)
           in (True, urc_line (urc_text bytes) (s\<lparr>s_rx := r\<rparr>)))"

partial_function (option) urc_loop :: "'a esp_scheme \<Rightarrow> 'a esp_scheme option" where
  "urc_loop s = (case urc_step s of (again, s') \<Rightarrow> if again then urc_loop s' else Some s')"

definition esp8266_loop :: "('a esp_scheme) recv_cb \<Rightarrow> 'a esp_scheme \<Rightarrow> 'a esp_scheme option" where
  "esp8266_loop s_recv_cb s = Option.bind (parse_ipd_frames s_recv_cb s) urc_loop"


section \<open>WiFi and TCP operations\<close>

text \<open>A command sent on a cleared buffer and the wait for its reply.\<close>

definition at_cmd :: "u8 list \<Rightarrow> u8 list \<Rightarrow> nat \<Rightarrow> 'a esp_scheme \<Rightarrow> u8 list option \<times> 'a esp_scheme" where
  "at_cmd line needle timeout s = at_wait_for needle timeout (at_send_line line (rx_flush s))"

text \<open>The answer-sniffing loop of \<open>esp8266_print_netinfo\<close>, until an OK or 3000 ms.\<close>

partial_function (option) netinfo_loop :: "u32 \<Rightarrow> 'a esp_scheme \<Rightarrow> 'a esp_scheme option" where
  "netinfo_loop t0 s =
     (if ticks s - t0 < 3000 then
        (case at_wait_for (ascii ''+'') 200 s of
           (Some line, s1) \<Rightarrow> netinfo_loop t0 s1
         | (None, s1) \<Rightarrow> (case at_wait_for (ascii ''OK'') 100 s1 of
               (Some line, s2) \<Rightarrow> Some s2
             | (None, s2) \<Rightarrow> netinfo_loop t0 s2))
      else Some s)"

definition esp8266_print_netinfo :: "'a esp_scheme \<Rightarrow> 'a esp_scheme option" where
  "esp8266_print_netinfo s =
     (let s1 = at_send_line (ascii ''AT+CIFSR'') (rx_flush s) in
      Option.bind (netinfo_loop (ticks s1) s1) (\<lambda>s2.
        let s3 = at_send_line (ascii ''AT+CIPSTA?'') (rx_flush s2) in netinfo_loop (ticks s3) s3))"

text \<open>The five AT handshakes of \<open>esp8266_init\<close>.\<close>

fun at_handshake :: "nat \<Rightarrow> 'a esp_scheme \<Rightarrow> bool \<times> 'a esp_scheme" where
  "at_handshake 0 s = (False, s)"
| "at_handshake (Suc n) s =
     (case at_cmd (ascii ''AT'') (ascii ''OK'') 1000 s of
        (Some line, s1) \<Rightarrow> (True, s1)
      | (None, s1) \<Rightarrow> at_handshake n s1)"

text \<open>\<open>uart4\<close> is the result of configuring the peripheral.\<close>

definition esp8266_init :: "esp_err_t \<Rightarrow> 'a esp_scheme \<Rightarrow> (esp_err_t \<times> 'a esp_scheme) option" where
  "esp8266_init uart4 s =
     (if uart4 \<noteq> ESP_OK then Some (uart4, s)
      else case at_cmd (ascii ''ATE0'') (ascii ''OK'') 1500 s of
        (None, s) \<Rightarrow> Some (ESP_ERR_NO_RESP, s)
      | (Some _, s) \<Rightarrow> (case at_cmd (ascii ''AT+CWMODE=1'') (ascii ''OK'') 1500 s of
        (None, s) \<Rightarrow> Some (ESP_ERR_NO_RESP, s)
      | (Some _, s) \<Rightarrow> (case at_handshake 5 s of
        (False, s) \<Rightarrow> Some (ESP_ERR_NO_RESP, s)
      | (True, s) \<Rightarrow> (case at_cmd (ascii ''AT+CIPMUX=0'') (ascii ''OK'') 2000 s of
        (None, s) \<Rightarrow> Some (ESP_ERR_NO_RESP, s)
      | (Some _, s) \<Rightarrow>
          (let s = snd (at_cmd (ascii ''AT+CIPMODE=0'') (ascii ''OK'') 1000 s);
               (r, s) = at_cmd (ascii ''AT+CWJAP?'') (ascii ''+CWJAP:'') 3000 s;
               s = s\<lparr>s_wifi_connected := (if r \<noteq> None then 1 else 0)\<rparr>;
               s = s\<lparr>s_wifi_connected := 0\<rparr>;
               s = s\<lparr>s_link_state := replicate ESP_MAX_LINK_ID 0\<rparr>
           in map_option (\<lambda>s. (ESP_OK, s)) (esp8266_print_netinfo s))))))"

definition quoted :: "u8 list \<Rightarrow> u8 list" where
  "quoted text = [34] @ text @ [34]"

text \<open>The branch compiled with \<open>ESP8266_USE_STORED_AP == 0\<close>; \<open>None\<close> is a null pointer.\<close>

definition esp8266_connect_wifi ::
    "u8 list option \<Rightarrow> u8 list option \<Rightarrow> 'a esp_scheme \<Rightarrow> esp_err_t \<times> 'a esp_scheme" where
  "esp8266_connect_wifi ssid pwd s = (case (ssid, pwd) of
       (Some ssid, Some pwd) \<Rightarrow>
         (let s = rx_flush s;
              cmd = snprintf 128 (ascii ''AT+CWJAP='' @ quoted ssid @ ascii '','' @ quoted pwd);
              s = at_send_line cmd s
          in case at_wait_for (ascii ''+CWJAP:'') 30000 s of
               (Some line, s) \<Rightarrow> (ESP_ERR_RESP, s\<lparr>s_wifi_connected := 0\<rparr>)
             | (None, s) \<Rightarrow> (case at_wait_for (ascii ''WIFI GOT IP'') 8000 s of
                   (Some line, s) \<Rightarrow>
                     (let s = snd (at_wait_for (ascii ''OK'') 2000 s)
                      in (ESP_OK, s\<lparr>s_wifi_connected := 1\<rparr>))
                 | (None, s) \<Rightarrow> (ESP_ERR_TIMEOUT, s\<lparr>s_wifi_connected := 0\<rparr>)))
     | _ \<Rightarrow> (ESP_ERR_PARAM, s))"

definition esp8266_disconnect_wifi :: "'a esp_scheme \<Rightarrow> esp_err_t \<times> 'a esp_scheme" where
  "esp8266_disconnect_wifi s =
     (case at_wait_for (ascii ''OK'') 3000 (at_send_line (ascii ''AT+CWQAP'') s) of
        (None, s) \<Rightarrow> (ESP_ERR_RESP, s)
      | (Some line, s) \<Rightarrow> (ESP_OK, s\<lparr>s_wifi_connected := 0\<rparr>))"

definition esp8266_wifi_is_connected :: "'a esp_scheme \<Rightarrow> u8" where
  "esp8266_wifi_is_connected s = s_wifi_connected s"

partial_function (option) tcp_connect_loop :: "u32 \<Rightarrow> 'a esp_scheme \<Rightarrow> (int \<times> 'a esp_scheme) option" where
  "tcp_connect_loop t0 s =
     (if ticks s - t0 < 15000 then
        (case at_wait_for (ascii ''0,CONNECTED'') 200 s of
           (Some line, s) \<Rightarrow> Some (0, s\<lparr>s_link_state := (s_link_state s)[0 := 1]\<rparr>)
         | (None, s) \<Rightarrow> (case at_wait_for (ascii ''CONNECT'') 200 s of
           (Some line, s) \<Rightarrow> Some (0, s\<lparr>s_link_state := (s_link_state s)[0 := 1]\<rparr>)
         | (None, s) \<Rightarrow> (case at_wait_for (ascii ''OK'') 100 s of
           (Some line, s) \<Rightarrow> tcp_connect_loop t0 s
         | (None, s) \<Rightarrow> (case at_wait_for (ascii ''ERROR'') 100 s of
           (Some line, s) \<Rightarrow> Some (-1, s)
         | (None, s) \<Rightarrow> (case at_wait_for (ascii ''0,CLOSED'') 100 s of
           (Some line, s) \<Rightarrow> Some (-1, s)
         | (None, s) \<Rightarrow> tcp_connect_loop t0 s)))))
      else Some (-1, s))"

definition esp8266_tcp_connect :: "u8 list option \<Rightarrow> u16 \<Rightarrow> 'a esp_scheme \<Rightarrow> (int \<times> 'a esp_scheme) option" where
  "esp8266_tcp_connect host port s = (case host of
       None \<Rightarrow> Some (-1, s)
     | Some host \<Rightarrow>
         if s_wifi_connected s = 0 then Some (-1, s)
         else let s = rx_flush s;
                  cmd = snprintf 128 (ascii ''AT+CIPSTART='' @ quoted (ascii ''TCP'') @ ascii '',''
                          @ quoted host @ ascii '','' @ dec_digits (unat port));
                  s = at_send_line cmd s
              in tcp_connect_loop (ticks s) s)"

abbreviation link_id_ok :: "int \<Rightarrow> bool" where
  "link_id_ok l \<equiv> 0 \<le> l \<and> l < int ESP_MAX_LINK_ID"

definition esp8266_tcp_close :: "int \<Rightarrow> 'a esp_scheme \<Rightarrow> esp_err_t \<times> 'a esp_scheme" where
  "esp8266_tcp_close link_id s =
     (if \<not> link_id_ok link_id then (ESP_ERR_PARAM, s)
      else case at_wait_for (ascii ''OK'') 3000 (at_send_line (ascii ''AT+CIPCLOSE'') s) of
        (None, s) \<Rightarrow> (ESP_ERR_RESP, s)
      | (Some line, s) \<Rightarrow> (ESP_OK, s\<lparr>s_link_state := (s_link_state s)[0 := 0]\<rparr>))"

definition esp8266_query_tcp_status :: "int \<Rightarrow> 'a esp_scheme \<Rightarrow> esp_err_t \<times> 'a esp_scheme" where
  "esp8266_query_tcp_status link_id s =
     (if \<not> link_id_ok link_id then (ESP_ERR_PARAM, s)
      else let s = at_send_line (snprintf 32 (ascii ''AT+CIPSTATUS='' @ dec_digits (nat link_id))) (rx_flush s);
               s = snd (at_wait_for (ascii ''STATUS:'') 2000 s);
               s = snd (at_wait_for (ascii ''OK'') 1000 s)
           in (ESP_OK, s))"

text \<open>
  The loop of \<open>esp8266_ping\<close>; \<open>pong\<close> is \<open>pong_found\<close>. A line is a plus sign, then a digit
  (a time), PONG, timeout or something else.
\<close>

partial_function (option) ping_loop :: "u32 \<Rightarrow> bool \<Rightarrow> 'a esp_scheme \<Rightarrow> (esp_err_t \<times> 'a esp_scheme) option" where
  "ping_loop t0 pong s =
     (if ticks s - t0 < 35000 then
        (case at_wait_for (ascii ''+'') 200 s of
           (Some line, s) \<Rightarrow>
             (let text = cstr line in
              if length text \<ge> 2 \<and> is_digit (text ! 1) then ping_loop t0 True s
              else if contains text (ascii ''PONG'') then ping_loop t0 True s
              else if contains text (ascii ''timeout'') then
                Some (ESP_ERR_RESP, snd (at_wait_for (ascii ''OK'') 2000 s))
              else ping_loop t0 pong s)
         | (None, s) \<Rightarrow> (case at_wait_for (ascii ''OK'') 100 s of
             (Some line, s) \<Rightarrow> Some (if pong then ESP_OK else ESP_ERR_RESP, s)
           | (None, s) \<Rightarrow> (case at_wait_for (ascii ''ERROR'') 50 s of
               (Some line, s) \<Rightarrow> Some (ESP_ERR_RESP, s)
             | (None, s) \<Rightarrow> ping_loop t0 pong s)))
      else Some (ESP_ERR_TIMEOUT, s))"

definition esp8266_ping :: "u8 list option \<Rightarrow> 'a esp_scheme \<Rightarrow> (esp_err_t \<times> 'a esp_scheme) option" where
  "esp8266_ping host s = (case host of
       None \<Rightarrow> Some (ESP_ERR_PARAM, s)
     | Some host \<Rightarrow>
         (let s = at_send_line (snprintf 64 (ascii ''AT+PING='' @ quoted host)) (rx_flush s)
          in ping_loop (ticks s) False s))"

definition esp8266_tcp_send :: "int \<Rightarrow> u8 list option \<Rightarrow> u16 \<Rightarrow> 'a esp_scheme \<Rightarrow> esp_err_t \<times> 'a esp_scheme" where
  "esp8266_tcp_send link_id data len s =
     (if \<not> link_id_ok link_id then (ESP_ERR_PARAM, s)
      else case data of
        None \<Rightarrow> (ESP_ERR_PARAM, s)
      | Some d \<Rightarrow>
          if len = 0 then (ESP_ERR_PARAM, s)
          else let s = at_send_line (snprintf 32 (ascii ''AT+CIPSEND='' @ dec_digits (unat len))) s
               in case at_wait_for (ascii ''>'') 2000 s of
                    (None, s) \<Rightarrow> (ESP_ERR_NO_RESP, s)
                  | (Some line, s) \<Rightarrow>
                      (case at_wait_for (ascii ''SEND OK'') 5000 (uart_send (take (unat len) d) s) of
                         (None, s) \<Rightarrow> (ESP_ERR_RESP, s)
                       | (Some line, s) \<Rightarrow> (ESP_OK, s)))"

definition esp8266_is_link_up :: "int \<Rightarrow> 'a esp_scheme \<Rightarrow> u8" where
  "esp8266_is_link_up link_id s =
     (if \<not> link_id_ok link_id then 0 else s_link_state s ! nat link_id)"


section \<open>Invariant, load and frame of the waiting primitives\<close>

definition esp_ok :: "'a esp_scheme \<Rightarrow> bool" where
  "esp_ok s \<longleftrightarrow> ring_ok (s_rx s) \<and> length (s_link_state s) = ESP_MAX_LINK_ID \<and>
     set (s_link_state s) \<subseteq> {0, 1} \<and> s_wifi_connected s \<in> {0, 1}"

text \<open>What the driver may still see: unread bytes, bytes yet to arrive and the slots they come in.\<close>

definition esp_load :: "'a esp_scheme \<Rightarrow> nat" where
  "esp_load s = length (ring_bytes (s_rx s)) + sum_list (map (Suc \<circ> length) (uart_in s))"

text \<open>Two states that differ at most in the receive side and the clock.\<close>

definition rx_only :: "'a esp_scheme \<Rightarrow> 'a esp_scheme \<Rightarrow> bool" where
  "rx_only s s' \<longleftrightarrow> s' = s\<lparr>s_rx := s_rx s', uart_in := uart_in s', ticks := ticks s'\<rparr>"

lemma rx_only_refl [simp]: "rx_only s s"
  by (simp add: rx_only_def)

lemma rx_only_trans [trans]: "rx_only s s' \<Longrightarrow> rx_only s' s'' \<Longrightarrow> rx_only s s''"
  by (cases s; cases s'; cases s''; simp add: rx_only_def)

lemma rx_only_fields:
  assumes "rx_only s s'"
  shows "s_wifi_connected s' = s_wifi_connected s" "s_link_state s' = s_link_state s"
    "uart_tx s' = uart_tx s" "esp.more s' = esp.more s"
  using assms by (cases s; cases s'; simp add: rx_only_def)+

lemma rx_only_ok: "rx_only s s' \<Longrightarrow> ring_ok (s_rx s') \<Longrightarrow> esp_ok s \<Longrightarrow> esp_ok s'"
  by (auto simp: esp_ok_def rx_only_fields)

lemma irq_fold: "fold ESP_UART_IRQHandler c s = s\<lparr>s_rx := fold (\<lambda>b r. snd (ring_push r b)) c (s_rx s)\<rparr>"
  by (induction c arbitrary: s) (simp_all add: ESP_UART_IRQHandler_def)

lemma delay_facts:
  assumes "ring_ok (s_rx s)"
  shows "ring_ok (s_rx (delay_10ms s))" "esp_load (delay_10ms s) \<le> esp_load s"
    "rx_only s (delay_10ms s)" "ticks (delay_10ms s) = ticks s + 10"
proof -
  show "ticks (delay_10ms s) = ticks s + 10"
    by (cases "uart_in s") (simp_all add: delay_10ms_def irq_fold)
  show "rx_only s (delay_10ms s)"
    by (cases "uart_in s") (simp_all add: delay_10ms_def irq_fold rx_only_def)
  show "ring_ok (s_rx (delay_10ms s))"
    using assms esp_ring.burst [OF assms] by (cases "uart_in s") (simp_all add: delay_10ms_def irq_fold)
  show "esp_load (delay_10ms s) \<le> esp_load s"
  proof (cases "uart_in s")
    case (Cons c cs)
    then show ?thesis using esp_ring.burst_length [OF assms, of c]
      by (simp add: delay_10ms_def irq_fold esp_load_def del: length_ring_bytes)
  qed (simp add: delay_10ms_def esp_load_def)
qed

lemma at_find_facts:
  assumes "at_find needle bs = Some found" "needle \<noteq> []"
  shows "take (length needle) (drop found bs) = needle" "found + length needle \<le> length bs"
    "0 < at_consume bs found" "at_consume bs found \<le> length bs - found"
proof -
  have f: "find_sub needle bs = Some found" using assms(1) by (auto simp: at_find_def split: if_splits)
  show "take (length needle) (drop found bs) = needle" "found + length needle \<le> length bs"
    using find_sub_Some [OF f] by auto
  then have "drop found bs \<noteq> []" using assms(2) by auto
  moreover have "length (takeWhile (\<lambda>c. c \<noteq> LF) (drop found bs)) \<le> length (drop found bs)"
    by (rule length_takeWhile_le)
  moreover define k rest where "k = length (takeWhile (\<lambda>c. c \<noteq> LF) (drop found bs))" "rest = drop found bs"
  moreover have "at_consume bs found = (if k < length rest then Suc k else k)"
    unfolding at_consume_def k_rest_def Let_def ..
  ultimately have "0 < at_consume bs found \<and> at_consume bs found \<le> length rest"
    by (cases "k < length rest") (simp_all flip: length_greater_0_conv)
  then show "0 < at_consume bs found" "at_consume bs found \<le> length bs - found"
    by (simp_all add: k_rest_def)
qed

lemma ring_bytes_short: "length (ring_bytes r) < 1024"
  using ring_used_bound [of r] by simp

lemma consume_of_nat:
  assumes "ring_ok r" "k \<le> length (ring_bytes r)"
  shows "ring_bytes (ring_consume r (of_nat k)) = drop k (ring_bytes r)"
proof -
  have "unat (of_nat k :: u16) = k" using assms(2) ring_bytes_short [of r] by (intro unat_of_nat_u16) simp
  then show ?thesis using ring_consume_spec(1) [OF assms(1), of "of_nat k"] by simp
qed

text \<open>The facts about a wait that the driver's loops rest on.\<close>

lemma at_wait_loop_facts:
  assumes "ring_ok (s_rx s)" "needle \<noteq> []" "at_wait_loop needle timeout elapsed s = (r, s')"
  shows "ring_ok (s_rx s') \<and> rx_only s s' \<and> esp_load s' \<le> esp_load s \<and>
    (r \<noteq> None \<longrightarrow> esp_load s' < esp_load s) \<and>
    (\<exists>k. ticks s' = ticks s + of_nat (10 * k) \<and> 10 * k \<le> (timeout - elapsed) + 9 \<and>
       (r = None \<longrightarrow> timeout - elapsed \<le> 10 * k))"
  using assms
proof (induction needle timeout elapsed s rule: at_wait_loop.induct)
  case (1 needle timeout elapsed s)
  let ?bs = "ring_bytes (s_rx s)"
  note eq = 1(4) [unfolded at_wait_loop.simps [of needle timeout elapsed s] Let_def]
  consider (over) "timeout \<le> elapsed" | (hit) found where "elapsed < timeout" "at_find needle ?bs = Some found"
    | (miss) "elapsed < timeout" "at_find needle ?bs = None" by fastforce
  then show ?case
  proof cases
    case over
    then have "r = None" "s' = s" using eq by simp_all
    then show ?thesis using 1(2) over by (auto intro: exI [of _ 0])
  next
    case (hit found)
    let ?r = "ring_consume (s_rx s) (of_nat (at_consume ?bs found))"
    have s': "s' = s\<lparr>s_rx := ?r\<rparr>" and r: "r \<noteq> None" using eq hit by auto
    note f = at_find_facts [OF hit(2) 1(3)]
    have "ring_bytes ?r = drop (at_consume ?bs found) ?bs" "ring_ok ?r"
      using consume_of_nat [OF 1(2), of "at_consume ?bs found"] f(4) ring_consume_spec(2) [OF 1(2)] by auto
    moreover have "length (drop (at_consume ?bs found) ?bs) < length ?bs"
      using f(2,3) 1(3) unfolding length_drop by (cases needle) auto
    ultimately have "esp_load s' < esp_load s" "ring_ok (s_rx s')"
      unfolding s' esp_load_def by (simp_all del: length_ring_bytes length_drop)
    then show ?thesis using r s' by (auto simp: rx_only_def intro: exI [of _ 0])
  next
    case miss
    note d = delay_facts [OF 1(2)]
    have "at_wait_loop needle timeout (elapsed + 10) (delay_10ms s) = (r, s')" using eq miss by simp
    note IH = 1(1) [OF miss(1) refl miss(2) d(1) 1(3) this]
    then obtain k where k: "ticks s' = ticks (delay_10ms s) + of_nat (10 * k)"
      "10 * k \<le> (timeout - (elapsed + 10)) + 9" "r = None \<longrightarrow> timeout - (elapsed + 10) \<le> 10 * k"
      by blast
    have "ticks s' = ticks s + of_nat (10 * Suc k)" using k(1) d(4) by simp
    moreover have "10 * Suc k \<le> (timeout - elapsed) + 9"
    proof (cases "timeout \<le> elapsed + 10")
      case True
      then have "k = 0" using k(2) by simp
      then show ?thesis using miss(1) by simp
    next
      case False
      then show ?thesis using k(2) by simp
    qed
    moreover have "r = None \<longrightarrow> timeout - elapsed \<le> 10 * Suc k"
      using k(3) by auto
    ultimately show ?thesis using IH d(2,3) rx_only_trans [OF d(3)] by (meson le_trans le_less_trans less_le_trans)
  qed
qed

lemma at_wait_facts:
  assumes "ring_ok (s_rx s)" "needle \<noteq> []" "at_wait_for needle timeout s = (r, s')"
  shows "ring_ok (s_rx s')" "rx_only s s'" "esp_load s' \<le> esp_load s"
    "r \<noteq> None \<Longrightarrow> esp_load s' < esp_load s"
    "\<exists>k. ticks s' = ticks s + of_nat (10 * k) \<and> 10 * k \<le> timeout + 9 \<and> (r = None \<longrightarrow> timeout \<le> 10 * k)"
  using at_wait_loop_facts [OF assms(1,2) assms(3) [unfolded at_wait_for_def]] by auto


section \<open>Parsing \<open>+IPD\<close> headers and frames\<close>

lemma ipd_digits_run:
  "\<forall>c \<in> set ds. is_digit c \<Longrightarrow> 0 \<le> acc \<Longrightarrow>
   foldl (\<lambda>v c. v * 10 + (uint c - 48)) acc ds < 2 ^ 31 \<Longrightarrow>
   ipd_digits acc (ds @ r) = ipd_digits (foldl (\<lambda>v c. v * 10 + (uint c - 48)) acc ds) r"
proof (induction ds arbitrary: acc)
  case (Cons d ds)
  let ?a = "acc * 10 + (uint d - 48)"
  have a: "0 \<le> ?a" using Cons.prems digit_uint [of d] by simp
  have "?a \<le> foldl (\<lambda>v c. v * 10 + (uint c - 48)) ?a ds"
    using Cons.prems a by (intro dec_foldl_mono) auto
  then have "?a < 2 ^ 31" using Cons.prems(3) by simp
  then have "wrap32 ?a = ?a" using a by (intro wrap32_id) auto
  then show ?case using Cons a by simp
qed simp

lemma ipd_digits_dec:
  assumes "n < 2 ^ 31" "\<not> is_digit c"
  shows "ipd_digits 0 (dec_digits n @ c # r) = (int n, c # r)"
proof -
  have v: "foldl (\<lambda>v c. v * 10 + (uint c - 48)) 0 (dec_digits n) = int n"
    using dec_value_digits [of n] by (simp add: dec_value_def)
  show ?thesis
    using ipd_digits_run [OF dec_digits_digits, of 0 n "c # r"] assms by (simp add: v)
qed

lemma dropWhile_digits: "\<not> is_digit c \<Longrightarrow> dropWhile is_digit (dec_digits n @ c # r) = c # r"
  using dec_digits_digits [of n] by (simp add: dropWhile_append)

text \<open>A frame as the module sends it, with (\<open>CIPMUX=1\<close>) or without (\<open>CIPMUX=0\<close>) a link number.\<close>

definition ipd_head :: "nat option \<Rightarrow> nat \<Rightarrow> u8 list" where
  "ipd_head mux n = ascii ''+IPD,'' @ (case mux of None \<Rightarrow> [] | Some l \<Rightarrow> dec_digits l @ [44])
     @ dec_digits n @ [58]"

definition ipd_frame :: "nat option \<times> u8 list \<Rightarrow> u8 list" where
  "ipd_frame f = ipd_head (fst f) (length (snd f)) @ snd f"

definition ipd_link :: "nat option \<Rightarrow> int" where
  "ipd_link mux = (case mux of None \<Rightarrow> 0 | Some l \<Rightarrow> int l)"

lemma ipd_prefix: "ascii ''+IPD,'' = [43, 73, 80, 68, 44]"
  by (simp add: ascii_def)

lemma parse_header_frame:
  assumes "n < 65536" "\<And>l. mux = Some l \<Longrightarrow> l < 128"
  shows "parse_ipd_header (ipd_head mux n) = (ipd_link mux, of_nat n)"
proof (cases mux)
  case None
  have p: "starts_with (ascii ''+IPD,'') (ipd_head mux n)" "drop 5 (ipd_head mux n) = dec_digits n @ [58]"
    using None by (simp_all add: ipd_head_def starts_with_def ascii_def)
  show ?thesis unfolding parse_ipd_header_def p(2) Let_def
    using p(1) assms(1) ipd_digits_dec [of n 58 "[]"] dropWhile_digits [of 58 n "[]"] None
    by (simp add: starts_with_def ascii_def is_digit_def wrap8_id ipd_link_def)
next
  case (Some l)
  have p: "starts_with (ascii ''+IPD,'') (ipd_head mux n)"
    "drop 5 (ipd_head mux n) = dec_digits l @ 44 # dec_digits n @ [58]"
    using Some by (simp_all add: ipd_head_def starts_with_def ascii_def)
  have l: "l < 2 ^ 31" "wrap8 (int l) = int l" using assms(2) [OF Some] by (simp_all add: wrap8_id)
  show ?thesis unfolding parse_ipd_header_def p(2) Let_def
    using p(1) assms(1) ipd_digits_dec [of n 58 "[]"] ipd_digits_dec [OF l(1), of 44 "dec_digits n @ [58]"]
      dropWhile_digits [of 44 l "dec_digits n @ [58]"] Some l(2)
    by (simp add: starts_with_def ascii_def is_digit_def wrap8_id ipd_link_def)
qed

lemma digit_not_colon: "58 \<notin> set (dec_digits n)" "43 \<notin> set (dec_digits n)"
  using dec_digits_digits [of n] by (auto simp: is_digit_def)

lemma ipd_head_shape:
  assumes "n < 65536" "\<And>l. mux = Some l \<Longrightarrow> l < 128"
  shows "\<exists>h. ipd_head mux n = h @ [58] \<and> 58 \<notin> set h \<and> length h \<le> 14 \<and> 5 \<le> length h \<and>
    take 5 h = ascii ''+IPD,''"
proof -
  let ?h = "ascii ''+IPD,'' @ (case mux of None \<Rightarrow> [] | Some l \<Rightarrow> dec_digits l @ [44]) @ dec_digits n"
  have "length (dec_digits n) \<le> 5" by (rule dec_digits_length) (use assms(1) in simp_all)
  moreover have "length (dec_digits l) \<le> 3" if "mux = Some l" for l
    by (rule dec_digits_length) (use assms(2) [OF that] in simp_all)
  ultimately have "length ?h \<le> 14" by (cases mux) fastforce+
  moreover have "58 \<notin> set ?h" using digit_not_colon(1) by (cases mux) (auto simp: ascii_def)
  moreover have "ipd_head mux n = ?h @ [58]" by (simp add: ipd_head_def)
  moreover have "5 \<le> length ?h" "take 5 ?h = ascii ''+IPD,''" by simp_all
  ultimately show ?thesis by blast
qed

lemma ipd_header_frame:
  assumes "n < 65536" "\<And>l. mux = Some l \<Longrightarrow> l < 128"
  shows "ipd_header (ipd_head mux n @ rest) = ipd_head mux n"
proof -
  obtain h where h: "ipd_head mux n = h @ [58]" "58 \<notin> set h" "length h \<le> 14"
    using ipd_head_shape [OF assms] by blast
  have t: "take 63 (h @ 58 # rest) = h @ 58 # take (62 - length h) rest"
    using h(3) by (simp add: take_Cons' Suc_diff_le)
  have "takeWhile (\<lambda>c. c \<noteq> 58) (h @ 58 # take (62 - length h) rest) = h"
    using h(2) by (simp add: takeWhile_append)
  then show ?thesis using h t by (simp add: ipd_header_def Let_def)
qed

text \<open>The marker is found where the frame starts when nothing before it holds a plus sign.\<close>

lemma find_marker:
  assumes "43 \<notin> set pre" "take 5 fr = ascii ''+IPD,''"
  shows "find_sub (ascii ''+IPD,'') (pre @ fr) = Some (length pre)"
  using assms(1)
proof (induction pre)
  case Nil
  have "length (ascii ''+IPD,'') = 5" by simp
  then have "take (length (ascii ''+IPD,'')) fr = ascii ''+IPD,''" using assms(2) by (simp only:)
  then show ?case by (simp only: append_Nil list.size(3) find_sub_here)
next
  case (Cons x xs)
  then show ?case by (simp add: ipd_prefix)
qed


lemma ipd_step_frame:
  assumes ok: "ring_ok (s_rx s)" and bs: "ring_bytes (s_rx s) = pre @ ipd_frame (mux, d) @ rest"
    and pre: "43 \<notin> set pre" and d: "d \<noteq> []" "length d \<le> 512" and mux: "\<And>l. mux = Some l \<Longrightarrow> l < 128"
  shows "\<exists>r. ring_ok r \<and> ring_bytes r = rest \<and>
    ipd_step (Some cb) s = (True, cb (ipd_link mux) d (s\<lparr>s_rx := r\<rparr>))"
proof -
  let ?n = "length d" and ?hd = "ipd_head mux (length d)" and ?bs = "ring_bytes (s_rx s)"
  have n: "?n < 65536" using d by simp
  obtain h where h: "?hd = h @ [58]" "5 \<le> length h" "take 5 h = ascii ''+IPD,''"
    using ipd_head_shape [OF n mux] by blast
  have bs': "?bs = pre @ ?hd @ d @ rest" using bs by (simp add: ipd_frame_def)
  have find: "find_sub (ascii ''+IPD,'') ?bs = Some (length pre)"
    unfolding bs' by (rule find_marker [OF pre]) (use h in simp)
  have hdr: "ipd_header (drop (length pre) ?bs) = ?hd"
    unfolding bs' using ipd_header_frame [OF n mux, of mux] by simp
  have len: "length ?bs = length pre + length ?hd + ?n + length rest" unfolding bs' by simp
  have used: "\<not> length ?bs < 6" "\<not> length ?bs < length pre + length ?hd + ?n" unfolding len using h by auto
  have un: "unat (of_nat ?n :: u16) = ?n" using n by (intro unat_of_nat_u16) simp
  have nz: "(of_nat ?n :: u16) \<noteq> 0" using un d(1) by (metis length_0_conv unat_0)
  have link: "\<not> ipd_link mux < 0" by (cases mux) (simp_all add: ipd_link_def)
  define r1 where "r1 = ring_consume (s_rx s) (of_nat (length pre + length ?hd))"
  have r1: "ring_bytes r1 = d @ rest" "ring_ok r1"
    using consume_of_nat [OF ok, of "length pre + length ?hd"] len ring_consume_spec(2) [OF ok]
    by (simp_all add: r1_def bs' del: length_ring_bytes)
  define c where "c = ring_copy_out r1 (of_nat ?n)"
  have c: "fst c = d" "ring_bytes (snd c) = rest" "ring_ok (snd c)"
    using ring_copy_out_spec [OF r1(2), of "of_nat ?n"] r1(1) un by (simp_all add: c_def)
  have ph: "parse_ipd_header ?hd = (ipd_link mux, of_nat ?n)" by (rule parse_header_frame [OF n mux])
  have cc: "ring_copy_out r1 (of_nat ?n) = (d, snd c)" using c(1) by (simp add: c_def prod_eq_iff)
  have ifs: "\<not> last ?hd \<noteq> 58" "\<not> (ipd_link mux < 0 \<or> (of_nat ?n :: u16) = 0)" "\<not> ?n > 512" "\<not> ?n \<noteq> ?n"
    using h(1) link nz d(2) by simp_all
  have "ipd_step (Some cb) s = (True, cb (ipd_link mux) d (s\<lparr>s_rx := snd c\<rparr>))"
    unfolding ipd_step_def Let_def find if_not_P [OF used(1)] option.case hdr if_not_P [OF ifs(1)] ph prod.case
      if_not_P [OF ifs(2)] un if_not_P [OF used(2)] r1_def [symmetric] if_not_P [OF ifs(3)] cc
      if_not_P [OF ifs(4)]
    by (rule refl)
  then show ?thesis using c by blast
qed

text \<open>Every turn of the loop that asks for another one uses up bytes, if the client does not add any.\<close>

definition cb_ok :: "('a esp_scheme) recv_cb \<Rightarrow> bool" where
  "cb_ok recv \<longleftrightarrow> (\<forall>cb l d s. recv = Some cb \<and> esp_ok s \<longrightarrow>
      esp_ok (cb l d s) \<and> esp_load (cb l d s) \<le> esp_load s)"

lemma esp_ok_ring: "esp_ok s \<Longrightarrow> ring_ok r \<Longrightarrow> esp_ok (s\<lparr>s_rx := r\<rparr>)"
  by (simp add: esp_ok_def)

lemma esp_load_ring:
  "length (ring_bytes r) < length (ring_bytes (s_rx s)) \<Longrightarrow> esp_load (s\<lparr>s_rx := r\<rparr>) < esp_load s"
  by (simp add: esp_load_def)

lemma ipd_header_nonempty: "bs \<noteq> [] \<Longrightarrow> length (ipd_header bs) \<ge> 1"
  by (cases bs) (auto simp: ipd_header_def Let_def)

lemma ipd_header_length: "length (ipd_header bs) \<le> length bs"
proof -
  let ?r = "take 63 bs"
  have "length (takeWhile (\<lambda>c. c \<noteq> 58) ?r) \<le> length ?r" by (rule length_takeWhile_le)
  then show ?thesis by (auto simp: ipd_header_def Let_def)
qed

lemma ipd_step_progress:
  assumes ok: "esp_ok s" and cb: "cb_ok recv" and step: "ipd_step recv s = (again, s')"
  shows "esp_ok s' \<and> esp_load s' \<le> esp_load s \<and> (again \<longrightarrow> esp_load s' < esp_load s) \<and> (\<not> again \<longrightarrow> s' = s)"
proof -
  let ?bs = "ring_bytes (s_rx s)"
  have rok: "ring_ok (s_rx s)" using ok by (simp add: esp_ok_def)
  have shrink: "esp_ok (s\<lparr>s_rx := r\<rparr>) \<and> esp_load (s\<lparr>s_rx := r\<rparr>) < esp_load s"
    if "ring_ok r" "length (ring_bytes r) < length ?bs" for r
    using esp_ok_ring [OF ok that(1)] esp_load_ring [of r s] that(2) by blast
  show ?thesis
  proof (cases "length ?bs < 6 \<or> find_sub (ascii ''+IPD,'') ?bs = None")
    case True
    then have "ipd_step recv s = (False, s)"
      unfolding ipd_step_def Let_def by (auto simp del: length_ring_bytes)
    then show ?thesis using step ok by simp
  next
    case False
    then obtain hit where hit: "\<not> length ?bs < 6" "find_sub (ascii ''+IPD,'') ?bs = Some hit" by auto
    have hl: "hit + 5 \<le> length ?bs" using find_sub_Some [OF hit(2)] by simp
    define hdr where "hdr = ipd_header (drop hit ?bs)"
    obtain link dlen where pl: "parse_ipd_header hdr = (link, dlen)" by fastforce
    have h1: "1 \<le> length hdr" unfolding hdr_def using hl by (intro ipd_header_nonempty) auto
    have h2: "hit + length hdr \<le> length ?bs" unfolding hdr_def
      using ipd_header_length [of "drop hit ?bs"] hl by simp
    note step' = step [unfolded ipd_step_def Let_def if_not_P [OF hit(1)] hit(2) option.case
        hdr_def [symmetric] pl prod.case]
    define r1 where "r1 = ring_consume (s_rx s) (of_nat (hit + length hdr))"
    have r1: "ring_ok r1" "length (ring_bytes r1) < length ?bs"
      using consume_of_nat [OF rok h2] h1 h2 ring_consume_spec(2) [OF rok]
      by (simp_all add: r1_def del: length_ring_bytes)
    define c where "c = ring_copy_out r1 dlen"
    have c: "ring_ok (snd c)" "length (ring_bytes (snd c)) \<le> length (ring_bytes r1)"
      using ring_copy_out_spec(2,3) [OF r1(1), of dlen] by (simp_all add: c_def del: length_ring_bytes)
    have one: "ring_ok (ring_consume (s_rx s) 1)" "length (ring_bytes (ring_consume (s_rx s) 1)) < length ?bs"
      using ring_consume_spec [OF rok, of 1] hl by (simp_all del: length_ring_bytes)
    have more: "ring_ok (ring_consume r n) \<and> length (ring_bytes (ring_consume r n)) \<le> length (ring_bytes r)"
      if "ring_ok r" for r n
      using ring_consume_spec [OF that, of n] by (simp del: length_ring_bytes)
    obtain dat r2 where dr: "ring_copy_out r1 dlen = (dat, r2)" by fastforce
    have r2: "ring_ok r2" "length (ring_bytes r2) < length ?bs" using c r1(2) dr by (auto simp: c_def simp del: length_ring_bytes)
    note step2 = step' [unfolded r1_def [symmetric] dr prod.case]
    have out: thesis if
      "s' = s \<Longrightarrow> \<not> again \<Longrightarrow> thesis"
      "\<And>r. again \<Longrightarrow> ring_ok r \<Longrightarrow> length (ring_bytes r) < length ?bs \<Longrightarrow> s' = s\<lparr>s_rx := r\<rparr> \<Longrightarrow> thesis"
      "\<And>r f. again \<Longrightarrow> ring_ok r \<Longrightarrow> length (ring_bytes r) < length ?bs \<Longrightarrow> recv = Some f \<Longrightarrow>
         s' = f link dat (s\<lparr>s_rx := r\<rparr>) \<Longrightarrow> thesis" for thesis
    proof (cases "last hdr \<noteq> 58")
      case True
      then show ?thesis using step2 [unfolded if_P [OF True]] that(1) by blast
    next
      case f1: False
      show ?thesis
      proof (cases "link < 0 \<or> dlen = 0")
        case True
        then show ?thesis using step2 [unfolded if_not_P [OF f1] if_P [OF True]] that(2) one by blast
      next
        case f2: False
        show ?thesis
        proof (cases "length ?bs < hit + length hdr + unat dlen")
          case True
          then show ?thesis using step2 [unfolded if_not_P [OF f1] if_not_P [OF f2] if_P [OF True]] that(1) by blast
        next
          case f3: False
          note step3 = step2 [unfolded if_not_P [OF f1] if_not_P [OF f2] if_not_P [OF f3]]
          show ?thesis
          proof (cases "unat dlen > 512")
            case True
            have "ring_ok (ring_consume r1 dlen)" "length (ring_bytes (ring_consume r1 dlen)) < length ?bs"
              using more [OF r1(1), of dlen] r1(2) by linarith+
            then show ?thesis using step3 [unfolded if_P [OF True]] that(2) by blast
          next
            case f4: False
            note step4 = step3 [unfolded if_not_P [OF f4]]
            let ?rest = "of_nat (length ?bs - hit - length hdr)"
            have r3: "ring_ok (ring_consume r2 ?rest)" "length (ring_bytes (ring_consume r2 ?rest)) < length ?bs"
              using more [OF r2(1), of ?rest] r2(2) by linarith+
            show ?thesis
              using step4 that(2) [of "ring_consume r2 ?rest"] that(2) [of r2] that(3) [of r2] r2 r3
              by (cases "length dat \<noteq> unat dlen"; cases recv) (simp_all only: if_True if_False option.case prod.inject simp_thms)
          qed
        qed
      qed
    qed
    consider "s' = s" "\<not> again" | r where "again" "ring_ok r" "length (ring_bytes r) < length ?bs" "s' = s\<lparr>s_rx := r\<rparr>"
      | r f where "again" "ring_ok r" "length (ring_bytes r) < length ?bs" "recv = Some f" "s' = f link dat (s\<lparr>s_rx := r\<rparr>)"
      by (rule out) blast+
    then show ?thesis
    proof cases
      case 1
      then show ?thesis using ok by simp
    next
      case 2
      then show ?thesis using shrink by fastforce
    next
      case 3
      then have "esp_ok s'" "esp_load s' \<le> esp_load (s\<lparr>s_rx := r\<rparr>)"
        using cb shrink [of r] unfolding cb_ok_def by blast+
      then show ?thesis using shrink [OF 3(2,3)] 3(1) by simp
    qed
  qed
qed


lemma parse_ipd_frames_total:
  assumes "cb_ok recv" "esp_ok s"
  shows "\<exists>s'. parse_ipd_frames recv s = Some s' \<and> esp_ok s' \<and> esp_load s' \<le> esp_load s \<and>
    ipd_step recv s' = (False, s') \<and> (esp_load s' = esp_load s \<longrightarrow> s' = s)"
  using assms(2)
proof (induction "esp_load s" arbitrary: s rule: less_induct)
  case less
  obtain again s1 where st: "ipd_step recv s = (again, s1)" by fastforce
  note pr = ipd_step_progress [OF less.prems assms(1) st]
  show ?case
  proof (cases again)
    case True
    then have "esp_load s1 < esp_load s" "esp_ok s1" using pr by auto
    from less.hyps [OF this] show ?thesis
      using st True pr by (subst parse_ipd_frames.simps) (fastforce simp del: length_ring_bytes)
  next
    case False
    then show ?thesis using st pr less.prems by (subst parse_ipd_frames.simps) simp
  qed
qed

text \<open>What one turn can do to the state, and the invariants that follow for the whole loop.\<close>

lemma ipd_step_cases:
  assumes "ring_ok (s_rx s)" "ipd_step recv s = (again, s')"
  shows "s' = s \<or> (\<exists>r. ring_ok r \<and> s' = s\<lparr>s_rx := r\<rparr>) \<or>
    (\<exists>r cb l d. ring_ok r \<and> recv = Some cb \<and> s' = cb l d (s\<lparr>s_rx := r\<rparr>))"
proof -
  define app where "app l d t = (case recv of None \<Rightarrow> t | Some cb \<Rightarrow> cb l d t)" for l d and t :: "'a esp_scheme"
  have ok: "ring_ok (ring_consume r n)" "ring_ok (snd (ring_copy_out r n))" if "ring_ok r" for r n
    using ring_consume_spec(2) [OF that] ring_copy_out_spec(3) [OF that] by auto
  have "s' = s \<or> (\<exists>r. ring_ok r \<and> s' = s\<lparr>s_rx := r\<rparr>) \<or>
    (\<exists>r l d. ring_ok r \<and> s' = app l d (s\<lparr>s_rx := r\<rparr>))"
    using assms(2) assms(1) unfolding ipd_step_def Let_def app_def [symmetric]
    by (simp add: split_beta del: length_ring_bytes of_nat_add split: if_splits option.splits)
      (blast intro: ok)+
  then show ?thesis unfolding app_def by (cases recv) (auto simp del: length_ring_bytes)
qed

lemma parse_ipd_frames_inv:
  assumes cb: "cb_ok recv"
    and keep: "\<And>f l d s. recv = Some f \<Longrightarrow> esp_ok s \<Longrightarrow> P s \<Longrightarrow> P (f l d s)"
    and ring: "\<And>s r. P s \<Longrightarrow> P (s\<lparr>s_rx := r\<rparr>)"
  shows "esp_ok s \<Longrightarrow> P s \<Longrightarrow> parse_ipd_frames recv s = Some s' \<Longrightarrow> P s'"
proof (induction "esp_load s" arbitrary: s rule: less_induct)
  case less
  obtain again s1 where st: "ipd_step recv s = (again, s1)" by fastforce
  have rok: "ring_ok (s_rx s)" using less.prems(1) by (simp add: esp_ok_def)
  have P1: "P s1"
    using ipd_step_cases [OF rok st] less.prems(1,2) keep [OF _ esp_ok_ring [OF less.prems(1)]] ring by blast
  note pr = ipd_step_progress [OF less.prems(1) cb st]
  show ?case
  proof (cases again)
    case True
    then have "parse_ipd_frames recv s1 = Some s'"
      using less.prems(3) st by (subst (asm) parse_ipd_frames.simps) simp
    then show ?thesis using less.hyps [of s1] pr True P1 by simp
  next
    case False
    then have "s' = s1" using less.prems(3) st by (subst (asm) parse_ipd_frames.simps) simp
    then show ?thesis using P1 by simp
  qed
qed

section \<open>Result codes: the invariant and the end of the loop\<close>

lemma urc_line_ok: "esp_ok s \<Longrightarrow> esp_ok (urc_line l s)"
proof -
  assume ok: "esp_ok s"
  have upd: "set (xs[i := v]) \<subseteq> {0, 1}" if "set xs \<subseteq> {0, 1}" "v \<in> {0, 1 :: u8}" for xs i v
    using set_update_subset_insert [of xs i v] that by blast
  have "esp_ok (s\<lparr>s_link_state := (s_link_state s)[i := v]\<rparr>)" if "v \<in> {0, 1}" for i v
    using ok upd [OF _ that] by (simp add: esp_ok_def)
  then show ?thesis using ok
    by (simp add: urc_line_def Let_def) (simp add: esp_ok_def)
qed

lemma urc_line_frame [simp]: "s_rx (urc_line l s) = s_rx s" "uart_in (urc_line l s) = uart_in s"
  by (simp_all add: urc_line_def Let_def)

lemma urc_step_progress:
  assumes ok: "esp_ok s" and step: "urc_step s = (again, s')"
  shows "esp_ok s' \<and> (again \<longrightarrow> esp_load s' < esp_load s) \<and> (\<not> again \<longrightarrow> s' = s \<and> LF \<notin> set (ring_bytes (s_rx s)))"
proof -
  let ?bs = "ring_bytes (s_rx s)"
  define k where "k = length (takeWhile (\<lambda>c. c \<noteq> LF) ?bs)"
  have rok: "ring_ok (s_rx s)" using ok by (simp add: esp_ok_def)
  show ?thesis
  proof (cases "k = length ?bs")
    case True
    then have "takeWhile (\<lambda>c. c \<noteq> LF) ?bs = ?bs"
      unfolding k_def by (metis takeWhile_eq_take take_all order_refl)
    then have "LF \<notin> set ?bs" by (metis (mono_tags) set_takeWhileD)
    moreover have "again = False \<and> s' = s"
      using step True unfolding urc_step_def Let_def k_def [symmetric] by simp
    ultimately show ?thesis using ok by simp
  next
    case False
    define n where "n = (if k + 1 < 128 then k + 1 else 127 :: nat)"
    define c where "c = ring_copy_out (s_rx s) (of_nat n)"
    have n: "1 \<le> n" "n < 65536" by (auto simp: n_def)
    then have un: "unat (of_nat n :: u16) = n" by (intro unat_of_nat_u16) simp
    have "k \<le> length ?bs" unfolding k_def by (rule length_takeWhile_le)
    then have "?bs \<noteq> []" using False by (cases ?bs) (simp_all del: length_ring_bytes)
    then have "length (ring_bytes (snd c)) < length ?bs"
      using ring_copy_out_spec(2) [OF rok, of "of_nat n"] un n(1) by (cases ?bs) (simp_all add: c_def del: length_ring_bytes)
    moreover have "ring_ok (snd c)" unfolding c_def by (rule ring_copy_out_spec(3) [OF rok])
    moreover have "again \<and> s' = urc_line (urc_text (fst c)) (s\<lparr>s_rx := snd c\<rparr>)"
      using step unfolding urc_step_def Let_def k_def [symmetric] n_def [symmetric] if_not_P [OF False]
        c_def [symmetric] by (auto simp: split_beta)
    ultimately show ?thesis
      using urc_line_ok [OF esp_ok_ring [OF ok]] by (simp add: esp_load_def del: length_ring_bytes)
  qed
qed

lemma urc_loop_total:
  "esp_ok s \<Longrightarrow> \<exists>s'. urc_loop s = Some s' \<and> esp_ok s' \<and> esp_load s' \<le> esp_load s \<and> LF \<notin> set (ring_bytes (s_rx s')) \<and>
     (esp_load s' = esp_load s \<longrightarrow> s' = s)"
proof (induction "esp_load s" arbitrary: s rule: less_induct)
  case less
  obtain again s1 where st: "urc_step s = (again, s1)" by fastforce
  note pr = urc_step_progress [OF less.prems st]
  show ?case
  proof (cases again)
    case True
    then have "esp_load s1 < esp_load s" "esp_ok s1" using pr by auto
    from less.hyps [OF this] show ?thesis
      using st True pr by (subst urc_loop.simps) (fastforce simp del: length_ring_bytes)
  next
    case False
    then show ?thesis using st pr less.prems by (subst urc_loop.simps) simp
  qed
qed

section \<open>Clients of the driver\<close>

text \<open>
  The contract of a receive callback: it keeps the driver's invariant and does not add to
  the bytes the driver still has to read. Under it the driver's periodic work returns.
\<close>

locale recv_client =
  fixes recv :: "('a esp_scheme) recv_cb"
  assumes client_ok: "recv = Some cb \<Longrightarrow> esp_ok s \<Longrightarrow> esp_ok (cb l d s)"
    and client_load: "recv = Some cb \<Longrightarrow> esp_ok s \<Longrightarrow> esp_load (cb l d s) \<le> esp_load s"

context recv_client
begin

lemma recv_ok: "cb_ok recv"
  using client_ok client_load by (auto simp: cb_ok_def)

lemma frames_return:
  "esp_ok s \<Longrightarrow> \<exists>s'. parse_ipd_frames recv s = Some s' \<and> esp_ok s' \<and> esp_load s' \<le> esp_load s"
  using parse_ipd_frames_total [OF recv_ok] by blast

lemma loop_returns:
  assumes "esp_ok s"
  shows "\<exists>s'. esp8266_loop recv s = Some s' \<and> esp_ok s' \<and> esp_load s' \<le> esp_load s \<and>
    LF \<notin> set (ring_bytes (s_rx s')) \<and> (esp_load s' = esp_load s \<longrightarrow> s' = s)"
proof -
  obtain s1 where s1: "parse_ipd_frames recv s = Some s1" "esp_ok s1" "esp_load s1 \<le> esp_load s"
    "esp_load s1 = esp_load s \<longrightarrow> s1 = s"
    using parse_ipd_frames_total [OF recv_ok assms] by blast
  obtain s2 where s2: "urc_loop s1 = Some s2" "esp_ok s2" "esp_load s2 \<le> esp_load s1"
    "LF \<notin> set (ring_bytes (s_rx s2))" "esp_load s2 = esp_load s1 \<longrightarrow> s2 = s1"
    using urc_loop_total [OF s1(2)] by blast
  have "esp_load s2 = esp_load s \<longrightarrow> s2 = s" using s1(3,4) s2(3,5) by (metis le_antisym)
  then show ?thesis using s1 s2 unfolding esp8266_loop_def by simp
qed

end

text \<open>A client that only records what it is given.\<close>

record esp_client = esp +
  inbox :: "(int \<times> u8 list) list"

definition record_cb :: "int \<Rightarrow> u8 list \<Rightarrow> esp_client \<Rightarrow> esp_client" where
  "record_cb l d s = s\<lparr>inbox := inbox s @ [(l, d)]\<rparr>"

interpretation recorder: recv_client "Some record_cb"
  by unfold_locales (auto simp: record_cb_def esp_ok_def esp_load_def)

lemma frames_recorded:
  assumes "ring_ok (s_rx s)" "ring_bytes (s_rx s) = concat (map ipd_frame fs)"
    and "\<forall>(mux, d) \<in> set fs. d \<noteq> [] \<and> length d \<le> 512 \<and> (\<forall>l. mux = Some l \<longrightarrow> l < 128)"
  shows "\<exists>s'. parse_ipd_frames (Some record_cb) s = Some s' \<and> ring_bytes (s_rx s') = [] \<and>
    inbox s' = inbox s @ map (\<lambda>(mux, d). (ipd_link mux, d)) fs"
  using assms
proof (induction fs arbitrary: s)
  case Nil
  then have "ipd_step (Some record_cb) s = (False, s)"
    by (simp add: ipd_step_def Let_def del: length_ring_bytes)
  then show ?case using Nil by (subst parse_ipd_frames.simps) simp
next
  case (Cons f fs)
  obtain mux d where f: "f = (mux, d)" by (cases f)
  have "ring_bytes (s_rx s) = [] @ ipd_frame (mux, d) @ concat (map ipd_frame fs)" using Cons.prems(2) f by simp
  moreover have "43 \<notin> set []" by simp
  moreover have "d \<noteq> []" "length d \<le> 512" "\<And>l. mux = Some l \<Longrightarrow> l < 128" using Cons.prems(3) f by auto
  ultimately obtain r where r: "ring_ok r" "ring_bytes r = concat (map ipd_frame fs)"
    "ipd_step (Some record_cb) s = (True, record_cb (ipd_link mux) d (s\<lparr>s_rx := r\<rparr>))"
    using ipd_step_frame [OF Cons.prems(1)] by metis
  have "\<exists>s'. parse_ipd_frames (Some record_cb) (record_cb (ipd_link mux) d (s\<lparr>s_rx := r\<rparr>)) = Some s' \<and>
      ring_bytes (s_rx s') = [] \<and>
      inbox s' = inbox (record_cb (ipd_link mux) d (s\<lparr>s_rx := r\<rparr>)) @ map (\<lambda>(mux, d). (ipd_link mux, d)) fs"
    using r Cons.prems(3) by (intro Cons.IH) (simp_all add: record_cb_def)
  then show ?case using r(3) f by (subst parse_ipd_frames.simps) (simp add: record_cb_def)
qed


section \<open>Time-bounded loops\<close>

text \<open>
  The loops that poll until a deadline: a turn either takes bytes in or lets time pass. The
  measure adds the bytes still to come and the time left; \<open>slack\<close> is the longest turn.
\<close>

definition time_left :: "nat \<Rightarrow> u32 \<Rightarrow> 'a esp_scheme \<Rightarrow> nat" where
  "time_left limit t0 s = limit - unat (ticks s - t0)"

lemma elapsed_step:
  assumes "unat (ticks s - t0) < limit" "ticks s' = ticks s + of_nat k" "k \<le> 1000" "limit \<le> 100000"
  shows "unat (ticks s' - t0) = unat (ticks s - t0) + k"
proof -
  have e: "ticks s' - t0 = (ticks s - t0) + of_nat k" using assms(2) by simp
  have u: "unat (of_nat k :: u32) = k" using assms(3) by (intro unat_of_nat_u32) simp
  have "unat (ticks s - t0) + k < 2 ^ LENGTH(32)" using assms(1,3,4) by simp
  then show ?thesis unfolding e using u by (subst unat_add_lem [THEN iffD1]) simp_all
qed

lemma word_lt_limit: "limit < 2 ^ 32 \<Longrightarrow> (x :: u32) < of_nat limit \<longleftrightarrow> unat x < limit"
  by (simp add: word_less_nat_alt unat_of_nat_u32)

text \<open>The loop of a TCP connect returns within its deadline and 700 ms more.\<close>

lemma at_wait_step:
  assumes "esp_ok s" "needle \<noteq> []" "at_wait_for needle timeout s = (r, s')" "timeout \<le> 300"
  shows "esp_ok s'" "rx_only s s'" "esp_load s' \<le> esp_load s" "r \<noteq> None \<Longrightarrow> esp_load s' < esp_load s"
    "\<exists>k \<le> timeout + 9. ticks s' = ticks s + of_nat k \<and> (r = None \<longrightarrow> timeout \<le> k)"
proof -
  have rok: "ring_ok (s_rx s)" using assms(1) by (simp add: esp_ok_def)
  note f = at_wait_facts [OF rok assms(2,3)]
  show "rx_only s s'" "esp_load s' \<le> esp_load s" "r \<noteq> None \<Longrightarrow> esp_load s' < esp_load s" by (fact f)+
  show "esp_ok s'" by (rule rx_only_ok [OF f(2,1) assms(1)])
  show "\<exists>k \<le> timeout + 9. ticks s' = ticks s + of_nat k \<and> (r = None \<longrightarrow> timeout \<le> k)" using f(5) by blast
qed


definition polls :: "nat \<Rightarrow> nat \<Rightarrow> 'a esp_scheme \<Rightarrow> 'a esp_scheme \<Rightarrow> bool" where
  "polls lo hi s s' \<longleftrightarrow> esp_ok s' \<and> rx_only s s' \<and> esp_load s' \<le> esp_load s \<and>
     (\<exists>k. lo \<le> k \<and> k \<le> hi \<and> ticks s' = ticks s + of_nat k)"

lemma polls_refl: "esp_ok s \<Longrightarrow> polls 0 0 s s"
  by (auto simp: polls_def intro: exI [of _ 0])

lemma polls_trans: "polls a b s s' \<Longrightarrow> polls c d s' s'' \<Longrightarrow> polls (a + c) (b + d) s s''"
  unfolding polls_def
proof (elim conjE exE, intro conjI)
  fix k k' assume k: "a \<le> k" "k \<le> b" "ticks s' = ticks s + of_nat k"
    "c \<le> k'" "k' \<le> d" "ticks s'' = ticks s' + of_nat k'"
  then have "ticks s'' = ticks s + of_nat (k + k')" by simp
  with k show "\<exists>k. a + c \<le> k \<and> k \<le> b + d \<and> ticks s'' = ticks s + of_nat k"
    by (intro exI [of _ "k + k'"]) simp
qed (auto dest: rx_only_trans)

lemma polls_weaken: "polls lo hi s s' \<Longrightarrow> lo' \<le> lo \<Longrightarrow> hi \<le> hi' \<Longrightarrow> polls lo' hi' s s'"
  unfolding polls_def by (meson le_trans)

lemma at_wait_polls:
  assumes "esp_ok s" "needle \<noteq> []" "at_wait_for needle timeout s = (r, s')" "timeout \<le> 300"
  shows "r = None \<Longrightarrow> polls timeout (timeout + 9) s s'"
    "r \<noteq> None \<Longrightarrow> polls 0 (timeout + 9) s s' \<and> esp_load s' < esp_load s"
  using at_wait_step [OF assms] unfolding polls_def by blast+

lemma polls_elapsed:
  assumes "polls lo hi s s'" "unat (ticks s - t0) < limit" "hi \<le> 1000" "limit \<le> 100000"
  shows "unat (ticks s - t0) + lo \<le> unat (ticks s' - t0)" "unat (ticks s' - t0) \<le> unat (ticks s - t0) + hi"
proof -
  obtain k where k: "lo \<le> k" "k \<le> hi" "ticks s' = ticks s + of_nat k" using assms(1) by (auto simp: polls_def)
  have "unat (ticks s' - t0) = unat (ticks s - t0) + k"
    by (rule elapsed_step [OF assms(2) k(3) _ assms(4)]) (use k assms(3) in simp)
  then show "unat (ticks s - t0) + lo \<le> unat (ticks s' - t0)" "unat (ticks s' - t0) \<le> unat (ticks s - t0) + hi"
    using k by simp_all
qed

text \<open>One wait in a chain of waits that have all failed so far, and what a turn of a polling
  loop can come to: an answer was taken in, or the whole turn passed in silence.\<close>

lemma polls_wait:
  assumes "polls a b s s1" "needle \<noteq> []" "at_wait_for needle timeout s1 = (r, s2)" "timeout \<le> 300"
  shows "r = None \<Longrightarrow> polls (a + timeout) (b + (timeout + 9)) s s2"
    "r \<noteq> None \<Longrightarrow> polls a (b + (timeout + 9)) s s2 \<and> esp_load s2 < esp_load s"
proof -
  have ok: "esp_ok s1" and le: "esp_load s1 \<le> esp_load s" using assms(1) by (auto simp: polls_def)
  show "r = None \<Longrightarrow> polls (a + timeout) (b + (timeout + 9)) s s2"
    using polls_trans [OF assms(1) at_wait_polls(1) [OF ok assms(2-4)]] by blast
  show "r \<noteq> None \<Longrightarrow> polls a (b + (timeout + 9)) s s2 \<and> esp_load s2 < esp_load s"
    using polls_trans [OF assms(1), of 0 "timeout + 9" s2] at_wait_polls(2) [OF ok assms(2-4)] le by auto
qed

lemma ascii_Cons [simp]: "ascii (c # cs) \<noteq> []"
  by (simp add: ascii_def)

definition connect_result :: "'a esp_scheme \<Rightarrow> int \<Rightarrow> 'a esp_scheme \<Rightarrow> bool" where
  "connect_result s r s' \<longleftrightarrow> esp_ok s' \<and> esp_load s' \<le> esp_load s \<and> s_wifi_connected s' = s_wifi_connected s \<and>
     uart_tx s' = uart_tx s \<and> esp.more s' = esp.more s \<and>
     (r = 0 \<and> s_link_state s' = (s_link_state s)[0 := 1] \<or> r = -1 \<and> s_link_state s' = s_link_state s)"

lemma polls_connected:
  assumes "polls a b s s'"
  shows "connect_result s 0 (s'\<lparr>s_link_state := (s_link_state s')[0 := 1]\<rparr>)" "connect_result s (-1) s'"
proof -
  have f: "esp_ok s'" "esp_load s' \<le> esp_load s" "rx_only s s'" using assms by (auto simp: polls_def)
  have "set ((s_link_state s')[0 := 1]) \<subseteq> {0, 1}"
    using f(1) set_update_subset_insert [of "s_link_state s'" 0 1] by (auto simp: esp_ok_def)
  then show "connect_result s 0 (s'\<lparr>s_link_state := (s_link_state s')[0 := 1]\<rparr>)" "connect_result s (-1) s'"
    using f rx_only_fields [OF f(3)] by (auto simp: connect_result_def esp_ok_def esp_load_def)
qed

lemma connect_result_trans:
  assumes "polls a b s s1" "connect_result s1 r s'"
  shows "connect_result s r s'"
proof -
  have "rx_only s s1" "esp_load s1 \<le> esp_load s" using assms(1) by (auto simp: polls_def)
  then show ?thesis using assms(2) rx_only_fields [of s s1] by (auto simp: connect_result_def)
qed

lemma tcp_connect_loop_total:
  assumes "esp_ok s" "unat (ticks s - t0) < 15745"
  shows "\<exists>r s'. tcp_connect_loop t0 s = Some (r, s') \<and> connect_result s r s' \<and> unat (ticks s' - t0) < 15745"
  using assms
proof (induction "esp_load s + (15745 - unat (ticks s - t0))" arbitrary: s rule: less_induct)
  case less
  show ?case
  proof (cases "ticks s - t0 < 15000")
    case False
    then show ?thesis using less.prems polls_connected(2) [OF polls_refl [OF less.prems(1)]]
      by (subst tcp_connect_loop.simps) simp
  next
    case True
    then have el: "unat (ticks s - t0) < 15000" by (simp add: word_less_nat_alt)
    have late: "unat (ticks s' - t0) < 15745" if "polls a b s s'" "b \<le> 745" for a b s'
      using polls_elapsed(2) [OF that(1) el] that(2) el by simp
    have rec: "\<exists>r s''. tcp_connect_loop t0 s' = Some (r, s'') \<and> connect_result s r s'' \<and> unat (ticks s'' - t0) < 15745"
      if p: "polls a b s s'" "b \<le> 745" "esp_load s' < esp_load s \<or> 0 < a" for a b s'
    proof -
      have "unat (ticks s - t0) + a \<le> unat (ticks s' - t0)" using polls_elapsed(1) [OF p(1) el] p(2) by simp
      moreover have "esp_ok s'" "esp_load s' \<le> esp_load s" using p(1) by (auto simp: polls_def)
      ultimately have "\<exists>r s''. tcp_connect_loop t0 s' = Some (r, s'') \<and> connect_result s' r s'' \<and> unat (ticks s'' - t0) < 15745"
        using p(3) late [OF p(1,2)] el by (intro less.hyps) auto
      then show ?thesis using connect_result_trans [OF p(1)] by blast
    qed
    obtain r1 s1 where w1: "at_wait_for (ascii ''0,CONNECTED'') 200 s = (r1, s1)" by fastforce
    obtain r2 s2 where w2: "at_wait_for (ascii ''CONNECT'') 200 s1 = (r2, s2)" by fastforce
    obtain r3 s3 where w3: "at_wait_for (ascii ''OK'') 100 s2 = (r3, s3)" by fastforce
    obtain r4 s4 where w4: "at_wait_for (ascii ''ERROR'') 100 s3 = (r4, s4)" by fastforce
    obtain r5 s5 where w5: "at_wait_for (ascii ''0,CLOSED'') 100 s4 = (r5, s5)" by fastforce
    note p0 = polls_refl [OF less.prems(1)]
    note p1 = polls_wait [OF p0 ascii_Cons w1, simplified]
    note p2 = polls_wait [OF p1(1) ascii_Cons w2, simplified]
    note p3 = polls_wait [OF p2(1) ascii_Cons w3, simplified]
    note p4 = polls_wait [OF p3(1) ascii_Cons w4, simplified]
    note p5 = polls_wait [OF p4(1) ascii_Cons w5, simplified]
    have out: "\<exists>r s'. tcp_connect_loop t0 s = Some (r, s') \<and> connect_result s r s' \<and> unat (ticks s' - t0) < 15745"
      if "tcp_connect_loop t0 s = Some (0, s'\<lparr>s_link_state := (s_link_state s')[0 := 1]\<rparr>) \<or>
          tcp_connect_loop t0 s = Some (-1, s')" "polls a b s s'" "b \<le> 745" for s' a b
      using that(1) polls_connected [OF that(2)] late [OF that(2,3)] by auto
    note unf = tcp_connect_loop.simps [of t0 s, unfolded if_P [OF True] w1 prod.case]
    show ?thesis
    proof (cases r1)
      case (Some l)
      then show ?thesis using p1(2) by (intro out [of s1 0 209]) (simp_all add: unf)
    next
      case n1: None
      show ?thesis
      proof (cases r2)
        case (Some l)
        then show ?thesis using p2(2) [OF n1] by (intro out [of s2 200 418]) (simp_all add: unf n1 w2)
      next
        case n2: None
        show ?thesis
        proof (cases r3)
          case (Some l)
          then show ?thesis using rec [of 400 527 s3] p3(2) [OF n1 n2] by (simp add: unf n1 w2 n2 w3)
        next
          case n3: None
          show ?thesis
          proof (cases r4)
            case (Some l)
            then show ?thesis using p4(2) [OF n1 n2 n3]
              by (intro out [of s4 500 636]) (simp_all add: unf n1 w2 n2 w3 n3 w4)
          next
            case n4: None
            show ?thesis
            proof (cases r5)
              case (Some l)
              then show ?thesis using p5(2) [OF n1 n2 n3 n4]
                by (intro out [of s5 600 745]) (simp_all add: unf n1 w2 n2 w3 n3 w4 n4 w5)
            next
              case None
              then show ?thesis using rec [of 700 745 s5] p5(1) [OF n1 n2 n3 n4]
                by (simp add: unf n1 w2 n2 w3 n3 w4 n4 w5)
            qed
          qed
        qed
      qed
    qed
  qed
qed


lemma netinfo_loop_total:
  assumes "esp_ok s" "unat (ticks s - t0) < 3318"
  shows "\<exists>s'. netinfo_loop t0 s = Some s' \<and> connect_result s (-1) s' \<and> unat (ticks s' - t0) < 3318"
  using assms
proof (induction "esp_load s + (3318 - unat (ticks s - t0))" arbitrary: s rule: less_induct)
  case less
  show ?case
  proof (cases "ticks s - t0 < 3000")
    case False
    then show ?thesis using less.prems polls_connected(2) [OF polls_refl [OF less.prems(1)]]
      by (subst netinfo_loop.simps) simp
  next
    case True
    then have el: "unat (ticks s - t0) < 3000" by (simp add: word_less_nat_alt)
    have late: "unat (ticks s' - t0) < 3318" if "polls a b s s'" "b \<le> 318" for a b s'
      using polls_elapsed(2) [OF that(1) el] that(2) el by simp
    have rec: "\<exists>s''. netinfo_loop t0 s' = Some s'' \<and> connect_result s (-1) s'' \<and> unat (ticks s'' - t0) < 3318"
      if p: "polls a b s s'" "b \<le> 318" "esp_load s' < esp_load s \<or> 0 < a" for a b s'
    proof -
      have "unat (ticks s - t0) + a \<le> unat (ticks s' - t0)" using polls_elapsed(1) [OF p(1) el] p(2) by simp
      moreover have "esp_ok s'" "esp_load s' \<le> esp_load s" using p(1) by (auto simp: polls_def)
      ultimately have "\<exists>s''. netinfo_loop t0 s' = Some s'' \<and> connect_result s' (-1) s'' \<and> unat (ticks s'' - t0) < 3318"
        using p(3) late [OF p(1,2)] el by (intro less.hyps) auto
      then show ?thesis using connect_result_trans [OF p(1)] by blast
    qed
    obtain r1 s1 where w1: "at_wait_for (ascii ''+'') 200 s = (r1, s1)" by fastforce
    obtain r2 s2 where w2: "at_wait_for (ascii ''OK'') 100 s1 = (r2, s2)" by fastforce
    note p1 = polls_wait [OF polls_refl [OF less.prems(1)] ascii_Cons w1, simplified]
    note p2 = polls_wait [OF p1(1) ascii_Cons w2, simplified]
    note unf = netinfo_loop.simps [of t0 s, unfolded if_P [OF True] w1 prod.case]
    show ?thesis
    proof (cases r1)
      case (Some l)
      then show ?thesis using rec [of 0 209 s1] p1(2) by (simp add: unf)
    next
      case n1: None
      show ?thesis
      proof (cases r2)
        case (Some l)
        then show ?thesis using p2(2) [OF n1] late [of 200 318 s2] polls_connected(2) [of 200 318 s s2]
          by (simp add: unf n1 w2)
      next
        case None
        then show ?thesis using rec [of 300 318 s2] p2(1) [OF n1] by (simp add: unf n1 w2)
      qed
    qed
  qed
qed

text \<open>The operations that are not loops: what a command changes.\<close>

definition quiet :: "u8 list list \<Rightarrow> 'a esp_scheme \<Rightarrow> 'a esp_scheme \<Rightarrow> bool" where
  "quiet out s s' \<longleftrightarrow> esp_ok s' \<and> esp_load s' \<le> esp_load s \<and> uart_tx s' = uart_tx s @ out \<and>
     s_wifi_connected s' = s_wifi_connected s \<and> s_link_state s' = s_link_state s \<and> esp.more s' = esp.more s"

lemma quiet_refl: "esp_ok s \<Longrightarrow> quiet [] s s"
  by (simp add: quiet_def)

lemma quiet_trans: "quiet a s s' \<Longrightarrow> quiet b s' s'' \<Longrightarrow> quiet (a @ b) s s''"
  by (simp add: quiet_def)

lemma quiet_wait:
  assumes "esp_ok s" "needle \<noteq> []" "at_wait_for needle timeout s = (r, s')"
  shows "quiet [] s s'"
proof -
  have rok: "ring_ok (s_rx s)" using assms(1) by (simp add: esp_ok_def)
  note f = at_wait_facts [OF rok assms(2,3)]
  show ?thesis using rx_only_ok [OF f(2,1) assms(1)] f(3) rx_only_fields [OF f(2)] by (simp add: quiet_def)
qed

lemma quiet_send: "esp_ok s \<Longrightarrow> quiet [d] s (uart_send d s)"
  by (simp add: quiet_def uart_send_def esp_ok_def esp_load_def)

lemma quiet_flush: "esp_ok s \<Longrightarrow> quiet [] s (rx_flush s)"
  using ring_consume_spec [of "s_rx s" "ring_used (s_rx s)"]
  by (simp add: quiet_def rx_flush_def esp_ok_def esp_load_def del: length_ring_bytes)

definition at_line_bytes :: "u8 list \<Rightarrow> u8 list" where
  "at_line_bytes line = snprintf 256 (line @ [CR, LF])"

lemma quiet_line: "esp_ok s \<Longrightarrow> quiet [at_line_bytes line] s (at_send_line line s)"
  unfolding at_send_line_def at_line_bytes_def by (rule quiet_send)

lemma quiet_ok: "quiet a s s' \<Longrightarrow> esp_ok s'"
  by (simp add: quiet_def)

lemma quiet_cmd:
  assumes "esp_ok s" "needle \<noteq> []" "at_cmd line needle timeout s = (r, s')"
  shows "quiet [at_line_bytes line] s s'"
proof -
  note f = quiet_flush [OF assms(1)]
  note l = quiet_line [OF quiet_ok [OF f], of line]
  note w = quiet_wait [OF quiet_ok [OF l] assms(2) assms(3) [unfolded at_cmd_def]]
  show ?thesis using quiet_trans [OF quiet_trans [OF f l] w] by simp
qed

lemma tcp_send_quiet:
  assumes "esp_ok s" "esp8266_tcp_send link_id data len s = (e, s')"
  shows "\<exists>out. quiet out s s' \<and> (e = ESP_ERR_PARAM \<longrightarrow> out = [] \<and> s' = s) \<and>
    (e = ESP_ERR_NO_RESP \<longrightarrow> out = [at_line_bytes (snprintf 32 (ascii ''AT+CIPSEND='' @ dec_digits (unat len)))]) \<and>
    (e = ESP_OK \<or> e = ESP_ERR_RESP \<longrightarrow>
       out = [at_line_bytes (snprintf 32 (ascii ''AT+CIPSEND='' @ dec_digits (unat len))), take (unat len) (the data)]) \<and>
    e \<in> {ESP_OK, ESP_ERR_PARAM, ESP_ERR_NO_RESP, ESP_ERR_RESP}"
proof (cases "\<not> link_id_ok link_id \<or> data = None \<or> len = 0")
  case True
  then have "e = ESP_ERR_PARAM" "s' = s" using assms(2) by (auto simp: esp8266_tcp_send_def split: if_splits option.splits)
  then show ?thesis using quiet_refl [OF assms(1)] by auto
next
  case False
  then obtain d where d: "data = Some d" "link_id_ok link_id" "len \<noteq> 0" by auto
  let ?cmd = "snprintf 32 (ascii ''AT+CIPSEND='' @ dec_digits (unat len))"
  obtain r1 s1 where w1: "at_wait_for (ascii ''>'') 2000 (at_send_line ?cmd s) = (r1, s1)" by fastforce
  obtain r2 s2 where w2: "at_wait_for (ascii ''SEND OK'') 5000 (uart_send (take (unat len) d) s1) = (r2, s2)" by fastforce
  note q1 = quiet_line [OF assms(1), of ?cmd]
  note q2 = quiet_trans [OF q1 quiet_wait [OF quiet_ok [OF q1] ascii_Cons w1]]
  note q3 = quiet_trans [OF q2 quiet_send [OF quiet_ok [OF q2], of "take (unat len) d"]]
  note q4 = quiet_trans [OF q3 quiet_wait [OF quiet_ok [OF q3] ascii_Cons w2]]
  have "esp8266_tcp_send link_id data len s =
      (if r1 = None then (ESP_ERR_NO_RESP, s1) else if r2 = None then (ESP_ERR_RESP, s2) else (ESP_OK, s2))"
    using d by (simp add: esp8266_tcp_send_def Let_def w1 w2 split: option.split)
  then show ?thesis using assms(2) q2 q4 d(1) by (cases r1; cases r2) auto
qed


section \<open>What the loops leave behind\<close>

text \<open>The bytes after the last line feed.\<close>

definition after_lf :: "u8 list \<Rightarrow> u8 list" where
  "after_lf bs = rev (takeWhile (\<lambda>c. c \<noteq> LF) (rev bs))"

lemma after_lf_append: "after_lf (xs @ ys) = (if LF \<in> set ys then after_lf ys else after_lf xs @ ys)"
proof (cases "LF \<in> set ys")
  case True
  then show ?thesis by (auto simp: after_lf_def takeWhile_append1)
next
  case False
  then have "\<And>x. x \<in> set (rev ys) \<Longrightarrow> x \<noteq> LF" by auto
  then have "takeWhile (\<lambda>c. c \<noteq> LF) (rev ys @ rev xs) = rev ys @ takeWhile (\<lambda>c. c \<noteq> LF) (rev xs)"
    by (rule takeWhile_append2)
  then show ?thesis using False by (simp add: after_lf_def)
qed

lemma after_lf_none: "LF \<notin> set bs \<Longrightarrow> after_lf bs = bs"
  using after_lf_append [of "[]" bs] by (simp add: after_lf_def)

lemma after_lf_Cons: "after_lf (LF # ys) = after_lf ys"
proof (cases "LF \<in> set ys")
  case True
  then show ?thesis using after_lf_append [of "[LF]" ys] by simp
next
  case False
  then show ?thesis using after_lf_append [of "[LF]" ys] after_lf_none [OF False] by (simp add: after_lf_def)
qed

lemma after_lf_drop:
  assumes "k = length (takeWhile (\<lambda>c. c \<noteq> LF) bs)" "k < length bs" "n \<le> Suc k"
  shows "after_lf (drop n bs) = after_lf bs"
proof -
  have "bs ! k = LF" using assms(1,2) nth_length_takeWhile [of "\<lambda>c. c \<noteq> LF" bs] by simp
  then have split: "bs = take k bs @ LF # drop (Suc k) bs" using assms(2) by (metis id_take_nth_drop)
  have "after_lf (LF # drop (Suc k) bs) = after_lf (drop (Suc k) bs)"
    by (rule after_lf_Cons)
  moreover have "after_lf bs = after_lf (LF # drop (Suc k) bs)"
    by (subst split, subst after_lf_append) simp
  ultimately have e: "after_lf bs = after_lf (drop (Suc k) bs)" by simp
  show ?thesis
  proof (cases "n = Suc k")
    case True
    then show ?thesis using e by simp
  next
    case False
    then have "drop n bs = drop n (take k bs) @ LF # drop (Suc k) bs"
      using assms(2,3) by (subst split) simp
    then show ?thesis using e \<open>after_lf bs = after_lf (LF # drop (Suc k) bs)\<close>
      by (simp add: after_lf_append)
  qed
qed

lemma urc_loop_rest:
  "esp_ok s \<Longrightarrow> urc_loop s = Some s' \<Longrightarrow> ring_bytes (s_rx s') = after_lf (ring_bytes (s_rx s)) \<and> esp.more s' = esp.more s"
proof (induction "esp_load s" arbitrary: s rule: less_induct)
  case less
  let ?bs = "ring_bytes (s_rx s)"
  obtain again s1 where st: "urc_step s = (again, s1)" by fastforce
  note pr = urc_step_progress [OF less.prems(1) st]
  have rok: "ring_ok (s_rx s)" using less.prems(1) by (simp add: esp_ok_def)
  show ?case
  proof (cases again)
    case False
    then show ?thesis using pr less.prems(2) st after_lf_none
      by (subst (asm) urc_loop.simps) simp
  next
    case True
    define k where "k = length (takeWhile (\<lambda>c. c \<noteq> LF) ?bs)"
    define n where "n = (if k + 1 < 128 then k + 1 else 127 :: nat)"
    define c where "c = ring_copy_out (s_rx s) (of_nat n)"
    have ne: "\<not> k = length ?bs" using st True unfolding urc_step_def Let_def k_def [symmetric] by auto
    have "k \<le> length ?bs" unfolding k_def by (rule length_takeWhile_le)
    then have kl: "k < length ?bs" using ne by simp
    have n: "n \<le> Suc k" "n < 65536" by (auto simp: n_def)
    then have un: "unat (of_nat n :: u16) = n" by (intro unat_of_nat_u16) simp
    have s1: "s1 = urc_line (urc_text (fst c)) (s\<lparr>s_rx := snd c\<rparr>)"
      using st unfolding urc_step_def Let_def k_def [symmetric] n_def [symmetric] if_not_P [OF ne]
        c_def [symmetric] by (auto simp: split_beta)
    have "ring_bytes (s_rx s1) = drop n ?bs"
      using ring_copy_out_spec(2) [OF rok, of "of_nat n"] un by (simp add: s1 c_def)
    then have a: "after_lf (ring_bytes (s_rx s1)) = after_lf ?bs"
      using after_lf_drop [OF k_def kl n(1)] by simp
    have m: "esp.more s1 = esp.more s" by (simp add: s1 urc_line_def Let_def)
    have "urc_loop s1 = Some s'" using less.prems(2) st True by (subst (asm) urc_loop.simps) simp
    then show ?thesis using less.hyps [of s1] pr True a m by simp
  qed
qed

lemma ipd_step_partial:
  assumes bs: "ring_bytes (s_rx s) = ipd_head mux n @ part" and n: "n < 65536" "0 < n"
    and mux: "\<And>l. mux = Some l \<Longrightarrow> l < 128" and short: "length part < n"
  shows "ipd_step recv s = (False, s)"
proof -
  let ?bs = "ring_bytes (s_rx s)"
  obtain h where h: "ipd_head mux n = h @ [58]" "5 \<le> length h" "take 5 h = ascii ''+IPD,''"
    using ipd_head_shape [OF n(1) mux] by blast
  have find: "find_sub (ascii ''+IPD,'') ?bs = Some 0"
    using find_marker [of "[]" ?bs] unfolding bs h(1) using h by simp
  have hdr: "ipd_header (drop 0 ?bs) = ipd_head mux n"
    unfolding bs using ipd_header_frame [OF n(1) mux, of mux] by simp
  have ph: "parse_ipd_header (ipd_head mux n) = (ipd_link mux, of_nat n)" by (rule parse_header_frame [OF n(1) mux])
  have un: "unat (of_nat n :: u16) = n" using n(1) by (intro unat_of_nat_u16) simp
  then have nz: "(of_nat n :: u16) \<noteq> 0" using n(2) by (metis unat_0 less_irrefl)
  have link: "\<not> ipd_link mux < 0" by (cases mux) (simp_all add: ipd_link_def)
  have ifs: "\<not> length ?bs < 6" "\<not> last (ipd_head mux n) \<noteq> 58" "\<not> (ipd_link mux < 0 \<or> (of_nat n :: u16) = 0)"
    "length ?bs < 0 + length (ipd_head mux n) + n"
    using h nz link short unfolding bs by simp_all
  show ?thesis
    unfolding ipd_step_def Let_def find if_not_P [OF ifs(1)] option.case hdr if_not_P [OF ifs(2)] ph prod.case
      if_not_P [OF ifs(3)] un if_P [OF ifs(4)] by (rule refl)
qed

section \<open>Properties\<close>

definition esp_boot :: "u8 list \<Rightarrow> esp_client" where
  "esp_boot pending = \<lparr>s_rx = fold (\<lambda>b r. snd (ring_push r b)) pending ring_init, s_wifi_connected = 0,
     s_link_state = replicate 5 0, uart_tx = [], uart_in = [], ticks = 0, inbox = []\<rparr>"

lemma esp_boot_ok:
  "esp_ok (esp_boot p)" "length p \<le> 1023 \<Longrightarrow> ring_bytes (s_rx (esp_boot p)) = p"
  using esp_ring.burst [OF ring_init_ok(1), of p] ring_init_ok(2)
  by (simp_all add: esp_boot_def esp_ok_def)

text \<open>C4: any sequence of complete \<open>+IPD\<close> frames waiting in the receive ring, with or without
  link numbers and with arbitrary binary payloads of up to 512 bytes, is handed to the client
  frame by frame, unchanged and in order, and leaves the ring empty.\<close>

theorem ipd_frames_delivered:
  assumes "ring_ok (s_rx s)" and "ring_bytes (s_rx s) = concat (map ipd_frame fs)"
    and "\<forall>(mux, d) \<in> set fs. d \<noteq> [] \<and> length d \<le> 512 \<and> (\<forall>l. mux = Some l \<longrightarrow> l < 128)"
  shows "\<exists>s'. parse_ipd_frames (Some record_cb) s = Some s' \<and> ring_bytes (s_rx s') = [] \<and>
    inbox s' = inbox s @ map (\<lambda>(mux, d). (ipd_link mux, d)) fs"
  by (rule frames_recorded [OF assms])

lemma ipd_frames_delivered_witness:
  "\<exists>s'. parse_ipd_frames (Some record_cb)
      (esp_boot (concat (map ipd_frame [(None, [43, 10]), (Some 3, [0])]))) = Some s' \<and>
    inbox s' = [(0, [43, 10]), (3, [0])]"
proof -
  let ?fs = "[(None, [43, 10]), (Some 3, [0])] :: (nat option \<times> u8 list) list"
  have "length (concat (map ipd_frame ?fs)) \<le> 1023"
    by (simp add: ipd_frame_def ipd_head_def dec_digits.simps)
  note b = esp_boot_ok(2) [OF this]
  have r: "ring_ok (s_rx (esp_boot (concat (map ipd_frame ?fs))))"
    using esp_boot_ok(1) by (simp add: esp_ok_def)
  show ?thesis using ipd_frames_delivered [OF r b] by (simp add: ipd_link_def) (fastforce simp: esp_boot_def)
qed

text \<open>A frame is recognised behind any noise that holds no plus sign, and exactly its
  payload reaches the callback, whatever that callback then does.\<close>

theorem ipd_frame_behind_noise:
  assumes "ring_ok (s_rx s)" and "ring_bytes (s_rx s) = pre @ ipd_frame (mux, d) @ rest"
    and "43 \<notin> set pre" and "d \<noteq> []" and "length d \<le> 512" and "\<forall>l. mux = Some l \<longrightarrow> l < 128"
  shows "\<exists>r. ring_ok r \<and> ring_bytes r = rest \<and>
    parse_ipd_frames (Some cb) s = parse_ipd_frames (Some cb) (cb (ipd_link mux) d (s\<lparr>s_rx := r\<rparr>))"
proof -
  obtain r where r: "ring_ok r" "ring_bytes r = rest"
    "ipd_step (Some cb) s = (True, cb (ipd_link mux) d (s\<lparr>s_rx := r\<rparr>))"
    using ipd_step_frame [OF assms(1-5)] assms(6) by metis
  then show ?thesis by (subst parse_ipd_frames.simps) auto
qed

lemma ipd_frame_behind_noise_witness:
  "\<exists>r. ring_bytes r = [13] \<and> parse_ipd_frames (Some record_cb)
      (esp_boot ([13, 10] @ ipd_frame (None, [7]) @ [13])) =
    parse_ipd_frames (Some record_cb) (record_cb 0 [7]
      ((esp_boot ([13, 10] @ ipd_frame (None, [7]) @ [13]))\<lparr>s_rx := r\<rparr>))"
proof -
  let ?p = "[13, 10] @ ipd_frame (None, [7]) @ [13]"
  have "length ?p \<le> 1023" by (simp add: ipd_frame_def ipd_head_def dec_digits.simps)
  note b = esp_boot_ok(2) [OF this]
  have r: "ring_ok (s_rx (esp_boot ?p))" using esp_boot_ok(1) by (simp add: esp_ok_def)
  show ?thesis using ipd_frame_behind_noise [OF r b, of record_cb] by (auto simp: ipd_link_def)
qed

text \<open>The driver's periodic function returns for every receive buffer and every client
  that does not feed the buffer itself, keeps the driver's invariant and leaves no complete
  line unread.\<close>

theorem esp8266_loop_returns:
  assumes "cb_ok recv" and "esp_ok s"
  shows "\<exists>s'. esp8266_loop recv s = Some s' \<and> esp_ok s' \<and> LF \<notin> set (ring_bytes (s_rx s'))"
proof -
  obtain s1 where s1: "parse_ipd_frames recv s = Some s1" "esp_ok s1"
    using parse_ipd_frames_total [OF assms] by blast
  then show ?thesis using urc_loop_total [OF s1(2)] by (auto simp: esp8266_loop_def)
qed

lemma esp8266_loop_returns_witness:
  "\<exists>s'. esp8266_loop (Some record_cb) (esp_boot (ascii ''+IPD,9:ab'' @ [LF])) = Some s'"
  using esp8266_loop_returns [OF recorder.recv_ok esp_boot_ok(1)] by blast

text \<open>A frame that has only partly arrived is not safe in the buffer: as soon as the part
  that is there contains a line feed byte, the line reader behind the frame parser swallows
  the header and everything up to that byte, without the client having seen any of it.\<close>

theorem partial_frame_lost:
  assumes "cb_ok recv" and "esp_ok s" and "ring_bytes (s_rx s) = ipd_head mux n @ part"
    and "length part < n" and "n < 65536" and "\<forall>l. mux = Some l \<longrightarrow> l < 128" and "LF \<in> set part"
  shows "\<exists>s'. esp8266_loop recv s = Some s' \<and> ring_bytes (s_rx s') = after_lf part \<and> esp.more s' = esp.more s"
proof -
  have "ipd_step recv s = (False, s)"
    by (rule ipd_step_partial [OF assms(3,5)]) (use assms(4,6) in auto)
  then have p: "parse_ipd_frames recv s = Some s" by (subst parse_ipd_frames.simps) simp
  obtain s' where s': "urc_loop s = Some s'" using urc_loop_total [OF assms(2)] by blast
  have "after_lf (ring_bytes (s_rx s)) = after_lf part"
    using assms(7) unfolding assms(3) by (simp add: after_lf_append)
  then show ?thesis using urc_loop_rest [OF assms(2) s'] p s' by (simp add: esp8266_loop_def)
qed

lemma partial_frame_lost_witness:
  "\<exists>s'. esp8266_loop (Some record_cb) (esp_boot (ipd_head None 5 @ [1, 10, 2])) = Some s' \<and>
    ring_bytes (s_rx s') = [2] \<and> esp.more s' = esp.more (esp_boot (ipd_head None 5 @ [1, 10, 2]))"
proof -
  have "length (ipd_head None 5 @ [1, 10, 2]) \<le> 1023" by (simp add: ipd_head_def dec_digits.simps)
  note b = esp_boot_ok(2) [OF this]
  have "after_lf [1, 10, 2] = [2]" by (simp add: after_lf_def)
  then show ?thesis using partial_frame_lost [OF recorder.recv_ok esp_boot_ok(1) b] by auto
qed


definition rx_after :: "nat \<Rightarrow> 'a esp_scheme \<Rightarrow> u8 list" where
  "rx_after k s = ring_bytes (s_rx ((delay_10ms ^^ k) s))"

lemma at_wait_loop_spec:
  assumes "ring_ok (s_rx s)" "needle \<noteq> []" "at_wait_loop needle timeout elapsed s = (r, s')"
  shows "(\<exists>k found. elapsed + 10 * k < timeout \<and> (\<forall>j < k. at_find needle (rx_after j s) = None) \<and>
       at_find needle (rx_after k s) = Some found \<and> r = Some (at_line (rx_after k s) found) \<and>
       ring_bytes (s_rx s') = drop (at_consume (rx_after k s) found) (rx_after k s)) \<or>
     (r = None \<and> (\<forall>k. elapsed + 10 * k < timeout \<longrightarrow> at_find needle (rx_after k s) = None))"
  using assms
proof (induction needle timeout elapsed s rule: at_wait_loop.induct)
  case (1 needle timeout elapsed s)
  let ?bs = "ring_bytes (s_rx s)"
  note eq = 1(4) [unfolded at_wait_loop.simps [of needle timeout elapsed s] Let_def]
  have z: "rx_after 0 s = ?bs" by (simp add: rx_after_def)
  have sc: "rx_after (Suc k) s = rx_after k (delay_10ms s)" for k
    by (simp add: rx_after_def funpow_Suc_right del: funpow.simps)
  consider (over) "timeout \<le> elapsed" | (hit) found where "elapsed < timeout" "at_find needle ?bs = Some found"
    | (miss) "elapsed < timeout" "at_find needle ?bs = None" by fastforce
  then show ?case
  proof cases
    case over
    then show ?thesis using eq by simp
  next
    case (hit found)
    then have "r = Some (at_line ?bs found)"
      "ring_bytes (s_rx s') = drop (at_consume ?bs found) ?bs"
      using eq consume_of_nat [OF 1(2), of "at_consume ?bs found"] at_find_facts(4) [OF hit(2) 1(3)] by auto
    then show ?thesis using hit z by (intro disjI1 exI [of _ 0] exI [of _ found]) simp
  next
    case miss
    note d = delay_facts(1) [OF 1(2)]
    have w: "at_wait_loop needle timeout (elapsed + 10) (delay_10ms s) = (r, s')" using eq miss by simp
    from 1(1) [OF miss(1) refl miss(2) d 1(3) w] show ?thesis
    proof (elim disjE exE conjE)
      fix k found
      assume h: "elapsed + 10 + 10 * k < timeout" "\<forall>j < k. at_find needle (rx_after j (delay_10ms s)) = None"
        "at_find needle (rx_after k (delay_10ms s)) = Some found"
        "r = Some (at_line (rx_after k (delay_10ms s)) found)"
        "ring_bytes (s_rx s') = drop (at_consume (rx_after k (delay_10ms s)) found) (rx_after k (delay_10ms s))"
      have "\<forall>j < Suc k. at_find needle (rx_after j s) = None"
      proof (intro allI impI)
        fix j assume "j < Suc k"
        then show "at_find needle (rx_after j s) = None" using h(2) miss(2) z sc by (cases j) auto
      qed
      then show ?thesis using h sc [of k]
        by (intro disjI1 exI [of _ "Suc k"] exI [of _ found]) simp
    next
      assume h: "r = None" "\<forall>k. elapsed + 10 + 10 * k < timeout \<longrightarrow> at_find needle (rx_after k (delay_10ms s)) = None"
      have "at_find needle (rx_after k s) = None" if "elapsed + 10 * k < timeout" for k
        using h(2) miss(2) z sc that by (cases k) auto
      then show ?thesis using h(1) by blast
    qed
  qed
qed

text \<open>Waiting for a reply is exact: the call succeeds at the first of its 10 ms polls at
  which the expected text is in the buffer, returns the rest of that line and consumes as many
  bytes as the line has; it fails only when no poll before the timeout sees the text.\<close>

theorem at_wait_for_spec:
  assumes "ring_ok (s_rx s)" and "needle \<noteq> []" and "at_wait_for needle timeout s = (r, s')"
  shows "(\<exists>k found. 10 * k < timeout \<and> (\<forall>j < k. at_find needle (rx_after j s) = None) \<and>
       at_find needle (rx_after k s) = Some found \<and> r = Some (at_line (rx_after k s) found) \<and>
       ring_bytes (s_rx s') = drop (at_consume (rx_after k s) found) (rx_after k s)) \<or>
     (r = None \<and> (\<forall>k. 10 * k < timeout \<longrightarrow> at_find needle (rx_after k s) = None))"
  using at_wait_loop_spec [OF assms(1,2) assms(3) [unfolded at_wait_for_def]] by simp

lemma at_wait_for_spec_witness:
  "fst (at_wait_for [79, 75] 10 (esp_boot [13, 10, 79, 75, 13, 10])) = Some [79, 75]"
proof -
  let ?s = "esp_boot [13, 10, 79, 75, 13, 10]"
  obtain r s' where w: "at_wait_for [79, 75] 10 ?s = (r, s')" by fastforce
  have rok: "ring_ok (s_rx ?s)" using esp_boot_ok(1) by (simp add: esp_ok_def)
  have "rx_after 0 ?s = [13, 10, 79, 75, 13, 10]"
    using esp_boot_ok(2) [of "[13, 10, 79, 75, 13, 10]"] by (simp add: rx_after_def)
  then show ?thesis using at_wait_for_spec [OF rok _ w] w
    by (auto simp: at_find_def at_line_def)
qed

text \<open>The bytes consumed are taken from the front of the buffer, not from where the reply
  was found: when at least a line's length of older bytes precedes the reply, the reply itself
  stays in the buffer and answers the next wait for the same text at once, with no new byte
  from the module.\<close>

theorem stale_reply:
  assumes "ring_ok (s_rx s)" and "needle \<noteq> []" and "at_find needle (ring_bytes (s_rx s)) = Some found"
    and "at_consume (ring_bytes (s_rx s)) found \<le> found" and "0 < timeout" and "0 < timeout'"
  shows "fst (at_wait_for needle timeout' (snd (at_wait_for needle timeout s))) \<noteq> None \<and>
    uart_in (snd (at_wait_for needle timeout' (snd (at_wait_for needle timeout s)))) = uart_in s"
proof -
  let ?bs = "ring_bytes (s_rx s)" and ?c = "at_consume (ring_bytes (s_rx s)) found"
  note f = at_find_facts [OF assms(3,2)]
  define r where "r = ring_consume (s_rx s) (of_nat ?c)"
  have s1: "snd (at_wait_for needle timeout s) = s\<lparr>s_rx := r\<rparr>"
    using assms(3,5) by (simp add: at_wait_for_def at_wait_loop.simps [of needle timeout 0 s] Let_def r_def)
  have rb: "ring_bytes r = drop ?c ?bs" unfolding r_def
    by (rule consume_of_nat [OF assms(1)]) (use f(4) in linarith)
  have "take (length needle) (drop (found - ?c) (ring_bytes r)) = needle"
    unfolding rb using f(1) assms(4) by simp
  moreover have "found - ?c \<le> length (ring_bytes r)" unfolding rb using f(2) by simp
  ultimately have "find_sub needle (ring_bytes r) \<noteq> None" using find_sub_None by blast
  moreover have "length needle \<le> length (ring_bytes r)" unfolding rb using f(2) assms(4) by simp
  ultimately obtain g where g: "at_find needle (ring_bytes r) = Some g" by (auto simp: at_find_def)
  show ?thesis using g assms(6) unfolding s1
    by (simp add: at_wait_for_def at_wait_loop.simps [of needle timeout' 0] Let_def)
qed

lemma stale_reply_witness:
  "fst (at_wait_for [62] 2000 (snd (at_wait_for [62] 2000 (esp_boot [13, 10, 79, 75, 13, 10, 62, 32])))) \<noteq> None"
proof -
  let ?s = "esp_boot [13, 10, 79, 75, 13, 10, 62, 32]"
  have b: "ring_bytes (s_rx ?s) = [13, 10, 79, 75, 13, 10, 62, 32]" by (rule esp_boot_ok(2)) simp
  have rok: "ring_ok (s_rx ?s)" using esp_boot_ok(1) by (simp add: esp_ok_def)
  have f: "at_find [62] (ring_bytes (s_rx ?s)) = Some 6" unfolding b by (simp add: at_find_def)
  have c: "at_consume (ring_bytes (s_rx ?s)) 6 \<le> 6" unfolding b by (simp add: at_consume_def Let_def)
  show ?thesis using stale_reply [OF rok _ f c, of 2000 2000] by simp
qed

text \<open>A TCP send talks to the module in the right order and no more than its result says:
  nothing for bad arguments, only the length announcement when no prompt came, the
  announcement and then the data otherwise; connection state and client are untouched.\<close>

theorem tcp_send_protocol:
  assumes "esp_ok s" and "esp8266_tcp_send link_id data len s = (e, s')"
  shows "s_link_state s' = s_link_state s \<and> s_wifi_connected s' = s_wifi_connected s \<and> esp.more s' = esp.more s \<and>
    (let cmd = at_line_bytes (snprintf 32 (ascii ''AT+CIPSEND='' @ dec_digits (unat len))) in
     uart_tx s' = uart_tx s @ (case e of ESP_ERR_PARAM \<Rightarrow> [] | ESP_ERR_NO_RESP \<Rightarrow> [cmd]
       | _ \<Rightarrow> [cmd, take (unat len) (the data)])) \<and>
    (e = ESP_ERR_PARAM \<longleftrightarrow> \<not> link_id_ok link_id \<or> data = None \<or> len = 0)"
proof -
  obtain out where o: "quiet out s s'" "e = ESP_ERR_PARAM \<longrightarrow> out = [] \<and> s' = s"
    "e = ESP_ERR_NO_RESP \<longrightarrow> out = [at_line_bytes (snprintf 32 (ascii ''AT+CIPSEND='' @ dec_digits (unat len)))]"
    "e = ESP_OK \<or> e = ESP_ERR_RESP \<longrightarrow>
       out = [at_line_bytes (snprintf 32 (ascii ''AT+CIPSEND='' @ dec_digits (unat len))), take (unat len) (the data)]"
    "e \<in> {ESP_OK, ESP_ERR_PARAM, ESP_ERR_NO_RESP, ESP_ERR_RESP}"
    using tcp_send_quiet [OF assms] by blast
  have p: "e = ESP_ERR_PARAM \<longleftrightarrow> \<not> link_id_ok link_id \<or> data = None \<or> len = 0"
    using assms(2) by (auto simp: esp8266_tcp_send_def Let_def split: if_splits option.splits prod.splits)
  show ?thesis using o p by (auto simp: quiet_def Let_def)
qed

lemma tcp_send_protocol_witness:
  "uart_tx (snd (esp8266_tcp_send 0 None 3 (esp_boot []))) = []"
  using tcp_send_protocol [OF esp_boot_ok(1), of 0 None 3 "[]" "fst (esp8266_tcp_send 0 None 3 (esp_boot []))"
    "snd (esp8266_tcp_send 0 None 3 (esp_boot []))"]
  by (auto simp: Let_def) (simp add: esp_boot_def)

lemma tcp_connect_total:
  assumes "esp_ok s"
  shows "\<exists>r s'. esp8266_tcp_connect host port s = Some (r, s') \<and> esp_ok s' \<and>
    unat (ticks s' - ticks s) < 15745 \<and> s_wifi_connected s' = s_wifi_connected s \<and> esp.more s' = esp.more s \<and>
    (r = 0 \<and> s_link_state s' = (s_link_state s)[0 := 1] \<or> r = -1 \<and> s_link_state s' = s_link_state s) \<and>
    (host = None \<or> s_wifi_connected s = 0 \<longrightarrow> r = -1 \<and> s' = s)"
proof (cases "host = None \<or> s_wifi_connected s = 0")
  case True
  then show ?thesis using assms by (auto simp: esp8266_tcp_connect_def split: option.split)
next
  case False
  then obtain h where h: "host = Some h" "s_wifi_connected s \<noteq> 0" by auto
  define cmd where "cmd = snprintf 128 (ascii ''AT+CIPSTART='' @ quoted (ascii ''TCP'') @ ascii '',''
                          @ quoted h @ ascii '','' @ dec_digits (unat port))"
  define s1 where "s1 = at_send_line cmd (rx_flush s)"
  have q: "quiet [at_line_bytes cmd] s s1"
    using quiet_trans [OF quiet_flush [OF assms] quiet_line [OF quiet_ok [OF quiet_flush [OF assms]]]]
    by (simp add: s1_def)
  have t: "ticks s1 = ticks s" by (simp add: s1_def at_send_line_def uart_send_def rx_flush_def)
  obtain r s' where r: "tcp_connect_loop (ticks s1) s1 = Some (r, s')" "connect_result s1 r s'"
    "unat (ticks s' - ticks s1) < 15745"
    using tcp_connect_loop_total [of s1 "ticks s1"] quiet_ok [OF q] by auto
  have "esp8266_tcp_connect host port s = Some (r, s')"
    using h r(1) by (simp add: esp8266_tcp_connect_def Let_def cmd_def s1_def)
  then show ?thesis using r(2,3) q t h by (auto simp: connect_result_def quiet_def)
qed

text \<open>Opening a TCP connection always returns, within its 15 s deadline and one poll turn;
  it reports success exactly when it marked link 0 as up, and never touches the WiFi state.\<close>

theorem tcp_connect_returns:
  assumes "esp_ok s"
  shows "\<exists>r s'. esp8266_tcp_connect host port s = Some (r, s') \<and> esp_ok s' \<and>
    unat (ticks s' - ticks s) < 15745 \<and> s_wifi_connected s' = s_wifi_connected s \<and> esp.more s' = esp.more s \<and>
    (r = 0 \<and> s_link_state s' = (s_link_state s)[0 := 1] \<or> r = -1 \<and> s_link_state s' = s_link_state s) \<and>
    (host = None \<or> s_wifi_connected s = 0 \<longrightarrow> r = -1 \<and> s' = s)"
  by (rule tcp_connect_total [OF assms])

lemma tcp_connect_returns_witness:
  "\<exists>r s'. esp8266_tcp_connect (Some [104]) 1883 (esp_boot [] \<lparr>s_wifi_connected := 1\<rparr>) = Some (r, s')"
proof -
  have "esp_ok (esp_boot [] \<lparr>s_wifi_connected := 1\<rparr>)" using esp_boot_ok(1) [of "[]"] by (simp add: esp_ok_def)
  from tcp_connect_returns [OF this] show ?thesis by blast
qed


lemma esp_ok_wifi: "esp_ok s \<Longrightarrow> v \<in> {0, 1} \<Longrightarrow> esp_ok (s\<lparr>s_wifi_connected := v\<rparr>)"
  by (simp add: esp_ok_def)

lemma esp_load_wifi [simp]: "esp_load (s\<lparr>s_wifi_connected := v\<rparr>) = esp_load s"
  "esp_load (s\<lparr>s_link_state := l\<rparr>) = esp_load s"
  by (simp_all add: esp_load_def)

text \<open>Joining an access point sends exactly one command and its result is the WiFi flag it
  leaves: connected after \<open>ESP_OK\<close>, not connected after a refusal or a timeout, and nothing
  at all done for a missing name or password.\<close>

theorem connect_wifi_result:
  assumes "esp_ok s" and "esp8266_connect_wifi ssid pwd s = (e, s')"
  shows "(if ssid = None \<or> pwd = None then e = ESP_ERR_PARAM \<and> s' = s
     else e \<in> {ESP_OK, ESP_ERR_RESP, ESP_ERR_TIMEOUT} \<and>
       s_wifi_connected s' = (if e = ESP_OK then 1 else 0) \<and> s_link_state s' = s_link_state s \<and>
       esp_ok s' \<and> esp.more s' = esp.more s \<and> length (uart_tx s') = length (uart_tx s) + 1)"
proof (cases "ssid = None \<or> pwd = None")
  case True
  then show ?thesis using assms(2) by (auto simp: esp8266_connect_wifi_def split: option.splits)
next
  case False
  then obtain a b where ab: "ssid = Some a" "pwd = Some b" by auto
  define cmd where "cmd = snprintf 128 (ascii ''AT+CWJAP='' @ quoted a @ ascii '','' @ quoted b)"
  obtain r1 s1 where w1: "at_wait_for (ascii ''+CWJAP:'') 30000 (at_send_line cmd (rx_flush s)) = (r1, s1)" by fastforce
  obtain r2 s2 where w2: "at_wait_for (ascii ''WIFI GOT IP'') 8000 s1 = (r2, s2)" by fastforce
  obtain r3 s3 where w3: "at_wait_for (ascii ''OK'') 2000 s2 = (r3, s3)" by fastforce
  note q0 = quiet_flush [OF assms(1)]
  note q0' = quiet_trans [OF q0 quiet_line [OF quiet_ok [OF q0], of cmd]]
  note q1 = quiet_trans [OF q0' quiet_wait [OF quiet_ok [OF q0'] ascii_Cons w1]]
  note q2 = quiet_trans [OF q1 quiet_wait [OF quiet_ok [OF q1] ascii_Cons w2]]
  note q3 = quiet_trans [OF q2 quiet_wait [OF quiet_ok [OF q2] ascii_Cons w3]]
  have "esp8266_connect_wifi ssid pwd s =
      (if r1 \<noteq> None then (ESP_ERR_RESP, s1\<lparr>s_wifi_connected := 0\<rparr>)
       else if r2 \<noteq> None then (ESP_OK, s3\<lparr>s_wifi_connected := 1\<rparr>)
       else (ESP_ERR_TIMEOUT, s2\<lparr>s_wifi_connected := 0\<rparr>))"
    using ab by (simp add: esp8266_connect_wifi_def Let_def cmd_def [symmetric] w1 w2 w3 split: option.split)
  then show ?thesis using assms(2) False q1 q2 q3 by (auto simp: quiet_def esp_ok_wifi split: if_splits)
qed

lemma connect_wifi_result_witness:
  "s_wifi_connected (snd (esp8266_connect_wifi (Some [97]) (Some [98]) (esp_boot []))) =
   (if fst (esp8266_connect_wifi (Some [97]) (Some [98]) (esp_boot [])) = ESP_OK then 1 else 0)"
  using connect_wifi_result [OF esp_boot_ok(1), of "Some [97]" "Some [98]" "[]",
      OF prod.collapse [symmetric]] by simp

lemma print_netinfo_total:
  assumes "esp_ok s"
  shows "\<exists>s'. esp8266_print_netinfo s = Some s' \<and> esp_ok s' \<and> s_wifi_connected s' = s_wifi_connected s \<and>
    s_link_state s' = s_link_state s \<and> esp.more s' = esp.more s"
proof -
  note f1 = quiet_flush [OF assms]
  note q1 = quiet_trans [OF f1 quiet_line [OF quiet_ok [OF f1], of "ascii ''AT+CIFSR''"]]
  obtain s2 where s2: "netinfo_loop (ticks (at_send_line (ascii ''AT+CIFSR'') (rx_flush s)))
      (at_send_line (ascii ''AT+CIFSR'') (rx_flush s)) = Some s2"
    "connect_result (at_send_line (ascii ''AT+CIFSR'') (rx_flush s)) (-1) s2"
    using netinfo_loop_total [OF quiet_ok [OF q1]] by force
  have ok2: "esp_ok s2" using s2(2) by (simp add: connect_result_def)
  note f3 = quiet_flush [OF ok2]
  note q3 = quiet_trans [OF f3 quiet_line [OF quiet_ok [OF f3], of "ascii ''AT+CIPSTA?''"]]
  obtain s4 where s4: "netinfo_loop (ticks (at_send_line (ascii ''AT+CIPSTA?'') (rx_flush s2)))
      (at_send_line (ascii ''AT+CIPSTA?'') (rx_flush s2)) = Some s4"
    "connect_result (at_send_line (ascii ''AT+CIPSTA?'') (rx_flush s2)) (-1) s4"
    using netinfo_loop_total [OF quiet_ok [OF q3]] by force
  have "esp8266_print_netinfo s = Some s4" by (simp add: esp8266_print_netinfo_def Let_def s2 s4)
  then show ?thesis using s2(2) s4(2) q1 q3 by (auto simp: connect_result_def quiet_def)
qed

lemma handshake_quiet: "esp_ok s \<Longrightarrow> at_handshake n s = (b, s') \<Longrightarrow> esp_ok s' \<and> esp.more s' = esp.more s"
proof (induction n arbitrary: s)
  case (Suc n)
  obtain r s1 where c: "at_cmd (ascii ''AT'') (ascii ''OK'') 1000 s = (r, s1)" by fastforce
  note q = quiet_cmd [OF Suc.prems(1) ascii_Cons c]
  then have "esp_ok s1" "esp.more s1 = esp.more s" by (auto simp: quiet_def)
  then show ?case using Suc c by (cases r) auto
qed simp

text \<open>Initialisation returns whatever the module answers; it reports success only with
  every link marked down and the WiFi flag cleared, and a peripheral that could not be
  configured is reported as it is, with nothing sent.\<close>

theorem esp8266_init_result:
  assumes "esp_ok s"
  shows "\<exists>e s'. esp8266_init uart4 s = Some (e, s') \<and> esp_ok s' \<and> esp.more s' = esp.more s \<and>
    (uart4 \<noteq> ESP_OK \<longrightarrow> e = uart4 \<and> s' = s) \<and> (uart4 = ESP_OK \<longrightarrow> e \<in> {ESP_OK, ESP_ERR_NO_RESP}) \<and>
    (e = ESP_OK \<longrightarrow> s_wifi_connected s' = 0 \<and> s_link_state s' = replicate 5 0)"
proof (cases "uart4 = ESP_OK")
  case False
  then show ?thesis using assms by (simp add: esp8266_init_def)
next
  case True
  obtain r1 s1 where c1: "at_cmd (ascii ''ATE0'') (ascii ''OK'') 1500 s = (r1, s1)" by fastforce
  obtain r2 s2 where c2: "at_cmd (ascii ''AT+CWMODE=1'') (ascii ''OK'') 1500 s1 = (r2, s2)" by fastforce
  obtain b3 s3 where c3: "at_handshake 5 s2 = (b3, s3)" by fastforce
  obtain r4 s4 where c4: "at_cmd (ascii ''AT+CIPMUX=0'') (ascii ''OK'') 2000 s3 = (r4, s4)" by fastforce
  obtain r5 s5 where c5: "at_cmd (ascii ''AT+CIPMODE=0'') (ascii ''OK'') 1000 s4 = (r5, s5)" by fastforce
  obtain r6 s6 where c6: "at_cmd (ascii ''AT+CWJAP?'') (ascii ''+CWJAP:'') 3000 s5 = (r6, s6)" by fastforce
  have q1: "esp_ok s1" "esp.more s1 = esp.more s" using quiet_cmd [OF assms ascii_Cons c1] by (auto simp: quiet_def)
  have q2: "esp_ok s2" "esp.more s2 = esp.more s" using quiet_cmd [OF q1(1) ascii_Cons c2] q1 by (auto simp: quiet_def)
  have q3: "esp_ok s3" "esp.more s3 = esp.more s" using handshake_quiet [OF q2(1) c3] q2 by auto
  have q4: "esp_ok s4" "esp.more s4 = esp.more s" using quiet_cmd [OF q3(1) ascii_Cons c4] q3 by (auto simp: quiet_def)
  have q5: "esp_ok s5" "esp.more s5 = esp.more s" using quiet_cmd [OF q4(1) ascii_Cons c5] q4 by (auto simp: quiet_def)
  have q6: "esp_ok s6" "esp.more s6 = esp.more s" using quiet_cmd [OF q5(1) ascii_Cons c6] q5 by (auto simp: quiet_def)
  let ?s7 = "s6\<lparr>s_wifi_connected := 0, s_link_state := replicate 5 0\<rparr>"
  have "esp_ok ?s7" using q6(1) by (simp add: esp_ok_def)
  from print_netinfo_total [OF this] obtain s8 where s8: "esp8266_print_netinfo ?s7 = Some s8" "esp_ok s8"
    "s_wifi_connected s8 = 0" "s_link_state s8 = replicate 5 0" "esp.more s8 = esp.more s" using q6 by auto
  have "esp8266_init uart4 s =
      (if r1 = None then Some (ESP_ERR_NO_RESP, s1) else if r2 = None then Some (ESP_ERR_NO_RESP, s2)
       else if \<not> b3 then Some (ESP_ERR_NO_RESP, s3) else if r4 = None then Some (ESP_ERR_NO_RESP, s4)
       else Some (ESP_OK, s8))"
    using True s8(1) by (simp add: esp8266_init_def c1 c2 c3 c4 c5 c6 Let_def split: option.split bool.split)
  then show ?thesis using True q1 q2 q3 q4 s8 by (cases r1; cases r2; cases b3; cases r4) auto
qed

lemma esp8266_init_result_witness:
  "\<exists>e s'. esp8266_init ESP_OK (esp_boot []) = Some (e, s') \<and> e \<in> {ESP_OK, ESP_ERR_NO_RESP}"
  using esp8266_init_result [OF esp_boot_ok(1), of ESP_OK "[]"] by auto

end
