(* ===== verification/Json_Msg.thy ===== *)
theory Json_Msg
  imports Esp8266 Task_Sensor
begin

text \<open>
  The text messages of the MQTT task (\<open>task_mqtt.c\<close>): the two JSON searches, the command a
  received text stands for and the report text of an average. Texts are the bytes before the
  closing NUL; \<open>None\<close> of the string search is the result \<open>-1\<close>.
\<close>

section \<open>Searching\<close>

text \<open>The pointer behind the first occurrence of the needle in the text.\<close>

definition json_after :: "u8 list \<Rightarrow> u8 list \<Rightarrow> u8 list option" where
  "json_after needle json = map_option (\<lambda>i. drop (i + length needle) json) (find_sub needle json)"

text \<open>The digit loop on an \<open>int32_t\<close>, with the target's wrap-around.\<close>

fun json_digits :: "int \<Rightarrow> u8 list \<Rightarrow> int" where
  "json_digits v [] = v"
| "json_digits v (c # cs) = (if is_digit c then json_digits (wrap32 (wrap32 (v * 10) + (uint c - 48))) cs else v)"

definition json_find_int :: "u8 list option \<Rightarrow> u8 list option \<Rightarrow> int" where
  "json_find_int json key = (case (json, key) of
       (Some json, Some key) \<Rightarrow>
         (let needle = [34] @ key @ [34, 58]; n = length needle in
          if n = 0 \<or> n \<ge> 32 then -1
          else case json_after needle json of
            None \<Rightarrow> -1
          | Some p \<Rightarrow>
              (let p = dropWhile (\<lambda>c. c = 32 \<or> c = 9) p;
                   (neg, p) = (case p of c # cs \<Rightarrow> if c = 45 then (True, cs) else (False, p) | [] \<Rightarrow> (False, p))
               in case p of
                    [] \<Rightarrow> -1
                  | c # cs \<Rightarrow> if \<not> is_digit c then -1
                             else (let v = json_digits 0 p in if neg then wrap32 (- v) else v)))
     | _ \<Rightarrow> -1)"

definition json_find_str :: "u8 list option \<Rightarrow> u8 list option \<Rightarrow> nat \<Rightarrow> u8 list option" where
  "json_find_str json key out_size = (case (json, key) of
       (Some json, Some key) \<Rightarrow>
         if out_size = 0 then None
         else (let needle = [34] @ key @ [34, 58, 34]; n = length needle in
          if n = 0 \<or> n \<ge> 32 then None
          else map_option (\<lambda>p. take (out_size - 1) (takeWhile (\<lambda>c. c \<noteq> 34) p)) (json_after needle json))
     | _ \<Rightarrow> None)"

section \<open>Commands and reports\<close>

text \<open>The message a received text becomes; \<open>None\<close> is an early return of \<open>mqtt_on_message\<close>.\<close>

definition json_command :: "u8 list \<Rightarrow> applay_msg_t option" where
  "json_command json = (case json_find_str (Some json) (Some (ascii ''target'')) 16 of
       None \<Rightarrow> None
     | Some target_str \<Rightarrow>
         if target_str = [] then None
         else (let v = json_find_int (Some json) (Some (ascii ''value'')) in
          if v < 0 then None
          else if target_str = ascii ''fan'' then
            (if v = 0 then Some \<lparr>target = APPLAY_TARGET_FAN, val = APPLAY_VAL_OFF, source = SOURCE_NETWORK\<rparr>
             else if v = 1 then Some \<lparr>target = APPLAY_TARGET_FAN, val = APPLAY_VAL_LOW, source = SOURCE_NETWORK\<rparr>
             else if v = 2 then Some \<lparr>target = APPLAY_TARGET_FAN, val = APPLAY_VAL_MID, source = SOURCE_NETWORK\<rparr>
             else if v = 3 then Some \<lparr>target = APPLAY_TARGET_FAN, val = APPLAY_VAL_HI, source = SOURCE_NETWORK\<rparr>
             else None)
          else if target_str = ascii ''heat'' then
            Some \<lparr>target = APPLAY_TARGET_HEAT, val = (if v = 0 then APPLAY_VAL_OFF else APPLAY_VAL_ON), source = SOURCE_NETWORK\<rparr>
          else if target_str = ascii ''humid'' then
            Some \<lparr>target = APPLAY_TARGET_HUMID, val = (if v = 0 then APPLAY_VAL_OFF else APPLAY_VAL_ON), source = SOURCE_NETWORK\<rparr>
          else None))"

text \<open>A key in quotes with its colon, and the format of the report.\<close>

definition json_key :: "string \<Rightarrow> u8 list" where
  "json_key k = [34] @ ascii k @ [34, 58]"

definition report_json :: "env_avg_t \<Rightarrow> u8 list" where
  "report_json avg =
     [123] @ json_key ''t'' @ dec_digits (unat (temp_avg_x10 avg) div 10) @ [46] @ dec_digits (unat (temp_avg_x10 avg) mod 10) @ [44]
     @ json_key ''h'' @ dec_digits (unat (humi_avg_x10 avg) div 10) @ [46] @ dec_digits (unat (humi_avg_x10 avg) mod 10) @ [44]
     @ json_key ''rain'' @ dec_digits (unat (rain_flag avg)) @ [44] @ json_key ''co2'' @ dec_digits (unat (co2_avg avg)) @ [44]
     @ json_key ''co'' @ dec_digits (unat (co_avg avg)) @ [44] @ json_key ''err'' @ dec_digits (unat (err_bits avg)) @ [125]"

section \<open>Lemmas\<close>

lemma find_sub_skip:
  "c \<notin> set xs \<Longrightarrow> find_sub (c # n) (xs @ ys) = map_option ((+) (length xs)) (find_sub (c # n) ys)"
proof (induction xs)
  case Nil
  then show ?case by (simp add: option.map_ident)
next
  case (Cons x xs)
  then show ?case by (auto simp: option.map_comp comp_def)
qed

lemma json_after_skip: "c \<notin> set xs \<Longrightarrow> json_after (c # n) (xs @ ys) = json_after (c # n) ys"
  by (simp add: json_after_def find_sub_skip option.map_comp comp_def)

lemma json_after_here: "json_after n (n @ ys) = Some ys"
proof -
  have "find_sub n (n @ ys) = Some 0" by (rule find_sub_here) simp
  then show ?thesis by (simp add: json_after_def)
qed

lemma json_after_miss:
  "take (length n) (x # xs) \<noteq> n \<Longrightarrow> json_after n (x # xs) = json_after n xs"
  by (simp add: json_after_def option.map_comp comp_def)

lemma wrap32_mult10: "wrap32 (wrap32 (v * 10) + d) = wrap32 (v * 10 + d)"
  unfolding wrap32_def by (simp add: mod_simps ac_simps)

lemma wrap32_step: "wrap32 (wrap32 v * 10 + d) = wrap32 (v * 10 + d)"
proof -
  have "((v + 2 ^ 31) mod 2 ^ 32 - 2 ^ 31) * 10 + d + 2 ^ 31 = (v + 2 ^ 31) mod 2 ^ 32 * 10 + (d - 9 * 2 ^ 31)" by simp
  moreover have "((v + 2 ^ 31) mod 2 ^ 32 * 10 + (d - 9 * 2 ^ 31)) mod 2 ^ 32 = ((v + 2 ^ 31) * 10 + (d - 9 * 2 ^ 31)) mod (2 ^ 32 :: int)"
    by (metis mod_add_left_eq mod_mult_left_eq)
  ultimately show ?thesis unfolding wrap32_def by (simp add: algebra_simps)
qed

lemma json_digits_run:
  "\<forall>c \<in> set ds. is_digit c \<Longrightarrow> rest = [] \<or> \<not> is_digit (hd rest) \<Longrightarrow>
     json_digits (wrap32 v) (ds @ rest) = wrap32 (foldl (\<lambda>v c. v * 10 + (uint c - 48)) v ds)"
proof (induction ds arbitrary: v)
  case Nil
  then show ?case by (cases rest) auto
next
  case (Cons d ds)
  then show ?case by (simp add: wrap32_mult10 wrap32_step)
qed

lemma json_digits_dec:
  assumes "rest = [] \<or> \<not> is_digit (hd rest)"
  shows "json_digits 0 (dec_digits n @ rest) = wrap32 (int n)"
proof -
  have "json_digits (wrap32 0) (dec_digits n @ rest) = wrap32 (dec_value (dec_digits n))"
    unfolding dec_value_def by (rule json_digits_run [OF dec_digits_digits assms])
  then show ?thesis by (simp add: dec_value_digits wrap32_id)
qed

text \<open>A number behind its key is read back, and the rest of the text is not looked at.\<close>

lemma find_int_after:
  assumes "json_after (json_key k) json = Some (dec_digits n @ c # rest)" "\<not> is_digit c" "length k < 29"
  shows "json_find_int (Some json) (Some (ascii k)) = wrap32 (int n)"
proof -
  obtain d ds where d: "dec_digits n = d # ds" by (cases "dec_digits n") auto
  then have dig: "is_digit d" using dec_digits_digits [of n] by simp
  then have nd: "d \<noteq> 32" "d \<noteq> 9" "d \<noteq> 45" by (auto simp: is_digit_def)
  have key: "[34] @ ascii k @ [34, 58] = json_key k" "\<not> length (json_key k) \<ge> 32" "length (json_key k) \<noteq> 0"
    using assms(3) by (simp_all add: json_key_def)
  have v: "json_digits 0 (d # ds @ c # rest) = wrap32 (int n)"
    using json_digits_dec [of "c # rest" n] assms(2) d by simp
  show ?thesis
    unfolding json_find_int_def prod.case option.case Let_def key(1) assms(1)
    using key(2,3) d nd dig v by simp
qed

lemma key_bytes:
  "json_key ''t'' = [34, 116, 34, 58]" "json_key ''h'' = [34, 104, 34, 58]"
  "json_key ''rain'' = [34, 114, 97, 105, 110, 34, 58]" "json_key ''co2'' = [34, 99, 111, 50, 34, 58]"
  "json_key ''co'' = [34, 99, 111, 34, 58]" "json_key ''err'' = [34, 101, 114, 114, 34, 58]"
  "json_key ''value'' = [34, 118, 97, 108, 117, 101, 34, 58]"
  by (simp_all add: json_key_def ascii_def)

lemma digits_no_quote: "34 \<notin> set (dec_digits n)"
  using dec_digits_digits [of n] by (auto simp: is_digit_def)

lemma json_after_Cons:
  "json_after n (x # xs) = (if take (length n) (x # xs) = n then Some (drop (length n) (x # xs)) else json_after n xs)"
  by (cases "take (length n) (x # xs) = n") (simp add: json_after_def, rule trans [OF json_after_miss], simp_all)

lemma json_after_digits: "json_after (34 # n) (dec_digits m @ ys) = json_after (34 # n) ys"
  by (rule json_after_skip [OF digits_no_quote])

lemmas json_scan = key_bytes json_after_Cons json_after_digits

text \<open>Where the fields of a report are found.\<close>

lemma report_fields:
  "\<exists>rest. json_after (json_key ''t'') (report_json a) = Some (dec_digits (unat (temp_avg_x10 a) div 10) @ 46 # rest)"
  "\<exists>rest. json_after (json_key ''h'') (report_json a) = Some (dec_digits (unat (humi_avg_x10 a) div 10) @ 46 # rest)"
  "\<exists>rest. json_after (json_key ''rain'') (report_json a) = Some (dec_digits (unat (rain_flag a)) @ 44 # rest)"
  "\<exists>rest. json_after (json_key ''co2'') (report_json a) = Some (dec_digits (unat (co2_avg a)) @ 44 # rest)"
  "\<exists>rest. json_after (json_key ''co'') (report_json a) = Some (dec_digits (unat (co_avg a)) @ 44 # rest)"
  "\<exists>rest. json_after (json_key ''err'') (report_json a) = Some (dec_digits (unat (err_bits a)) @ 125 # rest)"
  unfolding report_json_def by (simp_all add: json_scan)

lemma report_field_value:
  assumes "\<exists>rest. json_after (json_key k) json = Some (dec_digits n @ c # rest)" "\<not> is_digit c" "length k < 29" "n < 65536"
  shows "json_find_int (Some json) (Some (ascii k)) = int n"
proof -
  obtain rest where "json_after (json_key k) json = Some (dec_digits n @ c # rest)" using assms(1) by blast
  from find_int_after [OF this assms(2,3)] show ?thesis using assms(4) by (simp add: wrap32_id)
qed

lemma unat_u16: "unat (w :: u16) < 65536"
proof -
  have "unat w < 2 ^ LENGTH(16)" by (rule unsigned_less)
  then show ?thesis by simp
qed

lemma unat_u8: "unat (w :: u8) < 256"
proof -
  have "unat w < 2 ^ LENGTH(8)" by (rule unsigned_less)
  then show ?thesis by simp
qed

lemma report_length: "length (report_json a) \<le> 79"
proof -
  have t: "length (dec_digits (unat (temp_avg_x10 a) div 10)) \<le> 4" "length (dec_digits (unat (temp_avg_x10 a) mod 10)) \<le> 1"
    "length (dec_digits (unat (humi_avg_x10 a) div 10)) \<le> 4" "length (dec_digits (unat (humi_avg_x10 a) mod 10)) \<le> 1"
    using unat_u16 [of "temp_avg_x10 a"] unat_u16 [of "humi_avg_x10 a"] by (intro dec_digits_length; simp)+
  have r: "length (dec_digits (unat (rain_flag a))) \<le> 3" "length (dec_digits (unat (err_bits a))) \<le> 3"
    using unat_u8 [of "rain_flag a"] unat_u8 [of "err_bits a"] by (intro dec_digits_length; simp)+
  have c: "length (dec_digits (unat (co2_avg a))) \<le> 5" "length (dec_digits (unat (co_avg a))) \<le> 5"
    using unat_u16 [of "co2_avg a"] unat_u16 [of "co_avg a"] by (intro dec_digits_length; simp)+
  show ?thesis using t r c by (simp add: report_json_def key_bytes)
qed

text \<open>A control text as the cloud side writes it.\<close>

definition ctrl_json :: "string \<Rightarrow> nat \<Rightarrow> u8 list" where
  "ctrl_json t v = [123] @ json_key ''target'' @ [34] @ ascii t @ [34, 44] @ json_key ''value'' @ dec_digits v @ [125]"

lemma ctrl_value:
  assumes "t = ''fan'' \<or> t = ''heat'' \<or> t = ''humid''"
  shows "json_find_int (Some (ctrl_json t v)) (Some (ascii ''value'')) = wrap32 (int v)"
proof -
  have "json_after (json_key ''value'') (ctrl_json t v) = Some (dec_digits v @ 125 # [])"
    using assms by (auto simp: ctrl_json_def json_key_def ascii_def json_after_Cons)
  then show ?thesis by (rule find_int_after) (simp_all add: is_digit_def)
qed

lemma ctrl_target:
  assumes "t = ''fan'' \<or> t = ''heat'' \<or> t = ''humid''"
  shows "json_find_str (Some (ctrl_json t v)) (Some (ascii ''target'')) 16 = Some (ascii t)"
  using assms by (auto simp: json_find_str_def Let_def ctrl_json_def json_key_def ascii_def json_after_Cons)

text \<open>The command of a target name and a number.\<close>

definition net_command :: "string \<Rightarrow> int \<Rightarrow> applay_msg_t option" where
  "net_command t v =
     (if v < 0 then None
      else if t = ''fan'' then (if v \<le> 3 then Some \<lparr>target = APPLAY_TARGET_FAN, val = word_of_int v, source = SOURCE_NETWORK\<rparr> else None)
      else if t = ''heat'' then Some \<lparr>target = APPLAY_TARGET_HEAT, val = (if v = 0 then 0 else 1), source = SOURCE_NETWORK\<rparr>
      else if t = ''humid'' then Some \<lparr>target = APPLAY_TARGET_HUMID, val = (if v = 0 then 0 else 1), source = SOURCE_NETWORK\<rparr>
      else None)"

lemma names_differ:
  "ascii ''heat'' \<noteq> ascii ''fan''" "ascii ''humid'' \<noteq> ascii ''fan''" "ascii ''humid'' \<noteq> ascii ''heat''"
  "ascii ''fan'' \<noteq> []" "ascii ''heat'' \<noteq> []" "ascii ''humid'' \<noteq> []"
  by (simp_all add: ascii_def)

lemma le3_int: "0 \<le> v \<Longrightarrow> (v :: int) \<le> 3 \<longleftrightarrow> v = 0 \<or> v = 1 \<or> v = 2 \<or> v = 3"
  by auto

lemma ctrl_command:
  assumes "t = ''fan'' \<or> t = ''heat'' \<or> t = ''humid''"
  shows "json_command (ctrl_json t v) = net_command t (wrap32 (int v))"
proof -
  define w where "w = wrap32 (int v)"
  have c: "json_command (ctrl_json t v) = (if ascii t = [] then None else if w < 0 then None
      else if ascii t = ascii ''fan'' then
            (if w = 0 then Some \<lparr>target = APPLAY_TARGET_FAN, val = APPLAY_VAL_OFF, source = SOURCE_NETWORK\<rparr>
             else if w = 1 then Some \<lparr>target = APPLAY_TARGET_FAN, val = APPLAY_VAL_LOW, source = SOURCE_NETWORK\<rparr>
             else if w = 2 then Some \<lparr>target = APPLAY_TARGET_FAN, val = APPLAY_VAL_MID, source = SOURCE_NETWORK\<rparr>
             else if w = 3 then Some \<lparr>target = APPLAY_TARGET_FAN, val = APPLAY_VAL_HI, source = SOURCE_NETWORK\<rparr>
             else None)
          else if ascii t = ascii ''heat'' then
            Some \<lparr>target = APPLAY_TARGET_HEAT, val = (if w = 0 then APPLAY_VAL_OFF else APPLAY_VAL_ON), source = SOURCE_NETWORK\<rparr>
          else if ascii t = ascii ''humid'' then
            Some \<lparr>target = APPLAY_TARGET_HUMID, val = (if w = 0 then APPLAY_VAL_OFF else APPLAY_VAL_ON), source = SOURCE_NETWORK\<rparr>
          else None)"
    unfolding json_command_def ctrl_target [OF assms] ctrl_value [OF assms] Let_def option.case w_def by (rule refl)
  show ?thesis
    unfolding w_def [symmetric] c net_command_def using assms names_differ le3_int [of w]
    by (elim disjE; simp; fastforce)
qed

section \<open>Properties\<close>


text \<open>A control text for one of the three targets becomes the command of its number as an
  \<open>int32_t\<close>: fan levels 0 to 3, everything positive switches heater and humidifier on. A
  number too large for 32 bits is neither refused nor saturated but taken modulo 2^32, so that
  4294967299 sets the fan to its highest level.\<close>

theorem control_text_command:
  "json_command (ctrl_json ''fan'' v) = net_command ''fan'' (wrap32 (int v)) \<and>
   json_command (ctrl_json ''heat'' v) = net_command ''heat'' (wrap32 (int v)) \<and>
   json_command (ctrl_json ''humid'' v) = net_command ''humid'' (wrap32 (int v)) \<and>
   json_command (ctrl_json ''fan'' 4294967299) =
     Some \<lparr>target = APPLAY_TARGET_FAN, val = APPLAY_VAL_HI, source = SOURCE_NETWORK\<rparr>"
  using ctrl_command [of "''fan''" v] ctrl_command [of "''heat''" v] ctrl_command [of "''humid''" v]
    ctrl_command [of "''fan''" 4294967299] by (simp add: net_command_def wrap32_def)

end
