(* ===== verification/Mqtt_Codec.thy ===== *)
theory Mqtt_Codec
  imports Agro_Prelude
begin

text \<open>
  Packing and parsing of MQTT 3.1.1 packets (\<open>Drivers/BSP/MQTT/mqtt.c\<close>, the internal
  tools, the \<open>build_*\<close> functions and the parsing half of \<open>handle_publish\<close>). A packet is
  the list of bytes written to \<open>out\<close>; the \<open>-1\<close> result is \<open>None\<close>. Character arrays are
  the text before their NUL.
\<close>

section \<open>Variable-length integers and 16-bit fields\<close>

abbreviation MQTT_CTRL_CONNECT :: u8 where "MQTT_CTRL_CONNECT \<equiv> 1"
abbreviation MQTT_CTRL_CONNACK :: u8 where "MQTT_CTRL_CONNACK \<equiv> 2"
abbreviation MQTT_CTRL_PUBLISH :: u8 where "MQTT_CTRL_PUBLISH \<equiv> 3"
abbreviation MQTT_CTRL_PUBACK :: u8 where "MQTT_CTRL_PUBACK \<equiv> 4"
abbreviation MQTT_CTRL_SUBSCRIBE :: u8 where "MQTT_CTRL_SUBSCRIBE \<equiv> 8"
abbreviation MQTT_CTRL_SUBACK :: u8 where "MQTT_CTRL_SUBACK \<equiv> 9"
abbreviation MQTT_CTRL_UNSUBSCRIBE :: u8 where "MQTT_CTRL_UNSUBSCRIBE \<equiv> 10"
abbreviation MQTT_CTRL_PINGREQ :: u8 where "MQTT_CTRL_PINGREQ \<equiv> 12"
abbreviation MQTT_CTRL_PINGRESP :: u8 where "MQTT_CTRL_PINGRESP \<equiv> 13"
abbreviation MQTT_CTRL_DISCONNECT :: u8 where "MQTT_CTRL_DISCONNECT \<equiv> 14"

lemma unat_drop7: "unat (drop_bit 7 (x :: u32)) = unat x div 128"
  using unat_drop_bit_eq [of 7 x] by (simp only: drop_bit_eq_div) simp

function mqtt_encode_len :: "u32 \<Rightarrow> u8 list" where
  "mqtt_encode_len len =
     (let b = (ucast (len AND 0x7F) :: u8);
          len' = drop_bit 7 len
      in if len' > 0 then (b OR 0x80) # mqtt_encode_len len' else [b])"
  by pat_completeness auto
termination
proof (relation "measure unat")
  fix len :: u32 and b :: u8 and len' :: u32
  assume "len' = drop_bit 7 len" "0 < len'"
  then have l: "unat len' = unat len div 128" by (simp only: unat_drop7)
  from \<open>0 < len'\<close> have "0 < unat len'" by (simp add: unat_gt_0)
  with l have "unat len' < unat len" by simp
  then show "(len', len) \<in> measure unat" by simp
qed simp

declare mqtt_encode_len.simps [simp del]

fun mqtt_decode_go :: "u8 list \<Rightarrow> u32 \<Rightarrow> u32 \<Rightarrow> nat \<Rightarrow> (u32 \<times> nat) option" where
  "mqtt_decode_go [] multiplier value i = None"
| "mqtt_decode_go (b # bs) multiplier value i =
     (let value' = value + ucast (b AND 0x7F) * multiplier in
      if multiplier > 128 * 128 * 128 then None
      else if b AND 0x80 \<noteq> 0 then mqtt_decode_go bs (multiplier * 128) value' (Suc i)
      else Some (value', Suc i))"

definition mqtt_decode_len :: "u8 list \<Rightarrow> (u32 \<times> nat) option" where
  "mqtt_decode_len inp = mqtt_decode_go inp 1 0 0"

definition write_u16 :: "u16 \<Rightarrow> u8 list" where
  "write_u16 v = [hi8 v, lo8 v]"

definition read_u16 :: "u8 list \<Rightarrow> u16" where
  "read_u16 p = be16 (p ! 0) (p ! 1)"

section \<open>Building packets\<close>

record mqtt_config =
  s_client_id :: "u8 list"
  s_user :: "u8 list"
  s_pass :: "u8 list"
  s_keepalive :: u8

text \<open>A length-prefixed string, the \<open>write_u16\<close>/\<open>memcpy\<close> pair of the builders.\<close>

definition put_str :: "u8 list \<Rightarrow> u8 list" where
  "put_str s = (let n = (of_nat (length s) :: u16) in write_u16 n @ take (unat n) s)"

definition build_connect :: "mqtt_config \<Rightarrow> nat \<Rightarrow> u8 list option" where
  "build_connect c out_cap =
     (let flags = (0x02 :: u8) OR (if s_user c \<noteq> [] then 0x80 else 0)
                    OR (if s_pass c \<noteq> [] then 0x40 else 0);
          var = [0x00, 0x04] @ ascii ''MQTT'' @ [0x04, flags, drop_bit 8 (s_keepalive c), s_keepalive c];
          payload = (if s_client_id c = [] then [0x00, 0x00] else put_str (s_client_id c))
                    @ (if s_user c \<noteq> [] then put_str (s_user c) else [])
                    @ (if s_pass c \<noteq> [] then put_str (s_pass c) else []);
          rem = length var + length payload
      in if out_cap < 2 + 4 + rem then None
         else Some (push_bit 4 MQTT_CTRL_CONNECT # mqtt_encode_len (of_nat rem) @ var @ payload))"

definition build_publish ::
    "nat \<Rightarrow> u8 list \<Rightarrow> u8 list \<Rightarrow> u16 \<Rightarrow> u8 \<Rightarrow> u16 \<Rightarrow> u8 list option" where
  "build_publish out_cap topic payload len qos packet_id =
     (let tn = (of_nat (length topic) :: u16);
          rem = 2 + unat tn + (if qos > 0 then 2 else 0) + unat len;
          flags = (if qos > 0 then push_bit 1 qos else 0)
      in if out_cap < 2 + 4 + rem then None
         else Some ((push_bit 4 MQTT_CTRL_PUBLISH OR flags) # mqtt_encode_len (of_nat rem)
                @ put_str topic
                @ (if qos > 0 then write_u16 packet_id else [])
                @ take (unat len) payload))"

definition build_subscribe :: "nat \<Rightarrow> u8 list \<Rightarrow> u8 \<Rightarrow> u16 \<Rightarrow> u8 list option" where
  "build_subscribe out_cap topic qos packet_id =
     (let tn = (of_nat (length topic) :: u16);
          rem = 2 + 2 + unat tn + 1
      in if out_cap < 2 + 4 + rem then None
         else Some ((push_bit 4 MQTT_CTRL_SUBSCRIBE OR 0x02) # mqtt_encode_len (of_nat rem)
                @ write_u16 packet_id @ put_str topic @ [qos]))"

definition build_unsubscribe :: "nat \<Rightarrow> u8 list \<Rightarrow> u16 \<Rightarrow> u8 list option" where
  "build_unsubscribe out_cap topic packet_id =
     (let tn = (of_nat (length topic) :: u16);
          rem = 2 + 2 + unat tn
      in if out_cap < 2 + 4 + rem then None
         else Some ((push_bit 4 MQTT_CTRL_UNSUBSCRIBE OR 0x02) # mqtt_encode_len (of_nat rem)
                @ write_u16 packet_id @ put_str topic))"

definition build_pingreq :: "nat \<Rightarrow> u8 list option" where
  "build_pingreq out_cap =
     (if out_cap < 2 then None else Some [push_bit 4 MQTT_CTRL_PINGREQ, 0])"

definition build_disconnect :: "nat \<Rightarrow> u8 list option" where
  "build_disconnect out_cap =
     (if out_cap < 2 then None else Some [push_bit 4 MQTT_CTRL_DISCONNECT, 0])"

section \<open>Parsing a PUBLISH\<close>

abbreviation topic_cap :: nat where "topic_cap \<equiv> 128"   \<comment> \<open>\<open>sizeof(s_cur_topic)\<close>\<close>

record publish =
  pub_qos :: u8
  pub_topic :: "u8 list"
  pub_pid :: u16
  pub_payload :: "u8 list"

text \<open>
  The parsing of \<open>handle_publish\<close> up to the callback: \<open>None\<close> is an early return. \<open>p\<close>
  and \<open>fin\<close> are the offsets of the C pointers \<open>p\<close> and \<open>end\<close> in \<open>buf\<close>. The topic length
  is cut to the topic buffer before \<open>p\<close> moves past the topic, as in the code.
\<close>

definition parse_body :: "u8 list \<Rightarrow> u8 \<Rightarrow> nat \<Rightarrow> nat \<Rightarrow> publish option" where
  "parse_body buf qos p fin =
     (if p + 2 > fin then None
      else let tn = unat (read_u16 (drop p buf)); p = p + 2
           in if p + tn > fin then None
              else let tn = (if tn \<ge> topic_cap then topic_cap - 1 else tn);
                       topic = take tn (drop p buf);
                       p = p + tn
                   in if qos > 0 then
                        (if p + 2 > fin then None
                         else Some \<lparr>pub_qos = qos, pub_topic = topic,
                               pub_pid = read_u16 (drop p buf),
                               pub_payload = drop (p + 2) (take fin buf)\<rparr>)
                      else Some \<lparr>pub_qos = qos, pub_topic = topic, pub_pid = 0,
                             pub_payload = drop p (take fin buf)\<rparr>)"

definition parse_publish :: "u8 list \<Rightarrow> publish option" where
  "parse_publish buf =
     (let len = length buf in
      if len < 4 then None
      else let flags = buf ! 0 AND 0x0F; qos = drop_bit 1 flags AND 0x03
           in case mqtt_decode_len (drop 1 buf) of
                None \<Rightarrow> None
              | Some (rem, rem_bytes) \<Rightarrow>
                  let p = 1 + rem_bytes; fin = 1 + rem_bytes + unat rem
                  in parse_body buf qos p (if fin > len then len else fin))"

section \<open>Lemmas: the length code\<close>

text \<open>The reference encoding on natural numbers: base 128, least significant group first.\<close>

fun enc_nat :: "nat \<Rightarrow> u8 list" where
  "enc_nat n = (if n < 128 then [of_nat n] else (of_nat (n mod 128) + 128) # enc_nat (n div 128))"

declare enc_nat.simps [simp del]

lemma mqtt_encode_len_nat: "mqtt_encode_len len = enc_nat (unat len)"
proof (induction len rule: mqtt_encode_len.induct)
  case (1 len)
  have b: "(ucast (len AND 0x7F) :: u8) = of_nat (unat len mod 128)"
    using unat_and_mask7 [of len] by (metis of_nat_unat)
  have z: "drop_bit 7 len > 0 \<longleftrightarrow> unat len \<ge> 128"
    using unat_drop7 [of len] unat_gt_0 [of "drop_bit 7 len"]
    by (simp add: word_neq_0_conv div_greater_zero_iff del: unat_gt_0)
  show ?case
  proof (cases "unat len \<ge> 128")
    case True
    then have "mqtt_encode_len (drop_bit 7 len) = enc_nat (unat len div 128)"
      using 1 z unat_drop7 [of len] by simp
    with True z b show ?thesis
      by (simp add: mqtt_encode_len.simps [of len] enc_nat.simps [of "unat len"] Let_def u8_or_128)
  next
    case False
    with z b show ?thesis
      by (simp add: mqtt_encode_len.simps [of len] enc_nat.simps [of "unat len"] Let_def)
  qed
qed

lemma enc_nat_length:
  "length (enc_nat n) \<ge> 1" "n < 128 ^ k \<Longrightarrow> k \<ge> 1 \<Longrightarrow> length (enc_nat n) \<le> k"
proof -
  show "length (enc_nat n) \<ge> 1" by (subst enc_nat.simps) simp
  show "n < 128 ^ k \<Longrightarrow> k \<ge> 1 \<Longrightarrow> length (enc_nat n) \<le> k"
  proof (induction n arbitrary: k rule: enc_nat.induct)
    case (1 n)
    show ?case
    proof (cases "n < 128")
      case True
      then show ?thesis using 1 by (simp add: enc_nat.simps [of n])
    next
      case False
      then obtain j where k: "k = Suc j" "j \<ge> 1" using 1 by (cases k; cases "k - 1") auto
      have "n div 128 < 128 ^ j" using 1(2) k by (simp add: less_mult_imp_div_less mult.commute)
      with 1(1) [OF False this] k False show ?thesis by (simp add: enc_nat.simps [of n])
    qed
  qed
qed

lemma decode_byte:
  fixes b :: u8
  shows "ucast (b AND 0x7F) = (of_nat (unat b mod 128) :: u32)"
    "b AND 0x80 = 0 \<longleftrightarrow> unat b < 128"
  using unat_and_mask7_u8 [of b] u8_top_bit [of b] by (metis of_nat_unat, simp)

lemma mult_le: "k \<le> 3 \<Longrightarrow> \<not> (128 ^ k :: u32) > 128 * 128 * 128"
proof -
  assume "k \<le> 3"
  then have "k \<in> {0, 1, 2, 3}" by auto
  then show ?thesis by auto
qed

lemma decode_enc_nat:
  "n < 128 ^ (4 - k) \<Longrightarrow> k \<le> 3 \<Longrightarrow>
   mqtt_decode_go (enc_nat n @ rest) (128 ^ k) v i
     = Some (v + of_nat n * 128 ^ k, i + length (enc_nat n))"
proof (induction n arbitrary: k v i rule: enc_nat.induct)
  case (1 n)
  show ?case
  proof (cases "n < 128")
    case True
    then have "unat (of_nat n :: u8) = n" by (simp add: unat_of_nat_u8)
    then show ?thesis
      using True decode_byte [of "of_nat n"] mult_le [OF 1(3)]
      by (simp add: enc_nat.simps [of n] Let_def)
  next
    case False
    let ?b = "of_nat (n mod 128) + 128 :: u8"
    have "?b = of_nat (n mod 128 + 128)" by simp
    then have u: "unat ?b = n mod 128 + 128" by (simp add: unat_of_nat_u8 del: of_nat_add)
    have k: "Suc k \<le> 3"
    proof (rule ccontr)
      assume "\<not> Suc k \<le> 3"
      then have "k = 3" using 1(3) by simp
      then show False using 1(2) False by simp
    qed
    have "n div 128 < 128 ^ (4 - Suc k)"
    proof -
      have "4 - k = Suc (4 - Suc k)" using k by simp
      then have "(128::nat) ^ (4 - k) = 128 ^ (4 - Suc k) * 128" by (simp only: power_Suc mult.commute)
      then show ?thesis using 1(2) by (simp only: less_mult_imp_div_less)
    qed
    note IH = 1(1) [OF False this k]
    have "(of_nat n :: u32) = of_nat (n mod 128) + of_nat (n div 128) * 128"
      by (metis mod_mult_div_eq mult.commute of_nat_add of_nat_mult of_nat_numeral)
    then have "v + of_nat (n mod 128) * 128 ^ k + of_nat (n div 128) * 128 ^ Suc k
        = v + (of_nat n :: u32) * 128 ^ k"
      by (simp add: algebra_simps)
    then show ?thesis
      using False decode_byte [of ?b] u mult_le [OF 1(3)]
        IH [of "v + of_nat (n mod 128) * 128 ^ k" "Suc i"]
      by (simp add: enc_nat.simps [of n] Let_def mult.commute)
  qed
qed

lemma decode_encode:
  assumes "n < 2 ^ 28"
  shows "mqtt_decode_len (mqtt_encode_len (of_nat n) @ rest)
    = Some (of_nat n, length (enc_nat n))"
  using decode_enc_nat [of n 0 rest 0 0] assms
  by (simp add: mqtt_decode_len_def mqtt_encode_len_nat unat_of_nat_u32)

section \<open>Lemmas: parsing what was built\<close>

lemma write_u16_length [simp]: "length (write_u16 v) = 2"
  by (simp add: write_u16_def)

lemma read_write_u16 [simp]: "read_u16 (write_u16 v @ xs) = v"
  by (simp add: read_u16_def write_u16_def)

lemma read_u16_two: "read_u16 (a # b # xs) = be16 a b"
  by (simp add: read_u16_def)

definition cut_topic :: "nat \<Rightarrow> nat" where
  "cut_topic n = (if n \<ge> topic_cap then topic_cap - 1 else n)"

text \<open>A packet whose length field is right, seen by the parser.\<close>

lemma parse_publish_eq:
  fixes h :: u8
  defines "q \<equiv> drop_bit 1 (h AND 0x0F) AND 0x03"
  assumes rem: "rem = 2 + length topic + length body" "rem < 2 ^ 28" "length topic < 65536"
    and buf: "buf = h # mqtt_encode_len (of_nat rem) @ write_u16 (of_nat (length topic)) @ topic @ body"
  shows "parse_publish buf =
    (let n = cut_topic (length topic); rest = drop n (topic @ body) in
     if q > 0 then (if length rest < 2 then None
                    else Some \<lparr>pub_qos = q, pub_topic = take n (topic @ body),
                          pub_pid = read_u16 rest, pub_payload = drop 2 rest\<rparr>)
     else Some \<lparr>pub_qos = q, pub_topic = take n (topic @ body), pub_pid = 0, pub_payload = rest\<rparr>)"
proof -
  define enc where "enc = mqtt_encode_len (of_nat rem)"
  define n where "n = cut_topic (length topic)"
  have enc: "enc = enc_nat rem" using rem(2)
    by (simp add: enc_def mqtt_encode_len_nat unat_of_nat_u32)
  have el: "length enc \<ge> 1" using enc_nat_length(1) enc by simp
  have dec: "mqtt_decode_len (drop 1 buf) = Some (of_nat rem, length enc)"
    using decode_encode [OF rem(2)] buf enc enc_def by simp
  have urem: "unat (of_nat rem :: u32) = rem" using rem(2) by (simp add: unat_of_nat_u32)
  have len: "length buf = 1 + length enc + rem" using buf rem(1) enc_def by simp
  have d1: "drop (1 + length enc) buf = write_u16 (of_nat (length topic)) @ topic @ body"
    using buf enc_def by simp
  have d2: "drop (1 + length enc + 2 + k) buf = drop k (topic @ body)" for k
  proof -
    have "drop (1 + length enc + 2 + k) buf = drop (2 + k) (drop (1 + length enc) buf)"
      by (simp add: add.assoc add.commute)
    then show ?thesis unfolding d1 by simp
  qed
  have tn: "unat (of_nat (length topic) :: u16) = length topic"
    using rem(3) by (simp add: unat_of_nat_u16)
  have n: "n \<le> length topic" by (simp add: n_def cut_topic_def)
  have h: "buf ! 0 = h" using buf by simp
  define p where "p = 1 + length enc"
  have fin: "p + rem = length buf" using len p_def by simp
  have "\<not> length buf < 4" using el rem(1) len by linarith
  moreover have "1 + length enc + rem = length buf" using len by simp
  ultimately have "parse_publish buf = parse_body buf q p (length buf)"
    unfolding parse_publish_def Let_def h dec option.case prod.case urem q_def p_def by simp
  also have "\<dots> = (let rest = drop n (topic @ body) in
     if q > 0 then (if length rest < 2 then None
                    else Some \<lparr>pub_qos = q, pub_topic = take n (topic @ body),
                          pub_pid = read_u16 rest, pub_payload = drop 2 rest\<rparr>)
     else Some \<lparr>pub_qos = q, pub_topic = take n (topic @ body), pub_pid = 0, pub_payload = rest\<rparr>)"
  proof -
    have r: "unat (read_u16 (drop p buf)) = length topic"
      using d1 tn p_def by simp
    have d2': "drop (p + 2 + k) buf = drop k (topic @ body)" for k
      using d2 [of k] unfolding p_def .
    have "p + 2 + n + 2 = p + 2 + (2 + n)" by simp
    then have "drop (p + 2 + n + 2) buf = drop 2 (drop n (topic @ body))"
      using d2' [of "2 + n"] by (simp only: drop_drop)
    then have e0: "drop (p + 2) buf = topic @ body" "drop (p + 2 + n) buf = drop n (topic @ body)"
      "drop (p + 2 + n + 2) buf = drop 2 (drop n (topic @ body))"
      using d2' [of 0] d2' [of n] by simp_all
    have c: "(if length topic \<ge> topic_cap then topic_cap - 1 else length topic) = n"
      by (simp add: n_def cut_topic_def)
    have l: "\<not> p + 2 > length buf" "\<not> p + 2 + length topic > length buf"
      "p + 2 + n + 2 > length buf \<longleftrightarrow> length (drop n (topic @ body)) < 2"
      using fin rem(1) n by auto
    show ?thesis
      unfolding parse_body_def Let_def r c take_all [OF order_refl] e0 l(3) if_not_P [OF l(1)]
        if_not_P [OF l(2)] by (rule refl)
  qed
  finally show ?thesis unfolding n_def Let_def .
qed

text \<open>The header byte of a PUBLISH carries the QoS.\<close>

lemma publish_header:
  "qos \<le> 1 \<Longrightarrow>
   drop_bit 1 ((push_bit 4 MQTT_CTRL_PUBLISH OR (if qos > 0 then push_bit 1 qos else 0)) AND 0x0F)
     AND 0x03 = (qos :: u8)"
proof -
  assume "qos \<le> 1"
  then have "qos = 0 \<or> qos = 1"
    by (metis linorder_not_le word_le_less_eq word_less_1)
  then show ?thesis by auto
qed

lemma publish_rem:
  assumes "build_publish cap topic payload len qos pid = Some pkt"
    and "length topic < 65536" "length payload = unat len"
  shows "pkt = (push_bit 4 MQTT_CTRL_PUBLISH OR (if qos > 0 then push_bit 1 qos else 0))
      # mqtt_encode_len (of_nat (2 + length topic + (if qos > 0 then 2 else 0) + length payload))
        @ write_u16 (of_nat (length topic)) @ topic
        @ ((if qos > 0 then write_u16 pid else []) @ payload)"
    and "2 + length topic + (if qos > 0 then 2 else 0) + length payload < 2 ^ 28"
proof -
  have tn: "unat (of_nat (length topic) :: u16) = length topic"
    using assms(2) by (simp add: unat_of_nat_u16)
  show "pkt = (push_bit 4 MQTT_CTRL_PUBLISH OR (if qos > 0 then push_bit 1 qos else 0))
      # mqtt_encode_len (of_nat (2 + length topic + (if qos > 0 then 2 else 0) + length payload))
        @ write_u16 (of_nat (length topic)) @ topic
        @ ((if qos > 0 then write_u16 pid else []) @ payload)"
    using assms(1,3) unfolding build_publish_def put_str_def Let_def tn
    by (auto split: if_splits)
  have "unat len < 2 ^ LENGTH(16)" by (rule unsigned_less)
  then show "2 + length topic + (if qos > 0 then 2 else 0) + length payload < 2 ^ 28"
    using assms(2,3) by simp
qed

section \<open>Properties\<close>

text \<open>The variable-length remaining-length field decodes to the number that was encoded,
  with the right byte count and whatever follows it, for every length the protocol allows
  (below 2^28); it takes one to four bytes.\<close>

theorem remaining_length_roundtrip:
  assumes "n < 2 ^ 28"
  shows "\<exists>k. mqtt_decode_len (mqtt_encode_len (of_nat n) @ rest) = Some (of_nat n, k)
    \<and> k = length (mqtt_encode_len (of_nat n)) \<and> 1 \<le> k \<and> k \<le> 4"
  using decode_encode [OF assms, of rest] enc_nat_length(1) [of n] enc_nat_length(2) [of n 4] assms
  by (simp add: mqtt_encode_len_nat unat_of_nat_u32)

lemma remaining_length_roundtrip_witness:
  "(321 :: nat) < 2 ^ 28 \<and> (\<exists>k. mqtt_decode_len (mqtt_encode_len 321 @ [7]) = Some (321, k) \<and> k \<le> 4)"
  using remaining_length_roundtrip [of 321 "[7]"] by auto

lemma publish_packet_roundtrip:
  assumes "build_publish cap topic payload len qos pid = Some pkt"
    and "qos \<le> 1" "length topic < 128" "length payload = unat len"
  shows "parse_publish pkt = Some \<lparr>pub_qos = qos, pub_topic = topic,
    pub_pid = (if qos > 0 then pid else 0), pub_payload = payload\<rparr>"
proof -
  have lt: "length topic < 65536" using assms(3) by simp
  note pkt = publish_rem [OF assms(1) lt assms(4)]
  let ?body = "(if qos > 0 then write_u16 pid else []) @ payload"
  have rem: "2 + length topic + (if qos > 0 then 2 else 0) + length payload
      = 2 + length topic + length ?body" by simp
  show ?thesis
    using parse_publish_eq [OF rem pkt(2) lt pkt(1)] assms(2,3)
    unfolding publish_header [OF assms(2)] by (simp add: cut_topic_def Let_def)
qed

lemma build_publish_length:
  assumes "build_publish cap topic payload len qos pid = Some pkt"
  shows "length pkt \<le> cap"
proof -
  let ?rem = "2 + unat (of_nat (length topic) :: u16) + (if qos > 0 then 2 else 0) + unat len"
  have fit: "2 + 4 + ?rem \<le> cap" using assms by (auto simp: build_publish_def Let_def split: if_splits)
  have "unat (of_nat (length topic) :: u16) < 2 ^ LENGTH(16)" "unat len < 2 ^ LENGTH(16)" by (rule unsigned_less)+
  then have "?rem < 2 ^ 28" by simp
  then have u: "unat (of_nat ?rem :: u32) = ?rem" by (intro unat_of_nat_u32) simp
  define enc where "enc = mqtt_encode_len (of_nat ?rem)"
  have enc: "length enc \<le> 4"
    unfolding enc_def mqtt_encode_len_nat u by (rule enc_nat_length(2)) (use \<open>?rem < 2 ^ 28\<close> in simp_all)
  have pkt: "pkt = (push_bit 4 MQTT_CTRL_PUBLISH OR (if qos > 0 then push_bit 1 qos else 0)) # enc
                @ put_str topic @ (if qos > 0 then write_u16 pid else []) @ take (unat len) payload"
    using assms by (auto simp: build_publish_def Let_def enc_def split: if_splits)
  have put: "length (put_str topic) \<le> 2 + unat (of_nat (length topic) :: u16)" by (simp add: put_str_def Let_def)
  have wr: "length (if qos > 0 then write_u16 pid else []) = (if qos > 0 then 2 else 0)" by simp
  have tk: "length (take (unat len) payload) \<le> unat len" by simp
  have "length pkt = Suc (length enc + (length (put_str topic) + ((if qos > 0 then 2 else 0) + length (take (unat len) payload))))"
    unfolding pkt length_Cons length_append wr ..
  then show ?thesis using fit enc put tk by linarith
qed

text \<open>C36: what \<open>mqtt_publish\<close> packs, the receiving side unpacks: topic, payload, QoS and (for
  QoS 1) packet id of a built PUBLISH come back unchanged, for every topic that fits the
  topic buffer.\<close>

theorem publish_roundtrip:
  assumes "build_publish cap topic payload len qos pid = Some pkt"
    and "qos \<le> 1" "length topic < 128" "length payload = unat len"
  shows "parse_publish pkt = Some \<lparr>pub_qos = qos, pub_topic = topic,
    pub_pid = (if qos > 0 then pid else 0), pub_payload = payload\<rparr>"
  by (rule publish_packet_roundtrip [OF assms])

lemma publish_roundtrip_witness:
  "\<exists>pkt. build_publish 512 (ascii ''device/report'') [1, 2, 3] 3 1 77 = Some pkt \<and>
     parse_publish pkt = Some \<lparr>pub_qos = 1, pub_topic = ascii ''device/report'',
       pub_pid = 77, pub_payload = [1, 2, 3]\<rparr>"
proof -
  obtain pkt where b: "build_publish 512 (ascii ''device/report'') [1, 2, 3] 3 1 77 = Some pkt"
    by (simp add: build_publish_def Let_def)
  then show ?thesis using publish_roundtrip [OF b] by simp
qed

text \<open>A topic that does not fit the 128-byte topic buffer corrupts the message: the cut
  topic length is also used to skip the topic, so for QoS 0 the delivered payload starts with
  the rest of the topic.\<close>

theorem long_topic_corrupts_payload:
  assumes "build_publish cap topic payload len 0 pid = Some pkt"
    and "128 \<le> length topic" "length topic < 65536" "length payload = unat len"
  shows "parse_publish pkt = Some \<lparr>pub_qos = 0, pub_topic = take 127 topic,
    pub_pid = 0, pub_payload = drop 127 topic @ payload\<rparr>"
proof -
  note pkt = publish_rem [OF assms(1,3,4)]
  have rem: "2 + length topic + (if (0 :: u8) > 0 then 2 else 0) + length payload
      = 2 + length topic + length ((if (0 :: u8) > 0 then write_u16 pid else []) @ payload)" by simp
  show ?thesis
    using parse_publish_eq [OF rem pkt(2) assms(3) pkt(1)] assms(2)
      publish_header [of 0] by (simp add: cut_topic_def Let_def)
qed

lemma long_topic_corrupts_payload_witness:
  "\<exists>pkt. build_publish 512 (replicate 130 65) [1, 2, 3] 3 0 0 = Some pkt \<and>
     parse_publish pkt = Some \<lparr>pub_qos = 0, pub_topic = replicate 127 65,
       pub_pid = 0, pub_payload = [65, 65, 65, 1, 2, 3]\<rparr>"
proof -
  obtain pkt where b: "build_publish 512 (replicate 130 65) [1, 2, 3] 3 0 0 = Some pkt"
    by (simp add: build_publish_def Let_def)
  have "drop 127 (replicate 130 (65 :: u8)) = [65, 65, 65]" "take 127 (replicate 130 (65 :: u8)) = replicate 127 65"
    by (simp_all add: numeral_3_eq_3)
  then show ?thesis using b long_topic_corrupts_payload [OF b] by simp
qed

text \<open>The CONNECT packet always fits: with client id, user name and password that fit
  their 64-byte buffers, \<open>build_connect\<close> succeeds with the 256-byte buffer of
  \<open>mqtt_connect_broker\<close>, its remaining length is exact and the whole packet is within the
  buffer.\<close>

theorem connect_fits:
  assumes "length (s_client_id c) < 64" "length (s_user c) < 64" "length (s_pass c) < 64"
  shows "\<exists>pkt rem k. build_connect c 256 = Some pkt \<and> length pkt \<le> 256 \<and>
    mqtt_decode_len (tl pkt) = Some (of_nat rem, k) \<and> length pkt = 1 + k + rem \<and> rem \<le> 205"
proof -
  have ps: "length (put_str s) = 2 + length s" if "length s < 64" for s
    using that by (simp add: put_str_def Let_def unat_of_nat_u16)
  define body where "body = [0x00, 0x04] @ ascii ''MQTT''
    @ [0x04, (0x02 :: u8) OR (if s_user c \<noteq> [] then 0x80 else 0) OR (if s_pass c \<noteq> [] then 0x40 else 0),
       drop_bit 8 (s_keepalive c), s_keepalive c]
    @ (if s_client_id c = [] then [0x00, 0x00] else put_str (s_client_id c))
    @ (if s_user c \<noteq> [] then put_str (s_user c) else [])
    @ (if s_pass c \<noteq> [] then put_str (s_pass c) else [])"
  have lb: "length body \<le> 205"
    using ps [OF assms(1)] ps [OF assms(2)] ps [OF assms(3)] assms by (simp add: body_def)
  have b: "build_connect c 256 = Some (push_bit 4 MQTT_CTRL_CONNECT
      # mqtt_encode_len (of_nat (length body)) @ body)"
    using lb unfolding build_connect_def Let_def body_def by (simp add: add.commute add.left_commute)
  have "length (enc_nat (length body)) \<le> 2"
    using enc_nat_length(2) [of "length body" 2] lb by simp
  then show ?thesis
    using b lb decode_encode [of "length body" body]
    by (intro exI [of _ "push_bit 4 MQTT_CTRL_CONNECT # mqtt_encode_len (of_nat (length body)) @ body"]
        exI [of _ "length body"] exI [of _ "length (enc_nat (length body))"])
      (simp add: mqtt_encode_len_nat unat_of_nat_u32)
qed

lemma connect_fits_witness:
  "\<exists>pkt. build_connect \<lparr>s_client_id = ascii ''stm32f407_agro_001'', s_user = [], s_pass = [],
      s_keepalive = 10\<rparr> 256 = Some pkt \<and> length pkt \<le> 256"
  using connect_fits [of "\<lparr>s_client_id = ascii ''stm32f407_agro_001'', s_user = [], s_pass = [],
      s_keepalive = 10\<rparr>"] by auto

end
