(* ===== verification/Mqtt_Client.thy ===== *)
theory Mqtt_Client
  imports Mqtt_Codec Esp8266
begin

text \<open>
  The MQTT client (\<open>Drivers/BSP/MQTT/mqtt.c\<close>): dispatch of received packets, the connection
  state and the public operations. Its state extends the driver's, because every operation
  runs the driver and the driver calls back into the client. The application's message
  callback (\<open>s_msg_cb\<close>) is an argument: it may change anything in the extended state.
\<close>

section \<open>State\<close>

datatype mqtt_state_t = MQTT_ST_IDLE | MQTT_ST_TCP_OPEN | MQTT_ST_CONNECT_SENT | MQTT_ST_CONNECTED | MQTT_ST_DISCONNECTED

datatype mqtt_err_t = MQTT_OK | MQTT_ERR_TIMEOUT | MQTT_ERR_RESP | MQTT_ERR_PARAM | MQTT_ERR_STATE | MQTT_ERR_NET

record mqtt = esp +
  s_state :: mqtt_state_t
  s_link_id :: u8
  s_config :: mqtt_config        \<comment> \<open>\<open>s_client_id\<close>, \<open>s_user\<close>, \<open>s_pass\<close>, \<open>s_keepalive\<close>\<close>
  s_last_ping_ms :: u32
  s_next_packet_id :: u16
  s_rx_buf :: "u8 list"          \<comment> \<open>the first \<open>s_rx_len\<close> bytes\<close>

text \<open>Topic and payload of a message, given to the application.\<close>

type_synonym 's msg_cb = "(u8 list \<Rightarrow> u8 list \<Rightarrow> 's \<Rightarrow> 's) option"

section \<open>Received packets\<close>

definition puback :: "u16 \<Rightarrow> u8 list" where
  "puback pid = [push_bit 4 MQTT_CTRL_PUBACK, 2] @ write_u16 pid"

definition handle_publish :: "('a mqtt_scheme) msg_cb \<Rightarrow> u8 list \<Rightarrow> 'a mqtt_scheme \<Rightarrow> 'a mqtt_scheme" where
  "handle_publish s_msg_cb buf s = (case parse_publish buf of
       None \<Rightarrow> s
     | Some m \<Rightarrow>
         (let s1 = (case s_msg_cb of None \<Rightarrow> s | Some cb \<Rightarrow> cb (pub_topic m) (pub_payload m) s)
          in if pub_qos m = 1
             then snd (esp8266_tcp_send (uint (s_link_id s1)) (Some (puback (pub_pid m))) 4 s1)
             else s1))"

text \<open>The \<open>switch\<close> of \<open>handle_rx\<close> on one complete packet.\<close>

definition handle_packet ::
    "('a mqtt_scheme) msg_cb \<Rightarrow> u8 list \<Rightarrow> nat \<Rightarrow> 'a mqtt_scheme \<Rightarrow> 'a mqtt_scheme" where
  "handle_packet s_msg_cb data rem_bytes s =
     (let type = drop_bit 4 (data ! 0) AND 0x0F;
          payload = drop (1 + rem_bytes) data;
          plen = length payload
      in if type = MQTT_CTRL_CONNACK then
           (if plen \<ge> 2 \<and> payload ! 1 = 0
            then s\<lparr>s_state := MQTT_ST_CONNECTED, s_last_ping_ms := ticks s\<rparr>
            else s\<lparr>s_state := MQTT_ST_DISCONNECTED\<rparr>)
         else if type = MQTT_CTRL_PINGRESP then s\<lparr>s_last_ping_ms := ticks s\<rparr>
         else if type = MQTT_CTRL_PUBLISH then handle_publish s_msg_cb data s
         else s)"

function handle_rx :: "('a mqtt_scheme) msg_cb \<Rightarrow> u8 list \<Rightarrow> 'a mqtt_scheme \<Rightarrow> 'a mqtt_scheme" where
  "handle_rx s_msg_cb data s =
     (if length data < 2 then s
      else case mqtt_decode_len (drop 1 data) of
        None \<Rightarrow> s
      | Some (rem, rem_bytes) \<Rightarrow>
          (let n = 1 + rem_bytes + unat rem in
           if n > length data then s
           else handle_rx s_msg_cb (drop n data) (handle_packet s_msg_cb (take n data) rem_bytes s)))"
  by pat_completeness auto
termination
  by (relation "measure (\<lambda>(cb, data, s). length data)") auto

declare handle_rx.simps [simp del]

definition on_esp_recv :: "('a mqtt_scheme) msg_cb \<Rightarrow> int \<Rightarrow> u8 list \<Rightarrow> 'a mqtt_scheme \<Rightarrow> 'a mqtt_scheme" where
  "on_esp_recv s_msg_cb link_id data s =
     (if link_id \<noteq> uint (s_link_id s) then s
      else let d = take 512 data in handle_rx s_msg_cb d (s\<lparr>s_rx_buf := d\<rparr>))"

section \<open>Operations\<close>

text \<open>\<open>strncpy\<close> into a buffer of 64 bytes that is then closed with a NUL.\<close>

definition copy64 :: "u8 list \<Rightarrow> u8 list" where
  "copy64 text = take 63 (cstr text)"

definition mqtt_client_init ::
    "u8 list option \<Rightarrow> u8 list option \<Rightarrow> u8 list option \<Rightarrow> u16 \<Rightarrow> 'a mqtt_scheme \<Rightarrow> mqtt_err_t \<times> 'a mqtt_scheme" where
  "mqtt_client_init client_id user pass keepalive_sec s = (case client_id of
       None \<Rightarrow> (MQTT_ERR_PARAM, s)
     | Some c \<Rightarrow>
         (MQTT_OK, s\<lparr>s_config := \<lparr>s_client_id = copy64 c,
             s_user = (case user of None \<Rightarrow> [] | Some u \<Rightarrow> copy64 u),
             s_pass = (case pass of None \<Rightarrow> [] | Some p \<Rightarrow> copy64 p),
             s_keepalive = ucast (if keepalive_sec \<noteq> 0 then keepalive_sec else 10)\<rparr>,
           s_state := MQTT_ST_IDLE, s_last_ping_ms := ticks s\<rparr>))"

definition mqtt_loop :: "('a mqtt_scheme) msg_cb \<Rightarrow> 'a mqtt_scheme \<Rightarrow> 'a mqtt_scheme option" where
  "mqtt_loop s_msg_cb s0 = Option.bind (esp8266_loop (Some (on_esp_recv s_msg_cb)) s0) (\<lambda>s.
     if s_state s = MQTT_ST_CONNECTED then
       (let now = ticks s in
        if now - s_last_ping_ms s \<ge> ucast (s_keepalive (s_config s)) * 1000 then
          (let s1 = (case build_pingreq 2 of
                       None \<Rightarrow> s
                     | Some buf \<Rightarrow> snd (esp8266_tcp_send (uint (s_link_id s)) (Some buf) (of_nat (length buf)) s))
           in Some (s1\<lparr>s_last_ping_ms := now\<rparr>))
        else Some s)
     else Some s)"

text \<open>
  A turn of a loop that spins on the clock: the millisecond it takes and what the interrupt
  takes in meanwhile.
\<close>

definition spin :: "'a esp_scheme \<Rightarrow> 'a esp_scheme" where
  "spin s = (case uart_in s of
       [] \<Rightarrow> s\<lparr>ticks := ticks s + 1\<rparr>
     | c # cs \<Rightarrow> (fold ESP_UART_IRQHandler c s)\<lparr>uart_in := cs, ticks := ticks s + 1\<rparr>)"

partial_function (option) wait_connack ::
    "('a mqtt_scheme) msg_cb \<Rightarrow> u32 \<Rightarrow> 'a mqtt_scheme \<Rightarrow> (mqtt_err_t \<times> 'a mqtt_scheme) option" where
  "wait_connack s_msg_cb start s =
     (if ticks s - start < 10000 then
        (if s_state s = MQTT_ST_CONNECTED then Some (MQTT_OK, s)
         else if s_state s = MQTT_ST_DISCONNECTED then
           Some (MQTT_ERR_RESP, snd (esp8266_tcp_close (uint (s_link_id s)) s))
         else case mqtt_loop s_msg_cb s of
                None \<Rightarrow> None
              | Some s' \<Rightarrow> wait_connack s_msg_cb start (spin s'))
      else (let s1 = snd (esp8266_tcp_close (uint (s_link_id s)) s)
            in Some (MQTT_ERR_TIMEOUT, s1\<lparr>s_state := MQTT_ST_DISCONNECTED\<rparr>)))"

definition mqtt_connect_broker ::
    "('a mqtt_scheme) msg_cb \<Rightarrow> u8 list option \<Rightarrow> u16 \<Rightarrow> 'a mqtt_scheme \<Rightarrow> (mqtt_err_t \<times> 'a mqtt_scheme) option" where
  "mqtt_connect_broker s_msg_cb host port s =
     (if host = None then Some (MQTT_ERR_PARAM, s)
      else if esp8266_wifi_is_connected s = 0 then Some (MQTT_ERR_NET, s)
      else case esp8266_tcp_connect host port s of
        None \<Rightarrow> None
      | Some (link, s) \<Rightarrow>
          if link < 0 then Some (MQTT_ERR_NET, s)
          else let s = s\<lparr>s_link_id := word_of_int link, s_state := MQTT_ST_TCP_OPEN\<rparr> in
            case build_connect (s_config s) 256 of
              None \<Rightarrow> Some (MQTT_ERR_PARAM, s)
            | Some buf \<Rightarrow>
                (case esp8266_tcp_send (uint (s_link_id s)) (Some buf) (of_nat (length buf))
                        (s\<lparr>s_state := MQTT_ST_CONNECT_SENT\<rparr>) of
                   (e, s) \<Rightarrow> if e \<noteq> ESP_OK then Some (MQTT_ERR_NET, s\<lparr>s_state := MQTT_ST_DISCONNECTED\<rparr>)
                             else wait_connack s_msg_cb (ticks s) s))"

definition mqtt_disconnect :: "'a mqtt_scheme \<Rightarrow> mqtt_err_t \<times> 'a mqtt_scheme" where
  "mqtt_disconnect s =
     (if s_state s \<noteq> MQTT_ST_CONNECTED \<and> s_state s \<noteq> MQTT_ST_TCP_OPEN \<and> s_state s \<noteq> MQTT_ST_CONNECT_SENT
      then (MQTT_ERR_STATE, s)
      else let s = (case build_disconnect 2 of
                      None \<Rightarrow> s
                    | Some buf \<Rightarrow> snd (esp8266_tcp_send (uint (s_link_id s)) (Some buf) (of_nat (length buf)) s));
               s = snd (esp8266_tcp_close (uint (s_link_id s)) s)
           in (MQTT_OK, s\<lparr>s_state := MQTT_ST_IDLE\<rparr>))"

text \<open>\<open>pid = s_next_packet_id++; if (s_next_packet_id == 0) s_next_packet_id = 1\<close>.\<close>

definition take_packet_id :: "'a mqtt_scheme \<Rightarrow> u16 \<times> 'a mqtt_scheme" where
  "take_packet_id s =
     (let n = s_next_packet_id s + 1
      in (s_next_packet_id s, s\<lparr>s_next_packet_id := (if n = 0 then 1 else n)\<rparr>))"

definition send_packet :: "u8 list option \<Rightarrow> 'a mqtt_scheme \<Rightarrow> mqtt_err_t \<times> 'a mqtt_scheme" where
  "send_packet packet s = (case packet of
       None \<Rightarrow> (MQTT_ERR_PARAM, s)
     | Some buf \<Rightarrow>
         (case esp8266_tcp_send (uint (s_link_id s)) (Some buf) (of_nat (length buf)) s of
            (e, s') \<Rightarrow> (if e \<noteq> ESP_OK then MQTT_ERR_NET else MQTT_OK, s')))"

definition mqtt_publish ::
    "u8 list option \<Rightarrow> u8 list option \<Rightarrow> u16 \<Rightarrow> u8 \<Rightarrow> 'a mqtt_scheme \<Rightarrow> mqtt_err_t \<times> 'a mqtt_scheme" where
  "mqtt_publish topic payload len qos s =
     (if s_state s \<noteq> MQTT_ST_CONNECTED then (MQTT_ERR_STATE, s)
      else case (topic, payload) of
        (Some t, Some p) \<Rightarrow>
          (let qos = (if qos > 1 then 1 else qos);
               (pid, s) = (if qos > 0 then take_packet_id s else (0, s))
           in send_packet (build_publish 512 t p len qos pid) s)
      | _ \<Rightarrow> (MQTT_ERR_PARAM, s))"

definition mqtt_subscribe :: "u8 list option \<Rightarrow> u8 \<Rightarrow> 'a mqtt_scheme \<Rightarrow> mqtt_err_t \<times> 'a mqtt_scheme" where
  "mqtt_subscribe topic qos s =
     (if s_state s \<noteq> MQTT_ST_CONNECTED then (MQTT_ERR_STATE, s)
      else case topic of
        None \<Rightarrow> (MQTT_ERR_PARAM, s)
      | Some t \<Rightarrow> (let (pid, s) = take_packet_id s in send_packet (build_subscribe 256 t qos pid) s))"

definition mqtt_unsubscribe :: "u8 list option \<Rightarrow> 'a mqtt_scheme \<Rightarrow> mqtt_err_t \<times> 'a mqtt_scheme" where
  "mqtt_unsubscribe topic s =
     (if s_state s \<noteq> MQTT_ST_CONNECTED then (MQTT_ERR_STATE, s)
      else case topic of
        None \<Rightarrow> (MQTT_ERR_PARAM, s)
      | Some t \<Rightarrow> (let (pid, s) = take_packet_id s in send_packet (build_unsubscribe 256 t pid) s))"

definition mqtt_is_connected :: "'a mqtt_scheme \<Rightarrow> bool" where
  "mqtt_is_connected s \<longleftrightarrow> s_state s = MQTT_ST_CONNECTED"


section \<open>Packets in a received block\<close>

definition mqtt_pkt :: "u8 \<times> u8 list \<Rightarrow> u8 list" where
  "mqtt_pkt p = fst p # mqtt_encode_len (of_nat (length (snd p))) @ snd p"

definition rem_len :: "u8 \<times> u8 list \<Rightarrow> nat" where
  "rem_len p = length (mqtt_encode_len (of_nat (length (snd p))))"

lemma decode_go_extend:
  "mqtt_decode_go bs m v i = Some r \<Longrightarrow> mqtt_decode_go (bs @ xs) m v i = Some r \<and> i < snd r \<and> snd r \<le> i + length bs"
proof (induction bs m v i rule: mqtt_decode_go.induct)
  case (2 b bs multiplier "value" i)
  let ?v = "(value :: u32) + ucast (b AND 0x7F) * multiplier"
  have le: "\<not> multiplier > 128 * 128 * 128" using 2(2) by (auto simp: Let_def split: if_splits)
  show ?case
  proof (cases "b AND 0x80 = 0")
    case True
    then show ?thesis using 2(2) le by (auto simp: Let_def)
  next
    case False
    then have "mqtt_decode_go bs (multiplier * 128) ?v (Suc i) = Some r" using 2(2) le by (simp add: Let_def)
    from 2(1) [OF refl le False this] show ?thesis using le False by (simp add: Let_def)
  qed
qed simp

lemma rem_len_pos: "1 \<le> rem_len p"
  unfolding rem_len_def mqtt_encode_len_nat by (rule enc_nat_length(1))

lemma length_mqtt_pkt: "length (mqtt_pkt p) = 1 + rem_len p + length (snd p)"
  by (simp add: mqtt_pkt_def rem_len_def)

lemma decode_pkt:
  assumes "length (snd p) < 2 ^ 28"
  shows "mqtt_decode_len (drop 1 (mqtt_pkt p @ rest)) = Some (of_nat (length (snd p)), rem_len p)"
proof -
  have "unat (of_nat (length (snd p)) :: u32) = length (snd p)" using assms by (intro unat_of_nat_u32) simp
  then have "rem_len p = length (enc_nat (length (snd p)))" by (simp add: rem_len_def mqtt_encode_len_nat)
  then show ?thesis using decode_encode [OF assms, of "snd p @ rest"] by (simp add: mqtt_pkt_def)
qed

lemma handle_rx_packet:
  assumes "length (snd p) < 2 ^ 28"
  shows "handle_rx cb (mqtt_pkt p @ rest) s = handle_rx cb rest (handle_packet cb (mqtt_pkt p) (rem_len p) s)"
proof -
  have u: "unat (of_nat (length (snd p)) :: u32) = length (snd p)" using assms by (intro unat_of_nat_u32) simp
  have "2 \<le> length (mqtt_pkt p)" using rem_len_pos [of p] by (simp add: length_mqtt_pkt)
  then show ?thesis
    unfolding handle_rx.simps [of cb "mqtt_pkt p @ rest"] decode_pkt [OF assms]
    by (simp add: u flip: length_mqtt_pkt [simplified])
qed

lemma handle_rx_partial:
  assumes "length (snd p) < 2 ^ 28" "k < length (mqtt_pkt p)"
  shows "handle_rx cb (take k (mqtt_pkt p)) s = s"
proof (cases "mqtt_decode_len (drop 1 (take k (mqtt_pkt p)))")
  case None
  then show ?thesis by (subst handle_rx.simps) simp
next
  case (Some r)
  have "drop 1 (take k (mqtt_pkt p)) @ drop k (mqtt_pkt p) = drop 1 (mqtt_pkt p)" if "1 \<le> k"
    using that assms(2) by (metis append_take_drop_id drop_append length_take min.absorb2 less_imp_le diff_is_0_eq' drop0)
  moreover have "1 \<le> k" using Some by (cases k) (auto simp: mqtt_decode_len_def)
  ultimately have e: "drop 1 (mqtt_pkt p) = drop 1 (take k (mqtt_pkt p)) @ drop k (mqtt_pkt p)" by simp
  have "mqtt_decode_len (drop 1 (mqtt_pkt p)) = Some r"
    unfolding e using decode_go_extend Some by (auto simp: mqtt_decode_len_def)
  then have r: "r = (of_nat (length (snd p)), rem_len p)" using decode_pkt [OF assms(1), of "[]"] by simp
  have u: "unat (of_nat (length (snd p)) :: u32) = length (snd p)" using assms(1) by (intro unat_of_nat_u32) simp
  show ?thesis using Some assms(2)
    by (subst handle_rx.simps) (simp add: r u length_mqtt_pkt)
qed


lemma handle_rx_stream:
  assumes "\<forall>p \<in> set ps. length (snd p) < 2 ^ 28" "length (snd q) < 2 ^ 28" "k < length (mqtt_pkt q)"
  shows "handle_rx cb (concat (map mqtt_pkt ps) @ take k (mqtt_pkt q)) s
    = fold (\<lambda>p. handle_packet cb (mqtt_pkt p) (rem_len p)) ps s"
  using assms(1)
proof (induction ps arbitrary: s)
  case Nil
  show ?case by (simp add: handle_rx_partial [OF assms(2,3)])
next
  case (Cons p ps)
  then show ?case by (simp add: handle_rx_packet)
qed

section \<open>The contract of the application and what the client keeps\<close>

text \<open>The client's own fields, which the application's callback leaves alone.\<close>

definition mqtt_core :: "'a mqtt_scheme \<Rightarrow> mqtt_state_t \<times> u8 \<times> mqtt_config \<times> u16" where
  "mqtt_core s = (s_state s, s_link_id s, s_config s, s_next_packet_id s)"

lemma more_core:
  fixes s s' :: "'a mqtt_scheme"
  assumes "esp.more s' = esp.more s"
  shows "mqtt_core s' = mqtt_core s" "s_last_ping_ms s' = s_last_ping_ms s" "mqtt.more s' = mqtt.more s"
    "s_rx_buf s' = s_rx_buf s"
  using assms by (cases s; cases s'; simp add: mqtt_core_def)+

lemma mqtt_ok_updates:
  fixes s :: "'a mqtt_scheme"
  shows "esp_ok (s\<lparr>s_state := v\<rparr>) = esp_ok s" "esp_ok (s\<lparr>s_last_ping_ms := t\<rparr>) = esp_ok s"
    "esp_ok (s\<lparr>s_rx_buf := b\<rparr>) = esp_ok s" "esp_ok (s\<lparr>s_link_id := l\<rparr>) = esp_ok s"
    "esp_ok (s\<lparr>s_next_packet_id := n\<rparr>) = esp_ok s" "esp_ok (s\<lparr>s_config := c\<rparr>) = esp_ok s"
    "esp_load (s\<lparr>s_state := v\<rparr>) = esp_load s" "esp_load (s\<lparr>s_last_ping_ms := t\<rparr>) = esp_load s"
    "esp_load (s\<lparr>s_rx_buf := b\<rparr>) = esp_load s" "esp_load (s\<lparr>s_link_id := l\<rparr>) = esp_load s"
    "esp_load (s\<lparr>s_next_packet_id := n\<rparr>) = esp_load s" "esp_load (s\<lparr>s_config := c\<rparr>) = esp_load s"
  by (simp_all add: esp_ok_def esp_load_def)

declare mqtt_ok_updates [simp]

lemma tcp_send_keeps:
  fixes s :: "'a mqtt_scheme"
  assumes "esp_ok s" "esp8266_tcp_send l d n s = (e, s')"
  shows "esp_ok s'" "esp_load s' \<le> esp_load s" "mqtt_core s' = mqtt_core s"
    "s_last_ping_ms s' = s_last_ping_ms s" "mqtt.more s' = mqtt.more s"
    "s_link_state s' = s_link_state s" "s_wifi_connected s' = s_wifi_connected s"
  using tcp_send_quiet [OF assms] more_core [of s' s] by (auto simp: quiet_def)

lemma tcp_close_keeps:
  fixes s :: "'a mqtt_scheme"
  assumes "esp_ok s" "esp8266_tcp_close l s = (e, s')"
  shows "esp_ok s'" "esp_load s' \<le> esp_load s" "mqtt_core s' = mqtt_core s" "s_last_ping_ms s' = s_last_ping_ms s"
proof -
  obtain r s1 where w: "at_wait_for (ascii ''OK'') 3000 (at_send_line (ascii ''AT+CIPCLOSE'') s) = (r, s1)" by fastforce
  note q1 = quiet_line [OF assms(1), of "ascii ''AT+CIPCLOSE''"]
  note q = quiet_trans [OF q1 quiet_wait [OF quiet_ok [OF q1] ascii_Cons w]]
  have "s' = s \<or> s' = s1 \<or> s' = s1\<lparr>s_link_state := (s_link_state s1)[0 := 0]\<rparr>"
    using assms(2) w by (auto simp: esp8266_tcp_close_def split: if_splits option.splits)
  moreover have "set ((s_link_state s1)[0 := 0]) \<subseteq> {0, 1}"
    using quiet_ok [OF q] set_update_subset_insert [of "s_link_state s1" 0 0] by (auto simp: esp_ok_def)
  moreover have "esp_ok s1" "esp_load s1 \<le> esp_load s" "mqtt_core s1 = mqtt_core s" "s_last_ping_ms s1 = s_last_ping_ms s"
    using q more_core [of s1 s] by (auto simp: quiet_def)
  ultimately show "esp_ok s'" "esp_load s' \<le> esp_load s" "mqtt_core s' = mqtt_core s" "s_last_ping_ms s' = s_last_ping_ms s"
    using assms(1) by (auto simp: esp_ok_def esp_load_def mqtt_core_def)
qed

locale mqtt_app =
  fixes cb :: "u8 list \<Rightarrow> u8 list \<Rightarrow> 'a mqtt_scheme \<Rightarrow> 'a mqtt_scheme"
  assumes app_ok: "esp_ok s \<Longrightarrow> esp_ok (cb t p s)"
    and app_load: "esp_ok s \<Longrightarrow> esp_load (cb t p s) \<le> esp_load s"
    and app_core: "mqtt_core (cb t p s) = mqtt_core s"

context mqtt_app
begin

lemma publish_keeps:
  assumes "esp_ok s"
  shows "esp_ok (handle_publish (Some cb) d s)" "esp_load (handle_publish (Some cb) d s) \<le> esp_load s"
    "mqtt_core (handle_publish (Some cb) d s) = mqtt_core s"
proof -
  have "esp_ok (handle_publish (Some cb) d s) \<and> esp_load (handle_publish (Some cb) d s) \<le> esp_load s \<and>
    mqtt_core (handle_publish (Some cb) d s) = mqtt_core s"
  proof (cases "parse_publish d")
    case None
    then show ?thesis using assms by (simp add: handle_publish_def)
  next
    case (Some m)
    let ?s1 = "cb (pub_topic m) (pub_payload m) s"
    obtain e s2 where t: "esp8266_tcp_send (uint (s_link_id ?s1)) (Some (puback (pub_pid m))) 4 ?s1 = (e, s2)" by fastforce
    note a = app_ok [OF assms, of "pub_topic m" "pub_payload m"] app_load [OF assms, of "pub_topic m" "pub_payload m"]
    show ?thesis using Some t a app_core [of "pub_topic m" "pub_payload m" s] tcp_send_keeps [OF a(1) t]
      by (simp add: handle_publish_def Let_def)
  qed
  then show "esp_ok (handle_publish (Some cb) d s)" "esp_load (handle_publish (Some cb) d s) \<le> esp_load s"
    "mqtt_core (handle_publish (Some cb) d s) = mqtt_core s" by auto
qed

lemma packet_keeps:
  assumes "esp_ok s"
  shows "esp_ok (handle_packet (Some cb) d n s)" "esp_load (handle_packet (Some cb) d n s) \<le> esp_load s"
    "snd (mqtt_core (handle_packet (Some cb) d n s)) = snd (mqtt_core s)"
  using publish_keeps [OF assms] assms by (simp_all add: handle_packet_def Let_def mqtt_core_def)

lemma rx_keeps:
  "esp_ok s \<Longrightarrow> esp_ok (handle_rx (Some cb) d s) \<and> esp_load (handle_rx (Some cb) d s) \<le> esp_load s \<and>
    snd (mqtt_core (handle_rx (Some cb) d s)) = snd (mqtt_core s)"
proof (induction "Some cb" d s rule: handle_rx.induct)
  case (1 data s)
  show ?case
  proof (cases "length data < 2 \<or> mqtt_decode_len (drop 1 data) = None")
    case True
    then have "handle_rx (Some cb) data s = s" by (subst handle_rx.simps) auto
    then show ?thesis using 1(2) by simp
  next
    case False
    then obtain rem rb where d: "mqtt_decode_len (drop 1 data) = Some (rem, rb)" "\<not> length data < 2" by auto
    let ?n = "1 + rb + unat rem"
    note k = packet_keeps [OF 1(2), of "take ?n data" rb]
    show ?thesis
    proof (cases "?n > length data")
      case True
      then have "handle_rx (Some cb) data s = s" using d by (subst handle_rx.simps) (simp add: Let_def)
      then show ?thesis using 1(2) by simp
    next
      case False
      note IH = 1(1) [OF d(2) d(1) refl refl False k(1)]
      have e: "handle_rx (Some cb) data s =
          handle_rx (Some cb) (drop ?n data) (handle_packet (Some cb) (take ?n data) rb s)"
        unfolding handle_rx.simps [of "Some cb" data s] using d False by (simp add: Let_def)
      show ?thesis unfolding e using IH k by auto
    qed
  qed
qed

lemma recv_keeps:
  assumes "esp_ok s"
  shows "esp_ok (on_esp_recv (Some cb) l d s)" "esp_load (on_esp_recv (Some cb) l d s) \<le> esp_load s"
    "snd (mqtt_core (on_esp_recv (Some cb) l d s)) = snd (mqtt_core s)"
  using rx_keeps [of "s\<lparr>s_rx_buf := take 512 d\<rparr>" "take 512 d"] assms
  by (simp_all add: on_esp_recv_def Let_def mqtt_core_def)

end

sublocale mqtt_app \<subseteq> rx: recv_client "Some (on_esp_recv (Some cb))"
  by unfold_locales (auto simp: recv_keeps)


context mqtt_app
begin

lemma esp_loop_core:
  assumes "esp_ok s" "esp8266_loop (Some (on_esp_recv (Some cb))) s = Some s'"
  shows "snd (mqtt_core s') = snd (mqtt_core s)"
proof -
  obtain s1 where s1: "parse_ipd_frames (Some (on_esp_recv (Some cb))) s = Some s1" "urc_loop s1 = Some s'"
    using assms(2) by (auto simp: esp8266_loop_def bind_eq_Some_conv)
  have "snd (mqtt_core s1) = snd (mqtt_core s)"
    by (rule parse_ipd_frames_inv [OF rx.recv_ok _ _ assms(1) refl s1(1)])
      (auto simp: recv_keeps, auto simp: mqtt_core_def)
  moreover have "esp_ok s1" using parse_ipd_frames_total [OF rx.recv_ok assms(1)] s1(1) by auto
  then have "esp.more s' = esp.more s1" using urc_loop_rest s1(2) by blast
  then have "mqtt_core s' = mqtt_core s1" by (rule more_core(1))
  ultimately show ?thesis by simp
qed

lemma loop_total:
  assumes "esp_ok s"
  shows "\<exists>s'. mqtt_loop (Some cb) s = Some s' \<and> esp_ok s' \<and> esp_load s' \<le> esp_load s \<and>
    snd (mqtt_core s') = snd (mqtt_core s) \<and>
    (esp_load s' = esp_load s \<and> s_state s \<noteq> MQTT_ST_CONNECTED \<longrightarrow> s' = s)"
proof -
  obtain s1 where s1: "esp8266_loop (Some (on_esp_recv (Some cb))) s = Some s1" "esp_ok s1"
    "esp_load s1 \<le> esp_load s" "esp_load s1 = esp_load s \<longrightarrow> s1 = s"
    using rx.loop_returns [OF assms] by blast
  note core = esp_loop_core [OF assms s1(1)]
  define due where "due \<longleftrightarrow> ticks s1 - s_last_ping_ms s1 \<ge> ucast (s_keepalive (s_config s1)) * 1000"
  obtain e s2 where t: "esp8266_tcp_send (uint (s_link_id s1)) (Some [0xC0, 0]) 2 s1 = (e, s2)" by fastforce
  have ping: "build_pingreq 2 = Some [0xC0, 0]" by (simp add: build_pingreq_def push_bit_eq_mult)
  have l: "mqtt_loop (Some cb) s = Some (if s_state s1 = MQTT_ST_CONNECTED \<and> due
      then s2\<lparr>s_last_ping_ms := ticks s1\<rparr> else s1)"
    by (simp add: mqtt_loop_def s1(1) Let_def ping t due_def)
  show ?thesis
  proof (cases "s_state s1 = MQTT_ST_CONNECTED \<and> due")
    case False
    then show ?thesis using l s1 core by auto
  next
    case True
    have "mqtt_core (s2\<lparr>s_last_ping_ms := ticks s1\<rparr>) = mqtt_core s2" by (simp add: mqtt_core_def)
    then show ?thesis using l True s1 core tcp_send_keeps [OF s1(2) t] by auto
  qed
qed

end

lemma spin_facts:
  assumes "ring_ok (s_rx s)"
  shows "rx_only s (spin s)" "ring_ok (s_rx (spin s))" "ticks (spin s) = ticks s + 1"
    "esp_load (spin s) \<le> esp_load s"
proof -
  show "rx_only s (spin s)" "ticks (spin s) = ticks s + 1"
    by (cases "uart_in s"; simp add: spin_def irq_fold rx_only_def)+
  show "ring_ok (s_rx (spin s))"
    using assms esp_ring.burst [OF assms] by (cases "uart_in s") (simp_all add: spin_def irq_fold)
  show "esp_load (spin s) \<le> esp_load s"
  proof (cases "uart_in s")
    case (Cons c cs)
    then show ?thesis using esp_ring.burst_length [OF assms, of c]
      by (simp add: spin_def irq_fold esp_load_def del: length_ring_bytes)
  qed (simp add: spin_def esp_load_def)
qed

lemma spin_core:
  fixes s :: "'a mqtt_scheme"
  shows "ring_ok (s_rx s) \<Longrightarrow> mqtt_core (spin s) = mqtt_core s"
  using spin_facts(1) [of s] rx_only_fields(4) more_core(1) by blast

lemma wait_measure:
  assumes "esp_load s1 \<le> esp_load s" "esp_load s1 = esp_load s \<longrightarrow> s1 = s"
    "ticks (spin s1) = ticks s1 + 1" "esp_load (spin s1) \<le> esp_load s1" "ticks s - start < 10000"
  shows "((esp_load (spin s1), 10000 - unat (ticks (spin s1) - start)),
    (esp_load s, 10000 - unat (ticks s - start))) \<in> {(x, y). x < y} <*lex*> {(x, y). x < y}"
proof (cases "esp_load (spin s1) = esp_load s")
  case True
  then have "s1 = s" using assms(1,2,4) by simp
  then have t: "ticks (spin s1) = ticks s + of_nat 1" using assms(3) by simp
  have el: "unat (ticks s - start) < 10000" using assms(5) by (simp add: word_less_nat_alt)
  have "unat (ticks (spin s1) - start) = unat (ticks s - start) + 1"
    by (rule elapsed_step [OF el t]) simp_all
  then show ?thesis using True el by simp
next
  case False
  then show ?thesis using assms(1,4) by simp
qed

context mqtt_app
begin

lemma wait_connack_total:
  assumes "esp_ok s"
  shows "\<exists>e s'. wait_connack (Some cb) start s = Some (e, s') \<and> esp_ok s' \<and>
    snd (mqtt_core s') = snd (mqtt_core s) \<and>
    (e = MQTT_OK \<and> s_state s' = MQTT_ST_CONNECTED \<or>
     e \<in> {MQTT_ERR_RESP, MQTT_ERR_TIMEOUT} \<and> s_state s' = MQTT_ST_DISCONNECTED)"
  using assms
proof (induction "(esp_load s, 10000 - unat (ticks s - start))" arbitrary: s rule: wf_induct_rule [OF wf_lex_prod [OF wf_less wf_less]])
  case (1 s)
  have close: "esp_ok (snd (esp8266_tcp_close l s))" "mqtt_core (snd (esp8266_tcp_close l s)) = mqtt_core s" for l
    using tcp_close_keeps [OF 1(2)] by (metis prod.collapse)+
  consider (late) "\<not> ticks s - start < 10000" | (conn) "ticks s - start < 10000" "s_state s = MQTT_ST_CONNECTED"
    | (gone) "ticks s - start < 10000" "s_state s = MQTT_ST_DISCONNECTED"
    | (wait) "ticks s - start < 10000" "s_state s \<noteq> MQTT_ST_CONNECTED" "s_state s \<noteq> MQTT_ST_DISCONNECTED" by blast
  then show ?case
  proof cases
    case late
    then show ?thesis using close
      by (subst wait_connack.simps) (simp add: Let_def mqtt_core_def)
  next
    case conn
    then show ?thesis using 1(2) by (subst wait_connack.simps) simp
  next
    case gone
    then show ?thesis using close by (subst wait_connack.simps) (simp add: mqtt_core_def)
  next
    case wait
    obtain s1 where s1: "mqtt_loop (Some cb) s = Some s1" "esp_ok s1" "esp_load s1 \<le> esp_load s"
      "snd (mqtt_core s1) = snd (mqtt_core s)" "esp_load s1 = esp_load s \<longrightarrow> s1 = s"
      using loop_total [OF 1(2)] wait(2) by blast
    have rok: "ring_ok (s_rx s1)" using s1(2) by (simp add: esp_ok_def)
    note sp = spin_facts [OF rok]
    have ok2: "esp_ok (spin s1)" by (rule rx_only_ok [OF sp(1,2) s1(2)])
    have m: "((esp_load (spin s1), 10000 - unat (ticks (spin s1) - start)),
        (esp_load s, 10000 - unat (ticks s - start))) \<in> {(x, y). x < y} <*lex*> {(x, y). x < y}"
      by (rule wait_measure [OF s1(3,5) sp(3,4) wait(1)])
    have "wait_connack (Some cb) start s = wait_connack (Some cb) start (spin s1)"
      using wait s1(1) by (subst wait_connack.simps) simp
    then show ?thesis using 1(1) [OF m ok2] spin_core [OF rok] s1(4) by simp
  qed
qed

end


lemma take_id_keeps [simp]:
  fixes s :: "'a mqtt_scheme"
  shows "esp_ok (snd (take_packet_id s)) = esp_ok s" "esp_load (snd (take_packet_id s)) = esp_load s"
    "s_state (snd (take_packet_id s)) = s_state s" "s_link_id (snd (take_packet_id s)) = s_link_id s"
    "s_config (snd (take_packet_id s)) = s_config s" "uart_tx (snd (take_packet_id s)) = uart_tx s"
  by (simp_all add: take_packet_id_def Let_def)

lemma next_id_nat: "unat (n :: u16) \<noteq> 0 \<Longrightarrow>
    unat (if n + 1 = 0 then 1 else n + 1) = unat n mod 65535 + 1"
proof -
  assume nz: "unat n \<noteq> 0"
  have lt: "unat n < 2 ^ LENGTH(16)" by (rule unsigned_less)
  show ?thesis
  proof (cases "unat n = 65535")
    case True
    then have "n = of_nat 65535" by (metis of_nat_unat ucast_id)
    then show ?thesis using True by simp
  next
    case False
    then have u: "unat (n + 1) = unat n + 1" using lt by (subst unat_add_lem [THEN iffD1]) simp_all
    then have "n + 1 \<noteq> 0" by (metis unat_0 add_is_0 one_neq_zero)
    then show ?thesis using u False lt by simp
  qed
qed

lemma take_id_next: "s_next_packet_id s \<noteq> 0 \<Longrightarrow> unat (s_next_packet_id (snd (take_packet_id s)))
    = unat (s_next_packet_id s) mod 65535 + 1"
  using next_id_nat [of "s_next_packet_id s"] by (simp add: take_packet_id_def Let_def unat_eq_0)

section \<open>Reachable states\<close>

definition mqtt_ok :: "'a mqtt_scheme \<Rightarrow> bool" where
  "mqtt_ok s \<longleftrightarrow> esp_ok s \<and> s_next_packet_id s \<noteq> 0 \<and> s_link_id s = 0"

inductive mqtt_step :: "(u8 list \<Rightarrow> u8 list \<Rightarrow> 'a mqtt_scheme \<Rightarrow> 'a mqtt_scheme) \<Rightarrow> 'a mqtt_scheme \<Rightarrow> 'a mqtt_scheme \<Rightarrow> bool"
  for cb where
  step_init: "mqtt_step cb s (snd (mqtt_client_init c u p k s))"
| step_loop: "mqtt_loop (Some cb) s = Some s' \<Longrightarrow> mqtt_step cb s s'"
| step_connect: "mqtt_connect_broker (Some cb) host port s = Some (e, s') \<Longrightarrow> mqtt_step cb s s'"
| step_disconnect: "mqtt_step cb s (snd (mqtt_disconnect s))"
| step_publish: "mqtt_step cb s (snd (mqtt_publish t d n q s))"
| step_subscribe: "mqtt_step cb s (snd (mqtt_subscribe t q s))"
| step_unsubscribe: "mqtt_step cb s (snd (mqtt_unsubscribe t s))"
| step_time: "mqtt_step cb s (spin s)"

inductive_cases mqtt_stepE: "mqtt_step cb s s'"

lemma mqtt_ok_core: "esp_ok s' \<Longrightarrow> mqtt_core s' = mqtt_core s \<Longrightarrow> mqtt_ok s \<Longrightarrow> mqtt_ok s'"
  by (simp add: mqtt_ok_def mqtt_core_def)

lemma mqtt_ok_core2: "esp_ok s' \<Longrightarrow> snd (mqtt_core s') = snd (mqtt_core s) \<Longrightarrow> mqtt_ok s \<Longrightarrow> mqtt_ok s'"
  by (simp add: mqtt_ok_def mqtt_core_def)

lemma send_packet_keeps:
  fixes s :: "'a mqtt_scheme"
  assumes "esp_ok s"
  shows "esp_ok (snd (send_packet p s))" "mqtt_core (snd (send_packet p s)) = mqtt_core s"
proof -
  have "esp_ok (snd (send_packet p s)) \<and> mqtt_core (snd (send_packet p s)) = mqtt_core s"
  proof (cases p)
    case None
    then show ?thesis using assms by (simp add: send_packet_def)
  next
    case (Some b)
    obtain e s' where t: "esp8266_tcp_send (uint (s_link_id s)) (Some b) (of_nat (length b)) s = (e, s')" by fastforce
    then show ?thesis using Some tcp_send_keeps [OF assms t] by (simp add: send_packet_def)
  qed
  then show "esp_ok (snd (send_packet p s))" "mqtt_core (snd (send_packet p s)) = mqtt_core s" by auto
qed

lemma take_id_ok: "mqtt_ok s \<Longrightarrow> mqtt_ok (snd (take_packet_id s))"
  using take_id_next [of s] by (auto simp: mqtt_ok_def)

lemma mq_send_ok: "mqtt_ok s \<Longrightarrow> mqtt_ok (snd (send_packet p s))"
  using send_packet_keeps [of s p] mqtt_ok_core by (auto simp: mqtt_ok_def mqtt_core_def)

lemma publish_ok: "mqtt_ok s \<Longrightarrow> mqtt_ok (snd (mqtt_publish t d n q s))"
  using mq_send_ok mq_send_ok [OF take_id_ok]
  by (auto simp: mqtt_publish_def Let_def split_beta split: option.split)

lemma subscribe_ok:
  "mqtt_ok s \<Longrightarrow> mqtt_ok (snd (mqtt_subscribe t q s))" "mqtt_ok s \<Longrightarrow> mqtt_ok (snd (mqtt_unsubscribe t s))"
  using mq_send_ok [OF take_id_ok]
  by (auto simp: mqtt_subscribe_def mqtt_unsubscribe_def Let_def split_beta split: option.split)

lemma disconnect_ok:
  assumes "mqtt_ok s"
  shows "mqtt_ok (snd (mqtt_disconnect s))"
proof -
  have ok: "esp_ok s" using assms by (simp add: mqtt_ok_def)
  define s1 where "s1 = (case build_disconnect 2 of None \<Rightarrow> s
     | Some buf \<Rightarrow> snd (esp8266_tcp_send (uint (s_link_id s)) (Some buf) (of_nat (length buf)) s))"
  have "esp_ok s1 \<and> mqtt_core s1 = mqtt_core s"
    using ok tcp_send_keeps(1,3) [OF ok prod.collapse [symmetric]] by (auto simp: s1_def split: option.split)
  then have "mqtt_ok s1" using assms mqtt_ok_core by blast
  then have "mqtt_ok (snd (esp8266_tcp_close (uint (s_link_id s1)) s1))"
    using tcp_close_keeps(1,3) [of s1, OF _ prod.collapse [symmetric]] mqtt_ok_core by (auto simp: mqtt_ok_def mqtt_core_def)
  then show ?thesis using assms by (auto simp: mqtt_disconnect_def Let_def s1_def [symmetric]) (simp_all add: mqtt_ok_def)
qed

context mqtt_app
begin

lemma connect_total:
  assumes "esp_ok s"
  shows "\<exists>e s'. mqtt_connect_broker (Some cb) host port s = Some (e, s') \<and> esp_ok s' \<and>
    s_next_packet_id s' = s_next_packet_id s \<and> (s_link_id s' = s_link_id s \<or> s_link_id s' = 0) \<and>
    (e = MQTT_OK \<longrightarrow> mqtt_is_connected s') \<and>
    (e \<noteq> MQTT_OK \<longrightarrow> s_state s' = s_state s \<or> s_state s' \<in> {MQTT_ST_DISCONNECTED, MQTT_ST_TCP_OPEN})"
proof (cases "host = None \<or> esp8266_wifi_is_connected s = 0")
  case True
  then show ?thesis using assms by (auto simp: mqtt_connect_broker_def)
next
  case False
  obtain r s1 where c: "esp8266_tcp_connect host port s = Some (r, s1)" "esp_ok s1" "esp.more s1 = esp.more s"
    "r = 0 \<or> r = -1" using tcp_connect_total [OF assms, of host port] by auto
  note core = more_core(1) [OF c(3)]
  define s2 where "s2 = s1\<lparr>s_link_id := 0, s_state := MQTT_ST_TCP_OPEN\<rparr>"
  have ok2: "esp_ok s2" using c(2) by (simp add: s2_def)
  show ?thesis
  proof (cases "r = 0")
    case r0: False
    then show ?thesis using c False core by (auto simp: mqtt_connect_broker_def mqtt_core_def)
  next
    case r0: True
    show ?thesis
    proof (cases "build_connect (s_config s2) 256")
      case None
      then show ?thesis using c False core r0 ok2
        by (auto simp: mqtt_connect_broker_def mqtt_core_def Let_def s2_def [symmetric]) (auto simp: s2_def)
    next
      case (Some buf)
      let ?s3 = "s2\<lparr>s_state := MQTT_ST_CONNECT_SENT\<rparr>"
      obtain e s4 where t: "esp8266_tcp_send (uint (s_link_id s2)) (Some buf) (of_nat (length buf)) ?s3 = (e, s4)" by fastforce
      have "esp_ok ?s3" using ok2 by simp
      note k = tcp_send_keeps(1,3) [OF this t]
      have u: "mqtt_connect_broker (Some cb) host port s =
          (if e \<noteq> ESP_OK then Some (MQTT_ERR_NET, s4\<lparr>s_state := MQTT_ST_DISCONNECTED\<rparr>)
           else wait_connack (Some cb) (ticks s4) s4)"
        using c False r0 Some t by (auto simp: mqtt_connect_broker_def Let_def s2_def)
      have f: "s_next_packet_id s4 = s_next_packet_id s" "s_link_id s4 = 0"
        using k(2) core by (simp_all add: mqtt_core_def s2_def)
      show ?thesis
      proof (cases "e = ESP_OK")
        case False
        then show ?thesis using u f k(1) by simp
      next
        case True
        from wait_connack_total [OF k(1), of "ticks s4"] obtain e' s5 where
          w: "wait_connack (Some cb) (ticks s4) s4 = Some (e', s5)" "esp_ok s5" "snd (mqtt_core s5) = snd (mqtt_core s4)"
          "e' = MQTT_OK \<and> s_state s5 = MQTT_ST_CONNECTED \<or>
             e' \<in> {MQTT_ERR_RESP, MQTT_ERR_TIMEOUT} \<and> s_state s5 = MQTT_ST_DISCONNECTED" by blast
        then show ?thesis using u True f by (auto simp: mqtt_core_def mqtt_is_connected_def)
      qed
    qed
  qed
qed

lemma step_ok: "mqtt_step cb s s' \<Longrightarrow> mqtt_ok s \<Longrightarrow> mqtt_ok s'"
proof (erule mqtt_stepE)
  assume ok: "mqtt_ok s"
  then have eok: "esp_ok s" by (simp add: mqtt_ok_def)
  show "mqtt_ok s'" if "s' = snd (mqtt_client_init c u p k s)" for c u p k
    using that ok by (auto simp: mqtt_client_init_def mqtt_ok_def split: option.split)
  show "mqtt_ok s'" if "mqtt_loop (Some cb) s = Some s'"
    using loop_total [OF eok] that mqtt_ok_core2 [OF _ _ ok] by auto
  show "mqtt_ok s'" if "mqtt_connect_broker (Some cb) host port s = Some (e, s')" for host port e
    using connect_total [OF eok, of host port] that ok by (auto simp: mqtt_ok_def)
  show "mqtt_ok s'" if "s' = snd (mqtt_disconnect s)" using disconnect_ok [OF ok] that by simp
  show "mqtt_ok s'" if "s' = snd (mqtt_publish t d n q s)" for t d n q using publish_ok [OF ok] that by simp
  show "mqtt_ok s'" if "s' = snd (mqtt_subscribe t q s)" for t q using subscribe_ok [OF ok] that by simp
  show "mqtt_ok s'" if "s' = snd (mqtt_unsubscribe t s)" for t using subscribe_ok [OF ok] that by simp
  show "mqtt_ok s'" if "s' = spin s"
  proof -
    have rok: "ring_ok (s_rx s)" using eok by (simp add: esp_ok_def)
    note sp = spin_facts [OF rok]
    show ?thesis using that mqtt_ok_core [OF rx_only_ok [OF sp(1,2) eok] spin_core [OF rok] ok] by simp
  qed
qed

end


section \<open>Properties\<close>

text \<open>An application that records the messages it is given.\<close>

record mqtt_recorder = mqtt +
  messages :: "(u8 list \<times> u8 list) list"

definition record_msg :: "u8 list \<Rightarrow> u8 list \<Rightarrow> mqtt_recorder \<Rightarrow> mqtt_recorder" where
  "record_msg t p s = s\<lparr>messages := messages s @ [(t, p)]\<rparr>"

interpretation rec_app: mqtt_app record_msg
  by unfold_locales (auto simp: record_msg_def esp_ok_def esp_load_def mqtt_core_def)

definition mqtt_boot :: mqtt_recorder where
  "mqtt_boot = \<lparr>s_rx = ring_init, s_wifi_connected = 1, s_link_state = replicate 5 0, uart_tx = [],
     uart_in = [], ticks = 0, s_state = MQTT_ST_CONNECTED, s_link_id = 0,
     s_config = \<lparr>s_client_id = [103], s_user = [], s_pass = [], s_keepalive = 10\<rparr>,
     s_last_ping_ms = 0, s_next_packet_id = 1, s_rx_buf = [], messages = []\<rparr>"

lemma mqtt_boot_ok: "mqtt_ok mqtt_boot" "esp_ok mqtt_boot"
  by (simp_all add: mqtt_ok_def mqtt_boot_def esp_ok_def ring_init_ok)

text \<open>A received block is handled packet by packet, in order; a last packet that is not
  complete in the block is not handled, and nothing of it is kept for the next block.\<close>

theorem received_block_handled:
  assumes "\<forall>p \<in> set ps. length (snd p) < 2 ^ 28" and "length (snd q) < 2 ^ 28" and "k < length (mqtt_pkt q)"
    and "length (concat (map mqtt_pkt ps) @ take k (mqtt_pkt q)) \<le> 512" and "link = uint (s_link_id s)"
  shows "on_esp_recv cb link (concat (map mqtt_pkt ps) @ take k (mqtt_pkt q)) s =
    fold (\<lambda>p. handle_packet cb (mqtt_pkt p) (rem_len p)) ps
      (s\<lparr>s_rx_buf := concat (map mqtt_pkt ps) @ take k (mqtt_pkt q)\<rparr>)"
proof -
  let ?d = "concat (map mqtt_pkt ps) @ take k (mqtt_pkt q)"
  have d: "take 512 ?d = ?d" by (rule take_all [OF assms(4)])
  show ?thesis unfolding on_esp_recv_def Let_def d using assms(5) handle_rx_stream [OF assms(1-3)] by simp
qed

lemma received_block_handled_witness:
  "s_last_ping_ms (on_esp_recv (Some record_msg) 0 ([0xD0, 0] @ [0xD0]) (mqtt_boot\<lparr>ticks := 7\<rparr>)) = 7"
proof -
  have p: "mqtt_pkt (0xD0, []) = [0xD0, 0]" "rem_len (0xD0, []) = 1"
    by (simp_all add: mqtt_pkt_def rem_len_def mqtt_encode_len.simps [of 0])
  have "on_esp_recv (Some record_msg) 0 (concat (map mqtt_pkt [(0xD0, [])]) @ take 1 (mqtt_pkt (0xD0, [])))
      (mqtt_boot\<lparr>ticks := 7\<rparr>) =
    fold (\<lambda>p. handle_packet (Some record_msg) (mqtt_pkt p) (rem_len p)) [(0xD0, [])]
      (mqtt_boot\<lparr>ticks := 7, s_rx_buf := concat (map mqtt_pkt [(0xD0, [])]) @ take 1 (mqtt_pkt (0xD0, []))\<rparr>)"
    by (subst received_block_handled) (simp_all add: p mqtt_boot_def)
  then show ?thesis by (simp add: p handle_packet_def Let_def mqtt_boot_def drop_bit_eq_div)
qed

text \<open>Opening the MQTT session returns whatever the module and the broker do, for every
  application that keeps its part of the contract; it reports success only in the connected
  state and leaves a packet-id counter and link number that later operations can use.\<close>

theorem mqtt_connect_returns:
  assumes "mqtt_app cb" and "esp_ok s"
  shows "\<exists>e s'. mqtt_connect_broker (Some cb) host port s = Some (e, s') \<and> esp_ok s' \<and>
    s_next_packet_id s' = s_next_packet_id s \<and> (s_link_id s' = s_link_id s \<or> s_link_id s' = 0) \<and>
    (e = MQTT_OK \<longrightarrow> mqtt_is_connected s') \<and>
    (e \<noteq> MQTT_OK \<longrightarrow> s_state s' = s_state s \<or> s_state s' \<in> {MQTT_ST_DISCONNECTED, MQTT_ST_TCP_OPEN})"
  by (rule mqtt_app.connect_total [OF assms])

lemma mqtt_connect_returns_witness:
  "\<exists>e s'. mqtt_connect_broker (Some record_msg) (Some [104]) 1883 mqtt_boot = Some (e, s')"
  using mqtt_connect_returns [OF rec_app.mqtt_app_axioms mqtt_boot_ok(2)] by blast

text \<open>In every state reachable by any interleaving of the client's operations, the driver's
  invariant holds, the next packet id is never the forbidden 0 and the client stays on link 0,
  whatever the module sends.\<close>

theorem mqtt_reachable_ok:
  assumes "mqtt_app cb" and "mqtt_ok s" and "(mqtt_step cb)\<^sup>*\<^sup>* s s'"
  shows "mqtt_ok s'"
  using assms(3,2) by (induction rule: rtranclp_induct) (auto intro: mqtt_app.step_ok [OF assms(1)])

lemma mqtt_reachable_ok_witness:
  "mqtt_ok (spin (snd (mqtt_subscribe (Some [97]) 0 mqtt_boot)))"
  by (rule mqtt_reachable_ok [OF rec_app.mqtt_app_axioms mqtt_boot_ok(1)])
    (meson step_subscribe step_time rtranclp.rtrancl_into_rtrancl rtranclp.rtrancl_refl)

text \<open>Packet ids run through 1 to 65535 in a cycle: the k-th id taken from now on is the
  k-th successor of the next one, so an id repeats only after 65535 others.\<close>

theorem packet_id_cycle:
  assumes "s_next_packet_id s \<noteq> 0"
  shows "unat (fst (take_packet_id (((\<lambda>s. snd (take_packet_id s)) ^^ k) s)))
    = (unat (s_next_packet_id s) - 1 + k) mod 65535 + 1"
proof -
  have nz: "unat (s_next_packet_id s) \<noteq> 0" using assms by (simp add: unat_eq_0)
  have lt: "unat (s_next_packet_id s) < 2 ^ LENGTH(16)" by (rule unsigned_less)
  have "s_next_packet_id (((\<lambda>s. snd (take_packet_id s)) ^^ k) s) \<noteq> 0 \<and>
    unat (s_next_packet_id (((\<lambda>s. snd (take_packet_id s)) ^^ k) s)) = (unat (s_next_packet_id s) - 1 + k) mod 65535 + 1"
  proof (induction k)
    case 0
    then show ?case using nz assms lt by simp
  next
    case (Suc k)
    let ?t = "((\<lambda>s. snd (take_packet_id s)) ^^ k) s"
    have "unat (s_next_packet_id (snd (take_packet_id ?t))) = unat (s_next_packet_id ?t) mod 65535 + 1"
      using take_id_next [of ?t] Suc by blast
    also have "\<dots> = (unat (s_next_packet_id s) - 1 + Suc k) mod 65535 + 1"
      using Suc by (simp add: mod_Suc_eq)
    finally have u: "unat (s_next_packet_id (snd (take_packet_id ?t))) = (unat (s_next_packet_id s) - 1 + Suc k) mod 65535 + 1" .
    then have "s_next_packet_id (snd (take_packet_id ?t)) \<noteq> 0" by (metis unat_0 add_is_0 one_neq_zero)
    with u show ?case by simp
  qed
  then show ?thesis by (simp add: take_packet_id_def Let_def)
qed

lemma packet_id_cycle_witness:
  "unat (fst (take_packet_id (((\<lambda>s. snd (take_packet_id s)) ^^ 65535) mqtt_boot))) = 1"
  using packet_id_cycle [of mqtt_boot 65535] by (simp add: mqtt_boot_def)

lemma publish_wire:
  assumes "mqtt_ok s" and "mqtt_publish (Some topic) (Some payload) len qos s = (e, s')"
    and "length topic < 128" and "length payload = unat len"
  shows "(\<not> mqtt_is_connected s \<longrightarrow> e = MQTT_ERR_STATE \<and> s' = s) \<and>
    (e = MQTT_OK \<longrightarrow> (\<exists>cmd pkt. uart_tx s' = uart_tx s @ [cmd, pkt] \<and>
       parse_publish pkt = Some \<lparr>pub_qos = min qos 1, pub_topic = topic,
         pub_pid = (if qos = 0 then 0 else s_next_packet_id s), pub_payload = payload\<rparr>))"
proof (cases "s_state s = MQTT_ST_CONNECTED")
  case False
  then show ?thesis using assms(2) by (auto simp: mqtt_publish_def mqtt_is_connected_def)
next
  case True
  define q :: u8 where "q = (if qos > 1 then 1 else qos)"
  have q: "q = min qos 1" "q \<le> 1" by (auto simp: q_def min_def)
  have q0: "q > 0 \<longleftrightarrow> qos \<noteq> 0" by (auto simp: q_def word_greater_zero_iff)
  define t where "t = (if q > 0 then take_packet_id s else (0, s))"
  have t: "esp_ok (snd t)" "uart_tx (snd t) = uart_tx s" "s_link_id (snd t) = s_link_id s"
    "fst t = (if qos = 0 then 0 else s_next_packet_id s)"
    using assms(1) q0 by (auto simp: t_def mqtt_ok_def) (simp_all add: take_packet_id_def Let_def)
  have p: "send_packet (build_publish 512 topic payload len q (fst t)) (snd t) = (e, s')"
    using assms(2) True by (simp add: mqtt_publish_def Let_def q_def [symmetric] t_def [symmetric] split_beta)
  show ?thesis
  proof (cases "e = MQTT_OK")
    case False
    then show ?thesis using True by (simp add: mqtt_is_connected_def)
  next
    case e: True
    obtain pkt where b: "build_publish 512 topic payload len q (fst t) = Some pkt"
      using p e by (cases "build_publish 512 topic payload len q (fst t)") (auto simp: send_packet_def)
    obtain e1 s1 where w: "esp8266_tcp_send (uint (s_link_id (snd t))) (Some pkt) (of_nat (length pkt)) (snd t) = (e1, s1)" by fastforce
    have "e1 = ESP_OK" "s1 = s'" using p e b w by (auto simp: send_packet_def split: if_splits)
    then obtain cmd where tx: "uart_tx s' = uart_tx s @ [cmd, take (unat (of_nat (length pkt) :: u16)) pkt]"
      using tcp_send_quiet [OF t(1) w] t(2) by (auto simp: quiet_def)
    have "length pkt \<le> 512"
      using build_publish_length [OF b] .
    then have "unat (of_nat (length pkt) :: u16) = length pkt" by (intro unat_of_nat_u16) simp
    moreover have "parse_publish pkt = Some \<lparr>pub_qos = q, pub_topic = topic,
        pub_pid = (if q > 0 then fst t else 0), pub_payload = payload\<rparr>"
      by (rule publish_packet_roundtrip [OF b q(2) assms(3,4)])
    ultimately show ?thesis using tx True q(1) q0 t(4) by (auto simp: mqtt_is_connected_def)
  qed
qed

text \<open>A publish that reports success has put on the wire, after the length announcement, a
  packet that a broker reads back as exactly the topic, payload and quality of service asked
  for, with a non-zero packet id when one is needed; in any other state than connected nothing
  is sent.\<close>

theorem publish_end_to_end:
  assumes "mqtt_ok s" and "mqtt_publish (Some topic) (Some payload) len qos s = (e, s')"
    and "length topic < 128" and "length payload = unat len"
  shows "(\<not> mqtt_is_connected s \<longrightarrow> e = MQTT_ERR_STATE \<and> s' = s) \<and>
    (e = MQTT_OK \<longrightarrow> (\<exists>cmd pkt. uart_tx s' = uart_tx s @ [cmd, pkt] \<and>
       parse_publish pkt = Some \<lparr>pub_qos = min qos 1, pub_topic = topic,
         pub_pid = (if qos = 0 then 0 else s_next_packet_id s), pub_payload = payload\<rparr>))"
  by (rule publish_wire [OF assms])

lemma publish_end_to_end_witness:
  "\<exists>e s'. mqtt_publish (Some [97]) (Some [1]) 1 0 mqtt_boot = (e, s') \<and>
     (e = MQTT_OK \<longrightarrow> (\<exists>cmd pkt. uart_tx s' = [cmd, pkt]))"
proof -
  obtain e s' where p: "mqtt_publish (Some [97]) (Some [1]) 1 0 mqtt_boot = (e, s')" by fastforce
  have "uart_tx mqtt_boot = []" by (simp add: mqtt_boot_def)
  then show ?thesis using publish_end_to_end [OF mqtt_boot_ok(1) p] p by auto
qed

text \<open>Losing the TCP connection goes unnoticed by the MQTT layer: when the module reports
  \<open>CLOSED\<close> the driver marks the link as down, but the client still counts as connected.\<close>

theorem link_loss_unnoticed:
  assumes "esp_ok s" and "ring_bytes (s_rx s) = ascii ''CLOSED'' @ [CR, LF]" and "mqtt_is_connected s"
  shows "\<exists>s'. esp8266_loop recv s = Some s' \<and> esp8266_is_link_up 0 s' = 0 \<and> mqtt_is_connected s'"
proof -
  let ?bs = "[67, 76, 79, 83, 69, 68, 13, 10] :: u8 list"
  have bs: "ring_bytes (s_rx s) = ?bs" using assms(2) by (simp add: ascii_def)
  have rok: "ring_ok (s_rx s)" using assms(1) by (simp add: esp_ok_def)
  have "find_sub (ascii ''+IPD,'') ?bs = None" by (simp add: ipd_prefix)
  then have "ipd_step recv s = (False, s)"
    unfolding ipd_step_def Let_def bs by (simp del: find_sub.simps)
  then have frames: "parse_ipd_frames recv s = Some s" by (subst parse_ipd_frames.simps) simp
  obtain r where r: "ring_copy_out (s_rx s) 8 = (?bs, r)" "ring_bytes r = []"
    using ring_copy_out_spec(1,2) [OF rok, of 8] bs by (cases "ring_copy_out (s_rx s) 8") simp
  have "urc_text ?bs = ascii ''CLOSED''" by (simp add: urc_text_def cstr_def ascii_def)
  moreover have "urc_line (ascii ''CLOSED'') t = t\<lparr>s_link_state := (s_link_state t)[0 := 0]\<rparr>" for t :: "'a mqtt_scheme"
    by (simp add: urc_line_def ascii_def)
  ultimately have step: "urc_step s = (True, s\<lparr>s_rx := r, s_link_state := (s_link_state s)[0 := 0]\<rparr>)"
    unfolding urc_step_def Let_def bs by (simp add: r(1))
  have "urc_step (s\<lparr>s_rx := r, s_link_state := (s_link_state s)[0 := 0]\<rparr>)
      = (False, s\<lparr>s_rx := r, s_link_state := (s_link_state s)[0 := 0]\<rparr>)"
    unfolding urc_step_def Let_def by (simp add: r(2) del: length_ring_bytes)
  then have "urc_loop s = Some (s\<lparr>s_rx := r, s_link_state := (s_link_state s)[0 := 0]\<rparr>)"
    using step by (subst urc_loop.simps) (simp add: urc_loop.simps)
  then show ?thesis using frames assms(1,3)
    by (simp add: esp8266_loop_def esp8266_is_link_up_def mqtt_is_connected_def esp_ok_def)
qed

lemma link_loss_unnoticed_witness:
  "\<exists>s'. esp8266_loop None (mqtt_boot\<lparr>s_rx := fold (\<lambda>b r. snd (ring_push r b)) (ascii ''CLOSED'' @ [CR, LF]) ring_init\<rparr>)
     = Some s' \<and> mqtt_is_connected s'"
proof -
  let ?r = "fold (\<lambda>b r. snd (ring_push r b)) (ascii ''CLOSED'' @ [CR, LF]) ring_init"
  have r: "ring_ok ?r" "ring_bytes ?r = ascii ''CLOSED'' @ [CR, LF]"
    using esp_ring.burst [OF ring_init_ok(1), of "ascii ''CLOSED'' @ [CR, LF]"] ring_init_ok(2)
    by (simp_all del: fold_append)
  have "esp_ok (mqtt_boot\<lparr>s_rx := ?r\<rparr>)" using mqtt_boot_ok(2) r(1) by (simp add: esp_ok_def)
  then show ?thesis
    using link_loss_unnoticed [of "mqtt_boot\<lparr>s_rx := ?r\<rparr>" None] r(2) by (auto simp: mqtt_is_connected_def mqtt_boot_def)
qed

text \<open>Configuring the client copies at most 63 characters of each text and keeps the
  low byte of the keep-alive time (10 s for 0): from 256 s on the interval is not the one
  asked for, and a multiple of 256 gives none at all.\<close>

theorem client_init_config:
  "mqtt_client_init (Some cid) user pass keepalive s =
     (MQTT_OK, s\<lparr>s_config := s_config (snd (mqtt_client_init (Some cid) user pass keepalive s)),
        s_state := MQTT_ST_IDLE, s_last_ping_ms := ticks s\<rparr>) \<and>
   (let c = s_config (snd (mqtt_client_init (Some cid) user pass keepalive s)) in
    s_client_id c = take 63 (cstr cid) \<and> length (s_user c) \<le> 63 \<and> length (s_pass c) \<le> 63 \<and>
    uint (s_keepalive c) = (if keepalive = 0 then 10 else uint keepalive mod 256))"
  by (auto simp: mqtt_client_init_def copy64_def Let_def unsigned_ucast_eq take_bit_eq_mod split: option.split)

text \<open>The keep-alive: after the driver's periodic work, a connected client sends a PINGREQ
  and restarts the interval exactly when the interval is over; otherwise nothing more happens.\<close>

theorem ping_when_due:
  assumes "esp_ok s" and "esp8266_loop (Some (on_esp_recv cb)) s0 = Some s" and "mqtt_loop cb s0 = Some s'"
  shows "if mqtt_is_connected s \<and> uint (ticks s - s_last_ping_ms s) \<ge> 1000 * uint (s_keepalive (s_config s))
    then s_last_ping_ms s' = ticks s \<and> mqtt_core s' = mqtt_core s \<and>
      (\<exists>e s1. esp8266_tcp_send (uint (s_link_id s)) (Some [0xC0, 0]) 2 s = (e, s1) \<and> uart_tx s' = uart_tx s1)
    else s' = s"
proof -
  have "uint (s_keepalive (s_config s)) < 2 ^ LENGTH(8)" by (rule unsigned_less)
  then have k: "uint (s_keepalive (s_config s)) * 1000 < 2 ^ 32" "0 \<le> uint (s_keepalive (s_config s))" by simp_all
  then have "uint (ucast (s_keepalive (s_config s)) * 1000 :: u32) = 1000 * uint (s_keepalive (s_config s))"
    by (simp add: uint_word_ariths unsigned_ucast_eq take_bit_eq_mod)
  then have due: "(ucast (s_keepalive (s_config s)) * 1000 \<le> ticks s - s_last_ping_ms s) \<longleftrightarrow>
      uint (ticks s - s_last_ping_ms s) \<ge> 1000 * uint (s_keepalive (s_config s))"
    by (simp add: word_le_def)
  have ping: "build_pingreq 2 = Some [0xC0, 0]" by (simp add: build_pingreq_def push_bit_eq_mult)
  obtain e s1 where t: "esp8266_tcp_send (uint (s_link_id s)) (Some [0xC0, 0]) 2 s = (e, s1)" by fastforce
  have "mqtt_loop cb s0 = Some (if mqtt_is_connected s \<and> uint (ticks s - s_last_ping_ms s) \<ge> 1000 * uint (s_keepalive (s_config s))
      then s1\<lparr>s_last_ping_ms := ticks s\<rparr> else s)"
    using assms(2) by (simp add: mqtt_loop_def Let_def ping t due mqtt_is_connected_def)
  moreover have "mqtt_core (s1\<lparr>s_last_ping_ms := ticks s\<rparr>) = mqtt_core s"
    using tcp_send_keeps(3) [OF assms(1) t] by (simp add: mqtt_core_def)
  ultimately show ?thesis using assms(3) t by auto
qed

lemma ping_when_due_witness:
  "\<exists>s'. mqtt_loop (Some record_msg) (mqtt_boot\<lparr>ticks := 9999\<rparr>) = Some s' \<and> s' = mqtt_boot\<lparr>ticks := 9999\<rparr>"
proof -
  let ?s = "mqtt_boot\<lparr>ticks := 9999\<rparr>"
  have ok: "esp_ok ?s" using mqtt_boot_ok(2) by (simp add: esp_ok_def)
  obtain s where s: "esp8266_loop (Some (on_esp_recv (Some record_msg))) ?s = Some s" "esp_load s \<le> esp_load ?s"
    "esp_load s = esp_load ?s \<longrightarrow> s = ?s" using rec_app.rx.loop_returns [OF ok] by blast
  have "esp_load ?s = 0" by (simp add: esp_load_def mqtt_boot_def ring_init_ok del: length_ring_bytes)
  then have e: "s = ?s" using s(2,3) by simp
  obtain s' where l: "mqtt_loop (Some record_msg) ?s = Some s'" using rec_app.loop_total [OF ok] by blast
  show ?thesis using ping_when_due [OF ok s(1) [unfolded e] l] l
    by (simp add: mqtt_is_connected_def mqtt_boot_def)
qed

end
