(* ===== verification/Task_Mqtt.thy ===== *)
theory Task_Mqtt
  imports Json_Msg Mqtt_Client
begin

text \<open>
  The MQTT task (\<open>Middlewares/FreeRTOS/Task/task_mqtt\<close>): the callback that turns received texts
  into actuator commands, and the connection phases with their 30 s guard. Its state extends
  the client's by what the tasks share. Printing is not modelled.
\<close>

section \<open>Received messages\<close>

text \<open>\<open>others\<close>: what the other tasks do to the command queue while each of the coming sends sleeps.\<close>

record mqtt_sys = mqtt +
  mfw :: firmware
  others :: "applay_msg_t wakeups list"

text \<open>The ticks a send sleeps for.\<close>

fun send_blocks :: "'a queue \<Rightarrow> nat \<Rightarrow> 'a wakeups \<Rightarrow> nat" where
  "send_blocks q t [] = (if q_has_room q queueSEND_TO_BACK then 0 else t)"
| "send_blocks q t ((dt, f) # ws) =
     (if q_has_room q queueSEND_TO_BACK \<or> t = 0 then 0 else min dt t + send_blocks (f q) (t - dt) ws)"

definition mqtt_on_message :: "u8 list \<Rightarrow> u8 list \<Rightarrow> mqtt_sys \<Rightarrow> mqtt_sys" where
  "mqtt_on_message topic payload s =
     (if payload = [] then s
      else case json_command (cstr (take 127 payload)) of
        None \<Rightarrow> s
      | Some am \<Rightarrow> (case ActuatorCmdQueue (mfw s) of
            None \<Rightarrow> s
          | Some q \<Rightarrow>
              (let ws = (case others s of [] \<Rightarrow> [] | w # _ \<Rightarrow> w)
               in s\<lparr>mfw := (mfw s)\<lparr>ActuatorCmdQueue := Some (snd (xQueueSend q am 100 ws))\<rparr>,
                    others := tl (others s), ticks := ticks s + of_nat (send_blocks q 100 ws)\<rparr>)))"

section \<open>Phases\<close>

datatype mqtt_phase_t =
  MQTT_PHASE_INIT | MQTT_PHASE_MQTT_INIT | MQTT_PHASE_CONNECT | MQTT_PHASE_SUB | MQTT_PHASE_RUN

type_synonym mqtt_task_state = "mqtt_phase_t \<times> u32 \<times> mqtt_sys"

text \<open>A delay of the task: the ticks it takes and what the interrupt takes in meanwhile.\<close>

definition vTaskDelay :: "nat \<Rightarrow> 'a esp_scheme \<Rightarrow> 'a esp_scheme" where
  "vTaskDelay n s = (case uart_in s of
       [] \<Rightarrow> s\<lparr>ticks := ticks s + of_nat n\<rparr>
     | c # cs \<Rightarrow> (fold ESP_UART_IRQHandler c s)\<lparr>uart_in := cs, ticks := ticks s + of_nat n\<rparr>)"

abbreviation MQTT_WIFI_SSID :: "u8 list" where "MQTT_WIFI_SSID \<equiv> ascii ''<YOUR_WIFI_SSID>''"
abbreviation MQTT_WIFI_PASS :: "u8 list" where "MQTT_WIFI_PASS \<equiv> ascii ''<YOUR_WIFI_PASS>''"
abbreviation MQTT_BROKER_HOST :: "u8 list" where "MQTT_BROKER_HOST \<equiv> ascii ''broker-cn.emqx.io''"
abbreviation MQTT_CLIENT_ID :: "u8 list" where "MQTT_CLIENT_ID \<equiv> ascii ''stm32f407_agro_001''"
abbreviation MQTT_TOPIC_REPORT :: "u8 list" where "MQTT_TOPIC_REPORT \<equiv> ascii ''device/report''"
abbreviation MQTT_TOPIC_CTRL :: "u8 list" where "MQTT_TOPIC_CTRL \<equiv> ascii ''device/ctrl''"

text \<open>One report of the run phase, if one waits.\<close>

definition mqtt_report :: "mqtt_sys \<Rightarrow> mqtt_sys" where
  "mqtt_report s = (case ReportQueue (mfw s) of
       None \<Rightarrow> s
     | Some q \<Rightarrow> (case xQueueReceive q 0 [] of
           (None, q') \<Rightarrow> s\<lparr>mfw := (mfw s)\<lparr>ReportQueue := Some q'\<rparr>\<rparr>
         | (Some avg, q') \<Rightarrow>
             (let s = s\<lparr>mfw := (mfw s)\<lparr>ReportQueue := Some q'\<rparr>\<rparr>; n = length (report_json avg) in
              if n > 0 then snd (mqtt_publish (Some MQTT_TOPIC_REPORT) (Some (snprintf 192 (report_json avg))) (of_nat n) 0 s)
              else s)))"

text \<open>The \<open>switch\<close> of the main loop.\<close>

definition phase_step :: "mqtt_task_state \<Rightarrow> mqtt_task_state option" where
  "phase_step = (\<lambda>(phase, phase_tick, s). case phase of
       MQTT_PHASE_INIT \<Rightarrow>
         (case esp8266_connect_wifi (Some MQTT_WIFI_SSID) (Some MQTT_WIFI_PASS) s of
            (e, s) \<Rightarrow> Some (if e = ESP_OK then (MQTT_PHASE_MQTT_INIT, ticks s, s)
                           else (MQTT_PHASE_INIT, phase_tick, vTaskDelay 5000 s)))
     | MQTT_PHASE_MQTT_INIT \<Rightarrow> Some (MQTT_PHASE_CONNECT, ticks s, s)
     | MQTT_PHASE_CONNECT \<Rightarrow>
         map_option (\<lambda>(e, s). if e = MQTT_OK then (MQTT_PHASE_SUB, ticks s, s)
                              else (MQTT_PHASE_CONNECT, phase_tick, vTaskDelay 3000 s))
           (mqtt_connect_broker (Some mqtt_on_message) (Some MQTT_BROKER_HOST) 1883 s)
     | MQTT_PHASE_SUB \<Rightarrow>
         (case mqtt_subscribe (Some MQTT_TOPIC_CTRL) 0 s of
            (e, s) \<Rightarrow> Some (if e = MQTT_OK then (MQTT_PHASE_RUN, ticks s, s)
                           else (MQTT_PHASE_SUB, phase_tick, vTaskDelay 1000 s)))
     | MQTT_PHASE_RUN \<Rightarrow>
         (if \<not> mqtt_is_connected s then
            (let s = snd (mqtt_disconnect s) in Some (MQTT_PHASE_INIT, ticks s, s))
          else Some (MQTT_PHASE_RUN, phase_tick, vTaskDelay 100 (mqtt_report s))))"

text \<open>The guard against a phase that makes no progress.\<close>

definition phase_guard :: "mqtt_task_state \<Rightarrow> mqtt_task_state" where
  "phase_guard = (\<lambda>(phase, phase_tick, s).
     if phase \<noteq> MQTT_PHASE_RUN \<and> ticks s - phase_tick > 30000
     then (let s = snd (mqtt_disconnect s) in (MQTT_PHASE_INIT, ticks s, s))
     else (phase, phase_tick, s))"

definition mqtt_turn :: "mqtt_task_state \<Rightarrow> mqtt_task_state option" where
  "mqtt_turn = (\<lambda>(phase, phase_tick, s).
     Option.bind (mqtt_loop (Some mqtt_on_message) s) (\<lambda>s. map_option phase_guard (phase_step (phase, phase_tick, s))))"

text \<open>The task up to its main loop; \<open>Inl\<close>: it has deleted itself.\<close>

definition mqtt_task_start :: "esp_err_t \<Rightarrow> mqtt_sys \<Rightarrow> (mqtt_sys + mqtt_task_state) option" where
  "mqtt_task_start uart4 s = map_option (\<lambda>(e, s).
     if e \<noteq> ESP_OK then Inl s
     else (let s = snd (mqtt_client_init (Some MQTT_CLIENT_ID) (Some []) (Some []) 10 s)
           in Inr (MQTT_PHASE_INIT, ticks s, s)))
     (esp8266_init uart4 (vTaskDelay 2000 s))"

text \<open>The task for \<open>n\<close> turns of its loop.\<close>

fun mqtt_turns :: "nat \<Rightarrow> mqtt_task_state \<Rightarrow> mqtt_task_state option" where
  "mqtt_turns 0 st = Some st"
| "mqtt_turns (Suc n) st = Option.bind (mqtt_turn st) (mqtt_turns n)"

definition mqtt_task :: "esp_err_t \<Rightarrow> nat \<Rightarrow> mqtt_sys \<Rightarrow> (mqtt_sys + mqtt_task_state) option" where
  "mqtt_task uart4 n s = (case mqtt_task_start uart4 s of
       None \<Rightarrow> None
     | Some (Inl s) \<Rightarrow> Some (Inl s)
     | Some (Inr st) \<Rightarrow> map_option Inr (mqtt_turns n st))"

section \<open>The callback keeps the client's contract\<close>

lemma on_message_frame [simp]:
  "s_rx (mqtt_on_message t p s) = s_rx s" "uart_in (mqtt_on_message t p s) = uart_in s"
  "s_wifi_connected (mqtt_on_message t p s) = s_wifi_connected s" "s_link_state (mqtt_on_message t p s) = s_link_state s"
  "mqtt_core (mqtt_on_message t p s) = mqtt_core s"
  by (simp_all add: mqtt_on_message_def Let_def mqtt_core_def split: option.split)

interpretation agro: mqtt_app mqtt_on_message
  by unfold_locales (simp_all add: esp_ok_def esp_load_def)

lemma delay_keeps:
  fixes s :: "'a mqtt_scheme"
  assumes "mqtt_ok s"
  shows "mqtt_ok (vTaskDelay n s)" "mqtt_core (vTaskDelay n s) = mqtt_core s"
    "mqtt.more (vTaskDelay n s) = mqtt.more s" "s_link_state (vTaskDelay n s) = s_link_state s"
proof -
  have ok: "ring_ok (s_rx s)" "esp_ok s" using assms by (simp_all add: mqtt_ok_def esp_ok_def)
  have r: "ring_ok (s_rx (vTaskDelay n s))"
    using ok(1) esp_ring.burst [OF ok(1)] by (cases "uart_in s") (simp_all add: vTaskDelay_def irq_fold)
  have f: "rx_only s (vTaskDelay n s)"
    by (cases "uart_in s") (simp_all add: vTaskDelay_def irq_fold rx_only_def)
  note m = more_core [OF rx_only_fields(4) [OF f]]
  show "mqtt_core (vTaskDelay n s) = mqtt_core s" "mqtt.more (vTaskDelay n s) = mqtt.more s"
    "s_link_state (vTaskDelay n s) = s_link_state s" using m rx_only_fields [OF f] by simp_all
  show "mqtt_ok (vTaskDelay n s)" using mqtt_ok_core [OF rx_only_ok [OF f r ok(2)] m(1) assms] .
qed

lemma mfw_update [simp]:
  "mqtt_ok (s\<lparr>mfw := w\<rparr>) = mqtt_ok s" "mqtt_core (s\<lparr>mfw := w\<rparr>) = mqtt_core s"
  "esp_ok (s\<lparr>mfw := w\<rparr>) = esp_ok s"
  by (simp_all add: mqtt_ok_def esp_ok_def mqtt_core_def)

lemma core_connected: "mqtt_core s' = mqtt_core s \<Longrightarrow> mqtt_is_connected s' = mqtt_is_connected s"
  by (simp add: mqtt_core_def mqtt_is_connected_def)

lemma send_packet_frame:
  fixes s :: "'a mqtt_scheme"
  assumes "esp_ok s"
  shows "mqtt.more (snd (send_packet p s)) = mqtt.more s" "s_link_state (snd (send_packet p s)) = s_link_state s"
proof -
  have "mqtt.more (snd (send_packet p s)) = mqtt.more s \<and> s_link_state (snd (send_packet p s)) = s_link_state s"
  proof (cases p)
    case (Some b)
    obtain e s' where t: "esp8266_tcp_send (uint (s_link_id s)) (Some b) (of_nat (length b)) s = (e, s')" by fastforce
    then show ?thesis using Some tcp_send_keeps [OF assms t] by (simp add: send_packet_def)
  qed (simp add: send_packet_def)
  then show "mqtt.more (snd (send_packet p s)) = mqtt.more s" "s_link_state (snd (send_packet p s)) = s_link_state s" by auto
qed

lemma publish0_keeps:
  fixes s :: "'a mqtt_scheme"
  assumes "esp_ok s"
  shows "mqtt_core (snd (mqtt_publish t d n 0 s)) = mqtt_core s" "mqtt.more (snd (mqtt_publish t d n 0 s)) = mqtt.more s"
    "s_link_state (snd (mqtt_publish t d n 0 s)) = s_link_state s"
  using send_packet_keeps(2) [OF assms] send_packet_frame [OF assms]
  by (auto simp: mqtt_publish_def split: option.split)

lemma report_nonempty: "0 < length (report_json a)"
  by (simp add: report_json_def)

lemma mqtt_report_keeps:
  assumes "mqtt_ok s"
  shows "mqtt_ok (mqtt_report s)" "mqtt_core (mqtt_report s) = mqtt_core s" "s_link_state (mqtt_report s) = s_link_state s"
proof -
  have ok: "esp_ok s" using assms by (simp add: mqtt_ok_def)
  have "mqtt_ok (mqtt_report s) \<and> mqtt_core (mqtt_report s) = mqtt_core s \<and> s_link_state (mqtt_report s) = s_link_state s"
  proof (cases "ReportQueue (mfw s)")
    case (Some q)
    obtain r q' where r: "xQueueReceive q 0 [] = (r, q')" by fastforce
    have "esp_ok (s\<lparr>mfw := (mfw s)\<lparr>ReportQueue := Some q'\<rparr>\<rparr>)" using ok by simp
    note k = publish0_keeps [OF this]
    show ?thesis using Some r assms k publish_ok [of "s\<lparr>mfw := (mfw s)\<lparr>ReportQueue := Some q'\<rparr>\<rparr>"]
      by (cases r) (simp_all add: mqtt_report_def Let_def)
  qed (use assms in \<open>simp add: mqtt_report_def\<close>)
  then show "mqtt_ok (mqtt_report s)" "mqtt_core (mqtt_report s) = mqtt_core s" "s_link_state (mqtt_report s) = s_link_state s" by auto
qed

lemma subscribe_connected:
  assumes "mqtt_ok s" "mqtt_subscribe t q s = (MQTT_OK, s')"
  shows "mqtt_is_connected s'"
proof -
  have c: "s_state s = MQTT_ST_CONNECTED" using assms(2) by (simp add: mqtt_subscribe_def split: if_splits)
  have ok: "esp_ok (snd (take_packet_id s))" using take_id_ok [OF assms(1)] by (simp add: mqtt_ok_def)
  have "s_state (snd (take_packet_id s)) = s_state s" by (simp add: take_packet_id_def Let_def)
  moreover obtain p where "send_packet p (snd (take_packet_id s)) = (MQTT_OK, s')"
    using assms(2) c by (cases t) (auto simp: mqtt_subscribe_def split_beta)
  then have "s' = snd (send_packet p (snd (take_packet_id s)))" by simp
  ultimately show ?thesis using c send_packet_keeps(2) [OF ok, of p] by (simp add: mqtt_core_def mqtt_is_connected_def)
qed

section \<open>Every turn returns\<close>

definition phase_next :: "mqtt_phase_t \<Rightarrow> mqtt_phase_t set" where
  "phase_next ph = insert MQTT_PHASE_INIT (case ph of
     MQTT_PHASE_INIT \<Rightarrow> {MQTT_PHASE_MQTT_INIT} | MQTT_PHASE_MQTT_INIT \<Rightarrow> {MQTT_PHASE_CONNECT}
   | MQTT_PHASE_CONNECT \<Rightarrow> {MQTT_PHASE_CONNECT, MQTT_PHASE_SUB}
   | MQTT_PHASE_SUB \<Rightarrow> {MQTT_PHASE_SUB, MQTT_PHASE_RUN} | MQTT_PHASE_RUN \<Rightarrow> {MQTT_PHASE_RUN})"

text \<open>What every turn keeps: the client's invariant, and the run phase only with a session.\<close>

definition turn_result :: "mqtt_phase_t \<Rightarrow> mqtt_task_state \<Rightarrow> bool" where
  "turn_result ph = (\<lambda>(ph', pt', s'). mqtt_ok s' \<and> ph' \<in> phase_next ph \<and>
     (ph' = MQTT_PHASE_RUN \<longrightarrow> mqtt_is_connected s'))"

lemma phase_step_total:
  assumes "mqtt_ok s"
  shows "\<exists>st. phase_step (ph, pt, s) = Some st \<and> turn_result ph st"
proof (cases ph)
  case MQTT_PHASE_INIT
  obtain e s1 where w: "esp8266_connect_wifi (Some MQTT_WIFI_SSID) (Some MQTT_WIFI_PASS) s = (e, s1)" by fastforce
  have ok: "esp_ok s" using assms by (simp add: mqtt_ok_def)
  have "esp_ok s1" "esp.more s1 = esp.more s" using connect_wifi_result [OF ok w] by simp_all
  then have k: "mqtt_ok s1" using mqtt_ok_core [of s1 s] more_core(1) [of s1 s] assms by blast
  show ?thesis using MQTT_PHASE_INIT w k delay_keeps(1) [OF k, of 5000]
    by (simp add: phase_step_def turn_result_def phase_next_def)
next
  case MQTT_PHASE_MQTT_INIT
  with assms show ?thesis by (simp add: phase_step_def turn_result_def phase_next_def)
next
  case MQTT_PHASE_CONNECT
  have ok: "esp_ok s" using assms by (simp add: mqtt_ok_def)
  obtain e s1 where c: "mqtt_connect_broker (Some mqtt_on_message) (Some MQTT_BROKER_HOST) 1883 s = Some (e, s1)" "esp_ok s1"
    "s_next_packet_id s1 = s_next_packet_id s" "s_link_id s1 = s_link_id s \<or> s_link_id s1 = 0"
    using agro.connect_total [OF ok, of "Some MQTT_BROKER_HOST" 1883] by blast
  then have k: "mqtt_ok s1" using assms by (auto simp: mqtt_ok_def)
  show ?thesis using MQTT_PHASE_CONNECT c(1) k delay_keeps(1) [OF k, of 3000]
    by (simp add: phase_step_def turn_result_def phase_next_def)
next
  case MQTT_PHASE_SUB
  obtain e s1 where c: "mqtt_subscribe (Some MQTT_TOPIC_CTRL) 0 s = (e, s1)" by fastforce
  have k: "mqtt_ok s1" using subscribe_ok(1) [OF assms, of "Some MQTT_TOPIC_CTRL" 0] c by simp
  show ?thesis using MQTT_PHASE_SUB c k delay_keeps(1) [OF k, of 1000] subscribe_connected [OF assms, of "Some MQTT_TOPIC_CTRL" 0 s1]
    by (auto simp: phase_step_def turn_result_def phase_next_def)
next
  case MQTT_PHASE_RUN
  show ?thesis
  proof (cases "mqtt_is_connected s")
    case True
    note r = mqtt_report_keeps [OF assms]
    note d = delay_keeps [OF r(1), of 100]
    have "mqtt_is_connected (vTaskDelay 100 (mqtt_report s))" using True core_connected r(2) d(2) by metis
    then show ?thesis using MQTT_PHASE_RUN True d(1) by (simp add: phase_step_def turn_result_def phase_next_def)
  next
    case False
    then show ?thesis using MQTT_PHASE_RUN disconnect_ok [OF assms]
      by (simp add: phase_step_def turn_result_def phase_next_def Let_def)
  qed
qed

lemma turn_total:
  assumes "mqtt_ok s"
  shows "\<exists>st. mqtt_turn (ph, pt, s) = Some st \<and> turn_result ph st"
proof -
  have ok: "esp_ok s" using assms by (simp add: mqtt_ok_def)
  obtain s1 where l: "mqtt_loop (Some mqtt_on_message) s = Some s1" "esp_ok s1" "snd (mqtt_core s1) = snd (mqtt_core s)"
    using agro.loop_total [OF ok] by blast
  have k: "mqtt_ok s1" by (rule mqtt_ok_core2 [OF l(2,3) assms])
  obtain ph' pt' s' where p: "phase_step (ph, pt, s1) = Some (ph', pt', s')" "turn_result ph (ph', pt', s')"
    using phase_step_total [OF k, of ph pt] by auto
  have "turn_result ph (phase_guard (ph', pt', s'))"
    using p(2) disconnect_ok [of s'] by (auto simp: phase_guard_def turn_result_def phase_next_def Let_def)
  then show ?thesis using l(1) p(1) by (simp add: mqtt_turn_def)
qed

section \<open>A module that has fallen silent\<close>

text \<open>Nothing unread and nothing to come, while the client counts as connected.\<close>

definition silent :: "mqtt_sys \<Rightarrow> bool" where
  "silent s \<longleftrightarrow> mqtt_ok s \<and> esp_load s = 0 \<and> mqtt_is_connected s"

definition send_line :: "u8 list set" where
  "send_line = {l. starts_with (ascii ''AT+CIPSEND='') l}"

definition only_asks :: "'a esp_scheme \<Rightarrow> 'a esp_scheme \<Rightarrow> bool" where
  "only_asks s s' \<longleftrightarrow> set (uart_tx s') \<subseteq> set (uart_tx s) \<union> send_line"

lemma only_asks_trans: "only_asks s s' \<Longrightarrow> only_asks s' s'' \<Longrightarrow> only_asks s s''"
  by (auto simp: only_asks_def)

lemma silent_wait:
  assumes "esp_ok s" "needle \<noteq> []" "esp_load s = 0" "at_wait_for needle t s = (r, s')"
  shows "r = None"
proof -
  have "ring_ok (s_rx s)" using assms(1) by (simp add: esp_ok_def)
  from at_wait_facts(4) [OF this assms(2,4)] assms(3) show ?thesis by fastforce
qed

lemma cipsend_line: "at_line_bytes (snprintf 32 (ascii ''AT+CIPSEND='' @ ds)) \<in> send_line"
  by (simp add: at_line_bytes_def snprintf_def send_line_def starts_with_def ascii_def)

lemma silent_tcp_send:
  assumes "esp_ok s" "esp_load s = 0" "esp8266_tcp_send l d n s = (e, s')"
  shows "e \<noteq> ESP_OK" "only_asks s s'" "esp_load s' = 0"
proof -
  have "e \<noteq> ESP_OK \<and> e \<noteq> ESP_ERR_RESP"
  proof (cases "link_id_ok l \<and> d \<noteq> None \<and> n \<noteq> 0")
    case True
    then obtain dd where d: "d = Some dd" by auto
    let ?a = "at_send_line (snprintf 32 (ascii ''AT+CIPSEND='' @ dec_digits (unat n))) s"
    obtain r s1 where w: "at_wait_for (ascii ''>'') 2000 ?a = (r, s1)" by fastforce
    have q: "esp_ok ?a" "esp_load ?a = 0" using quiet_line [OF assms(1)] assms(2) by (simp_all add: quiet_def)
    have "r = None" by (rule silent_wait [OF q(1) ascii_Cons q(2) w])
    then show ?thesis using assms(3) True d w by (auto simp: esp8266_tcp_send_def Let_def)
  qed (use assms(3) in \<open>auto simp: esp8266_tcp_send_def split: if_splits option.splits\<close>)
  moreover obtain out where out: "quiet out s s'" "e = ESP_ERR_PARAM \<longrightarrow> out = [] \<and> s' = s"
    "e = ESP_ERR_NO_RESP \<longrightarrow> out = [at_line_bytes (snprintf 32 (ascii ''AT+CIPSEND='' @ dec_digits (unat n)))]"
    "e \<in> {ESP_OK, ESP_ERR_PARAM, ESP_ERR_NO_RESP, ESP_ERR_RESP}"
    using tcp_send_quiet [OF assms(1,3)] by blast
  ultimately show "e \<noteq> ESP_OK" "only_asks s s'" "esp_load s' = 0"
    using assms(2) cipsend_line by (auto simp: only_asks_def quiet_def)
qed

lemma silent_loop:
  assumes "silent s"
  shows "\<exists>s'. mqtt_loop (Some mqtt_on_message) s = Some s' \<and> silent s' \<and> mqtt.more s' = mqtt.more s \<and> only_asks s s'"
proof -
  have ok: "esp_ok s" "esp_load s = 0" "s_state s = MQTT_ST_CONNECTED" "mqtt_ok s"
    using assms by (simp_all add: silent_def mqtt_ok_def mqtt_is_connected_def)
  have l: "esp8266_loop (Some (on_esp_recv (Some mqtt_on_message))) s = Some s"
    using agro.rx.loop_returns [OF ok(1)] ok(2) by fastforce
  obtain e s2 where t: "esp8266_tcp_send (uint (s_link_id s)) (Some [0xC0, 0]) 2 s = (e, s2)" by fastforce
  note k = tcp_send_keeps [OF ok(1) t] silent_tcp_send [OF ok(1,2) t]
  have ping: "build_pingreq 2 = Some [0xC0, 0]" by (simp add: build_pingreq_def push_bit_eq_mult)
  define due where "due \<longleftrightarrow> ticks s - s_last_ping_ms s \<ge> ucast (s_keepalive (s_config s)) * 1000"
  have m: "mqtt_loop (Some mqtt_on_message) s = Some (if due then s2\<lparr>s_last_ping_ms := ticks s\<rparr> else s)"
    by (simp add: mqtt_loop_def l ok(3) Let_def ping t due_def)
  have "mqtt_ok s2" by (rule mqtt_ok_core [OF k(1,3) ok(4)])
  then have "silent (s2\<lparr>s_last_ping_ms := ticks s\<rparr>)"
    using k(3,10) ok(3) by (simp add: silent_def mqtt_ok_def mqtt_is_connected_def mqtt_core_def)
  then show ?thesis using m assms k(5,9) by (simp add: only_asks_def)
qed

lemma silent_publish:
  assumes "silent s"
  shows "silent (snd (mqtt_publish t d n 0 s))" "fst (mqtt_publish t d n 0 s) \<noteq> MQTT_OK"
    "only_asks s (snd (mqtt_publish t d n 0 s))"
proof -
  have ok: "esp_ok s" "esp_load s = 0" "mqtt_ok s" using assms by (simp_all add: silent_def mqtt_ok_def)
  have p: "silent (snd (send_packet p s)) \<and> fst (send_packet p s) \<noteq> MQTT_OK \<and> only_asks s (snd (send_packet p s))" for p
  proof (cases p)
    case None
    with assms show ?thesis by (simp add: send_packet_def only_asks_def)
  next
    case (Some b)
    obtain e s' where t: "esp8266_tcp_send (uint (s_link_id s)) (Some b) (of_nat (length b)) s = (e, s')" by fastforce
    note k = tcp_send_keeps [OF ok(1) t] silent_tcp_send [OF ok(1,2) t]
    have "mqtt_ok s'" by (rule mqtt_ok_core [OF k(1,3) ok(3)])
    then have "silent s'" using assms core_connected [OF k(3)] k(10) by (simp add: silent_def)
    then show ?thesis using Some t k(8,9) by (simp add: send_packet_def)
  qed
  show "silent (snd (mqtt_publish t d n 0 s))" "fst (mqtt_publish t d n 0 s) \<noteq> MQTT_OK"
    "only_asks s (snd (mqtt_publish t d n 0 s))"
    using p assms by (auto simp: mqtt_publish_def only_asks_def split: option.split)
qed

lemma silent_delay:
  assumes "silent s"
  shows "silent (vTaskDelay n s)" "only_asks s (vTaskDelay n s)" "mqtt.more (vTaskDelay n s) = mqtt.more s"
proof -
  have "uart_in s = []" using assms by (cases "uart_in s") (simp_all add: silent_def esp_load_def)
  then have "vTaskDelay n s = s\<lparr>ticks := ticks s + of_nat n\<rparr>" by (simp add: vTaskDelay_def)
  then show "silent (vTaskDelay n s)" "only_asks s (vTaskDelay n s)" "mqtt.more (vTaskDelay n s) = mqtt.more s"
    using assms by (simp_all add: silent_def only_asks_def mqtt_ok_def esp_ok_def esp_load_def mqtt_is_connected_def)
qed

lemma more_mfw: "mqtt.more s' = mqtt.more s \<Longrightarrow> mfw s' = mfw s" for s s' :: mqtt_sys
  by (cases s; cases s'; simp)

text \<open>The report that waits first is taken off the queue, whatever becomes of it.\<close>

lemma report_taken:
  assumes "esp_ok s" "ReportQueue (mfw s) = Some q" "q_ok 2 q"
  shows "\<exists>q'. ReportQueue (mfw (mqtt_report s)) = Some q' \<and> q_ok 2 q' \<and> q_list q' = tl (q_list q) \<and>
    mfw (mqtt_report s) = (mfw s)\<lparr>ReportQueue := Some q'\<rparr> \<and>
    (\<exists>s1. s1 = s\<lparr>mfw := (mfw s)\<lparr>ReportQueue := Some q'\<rparr>\<rparr> \<and>
      mqtt_report s = (case q_list q of [] \<Rightarrow> s1 | a # _ \<Rightarrow>
        snd (mqtt_publish (Some MQTT_TOPIC_REPORT) (Some (report_json a)) (of_nat (length (report_json a))) 0 s1)))"
proof -
  obtain r q' where r: "xQueueReceive q 0 [] = (r, q')" by fastforce
  have inv: "q_inv q" "uxLength q = 2" using assms(3) by (simp_all add: q_ok_def)
  have "wakeups_ok 2 []" by (simp add: wakeups_ok_def)
  from receive_ok [OF assms(3) this, of 0] r have q': "q_ok 2 q'" by simp
  let ?s1 = "s\<lparr>mfw := (mfw s)\<lparr>ReportQueue := Some q'\<rparr>\<rparr>"
  have ok1: "esp_ok ?s1" using assms(1) by simp
  show ?thesis
  proof (cases "q_list q")
    case Nil
    then have "uxMessagesWaiting q = 0" by (metis list.size(3) q_list_length)
    then have "r = None" "q' = q" using receive_none [of q "[]"] r by simp_all
    then show ?thesis using assms(2,3) r Nil by (simp add: mqtt_report_def)
  next
    case (Cons a as)
    have "r = Some a" "q_list q' = as" using receive_now(1,2) [OF inv(1) Cons, of 0 "[]"] r by simp_all
    moreover have "snprintf 192 (report_json a) = report_json a" using report_length [of a] by (simp add: snprintf_def)
    moreover have "mfw (snd (mqtt_publish t d n 0 ?s1)) = mfw ?s1" for t d n
      by (rule more_mfw [OF publish0_keeps(2) [OF ok1]])
    ultimately show ?thesis using assms(2) r Cons report_nonempty [of a] q' by (simp add: mqtt_report_def Let_def)
  qed
qed

section \<open>From the wire to the command queue\<close>

lemma empty_ring_steps:
  assumes "ring_bytes (s_rx s) = []"
  shows "ipd_step recv s = (False, s)" "urc_step s = (False, s)"
  using assms by (simp_all add: ipd_step_def urc_step_def Let_def del: length_ring_bytes)

text \<open>A block that is one PUBLISH at QoS 0 calls the application once.\<close>

lemma publish_block:
  assumes "build_publish cap topic payload len 0 pid = Some pkt" "length topic < 128" "length payload = unat len"
  shows "handle_rx (Some cb) pkt s = cb topic payload s" "pkt \<noteq> []"
proof -
  have "length topic < 65536" using assms(2) by simp
  note pr = publish_rem [OF assms(1) this assms(3)]
  let ?p = "(0x30 :: u8, write_u16 (of_nat (length topic)) @ topic @ payload)"
  have l: "length (snd ?p) = 2 + length topic + 0 + length payload" by (simp add: write_u16_def)
  have pkt: "pkt = mqtt_pkt ?p" unfolding mqtt_pkt_def l using pr(1) by (simp add: push_bit_eq_mult)
  have len: "length (snd ?p) < 2 ^ 28" using l pr(2) by simp
  have "handle_rx (Some cb) (mqtt_pkt ?p @ []) s = handle_rx (Some cb) [] (handle_packet (Some cb) (mqtt_pkt ?p) (rem_len ?p) s)"
    by (rule handle_rx_packet [OF len])
  moreover have "handle_rx (Some cb) [] x = x" for x by (subst handle_rx.simps) simp
  moreover have "handle_packet (Some cb) pkt n x = handle_publish (Some cb) pkt x" for n x
    unfolding pkt by (simp add: handle_packet_def Let_def mqtt_pkt_def drop_bit_eq_div)
  moreover have "handle_publish (Some cb) pkt x = cb topic payload x" for x
    using publish_packet_roundtrip [OF assms(1) _ assms(2,3)] by (simp add: handle_publish_def)
  ultimately show "handle_rx (Some cb) pkt s = cb topic payload s" using pkt by simp
  show "pkt \<noteq> []" by (simp add: pkt mqtt_pkt_def)
qed

lemma publish_frame_loop:
  assumes "mqtt_ok s" "ring_bytes (s_rx s) = ipd_frame (None, pkt)" "build_publish cap topic payload len 0 pid = Some pkt"
    "length pkt \<le> 512" "length topic < 128" "length payload = unat len"
  shows "\<exists>r b s'. mqtt_loop (Some mqtt_on_message) s = Some s' \<and>
    mqtt.more s' = mqtt.more (mqtt_on_message topic payload (s\<lparr>s_rx := r, s_rx_buf := b\<rparr>))"
proof -
  have ok: "ring_ok (s_rx s)" "esp_ok s" "s_link_id s = 0" using assms(1) by (simp_all add: mqtt_ok_def esp_ok_def)
  have bs: "ring_bytes (s_rx s) = [] @ ipd_frame (None, pkt) @ []" using assms(2) by simp
  have l0: "ipd_link None = 0" by (simp add: ipd_link_def)
  obtain r where r: "ring_ok r" "ring_bytes r = []"
    "ipd_step (Some (on_esp_recv (Some mqtt_on_message))) s = (True, on_esp_recv (Some mqtt_on_message) 0 pkt (s\<lparr>s_rx := r\<rparr>))"
    using ipd_step_frame [OF ok(1) bs _ publish_block(2) [OF assms(3,5,6)] assms(4), of "on_esp_recv (Some mqtt_on_message)"] l0
    by auto
  define s2 where "s2 = mqtt_on_message topic payload (s\<lparr>s_rx := r, s_rx_buf := pkt\<rparr>)"
  have "on_esp_recv (Some mqtt_on_message) 0 pkt (s\<lparr>s_rx := r\<rparr>) = s2"
    using assms(4) ok(3) publish_block(1) [OF assms(3,5,6)] by (simp add: on_esp_recv_def Let_def s2_def)
  then have step: "ipd_step (Some (on_esp_recv (Some mqtt_on_message))) s = (True, s2)" using r(3) by simp
  have rb: "ring_bytes (s_rx s2) = []" using r(2) by (simp add: s2_def del: length_ring_bytes)
  have "parse_ipd_frames (Some (on_esp_recv (Some mqtt_on_message))) s = Some s2"
    by (subst parse_ipd_frames.simps, simp add: step, subst parse_ipd_frames.simps, simp add: empty_ring_steps [OF rb])
  moreover have "urc_loop s2 = Some s2" by (subst urc_loop.simps) (simp add: empty_ring_steps [OF rb])
  ultimately have loop: "esp8266_loop (Some (on_esp_recv (Some mqtt_on_message))) s = Some s2"
    by (simp add: esp8266_loop_def)
  have ok2: "esp_ok s2" unfolding s2_def by (rule agro.app_ok) (use ok(2) r(1) in \<open>simp add: esp_ok_def\<close>)
  obtain e s3 where t: "esp8266_tcp_send (uint (s_link_id s2)) (Some [0xC0, 0]) 2 s2 = (e, s3)" by fastforce
  have ping: "build_pingreq 2 = Some [0xC0, 0]" by (simp add: build_pingreq_def push_bit_eq_mult)
  have "mqtt_loop (Some mqtt_on_message) s = Some (if s_state s2 = MQTT_ST_CONNECTED \<and>
      ticks s2 - s_last_ping_ms s2 \<ge> ucast (s_keepalive (s_config s2)) * 1000 then s3\<lparr>s_last_ping_ms := ticks s2\<rparr> else s2)"
    by (simp add: mqtt_loop_def loop Let_def ping t)
  moreover have "mqtt.more s3 = mqtt.more s2" using tcp_send_keeps(5) [OF ok2 t] .
  ultimately show ?thesis unfolding s2_def by auto
qed

lemma ctrl_no_nul: "0 \<notin> set (ctrl_json t v)" if "0 \<notin> set (ascii t)"
  using that dec_digits_digits [of v] by (auto simp: ctrl_json_def json_key_def ascii_def is_digit_def)

lemma on_message_command:
  assumes "json_command payload = c" "0 \<notin> set payload" "payload \<noteq> []" "length payload \<le> 127"
    and "ActuatorCmdQueue (mfw s) = Some q" "q_ok 10 q" "length (q_list q) < 10"
  shows "\<exists>q'. mfw (mqtt_on_message topic payload s) = (mfw s)\<lparr>ActuatorCmdQueue := Some q'\<rparr> \<and> q_ok 10 q' \<and>
    q_list q' = q_list q @ (case c of None \<Rightarrow> [] | Some m \<Rightarrow> [m])"
proof (cases c)
  case None
  have "(mfw s)\<lparr>ActuatorCmdQueue := Some q\<rparr> = mfw s" using assms(5) by (cases "mfw s") simp
  then show ?thesis using None assms cstr_no_nul [OF assms(2)] by (intro exI [of _ q]) (simp add: mqtt_on_message_def)
next
  case (Some m)
  define ws where "ws = (case others s of [] \<Rightarrow> [] | w # _ \<Rightarrow> w)"
  have inv: "q_inv q" "length (q_list q) < uxLength q" using assms(6,7) by (simp_all add: q_ok_def)
  have "q_list (snd (xQueueSend q m 100 ws)) = q_list q @ [m]" "q_ok 10 (snd (xQueueSend q m 100 ws))"
    using send_has_room [OF inv, of m 100 ws] assms(6) by (simp_all add: q_ok_def)
  then show ?thesis using Some assms cstr_no_nul [OF assms(2)]
    by (intro exI [of _ "snd (xQueueSend q m 100 ws)"]) (simp add: mqtt_on_message_def Let_def ws_def [symmetric])
qed

text \<open>A turn of the run phase, given what its \<open>mqtt_loop\<close> did.\<close>

lemma run_turn:
  assumes "mqtt_loop (Some mqtt_on_message) s = Some s1" "mqtt_is_connected s1"
  shows "mqtt_turn (MQTT_PHASE_RUN, pt, s) = Some (MQTT_PHASE_RUN, pt, vTaskDelay 100 (mqtt_report s1))"
  using assms by (simp add: mqtt_turn_def phase_step_def phase_guard_def)

lemma silent_turn:
  assumes "silent s" "ReportQueue (mfw s) = Some q" "q_ok 2 q"
  shows "\<exists>s' q'. mqtt_turn (MQTT_PHASE_RUN, pt, s) = Some (MQTT_PHASE_RUN, pt, s') \<and> silent s' \<and> only_asks s s' \<and>
    ReportQueue (mfw s') = Some q' \<and> q_ok 2 q' \<and> q_list q' = tl (q_list q)"
proof -
  obtain s1 where l: "mqtt_loop (Some mqtt_on_message) s = Some s1" "silent s1" "mqtt.more s1 = mqtt.more s" "only_asks s s1"
    using silent_loop [OF assms(1)] by blast
  have c: "mqtt_is_connected s1" "esp_ok s1" using l(2) by (simp_all add: silent_def mqtt_ok_def)
  have q: "ReportQueue (mfw s1) = Some q" using assms(2) more_mfw [OF l(3)] by simp
  obtain q' where q': "ReportQueue (mfw (mqtt_report s1)) = Some q'" "q_ok 2 q'" "q_list q' = tl (q_list q)"
    "mqtt_report s1 = (case q_list q of [] \<Rightarrow> s1\<lparr>mfw := (mfw s1)\<lparr>ReportQueue := Some q'\<rparr>\<rparr> | a # _ \<Rightarrow>
        snd (mqtt_publish (Some MQTT_TOPIC_REPORT) (Some (report_json a)) (of_nat (length (report_json a))) 0
          (s1\<lparr>mfw := (mfw s1)\<lparr>ReportQueue := Some q'\<rparr>\<rparr>)))"
    using report_taken [OF c(2) q assms(3)] by blast
  have u: "silent (s1\<lparr>mfw := w\<rparr>)" "only_asks s1 (s1\<lparr>mfw := w\<rparr>)" for w
    using l(2) by (simp_all add: silent_def esp_load_def mqtt_is_connected_def only_asks_def)
  have "silent (mqtt_report s1) \<and> only_asks s1 (mqtt_report s1)"
    using u silent_publish(1) [OF u(1)] only_asks_trans [OF u(2) silent_publish(3) [OF u(1)]] by (cases "q_list q") (simp_all add: q'(4))
  then have r: "silent (mqtt_report s1)" "only_asks s (mqtt_report s1)" using only_asks_trans [OF l(4)] by auto
  note d = silent_delay [OF r(1), of 100]
  show ?thesis using run_turn [OF l(1) c(1)] d(1) only_asks_trans [OF r(2) d(2)] q' more_mfw [OF d(3)] by auto
qed

section \<open>Properties\<close>

definition mqtt_sys_boot :: mqtt_sys where
  "mqtt_sys_boot = \<lparr>s_rx = ring_init, s_wifi_connected = 1, s_link_state = replicate 5 0, uart_tx = [],
     uart_in = [], ticks = 0, s_state = MQTT_ST_CONNECTED, s_link_id = 0,
     s_config = \<lparr>s_client_id = MQTT_CLIENT_ID, s_user = [], s_pass = [], s_keepalive = 10\<rparr>,
     s_last_ping_ms = 0, s_next_packet_id = 1, s_rx_buf = [], mfw = firmware_boot, others = []\<rparr>"

lemma mqtt_sys_boot_ok: "mqtt_ok mqtt_sys_boot" "mqtt_is_connected mqtt_sys_boot" "silent mqtt_sys_boot"
  "ActuatorCmdQueue (mfw mqtt_sys_boot) = Some (prvInitialiseNewQueue 10)"
  "ReportQueue (mfw mqtt_sys_boot) = Some (prvInitialiseNewQueue 2)"
  using ring_init_ok
  by (simp_all add: silent_def mqtt_ok_def mqtt_sys_boot_def esp_ok_def esp_load_def mqtt_is_connected_def firmware_boot_def
      del: length_ring_bytes)

text \<open>C5: a control text published by the broker and received as one \<open>+IPD\<close> frame is carried from the
  receive ring to the actuators' queue in one call of \<open>mqtt_loop\<close>: exactly the command it stands
  for is appended, and nothing else that the tasks share is changed. The topic is not looked at.\<close>

theorem network_command:
  assumes "mqtt_ok s" and "ring_bytes (s_rx s) = ipd_frame (None, pkt)"
    and "build_publish cap topic (ctrl_json t v) len 0 pid = Some pkt" and "length pkt \<le> 512" and "length topic < 128"
    and "length (ctrl_json t v) = unat len" and "unat len \<le> 127" and "t = ''fan'' \<or> t = ''heat'' \<or> t = ''humid''"
    and "ActuatorCmdQueue (mfw s) = Some q" and "q_ok 10 q" and "length (q_list q) < 10"
  shows "\<exists>s' q'. mqtt_loop (Some mqtt_on_message) s = Some s' \<and> mfw s' = (mfw s)\<lparr>ActuatorCmdQueue := Some q'\<rparr> \<and>
    q_ok 10 q' \<and> q_list q' = q_list q @ (case net_command t (wrap32 (int v)) of None \<Rightarrow> [] | Some m \<Rightarrow> [m])"
proof -
  obtain r b s' where s': "mqtt_loop (Some mqtt_on_message) s = Some s'"
    "mqtt.more s' = mqtt.more (mqtt_on_message topic (ctrl_json t v) (s\<lparr>s_rx := r, s_rx_buf := b\<rparr>))"
    using publish_frame_loop [OF assms(1-6)] by blast
  have nn: "0 \<notin> set (ctrl_json t v)" by (rule ctrl_no_nul) (use assms(8) in \<open>auto simp: ascii_def\<close>)
  have ne: "ctrl_json t v \<noteq> []" "length (ctrl_json t v) \<le> 127" using assms(6,7) by (simp_all add: ctrl_json_def)
  have q: "ActuatorCmdQueue (mfw (s\<lparr>s_rx := r, s_rx_buf := b\<rparr>)) = Some q" using assms(9) by simp
  from on_message_command [OF ctrl_command [OF assms(8), of v] nn ne q assms(10,11), of topic]
  show ?thesis using s'(1) more_mfw [OF s'(2)] by simp
qed

lemma frame_in_ring:
  assumes "length pkt \<le> 512"
  shows "ring_ok (fold (\<lambda>b r. snd (ring_push r b)) (ipd_frame (None, pkt)) ring_init)"
    "ring_bytes (fold (\<lambda>b r. snd (ring_push r b)) (ipd_frame (None, pkt)) ring_init) = ipd_frame (None, pkt)"
proof -
  have "length (ipd_frame (None, pkt)) \<le> 1023"
    using assms dec_digits_length [of "length pkt" 3] by (simp add: ipd_frame_def ipd_head_def)
  then show "ring_ok (fold (\<lambda>b r. snd (ring_push r b)) (ipd_frame (None, pkt)) ring_init)"
    "ring_bytes (fold (\<lambda>b r. snd (ring_push r b)) (ipd_frame (None, pkt)) ring_init) = ipd_frame (None, pkt)"
    using esp_ring.burst [OF ring_init_ok(1), of "ipd_frame (None, pkt)"] ring_init_ok(2) by (simp_all del: fold_append)
qed

lemma network_command_witness:
  "\<exists>pkt s' q'. build_publish 512 MQTT_TOPIC_CTRL (ctrl_json ''fan'' 2) 26 0 0 = Some pkt \<and>
     mqtt_loop (Some mqtt_on_message) (mqtt_sys_boot\<lparr>s_rx := fold (\<lambda>b r. snd (ring_push r b)) (ipd_frame (None, pkt)) ring_init\<rparr>) = Some s' \<and>
     ActuatorCmdQueue (mfw s') = Some q' \<and> q_list q' = [\<lparr>target = APPLAY_TARGET_FAN, val = APPLAY_VAL_MID, source = SOURCE_NETWORK\<rparr>]"
proof -
  have len: "length (ctrl_json ''fan'' 2) = 26" by (simp add: ctrl_json_def json_key_def dec_digits.simps [of 2])
  obtain pkt where b: "build_publish 512 MQTT_TOPIC_CTRL (ctrl_json ''fan'' 2) 26 0 0 = Some pkt"
    by (simp add: build_publish_def Let_def)
  have lp: "length pkt \<le> 512" using build_publish_length [OF b] .
  let ?r = "fold (\<lambda>b r. snd (ring_push r b)) (ipd_frame (None, pkt)) ring_init"
  note r = frame_in_ring [OF lp]
  let ?s = "mqtt_sys_boot\<lparr>s_rx := ?r\<rparr>"
  have ok: "mqtt_ok ?s" using mqtt_sys_boot_ok(1) r(1) by (simp add: mqtt_ok_def esp_ok_def)
  have ring: "ring_bytes (s_rx ?s) = ipd_frame (None, pkt)" using r(2) by simp
  have q: "ActuatorCmdQueue (mfw ?s) = Some (prvInitialiseNewQueue 10)" using mqtt_sys_boot_ok(4) by simp
  have "net_command ''fan'' (wrap32 (int 2)) = Some \<lparr>target = APPLAY_TARGET_FAN, val = APPLAY_VAL_MID, source = SOURCE_NETWORK\<rparr>"
    by (simp add: net_command_def wrap32_def)
  then show ?thesis
    using network_command [OF ok ring b lp _ _ _ _ q q_ok_new] b len by fastforce
qed

text \<open>C6: the task never hangs: whatever the module and the broker send, however often the main loop
  turns, it comes back, either having deleted itself because the module could not be started or
  in a phase with the client's invariant intact, and in the run phase only with a session.\<close>

theorem mqtt_task_returns:
  assumes "mqtt_ok s"
  shows "\<exists>r. mqtt_task uart4 n s = Some r \<and> (case r of Inl s' \<Rightarrow> mqtt_ok s'
    | Inr (ph, pt, s') \<Rightarrow> mqtt_ok s' \<and> (ph = MQTT_PHASE_RUN \<longrightarrow> mqtt_is_connected s'))"
proof -
  have turns: "\<exists>st. mqtt_turns n (ph, pt, s) = Some st \<and> (case st of (ph, pt, s') \<Rightarrow>
      mqtt_ok s' \<and> (ph = MQTT_PHASE_RUN \<longrightarrow> mqtt_is_connected s'))"
    if "mqtt_ok s" "ph = MQTT_PHASE_RUN \<longrightarrow> mqtt_is_connected s" for n ph pt and s :: mqtt_sys
    using that
  proof (induction n arbitrary: ph pt s)
    case (Suc n)
    obtain ph' pt' s' where t: "mqtt_turn (ph, pt, s) = Some (ph', pt', s')" "turn_result ph (ph', pt', s')"
      using turn_total [OF Suc.prems(1), of ph pt] by auto
    then show ?case using Suc.IH [of s' ph' pt'] by (simp add: turn_result_def)
  qed simp
  have "esp_ok (vTaskDelay 2000 s)" using delay_keeps(1) [OF assms, of 2000] by (simp add: mqtt_ok_def)
  from esp8266_init_result [OF this, of uart4] obtain e s1 where
    i: "esp8266_init uart4 (vTaskDelay 2000 s) = Some (e, s1)" "esp_ok s1" "esp.more s1 = esp.more (vTaskDelay 2000 s)" by blast
  then have ok1: "mqtt_ok s1" using mqtt_ok_core [OF i(2) more_core(1) [OF i(3)] delay_keeps(1) [OF assms]] by simp
  let ?s2 = "snd (mqtt_client_init (Some MQTT_CLIENT_ID) (Some []) (Some []) 10 s1)"
  have "mqtt_ok ?s2" using ok1 by (simp add: mqtt_client_init_def mqtt_ok_def)
  then obtain st where "mqtt_turns n (MQTT_PHASE_INIT, ticks ?s2, ?s2) = Some st"
    "case st of (ph, pt, s') \<Rightarrow> mqtt_ok s' \<and> (ph = MQTT_PHASE_RUN \<longrightarrow> mqtt_is_connected s')"
    using turns [of ?s2 MQTT_PHASE_INIT n "ticks ?s2"] by auto
  then show ?thesis using i(1) ok1
    by (cases "e = ESP_OK") (simp_all add: mqtt_task_def mqtt_task_start_def Let_def)
qed

lemma mqtt_task_returns_witness: "\<exists>r. mqtt_task ESP_OK 1000 mqtt_sys_boot = Some r"
  using mqtt_task_returns [OF mqtt_sys_boot_ok(1), of ESP_OK 1000] by blast

text \<open>A module that falls silent is never noticed: with the session once open, the task stays in
  the run phase for ever, however many pings and publishes go unanswered. Every waiting report
  is taken off the queue and lost, and all that is ever sent are requests to send.\<close>

theorem silence_never_noticed:
  assumes "silent s" and "ReportQueue (mfw s) = Some q" and "q_ok 2 q"
  shows "\<exists>s' q'. mqtt_turns n (MQTT_PHASE_RUN, pt, s) = Some (MQTT_PHASE_RUN, pt, s') \<and> mqtt_is_connected s' \<and>
    ReportQueue (mfw s') = Some q' \<and> q_list q' = drop n (q_list q) \<and> set (uart_tx s') \<subseteq> set (uart_tx s) \<union> send_line"
proof -
  have "\<exists>s' q'. mqtt_turns n (MQTT_PHASE_RUN, pt, s) = Some (MQTT_PHASE_RUN, pt, s') \<and> silent s' \<and> only_asks s s' \<and>
    ReportQueue (mfw s') = Some q' \<and> q_list q' = drop n (q_list q)"
    using assms
  proof (induction n arbitrary: s q)
    case 0
    then show ?case by (simp add: only_asks_def)
  next
    case (Suc n)
    from silent_turn [OF Suc.prems, of pt] obtain s1 q1 where t: "mqtt_turn (MQTT_PHASE_RUN, pt, s) = Some (MQTT_PHASE_RUN, pt, s1)"
      "silent s1" "only_asks s s1" "ReportQueue (mfw s1) = Some q1" "q_ok 2 q1" "q_list q1 = tl (q_list q)" by blast
    from Suc.IH [OF t(2,4,5)] t(1,3,6) show ?case by (auto simp: drop_Suc dest: only_asks_trans)
  qed
  then show ?thesis by (auto simp: silent_def only_asks_def)
qed

lemma silence_never_noticed_witness:
  "\<exists>s' q'. mqtt_turns 100000 (MQTT_PHASE_RUN, 0, mqtt_sys_boot) = Some (MQTT_PHASE_RUN, 0, s') \<and> mqtt_is_connected s' \<and>
     ReportQueue (mfw s') = Some q'"
  using silence_never_noticed [OF mqtt_sys_boot_ok(3,5) q_ok_new, of 100000 0] by auto

text \<open>C7: a turn of the run phase publishes the report that has waited longest: if the module confirms
  the transmission, the last two transmissions are the announcement and a packet that a broker
  reads back as the report text on the report topic; confirmed or not, the report is off the
  queue and the others keep their order.\<close>

theorem report_published:
  assumes "mqtt_ok s" and "mqtt_loop (Some mqtt_on_message) s = Some s1" and "mqtt_is_connected s1"
    and "ReportQueue (mfw s1) = Some q" and "q_ok 2 q" and "q_list q = a # as"
  shows "\<exists>s' q' e. mqtt_turn (MQTT_PHASE_RUN, pt, s) = Some (MQTT_PHASE_RUN, pt, s') \<and> mqtt_is_connected s' \<and>
    ReportQueue (mfw s') = Some q' \<and> q_list q' = as \<and>
    e = fst (mqtt_publish (Some MQTT_TOPIC_REPORT) (Some (report_json a)) (of_nat (length (report_json a))) 0
          (s1\<lparr>mfw := (mfw s1)\<lparr>ReportQueue := Some q'\<rparr>\<rparr>)) \<and>
    (e = MQTT_OK \<longrightarrow> (\<exists>cmd pkt. uart_tx s' = uart_tx s1 @ [cmd, pkt] \<and>
       parse_publish pkt = Some \<lparr>pub_qos = 0, pub_topic = MQTT_TOPIC_REPORT, pub_pid = 0, pub_payload = report_json a\<rparr>))"
proof -
  have ok: "esp_ok s" using assms(1) by (simp add: mqtt_ok_def)
  have ok1: "esp_ok s1" "mqtt_ok s1"
    using agro.loop_total [OF ok] assms(2) mqtt_ok_core2 [OF _ _ assms(1)] by auto
  obtain q' where q0: "ReportQueue (mfw (mqtt_report s1)) = Some q'" "q_list q' = tl (q_list q)"
    "mqtt_report s1 = (case q_list q of [] \<Rightarrow> s1\<lparr>mfw := (mfw s1)\<lparr>ReportQueue := Some q'\<rparr>\<rparr> | a # _ \<Rightarrow>
        snd (mqtt_publish (Some MQTT_TOPIC_REPORT) (Some (report_json a)) (of_nat (length (report_json a))) 0
          (s1\<lparr>mfw := (mfw s1)\<lparr>ReportQueue := Some q'\<rparr>\<rparr>)))"
    using report_taken [OF ok1(1) assms(4,5)] by blast
  have q': "ReportQueue (mfw (mqtt_report s1)) = Some q'" "q_list q' = as"
    "mqtt_report s1 = snd (mqtt_publish (Some MQTT_TOPIC_REPORT) (Some (report_json a)) (of_nat (length (report_json a))) 0
          (s1\<lparr>mfw := (mfw s1)\<lparr>ReportQueue := Some q'\<rparr>\<rparr>))"
    using q0 by (simp_all add: assms(6))
  define u where "u = s1\<lparr>mfw := (mfw s1)\<lparr>ReportQueue := Some q'\<rparr>\<rparr>"
  have uok: "mqtt_ok u" "uart_tx u = uart_tx s1" using ok1(2) by (simp_all add: u_def)
  have len: "length (report_json a) = unat (of_nat (length (report_json a)) :: u16)"
    using report_length [of a] by (intro unat_of_nat_u16 [symmetric]) simp
  have lt: "length MQTT_TOPIC_REPORT < 128" by simp
  obtain e u' where p: "mqtt_publish (Some MQTT_TOPIC_REPORT) (Some (report_json a)) (of_nat (length (report_json a))) 0 u = (e, u')" by fastforce
  note w = publish_wire [OF uok(1) p lt len]
  have rep: "mqtt_report s1 = u'" using q'(3) p by (simp add: u_def)
  note k = mqtt_report_keeps [OF ok1(2), unfolded rep]
  note d = delay_keeps [OF k(1), of 100]
  have tx: "uart_tx (vTaskDelay 100 u') = uart_tx u'"
    by (cases "uart_in u'") (simp_all add: vTaskDelay_def irq_fold)
  have conn: "mqtt_is_connected (vTaskDelay 100 u')" using assms(3) core_connected k(2) d(2) by metis
  have turn: "mqtt_turn (MQTT_PHASE_RUN, pt, s) = Some (MQTT_PHASE_RUN, pt, vTaskDelay 100 u')"
    using run_turn [OF assms(2,3)] by (simp add: rep)
  have rq: "ReportQueue (mfw (vTaskDelay 100 u')) = Some q'" using q'(1) more_mfw [OF d(3)] by (simp add: rep)
  show ?thesis
    by (rule exI [of _ "vTaskDelay 100 u'"], rule exI [of _ q'], rule exI [of _ e])
      (use turn conn rq q'(2) p w uok(2) tx in \<open>simp add: u_def\<close>)
qed

definition mqtt_sys_reporting :: mqtt_sys where
  "mqtt_sys_reporting = mqtt_sys_boot\<lparr>mfw := firmware_boot\<lparr>ReportQueue :=
     Some (snd (xQueueSend (prvInitialiseNewQueue 2) \<lparr>err_bits = 0, temp_avg_x10 = 253, humi_avg_x10 = 601, rain_flag = 0,
       co2_avg = 820, co_avg = 12, sample_count = 120\<rparr> 0 []))\<rparr>\<rparr>"

lemma report_published_witness:
  "\<exists>s1 s' q'. mqtt_loop (Some mqtt_on_message) mqtt_sys_reporting = Some s1 \<and>
     mqtt_turn (MQTT_PHASE_RUN, 0, mqtt_sys_reporting) = Some (MQTT_PHASE_RUN, 0, s') \<and> ReportQueue (mfw s') = Some q' \<and> q_list q' = []"
proof -
  let ?a = "\<lparr>err_bits = 0, temp_avg_x10 = 253, humi_avg_x10 = 601, rain_flag = 0, co2_avg = 820, co_avg = 12, sample_count = 120\<rparr> :: env_avg_t"
  let ?q = "snd (xQueueSend (prvInitialiseNewQueue 2) ?a 0 [])"
  have "q_inv (prvInitialiseNewQueue 2 :: env_avg_t queue)"
    "length (q_list (prvInitialiseNewQueue 2 :: env_avg_t queue)) < uxLength (prvInitialiseNewQueue 2 :: env_avg_t queue)"
    using q_inv_new [of 2] by simp_all
  note b = send_has_room [OF this, of ?a 0 "[]"]
  have q: "q_list ?q = [?a]" "q_ok 2 ?q"
    using b(2,3,4) by (simp_all only: q_ok_def q_list_new append_Nil uxLength_new simp_thms)
  have s: "silent mqtt_sys_reporting"
    using mqtt_sys_boot_ok(3) by (simp add: mqtt_sys_reporting_def silent_def esp_load_def mqtt_is_connected_def)
  from silent_loop [OF s] obtain s1 where l: "mqtt_loop (Some mqtt_on_message) mqtt_sys_reporting = Some s1" "silent s1"
    "mqtt.more s1 = mqtt.more mqtt_sys_reporting" by blast
  have k: "mqtt_ok mqtt_sys_reporting" "mqtt_is_connected s1" using s l(2) by (simp_all add: silent_def)
  have "ReportQueue (mfw s1) = Some ?q" using more_mfw [OF l(3)] by (simp add: mqtt_sys_reporting_def)
  from report_published [OF k(1) l(1) k(2) this q(2,1), of 0] l(1) show ?thesis by blast
qed

end
