(* ===== verification/Mqtt_App.thy ===== *)
theory Mqtt_App
  imports Mqtt_Client
begin

text \<open>
  What an application keeps of its own state across every operation of the MQTT client: the
  client touches the application's part (\<open>mqtt.more\<close>) only by calling the message callback, so
  a property of that part which the callback keeps is kept by the whole client.
\<close>

section \<open>Operations that leave the application's part alone\<close>

lemma tcp_close_more:
  fixes s :: "'a mqtt_scheme"
  assumes "esp_ok s"
  shows "mqtt.more (snd (esp8266_tcp_close l s)) = mqtt.more s"
proof -
  obtain r s1 where w: "at_wait_for (ascii ''OK'') 3000 (at_send_line (ascii ''AT+CIPCLOSE'') s) = (r, s1)" by fastforce
  note q1 = quiet_line [OF assms(1), of "ascii ''AT+CIPCLOSE''"]
  note q = quiet_trans [OF q1 quiet_wait [OF quiet_ok [OF q1] ascii_Cons w]]
  have "mqtt.more s1 = mqtt.more s" using q more_core(3) [of s1 s] by (simp add: quiet_def)
  then show ?thesis using w by (auto simp: esp8266_tcp_close_def split: if_splits option.splits)
qed

lemma take_id_more [simp]:
  fixes s :: "'a mqtt_scheme"
  shows "mqtt.more (snd (take_packet_id s)) = mqtt.more s"
  by (simp add: take_packet_id_def Let_def)

lemma send_packet_more:
  fixes s :: "'a mqtt_scheme"
  assumes "esp_ok s"
  shows "mqtt.more (snd (send_packet p s)) = mqtt.more s"
proof (cases p)
  case (Some b)
  obtain e s' where t: "esp8266_tcp_send (uint (s_link_id s)) (Some b) (of_nat (length b)) s = (e, s')" by fastforce
  then show ?thesis using Some tcp_send_keeps [OF assms t] by (simp add: send_packet_def)
qed (simp add: send_packet_def)

lemma operations_more:
  fixes s :: "'a mqtt_scheme"
  assumes "esp_ok s"
  shows "mqtt.more (snd (mqtt_publish t d n q s)) = mqtt.more s"
    "mqtt.more (snd (mqtt_subscribe t q s)) = mqtt.more s" "mqtt.more (snd (mqtt_unsubscribe t s)) = mqtt.more s"
    "mqtt.more (snd (mqtt_disconnect s)) = mqtt.more s"
proof -
  have ok: "esp_ok (snd (take_packet_id s))" using assms by simp
  show "mqtt.more (snd (mqtt_publish t d n q s)) = mqtt.more s"
    using send_packet_more [OF assms] send_packet_more [OF ok]
    by (auto simp: mqtt_publish_def Let_def split_beta split: option.split)
  show "mqtt.more (snd (mqtt_subscribe t q s)) = mqtt.more s" "mqtt.more (snd (mqtt_unsubscribe t s)) = mqtt.more s"
    using send_packet_more [OF ok]
    by (auto simp: mqtt_subscribe_def mqtt_unsubscribe_def Let_def split_beta split: option.split)
  define s1 where "s1 = (case build_disconnect 2 of None \<Rightarrow> s
     | Some buf \<Rightarrow> snd (esp8266_tcp_send (uint (s_link_id s)) (Some buf) (of_nat (length buf)) s))"
  have "esp_ok s1 \<and> mqtt.more s1 = mqtt.more s"
    using assms tcp_send_keeps(1,5) [OF assms prod.collapse [symmetric]] by (auto simp: s1_def split: option.split)
  then show "mqtt.more (snd (mqtt_disconnect s)) = mqtt.more s"
    using tcp_close_more [of s1] by (auto simp: mqtt_disconnect_def Let_def s1_def [symmetric])
qed

section \<open>The invariant of an application\<close>

locale mqtt_app_inv = mqtt_app cb
  for cb :: "u8 list \<Rightarrow> u8 list \<Rightarrow> 'a mqtt_scheme \<Rightarrow> 'a mqtt_scheme" +
  fixes P :: "'a mqtt_scheme \<Rightarrow> bool"
  assumes own_part: "mqtt.more s' = mqtt.more s \<Longrightarrow> P s \<Longrightarrow> P s'"
    and app_keeps: "P s \<Longrightarrow> P (cb t p s)"

context mqtt_app_inv
begin

lemma publish_inv:
  assumes "esp_ok s" "P s"
  shows "P (handle_publish (Some cb) d s)"
proof (cases "parse_publish d")
  case None
  then show ?thesis using assms by (simp add: handle_publish_def)
next
  case (Some m)
  let ?s1 = "cb (pub_topic m) (pub_payload m) s"
  obtain e s2 where t: "esp8266_tcp_send (uint (s_link_id ?s1)) (Some (puback (pub_pid m))) 4 ?s1 = (e, s2)" by fastforce
  have p: "P ?s1" by (rule app_keeps [OF assms(2)])
  have "P s2" by (rule own_part [OF tcp_send_keeps(5) [OF app_ok [OF assms(1)] t] p])
  then show ?thesis using Some t p by (simp add: handle_publish_def Let_def)
qed

lemma packet_inv:
  assumes "esp_ok s" "P s"
  shows "P (handle_packet (Some cb) d n s)"
  using publish_inv [OF assms] own_part [OF _ assms(2)] assms(2) by (simp add: handle_packet_def Let_def)

lemma rx_inv: "esp_ok s \<Longrightarrow> P s \<Longrightarrow> P (handle_rx (Some cb) d s)"
proof (induction "Some cb" d s rule: handle_rx.induct)
  case (1 data s)
  show ?case
  proof (cases "length data < 2 \<or> mqtt_decode_len (drop 1 data) = None")
    case True
    then have "handle_rx (Some cb) data s = s" by (subst handle_rx.simps) auto
    then show ?thesis using 1(3) by simp
  next
    case False
    then obtain rem rb where d: "mqtt_decode_len (drop 1 data) = Some (rem, rb)" "\<not> length data < 2" by auto
    let ?n = "1 + rb + unat rem"
    have u: "handle_rx (Some cb) data s = (if ?n > length data then s else
        handle_rx (Some cb) (drop ?n data) (handle_packet (Some cb) (take ?n data) rb s))"
      unfolding handle_rx.simps [of "Some cb" data s] using d by (simp add: Let_def)
    show ?thesis
    proof (cases "?n > length data")
      case True
      then show ?thesis using u 1(3) by simp
    next
      case False
      note IH = 1(1) [OF d(2) d(1) refl refl False packet_keeps(1) [OF 1(2)] packet_inv [OF 1(2,3)]]
      show ?thesis using u False IH by simp
    qed
  qed
qed

lemma recv_inv:
  assumes "esp_ok s" "P s"
  shows "P (on_esp_recv (Some cb) l d s)"
proof -
  have "P (s\<lparr>s_rx_buf := take 512 d\<rparr>)" by (rule own_part [OF _ assms(2)]) simp
  then show ?thesis using rx_inv [of "s\<lparr>s_rx_buf := take 512 d\<rparr>" "take 512 d"] assms by (simp add: on_esp_recv_def Let_def)
qed

lemma loop_inv:
  assumes "esp_ok s" "P s" "mqtt_loop (Some cb) s = Some s'"
  shows "P s'"
proof -
  obtain s1 where s1: "esp8266_loop (Some (on_esp_recv (Some cb))) s = Some s1" "esp_ok s1"
    using rx.loop_returns [OF assms(1)] by blast
  obtain s2 where s2: "parse_ipd_frames (Some (on_esp_recv (Some cb))) s = Some s2" "urc_loop s2 = Some s1"
    using s1(1) by (auto simp: esp8266_loop_def bind_eq_Some_conv)
  have keep: "P (f l d t)" if "Some (on_esp_recv (Some cb)) = Some f" "esp_ok t" "P t" for f l d t
    using that recv_inv by auto
  have ring: "P (t\<lparr>s_rx := r\<rparr>)" if "P t" for t r by (rule own_part [OF _ that]) simp
  have "P s2"
  proof (rule parse_ipd_frames_inv [where P = P and recv = "Some (on_esp_recv (Some cb))" and s = s and s' = s2])
    show "P (f l d t)" if "Some (on_esp_recv (Some cb)) = Some f" "esp_ok t" "P t" for f l d t using that by (rule keep)
    show "P (t\<lparr>s_rx := r\<rparr>)" if "P t" for t r using that by (rule ring)
  qed (use rx.recv_ok assms(1,2) s2(1) in simp_all)
  moreover have "esp_ok s2" using parse_ipd_frames_total [OF rx.recv_ok assms(1)] s2(1) by auto
  then have "esp.more s1 = esp.more s2" using urc_loop_rest s2(2) by blast
  ultimately have p1: "P s1" using own_part more_core(3) by blast
  obtain e s3 where t: "esp8266_tcp_send (uint (s_link_id s1)) (Some [0xC0, 0]) 2 s1 = (e, s3)" by fastforce
  have ping: "build_pingreq 2 = Some [0xC0, 0]" by (simp add: build_pingreq_def push_bit_eq_mult)
  have "P (s3\<lparr>s_last_ping_ms := now\<rparr>)" for now by (rule own_part [OF _ p1]) (simp add: tcp_send_keeps(5) [OF s1(2) t])
  then show ?thesis using assms(3) p1 by (auto simp: mqtt_loop_def s1(1) Let_def ping t split: if_splits)
qed

lemma spin_inv:
  assumes "esp_ok s" "P s"
  shows "P (spin s)"
proof -
  have "ring_ok (s_rx s)" using assms(1) by (simp add: esp_ok_def)
  from rx_only_fields(4) [OF spin_facts(1) [OF this]] show ?thesis using more_core(3) own_part assms(2) by blast
qed

text \<open>The wait for the answer to CONNECT, along the same measure as its termination.\<close>

lemma wait_connack_inv:
  assumes "esp_ok s" "P s" "wait_connack (Some cb) start s = Some (e, s')"
  shows "P s'"
  using assms
proof (induction "(esp_load s, 10000 - unat (ticks s - start))" arbitrary: s rule: wf_induct_rule [OF wf_lex_prod [OF wf_less wf_less]])
  case (1 s)
  have close: "P (snd (esp8266_tcp_close l s))" for l by (rule own_part [OF tcp_close_more [OF 1(2)] 1(3)])
  have late: "P (t\<lparr>s_state := v\<rparr>)" if "P t" for t v by (rule own_part [OF _ that]) simp
  show ?case
  proof (cases "ticks s - start < 10000 \<and> s_state s \<noteq> MQTT_ST_CONNECTED \<and> s_state s \<noteq> MQTT_ST_DISCONNECTED")
    case False
    then show ?thesis using 1(3,4) close late by (subst (asm) wait_connack.simps) (auto simp: Let_def split: if_splits)
  next
    case True
    obtain s1 where s1: "mqtt_loop (Some cb) s = Some s1" "esp_ok s1" "esp_load s1 \<le> esp_load s"
      "esp_load s1 = esp_load s \<longrightarrow> s1 = s"
      using loop_total [OF 1(2)] True by blast
    have rok: "ring_ok (s_rx s1)" using s1(2) by (simp add: esp_ok_def)
    note sp = spin_facts [OF rok]
    have ok2: "esp_ok (spin s1)" by (rule rx_only_ok [OF sp(1,2) s1(2)])
    have p2: "P (spin s1)" by (rule spin_inv [OF s1(2) loop_inv [OF 1(2,3) s1(1)]])
    have m: "((esp_load (spin s1), 10000 - unat (ticks (spin s1) - start)),
        (esp_load s, 10000 - unat (ticks s - start))) \<in> {(x, y). x < y} <*lex*> {(x, y). x < y}"
      by (rule wait_measure [OF s1(3,4) sp(3,4)]) (use True in simp)
    have "wait_connack (Some cb) start (spin s1) = Some (e, s')"
      using True s1(1) 1(4) by (subst (asm) wait_connack.simps) simp
    then show ?thesis by (rule 1(1) [OF m ok2 p2])
  qed
qed

lemma connect_inv:
  assumes "esp_ok s" "P s" "mqtt_connect_broker (Some cb) host port s = Some (e, s')"
  shows "P s'"
proof (cases "host = None \<or> esp8266_wifi_is_connected s = 0")
  case True
  then show ?thesis using assms by (auto simp: mqtt_connect_broker_def split: if_splits)
next
  case False
  obtain r s1 where c: "esp8266_tcp_connect host port s = Some (r, s1)" "esp_ok s1" "esp.more s1 = esp.more s"
    using tcp_connect_total [OF assms(1), of host port] by auto
  have p1: "P s1" by (rule own_part [OF more_core(3) [OF c(3)] assms(2)])
  define s2 where "s2 = s1\<lparr>s_link_id := word_of_int r, s_state := MQTT_ST_TCP_OPEN\<rparr>"
  have ok2: "esp_ok s2" using c(2) by (simp add: s2_def)
  have p2: "P s2" by (rule own_part [OF _ p1]) (simp add: s2_def)
  have late: "P (t\<lparr>s_state := v\<rparr>)" if "P t" for t v by (rule own_part [OF _ that]) simp
  show ?thesis
  proof (cases "build_connect (s_config s2) 256")
    case None
    then show ?thesis using assms(3) c(1) False p1 p2
      by (auto simp: mqtt_connect_broker_def Let_def s2_def [symmetric] split: if_splits)
  next
    case (Some buf)
    let ?s3 = "s2\<lparr>s_state := MQTT_ST_CONNECT_SENT\<rparr>"
    obtain x s4 where t: "esp8266_tcp_send (uint (s_link_id s2)) (Some buf) (of_nat (length buf)) ?s3 = (x, s4)" by fastforce
    have ok3: "esp_ok ?s3" using ok2 by simp
    note k = tcp_send_keeps(1,5) [OF ok3 t]
    have p4: "P s4" by (rule own_part [OF k(2) late [OF p2]])
    have u: "mqtt_connect_broker (Some cb) host port s =
        (if r < 0 then Some (MQTT_ERR_NET, s1)
         else if x \<noteq> ESP_OK then Some (MQTT_ERR_NET, s4\<lparr>s_state := MQTT_ST_DISCONNECTED\<rparr>)
         else wait_connack (Some cb) (ticks s4) s4)"
      using c False Some t by (auto simp: mqtt_connect_broker_def Let_def s2_def)
    show ?thesis
    proof (cases "r < 0 \<or> x \<noteq> ESP_OK")
      case True
      then show ?thesis using assms(3) u p1 late [OF p4] by (auto split: if_splits)
    next
      case False
      then have "wait_connack (Some cb) (ticks s4) s4 = Some (e, s')" using assms(3) u by simp
      then show ?thesis by (rule wait_connack_inv [OF k(1) p4])
    qed
  qed
qed

end

end
