(* ===== verification/Shared_Fw.thy ===== *)
theory Shared_Fw
  imports Task_Lora Task_Mqtt Gui_Panel Mqtt_App
begin

text \<open>
  What one turn of each task does to the state the tasks share: the four queues and the
  actuators. A send or a receive that would have to wait does so without another task running
  in between; the tasks are interleaved turn by turn.
\<close>

section \<open>Contents of the queues\<close>

definition cmds :: "'z firmware_scheme \<Rightarrow> applay_msg_t list" where
  "cmds w = (case ActuatorCmdQueue w of None \<Rightarrow> [] | Some q \<Rightarrow> q_list q)"

definition samples :: "'z data_queues_scheme \<Rightarrow> env_sample_t list" where
  "samples w = (case EnvSampleQueue w of None \<Rightarrow> [] | Some q \<Rightarrow> q_list q)"

definition reports :: "'z data_queues_scheme \<Rightarrow> env_avg_t list" where
  "reports w = (case ReportQueue w of None \<Rightarrow> [] | Some q \<Rightarrow> q_list q)"

definition shown :: "'z data_queues_scheme \<Rightarrow> env_avg_t list" where
  "shown w = (case LV_RXDataQueue w of None \<Rightarrow> [] | Some q \<Rightarrow> q_list q)"

lemmas contents_defs = cmds_def samples_def reports_def shown_def

text \<open>The actuators as the hardware has them: everything but the two status bytes of the fan.\<close>

definition hw_ok :: "actuators \<Rightarrow> bool" where
  "hw_ok a \<longleftrightarrow> 0 \<le> pwm_compare a \<and> pwm_compare a \<le> 300 \<and> fan_lit a = (pwm_compare a \<noteq> 0) \<and>
     heat_ok a \<and> humid_ok a \<and> fan_mutex a \<noteq> Some True"

definition hw_part :: "actuators \<Rightarrow> int \<times> u16 \<times> u8 \<times> u8 \<times> bool option" where
  "hw_part a = (pwm_compare a, gpioc a, heat_running a, humid_running a, fan_mutex a)"

definition fw_ok :: "'z firmware_scheme \<Rightarrow> bool" where
  "fw_ok w \<longleftrightarrow> (\<exists>e r l c. EnvSampleQueue w = Some e \<and> q_ok 8 e \<and> ReportQueue w = Some r \<and> q_ok 2 r \<and>
     LV_RXDataQueue w = Some l \<and> q_ok 1 l \<and> ActuatorCmdQueue w = Some c \<and> q_ok 10 c \<and> hw_ok (act w))"

lemma hw_ok_part: "hw_part a' = hw_part a \<Longrightarrow> hw_ok a' = hw_ok a"
  by (simp add: hw_part_def hw_ok_def heat_ok_def humid_ok_def)

lemma fw_okE:
  assumes "fw_ok w"
  obtains e r l c where "EnvSampleQueue w = Some e" "q_ok 8 e" "ReportQueue w = Some r" "q_ok 2 r"
    "LV_RXDataQueue w = Some l" "q_ok 1 l" "ActuatorCmdQueue w = Some c" "q_ok 10 c" "hw_ok (act w)"
  using assms by (auto simp: fw_ok_def)

text \<open>A send and a receive without interference.\<close>

lemma send_alone:
  assumes "q_ok n q"
  shows "q_ok n (snd (xQueueSend q x t []))"
    "q_list (snd (xQueueSend q x t [])) = q_list q @ (if length (q_list q) < n then [x] else [])"
proof -
  show "q_ok n (snd (xQueueSend q x t []))" by (rule send_ok [OF assms]) (simp add: wakeups_ok_def)
  show "q_list (snd (xQueueSend q x t [])) = q_list q @ (if length (q_list q) < n then [x] else [])"
  proof (cases "length (q_list q) < n")
    case True
    then have "q_inv q" "length (q_list q) < uxLength q" using assms by (simp_all add: q_ok_def)
    from send_has_room(2) [OF this, of x t "[]"] True show ?thesis by simp
  next
    case False
    then have "\<not> q_has_room q queueSEND_TO_BACK" using assms by (simp add: q_ok_def q_has_room_def)
    then show ?thesis using False by simp
  qed
qed

lemma receive_alone:
  assumes "q_ok n q"
  shows "q_ok n (snd (xQueueReceive q t []))" "q_list (snd (xQueueReceive q t [])) = tl (q_list q)"
    "fst (xQueueReceive q t []) = (case q_list q of [] \<Rightarrow> None | x # _ \<Rightarrow> Some x)"
proof -
  show "q_ok n (snd (xQueueReceive q t []))" by (rule receive_ok [OF assms]) (simp add: wakeups_ok_def)
  have "q_list (snd (xQueueReceive q t [])) = tl (q_list q) \<and>
    fst (xQueueReceive q t []) = (case q_list q of [] \<Rightarrow> None | x # _ \<Rightarrow> Some x)"
  proof (cases "q_list q")
    case Nil
    then have "uxMessagesWaiting q = 0" by (metis list.size(3) q_list_length)
    then show ?thesis using Nil by simp
  next
    case (Cons y ys)
    then show ?thesis using receive_now(1,2) [OF _ Cons, of t "[]"] assms by (simp add: q_ok_def)
  qed
  then show "q_list (snd (xQueueReceive q t [])) = tl (q_list q)"
    "fst (xQueueReceive q t []) = (case q_list q of [] \<Rightarrow> None | x # _ \<Rightarrow> Some x)" by auto
qed

section \<open>What a turn may do\<close>

text \<open>
  A task that commands the actuators only appends its own commands; the automatic control and
  the panel only command the fan.
\<close>

definition own_command :: "source_t \<Rightarrow> applay_msg_t \<Rightarrow> bool" where
  "own_command src m \<longleftrightarrow> source m = src \<and> (src = SOURCE_AUTO \<or> src = SOURCE_GUI \<longrightarrow> target m = APPLAY_TARGET_FAN)"

definition commands_from :: "source_t \<Rightarrow> 'z firmware_scheme \<Rightarrow> 'z firmware_scheme \<Rightarrow> bool" where
  "commands_from src w w' \<longleftrightarrow> fw_ok w' \<and> hw_part (act w') = hw_part (act w) \<and>
     (\<exists>ms. cmds w' = cmds w @ ms \<and> (\<forall>m \<in> set ms. own_command src m))"

lemma commands_none: "fw_ok w \<Longrightarrow> commands_from src w w"
  by (simp add: commands_from_def)

lemma commands_trans: "commands_from src w w1 \<Longrightarrow> commands_from src w1 w2 \<Longrightarrow> commands_from src w w2"
  by (auto simp: commands_from_def)

lemma commands_ok: "commands_from src w w' \<Longrightarrow> fw_ok w'"
  by (simp add: commands_from_def)

text \<open>One command, sent in whatever way.\<close>

lemma command_sent:
  assumes "fw_ok w" "ActuatorCmdQueue w = Some q" "own_command src m" "hw_part a = hw_part (act w)"
  shows "commands_from src w (w\<lparr>act := a, ActuatorCmdQueue := Some (snd (xQueueSend q m t []))\<rparr>)"
proof -
  from fw_okE [OF assms(1)] have q: "q_ok 10 q" using assms(2) by (metis option.inject)
  have "fw_ok (w\<lparr>act := a, ActuatorCmdQueue := Some (snd (xQueueSend q m t []))\<rparr>)"
    using assms(1) send_alone(1) [OF q, of m t] hw_ok_part [OF assms(4)] by (auto simp: fw_ok_def simp del: xQueueGenericSend.simps)
  then show ?thesis using assms(2-4) send_alone(2) [OF q, of m t]
    by (simp add: commands_from_def cmds_def)
qed

section \<open>The tasks\<close>

definition applay_turn :: "firmware \<Rightarrow> firmware" where
  "applay_turn w = (case applay_task_step (ActuatorCmdQueue w) (act w) of
     (hq, a, _) \<Rightarrow> w\<lparr>ActuatorCmdQueue := hq, act := a\<rparr>)"

lemma dispatch_hw_ok: "hw_ok a \<Longrightarrow> hw_ok (applay_dispatch (Some m) a)"
proof -
  assume ok: "hw_ok a"
  have fan: "hw_ok (fan_apply (Some m) a)"
  proof (cases "fan_cmd (source m) (val m)")
    case None
    then show ?thesis using ok by (simp add: fan_apply_ignored hw_ok_def heat_ok_def humid_ok_def)
  next
    case (Some c)
    then obtain pwm pct where c: "fan_cmd (source m) (val m) = Some (pwm, pct)" by (cases c) auto
    show ?thesis using ok fan_cmd_range [OF c]
      by (simp add: fan_apply_cmd [OF c] fan_effect_def hw_ok_def heat_ok_def humid_ok_def gpio_write_pin)
  qed
  show ?thesis using ok fan
    by (cases "target m") (auto simp: applay_dispatch_def hw_ok_def heat_ok_def humid_ok_def heat_apply_eq humid_apply_eq gpio_write_pin)
qed

lemma applay_effect:
  assumes "fw_ok w"
  shows "fw_ok (applay_turn w)" "cmds (applay_turn w) = tl (cmds w)"
    "act (applay_turn w) = (case cmds w of [] \<Rightarrow> act w | m # _ \<Rightarrow> applay_dispatch (Some m) (act w))"
    "samples (applay_turn w) = samples w" "reports (applay_turn w) = reports w" "shown (applay_turn w) = shown w"
proof -
  obtain e r l c where q: "EnvSampleQueue w = Some e" "q_ok 8 e" "ReportQueue w = Some r" "q_ok 2 r"
    "LV_RXDataQueue w = Some l" "q_ok 1 l" "ActuatorCmdQueue w = Some c" "q_ok 10 c" "hw_ok (act w)"
    by (rule fw_okE [OF assms])
  obtain m c' where r: "xQueueReceive c 0 [] = (m, c')" by fastforce
  note k = receive_alone [OF q(8), of 0, unfolded r fst_conv snd_conv]
  have t: "applay_turn w = w\<lparr>ActuatorCmdQueue := Some c',
      act := (case m of None \<Rightarrow> act w | Some am \<Rightarrow> applay_dispatch (Some am) (act w))\<rparr>"
    using q(7) r by (cases m) (simp_all add: applay_turn_def applay_task_step_def)
  show "cmds (applay_turn w) = tl (cmds w)" using k(2) q(7) by (simp add: t cmds_def)
  show "act (applay_turn w) = (case cmds w of [] \<Rightarrow> act w | m # _ \<Rightarrow> applay_dispatch (Some m) (act w))"
    using k(3) q(7) by (cases "q_list c") (simp_all add: t cmds_def)
  show "samples (applay_turn w) = samples w" "reports (applay_turn w) = reports w" "shown (applay_turn w) = shown w"
    by (simp_all add: t contents_defs)
  show "fw_ok (applay_turn w)" using q k(1) dispatch_hw_ok by (auto simp: t fw_ok_def split: option.split)
qed

text \<open>The sensor task.\<close>

lemma sensor_rest:
  "ReportQueue (snd (sensor_step r a b (t, w))) = ReportQueue w"
  "LV_RXDataQueue (snd (sensor_step r a b (t, w))) = LV_RXDataQueue w"
  "hw_part (act (snd (sensor_step r a b (t, w)))) = hw_part (act w)"
proof -
  have p: "ReportQueue (snd (post_sample s p)) = ReportQueue (snd p)" "LV_RXDataQueue (snd (post_sample s p)) = LV_RXDataQueue (snd p)"
    "ReportQueue (snd (print_sensor_error_state e p)) = ReportQueue (snd p)"
    "LV_RXDataQueue (snd (print_sensor_error_state e p)) = LV_RXDataQueue (snd p)"
    "ReportQueue (snd (manual_timeout a b p)) = ReportQueue (snd p)" "LV_RXDataQueue (snd (manual_timeout a b p)) = LV_RXDataQueue (snd p)"
    "hw_part (act (snd (manual_timeout a b p))) = hw_part (act (snd p))"
    "ReportQueue (snd (auto_control v p)) = ReportQueue (snd p)" "LV_RXDataQueue (snd (auto_control v p)) = LV_RXDataQueue (snd p)"
    for s e v and p :: "sensor_task \<times> 'a firmware_scheme"
    by (simp_all add: post_sample_def print_sensor_error_state_def manual_timeout_def auto_control_def hw_part_def split_beta Let_def
        split: option.split)
  obtain s t1 where j: "sensor_judge r t = (s, t1)" by fastforce
  show "ReportQueue (snd (sensor_step r a b (t, w))) = ReportQueue w"
    "LV_RXDataQueue (snd (sensor_step r a b (t, w))) = LV_RXDataQueue w"
    "hw_part (act (snd (sensor_step r a b (t, w)))) = hw_part (act w)"
    unfolding step_unfold [OF j] by (simp_all add: p split_beta print_frame(3) post_sample_frame(2) auto_frame(2))
qed

lemma sensor_effect:
  fixes w :: "'z firmware_scheme" and r :: sensor_readings and a b :: u32 and t :: sensor_task
  assumes "fw_ok w"
  defines "w' \<equiv> snd (sensor_step r a b (t, w))"
  shows "commands_from SOURCE_AUTO w w'"
    "samples w' = samples w @ (if length (samples w) < 8 then [fst (sensor_judge r t)] else [])"
    "reports w' = reports w" "shown w' = shown w"
proof -
  obtain e r' l c where q: "EnvSampleQueue w = Some e" "q_ok 8 e" "ReportQueue w = Some r'" "q_ok 2 r'"
    "LV_RXDataQueue w = Some l" "q_ok 1 l" "ActuatorCmdQueue w = Some c" "q_ok 10 c" "hw_ok (act w)"
    by (rule fw_okE [OF assms(1)])
  define c' where "c' = (if fan_level r \<noteq> last_auto_cmd t \<and> mode_control (act w) = 0
    then snd (xQueueSend c (fan_auto_msg (fan_level r)) 0 []) else c)"
  have ms: "\<exists>ms. q_list c' = q_list c @ ms \<and> (\<forall>m \<in> set ms. own_command SOURCE_AUTO m)" "q_ok 10 c'"
    using send_alone [OF q(8), of "fan_auto_msg (fan_level r)" 0] q(8)
    by (auto simp: c'_def own_command_def fan_auto_msg_def simp del: xQueueGenericSend.simps)
  note sq = step_sample [OF q(1), of r a b t] step_cmd_queue [OF q(7), of r a b t, folded c'_def]
  note se = send_alone [OF q(2), of "fst (sensor_judge r t)" 0]
  have "fw_ok w'" using q ms(2) sq se(1) sensor_rest [of r a b t w] hw_ok_part [OF sensor_rest(3) [of r a b t w]]
    by (simp add: w'_def fw_ok_def del: xQueueGenericSend.simps)
  then show "commands_from SOURCE_AUTO w w'"
    using ms(1) sq(2) q(7) sensor_rest(3) [of r a b t w] by (simp add: commands_from_def w'_def cmds_def)
  show "samples w' = samples w @ (if length (samples w) < 8 then [fst (sensor_judge r t)] else [])"
    using q(1) sq(1) se(2) by (simp add: w'_def samples_def del: xQueueGenericSend.simps)
  show "reports w' = reports w" "shown w' = shown w"
    by (simp_all add: w'_def reports_def shown_def sensor_rest)
qed

text \<open>The data task: the average that is due goes to the panel and, if there is room, to the up-links.\<close>

lemma data_effect:
  fixes w :: "'z firmware_scheme" and now :: u32 and d :: data_process
  assumes "fw_ok w"
  defines "w' \<equiv> snd (data_process_step now [] [] (d, w))"
    and "out \<equiv> fst (dp_turn (case samples w of [] \<Rightarrow> None | s # _ \<Rightarrow> Some s) now d)"
  shows "fw_ok w'" "cmds w' = cmds w" "act w' = act w" "samples w' = tl (samples w)"
    "reports w' = reports w @ (case out of None \<Rightarrow> [] | Some a \<Rightarrow> if length (reports w) < 2 then [a] else [])"
    "shown w' = (case out of None \<Rightarrow> shown w | Some a \<Rightarrow> [a])"
    "fst (data_process_step now [] [] (d, w)) = snd (dp_turn (case samples w of [] \<Rightarrow> None | s # _ \<Rightarrow> Some s) now d)"
proof -
  obtain e r l c where q: "EnvSampleQueue w = Some e" "q_ok 8 e" "ReportQueue w = Some r" "q_ok 2 r"
    "LV_RXDataQueue w = Some l" "q_ok 1 l" "ActuatorCmdQueue w = Some c" "q_ok 10 c" "hw_ok (act w)"
    by (rule fw_okE [OF assms(1)])
  obtain m e' where m: "xQueueReceive e 60000 [] = (m, e')" by fastforce
  note k = receive_alone [OF q(2), of 60000, unfolded m fst_conv snd_conv]
  have sm: "m = (case samples w of [] \<Rightarrow> None | s # _ \<Rightarrow> Some s)" using k(3) q(1) by (simp add: samples_def)
  obtain d' where t: "dp_turn m now d = (out, d')" by (cases "dp_turn m now d") (simp add: out_def sm)
  define r' where "r' = (case out of None \<Rightarrow> r | Some a \<Rightarrow> snd (xQueueSend r a 100 []))"
  define l' where "l' = (case out of None \<Rightarrow> l | Some a \<Rightarrow> snd (xQueueOverwrite l a))"
  have step: "data_process_step now [] [] (d, w) = (d', w\<lparr>EnvSampleQueue := Some e', ReportQueue := Some r', LV_RXDataQueue := Some l'\<rparr>)"
    using q(1,3,5) m t by (cases w; cases out) (simp_all add: data_process_step_def r'_def l'_def Let_def)
  have r': "q_ok 2 r'" "q_list r' = q_list r @ (case out of None \<Rightarrow> [] | Some a \<Rightarrow> if length (q_list r) < 2 then [a] else [])"
    using send_alone [OF q(4)] q(4) by (auto simp: r'_def split: option.split simp del: xQueueGenericSend.simps)
  have l': "q_ok 1 l'" "q_list l' = (case out of None \<Rightarrow> q_list l | Some a \<Rightarrow> [a])"
    using overwrite_facts(2,3) [OF q(6)] q(6) by (auto simp: l'_def split: option.split simp del: xQueueGenericSend.simps One_nat_def)
  show "fw_ok w'" using q k(1) r'(1) l'(1) by (simp add: w'_def step fw_ok_def)
  show "cmds w' = cmds w" "act w' = act w" by (simp_all add: w'_def step cmds_def)
  show "samples w' = tl (samples w)" using k(2) q(1) by (simp add: w'_def step samples_def)
  show "reports w' = reports w @ (case out of None \<Rightarrow> [] | Some a \<Rightarrow> if length (reports w) < 2 then [a] else [])"
    using r'(2) q(3) by (simp add: w'_def step reports_def split: option.split)
  show "shown w' = (case out of None \<Rightarrow> shown w | Some a \<Rightarrow> [a])" using l'(2) q(5) by (simp add: w'_def step shown_def split: option.split)
  show "fst (data_process_step now [] [] (d, w)) = snd (dp_turn (case samples w of [] \<Rightarrow> None | s # _ \<Rightarrow> Some s) now d)"
    using t sm by (simp add: step)
qed

text \<open>The LoRa task.\<close>

lemma command_queued:
  fixes w :: firmware
  assumes "fw_ok w" "ActuatorCmdQueue w = Some q" "own_command src m"
  shows "commands_from src w (w\<lparr>ActuatorCmdQueue := Some (snd (xQueueSend q m t []))\<rparr>)"
proof -
  have "w\<lparr>act := act w, ActuatorCmdQueue := Some (snd (xQueueSend q m t []))\<rparr> = w\<lparr>ActuatorCmdQueue := Some (snd (xQueueSend q m t []))\<rparr>"
    by (cases w) simp
  with command_sent [OF assms, of "act w" t] show ?thesis by simp
qed

lemma lora_rx_effect:
  assumes "fw_ok (fw s)"
  shows "commands_from SOURCE_LORA (fw s) (fw (lora_rx_step [] s))"
    "EnvSampleQueue (fw (lora_rx_step [] s)) = EnvSampleQueue (fw s)"
    "LV_RXDataQueue (fw (lora_rx_step [] s)) = LV_RXDataQueue (fw s)"
proof -
  obtain f s1 where g: "atk_mw1278d_uart_rx_get_frame s = (f, s1)" by fastforce
  have w: "fw (atk_mw1278d_uart_rx_restart s1) = fw s" using lora_sys_frame(5) [of s] g by simp
  have d: "commands_from SOURCE_LORA (fw x) (fw (lora_dispatch [] cmd x)) \<and>
      EnvSampleQueue (fw (lora_dispatch [] cmd x)) = EnvSampleQueue (fw x) \<and>
      LV_RXDataQueue (fw (lora_dispatch [] cmd x)) = LV_RXDataQueue (fw x)" if x: "fw x = fw s" for x cmd
  proof (cases "lora_message cmd")
    case None
    then show ?thesis using assms x by (simp add: lora_dispatch_def commands_none)
  next
    case (Some m)
    obtain c where c: "ActuatorCmdQueue (fw x) = Some c" using assms x by (auto elim: fw_okE)
    have "own_command SOURCE_LORA m"
      using Some by (auto simp: lora_message_def own_command_def split: lora_target_t.splits if_splits)
    from command_queued [OF _ c this, of 100] assms x Some c show ?thesis by (simp add: lora_dispatch_def)
  qed
  define s2 where "s2 = atk_mw1278d_uart_rx_restart s1"
  have c: "lora_rx_step [] s = s \<or> lora_rx_step [] s = s2 \<or> (\<exists>cmd. lora_rx_step [] s = lora_dispatch [] cmd s2)"
    using g by (auto simp: lora_rx_step_def Let_def s2_def [symmetric] split: option.split)
  have w2: "fw s2 = fw s" using w by (simp add: s2_def)
  from c have "commands_from SOURCE_LORA (fw s) (fw (lora_rx_step [] s)) \<and>
      EnvSampleQueue (fw (lora_rx_step [] s)) = EnvSampleQueue (fw s) \<and>
      LV_RXDataQueue (fw (lora_rx_step [] s)) = LV_RXDataQueue (fw s)"
    using d [OF w2] commands_none [OF assms, of SOURCE_LORA] w2 by auto
  then show "commands_from SOURCE_LORA (fw s) (fw (lora_rx_step [] s))"
    "EnvSampleQueue (fw (lora_rx_step [] s)) = EnvSampleQueue (fw s)"
    "LV_RXDataQueue (fw (lora_rx_step [] s)) = LV_RXDataQueue (fw s)" by auto
qed

lemma report_removed:
  fixes w :: firmware
  assumes "fw_ok w" "q_ok 2 q'" "q_list q' = tl (reports w)" "w' = w\<lparr>ReportQueue := Some q'\<rparr>"
  shows "reports w' = tl (reports w)" "samples w' = samples w" "shown w' = shown w" "commands_from src w w'"
  using assms by (auto simp: commands_from_def fw_ok_def contents_defs)

lemma lora_tx_effect:
  assumes "fw_ok (fw s)"
  shows "\<exists>q'. q_ok 2 q' \<and> q_list q' = tl (reports (fw s)) \<and> fw (lora_tx_step s) = (fw s)\<lparr>ReportQueue := Some q'\<rparr>"
proof -
  obtain r where r: "ReportQueue (fw s) = Some r" "q_ok 2 r" using assms by (auto elim: fw_okE)
  obtain m q' where m: "xQueueReceive r 0 [] = (m, q')" by fastforce
  note k = receive_alone [OF r(2), of 0, unfolded m fst_conv snd_conv]
  have "fw (lora_tx_step s) = (fw s)\<lparr>ReportQueue := Some q'\<rparr>"
    using r(1) m by (cases m) (simp_all add: lora_tx_step_def atk_mw1278d_uart_send_bin_def del: xQueueReceive.simps)
  then show ?thesis using k r(1) by (auto simp: reports_def)
qed

lemma lora_effect:
  fixes s :: lora_sys and es :: "lora_event list"
  assumes "fw_ok (fw s)"
  defines "w' \<equiv> fw (lora_step [] (fold lora_irq es s))"
  shows "commands_from SOURCE_LORA (fw s) w'" "reports w' = tl (reports (fw s))"
    "samples w' = samples (fw s)" "shown w' = shown (fw s)"
proof -
  have irq: "fw (fold lora_irq es s) = fw s" by simp
  obtain q' where q': "q_ok 2 q'" "q_list q' = tl (reports (fw s))"
    "fw (lora_tx_step (fold lora_irq es s)) = (fw s)\<lparr>ReportQueue := Some q'\<rparr>"
    using lora_tx_effect [of "fold lora_irq es s"] assms(1) irq by auto
  note t = report_removed(4) [OF assms(1) q', of SOURCE_LORA] report_removed(1-3) [OF assms(1) q']
  note r = lora_rx_effect [OF commands_ok [OF t(1)]]
  show "commands_from SOURCE_LORA (fw s) w'" using commands_trans [OF t(1) r(1)] by (simp add: w'_def lora_step_def)
  show "reports w' = tl (reports (fw s))" using t(2) by (simp add: w'_def lora_step_def reports_def)
  show "samples w' = samples (fw s)" "shown w' = shown (fw s)"
    using t(3,4) r(2,3) by (simp_all add: w'_def lora_step_def samples_def shown_def)
qed

text \<open>The MQTT task: what the callback keeps is kept by every operation of the client.\<close>

definition net_sent :: "firmware \<Rightarrow> mqtt_sys \<Rightarrow> bool" where
  "net_sent w s \<longleftrightarrow> others s = [] \<and> commands_from SOURCE_NETWORK w (mfw s) \<and>
     reports (mfw s) = reports w \<and> samples (mfw s) = samples w \<and> shown (mfw s) = shown w"

lemma json_command_own: "json_command j = Some m \<Longrightarrow> own_command SOURCE_NETWORK m"
  by (auto simp: json_command_def own_command_def Let_def split: option.splits if_splits)

lemma on_message_sent:
  assumes "net_sent w s"
  shows "net_sent w (mqtt_on_message t p s)"
proof (cases "p = [] \<or> json_command (cstr (take 127 p)) = None")
  case True
  then have "mqtt_on_message t p s = s" by (auto simp: mqtt_on_message_def)
  with assms show ?thesis by simp
next
  case False
  then obtain m where m: "p \<noteq> []" "json_command (cstr (take 127 p)) = Some m" by auto
  have ok: "fw_ok (mfw s)" "others s = []" using assms commands_ok by (auto simp: net_sent_def)
  then obtain c where c: "ActuatorCmdQueue (mfw s) = Some c" by (auto elim: fw_okE)
  note q = command_queued [OF ok(1) c json_command_own [OF m(2)], of 100]
  have e: "mfw (mqtt_on_message t p s) = (mfw s)\<lparr>ActuatorCmdQueue := Some (snd (xQueueSend c m 100 []))\<rparr>"
    "others (mqtt_on_message t p s) = []"
    using m c ok(2) by (simp_all add: mqtt_on_message_def Let_def del: xQueueGenericSend.simps)
  show ?thesis using assms commands_trans [OF _ q] unfolding net_sent_def e by (simp add: contents_defs)
qed

interpretation net: mqtt_app_inv mqtt_on_message "net_sent w" for w
proof unfold_locales
  show "net_sent w s'" if "mqtt.more s' = mqtt.more s" "net_sent w s" for s s' :: mqtt_sys
    using that by (cases s; cases s'; simp add: net_sent_def)
  show "net_sent w (mqtt_on_message t p s)" if "net_sent w s" for s t p by (rule on_message_sent [OF that])
qed

lemma net_own: "mqtt.more s' = mqtt.more s \<Longrightarrow> net_sent w s \<Longrightarrow> net_sent w s'"
  by (rule net.own_part)

lemma delay_own: "mqtt_ok s \<Longrightarrow> net_sent w s \<Longrightarrow> net_sent w (vTaskDelay n s)"
  by (rule net_own [OF delay_keeps(3)])

text \<open>A turn of a phase other than the run phase, and of the run phase.\<close>

lemma phase_sent:
  assumes "mqtt_ok s" "net_sent w s" "phase_step (ph, pt, s) = Some (ph', pt', s')" "ph \<noteq> MQTT_PHASE_RUN"
  shows "net_sent w s'"
proof (cases ph)
  case MQTT_PHASE_INIT
  have ok: "esp_ok s" using assms(1) by (simp add: mqtt_ok_def)
  obtain e s1 where c: "esp8266_connect_wifi (Some MQTT_WIFI_SSID) (Some MQTT_WIFI_PASS) s = (e, s1)" by fastforce
  have r: "esp_ok s1" "esp.more s1 = esp.more s" using connect_wifi_result [OF ok c] by simp_all
  have k: "mqtt_ok s1" by (rule mqtt_ok_core [OF r(1) more_core(1) [OF r(2)] assms(1)])
  have "net_sent w s1" by (rule net_own [OF more_core(3) [OF r(2)] assms(2)])
  then show ?thesis using MQTT_PHASE_INIT c assms(3) delay_own [OF k] by (auto simp: phase_step_def split: if_splits)
next
  case MQTT_PHASE_MQTT_INIT
  then show ?thesis using assms(2,3) by (simp add: phase_step_def)
next
  case MQTT_PHASE_CONNECT
  have ok: "esp_ok s" using assms(1) by (simp add: mqtt_ok_def)
  obtain e s1 where c: "mqtt_connect_broker (Some mqtt_on_message) (Some MQTT_BROKER_HOST) 1883 s = Some (e, s1)" "esp_ok s1"
    "s_next_packet_id s1 = s_next_packet_id s" "s_link_id s1 = s_link_id s \<or> s_link_id s1 = 0"
    using agro.connect_total [OF ok, of "Some MQTT_BROKER_HOST" 1883] by blast
  then have k: "mqtt_ok s1" using assms(1) by (auto simp: mqtt_ok_def)
  have "net_sent w s1" by (rule net.connect_inv [OF ok assms(2) c(1)])
  then show ?thesis using MQTT_PHASE_CONNECT c(1) assms(3) delay_own [OF k] by (auto simp: phase_step_def split: if_splits)
next
  case MQTT_PHASE_SUB
  have ok: "esp_ok s" using assms(1) by (simp add: mqtt_ok_def)
  obtain e s1 where c: "mqtt_subscribe (Some MQTT_TOPIC_CTRL) 0 s = (e, s1)" by fastforce
  have k: "mqtt_ok s1" using subscribe_ok(1) [OF assms(1), of "Some MQTT_TOPIC_CTRL" 0] c by simp
  have "net_sent w s1" using net_own [OF operations_more(2) [OF ok] assms(2), of "Some MQTT_TOPIC_CTRL" 0] c by simp
  then show ?thesis using MQTT_PHASE_SUB c assms(3) delay_own [OF k] by (auto simp: phase_step_def split: if_splits)
qed (use assms(4) in simp)

text \<open>A turn of the task: first what the broker has sent, then at most one report.\<close>

definition net_turn :: "firmware \<Rightarrow> mqtt_sys \<Rightarrow> bool" where
  "net_turn w s \<longleftrightarrow> others s = [] \<and> commands_from SOURCE_NETWORK w (mfw s) \<and>
     (reports (mfw s) = reports w \<or> reports (mfw s) = tl (reports w)) \<and> samples (mfw s) = samples w \<and> shown (mfw s) = shown w"

lemma net_turn_sent: "net_sent w s \<Longrightarrow> net_turn w s"
  by (simp add: net_sent_def net_turn_def)

lemma net_turn_own: "mqtt.more s' = mqtt.more s \<Longrightarrow> net_turn w s \<Longrightarrow> net_turn w s'" for s s' :: mqtt_sys
  by (cases s; cases s'; simp add: net_turn_def)

lemma report_turn:
  assumes "mqtt_ok s" "net_sent w s"
  shows "net_turn w (mqtt_report s)"
proof -
  have ok: "esp_ok s" "fw_ok (mfw s)" using assms commands_ok by (auto simp: mqtt_ok_def net_sent_def)
  then obtain r where r: "ReportQueue (mfw s) = Some r" "q_ok 2 r" by (auto elim: fw_okE)
  obtain q' where q': "q_ok 2 q'" "q_list q' = tl (q_list r)" "mfw (mqtt_report s) = (mfw s)\<lparr>ReportQueue := Some q'\<rparr>"
    "mqtt_report s = (case q_list r of [] \<Rightarrow> s\<lparr>mfw := (mfw s)\<lparr>ReportQueue := Some q'\<rparr>\<rparr> | a # _ \<Rightarrow>
        snd (mqtt_publish (Some MQTT_TOPIC_REPORT) (Some (report_json a)) (of_nat (length (report_json a))) 0
          (s\<lparr>mfw := (mfw s)\<lparr>ReportQueue := Some q'\<rparr>\<rparr>)))"
    using report_taken [OF ok(1) r] by blast
  define s1 where "s1 = s\<lparr>mfw := (mfw s)\<lparr>ReportQueue := Some q'\<rparr>\<rparr>"
  have ok1: "esp_ok s1" using ok(1) by (simp add: s1_def)
  have "mqtt.more (mqtt_report s) = mqtt.more s1"
    using q'(4) operations_more(1) [OF ok1] by (cases "q_list r") (simp_all add: s1_def)
  then have "others (mqtt_report s) = others s1" by (cases "mqtt_report s"; cases s1; simp)
  then have o: "others (mqtt_report s) = []" using assms(2) by (simp add: s1_def net_sent_def)
  have "q_list q' = tl (reports (mfw s))" using q'(2) r(1) by (simp add: reports_def)
  note t = report_removed(4) [OF ok(2) q'(1) this q'(3), of SOURCE_NETWORK] report_removed(1-3) [OF ok(2) q'(1) this q'(3)]
  show ?thesis using assms(2) commands_trans [OF _ t(1)] t(2-4) o by (auto simp: net_turn_def net_sent_def)
qed

lemma mqtt_effect:
  assumes "mqtt_ok s" "others s = []" "fw_ok (mfw s)" "mqtt_turn (ph, pt, s) = Some (ph', pt', s')"
  shows "net_turn (mfw s) s'" "mqtt_ok s'"
proof -
  show "mqtt_ok s'" using turn_total [OF assms(1), of ph pt] assms(4) by (auto simp: turn_result_def)
  have ok: "esp_ok s" "net_sent (mfw s) s" using assms(1-3) commands_none by (auto simp: mqtt_ok_def net_sent_def)
  obtain s1 where l: "mqtt_loop (Some mqtt_on_message) s = Some s1" "esp_ok s1" "snd (mqtt_core s1) = snd (mqtt_core s)"
    using agro.loop_total [OF ok(1)] by blast
  have k: "mqtt_ok s1" by (rule mqtt_ok_core2 [OF l(2,3) assms(1)])
  have n: "net_sent (mfw s) s1" by (rule net.loop_inv [OF ok l(1)])
  obtain ph2 pt2 s2 where p: "phase_step (ph, pt, s1) = Some (ph2, pt2, s2)" "turn_result ph (ph2, pt2, s2)"
    using phase_step_total [OF k, of ph pt] by auto
  have k2: "mqtt_ok s2" using p(2) by (simp add: turn_result_def)
  have "net_turn (mfw s) s2"
  proof (cases "ph = MQTT_PHASE_RUN")
    case False
    then show ?thesis using net_turn_sent phase_sent [OF k n p(1)] by simp
  next
    case True
    have d: "net_turn (mfw s) (vTaskDelay 100 (mqtt_report s1))"
      by (rule net_turn_own [OF delay_keeps(3) [OF mqtt_report_keeps(1) [OF k]] report_turn [OF k n]])
    have "net_turn (mfw s) (snd (mqtt_disconnect s1))"
      by (rule net_turn_own [OF operations_more(4) [OF l(2)] net_turn_sent [OF n]])
    then show ?thesis using True p(1) d by (auto simp: phase_step_def Let_def split: if_splits)
  qed
  moreover have "net_turn (mfw s) (snd (mqtt_disconnect s2))" if "net_turn (mfw s) s2"
    by (rule net_turn_own [OF operations_more(4) that]) (use k2 in \<open>simp add: mqtt_ok_def\<close>)
  ultimately show "net_turn (mfw s) s'"
    using assms(4) l(1) p(1) by (auto simp: mqtt_turn_def phase_guard_def Let_def split: if_splits)
qed

text \<open>The panel: it writes the two status bytes of the fan and sends at most one command.\<close>

definition gui_sent :: "firmware \<Rightarrow> gui_panel \<Rightarrow> bool" where
  "gui_sent w g \<longleftrightarrow> commands_from SOURCE_GUI w (gfw g) \<and>
     reports (gfw g) = reports w \<and> samples (gfw g) = samples w"

lemma hw_part_fan [simp]:
  "hw_part (a\<lparr>fan_running := r\<rparr>) = hw_part a" "hw_part (a\<lparr>fan_speed := v\<rparr>) = hw_part a"
  by (simp_all add: hw_part_def)

lemma gui_send_sent:
  assumes "fw_ok w" "gfw x = w\<lparr>act := a\<rparr>" "hw_part a = hw_part (act w)"
  shows "gui_sent w (gui_send (gui_fan v) x)" "shown (gfw (gui_send (gui_fan v) x)) = shown w"
proof -
  obtain c where c: "ActuatorCmdQueue w = Some c" using assms(1) by (auto elim: fw_okE)
  have g: "gfw (gui_send (gui_fan v) x) = w\<lparr>act := a, ActuatorCmdQueue := Some (snd (xQueueSend c (gui_fan v) 0 []))\<rparr>"
    using assms(2) c by (simp add: gui_send_def del: xQueueGenericSend.simps)
  have "own_command SOURCE_GUI (gui_fan v)" by (simp add: own_command_def gui_fan_def)
  from command_sent [OF assms(1) c this assms(3), of 0]
  show "gui_sent w (gui_send (gui_fan v) x)" "shown (gfw (gui_send (gui_fan v) x)) = shown w"
    unfolding gui_sent_def g by (simp_all add: contents_defs)
qed

definition gui_sends :: "firmware \<Rightarrow> gui_panel \<Rightarrow> bool" where
  "gui_sends w g \<longleftrightarrow> (\<exists>x v a. g = gui_send (gui_fan v) x \<and> gfw x = w\<lparr>act := a\<rparr> \<and> hw_part a = hw_part (act w))"

lemma gui_sendsI:
  "gfw x = w\<lparr>act := act (gfw x)\<rparr> \<Longrightarrow> hw_part (act (gfw x)) = hw_part (act w) \<Longrightarrow> gui_sends w (gui_send (gui_fan v) x)"
  unfolding gui_sends_def by blast

lemma gui_sends_effect:
  assumes "gui_sends w g" "fw_ok w"
  shows "gui_sent w g" "shown (gfw g) = shown w"
  using assms gui_send_sent by (auto simp: gui_sends_def)

lemma display_gfw:
  "alert_now g = alert_auto_on g \<Longrightarrow> gfw (update_sensor_display g) = gfw g"
  "alert_now g \<noteq> alert_auto_on g \<Longrightarrow> gui_sends (gfw g) (update_sensor_display g)"
proof -
  define t where "t = (if has_current_data g
             then [int_text (chan_get CH_TEMP g) '' C'', int_text (chan_get CH_HUM g) '' %'',
                   int_text (chan_get CH_CO2 g) '' ppm'', int_text (chan_get CH_CO g) '' ppm'']
             else [ascii ''-- C'', ascii ''-- %'', ascii ''-- ppm'', ascii ''-- ppm''])"
  have al: "alert_now (g\<lparr>value_texts := t\<rparr>) = alert_now g" by (simp add: alert_now_def chan_get_def)
  show "gfw (update_sensor_display g) = gfw g" if "alert_now g = alert_auto_on g"
    using that by (simp add: update_sensor_display_def t_def [symmetric] al Let_def)
  show "gui_sends (gfw g) (update_sensor_display g)" if "alert_now g \<noteq> alert_auto_on g"
    unfolding update_sensor_display_def t_def [symmetric] Let_def al
    using that by (auto simp: set_fan_running_def set_fan_speed_def intro!: gui_sendsI)
qed

lemma display_sent:
  assumes "fw_ok (gfw g)"
  shows "gui_sent (gfw g) (update_sensor_display g)" "shown (gfw (update_sensor_display g)) = shown (gfw g)"
  using display_gfw [of g] gui_sends_effect [OF _ assms] commands_none [OF assms]
  by (cases "alert_now g = alert_auto_on g"; simp add: gui_sent_def)+

lemma controls_sent:
  assumes "fw_ok (gfw g)"
  shows "gui_sent (gfw g) (fan_switch_event_cb g)" "shown (gfw (fan_switch_event_cb g)) = shown (gfw g)"
    "gui_sent (gfw g) (fan_slider_event_cb g)" "shown (gfw (fan_slider_event_cb g)) = shown (gfw g)"
proof -
  have "gui_sends (gfw g) (fan_switch_event_cb g)" "gui_sends (gfw g) (fan_slider_event_cb g)"
    by (auto simp: fan_switch_event_cb_def fan_slider_event_cb_def Let_def set_fan_running_def set_fan_speed_def intro!: gui_sendsI)
  then show "gui_sent (gfw g) (fan_switch_event_cb g)" "shown (gfw (fan_switch_event_cb g)) = shown (gfw g)"
    "gui_sent (gfw g) (fan_slider_event_cb g)" "shown (gfw (fan_slider_event_cb g)) = shown (gfw g)"
    using gui_sends_effect [OF _ assms] by simp_all
qed

lemma pump_sent:
  assumes "fw_ok (gfw g)"
  shows "gui_sent (gfw g) (my_gui_pump_rx_queue g)" "shown (gfw (my_gui_pump_rx_queue g)) = tl (shown (gfw g))"
proof -
  obtain l where l: "LV_RXDataQueue (gfw g) = Some l" "q_ok 1 l" using assms by (auto elim: fw_okE)
  obtain m l' where m: "xQueueReceive l 0 [] = (m, l')" by fastforce
  note k = receive_alone [OF l(2), of 0, unfolded m fst_conv snd_conv]
  define g1 where "g1 = g\<lparr>gfw := (gfw g)\<lparr>LV_RXDataQueue := Some l'\<rparr>\<rparr>"
  have p: "my_gui_pump_rx_queue g = (case m of None \<Rightarrow> g1 | Some avg \<Rightarrow> apply_avg_to_gui avg g1)"
    using l(1) m by (cases m) (simp_all add: my_gui_pump_rx_queue_def g1_def)
  have w1: "fw_ok (gfw g1)" "commands_from SOURCE_GUI (gfw g) (gfw g1)" "shown (gfw g1) = tl (shown (gfw g))"
    "reports (gfw g1) = reports (gfw g)" "samples (gfw g1) = samples (gfw g)"
    using assms k(1,2) l(1) by (auto simp: g1_def fw_ok_def commands_from_def contents_defs)
  have f: "gfw (fed avg g1) = gfw g1" for avg by (rule fed_frame(2))
  have d: "gui_sent (gfw g1) (apply_avg_to_gui avg g1)" "shown (gfw (apply_avg_to_gui avg g1)) = shown (gfw g1)" for avg
    using display_sent [of "fed avg g1"] w1(1) unfolding f apply_fed by simp_all
  show "gui_sent (gfw g) (my_gui_pump_rx_queue g)"
    using w1 d(1) commands_trans [OF w1(2)] by (auto simp: p gui_sent_def split: option.split)
  show "shown (gfw (my_gui_pump_rx_queue g)) = tl (shown (gfw g))" using w1(3) d(2) by (simp add: p split: option.split)
qed

end
