(* ===== verification/Agro_System.thy ===== *)
theory Agro_System
  imports Shared_Fw
begin

text \<open>
  The whole firmware: the tasks started by \<open>start_task\<close> with the state each of them keeps, and
  the state they share. A step of the system is one turn of one task, or a touch of the panel,
  in any order and with any input; the tasks of this model do not run into each other in
  the middle of a turn. What each task keeps of the shared state in its own record is only a
  working copy: every step starts from the shared state and leaves its result there.
\<close>

section \<open>State and steps\<close>

datatype mqtt_life =
    Mqtt_new mqtt_sys          \<comment> \<open>created, not started\<close>
  | Mqtt_runs mqtt_task_state
  | Mqtt_gone mqtt_sys         \<comment> \<open>deleted by itself\<close>

record agro =
  shared :: firmware
  st_sensor :: sensor_task
  st_data :: data_process
  lora_ready :: u8
  st_lora :: lora_sys
  st_mqtt :: mqtt_life
  st_panel :: gui_panel

text \<open>The inputs: readings and clock, radio interrupts, serial input of a turn, touches.\<close>

datatype agro_event =
    Sensor_turn sensor_readings u32 u32
  | Data_turn u32
  | Applay_turn
  | Lora_turn "lora_event list"
  | Mqtt_turn "u8 list list"
  | Panel_turn
  | Panel_switch bool
  | Panel_slider int

definition on_panel :: "(gui_panel \<Rightarrow> gui_panel) \<Rightarrow> agro \<Rightarrow> agro" where
  "on_panel f s = (let g = f ((st_panel s)\<lparr>gfw := shared s\<rparr>) in s\<lparr>st_panel := g, shared := gfw g\<rparr>)"

definition mqtt_input :: "firmware \<Rightarrow> u8 list list \<Rightarrow> mqtt_sys \<Rightarrow> mqtt_sys" where
  "mqtt_input w ins m = m\<lparr>mfw := w, others := [], uart_in := uart_in m @ ins\<rparr>"

fun agro_turn :: "agro_event \<Rightarrow> agro \<Rightarrow> agro option" where
  "agro_turn (Sensor_turn r t0 now) s =
     (case sensor_step r t0 now (st_sensor s, shared s) of (t, w) \<Rightarrow> Some (s\<lparr>st_sensor := t, shared := w\<rparr>))"
| "agro_turn (Data_turn now) s =
     (case data_process_step now [] [] (st_data s, shared s) of (d, w) \<Rightarrow> Some (s\<lparr>st_data := d, shared := w\<rparr>))"
| "agro_turn Applay_turn s = Some (s\<lparr>shared := applay_turn (shared s)\<rparr>)"
| "agro_turn (Lora_turn es) s =
     (if lora_ready s \<noteq> 0 then Some s
      else let u = lora_step [] (fold lora_irq es ((st_lora s)\<lparr>fw := shared s\<rparr>))
           in Some (s\<lparr>st_lora := u, shared := fw u\<rparr>))"
| "agro_turn (Mqtt_turn ins) s = (case st_mqtt s of
       Mqtt_new m \<Rightarrow> map_option (\<lambda>x. case x of
           Inl m' \<Rightarrow> s\<lparr>st_mqtt := Mqtt_gone m', shared := mfw m'\<rparr>
         | Inr (ph, pt, m') \<Rightarrow> s\<lparr>st_mqtt := Mqtt_runs (ph, pt, m'), shared := mfw m'\<rparr>)
           (mqtt_task_start ESP_OK (mqtt_input (shared s) ins m))
     | Mqtt_runs (ph, pt, m) \<Rightarrow> map_option (\<lambda>(ph', pt', m'). s\<lparr>st_mqtt := Mqtt_runs (ph', pt', m'), shared := mfw m'\<rparr>)
           (mqtt_turn (ph, pt, mqtt_input (shared s) ins m))
     | Mqtt_gone m \<Rightarrow> Some s)"
| "agro_turn Panel_turn s = Some (on_panel my_gui_pump_rx_queue s)"
| "agro_turn (Panel_switch b) s = Some (on_panel (\<lambda>g. fan_switch_event_cb (g\<lparr>switch_on := b\<rparr>)) s)"
| "agro_turn (Panel_slider v) s = Some (on_panel (\<lambda>g. fan_slider_event_cb (g\<lparr>slider := max 0 (min 100 v)\<rparr>)) s)"

text \<open>What an observer notes of a step: the command executed, the averages made, the reports taken.\<close>

datatype agro_link = Link_LoRa | Link_MQTT

datatype agro_note = Executed applay_msg_t | Averaged env_avg_t | Taken agro_link env_avg_t

definition noted :: "agro_event \<Rightarrow> agro \<Rightarrow> agro \<Rightarrow> agro_note list" where
  "noted e s s' = (case e of
       Applay_turn \<Rightarrow> map Executed (take 1 (cmds (shared s)))
     | Data_turn _ \<Rightarrow> map Averaged (drop (length (reports (shared s))) (reports (shared s')))
     | Lora_turn _ \<Rightarrow> map (Taken Link_LoRa) (take (length (reports (shared s)) - length (reports (shared s'))) (reports (shared s)))
     | Mqtt_turn _ \<Rightarrow> map (Taken Link_MQTT) (take (length (reports (shared s)) - length (reports (shared s'))) (reports (shared s)))
     | _ \<Rightarrow> [])"

fun agro_run :: "agro_event list \<Rightarrow> agro \<Rightarrow> (agro_note list \<times> agro) option" where
  "agro_run [] s = Some ([], s)"
| "agro_run (e # es) s = Option.bind (agro_turn e s) (\<lambda>s1.
     map_option (\<lambda>(ns, s'). (noted e s s1 @ ns, s')) (agro_run es s1))"

text \<open>The states the firmware can be in.\<close>

definition mqtt_sys_cold :: mqtt_sys where
  "mqtt_sys_cold = mqtt_sys_boot\<lparr>s_wifi_connected := 0, s_state := MQTT_ST_IDLE,
     s_config := \<lparr>s_client_id = [], s_user = [], s_pass = [], s_keepalive = 0\<rparr>\<rparr>"

definition agro_boot :: agro where
  "agro_boot = \<lparr>shared = firmware_boot, st_sensor = sensor_boot, st_data = dp_boot, lora_ready = 0, st_lora = lora_boot,
     st_mqtt = Mqtt_new mqtt_sys_cold, st_panel = gui_boot\<rparr>"

inductive agro_reach :: "agro \<Rightarrow> bool" where
  reach_boot: "agro_reach agro_boot"
| reach_step: "agro_reach s \<Longrightarrow> agro_turn e s = Some s' \<Longrightarrow> agro_reach s'"

section \<open>The invariant of the system\<close>

definition life_ok :: "mqtt_life \<Rightarrow> bool" where
  "life_ok l \<longleftrightarrow> (case l of Mqtt_new m \<Rightarrow> mqtt_ok m | Mqtt_runs (ph, pt, m) \<Rightarrow> mqtt_ok m | Mqtt_gone m \<Rightarrow> True)"

definition agro_ok :: "agro \<Rightarrow> bool" where
  "agro_ok s \<longleftrightarrow> fw_ok (shared s) \<and> rx_ok (st_lora s) \<and> life_ok (st_mqtt s) \<and> rows_ok (st_panel s) \<and>
     0 \<le> slider (st_panel s) \<and> slider (st_panel s) \<le> 100"

lemma boot_ok: "agro_ok agro_boot"
proof -
  have "fw_ok firmware_boot"
    using act_boot_ok q_ok_new [of 8] q_ok_new [of 2] q_ok_new [of 1] q_ok_new [of 10]
    by (simp add: fw_ok_def firmware_boot_def hw_ok_def act_ok_def fan_ok_def)
  moreover have "mqtt_ok mqtt_sys_cold" using ring_init_ok by (simp add: mqtt_ok_def esp_ok_def mqtt_sys_cold_def mqtt_sys_boot_def)
  ultimately show ?thesis using gui_boot_ok(1,2) lora_boot_ok(1) by (simp add: agro_ok_def agro_boot_def life_ok_def)
qed

lemma lora_step_rx_ok: "rx_ok s \<Longrightarrow> rx_ok (lora_step ws s)" for s :: lora_sys
proof -
  assume ok: "rx_ok s"
  have t: "rx_ok (lora_tx_step s)" using ok by (simp add: rx_ok_def)
  obtain f u where g: "atk_mw1278d_uart_rx_get_frame (lora_tx_step s) = (f, u)" by fastforce
  have "rx_ok (atk_mw1278d_uart_rx_restart u)" using rx_ok_restart rx_ok_get [OF t] g by simp
  then have "rx_ok (atk_mw1278d_uart_rx_restart u)" "rx_ok (lora_dispatch ws c (atk_mw1278d_uart_rx_restart u))" for c
    by (simp_all add: rx_ok_def)
  then show ?thesis using t by (auto simp: lora_step_def lora_rx_step_def g Let_def split: option.split)
qed

text \<open>The panel keeps its rows and its slider between 0 and 100.\<close>

definition panel_ok :: "gui_panel \<Rightarrow> bool" where
  "panel_ok g \<longleftrightarrow> rows_ok g \<and> 0 \<le> slider g \<and> slider g \<le> 100"

lemma send_panel: "rows_ok (gui_send m g) = rows_ok g" "slider (gui_send m g) = slider g"
  by (simp_all add: gui_send_def rows_ok_def split: option.split)

lemma display_panel:
  assumes "panel_ok g"
  shows "panel_ok (update_sensor_display g)"
proof -
  have sl: "0 \<le> slider g" "slider g \<le> 100" using assms by (simp_all add: panel_ok_def)
  obtain x where x: "update_sensor_display g = (case alarm_cmd g of None \<Rightarrow> x | Some m \<Rightarrow> gui_send m x)"
    "alarm_cmd g = None \<longrightarrow> gfw x = gfw g \<and> switch_on x = switch_on g \<and> slider x = slider g"
    "alarm_cmd g \<noteq> None \<longrightarrow> switch_on x = alert_now g \<and> slider x = (if alert_now g then max 80 (slider g) else 0)"
    using display_turn [OF sl] by (elim exE conjE) (rule that; assumption)
  have "0 \<le> slider (update_sensor_display g) \<and> slider (update_sensor_display g) \<le> 100"
    using x sl by (auto simp: send_panel split: option.splits)
  moreover have "rows_ok (update_sensor_display g)" using assms by (simp add: panel_ok_def)
  ultimately show ?thesis by (simp add: panel_ok_def)
qed

lemma pump_panel:
  assumes "panel_ok g"
  shows "panel_ok (my_gui_pump_rx_queue g)"
proof (cases "LV_RXDataQueue (gfw g)")
  case None
  then show ?thesis using assms by (simp add: my_gui_pump_rx_queue_def)
next
  case (Some q)
  obtain m q' where m: "xQueueReceive q 0 [] = (m, q')" by fastforce
  define g1 where "g1 = g\<lparr>gfw := (gfw g)\<lparr>LV_RXDataQueue := Some q'\<rparr>\<rparr>"
  have ok: "panel_ok g1" using assms by (simp add: panel_ok_def g1_def)
  have "panel_ok (apply_avg_to_gui a g1)" for a
  proof -
    have "panel_ok (fed a g1)" using ok fed_rows(3) [of g1 0 a] fed_frame(3) [of a g1] by (simp add: panel_ok_def)
    then show ?thesis unfolding apply_fed by (rule display_panel)
  qed
  then show ?thesis using Some m ok by (auto simp: my_gui_pump_rx_queue_def g1_def split: option.split)
qed

lemma controls_panel:
  assumes "panel_ok g"
  shows "panel_ok (fan_switch_event_cb (g\<lparr>switch_on := b\<rparr>))" "panel_ok (fan_slider_event_cb (g\<lparr>slider := max 0 (min 100 v)\<rparr>))"
proof -
  have r: "rows_ok (g\<lparr>slider := v\<rparr>) = rows_ok g" "rows_ok (g\<lparr>switch_on := b\<rparr>) = rows_ok g"
    "rows_ok (g\<lparr>speed_text := t\<rparr>) = rows_ok g" "rows_ok (g\<lparr>alert_auto_on := b\<rparr>) = rows_ok g"
    "rows_ok (g\<lparr>slider_enabled := b\<rparr>) = rows_ok g" for g v b t
    by (simp_all add: rows_ok_def)
  show "panel_ok (fan_switch_event_cb (g\<lparr>switch_on := b\<rparr>))" "panel_ok (fan_slider_event_cb (g\<lparr>slider := max 0 (min 100 v)\<rparr>))"
    using assms by (auto simp: panel_ok_def fan_switch_event_cb_def fan_slider_event_cb_def Let_def send_panel fan_sets r)
qed

section \<open>What a step does\<close>

definition origin :: "agro_event \<Rightarrow> source_t" where
  "origin e = (case e of Lora_turn _ \<Rightarrow> SOURCE_LORA | Mqtt_turn _ \<Rightarrow> SOURCE_NETWORK
     | Panel_turn \<Rightarrow> SOURCE_GUI | Panel_switch _ \<Rightarrow> SOURCE_GUI | Panel_slider _ \<Rightarrow> SOURCE_GUI | _ \<Rightarrow> SOURCE_AUTO)"

definition command_flow :: "agro_event \<Rightarrow> firmware \<Rightarrow> firmware \<Rightarrow> bool" where
  "command_flow e w w' \<longleftrightarrow>
     (if e = Applay_turn then cmds w' = tl (cmds w) \<and>
        act w' = (case cmds w of [] \<Rightarrow> act w | m # _ \<Rightarrow> applay_dispatch (Some m) (act w))
      else hw_part (act w') = hw_part (act w) \<and> (\<exists>ms. cmds w' = cmds w @ ms \<and> (\<forall>m \<in> set ms. own_command (origin e) m)))"

definition report_flow :: "agro_event \<Rightarrow> firmware \<Rightarrow> firmware \<Rightarrow> bool" where
  "report_flow e w w' \<longleftrightarrow> (case e of
       Data_turn _ \<Rightarrow> \<exists>rs. reports w' = reports w @ rs
     | Lora_turn _ \<Rightarrow> reports w' = reports w \<or> reports w' = tl (reports w)
     | Mqtt_turn _ \<Rightarrow> reports w' = reports w \<or> reports w' = tl (reports w)
     | _ \<Rightarrow> reports w' = reports w)"

definition good_step :: "agro_event \<Rightarrow> agro \<Rightarrow> agro \<Rightarrow> bool" where
  "good_step e s s' \<longleftrightarrow> agro_ok s' \<and> command_flow e (shared s) (shared s') \<and> report_flow e (shared s) (shared s')"

lemma flow_of:
  assumes "commands_from (origin e) w w'" "e \<noteq> Applay_turn"
  shows "command_flow e w w'"
  using assms by (auto simp: command_flow_def commands_from_def)

text \<open>The panel.\<close>

lemma panel_step:
  assumes "agro_ok s" "gui_sent (shared s) (f ((st_panel s)\<lparr>gfw := shared s\<rparr>))" "panel_ok (f ((st_panel s)\<lparr>gfw := shared s\<rparr>))"
    "origin e = SOURCE_GUI" "e \<noteq> Applay_turn" "report_flow e = (\<lambda>w w'. reports w' = reports w)"
  shows "good_step e s (on_panel f s)"
  using assms flow_of [of e] commands_ok
  by (auto simp: good_step_def agro_ok_def on_panel_def Let_def gui_sent_def panel_ok_def)

lemma panel_steps:
  assumes "agro_ok s"
  shows "good_step Panel_turn s (on_panel my_gui_pump_rx_queue s)"
    "good_step (Panel_switch b) s (on_panel (\<lambda>g. fan_switch_event_cb (g\<lparr>switch_on := b\<rparr>)) s)"
    "good_step (Panel_slider v) s (on_panel (\<lambda>g. fan_slider_event_cb (g\<lparr>slider := max 0 (min 100 v)\<rparr>)) s)"
proof -
  let ?g = "(st_panel s)\<lparr>gfw := shared s\<rparr>"
  have w: "fw_ok (shared s)" "panel_ok ?g" using assms by (simp_all add: agro_ok_def panel_ok_def)
  have "gui_sent (shared s) (my_gui_pump_rx_queue ?g)" using pump_sent(1) [of ?g] w(1) by simp
  from panel_step [where e = Panel_turn and f = my_gui_pump_rx_queue, OF assms this pump_panel [OF w(2)]]
  show "good_step Panel_turn s (on_panel my_gui_pump_rx_queue s)" by (simp add: origin_def report_flow_def fun_eq_iff)
  have "gui_sent (shared s) (fan_switch_event_cb (?g\<lparr>switch_on := b\<rparr>))"
    using controls_sent(1) [of "?g\<lparr>switch_on := b\<rparr>"] w(1) by simp
  from panel_step [where e = "Panel_switch b" and f = "\<lambda>g. fan_switch_event_cb (g\<lparr>switch_on := b\<rparr>)", OF assms this controls_panel(1) [OF w(2)]]
  show "good_step (Panel_switch b) s (on_panel (\<lambda>g. fan_switch_event_cb (g\<lparr>switch_on := b\<rparr>)) s)"
    by (simp add: origin_def report_flow_def fun_eq_iff)
  have "gui_sent (shared s) (fan_slider_event_cb (?g\<lparr>slider := max 0 (min 100 v)\<rparr>))"
    using controls_sent(3) [of "?g\<lparr>slider := max 0 (min 100 v)\<rparr>"] w(1) by simp
  from panel_step [where e = "Panel_slider v" and f = "\<lambda>g. fan_slider_event_cb (g\<lparr>slider := max 0 (min 100 v)\<rparr>)",
      OF assms this controls_panel(2) [OF w(2)]]
  show "good_step (Panel_slider v) s (on_panel (\<lambda>g. fan_slider_event_cb (g\<lparr>slider := max 0 (min 100 v)\<rparr>)) s)"
    by (simp add: origin_def report_flow_def fun_eq_iff)
qed

text \<open>The MQTT task.\<close>

lemma input_ok: "mqtt_ok (mqtt_input w ins m) = mqtt_ok m" "mfw (mqtt_input w ins m) = w" "others (mqtt_input w ins m) = []"
  by (simp_all add: mqtt_input_def mqtt_ok_def esp_ok_def)

lemma start_keeps:
  assumes "mqtt_ok m" "mqtt_task_start uart4 m = r"
  shows "\<exists>x. r = Some x \<and> (case x of Inl m' \<Rightarrow> mfw m' = mfw m | Inr (ph, pt, m') \<Rightarrow> mqtt_ok m' \<and> mfw m' = mfw m)"
proof -
  note d = delay_keeps [OF assms(1), of 2000]
  have ok: "esp_ok (vTaskDelay 2000 m)" using d(1) by (simp add: mqtt_ok_def)
  from esp8266_init_result [OF this, of uart4] obtain e m1 where
    i: "esp8266_init uart4 (vTaskDelay 2000 m) = Some (e, m1)" "esp_ok m1" "esp.more m1 = esp.more (vTaskDelay 2000 m)" by blast
  have k: "mqtt_ok m1" "mfw m1 = mfw m"
    using mqtt_ok_core [OF i(2) more_core(1) [OF i(3)] d(1)] more_mfw [OF more_core(3) [OF i(3)]] more_mfw [OF d(3)] by simp_all
  let ?m2 = "snd (mqtt_client_init (Some MQTT_CLIENT_ID) (Some []) (Some []) 10 m1)"
  have "mqtt_ok ?m2" "mfw ?m2 = mfw m" using k by (simp_all add: mqtt_client_init_def mqtt_ok_def)
  then show ?thesis using assms(2) i(1) k(2) by (cases "e = ESP_OK") (auto simp: mqtt_task_start_def Let_def)
qed

lemma mqtt_steps:
  assumes "agro_ok s"
  shows "\<exists>s'. agro_turn (Mqtt_turn ins) s = Some s' \<and> good_step (Mqtt_turn ins) s s'"
proof -
  have w: "fw_ok (shared s)" and l: "life_ok (st_mqtt s)" using assms by (simp_all add: agro_ok_def)
  have none: "command_flow (Mqtt_turn ins) (shared s) (shared s)" "report_flow (Mqtt_turn ins) (shared s) (shared s)"
    by (simp_all add: command_flow_def report_flow_def)
  show ?thesis
  proof (cases "st_mqtt s")
    case (Mqtt_new m)
    then have "mqtt_ok (mqtt_input (shared s) ins m)" using l by (simp add: life_ok_def input_ok)
    from start_keeps [OF this refl, of ESP_OK, unfolded input_ok(2)] obtain x where x: "mqtt_task_start ESP_OK (mqtt_input (shared s) ins m) = Some x"
      "case x of Inl m' \<Rightarrow> mfw m' = shared s | Inr (ph, pt, m') \<Rightarrow> mqtt_ok m' \<and> mfw m' = shared s" by blast
    then show ?thesis using Mqtt_new assms none
      by (auto simp: good_step_def agro_ok_def life_ok_def split: sum.splits)
  next
    case (Mqtt_runs st)
    obtain ph pt m where st: "st = (ph, pt, m)" by (cases st)
    have ok: "mqtt_ok (mqtt_input (shared s) ins m)" using l Mqtt_runs st by (simp add: life_ok_def input_ok)
    obtain ph' pt' m' where t: "mqtt_turn (ph, pt, mqtt_input (shared s) ins m) = Some (ph', pt', m')"
      using turn_total [OF ok, of ph pt] by auto
    have fw: "fw_ok (mfw (mqtt_input (shared s) ins m))" using w by (simp add: input_ok)
    note e = mqtt_effect [OF ok input_ok(3) fw t, unfolded input_ok(2)]
    have "command_flow (Mqtt_turn ins) (shared s) (mfw m')" "report_flow (Mqtt_turn ins) (shared s) (mfw m')" "fw_ok (mfw m')"
      using e(1) flow_of [of "Mqtt_turn ins"] commands_ok by (auto simp: net_turn_def origin_def report_flow_def)
    then show ?thesis using Mqtt_runs st t e(2) assms by (simp add: good_step_def agro_ok_def life_ok_def)
  next
    case (Mqtt_gone m)
    then show ?thesis using assms none by (simp add: good_step_def)
  qed
qed

lemma agro_step:
  assumes "agro_ok s"
  shows "\<exists>s'. agro_turn e s = Some s' \<and> good_step e s s'"
proof (cases e)
  case (Sensor_turn r t0 now)
  have w: "fw_ok (shared s)" using assms by (simp add: agro_ok_def)
  obtain t w' where t: "sensor_step r t0 now (st_sensor s, shared s) = (t, w')" by fastforce
  note k = sensor_effect [OF w, of r t0 now "st_sensor s", unfolded t snd_conv]
  have "command_flow e (shared s) w'" using flow_of [of e] k(1) Sensor_turn by (simp add: origin_def)
  then show ?thesis using Sensor_turn t k(3) commands_ok [OF k(1)] assms by (simp add: good_step_def agro_ok_def report_flow_def)
next
  case (Data_turn now)
  have w: "fw_ok (shared s)" using assms by (simp add: agro_ok_def)
  obtain d w' where t: "data_process_step now [] [] (st_data s, shared s) = (d, w')" by fastforce
  note k = data_effect [OF w, of now "st_data s", unfolded t snd_conv]
  have "command_flow e (shared s) w'" using k(2,3) Data_turn by (simp add: command_flow_def)
  moreover have "report_flow e (shared s) w'" using k(5) Data_turn by (simp add: report_flow_def)
  ultimately show ?thesis using Data_turn t k(1) assms by (simp add: good_step_def agro_ok_def)
next
  case Applay_turn
  have w: "fw_ok (shared s)" using assms by (simp add: agro_ok_def)
  then show ?thesis using Applay_turn applay_effect [OF w] assms
    by (simp add: good_step_def agro_ok_def command_flow_def report_flow_def)
next
  case (Lora_turn es)
  show ?thesis
  proof (cases "lora_ready s = 0")
    case False
    then show ?thesis using Lora_turn assms by (simp add: good_step_def command_flow_def report_flow_def)
  next
    case True
    let ?s = "(st_lora s)\<lparr>fw := shared s\<rparr>"
    have w: "fw_ok (fw ?s)" using assms by (simp add: agro_ok_def)
    note k = lora_effect [OF w, of es]
    have "rx_ok ?s" using assms by (simp add: agro_ok_def rx_ok_def)
    then have "rx_ok (lora_step [] (fold lora_irq es ?s))" by (intro lora_step_rx_ok rx_ok_irqs)
    moreover have "command_flow e (shared s) (fw (lora_step [] (fold lora_irq es ?s)))"
      using flow_of [of e] k(1) Lora_turn by (simp add: origin_def)
    ultimately show ?thesis using Lora_turn True k(2) commands_ok [OF k(1)] assms
      by (simp add: good_step_def agro_ok_def report_flow_def Let_def)
  qed
next
  case (Mqtt_turn ins)
  then show ?thesis using mqtt_steps [OF assms] by simp
qed (use panel_steps [OF assms] in simp_all)

section \<open>Runs\<close>

definition executed :: "agro_note list \<Rightarrow> applay_msg_t list" where
  "executed ns = concat (map (\<lambda>n. case n of Executed m \<Rightarrow> [m] | _ \<Rightarrow> []) ns)"

definition averaged :: "agro_note list \<Rightarrow> env_avg_t list" where
  "averaged ns = concat (map (\<lambda>n. case n of Averaged a \<Rightarrow> [a] | _ \<Rightarrow> []) ns)"

definition taken :: "agro_note list \<Rightarrow> (agro_link \<times> env_avg_t) list" where
  "taken ns = concat (map (\<lambda>n. case n of Taken l a \<Rightarrow> [(l, a)] | _ \<Rightarrow> []) ns)"

lemma notes_append [simp]:
  "executed (ns @ ns') = executed ns @ executed ns'" "averaged (ns @ ns') = averaged ns @ averaged ns'"
  "taken (ns @ ns') = taken ns @ taken ns'" "executed [] = []" "averaged [] = []" "taken [] = []"
  by (simp_all add: executed_def averaged_def taken_def)

lemma notes_map [simp]:
  "executed (map Executed ms) = ms" "executed (map Averaged as) = []" "executed (map (Taken l) as) = []"
  "averaged (map Executed ms) = []" "averaged (map Averaged as) = as" "averaged (map (Taken l) as) = []"
  "taken (map Executed ms) = []" "taken (map Averaged as) = []" "taken (map (Taken l) as) = map (Pair l) as"
  by (induction ms; induction as; simp add: executed_def averaged_def taken_def)+

lemma executed_step: "executed (noted e s s') = (if e = Applay_turn then take 1 (cmds (shared s)) else [])"
  by (cases e) (simp_all add: noted_def)

lemma run_step:
  assumes "agro_ok s" "agro_run (e # es) s = Some (ns, s')"
  obtains s1 ns1 where "agro_turn e s = Some s1" "good_step e s s1" "agro_ok s1" "agro_run es s1 = Some (ns1, s')"
    "ns = noted e s s1 @ ns1"
proof -
  obtain s1 where s1: "agro_turn e s = Some s1" "good_step e s s1" using agro_step [OF assms(1)] by blast
  then show thesis using that assms(2) by (auto simp: good_step_def)
qed

lemma run_total: "agro_ok s \<Longrightarrow> \<exists>ns s'. agro_run es s = Some (ns, s') \<and> agro_ok s'"
proof (induction es arbitrary: s)
  case (Cons e es)
  obtain s1 where s1: "agro_turn e s = Some s1" "agro_ok s1" using agro_step [OF Cons.prems] by (auto simp: good_step_def)
  from Cons.IH [OF s1(2)] s1(1) show ?case by auto
qed simp

text \<open>The hardware part of the actuators depends on the executed commands only.\<close>

lemma dispatch_hw_part:
  assumes "hw_part a = hw_part b"
  shows "hw_part (applay_dispatch (Some m) a) = hw_part (applay_dispatch (Some m) b)"
proof -
  have f: "pwm_compare a = pwm_compare b" "gpioc a = gpioc b" "heat_running a = heat_running b"
    "humid_running a = humid_running b" "fan_mutex a = fan_mutex b" using assms by (simp_all add: hw_part_def)
  have fan: "hw_part (fan_apply (Some m) a) = hw_part (fan_apply (Some m) b)"
  proof (cases "fan_cmd (source m) (val m)")
    case None
    then show ?thesis using f by (simp add: fan_apply_ignored hw_part_def)
  next
    case (Some c)
    then obtain pwm pct where "fan_cmd (source m) (val m) = Some (pwm, pct)" by (cases c) auto
    then show ?thesis using f by (simp add: fan_apply_cmd fan_effect_def hw_part_def HAL_GPIO_WritePin_def)
  qed
  show ?thesis using f fan
    by (cases "target m") (simp_all add: applay_dispatch_def heat_apply_eq humid_apply_eq hw_part_def HAL_GPIO_WritePin_def)
qed

definition carry_out :: "applay_msg_t list \<Rightarrow> actuators \<Rightarrow> actuators" where
  "carry_out ms = fold (\<lambda>m. applay_dispatch (Some m)) ms"

lemma carry_out_hw_part: "hw_part a = hw_part b \<Longrightarrow> hw_part (carry_out ms a) = hw_part (carry_out ms b)"
proof (induction ms arbitrary: a b)
  case (Cons m ms)
  from Cons.IH [OF dispatch_hw_part [OF Cons.prems]] show ?case by (simp add: carry_out_def)
qed (simp add: carry_out_def)

lemma carry_out_append: "carry_out (ms @ ms') a = carry_out ms' (carry_out ms a)"
  by (simp add: carry_out_def)

definition known_command :: "applay_msg_t \<Rightarrow> bool" where
  "known_command m \<longleftrightarrow> source m \<noteq> SOURCE_KEY \<and>
     (target m \<noteq> APPLAY_TARGET_FAN \<longrightarrow> source m = SOURCE_LORA \<or> source m = SOURCE_NETWORK)"

lemma own_known: "own_command (origin e) m \<Longrightarrow> known_command m"
  by (cases e) (auto simp: own_command_def known_command_def origin_def)

lemma run_commands:
  assumes "agro_ok s" "agro_run es s = Some (ns, s')"
  shows "(\<exists>sent. executed ns @ cmds (shared s') = cmds (shared s) @ sent \<and> (\<forall>m \<in> set sent. known_command m)) \<and>
    hw_part (act (shared s')) = hw_part (carry_out (executed ns) (act (shared s)))"
  using assms
proof (induction es arbitrary: s ns)
  case Nil
  then show ?case by (simp add: carry_out_def)
next
  case (Cons e es)
  obtain s1 ns1 where s1: "good_step e s s1" "agro_ok s1" "agro_run es s1 = Some (ns1, s')" "ns = noted e s s1 @ ns1"
    using run_step [OF Cons.prems] by metis
  obtain sent where IH: "executed ns1 @ cmds (shared s') = cmds (shared s1) @ sent" "\<forall>m \<in> set sent. known_command m"
    "hw_part (act (shared s')) = hw_part (carry_out (executed ns1) (act (shared s1)))"
    using Cons.IH [OF s1(2,3)] by blast
  have f: "command_flow e (shared s) (shared s1)" using s1(1) by (simp add: good_step_def)
  show ?case
  proof (cases "e = Applay_turn")
    case True
    have "act (shared s1) = carry_out (take 1 (cmds (shared s))) (act (shared s))"
      using f True by (cases "cmds (shared s)") (simp_all add: command_flow_def carry_out_def)
    then have "hw_part (act (shared s')) = hw_part (carry_out (executed ns) (act (shared s)))"
      using IH(3) s1(4) True by (simp add: executed_step carry_out_append)
    moreover have "take 1 (cmds (shared s)) @ cmds (shared s1) = cmds (shared s)"
      using f True by (cases "cmds (shared s)") (simp_all add: command_flow_def)
    then have "take 1 (cmds (shared s)) @ (executed ns1 @ cmds (shared s')) = cmds (shared s) @ sent"
      unfolding IH(1) by (metis append_assoc)
    then have "executed ns @ cmds (shared s') = cmds (shared s) @ sent"
      using s1(4) True by (simp add: executed_step)
    ultimately show ?thesis using IH(2) by blast
  next
    case False
    obtain ms where ms: "cmds (shared s1) = cmds (shared s) @ ms" "\<forall>m \<in> set ms. own_command (origin e) m"
      "hw_part (act (shared s1)) = hw_part (act (shared s))"
      using f False by (auto simp: command_flow_def)
    have "executed ns = executed ns1" using s1(4) False by (simp add: executed_step)
    then show ?thesis using IH ms own_known carry_out_hw_part [OF ms(3), of "executed ns1"]
      by (intro conjI exI [of _ "ms @ sent"]) auto
  qed
qed

lemma run_reports:
  assumes "agro_ok s" "agro_run es s = Some (ns, s')"
  shows "map snd (taken ns) @ reports (shared s') = reports (shared s) @ averaged ns"
  using assms
proof (induction es arbitrary: s ns)
  case (Cons e es)
  obtain s1 ns1 where s1: "good_step e s s1" "agro_ok s1" "agro_run es s1 = Some (ns1, s')" "ns = noted e s s1 @ ns1"
    using run_step [OF Cons.prems] by metis
  note IH = Cons.IH [OF s1(2,3)]
  have f: "report_flow e (shared s) (shared s1)" using s1(1) by (simp add: good_step_def)
  have "map snd (taken (noted e s s1)) @ reports (shared s1) = reports (shared s) @ averaged (noted e s s1)"
    using f by (cases e; cases "reports (shared s)") (auto simp: noted_def report_flow_def comp_def)
  moreover have "averaged (noted e s s1) = [] \<or> taken (noted e s s1) = []" by (cases e) (simp_all add: noted_def)
  ultimately show ?case using IH s1(4) by auto
qed simp

section \<open>Properties\<close>



text \<open>C2: every command any task gets into the queue is executed exactly once and in the order of
  arrival, or still waits; and whatever the tasks do in between, the outputs of the actuators
  are what the executed commands, carried out one after the other, make of them.\<close>

theorem commands_executed_once:
  assumes "agro_ok s" and "agro_run es s = Some (ns, s')"
  shows "(\<exists>sent. executed ns @ cmds (shared s') = cmds (shared s) @ sent \<and> (\<forall>m \<in> set sent. known_command m)) \<and>
    hw_part (act (shared s')) = hw_part (carry_out (executed ns) (act (shared s)))"
  by (rule run_commands [OF assms])

lemma commands_executed_once_witness:
  "\<exists>ns s' sent. agro_run [Panel_switch True, Applay_turn, Lora_turn [], Applay_turn] agro_boot = Some (ns, s') \<and>
     executed ns @ cmds (shared s') = sent"
proof -
  obtain ns s' where r: "agro_run [Panel_switch True, Applay_turn, Lora_turn [], Applay_turn] agro_boot = Some (ns, s')"
    using run_total [OF boot_ok] by blast
  then show ?thesis using commands_executed_once [OF boot_ok r] by blast
qed


lemma lora_heat_run:
  "\<exists>ns s'. agro_run [Lora_turn (map Uart_Rxne (lora_packet 2 1) @ [Tim_Update]), Applay_turn] agro_boot = Some (ns, s') \<and>
     executed ns = [\<lparr>target = APPLAY_TARGET_HEAT, val = 1, source = SOURCE_LORA\<rparr>] \<and> heater_on (act (shared s'))"
proof -
  let ?m = "\<lparr>target = APPLAY_TARGET_HEAT, val = 1, source = SOURCE_LORA\<rparr>"
  let ?es = "map Uart_Rxne (lora_packet 2 1) @ [Tim_Update]"
  have b: "(st_lora agro_boot)\<lparr>fw := shared agro_boot\<rparr> = lora_boot" "lora_ready agro_boot = 0"
    by (simp_all add: agro_boot_def lora_boot_def)
  define w where "w = fw (lora_step [] (fold lora_irq ?es lora_boot))"
  have "lora_command 2 1 = Some ?m" by (simp add: lora_command_def)
  then have c: "cmds w = [?m]"
    using command_turn [OF lora_boot_ok(1,2) _ lora_boot_ok(3) q10, of "[]" "[]" 2 1]
    by (auto simp: Let_def w_def cmds_def)
  have fw: "fw_ok (fw lora_boot)" using boot_ok by (simp add: agro_ok_def agro_boot_def lora_boot_def)
  note k = lora_effect(1) [OF fw, of ?es, folded w_def]
  have a: "hw_part (act w) = hw_part act_boot" using k by (simp add: commands_from_def lora_boot_def firmware_boot_def)
  obtain s1 where s1: "agro_turn (Lora_turn ?es) agro_boot = Some s1" "shared s1 = w"
    using b by (simp add: w_def Let_def)
  have o: "cmds (applay_turn w) = []" "act (applay_turn w) = applay_dispatch (Some ?m) (act w)"
    using applay_effect(2,3) [OF commands_ok [OF k]] c by simp_all
  have "heater_on (act (applay_turn w))"
    unfolding o(2) using a by (simp add: applay_dispatch_def heat_apply_eq gpio_write_pin)
  moreover have "executed (noted (Lora_turn ?es) agro_boot s1) = []" "executed (noted Applay_turn s1 x) = [?m]" for x
    using c s1(2) by (simp_all add: executed_step)
  ultimately show ?thesis using s1 by simp
qed



definition agro_reporting :: agro where
  "agro_reporting = agro_boot\<lparr>shared := firmware_boot\<lparr>ReportQueue := Some one_report\<rparr>\<rparr>"

lemma reporting_ok: "agro_ok agro_reporting" "reports (shared agro_reporting) = [some_avg]"
proof -
  show "agro_ok agro_reporting" using boot_ok one_report_ok(1)
    by (auto simp: agro_ok_def agro_reporting_def agro_boot_def fw_ok_def)
  show "reports (shared agro_reporting) = [some_avg]" by (simp add: agro_reporting_def reports_def one_report_ok(2))
qed


text \<open>From the wire to the motor.\<close>

lemma run_phase_turn:
  assumes "mqtt_ok m" "mqtt_loop (Some mqtt_on_message) m = Some m1" "fw_ok (mfw m1)"
  shows "\<exists>ph' pt' m'. mqtt_turn (MQTT_PHASE_RUN, pt, m) = Some (ph', pt', m') \<and> cmds (mfw m') = cmds (mfw m1)"
proof -
  have ok: "esp_ok m" using assms(1) by (simp add: mqtt_ok_def)
  have ok1: "mqtt_ok m1" "esp_ok m1"
    using agro.loop_total [OF ok] assms(2) mqtt_ok_core2 [OF _ _ assms(1)] by auto
  show ?thesis
  proof (cases "mqtt_is_connected m1")
    case True
    obtain r where r: "ReportQueue (mfw m1) = Some r" "q_ok 2 r" using assms(3) by (auto elim: fw_okE)
    obtain q' where q': "mfw (mqtt_report m1) = (mfw m1)\<lparr>ReportQueue := Some q'\<rparr>"
      using report_taken [OF ok1(2) r] by blast
    have "mfw (vTaskDelay 100 (mqtt_report m1)) = mfw (mqtt_report m1)"
      by (rule more_mfw [OF delay_keeps(3) [OF mqtt_report_keeps(1) [OF ok1(1)]]])
    then have "cmds (mfw (vTaskDelay 100 (mqtt_report m1))) = cmds (mfw m1)" using q' by (simp add: cmds_def)
    then show ?thesis using run_turn [OF assms(2) True, of pt] by blast
  next
    case False
    define m2 where "m2 = snd (mqtt_disconnect m1)"
    have "mfw m2 = mfw m1" unfolding m2_def by (rule more_mfw [OF operations_more(4) [OF ok1(2)]])
    moreover have "mqtt_turn (MQTT_PHASE_RUN, pt, m) = Some (MQTT_PHASE_INIT, ticks m2, m2)"
      using assms(2) False by (simp add: mqtt_turn_def phase_step_def phase_guard_def Let_def m2_def)
    ultimately show ?thesis by auto
  qed
qed

text \<open>The command queue after a turn that finds one control text in the ring.\<close>

lemma network_turn:
  assumes "agro_ok s" "st_mqtt s = Mqtt_runs (MQTT_PHASE_RUN, pt, m)" "ring_bytes (s_rx m) = ipd_frame (None, pkt)"
    "build_publish cap topic (ctrl_json t v) len 0 pid = Some pkt" "length pkt \<le> 512" "length topic < 128"
    "length (ctrl_json t v) = unat len" "unat len \<le> 127" "t = ''fan'' \<or> t = ''heat'' \<or> t = ''humid''"
    "length (cmds (shared s)) < 10"
  shows "\<exists>s1. agro_turn (Mqtt_turn []) s = Some s1 \<and> agro_ok s1 \<and> hw_part (act (shared s1)) = hw_part (act (shared s)) \<and>
    cmds (shared s1) = cmds (shared s) @ (case net_command t (wrap32 (int v)) of None \<Rightarrow> [] | Some c \<Rightarrow> [c])"
proof -
  define x where "x = mqtt_input (shared s) [] m"
  have ok: "mqtt_ok x" using assms(1,2) by (simp add: agro_ok_def life_ok_def x_def input_ok)
  have ring: "ring_bytes (s_rx x) = ipd_frame (None, pkt)" using assms(3) by (simp add: x_def mqtt_input_def del: length_ring_bytes)
  obtain q where q: "ActuatorCmdQueue (shared s) = Some q" "q_ok 10 q" using assms(1) by (auto simp: agro_ok_def elim: fw_okE)
  then have len: "length (q_list q) < 10" using assms(10) by (simp add: cmds_def)
  obtain r b x1 where l: "mqtt_loop (Some mqtt_on_message) x = Some x1"
    "mqtt.more x1 = mqtt.more (mqtt_on_message topic (ctrl_json t v) (x\<lparr>s_rx := r, s_rx_buf := b\<rparr>))"
    using publish_frame_loop [OF ok ring assms(4-7)] by blast
  have nn: "0 \<notin> set (ctrl_json t v)" by (rule ctrl_no_nul) (use assms(9) in \<open>auto simp: ascii_def\<close>)
  have ne: "ctrl_json t v \<noteq> []" "length (ctrl_json t v) \<le> 127" using assms(7,8) by (simp_all add: ctrl_json_def)
  have qx: "ActuatorCmdQueue (mfw (x\<lparr>s_rx := r, s_rx_buf := b\<rparr>)) = Some q" using q(1) by (simp add: x_def input_ok)
  obtain q' where q': "mfw x1 = (shared s)\<lparr>ActuatorCmdQueue := Some q'\<rparr>" "q_ok 10 q'"
    "q_list q' = q_list q @ (case net_command t (wrap32 (int v)) of None \<Rightarrow> [] | Some c \<Rightarrow> [c])"
    using on_message_command [OF ctrl_command [OF assms(9), of v] nn ne qx q(2) len, of topic] more_mfw [OF l(2)]
    by (auto simp: x_def input_ok)
  have "fw_ok (mfw x1)" using assms(1) q'(1,2) by (auto simp: agro_ok_def fw_ok_def)
  from run_phase_turn [OF ok l(1) this, of pt] obtain ph' pt' m' where
    t: "mqtt_turn (MQTT_PHASE_RUN, pt, x) = Some (ph', pt', m')" "cmds (mfw m') = cmds (mfw x1)" by blast
  have turn: "agro_turn (Mqtt_turn []) s = Some (s\<lparr>st_mqtt := Mqtt_runs (ph', pt', m'), shared := mfw m'\<rparr>)" (is "_ = Some ?s1")
    using assms(2) t(1) by (simp add: x_def)
  then have g: "good_step (Mqtt_turn []) s ?s1" using agro_step [OF assms(1), of "Mqtt_turn []"] by auto
  have "cmds (shared ?s1) = cmds (shared s) @ (case net_command t (wrap32 (int v)) of None \<Rightarrow> [] | Some c \<Rightarrow> [c])"
    using t(2) q'(1,3) q(1) by (simp add: cmds_def)
  then show ?thesis using turn g by (intro exI [of _ ?s1]) (auto simp: good_step_def command_flow_def)
qed

lemma fan_word: "v \<le> 3 \<Longrightarrow> fan_cmd SOURCE_NETWORK (word_of_int (int v)) = Some (100 * int v, word_of_int (if v = 3 then 100 else 33 * int v))"
proof -
  assume "v \<le> 3"
  then have "v = 0 \<or> v = 1 \<or> v = 2 \<or> v = 3" by auto
  then show ?thesis by (auto simp: fan_cmd_def)
qed

text \<open>C3: a fan command of the cloud reaches the motor: published on whatever topic as a control text
  and received as one frame, it is decoded, queued, taken by the actuator task and drives the PWM
  at a third of its range per level; from then on the fan is in manual mode.\<close>

theorem network_fan_end_to_end:
  assumes "agro_ok s" and "st_mqtt s = Mqtt_runs (MQTT_PHASE_RUN, pt, m)" and "ring_bytes (s_rx m) = ipd_frame (None, pkt)"
    and "build_publish cap topic (ctrl_json ''fan'' v) len 0 pid = Some pkt" and "length pkt \<le> 512" and "length topic < 128"
    and "length (ctrl_json ''fan'' v) = unat len" and "unat len \<le> 127" and "v \<le> 3" and "cmds (shared s) = []"
  shows "\<exists>ns s'. agro_run [Mqtt_turn [], Applay_turn] s = Some (ns, s') \<and> cmds (shared s') = [] \<and>
    executed ns = [\<lparr>target = APPLAY_TARGET_FAN, val = word_of_int (int v), source = SOURCE_NETWORK\<rparr>] \<and>
    pwm_compare (act (shared s')) = 100 * int v \<and> fan_lit (act (shared s')) = (v \<noteq> 0) \<and> mode_control (act (shared s')) = 1"
proof -
  let ?c = "\<lparr>target = APPLAY_TARGET_FAN, val = word_of_int (int v), source = SOURCE_NETWORK\<rparr>"
  have len: "length (cmds (shared s)) < 10" using assms(10) by simp
  have n: "net_command ''fan'' (wrap32 (int v)) = Some ?c" using assms(9) by (simp add: net_command_def wrap32_def)
  obtain s1 where s1: "agro_turn (Mqtt_turn []) s = Some s1" "agro_ok s1" "cmds (shared s1) = [?c]"
    using network_turn [OF assms(1-8) _ len] n assms(10) by auto
  have w: "fw_ok (shared s1)" using s1(2) by (simp add: agro_ok_def)
  define w2 where "w2 = applay_turn (shared s1)"
  have o: "cmds w2 = []" "act w2 = applay_dispatch (Some ?c) (act (shared s1))"
    using applay_effect(2,3) [OF w] s1(3) by (simp_all add: w2_def)
  have "fan_cmd (source ?c) (val ?c) = Some (100 * int v, word_of_int (if v = 3 then 100 else 33 * int v))"
    using fan_word [OF assms(9)] by simp
  from fan_apply_cmd [OF this, of "act (shared s1)"]
  have "pwm_compare (act w2) = 100 * int v" "fan_lit (act w2) = (v \<noteq> 0)" "mode_control (act w2) = 1"
    unfolding o(2) by (simp_all add: applay_dispatch_def fan_effect_def gpio_write_pin)
  moreover have "executed (noted (Mqtt_turn []) s s1) = []" "executed (noted Applay_turn s1 x) = [?c]" for x
    using s1(3) by (simp_all add: executed_step)
  ultimately show ?thesis using s1(1) o(1) by (simp add: w2_def [symmetric])
qed

definition agro_online :: "ring_t \<Rightarrow> agro" where
  "agro_online r = agro_boot\<lparr>st_mqtt := Mqtt_runs (MQTT_PHASE_RUN, 0, mqtt_sys_boot\<lparr>s_rx := r\<rparr>)\<rparr>"

lemma network_fan_end_to_end_witness:
  "\<exists>pkt ns s'. build_publish 512 MQTT_TOPIC_CTRL (ctrl_json ''fan'' 2) 26 0 0 = Some pkt \<and>
     agro_run [Mqtt_turn [], Applay_turn] (agro_online (fold (\<lambda>b r. snd (ring_push r b)) (ipd_frame (None, pkt)) ring_init)) = Some (ns, s') \<and>
     pwm_compare (act (shared s')) = 200"
proof -
  have len: "length (ctrl_json ''fan'' 2) = 26" by (simp add: ctrl_json_def json_key_def dec_digits.simps [of 2])
  obtain pkt where b: "build_publish 512 MQTT_TOPIC_CTRL (ctrl_json ''fan'' 2) 26 0 0 = Some pkt"
    by (simp add: build_publish_def Let_def)
  have lp: "length pkt \<le> 512" using build_publish_length [OF b] .
  let ?r = "fold (\<lambda>b r. snd (ring_push r b)) (ipd_frame (None, pkt)) ring_init"
  note r = frame_in_ring [OF lp]
  define m where "m = mqtt_sys_boot\<lparr>s_rx := ?r\<rparr>"
  have "mqtt_ok m" using mqtt_sys_boot_ok(1) r(1) by (simp add: mqtt_ok_def esp_ok_def m_def)
  then have ok: "agro_ok (agro_online ?r)" using boot_ok by (simp add: agro_ok_def agro_online_def life_ok_def m_def)
  have st: "st_mqtt (agro_online ?r) = Mqtt_runs (MQTT_PHASE_RUN, 0, m)" by (simp add: agro_online_def m_def)
  have ring: "ring_bytes (s_rx m) = ipd_frame (None, pkt)" using r(2) by (simp add: m_def)
  have c: "cmds (shared (agro_online ?r)) = []" by (simp add: agro_online_def agro_boot_def firmware_boot_def cmds_def)
  have "\<exists>ns s'. agro_run [Mqtt_turn [], Applay_turn] (agro_online ?r) = Some (ns, s') \<and> pwm_compare (act (shared s')) = 100 * int 2"
    using network_fan_end_to_end [OF ok st ring b lp _ _ _ _ c] len by fastforce
  then show ?thesis using b by (simp del: agro_run.simps)
qed

text \<open>C16: the end of an alarm switches the ventilation off and keeps it off: the panel's command for 0
  counts as a manual one, so the automatic control sends nothing in its next turn, whatever the
  readings are, and notes the level it wanted as sent. As the alarm ends at a CO2 concentration
  of 1500 and the automatic control ventilates above 1000, this is the normal course.\<close>

theorem alarm_end_blocks_auto:
  assumes "agro_ok s" and "cmds (shared s) = []" and "alert_auto_on (st_panel s)" and "shown (shared s) = [a]" and "\<not> alarm a"
  shows "\<exists>ns s'. agro_run [Panel_turn, Applay_turn, Sensor_turn r t0 now] s = Some (ns, s') \<and>
    executed ns = [gui_fan 0] \<and> cmds (shared s') = [] \<and> pwm_compare (act (shared s')) = 0 \<and>
    last_auto_cmd (st_sensor s') = fan_level r"
proof -
  define g where "g = (st_panel s)\<lparr>gfw := shared s\<rparr>"
  have w: "fw_ok (shared s)" "rows_ok g" "0 \<le> slider g" "slider g \<le> 100" "alert_auto_on g" "gfw g = shared s"
    using assms(1,3) by (simp_all add: agro_ok_def g_def)
  obtain l c where q: "LV_RXDataQueue (shared s) = Some l" "q_ok 1 l" "ActuatorCmdQueue (shared s) = Some c" "q_ok 10 c"
    using w(1) by (auto elim: fw_okE)
  have c0: "q_list c = []" "q_list l = [a]" using assms(2,4) q by (simp_all add: cmds_def shown_def)
  obtain m l' where m: "xQueueReceive l 0 [] = (m, l')" by fastforce
  have ma: "m = Some a" using receive_alone(3) [OF q(2), of 0] m c0(2) by simp
  define g1 where "g1 = g\<lparr>gfw := (shared s)\<lparr>LV_RXDataQueue := Some l'\<rparr>\<rparr>"
  have p: "my_gui_pump_rx_queue g = apply_avg_to_gui a g1"
    using q(1) m ma w(6) by (simp add: my_gui_pump_rx_queue_def g1_def)
  have h1: "rows_ok g1" "0 \<le> slider g1" "slider g1 \<le> 100" "ActuatorCmdQueue (gfw g1) = Some c" "alert_auto_on g1"
    using w q(3) by (simp_all add: g1_def)
  obtain q' where q': "ActuatorCmdQueue (gfw (apply_avg_to_gui a g1)) = Some q'" "q_list q' = [gui_fan 0]"
    using apply_turn [OF h1(1-4) q(4), of a] c0(1) assms(5) h1(5) by auto
  define s1 where "s1 = on_panel my_gui_pump_rx_queue s"
  have s1: "agro_turn Panel_turn s = Some s1" "cmds (shared s1) = [gui_fan 0]"
    using q' by (simp_all add: s1_def on_panel_def Let_def g_def [symmetric] p cmds_def)
  have ok1: "fw_ok (shared s1)" "agro_ok s1"
    using agro_step [OF assms(1), of Panel_turn] s1(1) by (auto simp: good_step_def agro_ok_def)
  define s2 where "s2 = s1\<lparr>shared := applay_turn (shared s1)\<rparr>"
  have s2: "agro_turn Applay_turn s1 = Some s2" "cmds (shared s2) = []" "fw_ok (shared s2)"
    "act (shared s2) = applay_dispatch (Some (gui_fan 0)) (act (shared s1))"
    using applay_effect [OF ok1(1)] s1(2) by (simp_all add: s2_def)
  have "fan_cmd (source (gui_fan 0)) (val (gui_fan 0)) = Some (0, 0)" by (simp add: gui_fan_def fan_cmd_def)
  from fan_apply_cmd [OF this] have off: "pwm_compare (act (shared s2)) = 0" "mode_control (act (shared s2)) = 1"
    unfolding s2(4) by (simp_all add: applay_dispatch_def fan_effect_def gui_fan_def)
  obtain t w' where t: "sensor_step r t0 now (st_sensor s2, shared s2) = (t, w')" by fastforce
  define s3 where "s3 = s2\<lparr>st_sensor := t, shared := w'\<rparr>"
  have s3: "agro_turn (Sensor_turn r t0 now) s2 = Some s3" using t by (simp add: s3_def)
  obtain c2 where c2: "ActuatorCmdQueue (shared s2) = Some c2" using s2(3) by (auto elim: fw_okE)
  have "ActuatorCmdQueue w' = Some c2" using step_cmd_queue [OF c2, of r t0 now "st_sensor s2"] off(2) t by simp
  then have "cmds (shared s3) = []" using s2(2) c2 by (simp add: s3_def cmds_def)
  moreover have "last_auto_cmd (st_sensor s3) = fan_level r"
    using step_auto_cmd [of r t0 now "st_sensor s2" "shared s2"] t by (simp add: s3_def)
  moreover have "pwm_compare (act (shared s3)) = 0"
    using sensor_rest(3) [of r t0 now "st_sensor s2" "shared s2"] t off(1) by (simp add: s3_def hw_part_def)
  moreover have "executed (noted Panel_turn s s1) = []" "executed (noted Applay_turn s1 s2) = [gui_fan 0]"
    "executed (noted (Sensor_turn r t0 now) s2 s3) = []"
    using s1(2) by (simp_all add: executed_step)
  ultimately show ?thesis using s1(1) s2(1) s3 by (simp del: agro_turn.simps)
qed

definition alarm_mail :: "env_avg_t queue" where
  "alarm_mail = snd (xQueueOverwrite (prvInitialiseNewQueue 1) (co2_report 1400))"

lemma alarm_mail_ok: "q_list alarm_mail = [co2_report 1400]" "q_ok 1 alarm_mail"
proof -
  have "q_ok 1 (prvInitialiseNewQueue 1 :: env_avg_t queue)" by (rule q_ok_new) simp
  from overwrite_facts(2,3) [OF this, of "co2_report 1400"]
  show "q_list alarm_mail = [co2_report 1400]" "q_ok 1 alarm_mail" by (simp_all only: alarm_mail_def)
qed

definition agro_alarm :: agro where
  "agro_alarm = agro_boot\<lparr>shared := firmware_boot\<lparr>LV_RXDataQueue := Some alarm_mail\<rparr>,
     st_panel := gui_boot\<lparr>alert_auto_on := True\<rparr>\<rparr>"

lemma alarm_end_blocks_auto_witness:
  "\<exists>ns s'. agro_run [Panel_turn, Applay_turn, Sensor_turn (quiet_reading\<lparr>r_co2 := 1400\<rparr>) 60000 60000] agro_alarm = Some (ns, s') \<and>
     pwm_compare (act (shared s')) = 0 \<and> last_auto_cmd (st_sensor s') = APPLAY_VAL_HI"
proof -
  have ok: "agro_ok agro_alarm" using boot_ok alarm_mail_ok(2)
    by (auto simp: agro_ok_def agro_alarm_def agro_boot_def fw_ok_def rows_ok_def)
  have h: "cmds (shared agro_alarm) = []" "alert_auto_on (st_panel agro_alarm)" "shown (shared agro_alarm) = [co2_report 1400]"
    "\<not> alarm (co2_report 1400)"
    using alarm_mail_ok(1) by (simp_all add: agro_alarm_def cmds_def shown_def firmware_boot_def alarm_def co2_report_def)
  have "fan_level (quiet_reading\<lparr>r_co2 := 1400\<rparr>) = APPLAY_VAL_HI" by (simp add: fan_level_def quiet_reading_def)
  then show ?thesis using alarm_end_blocks_auto [OF ok h, of "quiet_reading\<lparr>r_co2 := 1400\<rparr>" 60000 60000] by (auto simp del: agro_run.simps)
qed

end
